(* ===== verification/Prelude.thy ===== *)
theory Prelude
  imports Main "HOL-Library.Word" "HOL-Library.Monad_Syntax"
begin

text \<open>
  Shared vocabulary of the development: the machine integers of the C sources, byte memory
  with faulting accesses, little-endian loads and stores, and the byte-order macros of
  \<^verbatim>\<open>lib/libbpf/src/bpf_endian.h\<close>.

  A memory region (a packet, a map value, a stack buffer) is a list of bytes and a pointer into
  it is an offset. A load or store that leaves the region is the value \<open>None\<close>: that is what a
  memory fault is in every theory of the development, so a theorem saying that an operation is
  never \<open>None\<close> says that it never reads or writes outside its buffers. The host is little endian,
  as \<^verbatim>\<open>xdp_prog_kern_02.c\<close> says of itself and as the x86 targets of the repository are.
\<close>

unbundle bit_operations_syntax

section \<open>Machine integers\<close>

type_synonym u8 = "8 word"
type_synonym u16 = "16 word"
type_synonym u32 = "32 word"
type_synonym u64 = "64 word"
type_synonym mem = "u8 list"

named_theorems mem_simps \<open>rewriting loads and stores\<close>
named_theorems mem_dests \<open>what a successful access says of its bounds\<close>

lemma not_bit_u8 [simp]: "8 \<le> n \<Longrightarrow> \<not> bit (w::u8) n"
  using bit_imp_le_length [of w n] by fastforce

lemma not_bit_u16 [simp]: "16 \<le> n \<Longrightarrow> \<not> bit (w::u16) n"
  using bit_imp_le_length [of w n] by fastforce

lemma not_bit_u32 [simp]: "32 \<le> n \<Longrightarrow> \<not> bit (w::u32) n"
  using bit_imp_le_length [of w n] by fastforce

lemma not_bit_u64 [simp]: "64 \<le> n \<Longrightarrow> \<not> bit (w::u64) n"
  using bit_imp_le_length [of w n] by fastforce

lemma unat_lt_8: "unat (w::u8) < 256"
  using unsigned_less [where ?'a = nat, of w] by simp

lemma unat_lt_16: "unat (w::u16) < 65536"
  using unsigned_less [where ?'a = nat, of w] by simp

lemma unat_ucast_8_16 [simp]: "unat (ucast (w::u8) :: u16) = unat w"
  using unat_lt_8 [of w] by (simp add: unsigned_ucast_eq take_bit_nat_def)

lemma unat_ucast_16_32 [simp]: "unat (ucast (w::u16) :: u32) = unat w"
  using unat_lt_16 [of w] by (simp add: unsigned_ucast_eq take_bit_nat_def)

lemma unat_ucast_8_32 [simp]: "unat (ucast (w::u8) :: u32) = unat w"
  using unat_lt_8 [of w] by (simp add: unsigned_ucast_eq take_bit_nat_def)

lemma word_add_lt: "unat a + unat b < 2 ^ LENGTH('a) \<Longrightarrow> unat (a + b) = unat a + unat b"
  for a b :: "'a::len word"
  by (simp add: unat_word_ariths)

lemma unat_pos: "w \<noteq> 0 \<Longrightarrow> 0 < unat w" for w :: "'a::len word"
  by (simp add: unat_gt_0)

lemma take_app: "n = length xs \<Longrightarrow> take n (xs @ ys) = xs"
  by simp

lemma drop_app: "n = length xs \<Longrightarrow> drop n (xs @ ys) = ys"
  by simp

section \<open>Error numbers\<close>

definition ENOENT :: int where "ENOENT = 2"
definition ENOMEM :: int where "ENOMEM = 12"
definition EEXIST :: int where "EEXIST = 17"
definition EINVAL :: int where "EINVAL = 22"
definition ENAMETOOLONG :: int where "ENAMETOOLONG = 36"
definition EMSGSIZE :: int where "EMSGSIZE = 90"
definition ENOTSUP :: int where "ENOTSUP = 95"

section \<open>Byte memory\<close>

definition ld8 :: "mem \<Rightarrow> nat \<Rightarrow> u8 option" where
  "ld8 m i = (if i < length m then Some (m ! i) else None)"

definition st8 :: "mem \<Rightarrow> nat \<Rightarrow> u8 \<Rightarrow> mem option" where
  "st8 m i b = (if i < length m then Some (m[i := b]) else None)"

text \<open>\<open>ldn\<close> and \<open>stn\<close> are the two halves of a \<^verbatim>\<open>memcpy\<close> of \<open>n\<close> bytes.\<close>

definition ldn :: "mem \<Rightarrow> nat \<Rightarrow> nat \<Rightarrow> mem option" where
  "ldn m i n = (if i + n \<le> length m then Some (take n (drop i m)) else None)"

definition patch :: "mem \<Rightarrow> nat \<Rightarrow> mem \<Rightarrow> mem" where
  "patch m i bs = take i m @ bs @ drop (i + length bs) m"

definition stn :: "mem \<Rightarrow> nat \<Rightarrow> mem \<Rightarrow> mem option" where
  "stn m i bs = (if i + length bs \<le> length m then Some (patch m i bs) else None)"

definition le16 :: "u8 \<Rightarrow> u8 \<Rightarrow> u16" where
  "le16 b0 b1 = ucast b0 OR push_bit 8 (ucast b1)"

definition le32 :: "u8 \<Rightarrow> u8 \<Rightarrow> u8 \<Rightarrow> u8 \<Rightarrow> u32" where
  "le32 b0 b1 b2 b3 = ucast b0 OR push_bit 8 (ucast b1) OR push_bit 16 (ucast b2) OR push_bit 24 (ucast b3)"

definition le16_bytes :: "u16 \<Rightarrow> mem" where
  "le16_bytes w = [ucast w, ucast (drop_bit 8 w)]"

definition le32_bytes :: "u32 \<Rightarrow> mem" where
  "le32_bytes w = [ucast w, ucast (drop_bit 8 w), ucast (drop_bit 16 w), ucast (drop_bit 24 w)]"

definition ld16 :: "mem \<Rightarrow> nat \<Rightarrow> u16 option" where
  "ld16 m i = (if i + 2 \<le> length m then Some (le16 (m ! i) (m ! (i + 1))) else None)"

definition ld32 :: "mem \<Rightarrow> nat \<Rightarrow> u32 option" where
  "ld32 m i = (if i + 4 \<le> length m
     then Some (le32 (m ! i) (m ! (i + 1)) (m ! (i + 2)) (m ! (i + 3))) else None)"

definition ld64 :: "mem \<Rightarrow> nat \<Rightarrow> u64 option" where
  "ld64 m i = do { lo \<leftarrow> ld32 m i; hi \<leftarrow> ld32 m (i + 4); Some (ucast lo OR push_bit 32 (ucast hi)) }"

definition st16 :: "mem \<Rightarrow> nat \<Rightarrow> u16 \<Rightarrow> mem option" where
  "st16 m i w = stn m i (le16_bytes w)"

definition st32 :: "mem \<Rightarrow> nat \<Rightarrow> u32 \<Rightarrow> mem option" where
  "st32 m i w = stn m i (le32_bytes w)"

lemma le16_bytes_sel [simp]:
  "ucast (le16 a b) = (a::u8)" "ucast (drop_bit 8 (le16 a b)) = (b::u8)"
  unfolding le16_def by (rule bit_word_eqI, auto simp: bit_simps)+

lemma le16_split [simp]: "le16 (ucast w) (ucast (drop_bit 8 w)) = w"
  unfolding le16_def by (rule bit_word_eqI) (auto simp: bit_simps)

lemma le16_bytes_le16 [simp]: "le16_bytes (le16 a b) = [a, b]"
  by (simp add: le16_bytes_def)

lemma le16_eq_iff [simp]: "le16 a b = le16 c d \<longleftrightarrow> a = c \<and> b = d"
  by (metis le16_bytes_sel)

lemma le32_bytes_sel [simp]:
  "ucast (le32 a b c d) = (a::u8)" "ucast (drop_bit 8 (le32 a b c d)) = (b::u8)"
  "ucast (drop_bit 16 (le32 a b c d)) = (c::u8)" "ucast (drop_bit 24 (le32 a b c d)) = (d::u8)"
  unfolding le32_def by (rule bit_word_eqI, auto simp: bit_simps)+

lemma le32_split [simp]:
  "le32 (ucast w) (ucast (drop_bit 8 w)) (ucast (drop_bit 16 w)) (ucast (drop_bit 24 w)) = w"
  (is "?l = w")
proof (rule bit_word_eqI)
  fix n assume "n < LENGTH(32)"
  then consider "n < 8" | "8 \<le> n" "n < 16" | "16 \<le> n" "n < 24" | "24 \<le> n" "n < 32"
    by fastforce
  then show "bit ?l n = bit w n"
    by cases (auto simp: le32_def bit_simps)
qed

lemma le32_eq_iff [simp]: "le32 a b c d = le32 a' b' c' d' \<longleftrightarrow> a = a' \<and> b = b' \<and> c = c' \<and> d = d'"
  by (metis le32_bytes_sel)

lemma unat_le16: "unat (le16 a b) = unat a + 256 * unat b"
proof -
  have "le16 a b = ucast a + push_bit 8 (ucast b)"
    unfolding le16_def
    by (rule disjunctive_add [symmetric]) (auto simp: bit_simps)
  also have "unat \<dots> = unat a + 256 * unat b"
    using unat_lt_8 [of a] unat_lt_8 [of b]
    by (simp add: push_bit_eq_mult unat_word_ariths)
  finally show ?thesis .
qed

lemma length_le_bytes [simp]: "length (le16_bytes w) = 2" "length (le32_bytes v) = 4"
  by (simp_all add: le16_bytes_def le32_bytes_def)


section \<open>Loads and stores\<close>

lemma ld8_eq_Some [mem_dests]: "ld8 m i = Some b \<longleftrightarrow> i < length m \<and> b = m ! i"
  by (auto simp: ld8_def)

lemma ldn_eq_Some [mem_dests]: "ldn m i n = Some bs \<longleftrightarrow> i + n \<le> length m \<and> bs = take n (drop i m)"
  by (auto simp: ldn_def)

lemma stn_eq_Some [mem_dests]: "stn m i bs = Some m' \<longleftrightarrow> i + length bs \<le> length m \<and> m' = patch m i bs"
  by (auto simp: stn_def)

lemma st8_eq_Some [mem_dests]: "st8 m i b = Some m' \<longleftrightarrow> i < length m \<and> m' = m[i := b]"
  by (auto simp: st8_def)

lemma ld_in_bounds [mem_simps]:
  "i < length m \<Longrightarrow> ld8 m i = Some (m ! i)"
  "i + 2 \<le> length m \<Longrightarrow> ld16 m i = Some (le16 (m ! i) (m ! (i + 1)))"
  "i + 4 \<le> length m \<Longrightarrow> ld32 m i = Some (le32 (m ! i) (m ! (i + 1)) (m ! (i + 2)) (m ! (i + 3)))"
  "i + n \<le> length m \<Longrightarrow> ldn m i n = Some (take n (drop i m))"
  by (simp_all add: ld8_def ld16_def ld32_def ldn_def)

lemma ld64_in_bounds: "i + 8 \<le> length m \<Longrightarrow> \<exists>v. ld64 m i = Some v"
  by (simp add: ld64_def ld32_def)

lemma st_in_bounds [mem_simps]:
  "i < length m \<Longrightarrow> st8 m i b = Some (m[i := b])"
  "i + 2 \<le> length m \<Longrightarrow> st16 m i w = Some (patch m i (le16_bytes w))"
  "i + 4 \<le> length m \<Longrightarrow> st32 m i v = Some (patch m i (le32_bytes v))"
  "i + length bs \<le> length m \<Longrightarrow> stn m i bs = Some (patch m i bs)"
  by (simp_all add: st8_def st16_def st32_def stn_def)

lemma length_patch [simp]: "i + length bs \<le> length m \<Longrightarrow> length (patch m i bs) = length m"
  by (simp add: patch_def)

lemma nth_patch:
  "i + length bs \<le> length m \<Longrightarrow> j < length m \<Longrightarrow>
   patch m i bs ! j = (if i \<le> j \<and> j < i + length bs then bs ! (j - i) else m ! j)"
  by (auto simp: patch_def nth_append min_def not_less)

lemma patch_id [simp]: "i + n \<le> length m \<Longrightarrow> patch m i (take n (drop i m)) = m"
  by (auto simp: patch_def min_def intro!: nth_equalityI simp: nth_append)

lemma patch_append:
  "i = length xs \<Longrightarrow> length bs = length ys \<Longrightarrow> patch (xs @ ys @ zs) i bs = xs @ bs @ zs"
  by (simp add: patch_def)

lemma patch_snoc:
  assumes "i + length bs < length m"
  shows "(patch m i bs)[i + length bs := b] = patch m i (bs @ [b])"
proof -
  have "drop (i + length bs) m = m ! (i + length bs) # drop (Suc (i + length bs)) m"
    using assms by (simp add: Cons_nth_drop_Suc)
  then show ?thesis using assms by (simp add: patch_def list_update_append)
qed

lemma take_drop_patch:
  "i + length bs \<le> length m \<Longrightarrow> n = length bs \<Longrightarrow> take n (drop i (patch m i bs)) = bs"
  by (simp add: patch_def)

text \<open>An access to the middle of \<open>a @ m @ r\<close> is an access to \<open>m\<close>.\<close>

lemma ld_mid:
  "i < length m \<Longrightarrow> ld8 (a @ m @ r) (length a + i) = ld8 m i"
  "i + 2 \<le> length m \<Longrightarrow> ld16 (a @ m @ r) (length a + i) = ld16 m i"
  "i + n \<le> length m \<Longrightarrow> ldn (a @ m @ r) (length a + i) n = ldn m i n"
  by (auto simp: ld8_def ld16_def ldn_def nth_append)

lemma patch_mid: "i + length bs \<le> length m \<Longrightarrow> patch (a @ m @ r) (length a + i) bs = a @ patch m i bs @ r"
  by (simp add: patch_def)

lemma st_mid:
  "i < length m \<Longrightarrow> st8 (a @ m @ r) (length a + i) b = Some (a @ m[i := b] @ r)"
  "i + 2 \<le> length m \<Longrightarrow> st16 (a @ m @ r) (length a + i) w = Some (a @ patch m i (le16_bytes w) @ r)"
  "i + length bs \<le> length m \<Longrightarrow> stn (a @ m @ r) (length a + i) bs = Some (a @ patch m i bs @ r)"
  by (auto simp: st8_def st16_def stn_def patch_mid list_update_append)

section \<open>Loops with a faulting body\<close>

text \<open>A loop over the indices \<open>xs\<close> whose body may fault: it ends with the first fault.\<close>

fun ofold :: "('a \<Rightarrow> 's \<Rightarrow> 's option) \<Rightarrow> 'a list \<Rightarrow> 's \<Rightarrow> 's option" where
  "ofold f [] s = Some s"
| "ofold f (x # xs) s = do { s' \<leftarrow> f x s; ofold f xs s' }"

lemma ofold_append: "ofold f (xs @ ys) s = do { s' \<leftarrow> ofold f xs s; ofold f ys s' }"
  by (induction xs arbitrary: s) (auto split: Option.bind_split)

lemma ofold_snoc: "ofold f (xs @ [x]) s = do { s' \<leftarrow> ofold f xs s; f x s' }"
  by (auto simp: ofold_append split: Option.bind_split)

lemma ofold_total:
  assumes "I s" and "\<And>x s. x \<in> set xs \<Longrightarrow> I s \<Longrightarrow> \<exists>s'. f x s = Some s' \<and> I s'"
  shows "\<exists>s'. ofold f xs s = Some s' \<and> I s'"
  using assms
proof (induction xs arbitrary: s)
  case (Cons x xs)
  obtain s1 where "f x s = Some s1" "I s1" using Cons.prems(1) Cons.prems(2) [of x s] by auto
  then show ?case using Cons.IH [of s1] Cons.prems(2) by simp
qed simp

lemma ofold_pure: "\<forall>x\<in>set xs. \<forall>s. f x s = Some (g x s) \<Longrightarrow> ofold f xs s = Some (fold g xs s)"
  by (induction xs arbitrary: s) auto

text \<open>Byte stores to successive indices write one block.\<close>

lemma ofold_stores:
  "lo \<le> hi \<Longrightarrow> hi \<le> length m \<Longrightarrow>
   ofold (\<lambda>i m. st8 m i (f i)) [lo..<hi] m = Some (patch m lo (map f [lo..<hi]))"
proof (induction hi rule: dec_induct)
  case base
  then show ?case by (simp add: patch_def)
next
  case (step hi)
  then show ?case
    using patch_snoc [of lo "map f [lo..<hi]" m "f hi"] by (simp add: ofold_snoc st8_def)
qed

section \<open>Byte order: \<^verbatim>\<open>bpf_endian.h\<close>\<close>

text \<open>
  \<^verbatim>\<open>___bpf_mvb(x, b, n, m)\<close> for \<open>b = 16\<close> and \<open>b = 32\<close>. A 16-bit operand is promoted to
  \<^verbatim>\<open>int\<close> before it is shifted, hence the 32-bit result of the first one.
\<close>

definition bpf_mvb16 :: "u16 \<Rightarrow> nat \<Rightarrow> nat \<Rightarrow> u32" where
  "bpf_mvb16 x n m = push_bit (m * 8) (drop_bit (16 - 8) (push_bit (16 - (n + 1) * 8) (ucast x)))"

definition bpf_mvb32 :: "u32 \<Rightarrow> nat \<Rightarrow> nat \<Rightarrow> u32" where
  "bpf_mvb32 x n m = push_bit (m * 8) (drop_bit (32 - 8) (push_bit (32 - (n + 1) * 8) x))"

definition bpf_swab16 :: "u16 \<Rightarrow> u16" where
  "bpf_swab16 x = ucast (bpf_mvb16 x 0 1 OR bpf_mvb16 x 1 0)"

definition bpf_swab32 :: "u32 \<Rightarrow> u32" where
  "bpf_swab32 x = bpf_mvb32 x 0 3 OR bpf_mvb32 x 1 2 OR bpf_mvb32 x 2 1 OR bpf_mvb32 x 3 0"

definition bpf_htons :: "u16 \<Rightarrow> u16" where
  "bpf_htons x = bpf_swab16 x"

definition bpf_ntohs :: "u16 \<Rightarrow> u16" where
  "bpf_ntohs x = bpf_swab16 x"

definition bpf_htonl :: "u32 \<Rightarrow> u32" where
  "bpf_htonl x = bpf_swab32 x"

definition bpf_ntohl :: "u32 \<Rightarrow> u32" where
  "bpf_ntohl x = bpf_swab32 x"

lemma swab16_le16 [simp]: "bpf_swab16 (le16 a b) = le16 b a"
proof (rule bit_word_eqI)
  fix n assume "n < LENGTH(16)"
  then consider "n < 8" | "8 \<le> n" "n < 16" by fastforce
  then show "bit (bpf_swab16 (le16 a b)) n = bit (le16 b a) n"
    by cases (auto simp: bpf_swab16_def bpf_mvb16_def le16_def bit_simps)
qed

lemma swab32_le32 [simp]: "bpf_swab32 (le32 a b c d) = le32 d c b a"
proof (rule bit_word_eqI)
  fix n assume "n < LENGTH(32)"
  then consider "n < 8" | "8 \<le> n" "n < 16" | "16 \<le> n" "n < 24" | "24 \<le> n" "n < 32"
    by fastforce
  then show "bit (bpf_swab32 (le32 a b c d)) n = bit (le32 d c b a) n"
    by cases (auto simp: bpf_swab32_def bpf_mvb32_def le32_def bit_simps)
qed

lemma swab16_swab16 [simp]: "bpf_swab16 (bpf_swab16 x) = x"
  by (metis le16_split swab16_le16)

lemma swab32_swab32 [simp]: "bpf_swab32 (bpf_swab32 x) = x"
  by (metis le32_split swab32_le32)

lemmas byte_order_defs = bpf_htons_def bpf_ntohs_def bpf_htonl_def bpf_ntohl_def

section \<open>Trace refinement\<close>

text \<open>
  A component as a machine: each operation returns a result and a new state. A specification says which
  results an operation may return in an abstract state and how the abstract state then changes.
\<close>

fun run_steps :: "('o \<Rightarrow> 's \<Rightarrow> 'r \<times> 's) \<Rightarrow> 'o list \<Rightarrow> 's \<Rightarrow> 'r list \<times> 's" where
  "run_steps step [] s = ([], s)"
| "run_steps step (c # cs) s =
     (let (r, s1) = step c s; (rs, s2) = run_steps step cs s1 in (r # rs, s2))"

fun spec_run :: "('o \<Rightarrow> 'r \<Rightarrow> 'a \<Rightarrow> bool) \<Rightarrow> ('o \<Rightarrow> 'r \<Rightarrow> 'a \<Rightarrow> 'a) \<Rightarrow> 'o list \<Rightarrow> 'r list \<Rightarrow> 'a \<Rightarrow> 'a option" where
  "spec_run allowed next_st [] [] a = Some a"
| "spec_run allowed next_st (c # cs) (r # rs) a =
     (if allowed c r a then spec_run allowed next_st cs rs (next_st c r a) else None)"
| "spec_run allowed next_st _ _ a = None"

fun guards_hold :: "('o \<Rightarrow> 'a \<Rightarrow> bool) \<Rightarrow> ('o \<Rightarrow> 'r \<Rightarrow> 'a \<Rightarrow> 'a) \<Rightarrow> 'o list \<Rightarrow> 'r list \<Rightarrow> 'a \<Rightarrow> bool" where
  "guards_hold guard next_st (c # cs) (r # rs) a \<longleftrightarrow>
     guard c a \<and> guards_hold guard next_st cs rs (next_st c r a)"
| "guards_hold guard next_st _ _ a \<longleftrightarrow> True"

text \<open>
  \<open>guard\<close> is what the caller owes, \<open>allowed\<close> and \<open>sim\<close> what the component promises in return.
\<close>

locale simulation =
  fixes sim :: "'s \<Rightarrow> 'a \<Rightarrow> bool"
    and step :: "'o \<Rightarrow> 's \<Rightarrow> 'r \<times> 's"
    and guard :: "'o \<Rightarrow> 'a \<Rightarrow> bool"
    and allowed :: "'o \<Rightarrow> 'r \<Rightarrow> 'a \<Rightarrow> bool"
    and next_st :: "'o \<Rightarrow> 'r \<Rightarrow> 'a \<Rightarrow> 'a"
  assumes sim_allowed: "sim s a \<Longrightarrow> guard c a \<Longrightarrow> step c s = (r, s') \<Longrightarrow> allowed c r a"
    and sim_next: "sim s a \<Longrightarrow> guard c a \<Longrightarrow> step c s = (r, s') \<Longrightarrow> sim s' (next_st c r a)"
begin

lemma run_simulates:
  "sim s a \<Longrightarrow> run_steps step cs s = (rs, s') \<Longrightarrow> guards_hold guard next_st cs rs a \<Longrightarrow>
     \<exists>a'. spec_run allowed next_st cs rs a = Some a' \<and> sim s' a'"
proof (induction cs arbitrary: s a rs s')
  case (Cons c cs)
  obtain r s1 where 1: "step c s = (r, s1)" by fastforce
  obtain rs1 s2 where 2: "run_steps step cs s1 = (rs1, s2)" by fastforce
  have rs: "rs = r # rs1" "s' = s2" using Cons.prems(2) 1 2 by simp_all
  then have g: "guard c a" "guards_hold guard next_st cs rs1 (next_st c r a)" using Cons.prems(3) by simp_all
  show ?case
    using Cons.IH [OF sim_next [OF Cons.prems(1) g(1) 1] 2 g(2)] sim_allowed [OF Cons.prems(1) g(1) 1] rs by simp
qed simp

end

text \<open>The case of an abstraction function and no obligation on the caller.\<close>

locale trace_refinement =
  fixes inv :: "'s \<Rightarrow> bool"
    and abs_of :: "'s \<Rightarrow> 'a"
    and step :: "'o \<Rightarrow> 's \<Rightarrow> 'r \<times> 's"
    and allowed :: "'o \<Rightarrow> 'r \<Rightarrow> 'a \<Rightarrow> bool"
    and next_st :: "'o \<Rightarrow> 'r \<Rightarrow> 'a \<Rightarrow> 'a"
  assumes step_inv: "inv s \<Longrightarrow> step c s = (r, s') \<Longrightarrow> inv s'"
    and step_allowed: "inv s \<Longrightarrow> step c s = (r, s') \<Longrightarrow> allowed c r (abs_of s)"
    and step_abs: "inv s \<Longrightarrow> step c s = (r, s') \<Longrightarrow> abs_of s' = next_st c r (abs_of s)"

lemma guards_hold_True: "guards_hold (\<lambda>c a. True) next_st cs rs a"
proof (induction cs arbitrary: rs a)
  case (Cons c cs)
  then show ?case by (cases rs) simp_all
qed simp

sublocale trace_refinement \<subseteq> functional: simulation
  "\<lambda>s a. inv s \<and> a = abs_of s" step "\<lambda>c a. True" allowed next_st
  by unfold_locales (auto simp: step_inv step_allowed step_abs)

context trace_refinement
begin

lemma run_refines:
  "inv s \<Longrightarrow> run_steps step cs s = (rs, s') \<Longrightarrow>
     inv s' \<and> spec_run allowed next_st cs rs (abs_of s) = Some (abs_of s')"
  using functional.run_simulates [of s "abs_of s" cs rs s'] guards_hold_True [of next_st cs rs "abs_of s"] by auto

end

end
