(* ===== verification/Sha256.thy ===== *)
theory Sha256
  imports Prelude
begin

text \<open>
  The SHA-256 of \<^verbatim>\<open>packet-solutions/xdp_prog_kern_02.c\<close> (macros, constants, transform, init,
  update, final) over the two per-CPU array maps it keeps its state in.

  The value of \<^verbatim>\<open>sha256_temp_map\<close> is 384 bytes of memory: \<^verbatim>\<open>sha256_transform\<close> sees it as
  \<^verbatim>\<open>WORD m[64]\<close> from its first byte on, and \<^verbatim>\<open>compute_keyed_hash\<close> sees it as
  \<^verbatim>\<open>BYTE buffer[128]\<close> from the same first byte on. The model keeps the bytes, so that this
  aliasing is visible. A map lookup that returns NULL is \<open>None\<close> in the field of the map.
\<close>

section \<open>Model\<close>

subsection \<open>Macros and constants\<close>

definition ROTLEFT :: "u32 \<Rightarrow> nat \<Rightarrow> u32" where
  "ROTLEFT a b = push_bit b a OR drop_bit (32 - b) a"

definition ROTRIGHT :: "u32 \<Rightarrow> nat \<Rightarrow> u32" where
  "ROTRIGHT a b = drop_bit b a OR push_bit (32 - b) a"

definition CH :: "u32 \<Rightarrow> u32 \<Rightarrow> u32 \<Rightarrow> u32" where
  "CH x y z = (x AND y) XOR (NOT x AND z)"

definition MAJ :: "u32 \<Rightarrow> u32 \<Rightarrow> u32 \<Rightarrow> u32" where
  "MAJ x y z = (x AND y) XOR (x AND z) XOR (y AND z)"

definition EP0 :: "u32 \<Rightarrow> u32" where
  "EP0 x = ROTRIGHT x 2 XOR ROTRIGHT x 13 XOR ROTRIGHT x 22"

definition EP1 :: "u32 \<Rightarrow> u32" where
  "EP1 x = ROTRIGHT x 6 XOR ROTRIGHT x 11 XOR ROTRIGHT x 25"

definition SIG0 :: "u32 \<Rightarrow> u32" where
  "SIG0 x = ROTRIGHT x 7 XOR ROTRIGHT x 18 XOR drop_bit 3 x"

definition SIG1 :: "u32 \<Rightarrow> u32" where
  "SIG1 x = ROTRIGHT x 17 XOR ROTRIGHT x 19 XOR drop_bit 10 x"

text \<open>The table \<^verbatim>\<open>k[64]\<close>, one list per line of the source.\<close>

definition sha256_k :: "u32 list" where
  "sha256_k = concat [
    [0x428a2f98,0x71374491,0xb5c0fbcf,0xe9b5dba5,0x3956c25b,0x59f111f1,0x923f82a4,0xab1c5ed5],
    [0xd807aa98,0x12835b01,0x243185be,0x550c7dc3,0x72be5d74,0x80deb1fe,0x9bdc06a7,0xc19bf174],
    [0xe49b69c1,0xefbe4786,0x0fc19dc6,0x240ca1cc,0x2de92c6f,0x4a7484aa,0x5cb0a9dc,0x76f988da],
    [0x983e5152,0xa831c66d,0xb00327c8,0xbf597fc7,0xc6e00bf3,0xd5a79147,0x06ca6351,0x14292967],
    [0x27b70a85,0x2e1b2138,0x4d2c6dfc,0x53380d13,0x650a7354,0x766a0abb,0x81c2c92e,0x92722c85],
    [0xa2bfe8a1,0xa81a664b,0xc24b8b70,0xc76c51a3,0xd192e819,0xd6990624,0xf40e3585,0x106aa070],
    [0x19a4c116,0x1e376c08,0x2748774c,0x34b0bcb5,0x391c0cb3,0x4ed8aa4a,0x5b9cca4f,0x682e6ff3],
    [0x748f82ee,0x78a5636f,0x84c87814,0x8cc70208,0x90befffa,0xa4506ceb,0xbef9a3f7,0xc67178f2]]"

definition SHA256_BLOCK_SIZE :: nat where
  "SHA256_BLOCK_SIZE = 32"

subsection \<open>State\<close>

record SHA256_CTX =
  ctx_data :: "u8 list"
  datalen :: u32
  bitlen :: u64
  ctx_state :: "u32 list"

record sha_maps =
  sha256_ctx_map :: "SHA256_CTX option"
  sha256_temp_map :: "mem option"

text \<open>
  The arrays of a map value have the length of their C declaration: \<^verbatim>\<open>BYTE data[64]\<close>,
  \<^verbatim>\<open>WORD state[8]\<close>, 384 bytes of scratch memory. Every access to them, to \<^verbatim>\<open>k[64]\<close> and to the
  caller's \<^verbatim>\<open>hash[32]\<close> is checked: an index outside the array is a fault, the value \<open>None\<close>.
  \<open>ctx_upd\<close> is an assignment through the pointer \<^verbatim>\<open>ctx\<close> that the lookup has returned.
\<close>

definition ctx_upd :: "(SHA256_CTX \<Rightarrow> SHA256_CTX option) \<Rightarrow> sha_maps \<Rightarrow> sha_maps option" where
  "ctx_upd f s =
     do { ctx \<leftarrow> sha256_ctx_map s; ctx' \<leftarrow> f ctx; Some (s\<lparr>sha256_ctx_map := Some ctx'\<rparr>) }"

definition data_upd :: "(u8 list \<Rightarrow> u8 list option) \<Rightarrow> sha_maps \<Rightarrow> sha_maps option" where
  "data_upd f = ctx_upd (\<lambda>c. do { d \<leftarrow> f (ctx_data c); Some (c\<lparr>ctx_data := d\<rparr>) })"

definition ldw :: "u32 list \<Rightarrow> nat \<Rightarrow> u32 option" where
  "ldw ws i = (if i < length ws then Some (ws ! i) else None)"

definition stw :: "u32 list \<Rightarrow> nat \<Rightarrow> u32 \<Rightarrow> u32 list option" where
  "stw ws i w = (if i < length ws then Some (ws[i := w]) else None)"

text \<open>The map value seen as the array \<^verbatim>\<open>WORD m[64]\<close>.\<close>

definition m_get :: "mem \<Rightarrow> nat \<Rightarrow> u32 option" where
  "m_get t i = (if i < 64 then ld32 t (4 * i) else None)"

definition m_set :: "mem \<Rightarrow> nat \<Rightarrow> u32 \<Rightarrow> mem option" where
  "m_set t i w = (if i < 64 then st32 t (4 * i) w else None)"

subsection \<open>Operations\<close>

text \<open>
  The bodies of the three loops of \<^verbatim>\<open>sha256_transform\<close>. The guards \<^verbatim>\<open>if (i >= 16) break\<close> and
  \<^verbatim>\<open>if (i >= 64) break\<close> repeat the loop condition, and \<^verbatim>\<open>i - 16 < 0\<close> compares an unsigned number
  with zero; none of them can hold in the index ranges of the loops.
\<close>

definition sched_copy :: "u8 list \<Rightarrow> nat \<Rightarrow> mem \<Rightarrow> mem option" where
  "sched_copy data i temp =
     (let j = i * 4 in
      if j + 3 \<ge> 64 then Some temp
      else do {
        d0 \<leftarrow> ld8 data j; d1 \<leftarrow> ld8 data (j + 1); d2 \<leftarrow> ld8 data (j + 2); d3 \<leftarrow> ld8 data (j + 3);
        m_set temp i (push_bit 24 (ucast d0) OR push_bit 16 (ucast d1) OR push_bit 8 (ucast d2) OR ucast d3)
      })"

definition sched_extend :: "nat \<Rightarrow> mem \<Rightarrow> mem option" where
  "sched_extend i temp =
     do {
       m2 \<leftarrow> m_get temp (i - 2); m7 \<leftarrow> m_get temp (i - 7);
       m15 \<leftarrow> m_get temp (i - 15); m16 \<leftarrow> m_get temp (i - 16);
       m_set temp i (SIG1 m2 + m7 + SIG0 m15 + m16)
     }"

type_synonym regs = "u32 \<times> u32 \<times> u32 \<times> u32 \<times> u32 \<times> u32 \<times> u32 \<times> u32"

definition sha256_round :: "mem \<Rightarrow> nat \<Rightarrow> regs \<Rightarrow> regs option" where
  "sha256_round temp i = (\<lambda>(a, b, c, d, e, f, g, h).
     do {
       ki \<leftarrow> ldw sha256_k i; mi \<leftarrow> m_get temp i;
       let t1 = h + EP1 e + CH e f g + ki + mi;
       let t2 = EP0 a + MAJ a b c;
       Some (t1 + t2, a, b, c, d + t1, e, f, g)
     })"

definition load_state :: "u32 list \<Rightarrow> regs option" where
  "load_state st =
     do {
       a \<leftarrow> ldw st 0; b \<leftarrow> ldw st 1; c \<leftarrow> ldw st 2; d \<leftarrow> ldw st 3;
       e \<leftarrow> ldw st 4; f \<leftarrow> ldw st 5; g \<leftarrow> ldw st 6; h \<leftarrow> ldw st 7;
       Some (a, b, c, d, e, f, g, h)
     }"

definition add_state :: "regs \<Rightarrow> u32 list \<Rightarrow> u32 list option" where
  "add_state = (\<lambda>(a, b, c, d, e, f, g, h).
     ofold (\<lambda>(i, r) st. do { w \<leftarrow> ldw st i; stw st i (w + r) })
       [(0, a), (1, b), (2, c), (3, d), (4, e), (5, f), (6, g), (7, h)])"

definition sha256_transform :: "u8 list \<Rightarrow> sha_maps \<Rightarrow> (int \<times> sha_maps) option" where
  "sha256_transform data s =
     (case sha256_ctx_map s of
        None \<Rightarrow> Some (-1, s)
      | Some ctx \<Rightarrow> (case sha256_temp_map s of
          None \<Rightarrow> Some (-1, s)
        | Some temp \<Rightarrow>
            do {
              temp1 \<leftarrow> ofold (sched_copy data) [0..<16] temp;
              temp2 \<leftarrow> ofold sched_extend [16..<64] temp1;
              r0 \<leftarrow> load_state (ctx_state ctx);
              r \<leftarrow> ofold (sha256_round temp2) [0..<64] r0;
              st' \<leftarrow> add_state r (ctx_state ctx);
              Some (0, s\<lparr>sha256_ctx_map := Some (ctx\<lparr>ctx_state := st'\<rparr>),
                         sha256_temp_map := Some temp2\<rparr>)
            }))"

definition sha256_init :: "sha_maps \<Rightarrow> (int \<times> sha_maps) option" where
  "sha256_init s =
     (case sha256_ctx_map s of
        None \<Rightarrow> Some (-1, s)
      | Some ctx \<Rightarrow>
          do {
            st \<leftarrow> ofold (\<lambda>(i, w) st. stw st i w)
                   [(0, 0x6a09e667), (1, 0xbb67ae85), (2, 0x3c6ef372), (3, 0xa54ff53a),
                    (4, 0x510e527f), (5, 0x9b05688c), (6, 0x1f83d9ab), (7, 0x5be0cd19)] (ctx_state ctx);
            Some (0, s\<lparr>sha256_ctx_map := Some (ctx\<lparr>datalen := 0, bitlen := 0, ctx_state := st\<rparr>)\<rparr>)
          })"

text \<open>
  \<open>rd\<close> dereferences the caller's \<^verbatim>\<open>data\<close> pointer in the current state: the pointer may point
  into a map that \<^verbatim>\<open>sha256_transform\<close> writes, so each iteration reads the bytes as they are then.
  The loop counter is a 32-bit \<^verbatim>\<open>WORD\<close>, so the model stands for lengths below \<open>2 ^ 32\<close>.
\<close>

definition update_byte :: "u8 \<Rightarrow> SHA256_CTX \<Rightarrow> sha_maps \<Rightarrow> sha_maps option" where
  "update_byte b ctx s =
     do {
       d \<leftarrow> st8 (ctx_data ctx) (unat (datalen ctx)) b;
       let ctx1 = ctx\<lparr>ctx_data := d, datalen := datalen ctx + 1\<rparr>;
       let s1 = s\<lparr>sha256_ctx_map := Some ctx1\<rparr>;
       if datalen ctx1 = 64 then do {
         (_, s2) \<leftarrow> sha256_transform (ctx_data ctx1) s1;
         ctx_upd (\<lambda>c. Some (c\<lparr>bitlen := bitlen c + 512, datalen := 0\<rparr>)) s2
       }
       else Some s1
     }"

fun update_loop :: "(sha_maps \<Rightarrow> nat \<Rightarrow> u8 option) \<Rightarrow> nat list \<Rightarrow> sha_maps \<Rightarrow> sha_maps option" where
  "update_loop rd [] s = Some s"
| "update_loop rd (i # is) s =
     do {
       ctx \<leftarrow> sha256_ctx_map s;
       if datalen ctx \<ge> 64 then Some s
       else do { b \<leftarrow> rd s i; s1 \<leftarrow> update_byte b ctx s; update_loop rd is s1 }
     }"

definition sha256_update ::
  "(sha_maps \<Rightarrow> nat \<Rightarrow> u8 option) \<Rightarrow> nat \<Rightarrow> sha_maps \<Rightarrow> (int \<times> sha_maps) option" where
  "sha256_update rd len s =
     (case sha256_ctx_map s of
        None \<Rightarrow> Some (-1, s)
      | Some ctx \<Rightarrow> do { s1 \<leftarrow> update_loop rd [0..<len] s; Some (0, s1) })"

text \<open>
  The pieces of \<^verbatim>\<open>sha256_final\<close>: the marker byte with its post-increment, the loops that write
  zeros, the eight bytes of the length and the four rounds of the loop that writes the digest.
\<close>

definition put_mark :: "nat \<Rightarrow> u8 list \<Rightarrow> (nat \<times> u8 list) option" where
  "put_mark i d = (if i < 64 then do { d' \<leftarrow> st8 d i 0x80; Some (i + 1, d') } else Some (i, d))"

definition zero_fill :: "nat \<Rightarrow> nat \<Rightarrow> u8 list \<Rightarrow> u8 list option" where
  "zero_fill lo hi d = ofold (\<lambda>i d. st8 d i 0) [lo..<hi] d"

definition put_bitlen :: "u64 \<Rightarrow> u8 list \<Rightarrow> u8 list option" where
  "put_bitlen bl d =
     ofold (\<lambda>(i, sh) d. st8 d i (ucast (drop_bit sh bl)))
       [(56, 56), (57, 48), (58, 40), (59, 32), (60, 24), (61, 16), (62, 8), (63, 0)] d"

definition put_hash :: "u32 list \<Rightarrow> nat \<Rightarrow> u8 list \<Rightarrow> u8 list option" where
  "put_hash st i hash =
     (if i < 32 \<and> i + 4 < 32 \<and> i + 8 < 32 \<and> i + 12 < 32 \<and>
         i + 16 < 32 \<and> i + 20 < 32 \<and> i + 24 < 32 \<and> i + 28 < 32
      then ofold (\<lambda>(k, n) hash. do {
                w \<leftarrow> ldw st n; st8 hash (i + k) (ucast (drop_bit (24 - i * 8) w AND 0x000000ff)) })
             [(0, 0), (4, 1), (8, 2), (12, 3), (16, 4), (20, 5), (24, 6), (28, 7)] hash
      else Some hash)"

definition run_transform :: "sha_maps \<Rightarrow> sha_maps option" where
  "run_transform s =
     do { ctx \<leftarrow> sha256_ctx_map s; (_, s') \<leftarrow> sha256_transform (ctx_data ctx) s; Some s' }"

definition sha256_final :: "u8 list \<Rightarrow> sha_maps \<Rightarrow> (int \<times> u8 list \<times> sha_maps) option" where
  "sha256_final hash s =
     (case sha256_ctx_map s of
        None \<Rightarrow> Some (-1, hash, s)
      | Some ctx \<Rightarrow>
          do {
            let i = (if datalen ctx \<ge> 64 then 0 else unat (datalen ctx));
            s1 \<leftarrow> (if datalen ctx < 56
                   then data_upd (\<lambda>d. do { (i1, d1) \<leftarrow> put_mark i d; zero_fill i1 56 d1 }) s
                   else do {
                     sa \<leftarrow> data_upd (\<lambda>d. do { (i1, d1) \<leftarrow> put_mark i d; zero_fill i1 64 d1 }) s;
                     sb \<leftarrow> run_transform sa;
                     data_upd (zero_fill 0 56) sb
                   });
            s2 \<leftarrow> ctx_upd (\<lambda>c. Some (c\<lparr>bitlen := bitlen c + ucast (datalen c * 8)\<rparr>)) s1;
            s3 \<leftarrow> ctx_upd (\<lambda>c. do { d \<leftarrow> put_bitlen (bitlen c) (ctx_data c); Some (c\<lparr>ctx_data := d\<rparr>) }) s2;
            s4 \<leftarrow> run_transform s3;
            c \<leftarrow> sha256_ctx_map s4;
            hash' \<leftarrow> ofold (put_hash (ctx_state c)) [0..<4] hash;
            Some (0, hash', s4)
          })"

end
