(* ===== verification/Sha256_Correct.thy ===== *)
theory Sha256_Correct
  imports Sha256
begin

text \<open>
  SHA-256 as FIPS 180-4 states it (a function of the message), and the proof that init, update
  and final of the model compute it.
\<close>

section \<open>Specification\<close>

definition be32 :: "u8 \<Rightarrow> u8 \<Rightarrow> u8 \<Rightarrow> u8 \<Rightarrow> u32" where
  "be32 a b c d = le32 d c b a"

definition be32_bytes :: "u32 \<Rightarrow> u8 list" where
  "be32_bytes w = rev (le32_bytes w)"

definition be64_bytes :: "u64 \<Rightarrow> u8 list" where
  "be64_bytes w = map (\<lambda>i. ucast (drop_bit (56 - 8 * i) w)) [0..<8]"

text \<open>The message schedule, section 6.2.2 step 1.\<close>

fun msg_W :: "u8 list \<Rightarrow> nat \<Rightarrow> u32" where
  "msg_W blk t =
     (if t < 16 then be32 (blk ! (4 * t)) (blk ! (4 * t + 1)) (blk ! (4 * t + 2)) (blk ! (4 * t + 3))
      else (word_rotr 17 (msg_W blk (t - 2)) XOR word_rotr 19 (msg_W blk (t - 2))
              XOR drop_bit 10 (msg_W blk (t - 2)))
           + msg_W blk (t - 7)
           + (word_rotr 7 (msg_W blk (t - 15)) XOR word_rotr 18 (msg_W blk (t - 15))
              XOR drop_bit 3 (msg_W blk (t - 15)))
           + msg_W blk (t - 16))"

declare msg_W.simps [simp del]

text \<open>One round, step 3, and the compression of one block, steps 2 to 4.\<close>

definition spec_round :: "u8 list \<Rightarrow> nat \<Rightarrow> regs \<Rightarrow> regs" where
  "spec_round blk t = (\<lambda>(a, b, c, d, e, f, g, h).
     let T1 = h + (word_rotr 6 e XOR word_rotr 11 e XOR word_rotr 25 e)
              + ((e AND f) XOR (NOT e AND g)) + sha256_k ! t + msg_W blk t;
         T2 = (word_rotr 2 a XOR word_rotr 13 a XOR word_rotr 22 a)
              + ((a AND b) XOR (a AND c) XOR (b AND c))
     in (T1 + T2, a, b, c, d + T1, e, f, g))"

definition compress :: "u8 list \<Rightarrow> u32 list \<Rightarrow> u32 list" where
  "compress blk H =
     (let (a, b, c, d, e, f, g, h) =
        fold (spec_round blk) [0..<64] (H ! 0, H ! 1, H ! 2, H ! 3, H ! 4, H ! 5, H ! 6, H ! 7)
      in [H ! 0 + a, H ! 1 + b, H ! 2 + c, H ! 3 + d, H ! 4 + e, H ! 5 + f, H ! 6 + g, H ! 7 + h])"

definition H_init :: "u32 list" where
  "H_init = [0x6a09e667, 0xbb67ae85, 0x3c6ef372, 0xa54ff53a,
             0x510e527f, 0x9b05688c, 0x1f83d9ab, 0x5be0cd19]"

fun hash_blocks :: "nat \<Rightarrow> u8 list \<Rightarrow> u32 list \<Rightarrow> u32 list" where
  "hash_blocks 0 m H = H"
| "hash_blocks (Suc n) m H = hash_blocks n (drop 64 m) (compress (take 64 m) H)"

text \<open>Padding, section 5.1.1, and the digest.\<close>

definition pad :: "u8 list \<Rightarrow> u8 list" where
  "pad m = m @ [0x80] @ replicate ((119 - length m mod 64) mod 64) 0
             @ be64_bytes (word_of_nat (8 * length m))"

definition sha256_spec :: "u8 list \<Rightarrow> u8 list" where
  "sha256_spec m = concat (map be32_bytes (hash_blocks (length (pad m) div 64) (pad m) H_init))"

section \<open>Macros\<close>

declare upt_rec_numeral [simp del]

lemma bit_word_rotr: "bit (word_rotr n w) i \<longleftrightarrow> i < LENGTH('a) \<and> bit w ((i + n) mod LENGTH('a))"
  for w :: "'a::len word"
  by (simp add: bit_word_rotr_iff)

lemma ROTRIGHT_rotr: "0 < n \<Longrightarrow> n < 32 \<Longrightarrow> ROTRIGHT x n = word_rotr n x"
proof (rule bit_word_eqI)
  fix i assume n: "0 < n" "n < 32" and "i < LENGTH(32)"
  then consider "i + n < 32" | "32 \<le> i + n" "i + n < 64" by fastforce
  then show "bit (ROTRIGHT x n) i = bit (word_rotr n x) i"
  proof cases
    case 1 with n show ?thesis by (auto simp: ROTRIGHT_def bit_word_rotr bit_simps add.commute)
  next
    case 2
    then have "(i + n) mod 32 = i - (32 - n)" using n by (simp add: mod_if)
    with 2 n \<open>i < LENGTH(32)\<close> show ?thesis
      by (auto simp: ROTRIGHT_def bit_word_rotr bit_simps)
  qed
qed

lemma be32_shifts:
  "push_bit 24 (ucast a) OR push_bit 16 (ucast b) OR push_bit 8 (ucast c) OR ucast d = be32 a b c d"
  by (simp add: be32_def le32_def or.commute or.left_commute)

lemmas sha_macros = CH_def MAJ_def EP0_def EP1_def SIG0_def SIG1_def ROTRIGHT_rotr

section \<open>The message schedule in memory\<close>

lemma length_sha256_k [simp]: "length sha256_k = 64"
  by (simp add: sha256_k_def)

lemma nth_m_set:
  assumes "i < 64" "j < 64" "length t = 384"
  shows "m_get (patch t (4 * i) (le32_bytes w)) j = (if j = i then Some w else m_get t j)"
proof (cases "i = j")
  case True
  then show ?thesis using assms by (simp add: m_get_def ld32_def nth_patch) (simp add: le32_bytes_def)
next
  case False
  have "patch t (4 * i) (le32_bytes w) ! (4 * j + k) = t ! (4 * j + k)" if "k < 4" for k
  proof -
    have "\<not> (4 * i \<le> 4 * j + k \<and> 4 * j + k < 4 * i + 4)" using that False by linarith
    then show ?thesis using assms that by (auto simp: nth_patch)
  qed
  from this [of 0] this [of 1] this [of 2] this [of 3] False assms
  show ?thesis by (simp add: m_get_def ld32_def)
qed

lemma m_set_result:
  assumes "i < 64" "length t = 384"
  obtains t' where "m_set t i w = Some t'" "length t' = 384"
    "\<And>j. j < 64 \<Longrightarrow> m_get t' j = (if j = i then Some w else m_get t j)"
  using assms nth_m_set [OF assms(1) _ assms(2), of _ w]
  by (intro that [of "patch t (4 * i) (le32_bytes w)"]) (simp_all add: m_set_def mem_simps)

lemma sched_copy_fold:
  "n \<le> 16 \<Longrightarrow> length t = 384 \<Longrightarrow> length d = 64 \<Longrightarrow>
   \<exists>t'. ofold (sched_copy d) [0..<n] t = Some t' \<and> length t' = 384 \<and> (\<forall>i<n. m_get t' i = Some (msg_W d i))"
proof (induction n)
  case (Suc n)
  then obtain t1 where t1: "ofold (sched_copy d) [0..<n] t = Some t1" "length t1 = 384"
    "\<forall>i<n. m_get t1 i = Some (msg_W d i)" by auto
  have step: "sched_copy d n t1 = m_set t1 n (msg_W d n)"
    using Suc.prems by (simp add: sched_copy_def Let_def be32_shifts msg_W.simps [of d n] mult.commute mem_simps)
  have "n < 64" using Suc.prems by simp
  then obtain t2 where "m_set t1 n (msg_W d n) = Some t2" "length t2 = 384"
    "\<And>j. j < 64 \<Longrightarrow> m_get t2 j = (if j = n then Some (msg_W d n) else m_get t1 j)"
    using m_set_result t1(2) by blast
  with t1 step Suc.prems show ?case by (auto simp: ofold_snoc)
qed simp

lemma sched_extend_fold:
  "16 \<le> n \<Longrightarrow> n \<le> 64 \<Longrightarrow> length t = 384 \<Longrightarrow> \<forall>i<16. m_get t i = Some (msg_W d i) \<Longrightarrow>
   \<exists>t'. ofold sched_extend [16..<n] t = Some t' \<and> length t' = 384 \<and> (\<forall>i<n. m_get t' i = Some (msg_W d i))"
proof (induction n rule: nat_induct_at_least)
  case (Suc n)
  then obtain t1 where t1: "ofold sched_extend [16..<n] t = Some t1" "length t1 = 384"
    "\<forall>i<n. m_get t1 i = Some (msg_W d i)" by auto
  have step: "sched_extend n t1 = m_set t1 n (msg_W d n)"
    using Suc.hyps Suc.prems t1 by (simp add: sched_extend_def sha_macros msg_W.simps [of d n])
  have "n < 64" using Suc.prems by simp
  then obtain t2 where "m_set t1 n (msg_W d n) = Some t2" "length t2 = 384"
    "\<And>j. j < 64 \<Longrightarrow> m_get t2 j = (if j = n then Some (msg_W d n) else m_get t1 j)"
    using m_set_result t1(2) by blast
  with t1 step Suc.prems Suc.hyps show ?case by (auto simp: ofold_snoc)
qed simp

definition schedule :: "u8 list \<Rightarrow> mem \<Rightarrow> mem" where
  "schedule d t = the (do { t1 \<leftarrow> ofold (sched_copy d) [0..<16] t; ofold sched_extend [16..<64] t1 })"

lemma schedule_ok:
  assumes "length t = 384" "length d = 64"
  obtains t1 where "ofold (sched_copy d) [0..<16] t = Some t1"
      "ofold sched_extend [16..<64] t1 = Some (schedule d t)"
    and "length (schedule d t) = 384" "\<forall>i<64. m_get (schedule d t) i = Some (msg_W d i)"
proof -
  obtain t1 where t1: "ofold (sched_copy d) [0..<16] t = Some t1" "length t1 = 384"
    "\<forall>i<16. m_get t1 i = Some (msg_W d i)"
    using sched_copy_fold [OF order_refl assms] by auto
  moreover obtain t2 where "ofold sched_extend [16..<64] t1 = Some t2" "length t2 = 384"
    "\<forall>i<64. m_get t2 i = Some (msg_W d i)"
    using sched_extend_fold [OF _ order_refl t1(2,3)] by auto
  ultimately show ?thesis using that by (simp add: schedule_def)
qed

lemma length_schedule [simp]: "length t = 384 \<Longrightarrow> length d = 64 \<Longrightarrow> length (schedule d t) = 384"
  using schedule_ok [of t d] by blast

lemma rounds_spec:
  assumes "\<forall>i<64. m_get t i = Some (msg_W d i)"
  shows "ofold (sha256_round t) [0..<64] r = Some (fold (spec_round d) [0..<64] r)"
  using assms by (intro ofold_pure) (simp add: sha256_round_def spec_round_def sha_macros ldw_def Let_def split: prod.splits)

lemma length_8D: "length ys = 8 \<Longrightarrow> \<exists>a0 a1 a2 a3 a4 a5 a6 a7. ys = [a0, a1, a2, a3, a4, a5, a6, a7]"
  by (auto simp: numeral_eq_Suc length_Suc_conv)

lemma load_state_8:
  "length st = 8 \<Longrightarrow> load_state st = Some (st ! 0, st ! 1, st ! 2, st ! 3, st ! 4, st ! 5, st ! 6, st ! 7)"
  by (simp add: load_state_def ldw_def)

lemma add_state_8:
  assumes "length st = 8"
  shows "add_state (a, b, c, d, e, f, g, h) st =
    Some [st ! 0 + a, st ! 1 + b, st ! 2 + c, st ! 3 + d, st ! 4 + e, st ! 5 + f, st ! 6 + g, st ! 7 + h]"
proof -
  obtain s0 s1 s2 s3 s4 s5 s6 s7 where "st = [s0, s1, s2, s3, s4, s5, s6, s7]"
    using length_8D [OF assms] by blast
  then show ?thesis by (simp add: add_state_def ldw_def stw_def)
qed

lemma sha256_transform_compress:
  assumes "sha256_ctx_map s = Some ctx" "sha256_temp_map s = Some t"
    "length t = 384" "length d = 64" "length (ctx_state ctx) = 8"
  shows "sha256_transform d s =
    Some (0, s\<lparr>sha256_ctx_map := Some (ctx\<lparr>ctx_state := compress d (ctx_state ctx)\<rparr>),
               sha256_temp_map := Some (schedule d t)\<rparr>)"
proof -
  obtain t1 where t1: "ofold (sched_copy d) [0..<16] t = Some t1"
      "ofold sched_extend [16..<64] t1 = Some (schedule d t)"
      "\<forall>i<64. m_get (schedule d t) i = Some (msg_W d i)"
    using schedule_ok [OF assms(3,4)] by blast
  show ?thesis
    using assms t1 rounds_spec [OF t1(3)]
    by (simp add: sha256_transform_def compress_def load_state_8 add_state_8 Let_def split: prod.splits)
qed


lemma length_compress [simp]: "length (compress b H) = 8"
  by (simp add: compress_def Let_def split: prod.splits)

lemma length_hash_blocks [simp]: "length H = 8 \<Longrightarrow> length (hash_blocks n m H) = 8"
  by (induction n arbitrary: m H) (simp_all add: hash_blocks.simps)

lemma length_H_init [simp]: "length H_init = 8"
  by (simp add: H_init_def)

section \<open>Update\<close>

lemma hash_blocks_append:
  "64 * n \<le> length m \<Longrightarrow> hash_blocks n (m @ x) H = hash_blocks n m H"
  by (induction n arbitrary: m H) auto

lemma hash_blocks_Suc:
  "64 * Suc n \<le> length m \<Longrightarrow>
   hash_blocks (Suc n) m H = compress (take 64 (drop (64 * n) m)) (hash_blocks n m H)"
proof (induction n arbitrary: m H)
  case (Suc n)
  have "hash_blocks (Suc (Suc n)) m H = hash_blocks (Suc n) (drop 64 m) (compress (take 64 m) H)"
    by simp
  also have "\<dots> = compress (take 64 (drop (64 * n) (drop 64 m)))
                  (hash_blocks n (drop 64 m) (compress (take 64 m) H))"
    using Suc.prems by (intro Suc.IH) auto
  finally show ?case by (simp add: add.commute)
qed simp

declare hash_blocks.simps(2) [simp del]

text \<open>The state reached after the bytes \<open>m\<close> have been fed to a fresh context.\<close>

definition sha_abs :: "u8 list \<Rightarrow> sha_maps \<Rightarrow> bool" where
  "sha_abs m s \<longleftrightarrow> (\<exists>ctx t. sha256_ctx_map s = Some ctx \<and> sha256_temp_map s = Some t \<and>
     length t = 384 \<and> length (ctx_data ctx) = 64 \<and>
     datalen ctx = word_of_nat (length m mod 64) \<and>
     take (length m mod 64) (ctx_data ctx) = drop (64 * (length m div 64)) m \<and>
     ctx_state ctx = hash_blocks (length m div 64) m H_init \<and>
     bitlen ctx = word_of_nat (512 * (length m div 64)))"

definition maps_wf :: "sha_maps \<Rightarrow> bool" where
  "maps_wf s \<longleftrightarrow> (\<exists>ctx t. sha256_ctx_map s = Some ctx \<and> sha256_temp_map s = Some t \<and>
     length t = 384 \<and> length (ctx_data ctx) = 64 \<and> length (ctx_state ctx) = 8)"

lemma sha_abs_wf: "sha_abs m s \<Longrightarrow> maps_wf s"
  by (auto simp: sha_abs_def maps_wf_def)

lemma sha256_init_result:
  assumes "sha256_ctx_map s = Some ctx" "length (ctx_state ctx) = 8"
  shows "sha256_init s = Some (0, s\<lparr>sha256_ctx_map := Some (ctx\<lparr>datalen := 0, bitlen := 0, ctx_state := H_init\<rparr>)\<rparr>)"
proof -
  obtain s0 s1 s2 s3 s4 s5 s6 s7 where "ctx_state ctx = [s0, s1, s2, s3, s4, s5, s6, s7]"
    using length_8D [OF assms(2)] by blast
  then show ?thesis using assms(1) by (simp add: sha256_init_def stw_def H_init_def)
qed

lemma sha256_init_abs:
  assumes "maps_wf s"
  obtains s' where "sha256_init s = Some (0, s')" "sha_abs [] s'" "sha256_temp_map s' = sha256_temp_map s"
  using assms that sha256_init_result [of s] by (auto simp: sha_abs_def maps_wf_def)

lemma unat_small [simp]: "n \<le> 64 \<Longrightarrow> unat (word_of_nat n :: u32) = n"
  by (simp add: unsigned_of_nat take_bit_nat_eq_self)

lemma unat_numeral_64: "unat (64 :: u32) = 64"
  by simp

lemma datalen_small: "sha_abs m s \<Longrightarrow> sha256_ctx_map s = Some ctx \<Longrightarrow> \<not> 64 \<le> datalen ctx"
  by (auto simp: sha_abs_def word_le_nat_alt not_le)

lemma update_byte_abs:
  assumes abs: "sha_abs m s" and ctx: "sha256_ctx_map s = Some ctx"
  shows "\<exists>s'. update_byte b ctx s = Some s' \<and> sha_abs (m @ [b]) s'"
proof -
  let ?r = "length m mod 64" and ?q = "length m div 64"
  obtain t where t: "sha256_temp_map s = Some t" "length t = 384"
    and d: "length (ctx_data ctx) = 64" "datalen ctx = word_of_nat ?r"
      "take ?r (ctx_data ctx) = drop (64 * ?q) m"
    and st: "ctx_state ctx = hash_blocks ?q m H_init" "bitlen ctx = word_of_nat (512 * ?q)"
    using abs ctx by (auto simp: sha_abs_def)
  let ?d' = "(ctx_data ctx)[?r := b]"
  have r: "?r < 64" by simp
  have d': "take (Suc ?r) ?d' = drop (64 * ?q) m @ [b]"
    using d r by (simp add: take_Suc_conv_app_nth take_update_cancel)
  have len: "datalen ctx + 1 = word_of_nat (Suc ?r)" by (simp add: d)
  have store: "st8 (ctx_data ctx) (unat (datalen ctx)) b = Some ?d'" using d r by (simp add: st8_def)
  show ?thesis
  proof (cases "Suc ?r = 64")
    case True
    have q: "length (m @ [b]) div 64 = Suc ?q" "length (m @ [b]) mod 64 = 0"
      using True by (simp_all add: mod_Suc div_Suc)
    have full: "?d' = drop (64 * ?q) m @ [b]" using d' True d by simp
    have "length (m @ [b]) = 64 * Suc ?q" using q by (metis add.right_neutral mult_div_mod_eq)
    then have "hash_blocks (Suc ?q) (m @ [b]) H_init = compress ?d' (hash_blocks ?q m H_init)"
      unfolding full by (subst hash_blocks_Suc) (auto simp: hash_blocks_append)
    moreover have "datalen ctx + 1 = 64" unfolding len True by simp
    ultimately show ?thesis
      using store d t q st
      by (simp add: sha_abs_def update_byte_def ctx_upd_def sha256_transform_compress [where t = t])
  next
    case False
    then have q: "length (m @ [b]) div 64 = ?q" "length (m @ [b]) mod 64 = Suc ?r"
      by (simp_all add: mod_Suc div_Suc)
    have "word_of_nat (Suc ?r) \<noteq> (64 :: u32)"
      using False r unat_small [of "Suc ?r"] by (metis Suc_leI unat_numeral_64)
    then show ?thesis
      using store d d' t q st r len
      by (auto simp: sha_abs_def update_byte_def Let_def hash_blocks_append)
  qed
qed


text \<open>
  Feeding bytes one by one: \<open>I\<close> is what the source of the bytes relies on, kept by every
  iteration that the loop makes.
\<close>

lemma update_loop_abs:
  assumes "sha_abs m s" and "I m s"
    and "\<And>m s b ctx s'. sha_abs m s \<Longrightarrow> I m s \<Longrightarrow> sha256_ctx_map s = Some ctx \<Longrightarrow>
           length m < n \<Longrightarrow> update_byte b ctx s = Some s' \<Longrightarrow> I (m @ [b]) s'"
    and "\<And>m s i. I m s \<Longrightarrow> i \<in> set is \<Longrightarrow> rd s i = Some (f i)"
    and "length m + length is \<le> n"
  shows "\<exists>s'. update_loop rd is s = Some s' \<and> sha_abs (m @ map f is) s' \<and> I (m @ map f is) s'"
  using assms
proof (induction "is" arbitrary: m s)
  case (Cons i "is")
  obtain ctx where ctx: "sha256_ctx_map s = Some ctx"
    using Cons.prems(1) by (auto simp: sha_abs_def)
  obtain s1 where s1: "update_byte (f i) ctx s = Some s1" "sha_abs (m @ [f i]) s1"
    using update_byte_abs [OF Cons.prems(1) ctx] by blast
  have I: "I (m @ [f i]) s1" using Cons.prems(3) [OF Cons.prems(1,2) ctx _ s1(1)] Cons.prems(5) by simp
  have "update_loop rd (i # is) s = update_loop rd is s1"
    using Cons.prems(4) [OF Cons.prems(2), of i] datalen_small [OF Cons.prems(1) ctx] ctx s1 by simp
  moreover have "\<exists>s'. update_loop rd is s1 = Some s' \<and> sha_abs ((m @ [f i]) @ map f is) s' \<and>
      I ((m @ [f i]) @ map f is) s'"
    using Cons.prems(4,5) by (intro Cons.IH [OF s1(2) I Cons.prems(3)]) auto
  ultimately show ?case by simp
qed simp

lemma sha256_update_abs:
  assumes "sha_abs m s" and "\<And>s i. i < length bs \<Longrightarrow> rd s i = Some (bs ! i)"
  shows "\<exists>s'. sha256_update rd (length bs) s = Some (0, s') \<and> sha_abs (m @ bs) s'"
  using assms update_loop_abs [of m s "\<lambda>_ _. True" "length m + length bs" "[0..<length bs]" rd "\<lambda>i. bs ! i"]
  by (auto simp: sha256_update_def sha_abs_def map_nth)

section \<open>Final\<close>

lemma zero_fill_eq:
  "lo \<le> hi \<Longrightarrow> hi \<le> length d \<Longrightarrow>
   zero_fill lo hi d = Some (take lo d @ replicate (hi - lo) 0 @ drop hi d)"
  by (simp add: zero_fill_def ofold_stores patch_def map_replicate_const)

lemma upt_0_8: "[0..<8] = [0, 1, 2, 3, 4, 5, 6, 7::nat]"
  by (simp add: upt_rec)

lemma put_bitlen_append:
  "length p = 56 \<Longrightarrow> put_bitlen bl (p @ [a0, a1, a2, a3, a4, a5, a6, a7]) = Some (p @ be64_bytes bl)"
  by (simp add: put_bitlen_def st8_def list_update_append be64_bytes_def upt_0_8)

lemma put_bitlen_eq:
  assumes "length d = 64"
  shows "put_bitlen bl d = Some (take 56 d @ be64_bytes bl)"
proof -
  define p where "p = take 56 d"
  have p: "length p = 56" by (simp add: p_def assms)
  obtain a0 a1 a2 a3 a4 a5 a6 a7 where "drop 56 d = [a0, a1, a2, a3, a4, a5, a6, a7]"
    using length_8D [of "drop 56 d"] assms by auto
  then have d: "d = p @ [a0, a1, a2, a3, a4, a5, a6, a7]" by (metis append_take_drop_id p_def)
  have "put_bitlen bl d = Some (p @ be64_bytes bl)"
    unfolding d by (rule put_bitlen_append) (rule p)
  then show ?thesis by (simp add: p_def)
qed

lemma concat_map_nth:
  assumes "\<And>x. length (f x) = n" and "0 < n"
  shows "k < n * length xs \<Longrightarrow> concat (map f xs) ! k = f (xs ! (k div n)) ! (k mod n)"
proof (induction xs arbitrary: k)
  case (Cons x xs)
  show ?case
  proof (cases "k < n")
    case False
    then have "k div n = Suc ((k - n) div n)" "k mod n = (k - n) mod n"
      using assms(2) by (simp_all add: le_div_geq le_mod_geq)
    with False Cons show ?thesis by (simp add: nth_append assms(1))
  qed (simp add: nth_append assms)
qed simp

lemma ucast_and_ff [simp]: "(ucast (w AND 0xff) :: u8) = ucast (w :: u32)"
proof -
  have "w AND 0xff = w AND mask 8" by (simp add: mask_eq_exp_minus_1)
  also have "ucast \<dots> = (ucast w :: u8)" by (rule bit_word_eqI) (auto simp: bit_simps)
  finally show ?thesis .
qed

lemma nth_be32_bytes: "i < 4 \<Longrightarrow> be32_bytes w ! i = ucast (drop_bit (24 - i * 8) w)"
proof -
  assume "i < 4"
  then consider "i = 0" | "i = 1" | "i = 2" | "i = 3" by fastforce
  then show ?thesis by cases (simp_all add: be32_bytes_def le32_bytes_def)
qed

lemma put_hash_result:
  assumes "i < 4" "length h = 32" "length st = 8"
  shows "put_hash st i h = Some (h[i := be32_bytes (st ! 0) ! i, i + 4 := be32_bytes (st ! 1) ! i,
    i + 8 := be32_bytes (st ! 2) ! i, i + 12 := be32_bytes (st ! 3) ! i, i + 16 := be32_bytes (st ! 4) ! i,
    i + 20 := be32_bytes (st ! 5) ! i, i + 24 := be32_bytes (st ! 6) ! i, i + 28 := be32_bytes (st ! 7) ! i])"
  using assms by (simp add: put_hash_def ldw_def st8_def nth_be32_bytes)

lemma put_hash_nth:
  assumes "i < 4" "length h = 32" "length st = 8"
  shows "\<exists>h'. put_hash st i h = Some h' \<and> length h' = 32 \<and>
    (\<forall>k<32. h' ! k = (if k mod 4 = i then be32_bytes (st ! (k div 4)) ! i else h ! k))"
proof (intro exI conjI allI impI)
  show "put_hash st i h = Some (the (put_hash st i h))" "length (the (put_hash st i h)) = 32"
    using assms by (simp_all add: put_hash_result)
  fix k :: nat assume k: "k < 32"
  consider "k div 4 = 0" | "k div 4 = 1" | "k div 4 = 2" | "k div 4 = 3"
    | "k div 4 = 4" | "k div 4 = 5" | "k div 4 = 6" | "k div 4 = 7" using k by fastforce
  moreover have "k = 4 * (k div 4) + k mod 4" by simp
  ultimately show "the (put_hash st i h) ! k = (if k mod 4 = i then be32_bytes (st ! (k div 4)) ! i else h ! k)"
    using assms by cases (auto simp: put_hash_result nth_list_update)
qed

lemma put_hash_fold:
  assumes "length h = 32" "length st = 8"
  shows "ofold (put_hash st) [0..<4] h = Some (concat (map be32_bytes st))"
proof -
  have len4: "length (be32_bytes w) = 4" for w by (simp add: be32_bytes_def)
  have four: "[0..<4] = [0, 1, 2, 3::nat]" by (simp add: upt_rec)
  obtain h0 where h0: "put_hash st 0 h = Some h0" "length h0 = 32"
    "\<forall>k<32. k mod 4 = 0 \<longrightarrow> h0 ! k = be32_bytes (st ! (k div 4)) ! 0"
    using put_hash_nth [of 0 h st] assms by auto
  obtain h1 where h1: "put_hash st 1 h0 = Some h1" "length h1 = 32"
    "\<forall>k<32. h1 ! k = (if k mod 4 = 1 then be32_bytes (st ! (k div 4)) ! 1 else h0 ! k)"
    using put_hash_nth [of 1 h0 st] assms h0 by auto
  obtain h2 where h2: "put_hash st 2 h1 = Some h2" "length h2 = 32"
    "\<forall>k<32. h2 ! k = (if k mod 4 = 2 then be32_bytes (st ! (k div 4)) ! 2 else h1 ! k)"
    using put_hash_nth [of 2 h1 st] assms h1 by auto
  obtain h3 where h3: "put_hash st 3 h2 = Some h3" "length h3 = 32"
    "\<forall>k<32. h3 ! k = (if k mod 4 = 3 then be32_bytes (st ! (k div 4)) ! 3 else h2 ! k)"
    using put_hash_nth [of 3 h2 st] assms h2 by auto
  have "h3 = concat (map be32_bytes st)"
  proof (rule nth_equalityI)
    show "length h3 = length (concat (map be32_bytes st))"
      using assms h3 by (simp add: length_concat len4 comp_def sum_list_triv)
    fix k assume "k < length h3"
    then have k: "k < 32" using h3 by simp
    have "concat (map be32_bytes st) ! k = be32_bytes (st ! (k div 4)) ! (k mod 4)"
      using k assms by (intro concat_map_nth) (auto simp: len4)
    moreover consider "k mod 4 = 0" | "k mod 4 = 1" | "k mod 4 = 2" | "k mod 4 = 3" by fastforce
    then have "h3 ! k = be32_bytes (st ! (k div 4)) ! (k mod 4)"
      using k h0(3) h1(3) h2(3) h3(3) by cases simp_all
    ultimately show "h3 ! k = concat (map be32_bytes st) ! k" by simp
  qed
  then show ?thesis using h0 h1 h2 h3 by (simp add: four)
qed


lemma length_be64 [simp]: "length (be64_bytes w) = 8"
  by (simp add: be64_bytes_def)

text \<open>The blocks of a padded message, in the two cases that \<^verbatim>\<open>sha256_final\<close> distinguishes.\<close>

lemma hash_pad_short:
  assumes len: "length m = 64 * q + r" and r: "r < 56"
  shows "hash_blocks (length (pad m) div 64) (pad m) H =
    compress (drop (64 * q) m @ [0x80] @ replicate (55 - r) 0
                @ be64_bytes (word_of_nat (8 * length m)))
      (hash_blocks q m H)"
proof -
  have "length m mod 64 = r" using len r by simp
  then have z: "(119 - length m mod 64) mod 64 = 55 - r" using r by (simp add: mod_if)
  have n: "length (pad m) = 64 * Suc q" using len r unfolding pad_def z by simp
  have "hash_blocks (Suc q) (pad m) H =
      compress (take 64 (drop (64 * q) (pad m))) (hash_blocks q (pad m) H)"
    by (rule hash_blocks_Suc) (simp add: n)
  moreover have "hash_blocks q (pad m) H = hash_blocks q m H"
    unfolding pad_def by (rule hash_blocks_append) (simp add: len)
  moreover have "take 64 (drop (64 * q) (pad m)) = drop (64 * q) (pad m)" using n by simp
  moreover have "drop (64 * q) (pad m) = drop (64 * q) m @ [0x80] @ replicate (55 - r) 0
      @ be64_bytes (word_of_nat (8 * length m))"
    using len unfolding pad_def z by simp
  ultimately show ?thesis by (simp add: n)
qed

lemma hash_pad_long:
  assumes len: "length m = 64 * q + r" and r: "56 \<le> r" "r < 64"
  shows "hash_blocks (length (pad m) div 64) (pad m) H =
    compress (replicate 56 0 @ be64_bytes (word_of_nat (8 * length m)))
      (compress (drop (64 * q) m @ [0x80] @ replicate (63 - r) 0) (hash_blocks q m H))"
proof -
  let ?b = "drop (64 * q) m @ [0x80] @ replicate (63 - r) 0"
  let ?c = "replicate 56 0 @ be64_bytes (word_of_nat (8 * length m))"
  have "length m mod 64 = r" using len r by simp
  then have z: "(119 - length m mod 64) mod 64 = (63 - r) + 56" using r by simp
  have n: "length (pad m) = 64 * Suc (Suc q)" using len r unfolding pad_def z by simp
  have p: "drop (64 * q) (pad m) = ?b @ ?c"
    using len unfolding pad_def z replicate_add by simp
  have b: "length ?b = 64" and c: "length ?c = 64" using len r by simp_all
  have "hash_blocks (Suc (Suc q)) (pad m) H =
      compress (take 64 (drop (64 * Suc q) (pad m))) (hash_blocks (Suc q) (pad m) H)"
    by (rule hash_blocks_Suc) (simp add: n)
  also have "hash_blocks (Suc q) (pad m) H =
      compress (take 64 (drop (64 * q) (pad m))) (hash_blocks q (pad m) H)"
    by (rule hash_blocks_Suc) (simp add: n)
  also have "hash_blocks q (pad m) H = hash_blocks q m H"
    unfolding pad_def by (rule hash_blocks_append) (simp add: len)
  also have "take 64 (drop (64 * q) (pad m)) = ?b"
    unfolding p by (rule take_app) (rule b [symmetric])
  also have "drop (64 * Suc q) (pad m) = drop 64 (drop (64 * q) (pad m))" by (simp add: add.commute)
  also have "take 64 (drop 64 (drop (64 * q) (pad m))) = ?c"
    unfolding p drop_app [OF b [symmetric]] using c by simp
  finally show ?thesis unfolding n by simp
qed


lemma run_transform_abs:
  assumes "sha256_ctx_map s = Some ctx" "sha256_temp_map s = Some t"
    "length t = 384" "length (ctx_data ctx) = 64" "length (ctx_state ctx) = 8"
  shows "run_transform s =
    Some (s\<lparr>sha256_ctx_map := Some (ctx\<lparr>ctx_state := compress (ctx_data ctx) (ctx_state ctx)\<rparr>),
            sha256_temp_map := Some (schedule (ctx_data ctx) t)\<rparr>)"
  using assms by (simp add: run_transform_def sha256_transform_compress)

lemma bitlen_final:
  "r < 64 \<Longrightarrow> word_of_nat (512 * q) + ucast ((word_of_nat r :: u32) * 8) = (word_of_nat (8 * (64 * q + r)) :: u64)"
proof -
  assume r: "r < 64"
  have "(ucast ((word_of_nat r :: u32) * 8) :: u64) = word_of_nat (8 * r)"
    using r by (intro word_unat_eq_iff [THEN iffD2])
      (simp add: unsigned_ucast_eq unat_word_ariths unsigned_of_nat take_bit_nat_eq_self)
  then show ?thesis by (simp add: distrib_left)
qed

lemma mark_zero_fill:
  assumes "length d = 64" "r < hi" "hi \<le> 64"
  shows "put_mark r d = Some (Suc r, d[r := 0x80])"
    "zero_fill (Suc r) hi (d[r := 0x80]) = Some (take r d @ [0x80] @ replicate (hi - Suc r) 0 @ drop hi d)"
  using assms by (simp_all add: put_mark_def st8_def zero_fill_eq take_Suc_conv_app_nth take_update_cancel)

text \<open>What \<^verbatim>\<open>sha256_final\<close> does once the data is padded up to the length field.\<close>

definition final_tail :: "u8 list \<Rightarrow> sha_maps \<Rightarrow> (int \<times> u8 list \<times> sha_maps) option" where
  "final_tail hash s1 =
     do {
       s2 \<leftarrow> ctx_upd (\<lambda>c. Some (c\<lparr>bitlen := bitlen c + ucast (datalen c * 8)\<rparr>)) s1;
       s3 \<leftarrow> ctx_upd (\<lambda>c. do { d \<leftarrow> put_bitlen (bitlen c) (ctx_data c); Some (c\<lparr>ctx_data := d\<rparr>) }) s2;
       s4 \<leftarrow> run_transform s3;
       c \<leftarrow> sha256_ctx_map s4;
       hash' \<leftarrow> ofold (put_hash (ctx_state c)) [0..<4] hash;
       Some (0, hash', s4)
     }"

lemma sha256_final_split:
  assumes "sha256_ctx_map s = Some ctx" "datalen ctx < 64"
  shows "sha256_final h s =
    do { s1 \<leftarrow> (if datalen ctx < 56
           then data_upd (\<lambda>d. do { (i1, d1) \<leftarrow> put_mark (unat (datalen ctx)) d; zero_fill i1 56 d1 }) s
           else do {
             sa \<leftarrow> data_upd (\<lambda>d. do { (i1, d1) \<leftarrow> put_mark (unat (datalen ctx)) d; zero_fill i1 64 d1 }) s;
             sb \<leftarrow> run_transform sa;
             data_upd (zero_fill 0 56) sb });
         final_tail h s1 }"
proof -
  have "\<not> 64 \<le> datalen ctx" using assms(2) by simp
  then show ?thesis using assms(1) by (simp add: sha256_final_def final_tail_def Let_def)
qed

lemma final_tail_result:
  assumes "sha256_ctx_map s = Some c" "sha256_temp_map s = Some t" "length t = 384"
    and "length (ctx_data c) = 64" "length (ctx_state c) = 8" "length h = 32"
  shows "\<exists>s'. maps_wf s' \<and> final_tail h s = Some (0, concat (map be32_bytes
    (compress (take 56 (ctx_data c) @ be64_bytes (bitlen c + ucast (datalen c * 8))) (ctx_state c))), s')"
  using assms
  by (simp add: final_tail_def ctx_upd_def put_bitlen_eq run_transform_abs put_hash_fold maps_wf_def)

lemma sha256_final_abs:
  assumes abs: "sha_abs m s" and h: "length h = 32"
  shows "\<exists>s'. sha256_final h s = Some (0, sha256_spec m, s') \<and> maps_wf s'"
proof -
  define q r where "q = length m div 64" and "r = length m mod 64"
  have len: "length m = 64 * q + r" and r: "r < 64" by (simp_all add: q_def r_def)
  obtain ctx t where ctx: "sha256_ctx_map s = Some ctx" and t: "sha256_temp_map s = Some t" "length t = 384"
    and d: "length (ctx_data ctx) = 64" "datalen ctx = word_of_nat r"
      "take r (ctx_data ctx) = drop (64 * q) m"
    and st: "ctx_state ctx = hash_blocks q m H_init" "bitlen ctx = word_of_nat (512 * q)"
    using abs by (auto simp: sha_abs_def q_def r_def)
  have small: "datalen ctx < 64" using datalen_small [OF abs ctx] by simp
  have lt: "datalen ctx < 56 \<longleftrightarrow> r < 56" using r by (simp add: d word_less_nat_alt)
  have bl: "bitlen ctx + ucast (datalen ctx * 8) = word_of_nat (8 * length m)"
    unfolding st d len by (rule bitlen_final) (rule r)
  have u: "unat (datalen ctx) = r" using d r by simp
  note final = sha256_final_split [OF ctx small, unfolded u lt]
  show ?thesis
  proof (cases "r < 56")
    case True
    let ?d = "take r (ctx_data ctx) @ [0x80] @ replicate (56 - Suc r) 0 @ drop 56 (ctx_data ctx)"
    let ?s = "s\<lparr>sha256_ctx_map := Some (ctx\<lparr>ctx_data := ?d\<rparr>)\<rparr>"
    have "sha256_final h s = final_tail h ?s"
      using True ctx mark_zero_fill [OF d(1) True] by (simp add: final data_upd_def ctx_upd_def)
    moreover have "56 - r = Suc (55 - r)" using True by simp
    ultimately show ?thesis
      using final_tail_result [of ?s "ctx\<lparr>ctx_data := ?d\<rparr>" t h] True t d len st h bl
      by (auto simp: sha256_spec_def hash_pad_short [OF len True])
  next
    case False
    then have r56: "56 \<le> r" by simp
    define b where "b = drop (64 * q) m @ [0x80] @ replicate (63 - r) 0"
    have b: "length b = 64" "zero_fill (Suc r) 64 ((ctx_data ctx)[r := 0x80]) = Some b"
      using mark_zero_fill(2) [OF d(1) r order_refl] len r by (simp_all add: b_def d)
    let ?c = "ctx\<lparr>ctx_state := compress b (ctx_state ctx), ctx_data := replicate 56 0 @ drop 56 b\<rparr>"
    let ?s = "s\<lparr>sha256_temp_map := Some (schedule b t), sha256_ctx_map := Some ?c\<rparr>"
    have "sha256_final h s = final_tail h ?s"
      using False ctx t b st mark_zero_fill(1) [OF d(1) r order_refl]
      by (simp add: final data_upd_def ctx_upd_def run_transform_abs [where t = t] zero_fill_eq)
    then show ?thesis
      using final_tail_result [of ?s ?c "schedule b t" h] t b st h bl
      by (auto simp: sha256_spec_def hash_pad_long [OF len r56 r, folded b_def])
  qed
qed

section \<open>Safety\<close>

text \<open>
  Every function of the hash code ends without a fault in every state in which the maps that exist
  have the sizes of their declarations, whatever they hold: a missing map, a \<^verbatim>\<open>datalen\<close> of 64 or
  more included.
\<close>

definition ctx_sized :: "SHA256_CTX \<Rightarrow> bool" where
  "ctx_sized c \<longleftrightarrow> length (ctx_data c) = 64 \<and> length (ctx_state c) = 8"

definition maps_sized :: "sha_maps \<Rightarrow> bool" where
  "maps_sized s \<longleftrightarrow> pred_option ctx_sized (sha256_ctx_map s) \<and>
     pred_option (\<lambda>t. length t = 384) (sha256_temp_map s)"

definition maps_kept :: "sha_maps \<Rightarrow> sha_maps \<Rightarrow> bool" where
  "maps_kept s s' \<longleftrightarrow> maps_sized s' \<and> (sha256_ctx_map s' = None \<longleftrightarrow> sha256_ctx_map s = None) \<and>
     (sha256_temp_map s' = None \<longleftrightarrow> sha256_temp_map s = None)"

lemmas sized_defs = maps_sized_def maps_kept_def ctx_sized_def

lemma maps_kept_refl: "maps_sized s \<Longrightarrow> maps_kept s s"
  by (simp add: maps_kept_def)

lemma maps_kept_trans: "maps_kept s s1 \<Longrightarrow> maps_kept s1 s2 \<Longrightarrow> maps_kept s s2"
  by (simp add: maps_kept_def)

lemma maps_kept_sized: "maps_kept s s' \<Longrightarrow> maps_sized s'"
  by (simp add: maps_kept_def)

lemma sha256_transform_safe:
  assumes "maps_sized s" "length d = 64"
  shows "\<exists>r s'. sha256_transform d s = Some (r, s') \<and> maps_kept s s'"
proof (cases "sha256_ctx_map s = None \<or> sha256_temp_map s = None")
  case True
  then show ?thesis using assms
    by (auto simp: sha256_transform_def maps_kept_refl split: option.splits)
next
  case False
  then obtain ctx t where "sha256_ctx_map s = Some ctx" "sha256_temp_map s = Some t" by auto
  then show ?thesis using assms by (simp add: sized_defs sha256_transform_compress)
qed

lemma run_transform_safe:
  assumes "maps_sized s" "sha256_ctx_map s \<noteq> None"
  shows "\<exists>s'. run_transform s = Some s' \<and> maps_kept s s'"
proof -
  obtain ctx where ctx: "sha256_ctx_map s = Some ctx" using assms by auto
  then have "length (ctx_data ctx) = 64" using assms by (simp add: sized_defs)
  from sha256_transform_safe [OF assms(1) this] ctx show ?thesis by (auto simp: run_transform_def)
qed

lemma ctx_upd_safe:
  assumes "maps_sized s" "sha256_ctx_map s \<noteq> None"
    and "\<And>c. ctx_sized c \<Longrightarrow> \<exists>c'. f c = Some c' \<and> ctx_sized c'"
  shows "\<exists>s'. ctx_upd f s = Some s' \<and> maps_kept s s'"
proof -
  obtain c where c: "sha256_ctx_map s = Some c" "ctx_sized c" using assms by (auto simp: maps_sized_def)
  obtain c' where "f c = Some c'" "ctx_sized c'" using assms(3) [OF c(2)] by auto
  then show ?thesis using c assms(1) by (simp add: ctx_upd_def maps_kept_def maps_sized_def)
qed

lemma data_upd_safe:
  assumes "maps_sized s" "sha256_ctx_map s \<noteq> None"
    and "\<And>d. length d = 64 \<Longrightarrow> \<exists>d'. f d = Some d' \<and> length d' = 64"
  shows "\<exists>s'. data_upd f s = Some s' \<and> maps_kept s s'"
  unfolding data_upd_def
proof (rule ctx_upd_safe [OF assms(1,2)])
  fix c assume c: "ctx_sized c"
  then obtain d where "f (ctx_data c) = Some d" "length d = 64" using assms(3) by (auto simp: ctx_sized_def)
  then show "\<exists>c'. do { d \<leftarrow> f (ctx_data c); Some (c\<lparr>ctx_data := d\<rparr>) } = Some c' \<and> ctx_sized c'"
    using c by (simp add: ctx_sized_def)
qed

lemma sha256_init_safe: "maps_sized s \<Longrightarrow> \<exists>r s'. sha256_init s = Some (r, s') \<and> maps_kept s s'"
proof (cases "sha256_ctx_map s")
  case None
  then show "maps_sized s \<Longrightarrow> ?thesis" by (simp add: sha256_init_def maps_kept_refl)
next
  case (Some ctx)
  then show "maps_sized s \<Longrightarrow> ?thesis" by (simp add: sha256_init_result sized_defs)
qed

lemma update_byte_safe:
  assumes "maps_sized s" "sha256_ctx_map s = Some ctx" "datalen ctx < 64"
  shows "\<exists>s'. update_byte b ctx s = Some s' \<and> maps_kept s s'"
proof -
  have len: "length (ctx_data ctx) = 64" "unat (datalen ctx) < 64"
    using assms by (simp_all add: sized_defs word_less_nat_alt)
  let ?c = "ctx\<lparr>ctx_data := (ctx_data ctx)[unat (datalen ctx) := b], datalen := datalen ctx + 1\<rparr>"
  let ?s = "s\<lparr>sha256_ctx_map := Some ?c\<rparr>"
  have kept: "maps_kept s ?s" using assms by (simp add: sized_defs)
  obtain r s2 where s2: "sha256_transform (ctx_data ?c) ?s = Some (r, s2)" "maps_kept ?s s2"
    using sha256_transform_safe [OF maps_kept_sized [OF kept], of "ctx_data ?c"] len by auto
  obtain s3 where s3: "ctx_upd (\<lambda>c. Some (c\<lparr>bitlen := bitlen c + 512, datalen := 0\<rparr>)) s2 = Some s3" "maps_kept s2 s3"
    using ctx_upd_safe [of s2 "\<lambda>c. Some (c\<lparr>bitlen := bitlen c + 512, datalen := 0\<rparr>)"] s2(2)
    by (auto simp: maps_kept_def ctx_sized_def)
  have "maps_kept s s3" using kept s2(2) s3(2) by (blast intro: maps_kept_trans)
  then show ?thesis
    using len s2(1) s3(1) kept by (cases "datalen ctx + 1 = 64") (simp_all add: update_byte_def st8_def Let_def)
qed

lemma update_loop_safe:
  assumes "maps_sized s" "sha256_ctx_map s \<noteq> None"
    and "\<And>s' i. maps_kept s s' \<Longrightarrow> i \<in> set is \<Longrightarrow> \<exists>b. rd s' i = Some b"
  shows "\<exists>s'. update_loop rd is s = Some s' \<and> maps_kept s s'"
  using assms
proof (induction "is" arbitrary: s)
  case Nil
  then show ?case by (simp add: maps_kept_refl)
next
  case (Cons i "is")
  obtain ctx where ctx: "sha256_ctx_map s = Some ctx" using Cons.prems(2) by auto
  show ?case
  proof (cases "datalen ctx < 64")
    case False
    then show ?thesis using ctx Cons.prems(1) by (simp add: maps_kept_refl not_less)
  next
    case True
    obtain b where b: "rd s i = Some b" using Cons.prems(3) [of s i] maps_kept_refl [OF Cons.prems(1)] by auto
    obtain s1 where s1: "update_byte b ctx s = Some s1" "maps_kept s s1"
      using update_byte_safe [OF Cons.prems(1) ctx True] by blast
    have "\<exists>s'. update_loop rd is s1 = Some s' \<and> maps_kept s1 s'"
      using s1(2) Cons.prems(2,3) maps_kept_trans [OF s1(2)]
      by (intro Cons.IH) (auto simp: maps_kept_def)
    then show ?thesis using ctx b s1 True maps_kept_trans [OF s1(2)] by (auto simp: not_le)
  qed
qed

lemma sha256_update_safe:
  assumes "maps_sized s" and "\<And>s' i. maps_kept s s' \<Longrightarrow> i < len \<Longrightarrow> \<exists>b. rd s' i = Some b"
  shows "\<exists>r s'. sha256_update rd len s = Some (r, s') \<and> maps_kept s s'"
  using assms update_loop_safe [of s "[0..<len]" rd]
  by (cases "sha256_ctx_map s") (auto simp: sha256_update_def maps_kept_refl)

lemma pad_safe:
  assumes "length d = 64" "i < 64" "hi \<le> 64" "i < hi"
  shows "\<exists>d'. do { (i1, d1) \<leftarrow> put_mark i d; zero_fill i1 hi d1 } = Some d' \<and> length d' = 64"
  using assms mark_zero_fill [OF assms(1,4,3)] by simp

lemma final_tail_safe:
  assumes s: "maps_sized s" "sha256_ctx_map s \<noteq> None" and h: "length h = 32"
  shows "\<exists>r h' s'. final_tail h s = Some (r, h', s') \<and> length h' = 32 \<and> maps_kept s s'"
proof -
  obtain s2 where s2: "ctx_upd (\<lambda>c. Some (c\<lparr>bitlen := bitlen c + ucast (datalen c * 8)\<rparr>)) s = Some s2" "maps_kept s s2"
    using ctx_upd_safe [OF s, of "\<lambda>c. Some (c\<lparr>bitlen := bitlen c + ucast (datalen c * 8)\<rparr>)"]
    by (auto simp: ctx_sized_def)
  let ?f = "\<lambda>c. do { d \<leftarrow> put_bitlen (bitlen c) (ctx_data c); Some (c\<lparr>ctx_data := d\<rparr>) }"
  obtain s3 where s3: "ctx_upd ?f s2 = Some s3" "maps_kept s2 s3"
    using ctx_upd_safe [of s2 ?f] s2(2) s(2) by (auto simp: maps_kept_def ctx_sized_def put_bitlen_eq)
  obtain s4 where s4: "run_transform s3 = Some s4" "maps_kept s3 s4"
    using run_transform_safe [of s3] s3(2) s2(2) s(2) by (auto simp: maps_kept_def)
  obtain c where c: "sha256_ctx_map s4 = Some c" "length (ctx_state c) = 8"
    using s4(2) s3(2) s2(2) s(2) by (auto simp: sized_defs)
  have "length (concat (map be32_bytes (ctx_state c))) = 32"
    using c(2) by (simp add: length_concat comp_def sum_list_triv be32_bytes_def)
  moreover have "maps_kept s s4" using s2(2) s3(2) s4(2) by (blast intro: maps_kept_trans)
  ultimately show ?thesis
    using s2(1) s3(1) s4(1) c(1) put_hash_fold [OF h c(2)] by (simp add: final_tail_def)
qed

lemma sha256_final_safe:
  assumes s: "maps_sized s" and h: "length h = 32"
  shows "\<exists>r h' s'. sha256_final h s = Some (r, h', s') \<and> length h' = 32 \<and> maps_kept s s'"
proof (cases "sha256_ctx_map s")
  case None
  then show ?thesis using s h by (simp add: sha256_final_def maps_kept_refl)
next
  case (Some ctx)
  define i where "i = (if datalen ctx \<ge> 64 then 0 else unat (datalen ctx))"
  have i: "i < 64" "datalen ctx < 56 \<Longrightarrow> i < 56"
    by (auto simp: i_def word_less_nat_alt word_le_nat_alt)
  have "\<exists>s1. (if datalen ctx < 56
           then data_upd (\<lambda>d. do { (i1, d1) \<leftarrow> put_mark i d; zero_fill i1 56 d1 }) s
           else do {
             sa \<leftarrow> data_upd (\<lambda>d. do { (i1, d1) \<leftarrow> put_mark i d; zero_fill i1 64 d1 }) s;
             sb \<leftarrow> run_transform sa;
             data_upd (zero_fill 0 56) sb }) = Some s1 \<and> maps_kept s s1" (is "\<exists>s1. ?P = _ \<and> _")
  proof (cases "datalen ctx < 56")
    case True
    have "\<exists>s1. data_upd (\<lambda>d. do { (i1, d1) \<leftarrow> put_mark i d; zero_fill i1 56 d1 }) s = Some s1 \<and> maps_kept s s1"
      by (rule data_upd_safe [OF s]) (use Some i True in \<open>auto intro: pad_safe\<close>)
    then show ?thesis using True by simp
  next
    case False
    have "\<exists>sa. data_upd (\<lambda>d. do { (i1, d1) \<leftarrow> put_mark i d; zero_fill i1 64 d1 }) s = Some sa \<and> maps_kept s sa"
      by (rule data_upd_safe [OF s]) (use Some i in \<open>auto intro: pad_safe\<close>)
    then obtain sa where sa: "data_upd (\<lambda>d. do { (i1, d1) \<leftarrow> put_mark i d; zero_fill i1 64 d1 }) s = Some sa" "maps_kept s sa"
      by blast
    obtain sb where sb: "run_transform sa = Some sb" "maps_kept sa sb"
      using run_transform_safe [of sa] sa(2) Some by (auto simp: maps_kept_def)
    obtain sc where sc: "data_upd (zero_fill 0 56) sb = Some sc" "maps_kept sb sc"
      using data_upd_safe [of sb "zero_fill 0 56"] sa(2) sb(2) Some by (auto simp: maps_kept_def zero_fill_eq)
    have "maps_kept s sc" using sa(2) sb(2) sc(2) by (blast intro: maps_kept_trans)
    then show ?thesis using False sa(1) sb(1) sc(1) by simp
  qed
  then obtain s1 where s1: "?P = Some s1" "maps_kept s s1" by blast
  have "sha256_final h s = do { s1 \<leftarrow> ?P; final_tail h s1 }"
    using Some by (simp add: sha256_final_def final_tail_def i_def Let_def)
  then show ?thesis
    using s1 final_tail_safe [OF maps_kept_sized [OF s1(2)] _ h] Some maps_kept_trans [OF s1(2)]
    by (fastforce simp: maps_kept_def)
qed

section \<open>Streaming\<close>

text \<open>One \<^verbatim>\<open>sha256_update\<close> per chunk; the chunks lie in memory that the hash code does not write.\<close>

definition update_chunks :: "u8 list list \<Rightarrow> sha_maps \<Rightarrow> sha_maps option" where
  "update_chunks cs s =
     ofold (\<lambda>c s. do { (r, s') \<leftarrow> sha256_update (\<lambda>_ i. ld8 c i) (length c) s; Some s' }) cs s"

lemma update_chunks_abs:
  "sha_abs m s \<Longrightarrow> \<exists>s'. update_chunks cs s = Some s' \<and> sha_abs (m @ concat cs) s'"
proof (induction cs arbitrary: m s)
  case Nil
  then show ?case by (simp add: update_chunks_def)
next
  case (Cons c cs)
  obtain s1 where s1: "sha256_update (\<lambda>_ i. ld8 c i) (length c) s = Some (0, s1)" "sha_abs (m @ c) s1"
    using sha256_update_abs [OF Cons.prems, of c "\<lambda>_ i. ld8 c i"] by (auto simp: ld8_def)
  then show ?case using Cons.IH [OF s1(2)] by (auto simp: update_chunks_def)
qed

text \<open>
  C3: \<^verbatim>\<open>sha256_init\<close>, any sequence of \<^verbatim>\<open>sha256_update\<close> calls and \<^verbatim>\<open>sha256_final\<close> compute the
  SHA-256 digest of FIPS 180-4 of the concatenated input, whatever the maps held before, without
  an access outside an array, return 0 and leave the maps usable for the next message.
\<close>

theorem sha256_streaming:
  assumes "maps_wf s" "length hash = 32" "list_all (\<lambda>c. length c < 2 ^ 32) cs"
  shows "\<exists>s0 s1 s'. sha256_init s = Some (0, s0) \<and> update_chunks cs s0 = Some s1 \<and>
    sha256_final hash s1 = Some (0, sha256_spec (concat cs), s') \<and> maps_wf s'"
proof -
  obtain s0 where s0: "sha256_init s = Some (0, s0)" "sha_abs [] s0"
    using sha256_init_abs [OF assms(1)] by blast
  obtain s1 where s1: "update_chunks cs s0 = Some s1" "sha_abs (concat cs) s1"
    using update_chunks_abs [OF s0(2), of cs] by auto
  show ?thesis using s0(1) s1(1) sha256_final_abs [OF s1(2) assms(2)] by blast
qed

theorem sha256_streaming_witness:
  "\<exists>s0 s1 s'. sha256_init \<lparr>sha256_ctx_map = Some \<lparr>ctx_data = replicate 64 0, datalen = 0, bitlen = 0,
        ctx_state = replicate 8 0\<rparr>, sha256_temp_map = Some (replicate 384 0)\<rparr> = Some (0, s0) \<and>
     update_chunks [[0x61], [0x62, 0x63]] s0 = Some s1 \<and>
     sha256_final (replicate 32 0) s1 = Some (0, sha256_spec [0x61, 0x62, 0x63], s')"
  using sha256_streaming [of "\<lparr>sha256_ctx_map = Some \<lparr>ctx_data = replicate 64 0, datalen = 0, bitlen = 0,
       ctx_state = replicate 8 0\<rparr>, sha256_temp_map = Some (replicate 384 0)\<rparr>"
      "replicate 32 0" "[[0x61], [0x62, 0x63]]"]
  by (auto simp: maps_wf_def)

end
