(* ===== verification/Sha256_Constants.thy ===== *)
theory Sha256_Constants
  imports Sha256_Correct
begin

text \<open>
  The numbers in the SHA-256 code, the table \<^verbatim>\<open>k\<close> and the initial state, against their definition in
  FIPS 180-4.
\<close>

text \<open>
  Section 4.2.2 and 5.3.3: the round constants are the first 32 bits of the fractional parts of the
  cube roots of the first 64 primes, the initial hash value those of the square roots of the first
  eight. \<open>frac_root e p n w\<close> says that \<open>n + w / 2^32\<close> is the \<open>e\<close>-th root of \<open>p\<close>, rounded down to a
  multiple of \<open>1 / 2^32\<close>.
\<close>

definition sha_primes :: "int list" where
  "sha_primes =
    [2, 3, 5, 7, 11, 13, 17, 19, 23, 29, 31, 37, 41, 43, 47, 53, 59, 61, 67, 71, 73, 79, 83,
     89, 97, 101, 103, 107, 109, 113, 127, 131, 137, 139, 149, 151, 157, 163, 167, 173, 179,
     181, 191, 193, 197, 199, 211, 223, 227, 229, 233, 239, 241, 251, 257, 263, 269, 271, 277,
     281, 283, 293, 307, 311]"

definition cube_ints :: "int list" where
  "cube_ints =
    [1, 1, 1, 1, 2, 2, 2, 2, 2, 3, 3, 3, 3, 3, 3, 3, 3, 3, 4, 4, 4, 4, 4, 4, 4, 4, 4, 4, 4, 4,
     5, 5, 5, 5, 5, 5, 5, 5, 5, 5, 5, 5, 5, 5, 5, 5, 5, 6, 6, 6, 6, 6, 6, 6, 6, 6, 6, 6, 6, 6,
     6, 6, 6, 6]"

definition sqrt_ints :: "int list" where
  "sqrt_ints = [1, 1, 2, 2, 3, 3, 4, 4]"

definition frac_root :: "nat \<Rightarrow> int \<Rightarrow> int \<Rightarrow> u32 \<Rightarrow> bool" where
  "frac_root e p n w \<longleftrightarrow>
     (n * 2 ^ 32 + uint w) ^ e \<le> p * 2 ^ (32 * e) \<and> p * 2 ^ (32 * e) < (n * 2 ^ 32 + uint w + 1) ^ e"

lemma sha_primes_sieve:
  "sha_primes = filter (\<lambda>p. list_all (\<lambda>d. p mod d = 0 \<longleftrightarrow> p = d) [2, 3, 5, 7, 11, 13, 17]) [2..311]"
  by (simp add: sha_primes_def)

lemma k_cube_roots: "list_all (\<lambda>(p, n, w). frac_root 3 p n w) (zip sha_primes (zip cube_ints sha256_k))"
  by (simp add: sha_primes_def cube_ints_def sha256_k_def frac_root_def)

lemma H_square_roots:
  "list_all (\<lambda>(p, n, w). frac_root 2 p n w) (zip (take 8 sha_primes) (zip sqrt_ints H_init))"
  by (simp add: sha_primes_def sqrt_ints_def H_init_def frac_root_def)

text \<open>
  the round constants and the initial hash value of the code are the ones the standard defines.
  The 64 entries of \<^verbatim>\<open>k\<close> are the 32-bit fractional parts of the cube roots of the primes up to
  311, and \<^verbatim>\<open>sha256_init\<close> stores the 32-bit fractional parts of the square roots of the first
  eight primes, with an empty buffer and a zero bit count.
\<close>

theorem sha256_constants:
  "length sha256_k = 64 \<and> length sha_primes = 64 \<and>
   sha_primes = filter (\<lambda>p. list_all (\<lambda>d. p mod d = 0 \<longleftrightarrow> p = d) [2, 3, 5, 7, 11, 13, 17]) [2..311] \<and>
   list_all (\<lambda>(p, n, w). frac_root 3 p n w) (zip sha_primes (zip cube_ints sha256_k)) \<and>
   list_all (\<lambda>(p, n, w). frac_root 2 p n w) (zip (take 8 sha_primes) (zip sqrt_ints H_init)) \<and>
   (maps_wf s \<longrightarrow> map_option (\<lambda>(r, s'). (r, map_option (\<lambda>c. (ctx_state c, datalen c, bitlen c)) (sha256_ctx_map s')))
      (sha256_init s) = Some (0, Some (H_init, 0, 0)))"
proof (intro conjI impI)
  show "map_option (\<lambda>(r, s'). (r, map_option (\<lambda>c. (ctx_state c, datalen c, bitlen c)) (sha256_ctx_map s')))
      (sha256_init s) = Some (0, Some (H_init, 0, 0))" if "maps_wf s"
    using that by (auto simp: maps_wf_def sha256_init_result)
qed (rule sha_primes_sieve k_cube_roots H_square_roots | simp add: sha_primes_def)+

end
