(* ===== verification/Checksum.thy ===== *)
theory Checksum
  imports Prelude
begin

text \<open>
  \<^verbatim>\<open>calculate_ip_checksum\<close> of \<^verbatim>\<open>xdp_prog_kern_02.c\<close>: the loop over the 16-bit words, the odd
  byte, the folding loop (which terminates) and the complement. The specification is the Internet
  checksum of RFC 1071, ones' complement arithmetic on the big-endian 16-bit words of the header,
  which is independent of the code (that one sums little-endian words in 32 bits and folds the
  carries at the end). A header that carries the code's result sums to all ones, which is what an
  IPv4 receiver checks.
\<close>

section \<open>Model\<close>

text \<open>\<open>hdr\<close> is the offset of the header in the memory \<open>m\<close>; \<^verbatim>\<open>buf[i]\<close> is its \<open>i\<close>-th 16-bit word.\<close>

fun csum_loop :: "mem \<Rightarrow> nat \<Rightarrow> nat list \<Rightarrow> u32 \<Rightarrow> u32 option" where
  "csum_loop m hdr [] s = Some s"
| "csum_loop m hdr (i # is) s =
     do { w \<leftarrow> ld16 m (hdr + 2 * i); csum_loop m hdr is (s + ucast w) }"

text \<open>One round of folding adds the upper to the lower half, so it keeps the value modulo 65535.\<close>

lemma fold_halves:
  "unat (drop_bit 16 s) = unat s div 65536" "unat (s AND 0xFFFF) = unat s mod 65536" for s :: u32
proof -
  show "unat (drop_bit 16 s) = unat s div 65536" by (simp add: drop_bit_eq_div unat_div)
  have "s AND 0xFFFF = take_bit 16 s" by (simp add: take_bit_eq_mask mask_eq_exp_minus_1)
  then show "unat (s AND 0xFFFF) = unat s mod 65536"
    by (simp add: unsigned_take_bit_eq take_bit_nat_def)
qed

lemma fold_step_unat:
  "unat ((s AND 0xFFFF) + drop_bit 16 s) = unat s mod 65536 + unat s div 65536" for s :: u32
proof -
  have "unat s div 65536 < 65536"
    using unsigned_less [where ?'a = nat, of s] by (simp add: less_mult_imp_div_less)
  then have "unat s mod 65536 + unat s div 65536 < 4294967296" by simp
  then show ?thesis by (simp add: word_add_lt fold_halves)
qed

lemma fold_step_less:
  assumes "drop_bit 16 s \<noteq> 0"
  shows "unat ((s AND 0xFFFF) + drop_bit 16 s) < unat (s::u32)"
proof -
  have "0 < unat s div 65536" using assms fold_halves(1) [of s] by (metis gr0I unat_eq_zero)
  moreover have "65536 * (unat s div 65536) + unat s mod 65536 = unat s" by simp
  ultimately show ?thesis unfolding fold_step_unat by linarith
qed

function csum_fold :: "u32 \<Rightarrow> u32" where
  "csum_fold s = (if drop_bit 16 s \<noteq> 0 then csum_fold ((s AND 0xFFFF) + drop_bit 16 s) else s)"
  by pat_completeness auto
termination
  by (relation "measure unat") (auto simp: fold_step_less)

declare csum_fold.simps [simp del]

definition calculate_ip_checksum :: "mem \<Rightarrow> nat \<Rightarrow> nat \<Rightarrow> u16 option" where
  "calculate_ip_checksum m hdr len =
     do {
       s \<leftarrow> csum_loop m hdr [0..<len div 2] 0;
       s1 \<leftarrow> (if len mod 2 \<noteq> 0 then do { b \<leftarrow> ld8 m (hdr + len - 1); Some (s + ucast b) }
               else Some s);
       Some (ucast (NOT (csum_fold s1)))
     }"


section \<open>Correctness\<close>

lemma csum_fold_result:
  "unat (csum_fold s) < 65536 \<and> unat (csum_fold s) mod 65535 = unat s mod 65535 \<and>
   (unat (csum_fold s) = 0 \<longleftrightarrow> unat s = 0)"
proof (induction s rule: csum_fold.induct)
  case (1 s)
  have eq: "65536 * (unat s div 65536) + unat s mod 65536 = unat s" by simp
  show ?case
  proof (cases "drop_bit 16 s = 0")
    case True
    then have "unat s div 65536 = 0" by (metis fold_halves(1) unat_0)
    then show ?thesis using True by (simp add: csum_fold.simps [of s] div_eq_0_iff)
  next
    case False
    let ?d = "unat s div 65536" and ?m = "unat s mod 65536"
    have "unat s mod 65535 = (65535 * ?d + (?m + ?d)) mod 65535" using eq by (simp add: algebra_simps)
    also have "\<dots> = (?m + ?d) mod 65535" by (simp only: mod_mult_self4)
    finally have "(?m + ?d) mod 65535 = unat s mod 65535" ..
    moreover have "?m + ?d = 0 \<longleftrightarrow> unat s = 0" using eq by linarith
    ultimately show ?thesis
      using False 1 by (simp add: csum_fold.simps [of s] fold_step_unat)
  qed
qed

text \<open>The sum of the 16-bit words of a header, as a number.\<close>

definition word_sum :: "mem \<Rightarrow> nat \<Rightarrow> nat \<Rightarrow> nat" where
  "word_sum m hdr n = (\<Sum>i<n. unat (le16 (m ! (hdr + 2 * i)) (m ! (hdr + 2 * i + 1))))"

lemma word_sum_bound: "word_sum m hdr n \<le> n * 65535"
proof -
  have "word_sum m hdr n \<le> (\<Sum>i<n. 65535)"
    unfolding word_sum_def
  proof (rule sum_mono)
    fix i show "unat (le16 (m ! (hdr + 2 * i)) (m ! (hdr + 2 * i + 1))) \<le> 65535"
      using unat_lt_16 [of "le16 (m ! (hdr + 2 * i)) (m ! (hdr + 2 * i + 1))"] by linarith
  qed
  then show ?thesis by simp
qed

lemma csum_loop_sum:
  assumes "hdr + 2 * n \<le> length m" "n \<le> 65536"
  shows "csum_loop m hdr [0..<n] 0 = Some (word_of_nat (word_sum m hdr n))"
proof -
  have "csum_loop m hdr (is @ [i]) s =
      do { s' \<leftarrow> csum_loop m hdr is s; w \<leftarrow> ld16 m (hdr + 2 * i); Some (s' + ucast w) }" for "is" i s
    by (induction "is" arbitrary: s) auto
  then show ?thesis
    using assms
    by (induction n) (auto simp: word_sum_def ld16_def)
qed


lemma ucast_NOT: "unat v < 65536 \<Longrightarrow> unat (ucast (NOT v) :: u16) = 65535 - unat v" for v :: u32
proof -
  assume v: "unat v < 65536"
  have "unat (ucast (NOT v) :: u16) = unat (NOT v) mod 65536"
    by (simp add: unsigned_ucast_eq take_bit_nat_def)
  moreover have "unat (NOT v) = 4294967295 - unat v"
  proof -
    have "NOT v = - 1 - v" by (simp add: not_eq_complement)
    also have "unat \<dots> = unat (-1 :: u32) - unat v"
      by (rule unat_sub) (rule word_order.extremum)
    finally show ?thesis by (simp add: unsigned_minus_1_eq_mask mask_eq_exp_minus_1)
  qed
  moreover have "4294967295 - unat v = 65535 * 65536 + (65535 - unat v)" using v by linarith
  moreover have "(65535 * 65536 + (65535 - unat v)) mod 65536 = 65535 - unat v"
    by (simp only: mod_mult_self3) simp
  ultimately show ?thesis by (simp only:)
qed

lemma checksum_even:
  assumes "hdr + 2 * n \<le> length m" "n \<le> 65536"
  shows "\<exists>c t. calculate_ip_checksum m hdr (2 * n) = Some c \<and> unat c = 65535 - t \<and> t < 65536 \<and>
    t mod 65535 = word_sum m hdr n mod 65535 \<and> (t = 0 \<longleftrightarrow> word_sum m hdr n = 0)"
proof -
  let ?S = "word_sum m hdr n" and ?v = "csum_fold (word_of_nat (word_sum m hdr n))"
  have "?S < 2 ^ 32" using word_sum_bound [of m hdr n] assms(2) by simp
  then have S: "unat (word_of_nat ?S :: u32) = ?S" by (simp add: unsigned_of_nat take_bit_nat_def)
  note v = csum_fold_result [of "word_of_nat ?S", unfolded S]
  have "calculate_ip_checksum m hdr (2 * n) = Some (ucast (NOT ?v))"
    using csum_loop_sum [OF assms] by (simp add: calculate_ip_checksum_def)
  then show ?thesis using v ucast_NOT [of ?v] by (intro exI [of _ "unat ?v"] exI conjI) auto
qed

text \<open>Storing a 16-bit word over a zero word adds its value to the sum.\<close>

lemma word_sum_store:
  assumes "hdr + 2 * n \<le> length m" "k < n" "m ! (hdr + 2 * k) = 0" "m ! (hdr + 2 * k + 1) = 0"
  shows "word_sum (patch m (hdr + 2 * k) (le16_bytes c)) hdr n = word_sum m hdr n + unat c"
proof -
  let ?m = "patch m (hdr + 2 * k) (le16_bytes c)"
  let ?f = "\<lambda>m i. unat (le16 (m ! (hdr + 2 * i)) (m ! (hdr + 2 * i + 1)))"
  have same: "?f ?m i = ?f m i" if "i < n" "i \<noteq> k" for i
  proof -
    have "2 * i + 1 < 2 * k \<or> 2 * k + 1 < 2 * i" using that by linarith
    then show ?thesis using that assms(1,2) by (auto simp: nth_patch)
  qed
  have k: "?f ?m k = unat c"
    using assms(1,2) by (simp add: nth_patch) (simp add: le16_bytes_def)
  have "word_sum ?m hdr n = ?f ?m k + (\<Sum>i\<in>{..<n} - {k}. ?f ?m i)"
    unfolding word_sum_def using assms(2) by (intro sum.remove) auto
  also have "(\<Sum>i\<in>{..<n} - {k}. ?f ?m i) = (\<Sum>i\<in>{..<n} - {k}. ?f m i)"
    by (rule sum.cong [OF refl]) (use same in auto)
  also have "\<dots> = word_sum m hdr n"
    unfolding word_sum_def using assms(2-4)
    by (subst sum.remove [of "{..<n}" k]) (auto simp: le16_def)
  finally show ?thesis unfolding k by simp
qed

section \<open>The Internet checksum\<close>

text \<open>Ones' complement addition of 16-bit numbers: a carry out of the top bit is added at the bottom.\<close>

definition oc_add :: "nat \<Rightarrow> nat \<Rightarrow> nat" where
  "oc_add a b = (if a + b < 65536 then a + b else a + b - 65535)"

text \<open>The 16-bit words of a header in network byte order, an odd last byte padded with zero.\<close>

fun net_words :: "mem \<Rightarrow> nat list" where
  "net_words (a # b # r) = (256 * unat a + unat b) # net_words r"
| "net_words [a] = [256 * unat a]"
| "net_words [] = []"

definition inet_sum :: "mem \<Rightarrow> nat" where
  "inet_sum bs = fold oc_add (net_words bs) 0"

text \<open>The receiver's test: the sum over the whole header, the checksum included, is all ones.\<close>

definition inet_checksum_ok :: "mem \<Rightarrow> bool" where
  "inet_checksum_ok bs \<longleftrightarrow> inet_sum bs = 65535"

lemma net_words_small: "w \<in> set (net_words bs) \<Longrightarrow> w < 65536"
proof (induction bs rule: net_words.induct)
  case (1 a b r)
  then show ?case using unat_lt_8 [of a] unat_lt_8 [of b] by auto
next
  case (2 a)
  then show ?case using unat_lt_8 [of a] by simp
qed simp

lemma oc_add_mod: "(oc_add a b) mod 65535 = (a + b) mod 65535"
  by (auto simp: oc_add_def le_mod_geq)

lemma oc_fold:
  "\<forall>w\<in>set ws. w < 65536 \<Longrightarrow> a < 65536 \<Longrightarrow>
   fold oc_add ws a < 65536 \<and> fold oc_add ws a mod 65535 = (a + sum_list ws) mod 65535 \<and>
   (fold oc_add ws a = 0 \<longleftrightarrow> a = 0 \<and> sum_list ws = 0)"
proof (induction ws arbitrary: a)
  case (Cons w ws)
  have 1: "oc_add w a < 65536" "oc_add w a = 0 \<longleftrightarrow> w = 0 \<and> a = 0"
    using Cons.prems by (auto simp: oc_add_def)
  have "(oc_add w a + sum_list ws) mod 65535 = (w + a + sum_list ws) mod 65535"
    by (metis mod_add_left_eq oc_add_mod)
  then show ?case using Cons.IH [OF _ 1(1)] Cons.prems 1(2) by (auto simp: ac_simps)
qed simp

lemma net_words_sum:
  "length bs = 2 * n \<Longrightarrow> sum_list (net_words bs) = (\<Sum>i<n. 256 * unat (bs ! (2 * i)) + unat (bs ! (2 * i + 1)))"
proof (induction n arbitrary: bs)
  case (Suc n)
  then obtain a b r where bs: "bs = a # b # r" "length r = 2 * n"
    by (auto simp: length_Suc_conv numeral_2_eq_2)
  show ?case using Suc.IH [OF bs(2)] by (simp add: bs(1) sum.lessThan_Suc_shift del: sum.lessThan_Suc)
qed simp

text \<open>Swapping the bytes of every word multiplies the sum by 256 modulo 65535.\<close>

lemma net_words_word_sum:
  assumes "length bs = 2 * n"
  shows "sum_list (net_words bs) mod 65535 = 256 * word_sum bs 0 n mod 65535"
    and "sum_list (net_words bs) = 0 \<longleftrightarrow> word_sum bs 0 n = 0"
proof -
  let ?a = "\<lambda>i. unat (bs ! (2 * i))" and ?b = "\<lambda>i. unat (bs ! (2 * i + 1))"
  have "256 * word_sum bs 0 n = (\<Sum>i<n. (256 * ?a i + ?b i) + 65535 * ?b i)"
    unfolding word_sum_def sum_distrib_left by (intro sum.cong) (simp_all add: unat_le16)
  also have "\<dots> = sum_list (net_words bs) + 65535 * (\<Sum>i<n. ?b i)"
    by (simp only: net_words_sum [OF assms] sum.distrib sum_distrib_left)
  finally show "sum_list (net_words bs) mod 65535 = 256 * word_sum bs 0 n mod 65535"
    by (simp only: mod_mult_self2)
  show "sum_list (net_words bs) = 0 \<longleftrightarrow> word_sum bs 0 n = 0"
    unfolding net_words_sum [OF assms] by (auto simp: word_sum_def unat_le16)
qed

lemma inet_checksum_ok_iff:
  assumes "length bs = 2 * n"
  shows "inet_checksum_ok bs \<longleftrightarrow> word_sum bs 0 n mod 65535 = 0 \<and> word_sum bs 0 n \<noteq> 0"
proof -
  have s: "inet_sum bs < 65536" "inet_sum bs mod 65535 = 256 * word_sum bs 0 n mod 65535"
      "inet_sum bs = 0 \<longleftrightarrow> word_sum bs 0 n = 0"
    using oc_fold [of "net_words bs" 0] net_words_small [of _ bs] net_words_word_sum [OF assms]
    by (auto simp: inet_sum_def)
  have "256 * word_sum bs 0 n mod 65535 = 0 \<longleftrightarrow> word_sum bs 0 n mod 65535 = 0"
  proof
    assume "256 * word_sum bs 0 n mod 65535 = 0"
    then have "256 * (256 * word_sum bs 0 n) mod 65535 = 0" by (metis mod_mult_right_eq mult_0_right mod_0)
    moreover have "256 * (256 * word_sum bs 0 n) = word_sum bs 0 n + 65535 * word_sum bs 0 n" by simp
    ultimately show "word_sum bs 0 n mod 65535 = 0" by (simp only: mod_mult_self2)
  qed (metis mod_mult_right_eq mult_0_right mod_0)
  moreover have "inet_sum bs = 65535 \<longleftrightarrow> inet_sum bs mod 65535 = 0 \<and> inet_sum bs \<noteq> 0"
    using s(1) by (auto simp: mod_eq_0_iff_dvd elim!: dvdE)
  ultimately show ?thesis using s by (simp add: inet_checksum_ok_def)
qed

lemma checksum_verifies:
  assumes len: "length m = 2 * n" "n \<le> 65536" and k: "k < n"
    and zero: "m ! (2 * k) = 0" "m ! (2 * k + 1) = 0"
    and c: "calculate_ip_checksum m 0 (2 * n) = Some c"
  shows "inet_checksum_ok (patch m (2 * k) (le16_bytes c))"
proof -
  let ?m = "patch m (2 * k) (le16_bytes c)" and ?S = "word_sum m 0 n"
  obtain t where t: "unat c = 65535 - t" "t < 65536" "t mod 65535 = ?S mod 65535" "t = 0 \<longleftrightarrow> ?S = 0"
    using checksum_even [of 0 n m] len c by auto
  have S': "word_sum ?m 0 n = ?S + (65535 - t)"
    using word_sum_store [of 0 n m k c] len k zero t(1) by simp
  have "(?S + (65535 - t)) mod 65535 = (t + (65535 - t)) mod 65535"
    by (metis t(3) mod_add_left_eq)
  then have "word_sum ?m 0 n mod 65535 = 0" using t(2) S' by simp
  moreover have "word_sum ?m 0 n \<noteq> 0" using t S' by auto
  ultimately show ?thesis using inet_checksum_ok_iff [of ?m n] len k by simp
qed

end
