(* ===== verification/Parsing.thy ===== *)
theory Parsing
  imports Prelude
begin

text \<open>
  \<^verbatim>\<open>common/parsing_helpers.h\<close>: the header cursor and the parsing functions that every XDP
  program of the repository runs on a packet. A packet is the bytes between \<^verbatim>\<open>data\<close> and
  \<^verbatim>\<open>data_end\<close>; a pointer into it is an offset from \<^verbatim>\<open>data\<close>. A parser returns the C return
  value, the cursor it leaves behind and the header pointer it stores through its out parameter
  (\<open>None\<close> when it stores nothing), or \<open>None\<close> when it reads outside the packet.
\<close>

section \<open>Model\<close>

record hdr_cursor =
  pos :: nat

record collect_vlans =
  vlan_ids :: "u16 list"

type_synonym parse_result = "(int \<times> hdr_cursor \<times> nat option) option"

definition ETH_P_IP :: u16 where "ETH_P_IP = 0x0800"

definition ETH_P_IPV6 :: u16 where "ETH_P_IPV6 = 0x86DD"

definition ETH_P_8021Q :: u16 where "ETH_P_8021Q = 0x8100"

definition ETH_P_8021AD :: u16 where "ETH_P_8021AD = 0x88A8"

definition VLAN_MAX_DEPTH :: nat where "VLAN_MAX_DEPTH = 2"

definition VLAN_VID_MASK :: u16 where "VLAN_VID_MASK = 0x0fff"

text \<open>The bit fields \<^verbatim>\<open>ihl\<close> of \<^verbatim>\<open>struct iphdr\<close> and \<^verbatim>\<open>doff\<close> of \<^verbatim>\<open>struct tcphdr\<close>.\<close>

definition ihl_of :: "u8 \<Rightarrow> nat" where
  "ihl_of b = unat (b AND 0xf)"

definition doff_of :: "u8 \<Rightarrow> nat" where
  "doff_of b = unat (drop_bit 4 b)"

definition proto_is_vlan :: "u16 \<Rightarrow> bool" where
  "proto_is_vlan h_proto \<longleftrightarrow> h_proto = bpf_htons ETH_P_8021Q \<or> h_proto = bpf_htons ETH_P_8021AD"

fun vlan_loop :: "mem \<Rightarrow> nat list \<Rightarrow> nat \<Rightarrow> u16 \<Rightarrow> collect_vlans option \<Rightarrow>
    (nat \<times> u16 \<times> collect_vlans option) option" where
  "vlan_loop pkt [] vlh h_proto vlans = Some (vlh, h_proto, vlans)"
| "vlan_loop pkt (i # is) vlh h_proto vlans =
     (if \<not> proto_is_vlan h_proto then Some (vlh, h_proto, vlans)
      else if vlh + 4 > length pkt then Some (vlh, h_proto, vlans)
      else do {
        h_proto' \<leftarrow> ld16 pkt (vlh + 2);
        vlans' \<leftarrow> (case vlans of
                     None \<Rightarrow> Some None
                   | Some v \<Rightarrow> do {
                       tci \<leftarrow> ld16 pkt vlh;
                       Some (Some (v\<lparr>vlan_ids := (vlan_ids v)[i := bpf_ntohs tci AND VLAN_VID_MASK]\<rparr>))
                     });
        vlan_loop pkt is (vlh + 4) h_proto' vlans'
      })"

definition parse_ethhdr_vlan ::
  "mem \<Rightarrow> hdr_cursor \<Rightarrow> collect_vlans option \<Rightarrow>
   (int \<times> hdr_cursor \<times> nat option \<times> collect_vlans option) option" where
  "parse_ethhdr_vlan pkt nh vlans =
     (let eth = pos nh; hdrsize = 14 in
      if pos nh + hdrsize > length pkt then Some (-1, nh, None, vlans)
      else do {
        h_proto \<leftarrow> ld16 pkt (eth + 12);
        (vlh, h_proto', vlans') \<leftarrow>
          vlan_loop pkt [0..<VLAN_MAX_DEPTH] (pos nh + hdrsize) h_proto vlans;
        Some (uint h_proto', nh\<lparr>pos := vlh\<rparr>, Some eth, vlans')
      })"

definition parse_ethhdr :: "mem \<Rightarrow> hdr_cursor \<Rightarrow> parse_result" where
  "parse_ethhdr pkt nh =
     do { (r, nh', eth, _) \<leftarrow> parse_ethhdr_vlan pkt nh None; Some (r, nh', eth) }"

definition parse_ip6hdr :: "mem \<Rightarrow> hdr_cursor \<Rightarrow> parse_result" where
  "parse_ip6hdr pkt nh =
     (let ip6h = pos nh in
      if ip6h + 40 > length pkt then Some (-1, nh, None)
      else do {
        nexthdr \<leftarrow> ld8 pkt (ip6h + 6);
        Some (uint nexthdr, nh\<lparr>pos := ip6h + 40\<rparr>, Some ip6h)
      })"

definition parse_iphdr :: "mem \<Rightarrow> hdr_cursor \<Rightarrow> parse_result" where
  "parse_iphdr pkt nh =
     (let iph = pos nh in
      if iph + 20 > length pkt then Some (-1, nh, None)
      else do {
        b0 \<leftarrow> ld8 pkt iph;
        let hdrsize = ihl_of b0 * 4;
        if hdrsize < 20 then Some (-1, nh, None)
        else if pos nh + hdrsize > length pkt then Some (-1, nh, None)
        else do {
          protocol \<leftarrow> ld8 pkt (iph + 9);
          Some (uint protocol, nh\<lparr>pos := pos nh + hdrsize\<rparr>, Some iph)
        }
      })"

definition parse_icmp6hdr :: "mem \<Rightarrow> hdr_cursor \<Rightarrow> parse_result" where
  "parse_icmp6hdr pkt nh =
     (let icmp6h = pos nh in
      if icmp6h + 8 > length pkt then Some (-1, nh, None)
      else do {
        t \<leftarrow> ld8 pkt icmp6h;
        Some (uint t, nh\<lparr>pos := icmp6h + 8\<rparr>, Some icmp6h)
      })"

definition parse_icmphdr :: "mem \<Rightarrow> hdr_cursor \<Rightarrow> parse_result" where
  "parse_icmphdr pkt nh =
     (let icmph = pos nh in
      if icmph + 8 > length pkt then Some (-1, nh, None)
      else do {
        t \<leftarrow> ld8 pkt icmph;
        Some (uint t, nh\<lparr>pos := icmph + 8\<rparr>, Some icmph)
      })"

definition parse_icmphdr_common :: "mem \<Rightarrow> hdr_cursor \<Rightarrow> parse_result" where
  "parse_icmphdr_common pkt nh =
     (let h = pos nh in
      if h + 4 > length pkt then Some (-1, nh, None)
      else do {
        t \<leftarrow> ld8 pkt h;
        Some (uint t, nh\<lparr>pos := h + 4\<rparr>, Some h)
      })"

text \<open>A UDP header whose length field is below 8 is refused after the cursor has moved.\<close>

definition parse_udphdr :: "mem \<Rightarrow> hdr_cursor \<Rightarrow> parse_result" where
  "parse_udphdr pkt nh =
     (let h = pos nh in
      if h + 8 > length pkt then Some (-1, nh, None)
      else do {
        l \<leftarrow> ld16 pkt (h + 4);
        let len = uint (bpf_ntohs l) - 8;
        if len < 0 then Some (-1, nh\<lparr>pos := h + 8\<rparr>, Some h)
        else Some (len, nh\<lparr>pos := h + 8\<rparr>, Some h)
      })"

definition parse_tcphdr :: "mem \<Rightarrow> hdr_cursor \<Rightarrow> parse_result" where
  "parse_tcphdr pkt nh =
     (let h = pos nh in
      if h + 20 > length pkt then Some (-1, nh, None)
      else do {
        b12 \<leftarrow> ld8 pkt (h + 12);
        let len = doff_of b12 * 4;
        if len < 20 then Some (-1, nh, None)
        else if pos nh + len > length pkt then Some (-1, nh, None)
        else Some (int len, nh\<lparr>pos := pos nh + len\<rparr>, Some h)
      })"

section \<open>The contract of a header parser\<close>

text \<open>
  What a caller relies on: the parser never reads outside the packet, reports failure as \<open>-1\<close>,
  and on success leaves the header in front of the cursor and the cursor inside the packet.
\<close>

locale header_parser =
  fixes parse :: "mem \<Rightarrow> hdr_cursor \<Rightarrow> parse_result"
    and hdrlen :: nat
  assumes no_fault: "\<exists>r nh' p. parse pkt nh = Some (r, nh', p)"
    and error_code: "parse pkt nh = Some (r, nh', p) \<Longrightarrow> r < 0 \<Longrightarrow> r = -1"
    and success: "parse pkt nh = Some (r, nh', p) \<Longrightarrow> 0 \<le> r \<Longrightarrow>
      p = Some (pos nh) \<and> pos nh + hdrlen \<le> pos nh' \<and> pos nh' \<le> length pkt"
    and short: "length pkt < pos nh + hdrlen \<Longrightarrow> parse pkt nh = Some (-1, nh, None)"
begin

lemma header_readable:
  assumes "parse pkt nh = Some (r, nh', Some p)" "0 \<le> r" "i < hdrlen"
  shows "ld8 pkt (p + i) = Some (pkt ! (p + i))"
  using success [OF assms(1,2)] assms(3) by (auto simp: ld8_def)

lemma cases_result:
  obtains r nh' where "parse pkt nh = Some (r, nh', Some (pos nh))" "0 \<le> r"
      "pos nh + hdrlen \<le> pos nh'" "pos nh' \<le> length pkt"
  | nh' p where "parse pkt nh = Some (-1, nh', p)"
  using no_fault [of pkt nh] error_code success by (metis not_less)

end

text \<open>Two parsers in sequence: the second header starts behind the first one.\<close>

locale parser_chain = outer: header_parser parse1 len1 + inner: header_parser parse2 len2
  for parse1 len1 parse2 len2
begin

lemma chain_in_packet:
  assumes "parse1 pkt nh = Some (r1, nh1, Some p1)" "0 \<le> r1"
    and "parse2 pkt nh1 = Some (r2, nh2, Some p2)" "0 \<le> r2"
  shows "p1 + len1 \<le> p2 \<and> p2 + len2 \<le> pos nh2 \<and> pos nh2 \<le> length pkt"
  using outer.success [OF assms(1,2)] inner.success [OF assms(3,4)] by auto

end

section \<open>The parsers keep the contract\<close>

lemma uint_ge_0 [simp]: "0 \<le> uint (w::'a::len word)" "uint w \<noteq> -1" "\<not> uint w < 0"
  using uint_nonnegative [of w] by linarith+

text \<open>
  The VLAN loop skips \<open>k\<close> tags, at most one per index, and stops at a type that is no VLAN type,
  at the end of the packet or when the indices are used up. \<open>tpid j\<close> is the type in front of
  tag \<open>j\<close>.
\<close>

lemma vlan_loop_skips:
  assumes "2 \<le> vlh" "vlh \<le> length pkt" "ld16 pkt (vlh - 2) = Some h"
  shows "\<exists>k\<le>length is. \<exists>h' v'. vlan_loop pkt is vlh h v = Some (vlh + 4 * k, h', v') \<and>
    vlh + 4 * k \<le> length pkt \<and> ld16 pkt (vlh + 4 * k - 2) = Some h' \<and>
    (\<forall>j<k. \<exists>t. ld16 pkt (vlh + 4 * j - 2) = Some t \<and> proto_is_vlan t) \<and>
    (k = length is \<or> \<not> proto_is_vlan h' \<or> length pkt < vlh + 4 * k + 4)"
  using assms
proof (induction "is" arbitrary: vlh h v)
  case Nil
  then show ?case by auto
next
  case (Cons i "is")
  show ?case
  proof (cases "proto_is_vlan h \<and> vlh + 4 \<le> length pkt")
    case False
    then show ?thesis using Cons.prems by (intro exI [of _ 0]) auto
  next
    case True
    then obtain h' v' where h': "ld16 pkt (vlh + 2) = Some h'"
      and step: "vlan_loop pkt (i # is) vlh h v = vlan_loop pkt is (vlh + 4) h' v'"
      by (cases v) (auto simp: mem_simps)
    obtain k h'' v'' where k: "k \<le> length is"
      and loop: "vlan_loop pkt is (vlh + 4) h' v' = Some (vlh + 4 + 4 * k, h'', v'')"
      and last: "vlh + 4 + 4 * k \<le> length pkt" "ld16 pkt (vlh + 4 + 4 * k - 2) = Some h''"
      and tags: "\<forall>j<k. \<exists>t. ld16 pkt (vlh + 4 + 4 * j - 2) = Some t \<and> proto_is_vlan t"
      and stop: "k = length is \<or> \<not> proto_is_vlan h'' \<or> length pkt < vlh + 4 + 4 * k + 4"
      using Cons.IH [of "vlh + 4" h' v'] True h' by (auto simp: numeral_2_eq_2)
    have "\<exists>t. ld16 pkt (vlh + 4 * j - 2) = Some t \<and> proto_is_vlan t" if "j < Suc k" for j
    proof (cases j)
      case 0
      then show ?thesis using True Cons.prems by auto
    next
      case (Suc j')
      then show ?thesis using tags that by (auto simp: add.assoc)
    qed
    then show ?thesis
      using k loop last stop step by (intro exI [of _ "Suc k"]) (auto simp: add.assoc)
  qed
qed

lemma parse_ethhdr_vlan_short:
  "length pkt < pos nh + 14 \<Longrightarrow> parse_ethhdr_vlan pkt nh v = Some (-1, nh, None, v)"
  by (simp add: parse_ethhdr_vlan_def Let_def)

lemma parse_ethhdr_vlan_result:
  assumes "pos nh + 14 \<le> length pkt"
  shows "\<exists>k\<le>2. \<exists>h v'. parse_ethhdr_vlan pkt nh v =
      Some (uint h, nh\<lparr>pos := pos nh + 14 + 4 * k\<rparr>, Some (pos nh), v') \<and>
    pos nh + 14 + 4 * k \<le> length pkt \<and> ld16 pkt (pos nh + 12 + 4 * k) = Some h \<and>
    (\<forall>j<k. \<exists>t. ld16 pkt (pos nh + 12 + 4 * j) = Some t \<and> proto_is_vlan t) \<and>
    (k = 2 \<or> \<not> proto_is_vlan h \<or> length pkt < pos nh + 18 + 4 * k)"
proof -
  obtain h0 where h0: "ld16 pkt (pos nh + 12) = Some h0"
    using assms by (auto simp: mem_simps)
  then have "ld16 pkt (pos nh + 14 - 2) = Some h0" by (simp add: add.commute)
  then obtain k h v' where k: "k \<le> 2"
    and loop: "vlan_loop pkt [0..<VLAN_MAX_DEPTH] (pos nh + 14) h0 v = Some (pos nh + 14 + 4 * k, h, v')"
    and rest: "pos nh + 14 + 4 * k \<le> length pkt" "ld16 pkt (pos nh + 14 + 4 * k - 2) = Some h"
      "\<forall>j<k. \<exists>t. ld16 pkt (pos nh + 14 + 4 * j - 2) = Some t \<and> proto_is_vlan t"
      "k = 2 \<or> \<not> proto_is_vlan h \<or> length pkt < pos nh + 14 + 4 * k + 4"
    using assms vlan_loop_skips [of "pos nh + 14" pkt h0 "[0..<VLAN_MAX_DEPTH]" v]
    by (auto simp: VLAN_MAX_DEPTH_def)
  have off: "pos nh + 14 + 4 * j - 2 = pos nh + 12 + 4 * j" for j by simp
  have "parse_ethhdr_vlan pkt nh v = Some (uint h, nh\<lparr>pos := pos nh + 14 + 4 * k\<rparr>, Some (pos nh), v')"
    using assms h0 loop by (simp add: parse_ethhdr_vlan_def Let_def)
  with k rest show ?thesis unfolding off by (intro exI [of _ k] conjI exI [of _ h] exI [of _ v']) auto
qed

lemma parse_ethhdr_result:
  assumes "pos nh + 14 \<le> length pkt"
  shows "\<exists>k\<le>2. \<exists>h. parse_ethhdr pkt nh =
      Some (uint h, nh\<lparr>pos := pos nh + 14 + 4 * k\<rparr>, Some (pos nh)) \<and>
    pos nh + 14 + 4 * k \<le> length pkt \<and> ld16 pkt (pos nh + 12 + 4 * k) = Some h \<and>
    (\<forall>j<k. \<exists>t. ld16 pkt (pos nh + 12 + 4 * j) = Some t \<and> proto_is_vlan t) \<and>
    (k = 2 \<or> \<not> proto_is_vlan h \<or> length pkt < pos nh + 18 + 4 * k)"
proof -
  obtain k h v' where k: "k \<le> 2"
    and res: "parse_ethhdr_vlan pkt nh None =
      Some (uint h, nh\<lparr>pos := pos nh + 14 + 4 * k\<rparr>, Some (pos nh), v')"
    and rest: "pos nh + 14 + 4 * k \<le> length pkt \<and> ld16 pkt (pos nh + 12 + 4 * k) = Some h \<and>
      (\<forall>j<k. \<exists>t. ld16 pkt (pos nh + 12 + 4 * j) = Some t \<and> proto_is_vlan t) \<and>
      (k = 2 \<or> \<not> proto_is_vlan h \<or> length pkt < pos nh + 18 + 4 * k)"
    using parse_ethhdr_vlan_result [OF assms, of None] by blast
  from res have "parse_ethhdr pkt nh = Some (uint h, nh\<lparr>pos := pos nh + 14 + 4 * k\<rparr>, Some (pos nh))"
    by (simp add: parse_ethhdr_def)
  with k rest show ?thesis by blast
qed

lemma parse_ethhdr_short: "length pkt < pos nh + 14 \<Longrightarrow> parse_ethhdr pkt nh = Some (-1, nh, None)"
  by (simp add: parse_ethhdr_def parse_ethhdr_vlan_short)

interpretation eth: header_parser parse_ethhdr 14
proof
  fix pkt :: mem and nh :: hdr_cursor
  consider "length pkt < pos nh + 14" | "pos nh + 14 \<le> length pkt" by linarith
  note split = this
  show "\<exists>r nh' p. parse_ethhdr pkt nh = Some (r, nh', p)"
    using split by cases (use parse_ethhdr_short parse_ethhdr_result in blast)+
  fix r nh' p assume ok: "parse_ethhdr pkt nh = Some (r, nh', p)"
  show "r < 0 \<Longrightarrow> r = -1"
    using split ok by cases (auto simp: parse_ethhdr_short dest!: parse_ethhdr_result)
  show "0 \<le> r \<Longrightarrow> p = Some (pos nh) \<and> pos nh + 14 \<le> pos nh' \<and> pos nh' \<le> length pkt"
    using split ok by cases (auto simp: parse_ethhdr_short dest!: parse_ethhdr_result)
qed (rule parse_ethhdr_short)

lemmas parse_simps = parse_ip6hdr_def parse_iphdr_def parse_icmp6hdr_def parse_icmphdr_def
  parse_icmphdr_common_def parse_udphdr_def parse_tcphdr_def

interpretation ip6: header_parser parse_ip6hdr 40
  by unfold_locales (auto simp: parse_simps Let_def mem_simps split: if_splits)

interpretation ip4: header_parser parse_iphdr 20
  by unfold_locales (auto simp: parse_simps Let_def mem_simps split: if_splits)

interpretation icmp6: header_parser parse_icmp6hdr 8
  by unfold_locales (auto simp: parse_simps Let_def mem_simps split: if_splits)

interpretation icmp4: header_parser parse_icmphdr 8
  by unfold_locales (auto simp: parse_simps Let_def mem_simps split: if_splits)

interpretation icmpc: header_parser parse_icmphdr_common 4
  by unfold_locales (auto simp: parse_simps Let_def mem_simps split: if_splits)

interpretation udp: header_parser parse_udphdr 8
  by unfold_locales (auto simp: parse_simps Let_def mem_simps split: if_splits)

interpretation tcp: header_parser parse_tcphdr 20
  by unfold_locales (auto simp: parse_simps Let_def mem_simps split: if_splits)

interpretation eth_ip4: parser_chain parse_ethhdr 14 parse_iphdr 20 ..

interpretation eth_ip6: parser_chain parse_ethhdr 14 parse_ip6hdr 40 ..

interpretation ip4_udp: parser_chain parse_iphdr 20 parse_udphdr 8 ..

interpretation ip4_tcp: parser_chain parse_iphdr 20 parse_tcphdr 20 ..

section \<open>Properties\<close>

lemma cursor_upd_eq [simp]: "nh\<lparr>pos := a\<rparr> = nh\<lparr>pos := b\<rparr> \<longleftrightarrow> a = b" for nh :: hdr_cursor
  by (cases nh) simp

lemma vlan_loop_cursor:
  "vlan_loop pkt is vlh h v = Some (vlh', h', v') \<Longrightarrow> \<exists>j. vlh' = vlh + 4 * j"
proof (induction "is" arbitrary: vlh h v)
  case (Cons i "is")
  then show ?case
    by (auto split: if_splits simp: bind_eq_Some_conv) (metis add.assoc mult_Suc_right)+
qed auto

text \<open>The VLAN ids that the loop collects: tag \<open>j\<close> goes to the \<open>j\<close>-th index.\<close>

definition tag_vid :: "mem \<Rightarrow> nat \<Rightarrow> u16" where
  "tag_vid pkt off = bpf_ntohs (le16 (pkt ! off) (pkt ! (off + 1))) AND VLAN_VID_MASK"

lemma vlan_loop_ids:
  assumes "vlan_loop pkt is vlh h (Some v) = Some (vlh + 4 * k, h', v')"
  shows "v' = Some (v\<lparr>vlan_ids := fold (\<lambda>j ids. ids[is ! j := tag_vid pkt (vlh + 4 * j)]) [0..<k] (vlan_ids v)\<rparr>)"
  using assms
proof (induction "is" arbitrary: vlh h v k)
  case (Cons i "is")
  show ?case
  proof (cases "proto_is_vlan h \<and> vlh + 4 \<le> length pkt")
    case False
    then show ?thesis using Cons.prems by (auto split: if_splits)
  next
    case True
    let ?v = "v\<lparr>vlan_ids := (vlan_ids v)[i := tag_vid pkt vlh]\<rparr>"
    obtain h1 where step: "vlan_loop pkt is (vlh + 4) h1 (Some ?v) = Some (vlh + 4 * k, h', v')"
      using Cons.prems True by (auto simp: mem_simps tag_vid_def)
    have "\<exists>j. vlh + 4 * k = vlh + 4 + 4 * j"
      using vlan_loop_cursor [OF step] by simp
    then obtain j where k: "k = Suc j" by (cases k) auto
    have "fold (\<lambda>a ids. ids[(i # is) ! a := tag_vid pkt (vlh + 4 * a)]) [0..<k] (vlan_ids v) =
        fold (\<lambda>a ids. ids[is ! a := tag_vid pkt (vlh + 4 + 4 * a)]) [0..<j] (vlan_ids ?v)"
      unfolding k upt_conv_Cons [OF zero_less_Suc] map_Suc_upt [symmetric]
      by (simp add: fold_map comp_def add.assoc)
    then show ?thesis using Cons.IH [of "vlh + 4" h1 ?v j] step k by (simp add: add.assoc)
  qed
qed simp

text \<open>The result of a parser for headers of at least \<open>n\<close> bytes: refused, or inside the packet.\<close>

definition parsed_within :: "mem \<Rightarrow> hdr_cursor \<Rightarrow> nat \<Rightarrow> parse_result \<Rightarrow> bool" where
  "parsed_within pkt nh n res \<longleftrightarrow> (\<exists>r nh' p. res = Some (r, nh', p) \<and>
     (r = -1 \<or> 0 \<le> r \<and> p = Some (pos nh) \<and> pos nh + n \<le> pos nh' \<and> pos nh' \<le> length pkt))"

context header_parser
begin

lemma within: "parsed_within pkt nh hdrlen (parse pkt nh)"
  by (rule cases_result [of pkt nh]) (auto simp: parsed_within_def)

end

text \<open>
  C9: on every packet and every cursor the eight header parsers read inside the packet only, and
  either return \<^verbatim>\<open>-1\<close> or a nonnegative value with the header pointer at the old cursor and at least
  the header's fixed size between it and the new cursor, which stays inside the packet.
\<close>

theorem parsers_in_bounds:
  "parsed_within pkt nh 14 (parse_ethhdr pkt nh) \<and> parsed_within pkt nh 20 (parse_iphdr pkt nh) \<and>
   parsed_within pkt nh 40 (parse_ip6hdr pkt nh) \<and> parsed_within pkt nh 8 (parse_icmp6hdr pkt nh) \<and>
   parsed_within pkt nh 8 (parse_icmphdr pkt nh) \<and> parsed_within pkt nh 4 (parse_icmphdr_common pkt nh) \<and>
   parsed_within pkt nh 8 (parse_udphdr pkt nh) \<and> parsed_within pkt nh 20 (parse_tcphdr pkt nh)"
  by (intro conjI eth.within ip4.within ip6.within icmp6.within icmp4.within icmpc.within udp.within tcp.within)

text \<open>
  \<^verbatim>\<open>parse_ethhdr_vlan\<close> skips the longest run of at most two complete VLAN tags behind the
  Ethernet header, returns the type behind them in network byte order, and collects the
  12-bit ids of exactly the skipped tags, in order.
\<close>

theorem parse_ethhdr_vlan_collects:
  assumes "pos nh + 14 \<le> length pkt" "length (vlan_ids v) = 2"
  shows "\<exists>k\<le>2. \<exists>h ids. parse_ethhdr_vlan pkt nh (Some v) =
      Some (uint h, nh\<lparr>pos := pos nh + 14 + 4 * k\<rparr>, Some (pos nh), Some (v\<lparr>vlan_ids := ids\<rparr>)) \<and>
    pos nh + 14 + 4 * k \<le> length pkt \<and> ld16 pkt (pos nh + 12 + 4 * k) = Some h \<and>
    (\<forall>j<k. \<exists>t. ld16 pkt (pos nh + 12 + 4 * j) = Some t \<and> proto_is_vlan t) \<and>
    (k = 2 \<or> \<not> proto_is_vlan h \<or> length pkt < pos nh + 18 + 4 * k) \<and>
    ids = map (tag_vid pkt) (take k [pos nh + 14, pos nh + 18]) @ drop k (vlan_ids v)"
proof -
  obtain k h v' where k: "k \<le> 2"
    and res: "parse_ethhdr_vlan pkt nh (Some v) =
      Some (uint h, nh\<lparr>pos := pos nh + 14 + 4 * k\<rparr>, Some (pos nh), v')"
    and rest: "pos nh + 14 + 4 * k \<le> length pkt \<and> ld16 pkt (pos nh + 12 + 4 * k) = Some h \<and>
      (\<forall>j<k. \<exists>t. ld16 pkt (pos nh + 12 + 4 * j) = Some t \<and> proto_is_vlan t) \<and>
      (k = 2 \<or> \<not> proto_is_vlan h \<or> length pkt < pos nh + 18 + 4 * k)"
    using parse_ethhdr_vlan_result [OF assms(1), of "Some v"] by blast
  obtain h0 h1 where "vlan_loop pkt [0..<VLAN_MAX_DEPTH] (pos nh + 14) h0 (Some v) = Some (pos nh + 14 + 4 * k, h1, v')"
    using res assms(1)
    by (auto simp: parse_ethhdr_vlan_def Let_def mem_simps bind_eq_Some_conv)
  from vlan_loop_ids [OF this] have v': "v' = Some (v\<lparr>vlan_ids :=
      fold (\<lambda>j ids. ids[[0..<VLAN_MAX_DEPTH] ! j := tag_vid pkt (pos nh + 14 + 4 * j)]) [0..<k] (vlan_ids v)\<rparr>)" .
  obtain x y where xy: "vlan_ids v = [x, y]"
    using assms(2) by (auto simp: length_Suc_conv numeral_2_eq_2)
  have "k = 0 \<or> k = 1 \<or> k = 2" using k by linarith
  then have "v' = Some (v\<lparr>vlan_ids := map (tag_vid pkt) (take k [pos nh + 14, pos nh + 18]) @ drop k (vlan_ids v)\<rparr>)"
    unfolding v' xy by (auto simp: VLAN_MAX_DEPTH_def numeral_2_eq_2 add.commute)
  then show ?thesis using k res rest by blast
qed

theorem parse_ethhdr_vlan_collects_witness:
  "let pkt = replicate 12 1 @ [0x81, 0, 0, 5, 8, 0] in
   \<exists>k (h::u16) ids. parse_ethhdr_vlan pkt \<lparr>pos = 0\<rparr> (Some \<lparr>vlan_ids = [0, 0]\<rparr>) =
     Some (uint h, \<lparr>pos = 14 + 4 * k\<rparr>, Some 0, Some \<lparr>vlan_ids = ids\<rparr>) \<and>
     ids = map (tag_vid pkt) (take k [14, 18]) @ drop k [0, 0]"
proof -
  let ?pkt = "replicate 12 1 @ [0x81, 0, 0, 5, 8, 0] :: mem" and ?nh = "\<lparr>pos = 0\<rparr> :: hdr_cursor"
    and ?v = "\<lparr>vlan_ids = [0, 0]\<rparr> :: collect_vlans"
  have p: "pos ?nh + 14 \<le> length ?pkt" "length (vlan_ids ?v) = 2" by simp_all
  obtain k and h :: u16 and ids where "parse_ethhdr_vlan ?pkt ?nh (Some ?v) =
      Some (uint h, ?nh\<lparr>pos := pos ?nh + 14 + 4 * k\<rparr>, Some (pos ?nh), Some (?v\<lparr>vlan_ids := ids\<rparr>))"
    "ids = map (tag_vid ?pkt) (take k [pos ?nh + 14, pos ?nh + 18]) @ drop k (vlan_ids ?v)"
    using parse_ethhdr_vlan_collects [OF p] by blast
  then show ?thesis unfolding Let_def by (intro exI [of _ k] exI [of _ h] exI [of _ ids]) simp
qed

end
