(* ===== verification/Rewrite.thy ===== *)
theory Rewrite
  imports Parsing
begin

text \<open>
  The XDP context of a packet, the head adjustment helper that programs grow and shrink a packet
  with, and \<^verbatim>\<open>common/rewrite_helpers.h\<close> (VLAN push and pop, address swaps).

  The context is the packet's frame split at \<^verbatim>\<open>ctx->data\<close>: the bytes in front of the packet
  (\<open>room\<close>) and the packet itself (\<open>pkt\<close>). \<^verbatim>\<open>bpf_xdp_adjust_head\<close> is a kernel helper, so it is a
  parameter \<open>adj\<close> of every definition that calls it; the locale \<open>head_adjust\<close> states what the
  helper's documentation in \<^verbatim>\<open>linux/bpf.h\<close> promises.
\<close>

section \<open>Model\<close>

record xdp_md =
  room :: mem
  pkt :: mem

type_synonym adjust_head = "xdp_md \<Rightarrow> int \<Rightarrow> int \<times> xdp_md"

text \<open>Each rewrite is \<open>None\<close> on an access outside the packet.\<close>

definition vlan_tag_pop :: "adjust_head \<Rightarrow> xdp_md \<Rightarrow> nat \<Rightarrow> (int \<times> xdp_md) option" where
  "vlan_tag_pop adj ctx eth =
     do {
       hp \<leftarrow> ld16 (pkt ctx) (eth + 12);
       if \<not> proto_is_vlan hp then Some (-1, ctx)
       else
         let vlh = eth + 14 in
         if vlh + 4 > length (pkt ctx) then Some (-1, ctx)
         else do {
           tci \<leftarrow> ld16 (pkt ctx) vlh;
           h_proto \<leftarrow> ld16 (pkt ctx) (vlh + 2);
           eth_cpy \<leftarrow> ldn (pkt ctx) eth 14;
           let (err, ctx1) = adj ctx 4;
           if err \<noteq> 0 then Some (-1, ctx1)
           else if 14 > length (pkt ctx1) then Some (-1, ctx1)
           else do {
             p1 \<leftarrow> stn (pkt ctx1) 0 eth_cpy;
             p2 \<leftarrow> st16 p1 12 h_proto;
             Some (uint (bpf_ntohs tci), ctx1\<lparr>pkt := p2\<rparr>)
           }
         }
     }"

definition vlan_tag_push :: "adjust_head \<Rightarrow> xdp_md \<Rightarrow> nat \<Rightarrow> int \<Rightarrow> (int \<times> xdp_md) option" where
  "vlan_tag_push adj ctx eth vlid =
     do {
       eth_cpy \<leftarrow> ldn (pkt ctx) eth 14;
       let (err, ctx1) = adj ctx (0 - 4);
       if err \<noteq> 0 then Some (-1, ctx1)
       else if 14 > length (pkt ctx1) then Some (-1, ctx1)
       else do {
         p1 \<leftarrow> stn (pkt ctx1) 0 eth_cpy;
         let vlh = 14;
         if vlh + 4 > length p1 then Some (-1, ctx1\<lparr>pkt := p1\<rparr>)
         else do {
           p2 \<leftarrow> st16 p1 vlh (bpf_htons (word_of_int vlid));
           h_proto \<leftarrow> ld16 p2 12;
           p3 \<leftarrow> st16 p2 (vlh + 2) h_proto;
           p4 \<leftarrow> st16 p3 12 (bpf_htons ETH_P_8021Q);
           Some (0, ctx1\<lparr>pkt := p4\<rparr>)
         }
       }
     }"

definition swap_src_dst_mac :: "mem \<Rightarrow> nat \<Rightarrow> mem option" where
  "swap_src_dst_mac p eth =
     do {
       h_tmp \<leftarrow> ldn p (eth + 6) 6;
       h_dest \<leftarrow> ldn p eth 6;
       p1 \<leftarrow> stn p (eth + 6) h_dest;
       stn p1 eth h_tmp
     }"

definition swap_src_dst_ipv6 :: "mem \<Rightarrow> nat \<Rightarrow> mem option" where
  "swap_src_dst_ipv6 p ipv6 =
     do {
       tmp \<leftarrow> ldn p (ipv6 + 8) 16;
       daddr \<leftarrow> ldn p (ipv6 + 24) 16;
       p1 \<leftarrow> stn p (ipv6 + 8) daddr;
       stn p1 (ipv6 + 24) tmp
     }"

definition swap_src_dst_ipv4 :: "mem \<Rightarrow> nat \<Rightarrow> mem option" where
  "swap_src_dst_ipv4 p iphdr =
     do {
       tmp \<leftarrow> ldn p (iphdr + 12) 4;
       daddr \<leftarrow> ldn p (iphdr + 16) 4;
       p1 \<leftarrow> stn p (iphdr + 12) daddr;
       stn p1 (iphdr + 16) tmp
     }"

section \<open>The head adjustment helper\<close>

text \<open>
  A successful call moves \<^verbatim>\<open>data\<close> by \<open>delta\<close> inside the same frame, a failed one changes nothing. (The
  helper also moves the XDP metadata in front of the packet, when there is any, inside the headroom; none of the
  programs modelled here sets metadata.)
\<close>

locale head_adjust =
  fixes adj :: adjust_head
  assumes fail: "adj ctx delta = (err, ctx') \<Longrightarrow> err \<noteq> 0 \<Longrightarrow> ctx' = ctx"
    and frame: "adj ctx delta = (0, ctx') \<Longrightarrow> room ctx' @ pkt ctx' = room ctx @ pkt ctx"
    and moved: "adj ctx delta = (0, ctx') \<Longrightarrow> int (length (room ctx')) = int (length (room ctx)) + delta"
begin

lemma grow:
  assumes "adj ctx (- int n) = (0, ctx')"
  shows "\<exists>hd. length hd = n \<and> room ctx = room ctx' @ hd \<and> pkt ctx' = hd @ pkt ctx"
proof -
  have len: "length (room ctx) = length (room ctx') + n" using moved [OF assms] by simp
  have fr: "room ctx' @ pkt ctx' = room ctx @ pkt ctx" by (rule frame [OF assms])
  let ?hd = "drop (length (room ctx')) (room ctx)"
  have "room ctx = room ctx' @ ?hd"
    using fr len by (metis append_eq_append_conv_if append_take_drop_id le_add1)
  moreover from this fr have "pkt ctx' = ?hd @ pkt ctx"
    by (metis append_assoc same_append_eq)
  ultimately show ?thesis using len by (intro exI [of _ ?hd]) auto
qed

lemma shrink:
  assumes "adj ctx (int n) = (0, ctx')"
  shows "n \<le> length (pkt ctx) \<and> room ctx' = room ctx @ take n (pkt ctx) \<and> pkt ctx' = drop n (pkt ctx)"
proof -
  have len: "length (room ctx') = length (room ctx) + n" using moved [OF assms] by simp
  have fr: "room ctx' @ pkt ctx' = room ctx @ pkt ctx" by (rule frame [OF assms])
  then have "length (room ctx') + length (pkt ctx') = length (room ctx) + length (pkt ctx)"
    by (metis length_append)
  with len have n: "n \<le> length (pkt ctx)" by simp
  have "room ctx' = take (length (room ctx')) (room ctx @ pkt ctx)" by (simp flip: fr)
  moreover have "pkt ctx' = drop (length (room ctx')) (room ctx @ pkt ctx)" by (simp flip: fr)
  ultimately show ?thesis using n by (simp add: len)
qed

end

text \<open>
  A concrete helper with this contract: it refuses to move the head out of the frame or to leave
  less than an Ethernet header in the packet. It serves to show that the contract can be met.
\<close>

definition frame_adjust_head :: adjust_head where
  "frame_adjust_head ctx delta =
     (let fr = room ctx @ pkt ctx; d = int (length (room ctx)) + delta in
      if d < 0 \<or> int (length fr) < d + 14 then (-22, ctx)
      else (0, \<lparr>room = take (nat d) fr, pkt = drop (nat d) fr\<rparr>))"

interpretation fah: head_adjust frame_adjust_head
  by unfold_locales
    (auto simp: frame_adjust_head_def Let_def simp del: take_append drop_append split: if_splits)

section \<open>VLAN tags\<close>

lemma ld16_append: "i = length a \<Longrightarrow> ld16 (a @ le16_bytes w @ r) i = Some w"
  by (simp add: ld16_def le16_bytes_def nth_append)

lemma st16_append: "i = length a \<Longrightarrow> length t = 2 \<Longrightarrow> st16 (a @ t @ r) i w = Some (a @ le16_bytes w @ r)"
  by (simp add: st16_def stn_def patch_append)

lemma split_at2:
  assumes "n + 2 \<le> length p"
  obtains a w r where "p = a @ le16_bytes w @ r" "length a = n"
proof -
  have "drop n p = p ! n # p ! Suc n # drop (Suc (Suc n)) p"
    using assms by (simp add: Cons_nth_drop_Suc)
  then have "p = take n p @ [p ! n, p ! Suc n] @ drop (Suc (Suc n)) p"
    by (metis append_Cons append_Nil append_take_drop_id)
  then show ?thesis using assms that [of "take n p" "le16 (p ! n) (p ! Suc n)"] by simp
qed

text \<open>
  A tagged frame is \<open>a @ type @ TCI @ type' @ r\<close> with \<open>a\<close> the two MAC addresses. Pushing inserts the
  tag behind the addresses, popping removes it and returns the whole TCI.
\<close>

context head_adjust
begin

lemma push_spec:
  assumes p: "pkt ctx = a @ le16_bytes h @ r" "length a = 12" and adj: "adj ctx (- 4) = (0, ctx1)"
  shows "vlan_tag_push adj ctx 0 vlid =
    Some (0, ctx1\<lparr>pkt := a @ le16_bytes (bpf_htons ETH_P_8021Q)
       @ le16_bytes (bpf_htons (word_of_int vlid)) @ le16_bytes h @ r\<rparr>)"
proof -
  obtain hd where hd: "length hd = 4" and p1: "pkt ctx1 = hd @ pkt ctx"
    using grow [of ctx 4 ctx1] adj by auto
  let ?e = "a @ le16_bytes h" and ?x = "drop 10 a"
  have cpy: "ldn (pkt ctx) 0 14 = Some ?e" using p by (simp add: ldn_def)
  have "pkt ctx1 = (hd @ take 10 a) @ ?x @ le16_bytes h @ r"
    using p p1 append_take_drop_id [of 10 a] by (metis append_assoc)
  moreover have "length (hd @ take 10 a) = length ?e" using hd p by simp
  ultimately have s1: "stn (pkt ctx1) 0 ?e = Some (?e @ ?x @ le16_bytes h @ r)"
    by (simp add: stn_def patch_def)
  have s2: "st16 (?e @ ?x @ le16_bytes h @ r) 14 v = Some (?e @ le16_bytes v @ le16_bytes h @ r)" for v
    using p by (intro st16_append) auto
  have l: "ld16 (?e @ le16_bytes v @ le16_bytes h @ r) 12 = Some h" for v
    using p ld16_append [of 12 a h] by simp
  have s3: "st16 (?e @ le16_bytes v @ le16_bytes h @ r) 16 h = Some (?e @ le16_bytes v @ le16_bytes h @ r)" for v
    using p st16_append [of 16 "?e @ le16_bytes v" "le16_bytes h" r h] by simp
  have s4: "st16 (?e @ le16_bytes v @ le16_bytes h @ r) 12 t = Some (a @ le16_bytes t @ le16_bytes v @ le16_bytes h @ r)" for v t
    using p st16_append [of 12 a "le16_bytes h" "le16_bytes v @ le16_bytes h @ r" t] by simp
  show ?thesis
    using p adj hd p1 cpy s1 s2 l s3 s4 by (simp add: vlan_tag_push_def Let_def)
qed

lemma pop_spec:
  assumes p: "pkt ctx = a @ le16_bytes t @ le16_bytes v @ le16_bytes h @ r" "length a = 12"
    and t: "proto_is_vlan t" and adj: "adj ctx 4 = (0, ctx1)"
  shows "vlan_tag_pop adj ctx 0 = Some (uint (bpf_ntohs v), ctx1\<lparr>pkt := a @ le16_bytes h @ r\<rparr>)"
proof -
  have p1: "pkt ctx1 = drop 4 (pkt ctx)" using shrink [of ctx 4 ctx1] adj by simp
  have l0: "ld16 (pkt ctx) 12 = Some t"
    using p ld16_append [of 12 a t "le16_bytes v @ le16_bytes h @ r"] by simp
  have l1: "ld16 (pkt ctx) 14 = Some v" using p ld16_append [of 14 "a @ le16_bytes t" v "le16_bytes h @ r"] by simp
  have l2: "ld16 (pkt ctx) 16 = Some h"
    using p ld16_append [of 16 "a @ le16_bytes t @ le16_bytes v" h r] by simp
  have cpy: "ldn (pkt ctx) 0 14 = Some (a @ le16_bytes t)" using p by (simp add: ldn_def)
  have "pkt ctx1 = (drop 4 a @ le16_bytes t @ le16_bytes v @ le16_bytes h) @ r" using p p1 by simp
  then have s1: "stn (pkt ctx1) 0 (a @ le16_bytes t) = Some (a @ le16_bytes t @ r)"
    using p by (simp add: stn_def patch_def)
  have s2: "st16 (a @ le16_bytes t @ r) 12 h = Some (a @ le16_bytes h @ r)"
    using p by (intro st16_append) auto
  show ?thesis
    using p p1 adj t l0 l1 l2 cpy s1 s2 by (simp add: vlan_tag_pop_def Let_def)
qed

end

lemma proto_is_vlan_8021Q [simp]: "proto_is_vlan (bpf_htons ETH_P_8021Q)"
  by (simp add: proto_is_vlan_def)

section \<open>Address swaps\<close>

lemma swap_fields:
  assumes "length a = i" "length x = n" "length y = n"
  shows "do { t \<leftarrow> ldn (a @ x @ y @ r) (i + n) n; d \<leftarrow> ldn (a @ x @ y @ r) i n;
              p1 \<leftarrow> stn (a @ x @ y @ r) (i + n) d; stn p1 i t } = Some (a @ y @ x @ r)"
proof -
  have 1: "stn (a @ x @ y @ r) (i + n) x = Some (a @ x @ x @ r)"
    using assms patch_append [of "i + n" "a @ x" x y r] by (simp add: stn_def)
  have 2: "stn (a @ x @ x @ r) i y = Some (a @ y @ x @ r)"
    using assms patch_append [of i a y x "x @ r"] by (simp add: stn_def)
  show ?thesis using assms 1 2 by (simp add: ldn_def)
qed


lemma swap_fields_rev:
  assumes "length a = i" "length x = n" "length y = n" "j = i + n"
  shows "do { t \<leftarrow> ldn (a @ x @ y @ r) i n; d \<leftarrow> ldn (a @ x @ y @ r) j n;
              p1 \<leftarrow> stn (a @ x @ y @ r) i d; stn p1 j t } = Some (a @ y @ x @ r)"
proof -
  have 1: "stn (a @ x @ y @ r) i y = Some (a @ y @ y @ r)"
    using assms patch_append [of i a y x "y @ r"] by (simp add: stn_def)
  have 2: "stn (a @ y @ y @ r) j x = Some (a @ y @ x @ r)"
    using assms patch_append [of j "a @ y" x y r] by (simp add: stn_def)
  show ?thesis using assms 1 2 by (simp add: ldn_def)
qed

lemma swap_src_dst_mac_append:
  "length a = eth \<Longrightarrow> length x = 6 \<Longrightarrow> length y = 6 \<Longrightarrow>
   swap_src_dst_mac (a @ x @ y @ r) eth = Some (a @ y @ x @ r)"
  unfolding swap_src_dst_mac_def by (rule swap_fields)

lemma swap_src_dst_ipv6_append:
  "length a = ip + 8 \<Longrightarrow> length x = 16 \<Longrightarrow> length y = 16 \<Longrightarrow>
   swap_src_dst_ipv6 (a @ x @ y @ r) ip = Some (a @ y @ x @ r)"
  unfolding swap_src_dst_ipv6_def by (rule swap_fields_rev) auto

lemma swap_src_dst_ipv4_append:
  "length a = ip + 12 \<Longrightarrow> length x = 4 \<Longrightarrow> length y = 4 \<Longrightarrow>
   swap_src_dst_ipv4 (a @ x @ y @ r) ip = Some (a @ y @ x @ r)"
  unfolding swap_src_dst_ipv4_def by (rule swap_fields_rev) auto

text \<open>
  C8: with the documented behaviour of \<^verbatim>\<open>bpf_xdp_adjust_head\<close>, \<^verbatim>\<open>vlan_tag_push\<close> puts the tag
  \<^verbatim>\<open>0x8100\<close>/TCI between the MAC addresses and the old type, and \<^verbatim>\<open>vlan_tag_pop\<close> on the result
  gives back exactly the packet that was pushed and the 16-bit tag that was pushed.
\<close>

theorem vlan_push_pop:
  assumes adj: "head_adjust adj"
    and frame: "14 \<le> length (pkt ctx)"
    and push: "adj ctx (- 4) = (0, ctx1)"
  shows "\<exists>ctx2. vlan_tag_push adj ctx 0 vlid = Some (0, ctx2) \<and>
      pkt ctx2 = take 12 (pkt ctx) @ [0x81, 0x00]
        @ le16_bytes (bpf_htons (word_of_int vlid)) @ drop 12 (pkt ctx) \<and>
      (\<forall>ctx3. adj ctx2 4 = (0, ctx3) \<longrightarrow>
         vlan_tag_pop adj ctx2 0 = Some (uint (word_of_int vlid :: u16), ctx3\<lparr>pkt := pkt ctx\<rparr>))"
proof -
  obtain a h r where p: "pkt ctx = a @ le16_bytes h @ r" "length a = 12"
    using frame split_at2 [of 12 "pkt ctx"] by auto
  note push_eq = head_adjust.push_spec [OF adj p push, of vlid]
  have tpid: "le16_bytes (bpf_htons ETH_P_8021Q) = [0x81, 0x00]"
    by (simp add: le16_bytes_def byte_order_defs bpf_swab16_def bpf_mvb16_def ETH_P_8021Q_def)
  define ctx2 where "ctx2 = ctx1\<lparr>pkt := a @ le16_bytes (bpf_htons ETH_P_8021Q)
       @ le16_bytes (bpf_htons (word_of_int vlid)) @ le16_bytes h @ r\<rparr>"
  have "vlan_tag_push adj ctx 0 vlid = Some (0, ctx2)" by (simp add: push_eq ctx2_def)
  moreover have "pkt ctx2 = take 12 (pkt ctx) @ [0x81, 0x00]
      @ le16_bytes (bpf_htons (word_of_int vlid)) @ drop 12 (pkt ctx)"
    by (simp add: ctx2_def p tpid)
  moreover have "vlan_tag_pop adj ctx2 0 = Some (uint (word_of_int vlid :: u16), ctx3\<lparr>pkt := pkt ctx\<rparr>)"
    if "adj ctx2 4 = (0, ctx3)" for ctx3
    using head_adjust.pop_spec [OF adj _ p(2) proto_is_vlan_8021Q that,
        of "bpf_htons (word_of_int vlid)" h r]
    by (simp add: ctx2_def p(1) byte_order_defs)
  ultimately show ?thesis by blast
qed

theorem vlan_push_pop_witness:
  "let ctx = \<lparr>room = replicate 4 0, pkt = [1,2,3,4,5,6,7,8,9,10,11,12,8,0,69]\<rparr> in
   \<exists>ctx2 ctx3. vlan_tag_push frame_adjust_head ctx 0 5 = Some (0, ctx2) \<and>
     pkt ctx2 = [1,2,3,4,5,6,7,8,9,10,11,12,0x81,0,0,5,8,0,69] \<and>
     vlan_tag_pop frame_adjust_head ctx2 0 = Some (5, ctx3) \<and> pkt ctx3 = pkt ctx"
proof -
  define ctx :: xdp_md where "ctx = \<lparr>room = replicate 4 0, pkt = [1,2,3,4,5,6,7,8,9,10,11,12,8,0,69]\<rparr>"
  have "frame_adjust_head ctx (- 4) = (0, \<lparr>room = [], pkt = replicate 4 0 @ pkt ctx\<rparr>)"
    by (simp add: ctx_def frame_adjust_head_def)
  from vlan_push_pop [OF fah.head_adjust_axioms _ this, of 5]
  obtain ctx2 where ctx2: "vlan_tag_push frame_adjust_head ctx 0 5 = Some (0, ctx2)"
    "pkt ctx2 = take 12 (pkt ctx) @ [0x81, 0x00] @ le16_bytes (bpf_htons 5) @ drop 12 (pkt ctx)"
    and pop: "\<And>ctx3. frame_adjust_head ctx2 4 = (0, ctx3) \<Longrightarrow>
       vlan_tag_pop frame_adjust_head ctx2 0 = Some (5, ctx3\<lparr>pkt := pkt ctx\<rparr>)"
    by (auto simp: ctx_def)
  have p2: "pkt ctx2 = [1,2,3,4,5,6,7,8,9,10,11,12,0x81,0,0,5,8,0,69]"
    by (simp add: ctx2(2) ctx_def le16_bytes_def byte_order_defs bpf_swab16_def bpf_mvb16_def)
  have "\<exists>ctx3. frame_adjust_head ctx2 4 = (0, ctx3)"
    by (simp add: frame_adjust_head_def Let_def p2)
  then show ?thesis
    using pop ctx2(1) p2 unfolding Let_def ctx_def [symmetric] by fastforce
qed

text \<open>
  \<^verbatim>\<open>swap_src_dst_mac\<close>, \<^verbatim>\<open>swap_src_dst_ipv4\<close> and \<^verbatim>\<open>swap_src_dst_ipv6\<close> exchange the two address
  fields of a header that lies inside the packet, touch no other byte, and undo themselves.
\<close>

theorem swap_src_dst_exchange:
  assumes "length a = off" "length x = 6" "length y = 6"
    and "length b = off + 12" "length u = 4" "length v = 4"
    and "length c = off + 8" "length s = 16" "length t = 16"
  shows "swap_src_dst_mac (a @ x @ y @ r) off = Some (a @ y @ x @ r) \<and>
    swap_src_dst_ipv4 (b @ u @ v @ r) off = Some (b @ v @ u @ r) \<and>
    swap_src_dst_ipv6 (c @ s @ t @ r) off = Some (c @ t @ s @ r)"
  using assms by (simp add: swap_src_dst_mac_append swap_src_dst_ipv4_append swap_src_dst_ipv6_append)

theorem swap_src_dst_exchange_witness:
  "swap_src_dst_mac ([] @ replicate 6 1 @ replicate 6 2 @ [9]) 0
     = Some ([] @ replicate 6 2 @ replicate 6 1 @ [9])"
  using swap_src_dst_exchange [of "[]" 0 "replicate 6 1" "replicate 6 2" "replicate 12 0"
      "replicate 4 1" "replicate 4 2" "replicate 8 0" "replicate 16 1" "replicate 16 2" "[9]"]
  by simp

end
