(* ===== verification/Stats_Kern.thy ===== *)
theory Stats_Kern
  imports Rewrite
begin

text \<open>
  \<^verbatim>\<open>common/xdp_stats_kern.h\<close> and \<^verbatim>\<open>common/xdp_stats_kern_user.h\<close>: the per-action counters that
  an XDP program keeps in \<^verbatim>\<open>xdp_stats_map\<close>, a per-CPU array. The state of the map on one CPU is a
  list of records, indexed by the action; a lookup outside it returns NULL (\<open>None\<close>).
\<close>

record datarec =
  rx_packets :: u64
  rx_bytes :: u64

definition XDP_ABORTED :: u32 where "XDP_ABORTED = 0"
definition XDP_DROP :: u32 where "XDP_DROP = 1"
definition XDP_PASS :: u32 where "XDP_PASS = 2"
definition XDP_TX :: u32 where "XDP_TX = 3"
definition XDP_REDIRECT :: u32 where "XDP_REDIRECT = 4"

definition XDP_ACTION_MAX :: u32 where
  "XDP_ACTION_MAX = XDP_REDIRECT + 1"

definition stats_lookup :: "datarec list \<Rightarrow> u32 \<Rightarrow> datarec option" where
  "stats_lookup m key = (if unat key < length m then Some (m ! unat key) else None)"

definition xdp_stats_record_action :: "xdp_md \<Rightarrow> u32 \<Rightarrow> datarec list \<Rightarrow> u32 \<times> datarec list" where
  "xdp_stats_record_action ctx action m =
     (if action \<ge> XDP_ACTION_MAX then (XDP_ABORTED, m)
      else case stats_lookup m action of
        None \<Rightarrow> (XDP_ABORTED, m)
      | Some rec \<Rightarrow>
          (action, m[unat action := rec\<lparr>rx_packets := rx_packets rec + 1,
             rx_bytes := rx_bytes rec + ucast (word_of_nat (length (pkt ctx)) :: u32)\<rparr>]))"

lemmas action_defs = XDP_ABORTED_def XDP_DROP_def XDP_PASS_def XDP_TX_def XDP_REDIRECT_def
  XDP_ACTION_MAX_def

lemma xdp_stats_length [simp]: "length (snd (xdp_stats_record_action ctx a m)) = length m"
  by (simp add: xdp_stats_record_action_def stats_lookup_def split: option.splits)

lemma xdp_stats_valid:
  "length m = 5 \<Longrightarrow> a < 5 \<Longrightarrow> xdp_stats_record_action ctx a m =
     (a, m[unat a := (m ! unat a)\<lparr>rx_packets := rx_packets (m ! unat a) + 1,
        rx_bytes := rx_bytes (m ! unat a) + ucast (word_of_nat (length (pkt ctx)) :: u32)\<rparr>])"
  by (auto simp: xdp_stats_record_action_def stats_lookup_def action_defs word_less_nat_alt word_le_nat_alt)

end
