(* ===== verification/Hash_Kern.thy ===== *)
theory Hash_Kern
  imports Sha256_Correct Checksum Stats_Kern
begin

text \<open>
  The program \<^verbatim>\<open>xdp_ip_hash\<close> of \<^verbatim>\<open>xdp_prog_kern_02.c\<close>: it hashes the IPv4 header of a packet
  under a key, grows the packet and stores the digest as an IP option in front of the payload.
\<close>

section \<open>Model\<close>

definition IP_OPT_HASH_ID :: u8 where "IP_OPT_HASH_ID = 25"

definition IP_OPT_HASH_LEN :: nat where "IP_OPT_HASH_LEN = 36"

definition ETHERNET_HEADER_SIZE :: nat where "ETHERNET_HEADER_SIZE = 14"

definition SECRET_KEY :: "u8 list" where
  "SECRET_KEY = [0x4b, 0x75, 0x8f, 0x94, 0x98, 0xd3, 0x31, 0x26,
                 0x16, 0xec, 0xc2, 0x61, 0x99, 0x43, 0x76, 0x45]"

record kern =
  sha :: sha_maps
  xdp_stats_map :: "datarec list"

text \<open>The map value seen as the array \<^verbatim>\<open>BYTE buffer[128]\<close>; an access outside it is a fault.\<close>

definition buf_get :: "mem \<Rightarrow> nat \<Rightarrow> u8 option" where
  "buf_get t i = (if i < 128 then ld8 t i else None)"

definition buf_set :: "mem \<Rightarrow> nat \<Rightarrow> u8 \<Rightarrow> mem option" where
  "buf_set t i b = (if i < 128 then st8 t i b else None)"

text \<open>The sixteen assignments \<^verbatim>\<open>temp->buffer[i] = SECRET_KEY[j]\<close>, as the pairs \<open>(i, j)\<close> of the source.\<close>

definition put_key :: "mem \<Rightarrow> mem option" where
  "put_key t = ofold (\<lambda>(i, j) t. do { b \<leftarrow> ld8 SECRET_KEY j; buf_set t i b })
     [(0, 0), (1, 1), (2, 1), (3, 1), (4, 1), (5, 1), (6, 1), (7, 1),
      (8, 1), (9, 1), (10, 1), (11, 1), (12, 1), (13, 1), (14, 1), (15, 1)] t"

text \<open>The twenty guarded copies \<^verbatim>\<open>if (max_copy >= i + 1 && data + i < data_end)\<close>.\<close>

fun copy_hdr :: "mem \<Rightarrow> nat \<Rightarrow> nat \<Rightarrow> nat list \<Rightarrow> mem \<Rightarrow> mem option" where
  "copy_hdr p data max_copy [] t = Some t"
| "copy_hdr p data max_copy (i # is) t =
     (if max_copy \<ge> i + 1 \<and> data + i < length p
      then do { b \<leftarrow> ld8 p (data + i); t' \<leftarrow> buf_set t (16 + i) b; copy_hdr p data max_copy is t' }
      else copy_hdr p data max_copy is t)"

text \<open>\<^verbatim>\<open>temp->buffer\<close> as the data pointer of \<^verbatim>\<open>sha256_update\<close>: it points into the map value.\<close>

definition temp_buffer :: "sha_maps \<Rightarrow> nat \<Rightarrow> u8 option" where
  "temp_buffer s i = do { t \<leftarrow> sha256_temp_map s; buf_get t i }"

definition compute_keyed_hash ::
  "xdp_md \<Rightarrow> nat \<Rightarrow> nat \<Rightarrow> u8 list \<Rightarrow> sha_maps \<Rightarrow> (int \<times> u8 list \<times> sha_maps) option" where
  "compute_keyed_hash ctx data data_len hash s =
     (if data + data_len > length (pkt ctx) then Some (-1, hash, s)
      else case sha256_temp_map s of
        None \<Rightarrow> Some (-1, hash, s)
      | Some t \<Rightarrow>
          let max_copy = (if data_len > 20 then 20 else data_len) in
          do {
            t1 \<leftarrow> put_key t;
            t2 \<leftarrow> copy_hdr (pkt ctx) data max_copy [0..<20] t1;
            (_, s2) \<leftarrow> sha256_init (s\<lparr>sha256_temp_map := Some t2\<rparr>);
            (_, s3) \<leftarrow> sha256_update temp_buffer (16 + max_copy) s2;
            (_, hash', s4) \<leftarrow> sha256_final hash s3;
            Some (0, hash', s4)
          })"

fun put_opt_hash :: "nat \<Rightarrow> u8 list \<Rightarrow> nat list \<Rightarrow> mem \<Rightarrow> mem option" where
  "put_opt_hash options hash [] p = Some p"
| "put_opt_hash options hash (i # is) p =
     (if i + 3 < 32 \<and> 4 + i + 3 < IP_OPT_HASH_LEN
      then do {
        b0 \<leftarrow> ld8 hash i;       p0 \<leftarrow> st8 p (options + 4 + i) b0;
        b1 \<leftarrow> ld8 hash (i + 1); p1 \<leftarrow> st8 p0 (options + 4 + i + 1) b1;
        b2 \<leftarrow> ld8 hash (i + 2); p2 \<leftarrow> st8 p1 (options + 4 + i + 2) b2;
        b3 \<leftarrow> ld8 hash (i + 3); p3 \<leftarrow> st8 p2 (options + 4 + i + 3) b3;
        put_opt_hash options hash is p3
      }
      else put_opt_hash options hash is p)"

text \<open>The rewriting of the grown packet, from the IP header update to the new checksum.\<close>

definition write_option :: "u8 list \<Rightarrow> mem \<Rightarrow> (int \<times> mem) option" where
  "write_option hash p =
     (let new_ip = ETHERNET_HEADER_SIZE in
      if new_ip + 20 > length p then Some (-1, p)
      else do {
        b0 \<leftarrow> ld8 p new_ip;
        p1 \<leftarrow> st8 p new_ip ((b0 AND 0xF0) OR word_of_nat ((20 + IP_OPT_HASH_LEN) div 4));
        tot_len \<leftarrow> ld16 p1 (new_ip + 2);
        p2 \<leftarrow> st16 p1 (new_ip + 2) (bpf_htons (bpf_ntohs tot_len + word_of_nat IP_OPT_HASH_LEN));
        p3 \<leftarrow> st16 p2 (new_ip + 10) 0;
        let options = new_ip + 20;
        if options + IP_OPT_HASH_LEN > length p3 then Some (-1, p3)
        else do {
          p4 \<leftarrow> st8 p3 options IP_OPT_HASH_ID;
          p5 \<leftarrow> st8 p4 (options + 1) (word_of_nat IP_OPT_HASH_LEN);
          p6 \<leftarrow> st8 p5 (options + 2) 0x12;
          p7 \<leftarrow> st8 p6 (options + 3) 0x34;
          p8 \<leftarrow> put_opt_hash options hash [0, 4, 8, 12, 16, 20, 24, 28] p7;
          b \<leftarrow> ld8 p8 new_ip;
          let header_len = ihl_of b * 4;
          c \<leftarrow> calculate_ip_checksum p8 new_ip header_len;
          p9 \<leftarrow> st16 p8 (new_ip + 10) c;
          Some (0, p9)
        }
      })"

definition add_ip_option_hash :: "adjust_head \<Rightarrow> xdp_md \<Rightarrow> u8 list \<Rightarrow> (int \<times> xdp_md) option" where
  "add_ip_option_hash adj ctx hash =
     (let hdrs = ETHERNET_HEADER_SIZE + 20 in
      if hdrs > length (pkt ctx) then Some (-1, ctx)
      else do {
        headers_copy \<leftarrow> ldn (pkt ctx) 0 hdrs;
        let (err, ctx1) = adj ctx (0 - int IP_OPT_HASH_LEN);
        if err \<noteq> 0 then Some (-1, ctx1)
        else if hdrs > length (pkt ctx1) then Some (-1, ctx1)
        else do {
          p \<leftarrow> stn (pkt ctx1) 0 headers_copy;
          (r, p') \<leftarrow> write_option hash p;
          Some (r, ctx1\<lparr>pkt := p'\<rparr>)
        }
      })"

text \<open>
  \<open>hash0\<close> is the uninitialised stack array \<^verbatim>\<open>hash_result\<close>. The function is \<open>None\<close> when it accesses
  memory outside the packet or its arrays.
\<close>

definition ip_hash_action ::
  "adjust_head \<Rightarrow> u8 list \<Rightarrow> xdp_md \<Rightarrow> sha_maps \<Rightarrow> (u32 \<times> xdp_md \<times> sha_maps) option" where
  "ip_hash_action adj hash0 ctx s =
     do {
       (eth_type, nh, _) \<leftarrow> parse_ethhdr (pkt ctx) \<lparr>pos = 0\<rparr>;
       if eth_type < 0 then Some (XDP_ABORTED, ctx, s)
       else if eth_type = uint (bpf_htons ETH_P_IP) then do {
         (ip_type, _, ip) \<leftarrow> parse_iphdr (pkt ctx) nh;
         if ip_type < 0 then Some (XDP_ABORTED, ctx, s)
         else do {
           iphdr \<leftarrow> ip;
           if iphdr + 20 > length (pkt ctx) then Some (XDP_ABORTED, ctx, s)
           else do {
             b0 \<leftarrow> ld8 (pkt ctx) iphdr;
             let header_size = ihl_of b0 * 4;
             if iphdr + header_size > length (pkt ctx) then Some (XDP_ABORTED, ctx, s)
             else do {
               p \<leftarrow> st16 (pkt ctx) (iphdr + 10) 0;
               let ctx1 = ctx\<lparr>pkt := p\<rparr>;
               (ret, hash, s1) \<leftarrow> compute_keyed_hash ctx1 iphdr header_size hash0 s;
               if ret = 0 then do {
                 (r, ctx2) \<leftarrow> add_ip_option_hash adj ctx1 hash;
                 Some (XDP_PASS, ctx2, s1)
               }
               else Some (XDP_PASS, ctx1, s1)
             }
           }
         }
       }
       else Some (XDP_PASS, ctx, s)
     }"

definition xdp_ip_hash_func ::
  "adjust_head \<Rightarrow> u8 list \<Rightarrow> xdp_md \<Rightarrow> kern \<Rightarrow> (u32 \<times> xdp_md \<times> kern) option" where
  "xdp_ip_hash_func adj hash0 ctx k =
     do {
       (action, ctx', s) \<leftarrow> ip_hash_action adj hash0 ctx (sha k);
       let (ret, m) = xdp_stats_record_action ctx' action (xdp_stats_map k);
       Some (ret, ctx', k\<lparr>sha := s, xdp_stats_map := m\<rparr>)
     }"


section \<open>The keyed hash\<close>

text \<open>The key as the sixteen assignments leave it in the buffer.\<close>

definition kern_key :: "u8 list" where
  "kern_key = SECRET_KEY ! 0 # replicate 15 (SECRET_KEY ! 1)"

lemma length_kern_key [simp]: "length kern_key = 16"
  by (simp add: kern_key_def)

lemma put_key_list:
  "put_key (a0 # a1 # a2 # a3 # a4 # a5 # a6 # a7 # b0 # b1 # b2 # b3 # b4 # b5 # b6 # b7 # r) = Some (kern_key @ r)"
  by (simp add: put_key_def buf_set_def st8_def ld8_def SECRET_KEY_def kern_key_def numeral_eq_Suc)

lemma put_key_patch:
  assumes "16 \<le> length t"
  shows "put_key t = Some (kern_key @ drop 16 t)"
proof -
  obtain a0 a1 a2 a3 a4 a5 a6 a7 where a: "take 8 t = [a0, a1, a2, a3, a4, a5, a6, a7]"
    using length_8D [of "take 8 t"] assms by auto
  obtain b0 b1 b2 b3 b4 b5 b6 b7 where b: "take 8 (drop 8 t) = [b0, b1, b2, b3, b4, b5, b6, b7]"
    using length_8D [of "take 8 (drop 8 t)"] assms by auto
  have "drop 8 t = take 8 (drop 8 t) @ drop 16 t"
    using append_take_drop_id [of 8 "drop 8 t"] by simp
  then have "t = take 8 t @ take 8 (drop 8 t) @ drop 16 t"
    by (metis append_take_drop_id)
  then have t: "t = a0 # a1 # a2 # a3 # a4 # a5 # a6 # a7 # b0 # b1 # b2 # b3 # b4 # b5 # b6 # b7 # drop 16 t"
    unfolding a b by simp
  show ?thesis by (subst t) (rule put_key_list)
qed

lemma copy_hdr_append:
  "copy_hdr p data n (is @ js) t = do { t' \<leftarrow> copy_hdr p data n is t; copy_hdr p data n js t' }"
  by (induction "is" arbitrary: t) (auto split: Option.bind_split)

lemma copy_hdr_prefix:
  assumes "data + n \<le> length p" "length t = 384" "k \<le> 20"
  shows "copy_hdr p data n [0..<k] t = Some (patch t 16 (take (min n k) (drop data p)))"
  using assms(3)
proof (induction k)
  case 0
  then show ?case by (simp add: patch_def)
next
  case (Suc k)
  let ?q = "take (min n k) (drop data p)"
  have IH: "copy_hdr p data n [0..<k] t = Some (patch t 16 ?q)" using Suc by simp
  show ?case
  proof (cases "k < n")
    case True
    have "length ?q = k" using True assms by simp
    then have "buf_set (patch t 16 ?q) (16 + k) (p ! (data + k)) = Some (patch t 16 (?q @ [p ! (data + k)]))"
      using Suc.prems assms patch_snoc [of 16 ?q t "p ! (data + k)"] by (simp add: buf_set_def st8_def)
    moreover have "?q @ [p ! (data + k)] = take (min n (Suc k)) (drop data p)"
    proof -
      have "min n (Suc k) = Suc k" "min n k = k" using True by simp_all
      then show ?thesis using True assms by (simp add: take_Suc_conv_app_nth)
    qed
    ultimately show ?thesis
      using True assms IH by (simp add: copy_hdr_append ld8_def)
  next
    case False
    then show ?thesis using IH by (simp add: copy_hdr_append min_def)
  qed
qed

lemma update_byte_temp:
  assumes "sha_abs m s" "sha256_ctx_map s = Some ctx" "length m < 63" "update_byte b ctx s = Some s'"
  shows "sha256_temp_map s' = sha256_temp_map s"
proof -
  have "datalen ctx = word_of_nat (length m)" using assms by (auto simp: sha_abs_def)
  then have eq: "datalen ctx + 1 = word_of_nat (Suc (length m))" by simp
  have "unat (datalen ctx + 1) = Suc (length m)"
    unfolding eq using assms(3) by (intro unat_small) simp
  then have "datalen ctx + 1 \<noteq> 64" using assms(3) unat_numeral_64 by auto
  then show ?thesis using assms(4) by (auto simp: update_byte_def Let_def st8_def split: if_splits)
qed


lemma map_nth_upt: "n \<le> length xs \<Longrightarrow> map ((!) xs) [0..<n] = take n xs"
  by (rule nth_equalityI) auto

text \<open>
  The digest that \<^verbatim>\<open>compute_keyed_hash\<close> leaves in its buffer. Although \<^verbatim>\<open>temp->buffer\<close> and the
  message schedule share their bytes, the at most 36 bytes of input never fill a block, so no
  transform runs while the buffer is still being read.
\<close>

lemma compute_keyed_hash_result:
  assumes wf: "maps_wf s" and h: "length h = 32" and len: "data + n \<le> length (pkt ctx)"
  shows "\<exists>s'. compute_keyed_hash ctx data n h s =
      Some (0, sha256_spec (kern_key @ take (min n 20) (drop data (pkt ctx))), s') \<and> maps_wf s'"
proof -
  obtain c t where c: "sha256_ctx_map s = Some c" "length (ctx_data c) = 64" "length (ctx_state c) = 8"
    and t: "sha256_temp_map s = Some t" "length t = 384"
    using wf by (auto simp: maps_wf_def)
  define mc where "mc = min n 20"
  have mc: "(if n > 20 then 20 else n) = mc" "mc \<le> 20" "data + mc \<le> length (pkt ctx)"
    using len by (auto simp: mc_def)
  define q where "q = take mc (drop data (pkt ctx))"
  have q: "length q = mc" using mc by (simp add: q_def)
  have key: "put_key t = Some (kern_key @ drop 16 t)" using t by (simp add: put_key_patch)
  define t2 where "t2 = patch (kern_key @ drop 16 t) 16 q"
  have "length (kern_key @ drop 16 t) = 384" using t by simp
  then have copy: "copy_hdr (pkt ctx) data mc [0..<20] (kern_key @ drop 16 t) = Some t2"
    using copy_hdr_prefix [OF mc(3), of "kern_key @ drop 16 t" 20] mc(2) t
    by (simp add: t2_def q_def min_def)
  have t2: "length t2 = 384" "take (16 + mc) t2 = kern_key @ q"
    using t q mc(2) by (simp_all add: t2_def patch_def)
  have "maps_wf (s\<lparr>sha256_temp_map := Some t2\<rparr>)" using c t2 by (auto simp: maps_wf_def)
  then obtain s2 where s2: "sha256_init (s\<lparr>sha256_temp_map := Some t2\<rparr>) = Some (0, s2)"
    "sha_abs [] s2" "sha256_temp_map s2 = Some t2"
    by (rule sha256_init_abs) simp
  obtain s3 where s3: "update_loop temp_buffer [0..<16 + mc] s2 = Some s3"
      "sha_abs ([] @ map ((!) t2) [0..<16 + mc]) s3"
    using update_loop_abs [where I = "\<lambda>_ s. sha256_temp_map s = Some t2" and n = 36, OF s2(2,3),
        of "[0..<16 + mc]" temp_buffer "(!) t2"] mc t2
    by (auto simp: update_byte_temp temp_buffer_def buf_get_def ld8_def)
  moreover have "map ((!) t2) [0..<16 + mc] = kern_key @ q"
    using t2 mc(2) by (simp add: map_nth_upt flip: t2(2))
  ultimately have abs: "sha_abs (kern_key @ q) s3" by simp
  have upd: "sha256_update temp_buffer (16 + mc) s2 = Some (0, s3)"
    using s2 s3 by (auto simp: sha256_update_def sha_abs_def)
  show ?thesis
    using len t mc(1) key copy s2(1) upd sha256_final_abs [OF abs h]
    by (auto simp: compute_keyed_hash_def Let_def q_def mc_def)
qed


section \<open>The option\<close>

definition hash_option :: "u8 list \<Rightarrow> mem" where
  "hash_option hash = [25, 36, 0x12, 0x34] @ hash"

text \<open>The IP header of the grown packet before its checksum is stored.\<close>

definition grown_header :: "mem \<Rightarrow> mem" where
  "grown_header h =
     patch (patch (h[0 := (h ! 0 AND 0xF0) OR 14]) 2
       (le16_bytes (bpf_htons (bpf_ntohs (le16 (h ! 2) (h ! 3)) + 36)))) 10 [0, 0]"

definition option_header :: "mem \<Rightarrow> u8 list \<Rightarrow> mem" where
  "option_header h hash =
     (let m = grown_header h @ hash_option hash in
      case calculate_ip_checksum m 0 56 of None \<Rightarrow> m | Some c \<Rightarrow> patch m 10 (le16_bytes c))"

lemma length_grown [simp]: "length h = 20 \<Longrightarrow> length (grown_header h) = 20"
  by (simp add: grown_header_def)

lemma length_hash_option [simp]: "length (hash_option hash) = 4 + length hash"
  by (simp add: hash_option_def)

text \<open>A checksum is computed from the header's bytes only.\<close>

lemma csum_loop_mid:
  "\<forall>i\<in>set is. 2 * i + 2 \<le> length m \<Longrightarrow>
   csum_loop (a @ m @ r) (length a) is s = csum_loop m 0 is s"
  by (induction "is" arbitrary: s) (auto simp: ld_mid)

lemma checksum_mid:
  "even n \<Longrightarrow> n \<le> length m \<Longrightarrow>
   calculate_ip_checksum (a @ m @ r) (length a) n = calculate_ip_checksum m 0 n"
  by (auto simp: calculate_ip_checksum_def csum_loop_mid elim!: evenE)

lemma drop4:
  assumes "i + 4 \<le> length xs"
  shows "drop i xs = xs ! i # xs ! (i + 1) # xs ! (i + 2) # xs ! (i + 3) # drop (i + 4) xs"
proof -
  have "drop j xs = xs ! j # drop (Suc j) xs" if "j < i + 4" for j
    using that assms by (simp add: Cons_nth_drop_Suc)
  from this [of i] this [of "i + 1"] this [of "i + 2"] this [of "i + 3"] show ?thesis
    by (simp add: numeral_eq_Suc)
qed

lemma take4:
  assumes "i + 4 \<le> length xs"
  shows "take (i + 4) xs = take i xs @ [xs ! i, xs ! (i + 1), xs ! (i + 2), xs ! (i + 3)]"
  by (simp add: take_add drop4 [OF assms])

lemma store4:
  assumes "length p = k"
  shows "do { p0 \<leftarrow> st8 (a @ (p @ [w, x, y, z] @ q) @ r) (length a + k) b0;
              p1 \<leftarrow> st8 p0 (length a + k + 1) b1;
              p2 \<leftarrow> st8 p1 (length a + k + 2) b2;
              p3 \<leftarrow> st8 p2 (length a + k + 3) b3; f p3 }
         = f (a @ (p @ [b0, b1, b2, b3] @ q) @ r)"
  using assms by (simp add: st8_def list_update_append numeral_eq_Suc)

lemma put_opt_hash_step:
  assumes x: "length x = 36" and h: "length hash = 32" and a: "length a = n" and i: "i \<le> 28"
  shows "put_opt_hash n hash (i # is) (a @ (take 4 x @ take i hash @ drop (4 + i) x) @ r) =
    put_opt_hash n hash is (a @ (take 4 x @ take (i + 4) hash @ drop (4 + (i + 4)) x) @ r)"
proof -
  let ?p = "take 4 x @ take i hash" and ?k = "4 + i"
  have d: "drop ?k x = [x ! ?k, x ! (?k + 1), x ! (?k + 2), x ! (?k + 3)] @ drop (4 + (i + 4)) x"
    using drop4 [of ?k x] x i by (simp add: add.commute add.left_commute)
  have t: "take (i + 4) hash = take i hash @ [hash ! i, hash ! (i + 1), hash ! (i + 2), hash ! (i + 3)]"
    using take4 [of i hash] h i by simp
  have k: "length ?p = ?k" using x h i by simp
  have "put_opt_hash n hash (i # is) (a @ (?p @ [x ! ?k, x ! (?k + 1), x ! (?k + 2), x ! (?k + 3)]
        @ drop (4 + (i + 4)) x) @ r) =
      put_opt_hash n hash is (a @ (?p @ [hash ! i, hash ! (i + 1), hash ! (i + 2), hash ! (i + 3)]
        @ drop (4 + (i + 4)) x) @ r)"
    using store4 [OF k, of a "x ! ?k" "x ! (?k + 1)" "x ! (?k + 2)" "x ! (?k + 3)" "drop (4 + (i + 4)) x" r
        "hash ! i" "hash ! (i + 1)" "hash ! (i + 2)" "hash ! (i + 3)" "put_opt_hash n hash is"] i h a
    by (simp add: ld8_def IP_OPT_HASH_LEN_def add.assoc)
  then show ?thesis unfolding d t by simp
qed

lemma put_opt_hash_result:
  assumes x: "length x = 36" and h: "length hash = 32" and a: "length a = n"
  shows "put_opt_hash n hash [0, 4, 8, 12, 16, 20, 24, 28] (a @ x @ r) =
    Some (a @ (take 4 x @ hash) @ r)"
proof -
  note step = put_opt_hash_step [OF x h a, where r = r]
  have "put_opt_hash n hash [0, 4, 8, 12, 16, 20, 24, 28] (a @ (take 4 x @ take 0 hash @ drop (4 + 0) x) @ r)
     = Some (a @ (take 4 x @ take (28 + 4) hash @ drop (4 + (28 + 4)) x) @ r)"
    using step [of 0] step [of 4] step [of 8] step [of 12] step [of 16] step [of 20] step [of 24] step [of 28]
    by simp
  then show ?thesis using x h by simp
qed


lemma ihl_of_14 [simp]: "ihl_of ((b AND 0xF0) OR 14) = 14"
proof -
  have "((b AND 0xF0) OR 14) AND 0xf = (b AND (0xF0 AND 0xf)) OR ((14::u8) AND 0xf)"
    by (simp only: bit.conj_disj_distrib2 and.assoc)
  then show ?thesis by (simp add: ihl_of_def)
qed

lemma option_header_checksum:
  assumes "length h = 20" "length hash = 32"
  obtains c where "calculate_ip_checksum (grown_header h @ hash_option hash) 0 56 = Some c"
    "option_header h hash = patch (grown_header h @ hash_option hash) 10 (le16_bytes c)"
  using checksum_even [of 0 28 "grown_header h @ hash_option hash"] assms that
  by (auto simp: option_header_def Let_def)

lemma length_option_header [simp]:
  assumes "length h = 20" "length hash = 32"
  shows "length (option_header h hash) = 56"
  using assms by (rule option_header_checksum) (use assms in simp)

lemma write_option_result:
  assumes len: "length e = 14" "length h = 20" "length x = 36" "length hash = 32"
  shows "write_option hash (e @ h @ x @ r) = Some (0, e @ option_header h hash @ r)"
proof -
  let ?b = "(h ! 0 AND 0xF0) OR 14"
  define h1 where "h1 = h[0 := ?b]"
  define h2 where "h2 = patch h1 2 (le16_bytes (bpf_htons (bpf_ntohs (le16 (h ! 2) (h ! 3)) + 36)))"
  have g: "grown_header h = patch h2 10 (le16_bytes 0)"
    by (simp add: grown_header_def h1_def h2_def le16_bytes_def)
  have l: "length h1 = 20" "length h2 = 20" "length (grown_header h) = 20"
    using len by (simp_all add: h1_def h2_def)
  have 1: "ld8 (e @ h @ x @ r) 14 = Some (h ! 0)"
    using len ld_mid(1) [of 0 h e "x @ r"] by (simp add: ld8_def)
  have 2: "st8 (e @ h @ x @ r) 14 ?b = Some (e @ h1 @ x @ r)"
    using len st_mid(1) [of 0 h e "x @ r" ?b] by (simp add: h1_def)
  have 3: "ld16 (e @ h1 @ x @ r) 16 = Some (le16 (h ! 2) (h ! 3))"
    using len l ld_mid(2) [of 2 h1 e "x @ r"] by (simp add: ld16_def h1_def)
  have 4: "st16 (e @ h1 @ x @ r) 16 (bpf_htons (bpf_ntohs (le16 (h ! 2) (h ! 3)) + 36)) = Some (e @ h2 @ x @ r)"
    using len l st_mid(2) [of 2 h1 e "x @ r"] by (simp add: h2_def)
  have 5: "st16 (e @ h2 @ x @ r) 24 0 = Some (e @ grown_header h @ x @ r)"
    using len l st_mid(2) [of 10 h2 e "x @ r" 0] by (simp add: g)
  let ?m = "grown_header h @ hash_option hash"
  have "length (drop 4 x) = 32" using len by simp
  then obtain x0 x1 x2 x3 x' where x: "x = [x0, x1, x2, x3] @ x'" "length x' = 32"
    using drop4 [of 0 x] len(3) by auto
  let ?a = "e @ grown_header h" and ?y = "[25, 36, 0x12, 0x34] @ x'"
  have a: "length ?a = 34" using len l by simp
  have 6: "do { p4 \<leftarrow> st8 (e @ grown_header h @ x @ r) 34 25; p5 \<leftarrow> st8 p4 35 36; p6 \<leftarrow> st8 p5 36 0x12;
      p7 \<leftarrow> st8 p6 37 0x34; f p7 } = f (?a @ ?y @ r)" for f :: "mem \<Rightarrow> 'z option"
    using store4 [of "[]" 0 ?a x0 x1 x2 x3 x' r 25 36 "0x12" "0x34" f] a by (simp add: x)
  have 7: "put_opt_hash 34 hash [0, 4, 8, 12, 16, 20, 24, 28] (?a @ ?y @ r) = Some (e @ ?m @ r)"
    using put_opt_hash_result [of ?y hash ?a 34 r] a x len by (simp add: hash_option_def)
  have g0: "?m ! 0 = ?b"
    using len l by (simp add: grown_header_def nth_append patch_def)
  have 8: "ld8 (e @ ?m @ r) 14 = Some ?b"
    using len l ld_mid(1) [of 0 ?m e r] g0 by (simp add: ld8_def)
  obtain c where c: "calculate_ip_checksum ?m 0 56 = Some c"
    "option_header h hash = patch ?m 10 (le16_bytes c)"
    using option_header_checksum len by blast
  have 9: "calculate_ip_checksum (e @ ?m @ r) 14 56 = Some c"
    using checksum_mid [of 56 ?m e r] len l c by simp
  have 10: "st16 (e @ ?m @ r) 24 c = Some (e @ option_header h hash @ r)"
    using len l st_mid(2) [of 10 ?m e r c] c by simp
  show ?thesis
    using len 1 2 3 4 5 7 8 9 10
    by (simp add: 6 write_option_def Let_def ETHERNET_HEADER_SIZE_def IP_OPT_HASH_LEN_def IP_OPT_HASH_ID_def
        del: put_opt_hash.simps)
qed

section \<open>Growing the packet\<close>

context head_adjust
begin

lemma add_option_spec:
  assumes p: "pkt ctx = e @ h @ r" and len: "length e = 14" "length h = 20" "length hash = 32"
    and adj: "adj ctx (- 36) = (0, ctx1)"
  shows "add_ip_option_hash adj ctx hash = Some (0, ctx1\<lparr>pkt := e @ option_header h hash @ r\<rparr>)"
proof -
  obtain hd where hd: "length hd = 36" "pkt ctx1 = hd @ pkt ctx"
    using grow [of ctx 36 ctx1] adj by auto
  let ?x = "drop 34 (hd @ e @ h)"
  have copy: "ldn (pkt ctx) 0 34 = Some (e @ h)" using p len by (simp add: ldn_def)
  have "stn (pkt ctx1) 0 (e @ h) = Some ((e @ h) @ ?x @ r)"
    using hd p len by (simp add: stn_def patch_def)
  then have st: "stn (pkt ctx1) 0 (e @ h) = Some (e @ h @ ?x @ r)" by simp
  have x: "length ?x = 36" using hd len by simp
  have w: "write_option hash (e @ h @ ?x @ r) = Some (0, e @ option_header h hash @ r)"
    by (rule write_option_result [OF len(1,2) x len(3)])
  show ?thesis
    using p len hd adj copy st w
    by (simp add: add_ip_option_hash_def Let_def ETHERNET_HEADER_SIZE_def IP_OPT_HASH_LEN_def
        del: drop_append)
qed

text \<open>When the head cannot be moved the packet stays as it is.\<close>

lemma add_option_fail:
  assumes "34 \<le> length (pkt ctx)" "fst (adj ctx (- 36)) \<noteq> 0"
  shows "add_ip_option_hash adj ctx hash = Some (-1, ctx)"
  using assms fail [of ctx "- 36"]
  by (cases "adj ctx (- 36)")
    (auto simp: add_ip_option_hash_def Let_def ETHERNET_HEADER_SIZE_def IP_OPT_HASH_LEN_def mem_simps)

end

section \<open>The whole program\<close>

text \<open>Frames without VLAN tags that carry an IPv4 packet.\<close>

lemma ipv4_type: "bpf_htons ETH_P_IP = le16 8 0" "\<not> proto_is_vlan (le16 8 0)"
  by (simp_all add: ETH_P_IP_def byte_order_defs bpf_swab16_def bpf_mvb16_def le16_def
      proto_is_vlan_def ETH_P_8021Q_def ETH_P_8021AD_def)

lemma parse_untagged:
  assumes "length e = 14" "e ! 12 = a" "e ! 13 = b" "\<not> proto_is_vlan (le16 a b)"
  shows "parse_ethhdr (e @ r) \<lparr>pos = 0\<rparr> = Some (uint (le16 a b), \<lparr>pos = 14\<rparr>, Some 0)"
proof -
  have "ld16 (e @ r) 12 = Some (le16 a b)"
    using assms ld_in_bounds(2) [of 12 "e @ r"] by (simp add: nth_append)
  then have t: "ld16 (e @ r) (12 + 4 * 0) = Some (le16 a b)" by simp
  obtain k h where k: "parse_ethhdr (e @ r) \<lparr>pos = 0\<rparr> =
        Some (uint h, \<lparr>pos = 14 + 4 * k\<rparr>, Some 0)" "ld16 (e @ r) (12 + 4 * k) = Some h"
      "\<forall>j<k. \<exists>t. ld16 (e @ r) (12 + 4 * j) = Some t \<and> proto_is_vlan t"
    using parse_ethhdr_result [of "\<lparr>pos = 0\<rparr>" "e @ r"] assms(1) by auto
  have "k = 0" using k(3) t assms(4) by (metis gr0I option.inject)
  then show ?thesis using k t by simp
qed

lemma parse_iphdr_at:
  assumes "length h = 20" "5 \<le> ihl_of (h ! 0)" "ihl_of (h ! 0) * 4 \<le> 20 + length r"
  shows "parse_iphdr (f @ h @ r) \<lparr>pos = length f\<rparr> =
    Some (uint (h ! 9), \<lparr>pos = length f + ihl_of (h ! 0) * 4\<rparr>, Some (length f))"
proof -
  have "ld8 (f @ h @ r) (length f) = Some (h ! 0)" "ld8 (f @ h @ r) (length f + 9) = Some (h ! 9)"
    using ld_mid(1) [of 0 h f r] ld_mid(1) [of 9 h f r] assms by (simp_all add: ld8_def)
  then show ?thesis using assms by (simp add: parse_iphdr_def Let_def)
qed

definition zero_check :: "mem \<Rightarrow> mem" where
  "zero_check h = patch h 10 [0, 0]"

lemma length_zero_check [simp]: "length h = 20 \<Longrightarrow> length (zero_check h) = 20"
  by (simp add: zero_check_def)

text \<open>
  Every IPv4 packet that parses, wherever its IP header starts and whatever options it has: the
  first twenty bytes \<open>h\<close> of the header are hashed with a zero checksum.
\<close>

lemma ip_hash_action_ipv4:
  assumes p: "pkt ctx = f @ h @ r" and len: "length h = 20"
    and eth: "parse_ethhdr (pkt ctx) \<lparr>pos = 0\<rparr> = Some (uint (bpf_htons ETH_P_IP), \<lparr>pos = length f\<rparr>, Some 0)"
    and ihl: "5 \<le> ihl_of (h ! 0)" "ihl_of (h ! 0) * 4 \<le> 20 + length r"
    and h0: "length hash0 = 32" and wf: "maps_wf s"
  shows "\<exists>s1. maps_wf s1 \<and> ip_hash_action adj hash0 ctx s =
     do { (r, ctx2) \<leftarrow> add_ip_option_hash adj (ctx\<lparr>pkt := f @ zero_check h @ r\<rparr>)
             (sha256_spec (kern_key @ zero_check h));
          Some (XDP_PASS, ctx2, s1) }"
proof -
  let ?ctx1 = "ctx\<lparr>pkt := f @ zero_check h @ r\<rparr>" and ?n = "ihl_of (h ! 0) * 4"
  have ip: "parse_iphdr (pkt ctx) \<lparr>pos = length f\<rparr> =
      Some (uint (h ! 9), \<lparr>pos = length f + ?n\<rparr>, Some (length f))"
    unfolding p by (rule parse_iphdr_at [OF len ihl])
  have b0: "ld8 (pkt ctx) (length f) = Some (h ! 0)"
    using p len ld_mid(1) [of 0 h f r] by (simp add: ld8_def)
  have st: "st16 (pkt ctx) (length f + 10) 0 = Some (f @ zero_check h @ r)"
    using p len st_mid(2) [of 10 h f r 0] by (simp add: zero_check_def le16_bytes_def)
  have "take (min ?n 20) (drop (length f) (pkt ?ctx1)) = zero_check h"
    using len ihl(1) by (simp add: min_def)
  then obtain s1 where s1: "maps_wf s1" and hash: "compute_keyed_hash ?ctx1 (length f) ?n hash0 s =
      Some (0, sha256_spec (kern_key @ zero_check h), s1)"
    using compute_keyed_hash_result [OF wf h0, of "length f" ?n ?ctx1] len ihl by auto
  show ?thesis
    using p len eth ip b0 st hash s1 ihl
    by (intro exI [of _ s1]) (simp add: ip_hash_action_def Let_def)
qed

lemma length_sha256_spec [simp]: "length (sha256_spec m) = 32"
proof -
  have "length (concat (map be32_bytes H)) = 4 * length H" for H
    by (induction H) (simp_all add: be32_bytes_def)
  then show ?thesis by (simp add: sha256_spec_def)
qed

text \<open>What the grown header keeps of the old one, and what it adds.\<close>

lemma nth_grown:
  assumes "length h = 20" "i < 20"
  shows "grown_header h ! i =
    (if i = 0 then (h ! 0 AND 0xF0) OR 14
     else if i = 2 \<or> i = 3
     then le16_bytes (bpf_htons (bpf_ntohs (le16 (h ! 2) (h ! 3)) + 36)) ! (i - 2)
     else if i = 10 \<or> i = 11 then 0 else h ! i)"
proof -
  have "i < 2 \<or> i = 2 \<or> i = 3 \<or> 4 \<le> i \<and> i < 10 \<or> i = 10 \<or> i = 11 \<or> 12 \<le> i" by linarith
  then show ?thesis using assms by (auto simp: grown_header_def nth_patch)
qed

lemma nth_option_header:
  assumes "length h = 20" "length hash = 32" "i < 20" "i \<noteq> 10" "i \<noteq> 11"
  shows "option_header h hash ! i = grown_header h ! i"
proof -
  obtain c where c: "option_header h hash = patch (grown_header h @ hash_option hash) 10 (le16_bytes c)"
    using option_header_checksum assms(1,2) by blast
  have "\<not> (10 \<le> i \<and> i < 10 + 2)" using assms(4,5) by linarith
  then show ?thesis using assms(1-3) by (auto simp: c nth_patch nth_append)
qed

lemma option_header_option:
  assumes "length h = 20" "length hash = 32"
  shows "drop 20 (option_header h hash) = hash_option hash"
  using assms by (rule option_header_checksum) (use assms in \<open>simp add: patch_def\<close>)

lemma option_header_verifies:
  assumes "length h = 20" "length hash = 32"
  shows "inet_checksum_ok (option_header h hash)"
proof -
  let ?m = "grown_header h @ hash_option hash"
  obtain c where c: "calculate_ip_checksum ?m 0 56 = Some c"
    "option_header h hash = patch ?m 10 (le16_bytes c)"
    using option_header_checksum assms by blast
  have z: "?m ! (2 * 5) = 0" "?m ! (2 * 5 + 1) = 0"
    using assms by (simp_all add: nth_append nth_grown)
  show ?thesis using checksum_verifies [of ?m 28 5 c] assms z c by simp
qed

lemma clear_ihl [simp]: "((b AND 0xF0) OR 14) AND 0xF0 = b AND (0xF0 :: u8)"
proof -
  have "((b AND 0xF0) OR 14) AND 0xF0 = (b AND (0xF0 AND 0xF0)) OR ((14::u8) AND 0xF0)"
    by (simp only: bit.conj_disj_distrib2 and.assoc)
  then show ?thesis by simp
qed

lemma option_header_fields:
  assumes "length h = 20" "length hash = 32"
  defines "H \<equiv> option_header h hash"
  shows "ihl_of (H ! 0) = 14" "H ! 0 AND 0xF0 = h ! 0 AND 0xF0"
    "bpf_ntohs (le16 (H ! 2) (H ! 3)) = bpf_ntohs (le16 (h ! 2) (h ! 3)) + 36"
    "i \<in> {1} \<union> {4..9} \<union> {12..19} \<Longrightarrow> H ! i = h ! i"
proof -
  have nth: "H ! i = grown_header h ! i" if "i < 20" "i \<noteq> 10" "i \<noteq> 11" for i
    unfolding H_def using assms(1,2) that by (rule nth_option_header)
  show "ihl_of (H ! 0) = 14" "H ! 0 AND 0xF0 = h ! 0 AND 0xF0"
    using assms(1) by (simp_all add: nth nth_grown)
  show "bpf_ntohs (le16 (H ! 2) (H ! 3)) = bpf_ntohs (le16 (h ! 2) (h ! 3)) + 36"
    using assms(1) by (simp add: nth nth_grown le16_bytes_def byte_order_defs)
  show "H ! i = h ! i" if "i \<in> {1} \<union> {4..9} \<union> {12..19}"
    using that assms(1) by (auto simp: nth nth_grown)
qed

lemma nth_zero_check: "length h = 20 \<Longrightarrow> i < 20 \<Longrightarrow> zero_check h ! i = (if i = 10 \<or> i = 11 then 0 else h ! i)"
  by (auto simp: zero_check_def nth_patch nth_Cons' )

definition kern_wf :: "kern \<Rightarrow> bool" where
  "kern_wf k \<longleftrightarrow> maps_wf (sha k) \<and> length (xdp_stats_map k) = 5"

text \<open>The maps as they are created, all zero.\<close>

definition kern_fresh :: kern where
  "kern_fresh = \<lparr>sha = \<lparr>sha256_ctx_map = Some \<lparr>ctx_data = replicate 64 0, datalen = 0, bitlen = 0,
       ctx_state = replicate 8 0\<rparr>, sha256_temp_map = Some (replicate 384 0)\<rparr>,
     xdp_stats_map = replicate 5 \<lparr>rx_packets = 0, rx_bytes = 0\<rparr>\<rparr>"

lemma kern_wf_fresh [simp]: "kern_wf kern_fresh"
  by (simp add: kern_fresh_def kern_wf_def maps_wf_def)

text \<open>
  The complete effect on an IPv4 packet when the head can be moved: the first 34 bytes of the
  packet with the cleared checksum are taken for the Ethernet and IP headers.
\<close>

lemma xdp_ip_hash_func_ipv4:
  assumes adj: "head_adjust adj"
    and p: "pkt ctx = f @ h @ r" and len: "length h = 20"
    and eth: "parse_ethhdr (pkt ctx) \<lparr>pos = 0\<rparr> = Some (uint (bpf_htons ETH_P_IP), \<lparr>pos = length f\<rparr>, Some 0)"
    and ihl: "5 \<le> ihl_of (h ! 0)" "ihl_of (h ! 0) * 4 \<le> 20 + length r"
    and h0: "length hash0 = 32" and wf: "kern_wf k"
    and split: "f @ zero_check h @ r = e @ g @ q" "length e = 14" "length g = 20"
    and room: "adj (ctx\<lparr>pkt := f @ zero_check h @ r\<rparr>) (- 36) = (0, ctx1)"
  shows "\<exists>k'. kern_wf k' \<and>
     rx_packets (xdp_stats_map k' ! 2) = rx_packets (xdp_stats_map k ! 2) + 1 \<and>
     xdp_ip_hash_func adj hash0 ctx k = Some (XDP_PASS,
       ctx1\<lparr>pkt := e @ option_header g (sha256_spec (kern_key @ zero_check h)) @ q\<rparr>, k')"
proof -
  let ?ctx = "ctx\<lparr>pkt := f @ zero_check h @ r\<rparr>" and ?hash = "sha256_spec (kern_key @ zero_check h)"
  obtain s1 where s1: "maps_wf s1" "ip_hash_action adj hash0 ctx (sha k) =
     do { (r, ctx2) \<leftarrow> add_ip_option_hash adj ?ctx ?hash; Some (XDP_PASS, ctx2, s1) }"
    using ip_hash_action_ipv4 [OF p len eth ihl h0, of "sha k" adj] wf by (auto simp: kern_wf_def)
  have "add_ip_option_hash adj ?ctx ?hash = Some (0, ctx1\<lparr>pkt := e @ option_header g ?hash @ q\<rparr>)"
    using split by (intro head_adjust.add_option_spec [OF adj _ _ _ _ room]) simp_all
  then show ?thesis
    using s1 wf by (auto simp: xdp_ip_hash_func_def kern_wf_def xdp_stats_valid XDP_PASS_def)
qed

lemma parse_untagged_ipv4:
  "length e = 14 \<Longrightarrow> e ! 12 = 8 \<Longrightarrow> e ! 13 = 0 \<Longrightarrow>
   parse_ethhdr (e @ r) \<lparr>pos = 0\<rparr> = Some (uint (bpf_htons ETH_P_IP), \<lparr>pos = length e\<rparr>, Some 0)"
  using parse_untagged [of e 8 0 r] by (simp add: ipv4_type)

end
