(* ===== verification/Hash_Kern_Props.thy ===== *)
theory Hash_Kern_Props
  imports Hash_Kern
begin

text \<open>
  What \<^verbatim>\<open>xdp_ip_hash_func\<close> guarantees: it never leaves the packet or its arrays, it leaves foreign and malformed
  packets alone, and what it makes of IPv4 packets, the ones it mishandles included.
\<close>

section \<open>No access outside the packet and the arrays\<close>

lemma copy_hdr_safe:
  "length t = 384 \<Longrightarrow> \<forall>i\<in>set is. i < 20 \<Longrightarrow> \<exists>t'. copy_hdr p data n is t = Some t' \<and> length t' = 384"
  by (induction "is" arbitrary: t) (simp_all add: ld8_def buf_set_def st8_def)

text \<open>\<open>temp->buffer\<close> can be read as long as the map value is there.\<close>

lemma temp_buffer_safe:
  "maps_sized s \<Longrightarrow> sha256_temp_map s \<noteq> None \<Longrightarrow> i < 128 \<Longrightarrow> \<exists>b. temp_buffer s i = Some b"
  by (auto simp: temp_buffer_def buf_get_def ld8_def sized_defs)

lemma compute_keyed_hash_safe:
  assumes s: "maps_sized s" and h: "length h = 32"
  shows "\<exists>ret h' s'. compute_keyed_hash ctx data n h s = Some (ret, h', s') \<and> length h' = 32 \<and> maps_kept s s'"
proof (cases "length (pkt ctx) < data + n \<or> sha256_temp_map s = None")
  case True
  then show ?thesis using s h by (auto simp: compute_keyed_hash_def maps_kept_refl split: option.splits)
next
  case False
  then obtain t where t: "sha256_temp_map s = Some t" "length t = 384" using s by (auto simp: sized_defs)
  define mc where "mc = (if 20 < n then 20 else n)"
  have mc: "mc \<le> 20" by (simp add: mc_def)
  obtain t1 where t1: "put_key t = Some t1" "length t1 = 384" using put_key_patch [of t] t by simp
  obtain t2 where t2: "copy_hdr (pkt ctx) data mc [0..<20] t1 = Some t2" "length t2 = 384"
    using copy_hdr_safe [OF t1(2), of "[0..<20]" "pkt ctx" data mc] by (auto simp del: upt_rec_numeral)
  let ?s = "s\<lparr>sha256_temp_map := Some t2\<rparr>"
  have kept: "maps_kept s ?s" using s t t2 by (simp add: sized_defs)
  obtain r2 s2 where s2: "sha256_init ?s = Some (r2, s2)" "maps_kept ?s s2"
    using sha256_init_safe [OF maps_kept_sized [OF kept]] by blast
  have "\<exists>b. temp_buffer s' i = Some b" if "maps_kept s2 s'" "i < 16 + mc" for s' i
    using that mc maps_kept_trans [OF s2(2) that(1)] by (intro temp_buffer_safe) (auto simp: maps_kept_def)
  then obtain r3 s3 where s3: "sha256_update temp_buffer (16 + mc) s2 = Some (r3, s3)" "maps_kept s2 s3"
    using sha256_update_safe [OF maps_kept_sized [OF s2(2)]] by blast
  obtain r4 h' s4 where s4: "sha256_final h s3 = Some (r4, h', s4)" "length h' = 32" "maps_kept s3 s4"
    using sha256_final_safe [OF maps_kept_sized [OF s3(2)] h] by blast
  have "maps_kept s s4" using kept s2(2) s3(2) s4(3) by (blast intro: maps_kept_trans)
  then show ?thesis
    using False t t1 t2 s2 s3 s4 by (simp add: compute_keyed_hash_def Let_def flip: mc_def)
qed

lemma write_option_total:
  assumes "length hash = 32"
  shows "\<exists>r p'. write_option hash p = Some (r, p')"
proof -
  consider "length p < 34" | "34 \<le> length p" "length p < 70" | "70 \<le> length p" by linarith
  then show ?thesis
  proof cases
    case 3
    have "p = take 14 p @ take 20 (drop 14 p) @ take 36 (drop 34 p) @ drop 70 p"
      using append_take_drop_id [of 14 p] append_take_drop_id [of 20 "drop 14 p"]
        append_take_drop_id [of 36 "drop 34 p"] by simp
    then show ?thesis
      using write_option_result [of "take 14 p" "take 20 (drop 14 p)" "take 36 (drop 34 p)" hash "drop 70 p"] assms 3
      by fastforce
  qed (auto simp: write_option_def Let_def ETHERNET_HEADER_SIZE_def IP_OPT_HASH_LEN_def mem_simps)
qed

lemma add_ip_option_hash_total:
  assumes "length hash = 32"
  shows "\<exists>r ctx'. add_ip_option_hash adj ctx hash = Some (r, ctx')"
proof -
  obtain err ctx1 where adj: "adj ctx (- 36) = (err, ctx1)" by fastforce
  have "\<exists>r p'. write_option hash p = Some (r, p')" for p using write_option_total [OF assms] by blast
  then have w: "\<exists>r ctx'. do { (r, p') \<leftarrow> write_option hash p; Some (r, c\<lparr>pkt := p'\<rparr>) } = Some (r, ctx')" for p c
    by (metis (no_types, lifting) bind.bind_lunit case_prod_conv)
  show ?thesis
    using adj w by (auto simp: add_ip_option_hash_def Let_def ETHERNET_HEADER_SIZE_def IP_OPT_HASH_LEN_def mem_simps)
qed

lemma ip_hash_action_safe:
  assumes h: "length hash0 = 32" and s: "maps_sized s"
  shows "\<exists>a ctx' s'. ip_hash_action adj hash0 ctx s = Some (a, ctx', s') \<and> a \<in> {XDP_ABORTED, XDP_PASS} \<and> maps_kept s s'"
proof -
  note refl = maps_kept_refl [OF s]
  obtain t nh eth where eth: "parse_ethhdr (pkt ctx) \<lparr>pos = 0\<rparr> = Some (t, nh, eth)"
    using eth.no_fault by blast
  show ?thesis
  proof (cases "t < 0 \<or> t \<noteq> uint (bpf_htons ETH_P_IP)")
    case True
    then show ?thesis using eth refl by (auto simp: ip_hash_action_def)
  next
    case False
    then have t: "t = uint (bpf_htons ETH_P_IP)" by simp
    show ?thesis
    proof (cases rule: ip4.cases_result [of "pkt ctx" nh])
      case (1 r nh')
      then have len: "pos nh + 20 \<le> length (pkt ctx)" by simp
      let ?i = "pos nh"
      obtain p where st: "st16 (pkt ctx) (?i + 10) 0 = Some p" using len by (auto simp: mem_simps)
      let ?ctx1 = "ctx\<lparr>pkt := p\<rparr>" and ?n = "ihl_of (pkt ctx ! ?i) * 4"
      obtain ret h' s' where c: "compute_keyed_hash ?ctx1 ?i ?n hash0 s = Some (ret, h', s')" "length h' = 32" "maps_kept s s'"
        using compute_keyed_hash_safe [OF s h] by blast
      obtain r' ctx' where a: "add_ip_option_hash adj ?ctx1 h' = Some (r', ctx')"
        using add_ip_option_hash_total [OF c(2)] by blast
      have b0: "ld8 (pkt ctx) ?i = Some (pkt ctx ! ?i)" using len by (simp add: mem_simps)
      show ?thesis using eth t 1 len st b0 c a refl by (simp add: ip_hash_action_def Let_def)
    next
      case (2 nh' p)
      then show ?thesis using eth t refl by (simp add: ip_hash_action_def)
    qed
  qed
qed

text \<open>
  C4: for every packet, every content of the maps (missing maps and any \<^verbatim>\<open>datalen\<close> included, the
  maps that exist having their declared sizes) and every behaviour of \<^verbatim>\<open>bpf_xdp_adjust_head\<close>,
  \<^verbatim>\<open>xdp_ip_hash_func\<close> ends without an access outside the packet, the option buffer and the arrays
  \<^verbatim>\<open>ctx->data[64]\<close>, \<^verbatim>\<open>ctx->state[8]\<close>, \<^verbatim>\<open>temp->buffer[128]\<close>, \<^verbatim>\<open>temp->m[64]\<close>, \<^verbatim>\<open>k[64]\<close>,
  \<^verbatim>\<open>SECRET_KEY[16]\<close> and \<^verbatim>\<open>hash[32]\<close>, and keeps the sizes. Its verdict is \<^verbatim>\<open>XDP_PASS\<close> or
  \<^verbatim>\<open>XDP_ABORTED\<close>: it never drops, transmits or redirects a packet.
\<close>

theorem xdp_ip_hash_safe:
  assumes "length hash0 = 32" "maps_sized (sha k)"
  shows "\<exists>a ctx' k'. xdp_ip_hash_func adj hash0 ctx k = Some (a, ctx', k') \<and>
    a \<in> {XDP_ABORTED, XDP_PASS} \<and> maps_sized (sha k') \<and> length (xdp_stats_map k') = length (xdp_stats_map k)"
proof -
  obtain a ctx' s' where act: "ip_hash_action adj hash0 ctx (sha k) = Some (a, ctx', s')"
    and a: "a \<in> {XDP_ABORTED, XDP_PASS}" and s': "maps_sized s'"
    using ip_hash_action_safe [OF assms] maps_kept_sized by blast
  obtain ret m where st: "xdp_stats_record_action ctx' a (xdp_stats_map k) = (ret, m)" by fastforce
  then have "ret \<in> {XDP_ABORTED, XDP_PASS}"
    using a by (auto simp: xdp_stats_record_action_def split: if_splits option.splits)
  then show ?thesis
    using act st s' xdp_stats_length [of ctx' a "xdp_stats_map k"] by (simp add: xdp_ip_hash_func_def)
qed

theorem xdp_ip_hash_safe_witness:
  "\<exists>a ctx' k'. xdp_ip_hash_func frame_adjust_head (replicate 32 0) \<lparr>room = [], pkt = replicate 20 8\<rparr>
      kern_fresh = Some (a, ctx', k') \<and> a \<in> {XDP_ABORTED, XDP_PASS} \<and> maps_sized (sha k')"
  using xdp_ip_hash_safe [of "replicate 32 0" kern_fresh frame_adjust_head "\<lparr>room = [], pkt = replicate 20 8\<rparr>"]
  by (auto simp: kern_fresh_def sized_defs)

section \<open>Packets that are not rewritten\<close>

text \<open>
  C10: a frame shorter than an Ethernet header and an IPv4 packet whose header is truncated or has
  an \<^verbatim>\<open>ihl\<close> below five are aborted, a frame of any other type is passed; in all these cases the
  packet and the hash maps stay as they are and exactly the record of the verdict counts one
  packet and its bytes.
\<close>

theorem xdp_ip_hash_untouched:
  assumes eth: "parse_ethhdr (pkt ctx) \<lparr>pos = 0\<rparr> = Some (t, nh, e)"
    and other: "t < 0 \<or> t \<noteq> uint (bpf_htons ETH_P_IP) \<or> (\<exists>nh' ip. parse_iphdr (pkt ctx) nh = Some (-1, nh', ip))"
    and stats: "length (xdp_stats_map k) = 5"
  shows "let a = (if t < 0 \<or> t = uint (bpf_htons ETH_P_IP) then XDP_ABORTED else XDP_PASS);
             rec = xdp_stats_map k ! unat a in
    xdp_ip_hash_func adj hash0 ctx k = Some (a, ctx, k\<lparr>xdp_stats_map := (xdp_stats_map k)[unat a :=
      rec\<lparr>rx_packets := rx_packets rec + 1,
          rx_bytes := rx_bytes rec + ucast (word_of_nat (length (pkt ctx)) :: u32)\<rparr>]\<rparr>)"
proof -
  define a where "a = (if t < 0 \<or> t = uint (bpf_htons ETH_P_IP) then XDP_ABORTED else XDP_PASS)"
  have "ip_hash_action adj hash0 ctx (sha k) = Some (a, ctx, sha k)"
    using eth other by (auto simp: ip_hash_action_def a_def)
  moreover have "a < 5" by (simp add: a_def action_defs)
  ultimately show ?thesis
    using stats unfolding Let_def a_def [symmetric] by (simp add: xdp_ip_hash_func_def xdp_stats_valid)
qed

theorem xdp_ip_hash_untouched_witness:
  "\<exists>k'. xdp_ip_hash_func frame_adjust_head [] \<lparr>room = [], pkt = [1, 2, 3]\<rparr>
      \<lparr>sha = \<lparr>sha256_ctx_map = None, sha256_temp_map = None\<rparr>,
       xdp_stats_map = replicate 5 \<lparr>rx_packets = 7, rx_bytes = 0\<rparr>\<rparr> =
     Some (XDP_ABORTED, \<lparr>room = [], pkt = [1, 2, 3]\<rparr>, k') \<and> xdp_stats_map k' ! 0 = \<lparr>rx_packets = 8, rx_bytes = 3\<rparr>"
  using xdp_ip_hash_untouched [of "\<lparr>room = [], pkt = [1, 2, 3]\<rparr>" "-1" "\<lparr>pos = 0\<rparr>" None
      "\<lparr>sha = \<lparr>sha256_ctx_map = None, sha256_temp_map = None\<rparr>,
       xdp_stats_map = replicate 5 \<lparr>rx_packets = 7, rx_bytes = 0\<rparr>\<rparr>" frame_adjust_head "[]"]
  by (simp add: parse_ethhdr_short XDP_ABORTED_def Let_def)

section \<open>IPv4 packets\<close>

text \<open>
  C1: an untagged IPv4 packet with a plain 20 byte header is passed with an authenticated header in
  its place: Ethernet header and payload are kept, the IP header keeps every field but \<^verbatim>\<open>ihl\<close> (now
  14), the total length (36 more) and the checksum, the option of type 25 and length 36 carries
  the SHA-256 digest of the key bytes followed by the old header with a zero checksum, and the
  56 byte header passes the receiver's test: the ones' complement sum of its big-endian 16-bit
  words, as RFC 1071 defines it, is all ones.
\<close>

theorem xdp_ip_hash_authenticates:
  assumes adj: "head_adjust adj"
    and p: "pkt ctx = e @ h @ r" and len: "length e = 14" "length h = 20"
    and type: "e ! 12 = 8" "e ! 13 = 0" and ihl: "ihl_of (h ! 0) = 5"
    and h0: "length hash0 = 32" and wf: "kern_wf k"
    and room: "adj (ctx\<lparr>pkt := e @ zero_check h @ r\<rparr>) (- 36) = (0, ctx1)"
  shows "\<exists>H k'. xdp_ip_hash_func adj hash0 ctx k = Some (XDP_PASS, ctx1\<lparr>pkt := e @ H @ r\<rparr>, k') \<and>
    length H = 56 \<and> ihl_of (H ! 0) = 14 \<and> H ! 0 AND 0xF0 = h ! 0 AND 0xF0 \<and>
    bpf_ntohs (le16 (H ! 2) (H ! 3)) = bpf_ntohs (le16 (h ! 2) (h ! 3)) + 36 \<and>
    (\<forall>i \<in> {1} \<union> {4..9} \<union> {12..19}. H ! i = h ! i) \<and>
    drop 20 H = [25, 36, 0x12, 0x34] @ sha256_spec (kern_key @ zero_check h) \<and>
    inet_checksum_ok H \<and>
    kern_wf k' \<and> rx_packets (xdp_stats_map k' ! 2) = rx_packets (xdp_stats_map k ! 2) + 1"
proof -
  let ?z = "zero_check h" and ?hash = "sha256_spec (kern_key @ zero_check h)"
  let ?H = "option_header ?z ?hash"
  have eth: "parse_ethhdr (pkt ctx) \<lparr>pos = 0\<rparr> = Some (uint (bpf_htons ETH_P_IP), \<lparr>pos = length e\<rparr>, Some 0)"
    unfolding p using len type by (intro parse_untagged_ipv4)
  obtain k' where k': "kern_wf k'"
    "rx_packets (xdp_stats_map k' ! 2) = rx_packets (xdp_stats_map k ! 2) + 1"
    "xdp_ip_hash_func adj hash0 ctx k = Some (XDP_PASS, ctx1\<lparr>pkt := e @ ?H @ r\<rparr>, k')"
    using xdp_ip_hash_func_ipv4 [OF adj p len(2) eth _ _ h0 wf refl len(1) _ room] len ihl by auto
  have z: "length ?z = 20" "length ?hash = 32" using len by simp_all
  have nz: "?z ! i = h ! i" if "i < 20" "i \<noteq> 10" "i \<noteq> 11" for i
    using that len by (simp add: nth_zero_check)
  show ?thesis
    using k' option_header_fields [OF z] option_header_option [OF z] option_header_verifies [OF z] z
    by (intro exI [of _ ?H] exI [of _ k']) (auto simp: nz hash_option_def)
qed

theorem xdp_ip_hash_authenticates_witness:
  "\<exists>ctx H k'. xdp_ip_hash_func frame_adjust_head (replicate 32 0)
      \<lparr>room = replicate 36 0, pkt = (replicate 12 1 @ [8, 0]) @ (0x45 # replicate 19 7) @ [1, 2]\<rparr>
      kern_fresh = Some (XDP_PASS, ctx, k') \<and> pkt ctx = (replicate 12 1 @ [8, 0]) @ H @ [1, 2] \<and>
    length H = 56 \<and> inet_checksum_ok H"
proof -
  let ?e = "replicate 12 1 @ [8, 0] :: mem" and ?h = "0x45 # replicate 19 7 :: mem"
  let ?ctx = "\<lparr>room = replicate 36 0, pkt = ?e @ ?h @ [1, 2]\<rparr> :: xdp_md"
  have "\<exists>c. frame_adjust_head (?ctx\<lparr>pkt := ?e @ zero_check ?h @ [1, 2]\<rparr>) (- 36) = (0, c)"
    by (simp add: frame_adjust_head_def)
  then obtain c where c: "frame_adjust_head (?ctx\<lparr>pkt := ?e @ zero_check ?h @ [1, 2]\<rparr>) (- 36) = (0, c)" ..
  have ihl: "ihl_of (?h ! 0) = 5" by (simp add: ihl_of_def)
  show ?thesis
    using xdp_ip_hash_authenticates [OF fah.head_adjust_axioms _ _ _ _ _ ihl _ kern_wf_fresh c, of "replicate 32 0"]
    by (auto simp: nth_append)
qed

text \<open>
  when \<^verbatim>\<open>bpf_xdp_adjust_head\<close> refuses to grow the packet, the packet is still passed, with its
  IP checksum overwritten by zero and without any authentication option.
\<close>

theorem xdp_ip_hash_no_room:
  assumes adj: "head_adjust adj"
    and p: "pkt ctx = e @ h @ r" and len: "length e = 14" "length h = 20"
    and type: "e ! 12 = 8" "e ! 13 = 0" and ihl: "ihl_of (h ! 0) = 5"
    and h0: "length hash0 = 32" and wf: "kern_wf k"
    and room: "fst (adj (ctx\<lparr>pkt := e @ zero_check h @ r\<rparr>) (- 36)) \<noteq> 0"
  shows "\<exists>k'. xdp_ip_hash_func adj hash0 ctx k = Some (XDP_PASS, ctx\<lparr>pkt := e @ zero_check h @ r\<rparr>, k')"
proof -
  let ?ctx = "ctx\<lparr>pkt := e @ zero_check h @ r\<rparr>"
  have eth: "parse_ethhdr (pkt ctx) \<lparr>pos = 0\<rparr> = Some (uint (bpf_htons ETH_P_IP), \<lparr>pos = length e\<rparr>, Some 0)"
    unfolding p using len type by (intro parse_untagged_ipv4)
  obtain s1 where s1: "ip_hash_action adj hash0 ctx (sha k) =
     do { (r, ctx2) \<leftarrow> add_ip_option_hash adj ?ctx (sha256_spec (kern_key @ zero_check h));
          Some (XDP_PASS, ctx2, s1) }"
    using ip_hash_action_ipv4 [OF p len(2) eth _ _ h0, of "sha k" adj] wf ihl by (auto simp: kern_wf_def)
  have "add_ip_option_hash adj ?ctx hash = Some (-1, ?ctx)" for hash
    using len room by (intro head_adjust.add_option_fail [OF adj]) simp_all
  then show ?thesis
    using s1 wf by (auto simp: xdp_ip_hash_func_def kern_wf_def xdp_stats_valid XDP_PASS_def)
qed

theorem xdp_ip_hash_no_room_witness:
  "\<exists>k'. xdp_ip_hash_func frame_adjust_head (replicate 32 0)
      \<lparr>room = [], pkt = (replicate 12 1 @ [8, 0]) @ (0x45 # replicate 19 7) @ []\<rparr>
      kern_fresh = Some (XDP_PASS, \<lparr>room = [], pkt = (replicate 12 1 @ [8, 0]) @ zero_check (0x45 # replicate 19 7) @ []\<rparr>, k')"
proof -
  have ihl: "ihl_of ((0x45 # replicate 19 7) ! 0) = 5" by (simp add: ihl_of_def)
  show ?thesis
    using xdp_ip_hash_no_room [OF fah.head_adjust_axioms _ _ _ _ _ ihl _ kern_wf_fresh,
        of "\<lparr>room = [], pkt = (replicate 12 1 @ [8, 0]) @ (0x45 # replicate 19 7) @ []\<rparr>"
        "replicate 12 1 @ [8, 0]" "[]" "replicate 32 0"]
    by (simp add: nth_append frame_adjust_head_def)
qed

text \<open>
  C17: the option is always written 34 bytes into the frame, behind an assumed 20 byte IP header. In
  a frame with VLAN tags \<open>t\<close> the digest is that of the real IP header, but the tags and the start of
  the IP header are taken for the IP header: the first tag byte gets the \<^verbatim>\<open>ihl\<close>, the encapsulated
  type is increased as if it were the total length, and the option splits the IP header. In a packet with IP options \<open>t\<close> is empty and the old options end up behind the
  56 bytes that the new \<^verbatim>\<open>ihl\<close> declares, at the start of the payload.
\<close>

theorem xdp_ip_hash_fixed_offset:
  assumes adj: "head_adjust adj"
    and p: "pkt ctx = (e @ t) @ h @ r" and len: "length e = 14" "length h = 20" "length t \<le> 8"
    and eth: "parse_ethhdr (pkt ctx) \<lparr>pos = 0\<rparr> =
      Some (uint (bpf_htons ETH_P_IP), \<lparr>pos = length (e @ t)\<rparr>, Some 0)"
    and ihl: "5 \<le> ihl_of (h ! 0)" "ihl_of (h ! 0) * 4 \<le> 20 + length r"
    and h0: "length hash0 = 32" and wf: "kern_wf k"
    and room: "adj (ctx\<lparr>pkt := (e @ t) @ zero_check h @ r\<rparr>) (- 36) = (0, ctx1)"
  shows "\<exists>k'. let n = 20 - length t; z = zero_check h in
    xdp_ip_hash_func adj hash0 ctx k = Some (XDP_PASS,
      ctx1\<lparr>pkt := e @ option_header (t @ take n z) (sha256_spec (kern_key @ z)) @ drop n z @ r\<rparr>, k') \<and> kern_wf k'"
proof -
  let ?z = "zero_check h"
  let ?g = "t @ take (20 - length t) ?z" and ?q = "drop (20 - length t) ?z @ r"
  have split: "(e @ t) @ ?z @ r = e @ ?g @ ?q" by simp
  have g: "length ?g = 20" using len by simp
  show ?thesis
    using xdp_ip_hash_func_ipv4 [OF adj p len(2) eth ihl h0 wf split len(1) g room] unfolding Let_def by blast
qed

theorem xdp_ip_hash_fixed_offset_witness:
  "\<exists>ctx k' H. xdp_ip_hash_func frame_adjust_head (replicate 32 0)
      \<lparr>room = replicate 36 0, pkt = ((replicate 12 1 @ [0x81, 0]) @ [0, 5, 8, 0]) @ (0x45 # replicate 19 7) @ []\<rparr>
      kern_fresh = Some (XDP_PASS, ctx, k') \<and>
    pkt ctx = (replicate 12 1 @ [0x81, 0]) @ H @ [7, 7, 7, 7] \<and> ihl_of (H ! 0) = 14"
proof -
  let ?e = "replicate 12 1 @ [0x81, 0] :: mem" and ?t = "[0, 5, 8, 0] :: mem" and ?h = "0x45 # replicate 19 7 :: mem"
  let ?ctx = "\<lparr>room = replicate 36 0, pkt = (?e @ ?t) @ ?h @ []\<rparr> :: xdp_md"
  have v: "proto_is_vlan (le16 0x81 0)" "\<not> proto_is_vlan (le16 8 0)"
    by (simp_all add: proto_is_vlan_def ETH_P_8021Q_def ETH_P_8021AD_def byte_order_defs
        bpf_swab16_def bpf_mvb16_def le16_def)
  have eth: "parse_ethhdr (pkt ?ctx) \<lparr>pos = 0\<rparr> =
      Some (uint (bpf_htons ETH_P_IP), \<lparr>pos = length (?e @ ?t)\<rparr>, Some 0)"
    using v by (simp add: parse_ethhdr_def parse_ethhdr_vlan_def VLAN_MAX_DEPTH_def mem_simps ipv4_type
        nth_append numeral_2_eq_2)
  have "\<exists>c. frame_adjust_head (?ctx\<lparr>pkt := (?e @ ?t) @ zero_check ?h @ []\<rparr>) (- 36) = (0, c)"
    by (simp add: frame_adjust_head_def)
  then obtain c where c: "frame_adjust_head (?ctx\<lparr>pkt := (?e @ ?t) @ zero_check ?h @ []\<rparr>) (- 36) = (0, c)" ..
  have ihl: "5 \<le> ihl_of (?h ! 0)" "ihl_of (?h ! 0) * 4 \<le> 20 + length ([]::mem)" by (simp_all add: ihl_of_def)
  have z: "zero_check ?h = 0x45 # replicate 9 7 @ [0, 0] @ replicate 8 7"
    by (simp add: zero_check_def patch_def numeral_eq_Suc)
  have "\<exists>k'. xdp_ip_hash_func frame_adjust_head (replicate 32 0) ?ctx kern_fresh = Some (XDP_PASS,
      c\<lparr>pkt := ?e @ option_header (?t @ take 16 (zero_check ?h)) (sha256_spec (kern_key @ zero_check ?h))
        @ drop 16 (zero_check ?h)\<rparr>, k')"
    using xdp_ip_hash_fixed_offset [OF fah.head_adjust_axioms _ _ _ _ eth ihl _ kern_wf_fresh c, of "replicate 32 0"]
    by (auto simp: Let_def)
  moreover have "ihl_of (option_header (?t @ take 16 (zero_check ?h)) (sha256_spec (kern_key @ zero_check ?h)) ! 0) = 14"
    by (rule option_header_fields) simp_all
  moreover have "drop 16 (zero_check ?h) = [7, 7, 7, 7]" unfolding z by (simp add: numeral_eq_Suc)
  ultimately show ?thesis by fastforce
qed

end
