(* ===== verification/Hash_Verifier.thy ===== *)
theory Hash_Verifier
  imports Parsing
begin

text \<open>
  \<^verbatim>\<open>packet-solutions/hash_verifier.c\<close>: the user space program that captures packets, finds the hash
  option, rebuilds the header that was hashed and compares the digests. The SHA-256 that it is linked
  with and libpcap are not part of the repository: the digest is the parameter \<open>sha256\<close> (the
  composition of init, one update and final) and libpcap the record \<open>pcap\<close>.

  Output is the list of \<^verbatim>\<open>printf\<close> calls, each with its format and arguments.
\<close>

section \<open>Model\<close>

datatype arg = N nat | S string | Dotted mem

datatype out = Printf (out_fmt: string) (out_args: "arg list")

definition IP_OPT_HASH_ID_user :: u8 where "IP_OPT_HASH_ID_user = 25"

definition IP_OPT_HASH_LEN_user :: nat where "IP_OPT_HASH_LEN_user = 36"

definition SECRET_KEY_user :: "u8 list" where
  "SECRET_KEY_user = [0x4b, 0x75, 0x8f, 0x94, 0x98, 0xd3, 0x31, 0x26,
                      0x16, 0xec, 0xc2, 0x61, 0x99, 0x43, 0x76, 0x45]"

definition print_hex_user :: "mem \<Rightarrow> nat \<Rightarrow> nat \<Rightarrow> out list option" where
  "print_hex_user p data len =
     do {
       bs \<leftarrow> ldn p data len;
       Some (map (\<lambda>b. Printf ''%02x'' [N (unat b)]) bs @ [Printf ''\<newline>'' []])
     }"

definition IP_DF :: u16 where "IP_DF = 0x4000"
definition IP_MF :: u16 where "IP_MF = 0x2000"
definition IP_OFFMASK :: u16 where "IP_OFFMASK = 0x1fff"

definition protocol_name :: "u8 \<Rightarrow> out list" where
  "protocol_name pr =
     (if pr = 6 then [Printf '' (TCP)'' []]
      else if pr = 17 then [Printf '' (UDP)'' []]
      else if pr = 1 then [Printf '' (ICMP)'' []]
      else [])"

text \<open>\<open>p\<close> is the captured packet, \<open>ip\<close> the offset of the IP header.\<close>

definition dump_ip_header_user :: "mem \<Rightarrow> nat \<Rightarrow> out list option" where
  "dump_ip_header_user p ip =
     do {
       b0 \<leftarrow> ld8 p ip;
       tos \<leftarrow> ld8 p (ip + 1);
       ip_len \<leftarrow> ld16 p (ip + 2);
       ip_id \<leftarrow> ld16 p (ip + 4);
       ip_off \<leftarrow> ld16 p (ip + 6);
       ttl \<leftarrow> ld8 p (ip + 8);
       ip_p \<leftarrow> ld8 p (ip + 9);
       ip_sum \<leftarrow> ld16 p (ip + 10);
       src \<leftarrow> ldn p (ip + 12) 4;
       dst \<leftarrow> ldn p (ip + 16) 4;
       let frag = bpf_ntohs ip_off;
       let hl = ihl_of b0;
       opts \<leftarrow> (if hl > 5
                then do {
                  hex \<leftarrow> print_hex_user p (ip + 20) ((hl - 5) * 4);
                  Some ([Printf ''IP Options Present: %d bytes of options\<newline>'' [N ((hl - 5) * 4)],
                         Printf ''Options (hex): '' []] @ hex)
                }
                else Some []);
       Some
        ([Printf ''\<newline>=== IP HEADER DUMP ===\<newline>'' [],
          Printf ''Version: %d\<newline>'' [N (unat (drop_bit 4 b0))],
          Printf ''Header Length: %d bytes\<newline>'' [N (hl * 4)],
          Printf ''Type of Service: 0x%02x\<newline>'' [N (unat tos)],
          Printf ''Total Length: %d bytes\<newline>'' [N (unat (bpf_ntohs ip_len))],
          Printf ''Identification: 0x%04x\<newline>'' [N (unat (bpf_ntohs ip_id))],
          Printf ''Flags: %s%s\<newline>'' [S (if frag AND IP_DF \<noteq> 0 then ''DF '' else ''''),
                                     S (if frag AND IP_MF \<noteq> 0 then ''MF '' else '''')],
          Printf ''Fragment Offset: %d\<newline>'' [N (unat (frag AND IP_OFFMASK))],
          Printf ''Time to Live: %d\<newline>'' [N (unat ttl)],
          Printf ''Protocol: %d'' [N (unat ip_p)]]
         @ protocol_name ip_p @
         [Printf ''\<newline>'' [],
          Printf ''Header Checksum: 0x%04x\<newline>'' [N (unat (bpf_ntohs ip_sum))],
          Printf ''Source IP: %s\<newline>'' [Dotted src],
          Printf ''Destination IP: %s\<newline>'' [Dotted dst]]
         @ opts @ [Printf ''=== END IP HEADER ===\<newline>\<newline>'' []])
     }"

text \<open>\<^verbatim>\<open>buffer\<close> has 128 bytes; a longer copy is a fault.\<close>

definition compute_keyed_hash_user :: "(mem \<Rightarrow> mem) \<Rightarrow> mem \<Rightarrow> nat \<Rightarrow> mem option" where
  "compute_keyed_hash_user sha256 data data_len =
     do {
       let header_size = data_len;
       bs \<leftarrow> ldn data 0 header_size;
       buffer \<leftarrow> stn (replicate 128 0) 0 SECRET_KEY_user;
       buffer2 \<leftarrow> stn buffer (length SECRET_KEY_user) bs;
       input \<leftarrow> ldn buffer2 0 (length SECRET_KEY_user + header_size);
       Some (sha256 input)
     }"

text \<open>The test that both option loops make at \<open>opt\<close>.\<close>

definition hash_option_at :: "mem \<Rightarrow> nat \<Rightarrow> nat \<Rightarrow> bool option" where
  "hash_option_at p opt end_opt =
     do {
       b \<leftarrow> ld8 p opt;
       if b = IP_OPT_HASH_ID_user \<and> opt + 1 < end_opt
       then do {
         l \<leftarrow> ld8 p (opt + 1);
         Some (unat l = IP_OPT_HASH_LEN_user \<and> opt + unat l \<le> end_opt)
       }
       else Some False
     }"

text \<open>The first loop: \<open>Some (Some h)\<close> when \<^verbatim>\<open>received_hash\<close> is set to \<open>h\<close>.\<close>

function find_hash :: "mem \<Rightarrow> nat \<Rightarrow> nat \<Rightarrow> nat option option" where
  "find_hash p opt end_opt =
     (if opt < end_opt
      then do {
        b \<leftarrow> ld8 p opt;
        if b = 0 then Some None
        else if b = 1 then find_hash p (opt + 1) end_opt
        else do {
          hit \<leftarrow> hash_option_at p opt end_opt;
          if hit then Some (Some (opt + 4))
          else if opt + 1 \<ge> end_opt then Some None
          else do {
            l \<leftarrow> ld8 p (opt + 1);
            find_hash p (opt + (if l = 0 then 1 else unat l)) end_opt
          }
        }
      }
      else Some None)"
  by pat_completeness auto
termination
  by (relation "measure (\<lambda>(_, opt, end_opt). end_opt - opt)") (auto intro!: diff_less_mono2 unat_pos)

text \<open>The second loop, on the copy of the header: it has no case for single byte options.\<close>

function remove_hash :: "mem \<Rightarrow> nat \<Rightarrow> nat \<Rightarrow> mem option" where
  "remove_hash h opt end_opt =
     (if opt < end_opt
      then do {
        hit \<leftarrow> hash_option_at h opt end_opt;
        if hit
        then do {
          let opt_len = IP_OPT_HASH_LEN_user;
          let remaining = end_opt - (opt + opt_len);
          if remaining > 0
          then do { bs \<leftarrow> ldn h (opt + opt_len) remaining; stn h opt bs }
          else Some h
        }
        else if opt + 1 \<ge> end_opt then Some h
        else do {
          l \<leftarrow> ld8 h (opt + 1);
          remove_hash h (opt + (if l = 0 then 1 else unat l)) end_opt
        }
      }
      else Some h)"
  by pat_completeness auto
termination
  by (relation "measure (\<lambda>(_, opt, end_opt). end_opt - opt)") (auto intro!: diff_less_mono2 unat_pos)

declare find_hash.simps [simp del] remove_hash.simps [simp del]

text \<open>
  The copy of the header with the option taken back out. \<open>junk\<close> is the uninitialised array
  \<^verbatim>\<open>original_header[60]\<close>. The result is the array and \<^verbatim>\<open>true_header_size\<close>.
\<close>

definition rebuild_header :: "mem \<Rightarrow> mem \<Rightarrow> nat \<Rightarrow> nat \<Rightarrow> (mem \<times> nat) option" where
  "rebuild_header junk p ip ip_header_len =
     do {
       hdr \<leftarrow> ldn p ip ip_header_len;
       h0 \<leftarrow> stn junk 0 hdr;
       b0 \<leftarrow> ld8 h0 0;
       let old_ihl = (b0 AND 0xf);
       let new_ihl = old_ihl - word_of_nat (IP_OPT_HASH_LEN_user div 4);
       h1 \<leftarrow> st8 h0 0 ((b0 AND 0xF0) OR (new_ihl AND 0xf));
       ip_len \<leftarrow> ld16 h1 2;
       let new_len = bpf_ntohs ip_len - word_of_nat IP_OPT_HASH_LEN_user;
       h2 \<leftarrow> st16 h1 2 (bpf_htons new_len);
       h3 \<leftarrow> st16 h2 10 0;
       let true_header_size = unat new_ihl * 4;
       h4 \<leftarrow> remove_hash h3 20 ip_header_len;
       Some (h4, true_header_size)
     }"

text \<open>How a call of \<^verbatim>\<open>packet_handler\<close> ends, with what it goes on to print.\<close>

datatype verdict =
    Not_IP
  | No_Options nat
  | No_Hash
  | Hash_Match mem mem
  | Hash_Mismatch mem mem mem

definition verify_packet :: "(mem \<Rightarrow> mem) \<Rightarrow> mem \<Rightarrow> mem \<Rightarrow> verdict option" where
  "verify_packet sha256 junk packet =
     do {
       ether_type \<leftarrow> ld16 packet 12;
       if bpf_ntohs ether_type \<noteq> ETH_P_IP then Some Not_IP
       else do {
         let ip = 14;
         b0 \<leftarrow> ld8 packet ip;
         let ip_header_len = ihl_of b0 * 4;
         if ihl_of b0 \<le> 5 then Some (No_Options (ihl_of b0))
         else do {
           found \<leftarrow> find_hash packet (ip + 20) (ip + ip_header_len);
           case found of
             None \<Rightarrow> Some No_Hash
           | Some received_hash \<Rightarrow> do {
               (original_header, true_header_size) \<leftarrow> rebuild_header junk packet ip ip_header_len;
               computed \<leftarrow> compute_keyed_hash_user sha256 original_header true_header_size;
               received \<leftarrow> ldn packet received_hash 32;
               if received = computed then Some (Hash_Match received computed)
               else Some (Hash_Mismatch received computed (take true_header_size original_header))
             }
         }
       }
     }"

definition hex_line :: "mem \<Rightarrow> out list" where
  "hex_line bs = map (\<lambda>b. Printf ''%02x'' [N (unat b)]) bs @ [Printf ''\<newline>'' []]"

definition rule_line :: "out list" where
  "rule_line = [Printf ''------------------------------------------------------\<newline>'' []]"

fun report :: "verdict \<Rightarrow> out list" where
  "report Not_IP = []"
| "report (No_Options ihl) = [Printf ''No IP options present (IHL = %d)\<newline>'' [N ihl]]"
| "report No_Hash = [Printf ''No hash option found in packet\<newline>'' []] @ rule_line"
| "report (Hash_Match r c) =
     [Printf ''Received hash:  '' []] @ hex_line r @ [Printf ''Computed hash:  '' []] @ hex_line c
     @ [Printf ''HASH MATCH - packet is authentic\<newline>'' []] @ rule_line"
| "report (Hash_Mismatch r c h) =
     [Printf ''Received hash:  '' []] @ hex_line r @ [Printf ''Computed hash:  '' []] @ hex_line c
     @ [Printf ''HASH MISMATCH - packet may be tampered\<newline>'' [],
        Printf ''Raw IP header bytes used for hash calculation:\<newline>'' []] @ hex_line h @ rule_line"

definition packet_handler :: "(mem \<Rightarrow> mem) \<Rightarrow> mem \<Rightarrow> mem \<Rightarrow> out list option" where
  "packet_handler sha256 junk packet =
     do {
       v \<leftarrow> verify_packet sha256 junk packet;
       if v = Not_IP then Some (report v)
       else do { dump \<leftarrow> dump_ip_header_user packet 14; Some (dump @ report v) }
     }"

text \<open>
  The interface of libpcap that \<^verbatim>\<open>main\<close> uses. A handle is the list of the packets that
  \<^verbatim>\<open>pcap_loop\<close> hands to the callback.
\<close>

record pcap =
  pcap_lookupnet :: "string \<Rightarrow> (u32 \<times> u32) option"
  pcap_open_live :: "string \<Rightarrow> mem list option"
  pcap_compile :: "string \<Rightarrow> u32 \<Rightarrow> bool"
  pcap_setfilter :: "string \<Rightarrow> mem list \<Rightarrow> mem list option"

fun pcap_loop :: "(mem \<Rightarrow> mem) \<Rightarrow> mem \<Rightarrow> mem list \<Rightarrow> out list option" where
  "pcap_loop sha256 junk [] = Some []"
| "pcap_loop sha256 junk (p # ps) =
     do { o1 \<leftarrow> packet_handler sha256 junk p; o2 \<leftarrow> pcap_loop sha256 junk ps; Some (o1 @ o2) }"

definition main_verifier :: "pcap \<Rightarrow> (mem \<Rightarrow> mem) \<Rightarrow> mem \<Rightarrow> string list \<Rightarrow> (int \<times> out list) option" where
  "main_verifier lib sha256 junk argv =
     (if length argv \<noteq> 2 then Some (1, [Printf ''Usage: %s <interface>\<newline>'' [S (argv ! 0)]])
      else
        let dev = argv ! 1;
            filter_exp = ''ip'';
            (net, err) = (case pcap_lookupnet lib dev of
                            None \<Rightarrow> (0, [Printf ''Can't get netmask for device %s: %s\<newline>'' [S dev]])
                          | Some (n, m) \<Rightarrow> (n, []))
        in case pcap_open_live lib dev of
             None \<Rightarrow> Some (2, err @ [Printf ''Couldn't open device %s: %s\<newline>'' [S dev]])
           | Some handle \<Rightarrow>
               if \<not> pcap_compile lib filter_exp net
               then Some (3, err @ [Printf ''Couldn't parse filter %s: %s\<newline>'' [S filter_exp]])
               else case pcap_setfilter lib filter_exp handle of
                 None \<Rightarrow> Some (4, err @ [Printf ''Couldn't install filter %s: %s\<newline>'' [S filter_exp]])
               | Some handle' \<Rightarrow> do {
                   o1 \<leftarrow> pcap_loop sha256 junk handle';
                   Some (0, err @ [Printf ''Listening on %s for IP packets with SHA256 hash options...\<newline>'' [S dev]] @ o1)
                 })"

end
