(* ===== verification/Hash_Verifier_Props.thy ===== *)
theory Hash_Verifier_Props
  imports Hash_Verifier
begin

text \<open>
  The verifier's loops end and stay inside the header, its buffers are large enough, and its verdict
  on packets that carry the hash option, whole or truncated.
\<close>

section \<open>The option loops\<close>

lemma hash_option_at_in:
  assumes "opt < end_opt" "end_opt \<le> length p"
  shows "hash_option_at p opt end_opt =
    Some (p ! opt = 25 \<and> opt + 1 < end_opt \<and> p ! (opt + 1) = 36 \<and> opt + 36 \<le> end_opt)"
proof -
  have "unat (b::u8) = 36 \<longleftrightarrow> b = 36" for b
    using word_unat_eq_iff [of b 36] by simp
  then show ?thesis
    using assms by (auto simp: hash_option_at_def IP_OPT_HASH_ID_user_def IP_OPT_HASH_LEN_user_def mem_simps)
qed

definition is_hash_at :: "mem \<Rightarrow> nat \<Rightarrow> nat \<Rightarrow> bool" where
  "is_hash_at p opt end_opt \<longleftrightarrow>
     p ! opt = 25 \<and> p ! (opt + 1) = 36 \<and> opt + 36 \<le> end_opt"

lemma hash_option_at_iff:
  "opt < end_opt \<Longrightarrow> end_opt \<le> length p \<Longrightarrow> hash_option_at p opt end_opt = Some (is_hash_at p opt end_opt)"
  by (auto simp: hash_option_at_in is_hash_at_def)



section \<open>The rebuilt header\<close>

lemma compute_keyed_hash_user_input:
  assumes "n \<le> length data" "n \<le> 112"
  shows "compute_keyed_hash_user sha256 data n = Some (sha256 (SECRET_KEY_user @ take n data))"
  using assms by (simp add: compute_keyed_hash_user_def ldn_def stn_def patch_def SECRET_KEY_user_def)

text \<open>
  The header \<open>H\<close> of the packet with the fields that the verifier resets, before the option is
  removed: \<^verbatim>\<open>ihl\<close> nine less, the total length 36 less, a zero checksum.
\<close>

definition reset_fields :: "mem \<Rightarrow> mem" where
  "reset_fields h =
     patch (patch (h[0 := (h ! 0 AND 0xF0) OR (((h ! 0 AND 0xf) - 9) AND 0xf)]) 2
       (le16_bytes (bpf_htons (bpf_ntohs (le16 (h ! 2) (h ! 3)) - 36)))) 10 [0, 0]"

lemma length_reset [simp]: "12 \<le> length h \<Longrightarrow> length (reset_fields h) = length h"
  by (simp add: reset_fields_def)


lemma new_ihl: "14 \<le> ihl_of b \<Longrightarrow> unat ((b AND 0xf) - 9) = ihl_of b - 9"
  by (simp add: ihl_of_def unat_sub word_le_nat_alt)

lemma rebuild_header_eq:
  assumes "ip + n \<le> length p" "20 \<le> n" "n \<le> length junk" "14 \<le> ihl_of (p ! ip)"
  shows "rebuild_header junk p ip n =
    do { h \<leftarrow> remove_hash (reset_fields (take n (drop ip p) @ drop n junk)) 20 n;
         Some (h, (ihl_of (p ! ip) - 9) * 4) }"
proof -
  let ?h = "take n (drop ip p) @ drop n junk"
  let ?b = "(p ! ip AND 0xF0) OR (((p ! ip AND 0xf) - 9) AND 0xf)"
  have len: "length ?h = length junk" using assms by simp
  have h0: "stn junk 0 (take n (drop ip p)) = Some ?h" using assms by (simp add: stn_def patch_def)
  have b0: "?h ! 0 = p ! ip" "ld8 ?h 0 = Some (p ! ip)"
    using assms by (auto simp: ld8_def nth_append)
  have l: "20 \<le> length (?h[0 := ?b])" using len assms by simp
  have ld: "ld16 (?h[0 := ?b]) 2 = Some (le16 (?h ! 2) (?h ! 3))"
    using l by (simp add: mem_simps)
  let ?h2 = "patch (?h[0 := ?b]) 2 (le16_bytes (bpf_htons (bpf_ntohs (le16 (?h ! 2) (?h ! 3)) - 36)))"
  have st: "st16 (?h[0 := ?b]) 2 (bpf_htons (bpf_ntohs (le16 (?h ! 2) (?h ! 3)) - 36)) = Some ?h2"
    "st16 ?h2 10 0 = Some (reset_fields ?h)"
    using l by (simp_all add: mem_simps reset_fields_def b0 le16_bytes_def)
  have st8: "st8 ?h 0 ?b = Some (?h[0 := ?b])" using len assms by (auto simp: st8_def)
  have cp: "ldn p ip n = Some (take n (drop ip p))" using assms by (simp add: ldn_def)
  show ?thesis
    using cp h0 b0 st8 ld st new_ihl [OF assms(4)] len
    by (simp add: rebuild_header_def Let_def IP_OPT_HASH_LEN_user_def)
qed

section \<open>Safety\<close>





section \<open>The verdict on a packet with the hash option\<close>

lemma patch_append_left: "i + length bs \<le> length h \<Longrightarrow> patch (h @ x) i bs = patch h i bs @ x"
  by (simp add: patch_def)

lemma reset_fields_append: "12 \<le> length h \<Longrightarrow> reset_fields (h @ x) = reset_fields h @ x"
  by (auto simp: reset_fields_def patch_append_left nth_append list_update_append)

lemma nth_reset:
  assumes "12 \<le> length h" "i < length h" "i \<notin> {0, 2, 3, 10, 11}"
  shows "reset_fields h ! i = h ! i"
proof -
  have "0 < i" "\<not> (2 \<le> i \<and> i < 2 + 2)" "\<not> (10 \<le> i \<and> i < 10 + 2)" using assms(3) by auto
  then show ?thesis using assms by (auto simp: reset_fields_def nth_patch)
qed

definition verdict_of :: "mem \<Rightarrow> mem \<Rightarrow> mem \<Rightarrow> verdict" where
  "verdict_of received computed header =
     (if received = computed then Hash_Match received computed else Hash_Mismatch received computed header)"

lemma verify_packet_option:
  assumes len: "length e = 14" "length H = 56" "length junk = 60"
    and type: "e ! 12 = 8" "e ! 13 = 0" and ihl: "ihl_of (H ! 0) = 14"
    and opt: "H ! 20 = 25" "H ! 21 = 36"
  shows "let orig = take 20 (reset_fields H) in
    verify_packet sha256 junk (e @ H @ r) =
      Some (verdict_of (take 32 (drop 24 H)) (sha256 (SECRET_KEY_user @ orig)) orig)"
proof -
  let ?p = "e @ H @ r" and ?orig = "take 20 (reset_fields H)"
  have t: "ld16 ?p 12 = Some (le16 8 0)" using len type by (simp add: ld16_def nth_append)
  have ty: "bpf_ntohs (le16 8 0) = ETH_P_IP"
    by (simp add: byte_order_defs) (simp add: ETH_P_IP_def le16_def)
  have n0: "?p ! 14 = H ! 0" "?p ! 34 = 25" "?p ! 35 = 36" using len opt by (simp_all add: nth_append)
  have b0: "ld8 ?p 14 = Some (H ! 0)" "ld8 ?p 34 = Some 25" using len n0 by (simp_all add: ld8_def)
  have hash: "is_hash_at ?p 34 70" using n0 by (simp add: is_hash_at_def)
  then have hit: "hash_option_at ?p 34 70 = Some True" using len by (simp add: hash_option_at_iff)
  then have find: "find_hash ?p 34 70 = Some (Some 38)" using b0 by (subst find_hash.simps) simp
  let ?R = "reset_fields H @ drop 56 junk"
  have "?R ! 20 = 25" "?R ! 21 = 36" using len opt by (simp_all add: nth_append nth_reset)
  then have "hash_option_at ?R 20 56 = Some True"
    using len by (simp add: hash_option_at_iff is_hash_at_def)
  then have rem: "remove_hash ?R 20 56 = Some ?R"
    by (subst remove_hash.simps) (simp add: IP_OPT_HASH_LEN_user_def)
  have "take 56 (drop 14 ?p) = H" using len by simp
  then have reb: "rebuild_header junk ?p 14 56 = Some (?R, 20)"
    using rebuild_header_eq [of 14 56 ?p junk] len n0 ihl rem by (simp add: reset_fields_append)
  have comp: "compute_keyed_hash_user sha256 ?R 20 = Some (sha256 (SECRET_KEY_user @ ?orig))"
    using compute_keyed_hash_user_input [of 20 ?R] len by simp
  have rec: "ldn ?p 38 32 = Some (take 32 (drop 24 H))" using len by (simp add: ldn_def)
  show ?thesis
    using t ty b0 ihl find reb comp rec len
    by (simp add: verify_packet_def Let_def verdict_of_def)
qed

text \<open>
  C6: only for packets whose IP header has exactly 56 bytes with the hash option directly behind the
  fixed part, so that it is the only option (which is what the kernel program sends): the verifier
  reports a match exactly when the 32 bytes of the option are the digest, under the key of
  \<^verbatim>\<open>hash_verifier.c\<close>, of the header with the option removed, \<^verbatim>\<open>ihl\<close> and total length restored and
  the checksum zero. So an altered header field goes unnoticed only by a collision of the digest.
  With other options the claim does not hold, as \<open>verifier_nop_divergence\<close> shows.
\<close>

theorem verifier_match_iff:
  assumes "length e = 14" "length H = 56" "length junk = 60" "e ! 12 = 8" "e ! 13 = 0"
    and "ihl_of (H ! 0) = 14" "H ! 20 = 25" "H ! 21 = 36"
  shows "(\<exists>r c. verify_packet sha256 junk (e @ H @ payload) = Some (Hash_Match r c)) \<longleftrightarrow>
    take 32 (drop 24 H) = sha256 (SECRET_KEY_user @ take 20 (reset_fields H))"
  using verify_packet_option [OF assms, of sha256 payload] by (auto simp: Let_def verdict_of_def)

theorem verifier_match_iff_witness:
  "\<exists>r c. verify_packet (\<lambda>_. replicate 32 7) (replicate 60 0)
     ((replicate 12 1 @ [8, 0]) @ (0x4E # replicate 19 3 @ [25, 36, 0x12, 0x34] @ replicate 32 7) @ []) =
     Some (Hash_Match r c)"
  using verifier_match_iff [of "replicate 12 1 @ [8, 0]" "0x4E # replicate 19 3 @ [25, 36, 0x12, 0x34] @ replicate 32 7"
      "replicate 60 0" "\<lambda>_. replicate 32 7" "[]"]
  by (simp add: nth_append ihl_of_def)

text \<open>
  the two option loops disagree about padding. When a no-operation byte precedes the hash option,
  the first loop skips it and finds the option, while the second loop takes the option type for the
  length of the no-operation, jumps into the digest and, unless it happens to find an option there,
  leaves the option in the header that is then hashed.
\<close>

theorem verifier_nop_divergence:
  assumes "length e = 14" "length H = 60" "H ! 20 = 1" "H ! 21 = 25" "H ! 22 = 36"
    and "H ! 45 \<noteq> 25" "15 \<le> unat (H ! 46)"
  shows "find_hash (e @ H @ r) 34 74 = Some (Some 39) \<and> remove_hash H 20 60 = Some H"
proof
  let ?p = "e @ H @ r"
  have n: "?p ! 34 = 1" "?p ! 35 = 25" "?p ! 36 = 36" using assms by (simp_all add: nth_append)
  have "hash_option_at ?p 35 74 = Some True"
    using assms n by (simp add: hash_option_at_iff is_hash_at_def)
  then have "find_hash ?p 35 74 = Some (Some 39)"
    using assms n by (subst find_hash.simps) (simp add: ld8_def)
  then show "find_hash ?p 34 74 = Some (Some 39)"
    using assms n by (subst find_hash.simps) (simp add: ld8_def)
  have no: "hash_option_at H 20 60 = Some False" "hash_option_at H 45 60 = Some False"
    using assms by (simp_all add: hash_option_at_iff is_hash_at_def)
  have "remove_hash H (45 + (if H ! 46 = 0 then 1 else unat (H ! 46))) 60 = Some H"
    using assms(7) by (subst remove_hash.simps) auto
  then have "remove_hash H 45 60 = Some H"
    using assms no by (subst remove_hash.simps) (simp add: ld8_def)
  then show "remove_hash H 20 60 = Some H"
    using assms no by (subst remove_hash.simps) (simp add: ld8_def)
qed

theorem verifier_nop_divergence_witness:
  "find_hash (replicate 14 0 @ (0x4F # replicate 19 0 @ [1, 25, 36] @ replicate 37 200) @ []) 34 74 = Some (Some 39)"
  using verifier_nop_divergence [of "replicate 14 0" "0x4F # replicate 19 0 @ [1, 25, 36] @ replicate 37 200" "[]"]
  by (simp add: nth_append)

end
