(* ===== verification/End_To_End.thy ===== *)
theory End_To_End
  imports Hash_Kern_Props Hash_Verifier_Props
begin

text \<open>
  The sender \<^verbatim>\<open>xdp_prog_kern_02.c\<close> and the verifier \<^verbatim>\<open>hash_verifier.c\<close> together: a packet that the
  kernel program has authenticated, as the verifier sees it.
\<close>

lemma low_nibble: "((b AND 0xF0) OR 14) AND 0xf = (14::u8)"
proof -
  have "((b AND 0xF0) OR 14) AND 0xf = (b AND (0xF0 AND 0xf)) OR ((14::u8) AND 0xf)"
    by (simp only: bit.conj_disj_distrib2 and.assoc)
  then show ?thesis by simp
qed

lemma split_nibbles: "(b AND 0xF0) OR (b AND 0xf) = (b::u8)"
proof -
  have "(b AND 0xF0) OR (b AND 0xf) = b AND (0xF0 OR 0xf)" by (simp only: bit.conj_disj_distrib)
  also have "(0xF0 OR 0xf :: u8) = -1" by simp
  finally show ?thesis by simp
qed

text \<open>The verifier rebuilds exactly the header that was hashed.\<close>

lemma reset_option_header:
  assumes len: "length h = 20" "length hash = 32" and ihl: "ihl_of (h ! 0) = 5"
    and check: "h ! 10 = 0" "h ! 11 = 0"
  shows "take 20 (reset_fields (option_header h hash)) = h"
proof (rule nth_equalityI)
  let ?H = "option_header h hash"
  have lH: "length ?H = 56" using len by simp
  show "length (take 20 (reset_fields ?H)) = length h" using len lH by simp
  fix i assume "i < length (take 20 (reset_fields ?H))"
  then have i: "i < 20" using lH by simp
  have R: "reset_fields ?H =
      patch (patch (?H[0 := (?H ! 0 AND 0xF0) OR (((?H ! 0 AND 0xf) - 9) AND 0xf)]) 2
        (le16_bytes (bpf_htons (bpf_ntohs (le16 (?H ! 2) (?H ! 3)) - 36)))) 10 [0, 0]"
    by (rule reset_fields_def)
  have H0: "?H ! 0 = (h ! 0 AND 0xF0) OR 14" using len by (simp add: nth_option_header nth_grown)
  have h0: "h ! 0 AND 0xf = 5"
    using ihl word_unat_eq_iff [of "h ! 0 AND 0xf" 5] by (simp add: ihl_of_def)
  have 0: "reset_fields ?H ! 0 = h ! 0"
    using len lH split_nibbles [of "h ! 0"] by (simp add: R nth_patch H0 low_nibble h0)
  have w: "le16_bytes (bpf_htons (bpf_ntohs (le16 (?H ! 2) (?H ! 3)) - 36)) = [h ! 2, h ! 3]"
    using option_header_fields(3) [OF len] by (simp add: byte_order_defs)
  have 23: "reset_fields ?H ! 2 = h ! 2" "reset_fields ?H ! 3 = h ! 3"
    using len lH by (simp_all add: R w nth_patch)
  have c: "reset_fields ?H ! 10 = 0" "reset_fields ?H ! 11 = 0"
    using lH by (simp_all add: R nth_patch)
  show "take 20 (reset_fields ?H) ! i = h ! i"
  proof (cases "i \<in> {0, 2, 3, 10, 11}")
    case True
    then show ?thesis using 0 23 c check by auto
  next
    case False
    then have "i \<in> {1} \<union> {4..9} \<union> {12..19}" using i by auto
    then have "?H ! i = h ! i" by (rule option_header_fields(4) [OF len])
    then show ?thesis using False i lH by (simp add: nth_reset)
  qed
qed

text \<open>
  C2: sender and verifier together. The packet that \<^verbatim>\<open>xdp_ip_hash_func\<close> passes on is taken apart by
  the verifier into the very header that the kernel hashed, with the received digest that of the
  kernel's key bytes and the computed digest that of the verifier's key followed by the same header.
  The verdict is therefore a match exactly when the two digests agree; and since the kernel repeats
  the second key byte where the verifier uses the whole key, the two hashed messages always differ,
  so that an authentic packet matches only by a collision.
\<close>

theorem authenticated_packet_verdict:
  assumes adj: "head_adjust adj"
    and p: "pkt ctx = e @ h @ r" and len: "length e = 14" "length h = 20"
    and type: "e ! 12 = 8" "e ! 13 = 0" and ihl: "ihl_of (h ! 0) = 5"
    and h0: "length hash0 = 32" and wf: "kern_wf k" and junk: "length junk = 60"
    and room: "adj (ctx\<lparr>pkt := e @ zero_check h @ r\<rparr>) (- 36) = (0, ctx1)"
  shows "\<exists>ctx2 k'. xdp_ip_hash_func adj hash0 ctx k = Some (XDP_PASS, ctx2, k') \<and>
    verify_packet sha256 junk (pkt ctx2) =
      Some (verdict_of (sha256_spec (kern_key @ zero_check h))
                       (sha256 (SECRET_KEY_user @ zero_check h)) (zero_check h)) \<and>
    kern_key @ zero_check h \<noteq> SECRET_KEY_user @ zero_check h"
proof -
  let ?z = "zero_check h" and ?hash = "sha256_spec (kern_key @ zero_check h)"
  let ?H = "option_header ?z ?hash"
  have eth: "parse_ethhdr (pkt ctx) \<lparr>pos = 0\<rparr> = Some (uint (bpf_htons ETH_P_IP), \<lparr>pos = length e\<rparr>, Some 0)"
    unfolding p using len type by (intro parse_untagged_ipv4)
  obtain k' where k': "xdp_ip_hash_func adj hash0 ctx k = Some (XDP_PASS, ctx1\<lparr>pkt := e @ ?H @ r\<rparr>, k')"
    using xdp_ip_hash_func_ipv4 [OF adj p len(2) eth _ _ h0 wf refl len(1) _ room] len ihl by auto
  have z: "length ?z = 20" "length ?hash = 32" "ihl_of (?z ! 0) = 5" "?z ! 10 = 0" "?z ! 11 = 0"
    using len ihl by (simp_all add: nth_zero_check)
  note opt = option_header_option [OF z(1,2)]
  have "?H ! (20 + i) = hash_option ?hash ! i" if "i < 36" for i
    using that z unfolding opt [symmetric] by simp
  from this [of 0] this [of 1] have id: "?H ! 20 = 25" "?H ! 21 = 36" by (simp_all add: hash_option_def)
  have "drop 24 ?H = drop 4 (drop 20 ?H)" by simp
  also have "\<dots> = ?hash" unfolding opt by (simp add: hash_option_def)
  finally have rec: "take 32 (drop 24 ?H) = ?hash" by simp
  have key: "kern_key \<noteq> SECRET_KEY_user"
    by (simp add: kern_key_def SECRET_KEY_def SECRET_KEY_user_def numeral_eq_Suc)
  show ?thesis
    using key verify_packet_option [OF len(1) _ junk type _ id, of sha256 r] k' z rec
      option_header_fields(1) [OF z(1,2)] reset_option_header [OF z]
    by (simp add: Let_def)
qed

theorem authenticated_packet_verdict_witness:
  "\<exists>ctx2 k'. xdp_ip_hash_func frame_adjust_head (replicate 32 0)
      \<lparr>room = replicate 36 0, pkt = (replicate 12 1 @ [8, 0]) @ (0x45 # replicate 19 7) @ [1, 2]\<rparr>
      kern_fresh = Some (XDP_PASS, ctx2, k') \<and>
    verify_packet sha256_spec (replicate 60 0) (pkt ctx2) =
      Some (verdict_of (sha256_spec (kern_key @ zero_check (0x45 # replicate 19 7)))
         (sha256_spec (SECRET_KEY_user @ zero_check (0x45 # replicate 19 7))) (zero_check (0x45 # replicate 19 7)))"
proof -
  let ?e = "replicate 12 1 @ [8, 0] :: mem" and ?h = "0x45 # replicate 19 7 :: mem"
  let ?ctx = "\<lparr>room = replicate 36 0, pkt = ?e @ ?h @ [1, 2]\<rparr> :: xdp_md"
  have "\<exists>c. frame_adjust_head (?ctx\<lparr>pkt := ?e @ zero_check ?h @ [1, 2]\<rparr>) (- 36) = (0, c)"
    by (simp add: frame_adjust_head_def)
  then obtain c where c: "frame_adjust_head (?ctx\<lparr>pkt := ?e @ zero_check ?h @ [1, 2]\<rparr>) (- 36) = (0, c)" ..
  have ihl: "ihl_of (?h ! 0) = 5" by (simp add: ihl_of_def)
  show ?thesis
    using authenticated_packet_verdict [OF fah.head_adjust_axioms _ _ _ _ _ ihl _ kern_wf_fresh _ c,
        of "replicate 32 0" "replicate 60 0" sha256_spec]
    by (auto simp: nth_append)
qed

end
