(* ===== verification/Patch_Ports.thy ===== *)
theory Patch_Ports
  imports Stats_Kern
begin

text \<open>
  The second configuration of \<^verbatim>\<open>xdp_prog_kern_02.c\<close> (its \<^verbatim>\<open>#else\<close> branch): \<^verbatim>\<open>xdp_patch_ports_func\<close>,
  which decrements the destination port of UDP and TCP packets and updates the checksum in place,
  and \<^verbatim>\<open>xdp_pass_func\<close>.
\<close>

section \<open>Model\<close>

definition IPPROTO_TCP :: int where "IPPROTO_TCP = 6"

definition IPPROTO_UDP :: int where "IPPROTO_UDP = 17"

text \<open>
  The update of the \<^verbatim>\<open>dest\<close> and \<^verbatim>\<open>check\<close> fields, at the offsets \<open>dest\<close> and \<open>check\<close>. The additions to
  \<^verbatim>\<open>check\<close> are made on the field as it is stored, in network byte order.
\<close>

definition patch_port :: "mem \<Rightarrow> nat \<Rightarrow> nat \<Rightarrow> mem option" where
  "patch_port p dest check =
     do {
       d \<leftarrow> ld16 p dest;
       p1 \<leftarrow> st16 p dest (bpf_htons (bpf_ntohs d - 1));
       c \<leftarrow> ld16 p1 check;
       p2 \<leftarrow> st16 p1 check (c + bpf_htons 1);
       c2 \<leftarrow> ld16 p2 check;
       if c2 = 0 then st16 p2 check (c2 + bpf_htons 1) else Some p2
     }"

definition patch_ports_action :: "xdp_md \<Rightarrow> (u32 \<times> xdp_md) option" where
  "patch_ports_action ctx =
     do {
       (eth_type, nh, _) \<leftarrow> parse_ethhdr (pkt ctx) \<lparr>pos = 0\<rparr>;
       if eth_type < 0 then Some (XDP_ABORTED, ctx)
       else if eth_type \<noteq> uint (bpf_htons ETH_P_IP) \<and> eth_type \<noteq> uint (bpf_htons ETH_P_IPV6)
       then Some (XDP_PASS, ctx)
       else do {
         (ip_type, nh2, _) \<leftarrow> (if eth_type = uint (bpf_htons ETH_P_IP)
                              then parse_iphdr (pkt ctx) nh else parse_ip6hdr (pkt ctx) nh);
         if ip_type = IPPROTO_UDP then do {
           (r, _, udphdr) \<leftarrow> parse_udphdr (pkt ctx) nh2;
           if r < 0 then Some (XDP_ABORTED, ctx)
           else do {
             h \<leftarrow> udphdr;
             p \<leftarrow> patch_port (pkt ctx) (h + 2) (h + 6);
             Some (XDP_PASS, ctx\<lparr>pkt := p\<rparr>)
           }
         }
         else if ip_type = IPPROTO_TCP then do {
           (r, _, tcphdr) \<leftarrow> parse_tcphdr (pkt ctx) nh2;
           if r < 0 then Some (XDP_ABORTED, ctx)
           else do {
             h \<leftarrow> tcphdr;
             p \<leftarrow> patch_port (pkt ctx) (h + 2) (h + 16);
             Some (XDP_PASS, ctx\<lparr>pkt := p\<rparr>)
           }
         }
         else Some (XDP_PASS, ctx)
       }
     }"

definition xdp_patch_ports_func :: "xdp_md \<Rightarrow> datarec list \<Rightarrow> (u32 \<times> xdp_md \<times> datarec list) option" where
  "xdp_patch_ports_func ctx m =
     do {
       (action, ctx') \<leftarrow> patch_ports_action ctx;
       let (ret, m') = xdp_stats_record_action ctx' action m;
       Some (ret, ctx', m')
     }"

definition xdp_pass_func :: "xdp_md \<Rightarrow> u32" where
  "xdp_pass_func ctx = XDP_PASS"

section \<open>One port\<close>

text \<open>The port and the checksum as numbers, most significant byte first.\<close>

definition net16 :: "mem \<Rightarrow> nat \<Rightarrow> nat" where
  "net16 p i = unat (bpf_ntohs (le16 (p ! i) (p ! (i + 1))))"

lemma net16_bytes: "net16 p i = 256 * unat (p ! i) + unat (p ! (i + 1))"
  by (simp add: net16_def byte_order_defs unat_le16)

lemma htons_1: "bpf_htons 1 = le16 0 1"
  by (simp add: byte_order_defs bpf_swab16_def bpf_mvb16_def le16_def)

text \<open>Adding \<^verbatim>\<open>bpf_htons(1)\<close> increments the second byte and loses its carry.\<close>

lemma add_htons_1: "le16 a b + bpf_htons 1 = le16 a (b + 1)"
proof -
  have "unat (bpf_htons 1) = 256" by (simp add: htons_1 unat_le16)
  then have "unat (le16 a b + bpf_htons 1) = (unat (le16 a b) + 256) mod 65536"
    by (simp add: unat_word_ariths)
  also have "unat (le16 a b) + 256 = unat a + 256 * (unat b + 1)" by (simp add: unat_le16)
  also have "(unat a + 256 * (unat b + 1)) mod 65536 = unat a + 256 * ((unat b + 1) mod 256)"
    using mod_mult2_eq [of "unat a + 256 * (unat b + 1)" 256 256] unat_lt_8 [of a]
    by (simp del: mult_Suc_right add_mult_distrib2)
  also have "\<dots> = unat (le16 a (b + 1))"
    by (simp add: unat_le16 unat_word_ariths add.commute)
  finally show ?thesis by (simp add: word_unat_eq_iff)
qed

lemma le16_zero_iff: "le16 a b = 0 \<longleftrightarrow> a = 0 \<and> b = 0"
proof -
  have "le16 0 0 = 0" by (simp add: le16_def)
  then show ?thesis by (metis le16_eq_iff)
qed

definition next_check :: "u8 \<Rightarrow> u8 \<Rightarrow> mem" where
  "next_check a b = (if a = 0 \<and> b + 1 = 0 then [0, 1] else [a, b + 1])"

lemma patch_port_result:
  assumes "dest + 2 \<le> check" "check + 2 \<le> length p"
  shows "patch_port p dest check =
    Some (patch (patch p dest (le16_bytes (bpf_htons (bpf_ntohs (le16 (p ! dest) (p ! (dest + 1))) - 1))))
       check (next_check (p ! check) (p ! (check + 1))))"
proof -
  define p1 where "p1 = patch p dest (le16_bytes (bpf_htons (bpf_ntohs (le16 (p ! dest) (p ! (dest + 1))) - 1)))"
  have l1: "length p1 = length p" using assms by (simp add: p1_def)
  have nth: "p1 ! check = p ! check" "p1 ! (check + 1) = p ! (check + 1)"
    using assms by (simp_all add: p1_def nth_patch)
  let ?a = "p ! check" and ?b = "p ! (check + 1)"
  have ld: "ld16 p1 check = Some (le16 ?a ?b)" using assms l1 nth by (simp add: mem_simps)
  have st: "st16 p1 check (le16 ?a ?b + bpf_htons 1) = Some (patch p1 check [?a, ?b + 1])"
    using assms l1 by (simp add: mem_simps add_htons_1)
  let ?p2 = "patch p1 check [?a, ?b + 1]"
  have l2: "length ?p2 = length p" using assms l1 by simp
  have ld2: "ld16 ?p2 check = Some (le16 ?a (?b + 1))"
    using assms l1 l2 by (simp add: mem_simps nth_patch)
  have "patch ?p2 check xs = patch p1 check xs" if "length xs = 2" for xs
    using that assms l1 by (simp add: patch_def)
  then have st2: "st16 ?p2 check (le16 0 0 + bpf_htons 1) = Some (patch p1 check [0, 1])"
    using assms l2 by (simp add: mem_simps add_htons_1)
  have "ld16 p dest = Some (le16 (p ! dest) (p ! (dest + 1)))"
    "st16 p dest (bpf_htons (bpf_ntohs (le16 (p ! dest) (p ! (dest + 1))) - 1)) = Some p1"
    using assms by (simp_all add: mem_simps p1_def)
  then show ?thesis
    using ld st ld2 st2 unfolding p1_def [symmetric]
    by (auto simp: patch_port_def next_check_def le16_zero_iff)
qed

lemma net16_patched:
  assumes "dest + 2 \<le> check" "check + 2 \<le> length p" "patch_port p dest check = Some p'"
  shows "net16 p' dest = (net16 p dest + 65535) mod 65536"
    and "net16 p' check = (if net16 p check = 255 then 1
      else if net16 p check mod 256 = 255 then net16 p check - 255 else net16 p check + 1)"
    and "length p' = length p"
    and "i < length p \<Longrightarrow> i \<notin> {dest, dest + 1, check, check + 1} \<Longrightarrow> p' ! i = p ! i"
proof -
  let ?d = "bpf_ntohs (le16 (p ! dest) (p ! (dest + 1)))"
  define a b where ab: "a = p ! check" "b = p ! (check + 1)"
  have len: "length (next_check a b) = 2" by (simp add: next_check_def)
  have p': "p' = patch (patch p dest (le16_bytes (bpf_htons (?d - 1)))) check (next_check a b)"
    using patch_port_result [OF assms(1,2)] assms(3) by (simp add: ab)
  show "length p' = length p" using assms len by (simp add: p')
  have d: "p' ! dest = le16_bytes (bpf_htons (?d - 1)) ! 0" "p' ! (dest + 1) = le16_bytes (bpf_htons (?d - 1)) ! 1"
    using assms len by (simp_all add: p' nth_patch)
  have "le16 (p' ! dest) (p' ! (dest + 1)) = bpf_htons (?d - 1)"
    unfolding d by (simp add: le16_bytes_def)
  then have "net16 p' dest = unat (?d - 1)" by (simp add: net16_def byte_order_defs)
  also have "\<dots> = (unat ?d + 65535) mod 65536"
  proof -
    have "?d - 1 = ?d + 65535" by simp
    then show ?thesis by (simp only: unat_word_ariths) simp
  qed
  finally show "net16 p' dest = (net16 p dest + 65535) mod 65536" by (simp add: net16_def)
  have c: "p' ! check = next_check a b ! 0" "p' ! (check + 1) = next_check a b ! 1"
    using assms len by (simp_all add: p' nth_patch)
  have b1: "unat (b + 1) = (if unat b = 255 then 0 else unat b + 1)"
    using unat_lt_8 [of b] by (auto simp: unat_word_ariths)
  have z: "a = 0 \<longleftrightarrow> unat a = 0" "b + 1 = 0 \<longleftrightarrow> unat b = 255"
    using b1 by (auto simp: unat_eq_zero split: if_splits)
  have m: "net16 p check mod 256 = unat b" using unat_lt_8 [of b] by (simp add: net16_bytes ab)
  have n: "net16 p check = 256 * unat a + unat b" unfolding ab by (rule net16_bytes)
  have e: "256 * unat a + unat b = 255 \<longleftrightarrow> unat a = 0 \<and> unat b = 255"
    using unat_lt_8 [of b] by presburger
  have n': "net16 p' check = 256 * unat (next_check a b ! 0) + unat (next_check a b ! 1)"
    by (simp only: net16_bytes c)
  show "net16 p' check = (if net16 p check = 255 then 1
      else if net16 p check mod 256 = 255 then net16 p check - 255 else net16 p check + 1)"
    unfolding m unfolding n n' using unat_lt_8 [of a] unat_lt_8 [of b]
    by (auto simp: next_check_def z b1 e)
  show "p' ! i = p ! i" if "i < length p" "i \<notin> {dest, dest + 1, check, check + 1}"
  proof -
    have "\<not> (dest \<le> i \<and> i < dest + 2)" "\<not> (check \<le> i \<and> i < check + 2)" using that(2) by auto
    then show ?thesis using that(1) assms len by (auto simp: p' nth_patch)
  qed
qed

lemma mod_65535_shift:
  fixes a b :: nat
  assumes "a \<noteq> b" "a < b + 65535" "b < a + 65535"
  shows "a mod 65535 \<noteq> b mod 65535"
proof
  assume "a mod 65535 = b mod 65535"
  then have "int 65535 dvd int a - int b" by (metis mod_eq_dvd_iff of_nat_mod)
  then obtain z where "int a - int b = 65535 * z" by (auto elim!: dvdE)
  then have "\<bar>65535 * z\<bar> < 65535" "z \<noteq> 0" using assms by linarith+
  then show False by linarith
qed

text \<open>
  C12: \<^verbatim>\<open>xdp_patch_ports\<close> decrements the port modulo 65536, touches only the port and the checksum,
  and keeps the Internet checksum of the packet valid exactly when the port is not zero and the low
  byte of the checksum, in network order, is not \<^verbatim>\<open>0xff\<close>: \<^verbatim>\<open>check += bpf_htons(1)\<close> adds to the
  stored low byte and drops the carry, so in the other cases the result no longer sums up.
\<close>

theorem patch_port_checksum:
  assumes "dest + 2 \<le> check" "check + 2 \<le> length p"
  shows "\<exists>p'. patch_port p dest check = Some p' \<and> length p' = length p \<and>
    (\<forall>i<length p. i \<notin> {dest, dest + 1, check, check + 1} \<longrightarrow> p' ! i = p ! i) \<and>
    net16 p' dest = (net16 p dest + 65535) mod 65536 \<and>
    ((net16 p' dest + net16 p' check) mod 65535 = (net16 p dest + net16 p check) mod 65535
      \<longleftrightarrow> net16 p dest \<noteq> 0 \<and> net16 p check mod 256 \<noteq> 255)"
proof -
  obtain p' where p': "patch_port p dest check = Some p'"
    using patch_port_result [OF assms] by blast
  note n = net16_patched [OF assms p']
  let ?D = "net16 p dest" and ?C = "net16 p check"
  have lt: "?D < 65536" "?C < 65536" unfolding net16_def by (rule unat_lt_16)+
  have ge: "255 \<le> ?C" if "?C mod 256 = 255" using that by (metis mod_less_eq_dividend)
  have "(net16 p' dest + net16 p' check) mod 65535 = (?D + ?C) mod 65535
      \<longleftrightarrow> ?D \<noteq> 0 \<and> ?C mod 256 \<noteq> 255"
  proof (cases "?D = 0")
    case True
    then have D': "net16 p' dest = 65535" using n(1) by simp
    have "(net16 p' check) mod 65535 \<noteq> ?C mod 65535"
      using n(2) ge lt by (intro mod_65535_shift) (auto split: if_splits)
    then show ?thesis using True by (simp add: D' mod_add_left_eq [of 65535, symmetric])
  next
    case False
    then have D': "net16 p' dest = ?D - 1" using n(1) lt(1) by (simp add: mod_if)
    show ?thesis
    proof (cases "?C mod 256 = 255")
      case True
      have "(?D - 1 + net16 p' check) mod 65535 \<noteq> (?D + ?C) mod 65535"
        using n(2) ge [OF True] True False by (intro mod_65535_shift) (auto split: if_splits)
      then show ?thesis using True D' by simp
    next
      case f: False
      then have "net16 p' check = ?C + 1" using n(2) by auto
      then show ?thesis using False f D' by simp
    qed
  qed
  then show ?thesis using p' n by (intro exI [of _ p']) simp
qed

theorem patch_port_checksum_witness:
  "\<exists>p'. patch_port [0, 0, 0, 80, 0, 8, 0x12, 0xff] 2 6 = Some p' \<and> net16 p' 2 = 79 \<and>
     (net16 p' 2 + net16 p' 6) mod 65535 \<noteq> (80 + 0x12ff) mod 65535"
proof -
  have n: "net16 [0, 0, 0, 80, 0, 8, 0x12, 0xff] 2 = 80" "net16 [0, 0, 0, 80, 0, 8, 0x12, 0xff] 6 = 0x12ff"
    by (simp_all add: net16_bytes)
  show ?thesis
    using patch_port_checksum [of 2 6 "[0, 0, 0, 80, 0, 8, 0x12, 0xff]"] by (auto simp: n)
qed

section \<open>The program\<close>

lemma patch_port_total:
  assumes "dest + 2 \<le> check" "check + 2 \<le> length p"
  shows "\<exists>p'. patch_port p dest check = Some p' \<and> length p' = length p"
  using patch_port_result [OF assms] assms by (simp add: next_check_def)

lemma udp_action_total:
  "\<exists>a ctx'. do { (r, _, udphdr) \<leftarrow> parse_udphdr (pkt ctx) nh;
       if r < 0 then Some (XDP_ABORTED, ctx)
       else do { h \<leftarrow> udphdr; p \<leftarrow> patch_port (pkt ctx) (h + 2) (h + 6); Some (XDP_PASS, ctx\<lparr>pkt := p\<rparr>) } }
     = Some (a, ctx') \<and> a \<in> {XDP_ABORTED, XDP_PASS} \<and> length (pkt ctx') = length (pkt ctx) \<and> room ctx' = room ctx"
proof (cases rule: udp.cases_result [of "pkt ctx" nh])
  case (1 r nh')
  then obtain p where "patch_port (pkt ctx) (pos nh + 2) (pos nh + 6) = Some p" "length p = length (pkt ctx)"
    using patch_port_total [of "pos nh + 2" "pos nh + 6" "pkt ctx"] by auto
  then show ?thesis using 1 by simp
qed auto

lemma tcp_action_total:
  "\<exists>a ctx'. do { (r, _, tcphdr) \<leftarrow> parse_tcphdr (pkt ctx) nh;
       if r < 0 then Some (XDP_ABORTED, ctx)
       else do { h \<leftarrow> tcphdr; p \<leftarrow> patch_port (pkt ctx) (h + 2) (h + 16); Some (XDP_PASS, ctx\<lparr>pkt := p\<rparr>) } }
     = Some (a, ctx') \<and> a \<in> {XDP_ABORTED, XDP_PASS} \<and> length (pkt ctx') = length (pkt ctx) \<and> room ctx' = room ctx"
proof (cases rule: tcp.cases_result [of "pkt ctx" nh])
  case (1 r nh')
  then obtain p where "patch_port (pkt ctx) (pos nh + 2) (pos nh + 16) = Some p" "length p = length (pkt ctx)"
    using patch_port_total [of "pos nh + 2" "pos nh + 16" "pkt ctx"] by auto
  then show ?thesis using 1 by simp
qed auto

lemma patch_ports_action_total:
  "\<exists>a ctx'. patch_ports_action ctx = Some (a, ctx') \<and> a \<in> {XDP_ABORTED, XDP_PASS} \<and>
     length (pkt ctx') = length (pkt ctx) \<and> room ctx' = room ctx"
proof -
  obtain t nh eth where eth: "parse_ethhdr (pkt ctx) \<lparr>pos = 0\<rparr> = Some (t, nh, eth)"
    using eth.no_fault by blast
  obtain r nh2 ip where ip: "(if t = uint (bpf_htons ETH_P_IP) then parse_iphdr (pkt ctx) nh
      else parse_ip6hdr (pkt ctx) nh) = Some (r, nh2, ip)"
    using ip4.no_fault ip6.no_fault by metis
  show ?thesis
    using eth ip udp_action_total [of ctx nh2] tcp_action_total [of ctx nh2]
    by (auto simp: patch_ports_action_def)
qed

text \<open>
  C13: \<^verbatim>\<open>xdp_patch_ports_func\<close> ends on every packet without an access outside it, only passes or
  aborts, keeps the packet's length and position in its frame, and counts one packet of that length.
\<close>

theorem xdp_patch_ports_safe:
  assumes "length m = 5"
  shows "\<exists>a ctx' m'. xdp_patch_ports_func ctx m = Some (a, ctx', m') \<and> a \<in> {XDP_ABORTED, XDP_PASS} \<and>
    length (pkt ctx') = length (pkt ctx) \<and> room ctx' = room ctx \<and>
    m' = m[unat a := (m ! unat a)\<lparr>rx_packets := rx_packets (m ! unat a) + 1,
                     rx_bytes := rx_bytes (m ! unat a) + ucast (word_of_nat (length (pkt ctx)) :: u32)\<rparr>]"
proof -
  obtain a ctx' where a: "patch_ports_action ctx = Some (a, ctx')" "a \<in> {XDP_ABORTED, XDP_PASS}"
    "length (pkt ctx') = length (pkt ctx)" "room ctx' = room ctx"
    using patch_ports_action_total [of ctx] by blast
  have "a < 5" using a(2) by (auto simp: action_defs)
  then show ?thesis
    using a assms by (simp add: xdp_patch_ports_func_def xdp_stats_valid)
qed

theorem xdp_patch_ports_safe_witness:
  "\<exists>a ctx' m'. xdp_patch_ports_func \<lparr>room = [], pkt = replicate 60 6\<rparr> (replicate 5 \<lparr>rx_packets = 0, rx_bytes = 0\<rparr>)
     = Some (a, ctx', m') \<and> length (pkt ctx') = 60"
  using xdp_patch_ports_safe [of "replicate 5 \<lparr>rx_packets = 0, rx_bytes = 0\<rparr>" "\<lparr>room = [], pkt = replicate 60 6\<rparr>"]
  by auto

end
