(* ===== verification/Kern_Debug.thy ===== *)
theory Kern_Debug
  imports Parsing
begin

text \<open>
  The debugging output of \<^verbatim>\<open>xdp_prog_kern_02.c\<close>: \<^verbatim>\<open>print_hex\<close> and \<^verbatim>\<open>dump_ip_header\<close>. The trace pipe is
  the list of the calls of \<^verbatim>\<open>bpf_printk\<close>, each with its format and its arguments.
\<close>

datatype printk = Printk (fmt: string) (args: "nat list")

text \<open>
  The loop of \<^verbatim>\<open>print_hex\<close>: its body reads \<^verbatim>\<open>data[i++]\<close> and the loop header increments \<open>i\<close> again.
\<close>

function print_hex_loop :: "mem \<Rightarrow> nat \<Rightarrow> nat \<Rightarrow> printk list option" where
  "print_hex_loop data len i =
     (if i < len
      then do {
        b \<leftarrow> ld8 data i;
        out \<leftarrow> print_hex_loop data len (i + 1 + 1);
        Some (Printk ''%02x'' [unat b] # out)
      }
      else Some [])"
  by pat_completeness auto
termination
  by (relation "measure (\<lambda>(_, len, i). len - i)") auto

declare print_hex_loop.simps [simp del]

definition print_hex :: "mem \<Rightarrow> nat \<Rightarrow> printk list option" where
  "print_hex data len =
     (if len > 20 then Some []
      else do {
        out \<leftarrow> print_hex_loop data len 0;
        Some (out @ [Printk ''\<newline>'' []])
      })"

text \<open>\<open>p\<close> is the memory, \<open>ip\<close> the offset of the header.\<close>

definition dump_ip_header :: "mem \<Rightarrow> nat \<Rightarrow> printk list option" where
  "dump_ip_header p ip =
     do {
       b0 \<leftarrow> ld8 p ip;
       tos \<leftarrow> ld8 p (ip + 1);
       tot_len \<leftarrow> ld16 p (ip + 2);
       ident \<leftarrow> ld16 p (ip + 4);
       frag_off \<leftarrow> ld16 p (ip + 6);
       ttl \<leftarrow> ld8 p (ip + 8);
       protocol \<leftarrow> ld8 p (ip + 9);
       check \<leftarrow> ld16 p (ip + 10);
       saddr \<leftarrow> ld32 p (ip + 12);
       daddr \<leftarrow> ld32 p (ip + 16);
       Some
        [Printk ''\<newline>=== IP HEADER DUMP ===\<newline>'' [],
         Printk ''Version: %d\<newline>'' [unat (drop_bit 4 b0)],
         Printk ''Header Length: %d bytes\<newline>'' [ihl_of b0 * 4],
         Printk ''Type of Service: 0x%02x\<newline>'' [unat tos],
         Printk ''Total Length: %d bytes\<newline>'' [unat (bpf_swab16 tot_len)],
         Printk ''Identification: 0x%04x\<newline>'' [unat (bpf_swab16 ident)],
         Printk ''Fragment Offset: 0x%04x\<newline>'' [unat (bpf_swab16 frag_off)],
         Printk ''Time to Live: %d\<newline>'' [unat ttl],
         Printk ''Protocol: %d'' [unat protocol],
         Printk ''Header Checksum: 0x%04x\<newline>'' [unat (bpf_swab16 check)],
         Printk ''Source IP: 0x%04x\<newline>'' [unat saddr],
         Printk ''Destination IP: 0x%04x\<newline>'' [unat daddr],
         Printk ''=== END IP HEADER ===\<newline>\<newline>'' []]
     }"

section \<open>Which bytes \<^verbatim>\<open>print_hex\<close> shows\<close>

lemma print_hex_loop_result:
  "len \<le> length data \<Longrightarrow> print_hex_loop data len i =
     Some (map (\<lambda>j. Printk ''%02x'' [unat (data ! (i + 2 * j))]) [0..<(len + 1 - i) div 2])"
proof (induction data len i rule: print_hex_loop.induct)
  case (1 data len i)
  show ?case
  proof (cases "i < len")
    case True
    have n: "(len + 1 - i) div 2 = Suc ((len + 1 - (i + 2)) div 2)" using True by presburger
    have m: "map f [0..<Suc m] = f 0 # map (\<lambda>j. f (Suc j)) [0..<m]" for m and f :: "nat \<Rightarrow> printk"
      unfolding upt_conv_Cons [OF zero_less_Suc] map_Suc_upt [symmetric] by simp
    show ?thesis
      unfolding n m using 1 True by (subst print_hex_loop.simps) (simp add: ld8_def)
  next
    case False
    then have "(len + 1 - i) div 2 = 0" by presburger
    then show ?thesis using False by (subst print_hex_loop.simps) simp
  qed
qed

text \<open>
  \<^verbatim>\<open>print_hex\<close> shows at most half of a buffer: with at most 20 bytes it prints the bytes at even
  positions only, each once and in order, and then a newline; with more it prints nothing at all. In
  neither case does it read outside the buffer.
\<close>

theorem print_hex_every_second_byte:
  assumes "len \<le> length data"
  shows "print_hex data len =
    Some (if len > 20 then []
          else map (\<lambda>j. Printk ''%02x'' [unat (data ! (2 * j))]) [0..<(len + 1) div 2] @ [Printk ''\<newline>'' []])"
  using print_hex_loop_result [OF assms, of 0] by (simp add: print_hex_def)

theorem print_hex_every_second_byte_witness:
  "print_hex [1, 2, 3] 3 = Some [Printk ''%02x'' [1], Printk ''%02x'' [3], Printk ''\<newline>'' []]"
  using print_hex_every_second_byte [of 3 "[1, 2, 3]"] by (simp add: upt_rec [of _ 2] upt_rec [of "Suc 0" 2])

end
