(* ===== verification/User_Bpf.thy ===== *)
theory User_Bpf
  imports Prelude
begin

text \<open>
  \<^verbatim>\<open>common/common_user_bpf_xdp.c\<close> and \<^verbatim>\<open>common/common_defines.h\<close>: what the user space programs share
  for opening pinned maps, checking them, attaching and unloading XDP programs. The calls into
  libbpf, libxdp and the kernel are parameters: functions from the call's arguments to its result.
  A call of \<^verbatim>\<open>exit(n)\<close> is \<open>Inl n\<close>. Messages on \<^verbatim>\<open>stderr\<close> are left out.
\<close>

section \<open>Model\<close>

definition EXIT_OK :: int where "EXIT_OK = 0"
definition EXIT_FAIL :: int where "EXIT_FAIL = 1"
definition EXIT_FAIL_OPTION :: int where "EXIT_FAIL_OPTION = 2"
definition EXIT_FAIL_XDP :: int where "EXIT_FAIL_XDP = 30"
definition EXIT_FAIL_BPF :: int where "EXIT_FAIL_BPF = 40"

definition PATH_MAX :: nat where "PATH_MAX = 4096"

datatype xdp_attach_mode = XDP_MODE_UNSPEC | XDP_MODE_NATIVE | XDP_MODE_SKB | XDP_MODE_HW

text \<open>
  \<^verbatim>\<open>struct config\<close>. A character array keeps all its bytes; the pointers \<^verbatim>\<open>ifname\<close> and
  \<^verbatim>\<open>redirect_ifname\<close> are NULL (\<open>False\<close>) or point to the array beside them.
\<close>

record config =
  attach_mode :: xdp_attach_mode
  xdp_flags :: u32
  ifindex :: int
  ifname_set :: bool
  ifname_buf :: string
  redirect_ifindex :: int
  redirect_ifname_set :: bool
  redirect_ifname_buf :: string
  do_unload_flag :: bool
  prog_id :: u32
  reuse_maps_flag :: bool
  pin_dir :: string
  filename :: string
  progname :: string
  src_mac :: string
  dest_mac :: string
  xsk_bind_flags :: u16
  xsk_if_queue :: int
  xsk_poll_mode :: bool
  unload_all :: bool

text \<open>\<^verbatim>\<open>snprintf(buf, n, ...)\<close> of a text \<open>s\<close> leaves its first \<open>n - 1\<close> characters in \<^verbatim>\<open>buf\<close>.\<close>

definition snprintf :: "nat \<Rightarrow> string \<Rightarrow> string" where
  "snprintf n s = take (n - 1) s"

subsection \<open>Pinned maps\<close>

text \<open>\<open>maps\<close> are the names of the maps of the object. The result is the return value and the maps
  that were given the file descriptor of a pinned map.\<close>

fun reuse_each :: "(string \<Rightarrow> int) \<Rightarrow> (string \<Rightarrow> int \<Rightarrow> int) \<Rightarrow> string \<Rightarrow> string list \<Rightarrow> int \<times> (string \<times> int) list" where
  "reuse_each bpf_obj_get reuse_fd path [] = (0, [])"
| "reuse_each bpf_obj_get reuse_fd path (name # maps) =
     (let full = path @ ''/'' @ name in
      if length full \<ge> PATH_MAX then (- ENAMETOOLONG, [])
      else
        let pinned_map_fd = bpf_obj_get (snprintf PATH_MAX full) in
        if pinned_map_fd < 0 then (pinned_map_fd, [])
        else
          let err = reuse_fd name pinned_map_fd in
          if err \<noteq> 0 then (err, [])
          else
            let (ret, done) = reuse_each bpf_obj_get reuse_fd path maps
            in (ret, (name, pinned_map_fd) # done))"

definition reuse_maps ::
  "(string \<Rightarrow> int) \<Rightarrow> (string \<Rightarrow> int \<Rightarrow> int) \<Rightarrow> string list option \<Rightarrow> string option \<Rightarrow> int \<times> (string \<times> int) list" where
  "reuse_maps bpf_obj_get reuse_fd obj path =
     (case obj of
        None \<Rightarrow> (- ENOENT, [])
      | Some maps \<Rightarrow> (case path of
          None \<Rightarrow> (- EINVAL, [])
        | Some p \<Rightarrow> reuse_each bpf_obj_get reuse_fd p maps))"

record bpf_map_info =
  map_type :: u32
  map_id :: u32
  key_size :: u32
  value_size :: u32
  max_entries :: u32

definition check_map_fd_info :: "bpf_map_info \<Rightarrow> bpf_map_info \<Rightarrow> int" where
  "check_map_fd_info info expd =
     (if key_size expd \<noteq> 0 \<and> key_size expd \<noteq> key_size info then EXIT_FAIL
      else if value_size expd \<noteq> 0 \<and> value_size expd \<noteq> value_size info then EXIT_FAIL
      else if max_entries expd \<noteq> 0 \<and> max_entries expd \<noteq> max_entries info then EXIT_FAIL
      else if map_type expd \<noteq> 0 \<and> map_type expd \<noteq> map_type info then EXIT_FAIL
      else 0)"

text \<open>
  \<open>get_info\<close> stands for \<^verbatim>\<open>bpf_obj_get_info_by_fd\<close>, \<open>None\<close> for an error. \<open>info\<close> is \<open>None\<close> when the
  caller passes NULL, otherwise the contents of its structure.
\<close>

definition open_bpf_map_file ::
  "(string \<Rightarrow> int) \<Rightarrow> (int \<Rightarrow> bpf_map_info option) \<Rightarrow> string \<Rightarrow> string \<Rightarrow> bpf_map_info option \<Rightarrow>
   int \<times> bpf_map_info option" where
  "open_bpf_map_file bpf_obj_get get_info dir mapname info =
     (let fname = snprintf PATH_MAX (dir @ ''/'' @ mapname);
          fd = bpf_obj_get fname
      in if fd < 0 then (fd, info)
         else case info of
           None \<Rightarrow> (fd, None)
         | Some i \<Rightarrow> (case get_info fd of
             None \<Rightarrow> (EXIT_FAIL_BPF, Some i)
           | Some i' \<Rightarrow> (fd, Some i')))"

subsection \<open>Actions\<close>

text \<open>In this file \<^verbatim>\<open>XDP_ACTION_MAX\<close> is \<^verbatim>\<open>XDP_UNKNOWN + 1\<close>, which is six.\<close>

definition xdp_action_names :: "string list" where
  "xdp_action_names = [''XDP_ABORTED'', ''XDP_DROP'', ''XDP_PASS'', ''XDP_TX'', ''XDP_REDIRECT'', ''XDP_UNKNOWN'']"

definition action2str :: "u32 \<Rightarrow> string option" where
  "action2str action = (if action < 6 then Some (xdp_action_names ! unat action) else None)"

subsection \<open>Attaching and unloading\<close>

definition load_bpf_and_xdp_attach ::
  "(string \<Rightarrow> string \<Rightarrow> int + 'prog) \<Rightarrow> ('prog \<Rightarrow> int \<Rightarrow> xdp_attach_mode \<Rightarrow> int) \<Rightarrow> ('prog \<Rightarrow> int) \<Rightarrow>
   config \<Rightarrow> int + 'prog" where
  "load_bpf_and_xdp_attach create attach prog_fd cfg =
     (case create (filename cfg) (progname cfg) of
        Inl err \<Rightarrow> Inl EXIT_FAIL_BPF
      | Inr prog \<Rightarrow>
          let err = attach prog (ifindex cfg) (attach_mode cfg) in
          if err \<noteq> 0 then Inl err
          else if prog_fd prog < 0 then Inl EXIT_FAIL_BPF
          else Inr prog)"

text \<open>
  The programs on an interface as libxdp shows them: the ids of the component programs in order,
  whether the single program is a legacy one, the ids of the main and of the hardware program, and
  the attach mode.
\<close>

record multiprog =
  component_ids :: "u32 list"
  is_legacy :: bool
  main_id :: u32
  hw_id :: u32
  mp_mode :: xdp_attach_mode

datatype get_result = Get_Error | Get_None | Get_Some multiprog

datatype detach_call = Detach_All | Detach_Prog u32 xdp_attach_mode

definition find_unload :: "multiprog \<Rightarrow> u32 \<Rightarrow> (u32 \<times> xdp_attach_mode) option" where
  "find_unload mp wanted =
     (if list_ex (\<lambda>i. i = wanted) (component_ids mp) then Some (wanted, mp_mode mp)
      else if is_legacy mp \<and> main_id mp = wanted then Some (main_id mp, mp_mode mp)
      else if hw_id mp = wanted then Some (hw_id mp, XDP_MODE_HW)
      else None)"

text \<open>The exit code and the detach call that was made, if any; \<open>detach\<close> gives its result.\<close>

definition do_unload :: "(int \<Rightarrow> get_result) \<Rightarrow> (detach_call \<Rightarrow> int) \<Rightarrow> config \<Rightarrow> int \<times> detach_call option" where
  "do_unload get detach cfg =
     (let (err, call) =
        (case get (ifindex cfg) of
           Get_Error \<Rightarrow> (1, None)
         | Get_None \<Rightarrow> (1, None)
         | Get_Some mp \<Rightarrow>
             if unload_all cfg then (detach Detach_All, Some Detach_All)
             else (case find_unload mp (prog_id cfg) of
                 None \<Rightarrow> (- ENOENT, None)
               | Some (i, mode) \<Rightarrow> (detach (Detach_Prog i mode), Some (Detach_Prog i mode))))
      in (if err \<noteq> 0 then 1 else 0, call))"

section \<open>Properties\<close>

text \<open>
  \<^verbatim>\<open>check_map_fd_info\<close> accepts a map exactly when every expectation that is not zero is met, and
  answers \<^verbatim>\<open>EXIT_FAIL\<close> otherwise. In particular the check of \<^verbatim>\<open>xdp_stats\<close> accepts exactly the maps
  with 4 byte keys, 16 byte values and five entries, of whatever type.
\<close>

theorem check_map_fd_info_iff:
  "(check_map_fd_info info expd = 0 \<longleftrightarrow>
      list_all (\<lambda>f. f expd \<in> {0, f info}) [key_size, value_size, max_entries, map_type]) \<and>
   check_map_fd_info info expd \<in> {0, EXIT_FAIL} \<and>
   (check_map_fd_info info \<lparr>map_type = 0, map_id = 0, key_size = 4, value_size = 16, max_entries = 5\<rparr> = 0 \<longleftrightarrow>
      key_size info = 4 \<and> value_size info = 16 \<and> max_entries info = 5)"
  by (auto simp: check_map_fd_info_def EXIT_FAIL_def)

lemma reuse_each_complete:
  "fst (reuse_each get re path maps) = 0 \<Longrightarrow>
     map fst (snd (reuse_each get re path maps)) = maps \<and>
     (\<forall>(name, fd) \<in> set (snd (reuse_each get re path maps)).
        fd = get (path @ ''/'' @ name) \<and> 0 \<le> fd \<and> re name fd = 0)"
  by (induction maps) (auto simp: Let_def snprintf_def PATH_MAX_def ENAMETOOLONG_def split: if_splits prod.splits)

lemma reuse_each_prefix:
  "\<exists>rest. maps = map fst (snd (reuse_each get re path maps)) @ rest"
  by (induction maps) (auto simp: Let_def split: prod.splits)

text \<open>
  \<^verbatim>\<open>reuse_maps\<close> works through the maps of the object in order. When it returns 0 every map has
  got the file descriptor of the map pinned under \<^verbatim>\<open>path/name\<close>; in any other case the maps it has
  changed are the ones in front of the first failure.
\<close>

theorem reuse_maps_all_or_prefix:
  "(fst (reuse_maps get re (Some maps) (Some path)) = 0 \<longrightarrow>
      map fst (snd (reuse_maps get re (Some maps) (Some path))) = maps \<and>
      (\<forall>(name, fd) \<in> set (snd (reuse_maps get re (Some maps) (Some path))).
         fd = get (path @ ''/'' @ name) \<and> 0 \<le> fd \<and> re name fd = 0)) \<and>
   (\<exists>rest. maps = map fst (snd (reuse_maps get re (Some maps) (Some path))) @ rest)"
  using reuse_each_complete [of get re path maps] reuse_each_prefix [of maps get re path]
  by (simp add: reuse_maps_def)

theorem reuse_maps_all_or_prefix_witness:
  "reuse_maps (\<lambda>_. 7) (\<lambda>_ _. 0) (Some [''a'']) (Some ''/sys/fs/bpf'') = (0, [(''a'', 7)]) \<and>
   map fst (snd (reuse_maps (\<lambda>_. 7) (\<lambda>_ _. 0) (Some [''a'']) (Some ''/sys/fs/bpf''))) = [''a'']"
  using reuse_maps_all_or_prefix [of "\<lambda>_. 7" "\<lambda>_ _. 0" "[''a'']" "''/sys/fs/bpf''"]
  by (simp add: reuse_maps_def snprintf_def PATH_MAX_def)

text \<open>
  C16: \<^verbatim>\<open>do_unload\<close> detaches at most once, and either everything (only with \<^verbatim>\<open>unload_all\<close>) or the
  program whose id was asked for; it succeeds exactly when a detach call was made and returned 0. A
  component program takes precedence over a hardware program with the same id.
\<close>

theorem do_unload_only_requested:
  "fst (do_unload get detach cfg) \<in> {0, 1} \<and>
   (fst (do_unload get detach cfg) = 0 \<longleftrightarrow>
      (\<exists>c. snd (do_unload get detach cfg) = Some c \<and> detach c = 0)) \<and>
   (case snd (do_unload get detach cfg) of
      None \<Rightarrow> True
    | Some Detach_All \<Rightarrow> unload_all cfg
    | Some (Detach_Prog i mode) \<Rightarrow> \<not> unload_all cfg \<and> i = prog_id cfg \<and>
        (\<exists>mp. get (ifindex cfg) = Get_Some mp \<and>
           mode = (if i \<in> set (component_ids mp) \<or> is_legacy mp \<and> main_id mp = i then mp_mode mp else XDP_MODE_HW)))"
  by (auto simp: do_unload_def find_unload_def list_ex_iff ENOENT_def split: get_result.splits option.splits if_splits)

text \<open>
  \<^verbatim>\<open>open_bpf_map_file\<close> reports a missing pinned file as the negative error, but when the map's
  information cannot be read it returns \<^verbatim>\<open>EXIT_FAIL_BPF\<close>, a positive number that the test
  \<^verbatim>\<open>fd < 0\<close> of its callers takes for a file descriptor, with the information left unset.
\<close>

theorem open_bpf_map_file_results:
  "let path = snprintf PATH_MAX (dir @ ''/'' @ name) in
    (get path < 0 \<longrightarrow> open_bpf_map_file get gi dir name (Some i) = (get path, Some i)) \<and>
    (0 \<le> get path \<and> gi (get path) = None \<longrightarrow>
       open_bpf_map_file get gi dir name (Some i) = (EXIT_FAIL_BPF, Some i) \<and> \<not> EXIT_FAIL_BPF < 0) \<and>
    (0 \<le> get path \<and> gi (get path) = Some i' \<longrightarrow>
       open_bpf_map_file get gi dir name (Some i) = (get path, Some i'))"
  by (auto simp: open_bpf_map_file_def EXIT_FAIL_BPF_def Let_def)

theorem open_bpf_map_file_results_witness:
  "open_bpf_map_file (\<lambda>_. 3) (\<lambda>_. None) ''/sys/fs/bpf/eth0'' ''xdp_stats_map''
     (Some \<lparr>map_type = 0, map_id = 0, key_size = 0, value_size = 0, max_entries = 0\<rparr>) =
     (40, Some \<lparr>map_type = 0, map_id = 0, key_size = 0, value_size = 0, max_entries = 0\<rparr>)"
  using open_bpf_map_file_results [of "''/sys/fs/bpf/eth0''" "''xdp_stats_map''" "\<lambda>_. 3" "\<lambda>_. None"]
  by (simp add: EXIT_FAIL_BPF_def Let_def)

end
