(* ===== verification/Params.thy ===== *)
theory Params
  imports User_Bpf
begin

text \<open>
  \<^verbatim>\<open>common/common_params.c\<close> and \<^verbatim>\<open>common/common_params.h\<close>: the option tables, the usage text and the
  command line parser of the user space programs. \<^verbatim>\<open>getopt_long\<close> and \<^verbatim>\<open>if_nametoindex\<close> are parameters:
  the first gives the sequence of its results (option value and \<^verbatim>\<open>optarg\<close>, \<open>None\<close> for NULL), the
  second the index of an interface, 0 for an unknown one.
\<close>

section \<open>Model\<close>

record option_entry =
  opt_name :: "string option"
  has_arg :: bool
  opt_val :: int

record option_wrapper =
  wrapped :: option_entry
  help_text :: "string option"
  metavar :: "string option"
  required :: bool

definition BUFSIZE :: nat where "BUFSIZE = 30"

subsection \<open>Usage\<close>

definition pad_right :: "nat \<Rightarrow> string \<Rightarrow> string" where
  "pad_right n s = s @ replicate (n - length s) CHR '' ''"

text \<open>
  One line of \<^verbatim>\<open>_print_options\<close>. \<^verbatim>\<open>pos\<close> is the length that the first \<^verbatim>\<open>snprintf\<close> wanted to write; when it
  exceeds \<^verbatim>\<open>BUFSIZE\<close> the second one writes behind the buffer, with a size that has wrapped around:
  that is a fault (\<open>None\<close>).
\<close>

definition print_option :: "option_wrapper \<Rightarrow> string \<Rightarrow> string option" where
  "print_option w name =
     (let v = opt_val (wrapped w);
          lead = (if v > 64 then '' -'' @ [char_of (nat v)] @ '','' else ''    '');
          long = '' --'' @ name;
          pos = length long
      in do {
        buf \<leftarrow> (case metavar w of
                  None \<Rightarrow> Some (snprintf BUFSIZE long)
                | Some m \<Rightarrow> if pos > BUFSIZE then None else Some (snprintf BUFSIZE (long @ '' '' @ m)));
        Some (lead @ pad_right 22 buf @ ''  ''
              @ (case help_text w of None \<Rightarrow> ''(null)'' | Some h \<Rightarrow> h) @ ''\<newline>'')
      })"

text \<open>A table ends with an entry without a name; a table without one is read past its end.\<close>

fun print_option_list :: "option_wrapper list \<Rightarrow> bool \<Rightarrow> string option" where
  "print_option_list [] req = None"
| "print_option_list (w # ws) req =
     (case opt_name (wrapped w) of
        None \<Rightarrow> Some ''''
      | Some name \<Rightarrow>
          if required w \<noteq> req then print_option_list ws req
          else do {
            line \<leftarrow> print_option w name;
            rest \<leftarrow> print_option_list ws req;
            Some (line @ rest)
          })"

definition usage :: "string \<Rightarrow> string \<Rightarrow> option_wrapper list \<Rightarrow> bool \<Rightarrow> string option" where
  "usage prog_name doc long_options full =
     (let first = ''Usage: '' @ prog_name @ '' [options]\<newline>'' in
      if \<not> full then Some (first @ ''Use --help (or -h) to see full option list.\<newline>'')
      else do {
        req \<leftarrow> print_option_list long_options True;
        oth \<leftarrow> print_option_list long_options False;
        Some (first @ ''\<newline>DOCUMENTATION:\<newline> '' @ doc @ ''\<newline>'' @ ''Required options:\<newline>'' @ req @ ''\<newline>''
              @ ''Other options:\<newline>'' @ oth @ ''\<newline>'')
      })"

subsection \<open>The table for \<^verbatim>\<open>getopt_long\<close>\<close>

fun count_options :: "option_wrapper list \<Rightarrow> nat option" where
  "count_options [] = None"
| "count_options (w # ws) =
     (case opt_name (wrapped w) of None \<Rightarrow> Some 0 | Some _ \<Rightarrow> map_option Suc (count_options ws))"

definition option_wrappers_to_options :: "bool \<Rightarrow> option_wrapper list \<Rightarrow> (int \<times> option_entry list) option" where
  "option_wrappers_to_options malloc_ok wrapper =
     do {
       num \<leftarrow> count_options wrapper;
       if \<not> malloc_ok then Some (-1, [])
       else Some (0, map wrapped (take num wrapper))
     }"

subsection \<open>Parsing\<close>

definition IF_NAMESIZE :: nat where "IF_NAMESIZE = 16"
definition XDP_COPY :: u16 where "XDP_COPY = 2"
definition XDP_ZEROCOPY :: u16 where "XDP_ZEROCOPY = 4"

text \<open>\<^verbatim>\<open>strncpy\<close> into an array of \<open>n\<close> characters, and the string that starts in an array.\<close>

definition strncpy :: "nat \<Rightarrow> string \<Rightarrow> string" where
  "strncpy n src = take n src @ replicate (n - length src) (CHR 0x00)"

definition c_str :: "string \<Rightarrow> string" where
  "c_str buf = takeWhile (\<lambda>c. c \<noteq> CHR 0x00) buf"

definition terminated :: "string \<Rightarrow> bool" where
  "terminated buf \<longleftrightarrow> CHR 0x00 \<in> set buf"

text \<open>\<^verbatim>\<open>atoi\<close>, for numbers that fit an \<^verbatim>\<open>int\<close>.\<close>

definition digit :: "char \<Rightarrow> int option" where
  "digit c = (let v = int (of_char c) - 48 in if 0 \<le> v \<and> v \<le> 9 then Some v else None)"

fun atoi_digits :: "string \<Rightarrow> int \<Rightarrow> int" where
  "atoi_digits [] acc = acc"
| "atoi_digits (c # cs) acc =
     (case digit c of None \<Rightarrow> acc | Some v \<Rightarrow> atoi_digits cs (10 * acc + v))"

definition atoi :: "string \<Rightarrow> int" where
  "atoi s =
     (let t = dropWhile (\<lambda>c. c = CHR '' '' \<or> (of_char c :: nat) \<in> {9..13}) s in
      case t of
        [] \<Rightarrow> 0
      | c # cs \<Rightarrow> if c = CHR ''-'' then - atoi_digits cs 0
                  else if c = CHR ''+'' then atoi_digits cs 0
                  else atoi_digits t 0)"

definition copy_flags :: "u16 \<Rightarrow> u16" where
  "copy_flags f = (f AND NOT XDP_ZEROCOPY) OR XDP_COPY"

definition zerocopy_flags :: "u16 \<Rightarrow> u16" where
  "zerocopy_flags f = (f AND NOT XDP_COPY) OR XDP_ZEROCOPY"

text \<open>What one option does: go on, print the usage text and exit, or dereference a NULL \<^verbatim>\<open>optarg\<close>.\<close>

datatype step = Go config bool | Error bool | Crash

definition ch :: "char \<Rightarrow> int" where
  "ch c = int (of_char c)"

definition with_arg :: "string option \<Rightarrow> (string \<Rightarrow> step) \<Rightarrow> step" where
  "with_arg optarg f = (case optarg of None \<Rightarrow> Crash | Some a \<Rightarrow> f a)"

definition handle_opt :: "(string \<Rightarrow> nat) \<Rightarrow> int \<Rightarrow> string option \<Rightarrow> config \<Rightarrow> bool \<Rightarrow> step" where
  "handle_opt if_nametoindex opt optarg cfg verbose =
     (if opt = ch CHR ''d'' then with_arg optarg (\<lambda>a.
        if length a \<ge> IF_NAMESIZE then Error False
        else
          let buf = strncpy IF_NAMESIZE a;
              idx = if_nametoindex (c_str buf);
              cfg1 = cfg\<lparr>ifname_set := True, ifname_buf := buf, ifindex := int idx\<rparr>
          in if idx = 0 then Error False else Go cfg1 verbose)
      else if opt = ch CHR ''r'' then with_arg optarg (\<lambda>a.
        if length a \<ge> IF_NAMESIZE then Error False
        else
          let buf = strncpy IF_NAMESIZE a;
              idx = if_nametoindex (c_str buf);
              cfg1 = cfg\<lparr>redirect_ifname_set := True, redirect_ifname_buf := buf, redirect_ifindex := int idx\<rparr>
          in if idx = 0 then Error False else Go cfg1 verbose)
      else if opt = ch CHR ''A'' then Go (cfg\<lparr>attach_mode := XDP_MODE_UNSPEC\<rparr>) verbose
      else if opt = ch CHR ''S'' then
        Go (cfg\<lparr>attach_mode := XDP_MODE_SKB, xsk_bind_flags := copy_flags (xsk_bind_flags cfg)\<rparr>) verbose
      else if opt = ch CHR ''N'' then Go (cfg\<lparr>attach_mode := XDP_MODE_NATIVE\<rparr>) verbose
      else if opt = 3 then Go (cfg\<lparr>attach_mode := XDP_MODE_HW\<rparr>) verbose
      else if opt = ch CHR ''M'' then Go (cfg\<lparr>reuse_maps_flag := True\<rparr>) verbose
      else if opt = ch CHR ''U'' then with_arg optarg (\<lambda>a.
        Go (cfg\<lparr>do_unload_flag := True, prog_id := word_of_int (atoi a)\<rparr>) verbose)
      else if opt = ch CHR ''p'' then Go (cfg\<lparr>xsk_poll_mode := True\<rparr>) verbose
      else if opt = ch CHR ''q'' then Go cfg False
      else if opt = ch CHR ''Q'' then with_arg optarg (\<lambda>a. Go (cfg\<lparr>xsk_if_queue := atoi a\<rparr>) verbose)
      else if opt = 1 then with_arg optarg (\<lambda>a. Go (cfg\<lparr>filename := strncpy 512 a\<rparr>) verbose)
      else if opt = 2 then with_arg optarg (\<lambda>a. Go (cfg\<lparr>progname := strncpy 32 a\<rparr>) verbose)
      else if opt = ch CHR ''L'' then with_arg optarg (\<lambda>a. Go (cfg\<lparr>src_mac := strncpy 18 a\<rparr>) verbose)
      else if opt = ch CHR ''R'' then with_arg optarg (\<lambda>a. Go (cfg\<lparr>dest_mac := strncpy 18 a\<rparr>) verbose)
      else if opt = ch CHR ''c'' then Go (cfg\<lparr>xsk_bind_flags := copy_flags (xsk_bind_flags cfg)\<rparr>) verbose
      else if opt = ch CHR ''z'' then Go (cfg\<lparr>xsk_bind_flags := zerocopy_flags (xsk_bind_flags cfg)\<rparr>) verbose
      else if opt = 4 then Go (cfg\<lparr>unload_all := True\<rparr>) verbose
      else if opt = ch CHR ''h'' then Error True
      else Error False)"

text \<open>How the parser ends: normally, by \<^verbatim>\<open>exit\<close> with a code after printing, or by a fault.\<close>

datatype 'a outcome = Returned 'a | Exited int string | Faulted

fun parse_opts ::
  "(string \<Rightarrow> nat) \<Rightarrow> (bool \<Rightarrow> string option) \<Rightarrow> (int \<times> string option) list \<Rightarrow> config \<Rightarrow> bool \<Rightarrow>
   (config \<times> bool) outcome" where
  "parse_opts if_nametoindex usage_text [] cfg verbose = Returned (cfg, verbose)"
| "parse_opts if_nametoindex usage_text ((opt, optarg) # opts) cfg verbose =
     (case handle_opt if_nametoindex opt optarg cfg verbose of
        Go cfg' verbose' \<Rightarrow> parse_opts if_nametoindex usage_text opts cfg' verbose'
      | Error full_help \<Rightarrow>
          (case usage_text full_help of None \<Rightarrow> Faulted | Some t \<Rightarrow> Exited EXIT_FAIL_OPTION t)
      | Crash \<Rightarrow> Faulted)"

definition parse_cmdline_args ::
  "(string \<Rightarrow> nat) \<Rightarrow> (string list \<Rightarrow> string \<Rightarrow> option_entry list \<Rightarrow> (int \<times> string option) list) \<Rightarrow> bool \<Rightarrow>
   string list \<Rightarrow> option_wrapper list \<Rightarrow> config \<Rightarrow> string \<Rightarrow> bool \<Rightarrow> (config \<times> bool) outcome" where
  "parse_cmdline_args if_nametoindex getopt_long malloc_ok argv options_wrapper cfg doc verbose =
     (case option_wrappers_to_options malloc_ok options_wrapper of
        None \<Rightarrow> Faulted
      | Some (err, long_options) \<Rightarrow>
          if err \<noteq> 0 then Exited EXIT_FAIL_OPTION ''''
          else parse_opts if_nametoindex (usage (argv ! 0) doc options_wrapper)
                 (getopt_long argv ''hd:r:L:R:ASNFU:MQ:czpq'' long_options) cfg verbose)"

section \<open>Usage\<close>

definition fits :: "option_wrapper \<Rightarrow> bool" where
  "fits w = (case (opt_name (wrapped w), metavar w) of
     (Some name, Some m) \<Rightarrow> length name \<le> 27 | _ \<Rightarrow> True)"

lemma print_option_faults:
  "opt_name (wrapped w) = Some name \<Longrightarrow> (\<exists>l. print_option w name = Some l) \<longleftrightarrow> fits w"
  by (auto simp: print_option_def fits_def Let_def BUFSIZE_def split: option.splits)

definition named :: "option_wrapper \<Rightarrow> bool" where
  "named w \<longleftrightarrow> opt_name (wrapped w) \<noteq> None"

lemma print_option_list_faults:
  assumes "list_all named ws" "\<not> named e"
  shows "(\<exists>t. print_option_list (ws @ e # rest) req = Some t) \<longleftrightarrow> list_all (\<lambda>w. required w = req \<longrightarrow> fits w) ws"
  using assms(1)
proof (induction ws)
  case Nil
  then show ?case using assms(2) by (simp add: named_def)
next
  case (Cons w ws)
  then obtain name where n: "opt_name (wrapped w) = Some name" by (auto simp: named_def)
  show ?case
  proof (cases "required w = req")
    case False
    then show ?thesis using Cons n by simp
  next
    case True
    have "(\<exists>t. print_option_list ((w # ws) @ e # rest) req = Some t) \<longleftrightarrow>
        (\<exists>l. print_option w name = Some l) \<and> (\<exists>t. print_option_list (ws @ e # rest) req = Some t)"
      using True n by (auto simp: bind_eq_Some_conv)
    then show ?thesis using Cons True n by (simp add: print_option_faults)
  qed
qed

lemma usage_iff:
  assumes "list_all named ws" "\<not> named e"
  shows "(\<exists>t. usage prog doc (ws @ e # rest) True = Some t) \<longleftrightarrow> list_all fits ws"
proof -
  have "(\<exists>t. usage prog doc (ws @ e # rest) True = Some t) \<longleftrightarrow>
      (\<exists>t. print_option_list (ws @ e # rest) True = Some t) \<and> (\<exists>t. print_option_list (ws @ e # rest) False = Some t)"
    by (auto simp: usage_def Let_def bind_eq_Some_conv)
  also have "\<dots> \<longleftrightarrow> list_all fits ws"
    unfolding print_option_list_faults [OF assms] by (auto simp: list_all_iff)
  finally show ?thesis .
qed

lemma usage_total:
  assumes "list_all named ws" "\<not> named e" "list_all fits ws"
  shows "\<exists>t. usage prog doc (ws @ e # rest) full = Some t"
proof (cases full)
  case True
  then show ?thesis using usage_iff [OF assms(1,2), of prog doc rest] assms(3) by simp
qed (simp add: usage_def)

text \<open>
  the full usage text is printed without a write outside the line buffer exactly when every option
  that takes a value has a name of at most 27 characters; otherwise \<^verbatim>\<open>_print_options\<close> writes past its
  30 byte buffer. The short text is always printed.
\<close>

theorem usage_fits_iff:
  assumes "list_all named ws" "\<not> named e"
  shows "((\<exists>t. usage prog doc (ws @ e # rest) True = Some t) \<longleftrightarrow> list_all fits ws) \<and>
    (\<exists>t. usage prog doc (ws @ e # rest) False = Some t)"
  using usage_iff [OF assms, of prog doc rest] by (simp add: usage_def)

definition help_entry :: option_wrapper where
  "help_entry = \<lparr>wrapped = \<lparr>opt_name = Some ''help'', has_arg = False, opt_val = 104\<rparr>,
     help_text = Some ''Show help'', metavar = None, required = False\<rparr>"

definition end_entry :: option_wrapper where
  "end_entry = \<lparr>wrapped = \<lparr>opt_name = None, has_arg = False, opt_val = 0\<rparr>,
     help_text = None, metavar = None, required = False\<rparr>"

theorem usage_fits_iff_witness:
  "\<exists>t. usage ''xdp'' ''doc'' ([help_entry] @ end_entry # []) True = Some t"
  using usage_fits_iff [of "[help_entry]" end_entry "''xdp''" "''doc''" "[]"]
  by (simp add: named_def help_entry_def end_entry_def fits_def)

section \<open>The option table\<close>

lemma count_named: "list_all named ws \<Longrightarrow> \<not> named e \<Longrightarrow> count_options (ws @ e # rest) = Some (length ws)"
  by (induction ws) (auto simp: named_def)

text \<open>
  the table that \<^verbatim>\<open>option_wrappers_to_options\<close> builds for \<^verbatim>\<open>getopt_long\<close> holds exactly the named
  entries, in order. The terminating entry without a name, which \<^verbatim>\<open>getopt_long\<close> stops at, is not
  copied and there is no room for it.
\<close>

theorem option_table_unterminated:
  assumes "list_all named ws" "\<not> named e"
  shows "option_wrappers_to_options True (ws @ e # rest) = Some (0, map wrapped ws) \<and>
    list_all (\<lambda>o'. opt_name o' \<noteq> None) (map wrapped ws) \<and>
    option_wrappers_to_options False (ws @ e # rest) = Some (-1, [])"
  using assms by (simp add: option_wrappers_to_options_def count_named list_all_iff named_def)

theorem option_table_unterminated_witness:
  "option_wrappers_to_options True ([help_entry] @ end_entry # []) = Some (0, [wrapped help_entry])"
  using option_table_unterminated [of "[help_entry]" end_entry "[]"]
  by (simp add: named_def help_entry_def end_entry_def)

section \<open>Parsing\<close>

lemma strncpy_length [simp]: "length (strncpy n s) = n"
  by (simp add: strncpy_def)

lemma strncpy_str:
  assumes "CHR 0x00 \<notin> set s"
  shows "c_str (strncpy n s) = take n s" and "terminated (strncpy n s) \<longleftrightarrow> length s < n"
proof -
  have "\<forall>c \<in> set (take n s). c \<noteq> CHR 0x00" using assms by (auto dest: in_set_takeD)
  then show "c_str (strncpy n s) = take n s"
    by (simp add: c_str_def strncpy_def takeWhile_append2)
  show "terminated (strncpy n s) \<longleftrightarrow> length s < n"
    using assms by (auto simp: terminated_def strncpy_def dest: in_set_takeD)
qed

lemma strncpy_short: "length s < n \<Longrightarrow> terminated (strncpy n s)"
  by (simp add: terminated_def strncpy_def)

lemma flags_exclusive: "copy_flags f AND 6 = 2" "zerocopy_flags f AND 6 = 4"
proof -
  have "copy_flags f AND 6 = (f AND (NOT 4 AND 6)) OR (2 AND 6)"
    by (simp only: copy_flags_def XDP_COPY_def XDP_ZEROCOPY_def bit.conj_disj_distrib2 and.assoc)
  then show "copy_flags f AND 6 = 2"
    by (simp add: or.commute bit.disj_conj_distrib)
  have "zerocopy_flags f AND 6 = (f AND (NOT 2 AND 6)) OR (4 AND 6)"
    by (simp only: zerocopy_flags_def XDP_COPY_def XDP_ZEROCOPY_def bit.conj_disj_distrib2 and.assoc)
  then show "zerocopy_flags f AND 6 = 4"
    by (simp add: or.commute bit.disj_conj_distrib)
qed

text \<open>
  What holds of a configuration at any time: the arrays keep their sizes, a device name is a
  terminated string that was looked up and found, and the two bind flags exclude each other.
\<close>

definition dev_wf :: "(string \<Rightarrow> nat) \<Rightarrow> bool \<Rightarrow> string \<Rightarrow> int \<Rightarrow> bool" where
  "dev_wf idx is_set buf i \<longleftrightarrow> length buf = 16 \<and>
     (is_set \<longrightarrow> terminated buf \<and> i = int (idx (c_str buf)) \<and> i \<noteq> 0)"

definition config_wf :: "(string \<Rightarrow> nat) \<Rightarrow> config \<Rightarrow> bool" where
  "config_wf idx cfg \<longleftrightarrow>
     dev_wf idx (ifname_set cfg) (ifname_buf cfg) (ifindex cfg) \<and>
     dev_wf idx (redirect_ifname_set cfg) (redirect_ifname_buf cfg) (redirect_ifindex cfg) \<and>
     length (filename cfg) = 512 \<and> length (progname cfg) = 32 \<and>
     length (src_mac cfg) = 18 \<and> length (dest_mac cfg) = 18 \<and> xsk_bind_flags cfg AND 6 \<noteq> 6"

definition step_wf :: "(string \<Rightarrow> nat) \<Rightarrow> step \<Rightarrow> bool" where
  "step_wf idx st = (case st of Go cfg v \<Rightarrow> config_wf idx cfg | _ \<Rightarrow> True)"

lemma step_wf_simps [simp]:
  "step_wf idx (Go cfg v) = config_wf idx cfg" "step_wf idx (Error b)" "step_wf idx Crash"
  by (simp_all add: step_wf_def)

lemma step_wf_if: "(b \<Longrightarrow> step_wf idx x) \<Longrightarrow> (\<not> b \<Longrightarrow> step_wf idx y) \<Longrightarrow> step_wf idx (if b then x else y)"
  by simp

lemma step_wf_arg: "(\<And>a. step_wf idx (f a)) \<Longrightarrow> step_wf idx (with_arg arg f)"
  by (simp add: with_arg_def split: option.splits)

lemma handle_opt_wf:
  assumes "config_wf idx cfg"
  shows "step_wf idx (handle_opt idx opt arg cfg v)"
proof -
  note wf = assms [unfolded config_wf_def dev_wf_def]
  show ?thesis
    unfolding handle_opt_def
    by (intro step_wf_if step_wf_arg)
      (use wf in \<open>auto simp: config_wf_def dev_wf_def flags_exclusive Let_def IF_NAMESIZE_def strncpy_short\<close>)
qed

lemma parse_opts_wf:
  "config_wf idx cfg \<Longrightarrow> parse_opts idx u opts cfg v = Returned (cfg', v') \<Longrightarrow> config_wf idx cfg'"
proof (induction opts arbitrary: cfg v)
  case (Cons o' opts)
  obtain opt arg where o': "o' = (opt, arg)" by fastforce
  from Cons.prems o' obtain c w where h: "handle_opt idx opt arg cfg v = Go c w"
    and p: "parse_opts idx u opts c w = Returned (cfg', v')"
    by (auto split: step.splits option.splits)
  have "config_wf idx c" using handle_opt_wf [OF Cons.prems(1), of opt arg v] h by simp
  then show ?case using p by (rule Cons.IH)
qed simp

lemma parse_opts_exit: "parse_opts idx u opts cfg v = Exited n t \<Longrightarrow> n = EXIT_FAIL_OPTION"
  by (induction opts arbitrary: cfg v) (auto split: step.splits option.splits)

text \<open>
  C15: whatever \<^verbatim>\<open>getopt_long\<close> delivers, when the command line parser returns, every array of the
  configuration has its size, the device names are terminated strings whose index was found and is
  stored beside them, and copy and zero-copy mode are not both selected; when it exits, it does so
  with \<^verbatim>\<open>EXIT_FAIL_OPTION\<close>.
\<close>

theorem parse_cmdline_keeps_config:
  assumes "config_wf idx cfg"
  shows "case parse_cmdline_args idx getopt ok argv table cfg doc v of
      Returned (cfg', v') \<Rightarrow> config_wf idx cfg' | Exited n t \<Rightarrow> n = EXIT_FAIL_OPTION | Faulted \<Rightarrow> True"
proof (cases "parse_cmdline_args idx getopt ok argv table cfg doc v")
  case (Returned r)
  then show ?thesis
    using parse_opts_wf [OF assms]
    by (cases r) (auto simp: parse_cmdline_args_def split: option.splits if_splits)
next
  case (Exited n t)
  then show ?thesis
    using parse_opts_exit by (auto simp: parse_cmdline_args_def split: option.splits if_splits)
qed simp

definition config0 :: config where
  "config0 = \<lparr>attach_mode = XDP_MODE_NATIVE, xdp_flags = 0, ifindex = -1, ifname_set = False,
     ifname_buf = strncpy 16 '''', redirect_ifindex = 0, redirect_ifname_set = False,
     redirect_ifname_buf = strncpy 16 '''', do_unload_flag = False, prog_id = 0, reuse_maps_flag = False,
     pin_dir = strncpy 512 '''', filename = strncpy 512 '''', progname = strncpy 32 '''', src_mac = strncpy 18 '''',
     dest_mac = strncpy 18 '''', xsk_bind_flags = 0, xsk_if_queue = 0, xsk_poll_mode = False, unload_all = False\<rparr>"

lemma config0_wf [simp]: "config_wf idx config0"
  by (simp add: config_wf_def dev_wf_def config0_def)

theorem parse_cmdline_keeps_config_witness:
  "\<exists>cfg' v'. parse_cmdline_args (\<lambda>_. 3) (\<lambda>_ _ _. [(100, Some ''eth0''), (122, None)]) True [''xdp'']
      [help_entry, end_entry] config0 ''doc'' True = Returned (cfg', v') \<and> ifindex cfg' = 3 \<and>
    config_wf (\<lambda>_. 3) cfg'"
proof -
  let ?r = "parse_cmdline_args (\<lambda>_. 3) (\<lambda>_ _ _. [(100, Some ''eth0''), (122, None)]) True [''xdp'']
      [help_entry, end_entry] config0 ''doc'' True"
  have "\<exists>cfg'. ?r = Returned (cfg', True) \<and> ifindex cfg' = 3"
    by (simp add: parse_cmdline_args_def option_wrappers_to_options_def help_entry_def end_entry_def
        handle_opt_def with_arg_def ch_def IF_NAMESIZE_def Let_def)
  then show ?thesis
    using parse_cmdline_keeps_config [of "\<lambda>_. 3" config0 "\<lambda>_ _ _. [(100, Some ''eth0''), (122, None)]" True
        "[''xdp'']" "[help_entry, end_entry]" "''doc''" True] by auto
qed

text \<open>
  two options that the tables of the programs offer do not work. \<^verbatim>\<open>--force\<close> (\<open>F\<close>) has no case in the
  parser and ends the program with the usage text, and \<^verbatim>\<open>--unload\<close> (\<open>U\<close>), which the long table
  declares without an argument, makes the parser convert a NULL string. A file name of 512 or more
  characters is cut without a terminator, and shorter ones are stored as they are.
\<close>

theorem parser_option_defects:
  assumes "CHR 0x00 \<notin> set name"
  shows "parse_opts idx u ((ch CHR ''F'', arg) # opts) cfg v =
      (case u False of None \<Rightarrow> Faulted | Some t \<Rightarrow> Exited EXIT_FAIL_OPTION t) \<and>
    parse_opts idx u ((ch CHR ''U'', None) # opts) cfg v = Faulted \<and>
    (\<exists>cfg'. handle_opt idx 1 (Some name) cfg v = Go cfg' v \<and> c_str (filename cfg') = take 512 name \<and>
       (terminated (filename cfg') \<longleftrightarrow> length name < 512))"
proof (intro conjI)
  show "\<exists>cfg'. handle_opt idx 1 (Some name) cfg v = Go cfg' v \<and> c_str (filename cfg') = take 512 name \<and>
       (terminated (filename cfg') \<longleftrightarrow> length name < 512)"
    by (simp add: handle_opt_def with_arg_def ch_def strncpy_str [OF assms])
qed (simp_all add: handle_opt_def with_arg_def ch_def)

theorem parser_option_defects_witness:
  "\<exists>cfg'. handle_opt (\<lambda>_. 0) 1 (Some ''xdp_prog_kern.o'') config0 True = Go cfg' True \<and>
     c_str (filename cfg') = ''xdp_prog_kern.o''"
  using parser_option_defects [of "''xdp_prog_kern.o''" "\<lambda>_. 0" "\<lambda>_. None" None "[]" config0 True] by auto

end
