(* ===== verification/Stats_User.thy ===== *)
theory Stats_User
  imports Complex_Main Stats_Kern Params
begin

text \<open>
  \<^verbatim>\<open>basic-solutions/xdp_stats.c\<close>: the program that reads \<^verbatim>\<open>xdp_stats_map\<close> in intervals and prints
  counters and rates.

  The world outside is the record \<open>env\<close>, whose functions take the number of clock readings made so
  far, so that time and the maps may change between any two readings. The number of CPUs is that of a
  successful \<^verbatim>\<open>libbpf_num_possible_cpus\<close>; a negative error, which the C code takes for a huge array size, is
  left out. The endless loops take fuel: the
  result \<open>Running\<close> means that the loop is still running when the fuel is used up. Floating point
  numbers are rationals, without rounding.
\<close>

section \<open>Model\<close>

definition NANOSEC_PER_SEC :: nat where "NANOSEC_PER_SEC = 1000000000"

record env =
  clock_gettime :: "nat \<Rightarrow> (u64 \<times> u64) option"
  lookup_array :: "nat \<Rightarrow> int \<Rightarrow> u32 \<Rightarrow> datarec option"
  lookup_percpu :: "nat \<Rightarrow> int \<Rightarrow> u32 \<Rightarrow> datarec list option"
  num_possible_cpus :: nat
  obj_get :: "nat \<Rightarrow> string \<Rightarrow> int"
  obj_info :: "nat \<Rightarrow> int \<Rightarrow> bpf_map_info option"

definition gettime :: "env \<Rightarrow> nat \<Rightarrow> int + u64" where
  "gettime e n =
     (case clock_gettime e n of
        None \<Rightarrow> Inl EXIT_FAIL
      | Some (tv_sec, tv_nsec) \<Rightarrow> Inr (tv_sec * word_of_nat NANOSEC_PER_SEC + tv_nsec))"

record srecord =
  timestamp :: u64
  total :: datarec

definition calc_period :: "srecord \<Rightarrow> srecord \<Rightarrow> rat" where
  "calc_period r p =
     (let period = timestamp r - timestamp p in
      if period > 0 then of_nat (unat period) / of_nat NANOSEC_PER_SEC else 0)"

subsection \<open>Printing\<close>

datatype line =
    Header
  | Line (l_action: string) (l_packets: u64) (l_pps: rat) (l_kbytes: u64) (l_bps: rat) (l_period: rat)
  | Blank

definition stats_print_header :: "line list" where
  "stats_print_header = [Header]"

text \<open>The loop over the actions; the \<^verbatim>\<open>return\<close> in it ends the function.\<close>

fun print_actions :: "nat list \<Rightarrow> srecord list \<Rightarrow> srecord list \<Rightarrow> line list" where
  "print_actions [] stats_rec stats_prev = [Blank]"
| "print_actions (i # is) stats_rec stats_prev =
     (let action = (case action2str (word_of_nat i) of None \<Rightarrow> ''(null)'' | Some s \<Rightarrow> s);
          rec = stats_rec ! i;
          prev = stats_prev ! i;
          period = calc_period rec prev
      in if period = 0 then []
         else
           let packets = rx_packets (total rec) - rx_packets (total prev);
               pps = of_nat (unat packets) / period;
               bytes = rx_bytes (total rec) - rx_bytes (total prev);
               bps = of_nat (unat (bytes * 8)) / period / 1000000
           in Line action (rx_packets (total rec)) pps (rx_bytes (total rec) div 1000) bps period
              # print_actions is stats_rec stats_prev)"

definition stats_print :: "srecord list \<Rightarrow> srecord list \<Rightarrow> line list" where
  "stats_print stats_rec stats_prev =
     stats_print_header @ print_actions [0..<unat XDP_ACTION_MAX] stats_rec stats_prev"

subsection \<open>Collecting\<close>

text \<open>When the lookup fails the caller's \<open>value\<close> stays as it is.\<close>

definition map_get_value_array :: "env \<Rightarrow> nat \<Rightarrow> int \<Rightarrow> u32 \<Rightarrow> datarec \<Rightarrow> datarec" where
  "map_get_value_array e n fd key value =
     (case lookup_array e n fd key of None \<Rightarrow> value | Some v \<Rightarrow> v)"

definition map_get_value_percpu_array :: "env \<Rightarrow> nat \<Rightarrow> int \<Rightarrow> u32 \<Rightarrow> datarec \<Rightarrow> datarec" where
  "map_get_value_percpu_array e n fd key value =
     (case lookup_percpu e n fd key of
        None \<Rightarrow> value
      | Some values \<Rightarrow>
          let (sum_pkts, sum_bytes) =
            fold (\<lambda>i (p, b). (p + rx_packets (values ! i), b + rx_bytes (values ! i)))
              [0..<num_possible_cpus e] (0, 0)
          in value\<lparr>rx_packets := sum_pkts, rx_bytes := sum_bytes\<rparr>)"

definition BPF_MAP_TYPE_ARRAY :: u32 where "BPF_MAP_TYPE_ARRAY = 2"
definition BPF_MAP_TYPE_PERCPU_ARRAY :: u32 where "BPF_MAP_TYPE_PERCPU_ARRAY = 6"

text \<open>\<open>junk\<close> is the uninitialised variable \<^verbatim>\<open>value\<close>. An exit of \<^verbatim>\<open>gettime\<close> is \<open>Inl\<close>.\<close>

definition map_collect :: "env \<Rightarrow> nat \<Rightarrow> int \<Rightarrow> u32 \<Rightarrow> u32 \<Rightarrow> datarec \<Rightarrow> srecord \<Rightarrow> int + (bool \<times> srecord)" where
  "map_collect e n fd mtype key junk rec =
     (case gettime e n of
        Inl x \<Rightarrow> Inl x
      | Inr t \<Rightarrow>
          let rec1 = rec\<lparr>timestamp := t\<rparr> in
          if mtype = BPF_MAP_TYPE_ARRAY
          then Inr (True, rec1\<lparr>total := map_get_value_array e n fd key junk\<rparr>)
          else if mtype = BPF_MAP_TYPE_PERCPU_ARRAY
          then Inr (True, rec1\<lparr>total := map_get_value_percpu_array e n fd key junk\<rparr>)
          else Inr (False, rec1))"

fun collect_keys :: "env \<Rightarrow> nat \<Rightarrow> int \<Rightarrow> u32 \<Rightarrow> datarec \<Rightarrow> nat list \<Rightarrow> srecord list \<Rightarrow> int + (nat \<times> srecord list)" where
  "collect_keys e n fd mtype junk [] recs = Inr (n, recs)"
| "collect_keys e n fd mtype junk (key # keys) recs =
     (case map_collect e n fd mtype (word_of_nat key) junk (recs ! key) of
        Inl x \<Rightarrow> Inl x
      | Inr (_, rec) \<Rightarrow> collect_keys e (n + 1) fd mtype junk keys (recs[key := rec]))"

definition stats_collect :: "env \<Rightarrow> nat \<Rightarrow> int \<Rightarrow> u32 \<Rightarrow> datarec \<Rightarrow> srecord list \<Rightarrow> int + (nat \<times> srecord list)" where
  "stats_collect e n fd mtype junk recs =
     collect_keys e n fd mtype junk [0..<unat XDP_ACTION_MAX] recs"

subsection \<open>Polling\<close>

text \<open>How a loop ends: not yet, by \<^verbatim>\<open>exit(c)\<close>, by \<^verbatim>\<open>return r\<close>, or by a fault.\<close>

datatype run = Running | Exit int | Return int | Segv

type_synonym poll_result = "run \<times> line list \<times> nat"

definition no_info :: bpf_map_info where
  "no_info = \<lparr>map_type = 0, map_id = 0, key_size = 0, value_size = 0, max_entries = 0\<rparr>"

text \<open>\<open>info\<close> is declared outside the loop: a failed query leaves what the last one has stored.\<close>

fun poll_loop :: "nat \<Rightarrow> env \<Rightarrow> nat \<Rightarrow> string \<Rightarrow> u32 \<Rightarrow> u32 \<Rightarrow> datarec \<Rightarrow> bpf_map_info \<Rightarrow> srecord list \<Rightarrow> poll_result" where
  "poll_loop 0 e n dir mid mtype junk info record = (Running, [], n)"
| "poll_loop (Suc fuel) e n dir mid mtype junk info record =
     (let prev = record;
          (map_fd, info1) = open_bpf_map_file (obj_get e n) (obj_info e n) dir ''xdp_stats_map'' (Some info)
      in if map_fd < 0 then (Return EXIT_FAIL_BPF, [], n)
         else if mid \<noteq> map_id (the info1) then (Return 0, [], n)
         else case stats_collect e n map_fd mtype junk record of
           Inl x \<Rightarrow> (Exit x, [], n)
         | Inr (n', record') \<Rightarrow>
             let (res, out, n'') = poll_loop fuel e n' dir mid mtype junk (the info1) record'
             in (res, stats_print record' prev @ out, n''))"

definition zero_record :: srecord where
  "zero_record = \<lparr>timestamp = 0, total = \<lparr>rx_packets = 0, rx_bytes = 0\<rparr>\<rparr>"

definition stats_poll :: "nat \<Rightarrow> env \<Rightarrow> nat \<Rightarrow> string \<Rightarrow> int \<Rightarrow> u32 \<Rightarrow> u32 \<Rightarrow> datarec \<Rightarrow> poll_result" where
  "stats_poll fuel e n dir map_fd mid mtype junk =
     (case stats_collect e n map_fd mtype junk (replicate 5 zero_record) of
        Inl x \<Rightarrow> (Exit x, [], n)
      | Inr (n', record) \<Rightarrow> poll_loop fuel e n' dir mid mtype junk no_info record)"

definition map_expect :: bpf_map_info where
  "map_expect = \<lparr>map_type = 0, map_id = 0, key_size = 4, value_size = 16, max_entries = XDP_ACTION_MAX\<rparr>"

fun main_loop :: "nat \<Rightarrow> env \<Rightarrow> nat \<Rightarrow> string \<Rightarrow> datarec \<Rightarrow> bpf_map_info \<Rightarrow> poll_result" where
  "main_loop 0 e n dir junk info = (Running, [], n)"
| "main_loop (Suc fuel) e n dir junk info =
     (let (fd, info1) = open_bpf_map_file (obj_get e n) (obj_info e n) dir ''xdp_stats_map'' (Some info)
      in if fd < 0 then (Return EXIT_FAIL_BPF, [], n)
         else
           let err = check_map_fd_info (the info1) map_expect in
           if err \<noteq> 0 then (Return err, [], n)
           else case stats_poll fuel e n dir fd (map_id (the info1)) (map_type (the info1)) junk of
             (Return r, out, n') \<Rightarrow>
               if r < 0 then (Return r, out, n')
               else let (res, out', n'') = main_loop fuel e n' dir junk (the info1) in (res, out @ out', n'')
           | (res, out, n') \<Rightarrow> (res, out, n'))"

text \<open>\<^verbatim>\<open>main\<close> behind \<^verbatim>\<open>parse_cmdline_args\<close>, whose outcome is \<open>parsed\<close>.\<close>

definition main_stats :: "nat \<Rightarrow> env \<Rightarrow> (config \<times> bool) outcome \<Rightarrow> datarec \<Rightarrow> poll_result" where
  "main_stats fuel e parsed junk =
     (case parsed of
        Faulted \<Rightarrow> (Segv, [], 0)
      | Exited c t \<Rightarrow> (Exit c, [], 0)
      | Returned (cfg, verbose) \<Rightarrow>
          if ifindex cfg = -1 then (Return EXIT_FAIL_OPTION, [], 0)
          else main_loop fuel e 0 (snprintf PATH_MAX (''/sys/fs/bpf/'' @ c_str (ifname_buf cfg))) junk no_info)"

end
