(* ===== verification/Stats_Props.thy ===== *)
theory Stats_Props
  imports Stats_User
begin

text \<open>
  The counters from end to end: the kernel counts packets on every CPU in its own copy of
  \<^verbatim>\<open>xdp_stats_map\<close>, in any interleaving, and \<^verbatim>\<open>xdp_stats\<close> adds the copies up. Then what the program
  prints and how its loops end.
\<close>

section \<open>Counting on several CPUs\<close>

text \<open>
  The states of the per-CPU map that a sequence of packets can lead to. A state is one counter
  array per CPU; the history lists verdict and length of the packets, the last one first.
\<close>

inductive counted :: "datarec list list \<Rightarrow> (u32 \<times> nat) list \<Rightarrow> bool" where
  start: "\<forall>m \<in> set cpus. m = replicate 5 \<lparr>rx_packets = 0, rx_bytes = 0\<rparr> \<Longrightarrow> counted cpus []"
| packet: "counted cpus hist \<Longrightarrow> c < length cpus \<Longrightarrow> length (pkt ctx) < 2 ^ 32 \<Longrightarrow>
    xdp_stats_record_action ctx action (cpus ! c) = (ret, m) \<Longrightarrow> action < 5 \<Longrightarrow>
    counted (cpus[c := m]) ((action, length (pkt ctx)) # hist)"

inductive_cases counted_ConsE: "counted cpus ((a, l) # hist)"

definition seen :: "u32 \<Rightarrow> (u32 \<times> nat) list \<Rightarrow> nat list" where
  "seen key hist = map snd (filter (\<lambda>(a, l). a = key) hist)"

lemma seen_simps [simp]:
  "seen key [] = []" "seen key ((a, l) # hist) = (if a = key then l # seen key hist else seen key hist)"
  by (simp_all add: seen_def)

definition cpu_sum :: "(datarec \<Rightarrow> u64) \<Rightarrow> datarec list list \<Rightarrow> nat \<Rightarrow> u64" where
  "cpu_sum f cpus i = (\<Sum>c<length cpus. f (cpus ! c ! i))"

lemma cpu_sum_update:
  assumes "c < length cpus"
  shows "cpu_sum f (cpus[c := m]) i = cpu_sum f cpus i - f (cpus ! c ! i) + f (m ! i)"
proof -
  let ?A = "{..<length cpus}"
  have "cpu_sum f (cpus[c := m]) i = f (m ! i) + (\<Sum>d\<in>?A - {c}. f (cpus[c := m] ! d ! i))"
    unfolding cpu_sum_def using assms by (subst sum.remove [of _ c]) auto
  also have "(\<Sum>d\<in>?A - {c}. f (cpus[c := m] ! d ! i)) = (\<Sum>d\<in>?A - {c}. f (cpus ! d ! i))"
    by (rule sum.cong) auto
  also have "\<dots> = cpu_sum f cpus i - f (cpus ! c ! i)"
    unfolding cpu_sum_def using assms by (subst (2) sum.remove [of _ c]) auto
  finally show ?thesis by (simp add: add.commute)
qed

lemma counted_length: "counted cpus hist \<Longrightarrow> \<forall>m \<in> set cpus. length m = 5"
proof (induction rule: counted.induct)
  case (packet cpus hist c ctx action ret m)
  have "length m = length (cpus ! c)"
    using xdp_stats_length [of ctx action "cpus ! c"] packet(4) by simp
  then show ?case using packet by (auto dest!: set_update_subset_insert [THEN subsetD])
qed auto

lemma counted_sums:
  "counted cpus hist \<Longrightarrow> i < 5 \<Longrightarrow>
     cpu_sum rx_packets cpus i = of_nat (length (seen (word_of_nat i) hist)) \<and>
     cpu_sum rx_bytes cpus i = of_nat (sum_list (seen (word_of_nat i) hist))"
proof (induction arbitrary: i rule: counted.induct)
  case (start cpus)
  then have "cpus ! c ! i = \<lparr>rx_packets = 0, rx_bytes = 0\<rparr>" if "c < length cpus" for c
    using that by (metis nth_mem nth_replicate)
  then show ?case by (simp add: cpu_sum_def)
next
  case (packet cpus hist c ctx action ret m)
  let ?key = "word_of_nat i :: u32" and ?l = "length (pkt ctx)"
  have len: "length (cpus ! c) = 5" using counted_length [OF packet(1)] packet(2) by simp
  have m: "m = (cpus ! c)[unat action := (cpus ! c ! unat action)\<lparr>rx_packets := rx_packets (cpus ! c ! unat action) + 1,
        rx_bytes := rx_bytes (cpus ! c ! unat action) + ucast (word_of_nat ?l :: u32)\<rparr>]"
    using xdp_stats_valid [OF len packet(5), of ctx] packet(4) by simp
  have a: "unat action < 5" using packet(5) by (simp add: word_less_nat_alt)
  have "unat ?key = i" using packet.prems by (simp add: unsigned_of_nat take_bit_nat_def)
  then have key: "unat action = i \<longleftrightarrow> action = ?key" by (metis word_unat_eq_iff)
  have l: "(ucast (word_of_nat ?l :: u32) :: u64) = of_nat ?l"
  proof -
    have "unat (word_of_nat ?l :: u32) = ?l" using packet(3) by (simp add: unsigned_of_nat take_bit_nat_def)
    then show ?thesis by (metis of_nat_unat)
  qed
  have mi: "rx_packets (m ! i) = rx_packets (cpus ! c ! i) + (if action = ?key then 1 else 0)"
    "rx_bytes (m ! i) = rx_bytes (cpus ! c ! i) + (if action = ?key then of_nat ?l else 0)"
    using len a packet.prems key l by (auto simp: m nth_list_update)
  show ?case
    using packet.IH [OF packet.prems] by (simp add: cpu_sum_update [OF packet(2)] mi)
qed

lemma fold_pair_sum:
  "fold (\<lambda>i (p, b). (p + f i, b + g i)) [0..<n] (0, 0) = ((\<Sum>i<n. f i), (\<Sum>i<n. g i))"
  for f g :: "nat \<Rightarrow> u64"
  by (induction n) (auto simp: add.commute)

text \<open>
  C5: after any interleaving of packets on any number of CPUs, what \<^verbatim>\<open>map_get_value_percpu_array\<close>
  computes for an action from the per-CPU copies is the number of packets that got that verdict on all
  CPUs together, and the sum of their lengths, both modulo \<open>2 ^ 64\<close>: no packet is lost, counted twice
  or counted under another action.
\<close>

theorem percpu_counters_exact:
  assumes "counted cpus hist" "key < 5"
    and "num_possible_cpus e = length cpus"
    and "lookup_percpu e n fd key = Some (map (\<lambda>m. m ! unat key) cpus)"
  shows "map_get_value_percpu_array e n fd key value =
    value\<lparr>rx_packets := of_nat (length (seen key hist)), rx_bytes := of_nat (sum_list (seen key hist))\<rparr>"
proof -
  let ?i = "unat key"
  have i: "?i < 5" using assms(2) by (simp add: word_less_nat_alt)
  have k: "word_of_nat ?i = key" by simp
  let ?f = "\<lambda>c. rx_packets (map (\<lambda>m. m ! ?i) cpus ! c)" and ?g = "\<lambda>c. rx_bytes (map (\<lambda>m. m ! ?i) cpus ! c)"
  have "(\<Sum>c<length cpus. ?f c) = cpu_sum rx_packets cpus ?i" "(\<Sum>c<length cpus. ?g c) = cpu_sum rx_bytes cpus ?i"
    by (simp_all add: cpu_sum_def)
  then show ?thesis
    using assms(3,4) counted_sums [OF assms(1) i] fold_pair_sum [of ?f ?g "length cpus"]
    by (simp add: map_get_value_percpu_array_def k)
qed

theorem percpu_counters_exact_witness:
  "let m0 = replicate 5 \<lparr>rx_packets = 0, rx_bytes = 0\<rparr>;
       cpus = [m0, snd (xdp_stats_record_action \<lparr>room = [], pkt = replicate 60 0\<rparr> 2 m0)] in
   map_get_value_percpu_array \<lparr>clock_gettime = \<lambda>_. None, lookup_array = \<lambda>_ _ _. None,
       lookup_percpu = \<lambda>_ _ key. Some (map (\<lambda>m. m ! unat key) cpus), num_possible_cpus = 2,
       obj_get = \<lambda>_ _. -1, obj_info = \<lambda>_ _. None\<rparr> 0 3 2 \<lparr>rx_packets = 9, rx_bytes = 9\<rparr>
     = \<lparr>rx_packets = 1, rx_bytes = 60\<rparr>"
proof -
  let ?m0 = "replicate 5 \<lparr>rx_packets = 0, rx_bytes = 0\<rparr> :: datarec list"
  let ?ctx = "\<lparr>room = [], pkt = replicate 60 0\<rparr> :: xdp_md"
  let ?cpus = "[?m0, snd (xdp_stats_record_action ?ctx 2 ?m0)]"
  have "counted ([?m0, ?m0][1 := snd (xdp_stats_record_action ?ctx 2 ?m0)]) ((2, length (pkt ?ctx)) # [])"
    by (rule counted.packet [where ret = "fst (xdp_stats_record_action ?ctx 2 ?m0)"]) (auto intro!: counted.start)
  then have "counted ?cpus [(2, 60)]" by simp
  from percpu_counters_exact [OF this, of 2 "\<lparr>clock_gettime = \<lambda>_. None, lookup_array = \<lambda>_ _ _. None,
       lookup_percpu = \<lambda>_ _ key. Some (map (\<lambda>m. m ! unat key) ?cpus), num_possible_cpus = 2,
       obj_get = \<lambda>_ _. -1, obj_info = \<lambda>_ _. None\<rparr>" 0 3 "\<lparr>rx_packets = 9, rx_bytes = 9\<rparr>"]
  show ?thesis by (simp add: Let_def)
qed

section \<open>Printing\<close>

definition action_line :: "srecord list \<Rightarrow> srecord list \<Rightarrow> nat \<Rightarrow> line" where
  "action_line now prev i =
     (let r = total (now ! i); p = total (prev ! i); period = calc_period (now ! i) (prev ! i) in
      Line ([''XDP_ABORTED'', ''XDP_DROP'', ''XDP_PASS'', ''XDP_TX'', ''XDP_REDIRECT''] ! i)
        (rx_packets r) (of_nat (unat (rx_packets r - rx_packets p)) / period)
        (rx_bytes r div 1000) (of_nat (unat ((rx_bytes r - rx_bytes p) * 8)) / period / 1000000) period)"

lemma action_names: "i < 5 \<Longrightarrow>
  action2str (word_of_nat i) = Some ([''XDP_ABORTED'', ''XDP_DROP'', ''XDP_PASS'', ''XDP_TX'', ''XDP_REDIRECT''] ! i)"
proof -
  assume "i < 5"
  then consider "i = 0" | "i = 1" | "i = 2" | "i = 3" | "i = 4" by linarith
  then show ?thesis by cases (simp_all add: action2str_def xdp_action_names_def)
qed

definition ticking :: "srecord list \<Rightarrow> srecord list \<Rightarrow> nat \<Rightarrow> bool" where
  "ticking now prev i \<longleftrightarrow> timestamp (now ! i) \<noteq> timestamp (prev ! i)"

lemma calc_period_zero: "calc_period (now ! i) (prev ! i) = 0 \<longleftrightarrow> \<not> ticking now prev i"
proof -
  have "w > 0 \<longleftrightarrow> unat w \<noteq> 0" for w :: u64 by (simp add: word_gt_0 unat_eq_zero)
  then show ?thesis
    by (simp add: calc_period_def ticking_def Let_def NANOSEC_PER_SEC_def unat_eq_zero del: of_nat_unat)
qed

lemma print_actions_prefix:
  "list_all (\<lambda>i. i < 5) is \<Longrightarrow> print_actions is now prev =
     map (action_line now prev) (takeWhile (ticking now prev) is)
     @ (if list_all (ticking now prev) is then [Blank] else [])"
  by (induction "is") (auto simp: Let_def calc_period_zero action_names action_line_def)

text \<open>
  \<^verbatim>\<open>stats_print\<close> prints the header and, for the actions in order, the counters and the rates
  over the time between the two readings; differences are taken modulo \<open>2 ^ 64\<close>, so a counter that
  has wrapped around does not disturb them. At the first action whose two readings carry the same time
  it stops, without the remaining lines and the final blank line.
\<close>

theorem stats_print_lines:
  "stats_print now prev =
     Header # map (action_line now prev) (takeWhile (ticking now prev) [0..<5])
     @ (if list_all (ticking now prev) [0..<5] then [Blank] else [])"
proof -
  have "unat XDP_ACTION_MAX = 5" by (simp add: action_defs)
  then show ?thesis
    by (simp add: stats_print_def stats_print_header_def print_actions_prefix list_all_iff)
qed

section \<open>The loops\<close>

lemma map_collect_exit: "map_collect e n fd mtype key junk r = Inl x \<Longrightarrow> x = EXIT_FAIL"
  by (auto simp: map_collect_def gettime_def Let_def split: sum.splits option.splits if_splits)

lemma collect_keys_time:
  "collect_keys e n fd mtype junk keys recs = Inr (n', recs') \<Longrightarrow> n' = n + length keys"
  by (induction keys arbitrary: n recs) (auto split: sum.splits, force)

lemma collect_keys_exit:
  "collect_keys e n fd mtype junk keys recs = Inl x \<Longrightarrow> x = EXIT_FAIL"
  by (induction keys arbitrary: n recs) (auto dest: map_collect_exit split: sum.splits)

lemmas collect_keys_results = collect_keys_time collect_keys_exit

lemma stats_collect_results:
  "stats_collect e n fd mtype junk recs = Inr (n', recs') \<Longrightarrow> n' = n + 5"
  "stats_collect e n fd mtype junk recs = Inl x \<Longrightarrow> x = EXIT_FAIL"
  by (auto simp: stats_collect_def action_defs dest: collect_keys_results)

lemma poll_loop_results:
  "poll_loop fuel e n dir mid mtype junk info recs = (r, out, n') \<Longrightarrow>
     r \<in> {Running, Exit EXIT_FAIL, Return 0, Return EXIT_FAIL_BPF} \<and> n \<le> n'"
proof (induction fuel arbitrary: n info recs r out)
  case (Suc fuel)
  obtain fd info1 where o: "open_bpf_map_file (obj_get e n) (obj_info e n) dir ''xdp_stats_map'' (Some info) = (fd, info1)"
    by fastforce
  show ?case
    using Suc.prems Suc.IH o stats_collect_results [of e n fd mtype junk recs]
    by (auto simp: Let_def split: if_splits sum.splits prod.splits) (metis le_add1 le_trans)+
qed auto

lemma poll_loop_ends:
  assumes "\<And>m. N \<le> m \<Longrightarrow> obj_get e m (snprintf PATH_MAX (dir @ ''/xdp_stats_map'')) < 0"
  shows "N \<le> n + 5 * fuel \<Longrightarrow> fst (poll_loop (Suc fuel) e n dir mid mtype junk info recs) \<noteq> Running"
proof (induction fuel arbitrary: n info recs)
  case 0
  then show ?case using assms [of n] by (simp add: open_bpf_map_file_def Let_def)
next
  case (Suc fuel)
  obtain fd info1 where o: "open_bpf_map_file (obj_get e n) (obj_info e n) dir ''xdp_stats_map'' (Some info) = (fd, info1)"
    by fastforce
  have "fst (poll_loop (Suc fuel) e (n + 5) dir mid mtype junk (the info1) recs') \<noteq> Running" for recs'
    using Suc by simp
  then show ?case
    using o stats_collect_results(1) [of e n fd mtype junk recs]
    by (subst poll_loop.simps) (auto simp: Let_def simp del: poll_loop.simps split: sum.splits prod.splits; metis fst_conv)
qed

lemma stats_poll_results:
  "stats_poll fuel e n dir fd mid mtype junk = (r, out, n') \<Longrightarrow>
     r \<in> {Running, Exit EXIT_FAIL, Return 0, Return EXIT_FAIL_BPF} \<and> (r = Exit EXIT_FAIL \<or> n + 5 \<le> n')"
  using stats_collect_results [of e n fd mtype junk "replicate 5 zero_record"] poll_loop_results
  by (fastforce simp: stats_poll_def split: sum.splits prod.splits)

lemma stats_poll_ends:
  assumes "\<And>m. N \<le> m \<Longrightarrow> obj_get e m (snprintf PATH_MAX (dir @ ''/xdp_stats_map'')) < 0"
    and "N \<le> n + 5 + 5 * fuel"
  shows "fst (stats_poll (Suc fuel) e n dir fd mid mtype junk) \<noteq> Running"
proof (cases "stats_collect e n fd mtype junk (replicate 5 zero_record)")
  case (Inr p)
  then obtain recs where "stats_collect e n fd mtype junk (replicate 5 zero_record) = Inr (n + 5, recs)"
    using stats_collect_results(1) by (cases p) fastforce
  then show ?thesis
    using poll_loop_ends [OF assms(1), where n = "n + 5" and fuel = fuel] assms(2) by (simp add: stats_poll_def del: poll_loop.simps)
qed (simp add: stats_poll_def)

lemma check_codes: "check_map_fd_info i j \<in> {0, EXIT_FAIL}"
  by (auto simp: check_map_fd_info_def)

text \<open>The inner loop never returns a negative number, so the outer one always opens the map again.\<close>

lemma main_loop_step:
  "main_loop (Suc fuel) e n dir junk info =
     (let (fd, info1) = open_bpf_map_file (obj_get e n) (obj_info e n) dir ''xdp_stats_map'' (Some info) in
      if fd < 0 then (Return EXIT_FAIL_BPF, [], n)
      else if check_map_fd_info (the info1) map_expect \<noteq> 0 then (Return EXIT_FAIL, [], n)
      else case stats_poll fuel e n dir fd (map_id (the info1)) (map_type (the info1)) junk of
        (Return r, out, n') \<Rightarrow> let (res, out', n'') = main_loop fuel e n' dir junk (the info1) in (res, out @ out', n'')
      | (res, out, n') \<Rightarrow> (res, out, n'))"
  using check_codes stats_poll_results [of fuel e n dir]
  by (auto simp: Let_def EXIT_FAIL_BPF_def EXIT_FAIL_def split: prod.splits run.splits) fastforce+

declare main_loop.simps(2) [simp del]

lemma main_loop_results:
  "fst (main_loop fuel e n dir junk info) \<in> {Running, Exit EXIT_FAIL, Return EXIT_FAIL, Return EXIT_FAIL_BPF}"
proof (induction fuel arbitrary: n info)
  case (Suc fuel)
  obtain fd info1 where o: "open_bpf_map_file (obj_get e n) (obj_info e n) dir ''xdp_stats_map'' (Some info) = (fd, info1)"
    by fastforce
  obtain r out n' where p: "stats_poll fuel e n dir fd (map_id (the info1)) (map_type (the info1)) junk = (r, out, n')"
    using prod_cases3 by blast
  show ?case
    using o p stats_poll_results [OF p] Suc.IH [of n' "the info1"]
    by (auto simp: main_loop_step Let_def split: prod.splits)
qed simp

lemma main_loop_ends:
  assumes N: "\<And>m. N \<le> m \<Longrightarrow> obj_get e m (snprintf PATH_MAX (dir @ ''/xdp_stats_map'')) < 0"
  shows "N \<le> n + 5 * fuel \<Longrightarrow> fst (main_loop (Suc fuel) e n dir junk info) \<noteq> Running"
proof (induction fuel arbitrary: n info)
  case 0
  then show ?case using N [of n] by (simp add: main_loop_step open_bpf_map_file_def Let_def)
next
  case (Suc fuel)
  obtain fd info1 where o: "open_bpf_map_file (obj_get e n) (obj_info e n) dir ''xdp_stats_map'' (Some info) = (fd, info1)"
    by fastforce
  obtain r out n' where p: "stats_poll (Suc fuel) e n dir fd (map_id (the info1)) (map_type (the info1)) junk = (r, out, n')"
    using prod_cases3 by blast
  have r: "r \<noteq> Running"
    using stats_poll_ends [OF N, where n = n and fuel = fuel and fd = fd and mid = "map_id (the info1)"
        and mtype = "map_type (the info1)" and junk = junk] p Suc.prems by simp
  have "fst (main_loop (Suc fuel) e n' dir junk (the info1)) \<noteq> Running" if "r \<noteq> Exit EXIT_FAIL"
    using stats_poll_results [OF p] that Suc.prems by (intro Suc.IH) auto
  then show ?case
    using o p r stats_poll_results [OF p]
    by (subst main_loop_step) (auto simp: Let_def split: prod.splits)
qed

text \<open>
  C11: \<^verbatim>\<open>xdp_stats\<close> never ends with \<^verbatim>\<open>EXIT_OK\<close>: its loop ends only by \<^verbatim>\<open>EXIT_FAIL_BPF\<close>, a refused map
  or a failing clock, and the test \<^verbatim>\<open>err < 0\<close> after \<^verbatim>\<open>stats_poll\<close> never holds. It does end when the
  pinned map disappears: from the reading after which the file is gone, at most that many rounds.
\<close>

theorem xdp_stats_ends:
  assumes "\<And>m. N \<le> m \<Longrightarrow> obj_get e m (snprintf PATH_MAX (dir @ ''/xdp_stats_map'')) < 0"
  shows "fst (main_loop (Suc N) e 0 dir junk info) \<in> {Exit EXIT_FAIL, Return EXIT_FAIL, Return EXIT_FAIL_BPF} \<and>
    fst (main_loop fuel e 0 dir junk info) \<in> {Running, Exit EXIT_FAIL, Return EXIT_FAIL, Return EXIT_FAIL_BPF}"
  using main_loop_ends [OF assms, where n = 0 and fuel = N and junk = junk and info = info] main_loop_results [of "Suc N" e 0 dir junk info]
    main_loop_results [of fuel e 0 dir junk info] by auto

theorem xdp_stats_ends_witness:
  "fst (main_loop (Suc 3) \<lparr>clock_gettime = \<lambda>n. Some (of_nat n, 0), lookup_array = \<lambda>_ _ _. None,
       lookup_percpu = \<lambda>_ _ key. None, num_possible_cpus = 2,
       obj_get = \<lambda>n _. if n < 3 then 5 else -2, obj_info = \<lambda>_ _. None\<rparr> 0 ''/sys/fs/bpf/eth0''
       \<lparr>rx_packets = 0, rx_bytes = 0\<rparr> no_info)
     \<in> {Exit EXIT_FAIL, Return EXIT_FAIL, Return EXIT_FAIL_BPF}"
  using xdp_stats_ends [of 3 "\<lparr>clock_gettime = \<lambda>n. Some (of_nat n, 0), lookup_array = \<lambda>_ _ _. None,
       lookup_percpu = \<lambda>_ _ key. None, num_possible_cpus = 2,
       obj_get = \<lambda>n _. if n < 3 then 5 else -2, obj_info = \<lambda>_ _. None\<rparr>" "''/sys/fs/bpf/eth0''"]
  by simp

end
