(* ===== verification/Libbpf_Maps.thy ===== *)
theory Libbpf_Maps
  imports User_Bpf
begin

text \<open>
  \<^verbatim>\<open>common/common_libbpf.c\<close>: \<^verbatim>\<open>bpf_prog_load_xattr_maps\<close>, which loads a BPF object and shares maps through
  pinned files: a map whose file exists is replaced by the pinned one, the others are pinned after
  the object is loaded. \<^verbatim>\<open>bpf_map__reuse_fd\<close> and the accessors of a map are those of \<^verbatim>\<open>libbpf.c\<close>. The
  system calls and the loading of an object are the fields of the record \<open>libbpf\<close>; a system call
  that fails is the negative error number.
\<close>

section \<open>Model\<close>

record bpf_pinned_map =
  pm_name :: string
  pm_filename :: string
  map_fd :: int

record bpf_prog =
  prog_ifindex :: int
  prog_type :: u32
  attach_type :: u32

record bpf_map_def =
  def_type :: u32
  def_key_size :: u32
  def_value_size :: u32
  def_max_entries :: u32
  def_map_flags :: u32
  def_btf_key_type_id :: u32
  def_btf_value_type_id :: u32
  def_map_extra :: u64

record kern_map_info =
  info_name :: string
  info_def :: bpf_map_def

text \<open>\<open>real_name\<close> is there for the maps that \<^verbatim>\<open>map_uses_real_name\<close> holds for.\<close>

record bpf_map =
  map_name :: string
  real_name :: "string option"
  offload_neutral :: bool
  map_ifindex :: int
  bmap_fd :: int
  reused :: bool
  map_def :: bpf_map_def

record bpf_object =
  progs :: "bpf_prog list"
  maps :: "bpf_map list"


record libbpf =
  open_xattr :: "string \<Rightarrow> u32 \<Rightarrow> bpf_object option"
  bpf_obj_get :: "string \<Rightarrow> int"
  map_get_info_by_fd :: "int \<Rightarrow> int + kern_map_info"
  map_info_from_fdinfo :: "int \<Rightarrow> int + kern_map_info"
  strdup_ok :: "string \<Rightarrow> bool"
  open_root :: int
  sys_dup3 :: "int \<Rightarrow> int \<Rightarrow> int"
  sys_close :: "int \<Rightarrow> int"
  object_load :: "bpf_object \<Rightarrow> int \<times> bpf_object"
  map_pin :: "string \<Rightarrow> string \<Rightarrow> int"
  program_fd :: "bpf_prog \<Rightarrow> int"

subsection \<open>Maps of an object\<close>

definition bpf_map__name :: "bpf_map \<Rightarrow> string" where
  "bpf_map__name m = (case real_name m of Some n \<Rightarrow> n | None \<Rightarrow> map_name m)"

definition bpf_map__set_ifindex :: "int \<Rightarrow> bpf_map \<Rightarrow> bpf_map" where
  "bpf_map__set_ifindex ifi m = (if bmap_fd m \<ge> 0 then m else m\<lparr>map_ifindex := ifi\<rparr>)"


definition BPF_OBJ_NAME_LEN :: nat where "BPF_OBJ_NAME_LEN = 16"

text \<open>The name the map has afterwards: its own one when the kernel holds its truncation.\<close>

definition reuse_name :: "bpf_map \<Rightarrow> kern_map_info \<Rightarrow> string" where
  "reuse_name m info =
     (let name_len = length (info_name info) in
      if name_len = BPF_OBJ_NAME_LEN - 1 \<and> take name_len (map_name m) = info_name info
      then map_name m else info_name info)"


subsection \<open>Loading\<close>









section \<open>Reusing a pinned map\<close>

text \<open>When a map can be replaced by the one behind \<open>fd\<close>, in terms of the system calls.\<close>

definition can_reuse :: "libbpf \<Rightarrow> bpf_map \<Rightarrow> int \<Rightarrow> bool" where
  "can_reuse lib m fd \<longleftrightarrow>
     (\<exists>info. (map_get_info_by_fd lib fd = Inr info \<or>
              map_get_info_by_fd lib fd = Inl (- EINVAL) \<and> map_info_from_fdinfo lib fd = Inr info) \<and>
        strdup_ok lib (reuse_name m info)) \<and>
     0 \<le> open_root lib \<and> 0 \<le> sys_dup3 lib fd (open_root lib) \<and>
     (0 \<le> bmap_fd m \<longrightarrow> sys_close lib (bmap_fd m) = 0)"




section \<open>The pinned maps\<close>




text \<open>An entry after the pinned files of the maps named in \<open>N\<close> have been tried.\<close>

definition tried :: "libbpf \<Rightarrow> string set \<Rightarrow> bpf_pinned_map \<Rightarrow> bpf_pinned_map" where
  "tried lib N p = (if pm_name p \<in> N \<and> 0 < bpf_obj_get lib (pm_filename p)
     then p\<lparr>map_fd := bpf_obj_get lib (pm_filename p)\<rparr> else p)"

lemma tried_sel [simp]: "pm_name (tried lib N p) = pm_name p" "pm_filename (tried lib N p) = pm_filename p"
  by (simp_all add: tried_def)



text \<open>The entry \<open>p\<close> replaces the map \<open>m\<close>.\<close>

definition replaces :: "libbpf \<Rightarrow> bpf_pinned_map \<Rightarrow> bpf_map \<Rightarrow> bool" where
  "replaces lib p m \<longleftrightarrow> pm_name p = bpf_map__name m \<and> 0 < bpf_obj_get lib (pm_filename p) \<and>
     can_reuse lib m (bpf_obj_get lib (pm_filename p))"

lemma replaces_tried [simp]: "replaces lib (tried lib N p) m = replaces lib p m"
  by (simp add: replaces_def)

lemma ifindex_sel [simp]:
  "bpf_map__name (m\<lparr>map_ifindex := i\<rparr>) = bpf_map__name m" "reuse_name (m\<lparr>map_ifindex := i\<rparr>) info = reuse_name m info"
  by (simp_all add: bpf_map__name_def reuse_name_def cong: if_cong option.case_cong)

lemma replaces_ifindex [simp]: "replaces lib p (m\<lparr>map_ifindex := i\<rparr>) = replaces lib p m"
  by (simp add: replaces_def can_reuse_def)



text \<open>The first pass over the maps.\<close>

definition prepared :: "int \<Rightarrow> bpf_map \<Rightarrow> bpf_map" where
  "prepared ifi m = (if offload_neutral m then m else bpf_map__set_ifindex ifi m)"

lemma prepared_sel [simp]:
  "bpf_map__name (prepared ifi m) = bpf_map__name m" "real_name (prepared ifi m) = real_name m"
  "replaces lib p (prepared ifi m) = replaces lib p m"
  by (simp_all add: prepared_def bpf_map__set_ifindex_def)












end
