(* ===== verification/Loader.thy ===== *)
theory Loader
  imports Params Stats_Kern
begin

text \<open>
  \<^verbatim>\<open>basic-solutions/xdp_loader.c\<close>: the program that loads and attaches an XDP program and pins its maps.
  The file system and libbpf calls are parameters; the calls that change pinned maps are recorded in
  order. Also the option tables of \<^verbatim>\<open>xdp_loader.c\<close> and \<^verbatim>\<open>xdp_stats.c\<close>.
\<close>

section \<open>Model\<close>

definition option_row :: "string \<Rightarrow> bool \<Rightarrow> int \<Rightarrow> string \<Rightarrow> string option \<Rightarrow> bool \<Rightarrow> option_wrapper" where
  "option_row name arg val help meta req =
     \<lparr>wrapped = \<lparr>opt_name = Some name, has_arg = arg, opt_val = val\<rparr>,
      help_text = Some help, metavar = meta, required = req\<rparr>"

definition opt_end :: option_wrapper where
  "opt_end = \<lparr>wrapped = \<lparr>opt_name = None, has_arg = False, opt_val = 0\<rparr>,
     help_text = None, metavar = None, required = False\<rparr>"

definition loader_options :: "option_wrapper list" where
  "loader_options =
    [option_row ''help'' False 104 ''Show help'' None False,
     option_row ''dev'' True 100 ''Operate on device <ifname>'' (Some ''<ifname>'') True,
     option_row ''skb-mode'' False 83 ''Install XDP program in SKB (AKA generic) mode'' None False,
     option_row ''native-mode'' False 78 ''Install XDP program in native mode'' None False,
     option_row ''auto-mode'' False 65 ''Auto-detect SKB or native mode'' None False,
     option_row ''force'' False 70 ''Force install, replacing existing program on interface'' None False,
     option_row ''unload'' False 85 ''Unload XDP program instead of loading'' None False,
     option_row ''reuse-maps'' False 77 ''Reuse pinned maps'' None False,
     option_row ''quiet'' False 113 ''Quiet mode (no output)'' None False,
     option_row ''filename'' True 1 ''Load program from <file>'' (Some ''<file>'') False,
     option_row ''progname'' True 2 ''Load program from function <name> in the ELF file'' (Some ''<name>'') False,
     opt_end]"

definition stats_options :: "option_wrapper list" where
  "stats_options =
    [option_row ''help'' False 104 ''Show help'' None False,
     option_row ''dev'' True 100 ''Operate on device <ifname>'' (Some ''<ifname>'') True,
     option_row ''quiet'' False 113 ''Quiet mode (no output)'' None False,
     opt_end]"

definition pin_basedir :: string where "pin_basedir = ''/sys/fs/bpf''"
definition loader_map_name :: string where "loader_map_name = ''xdp_stats_map''"
definition default_filename :: string where "default_filename = ''xdp_prog_kern.o''"

datatype pin_call = Unpin_Maps string | Pin_Maps string

definition pin_maps_in_bpf_object ::
  "(string \<Rightarrow> bool) \<Rightarrow> (string \<Rightarrow> int) \<Rightarrow> (string \<Rightarrow> int) \<Rightarrow> config \<Rightarrow> int \<times> pin_call list" where
  "pin_maps_in_bpf_object access unpin_maps pin_maps cfg =
     (let dir = c_str (pin_dir cfg);
          map_filename = snprintf PATH_MAX (dir @ ''/'' @ c_str (ifname_buf cfg) @ ''/'' @ loader_map_name);
          found = access map_filename;
          before = (if found then [Unpin_Maps dir] else [])
      in if found \<and> unpin_maps dir \<noteq> 0 then (EXIT_FAIL_BPF, before)
         else if pin_maps dir \<noteq> 0 then (EXIT_FAIL_BPF, before @ [Pin_Maps dir])
         else (0, before @ [Pin_Maps dir]))"

text \<open>The configuration that \<^verbatim>\<open>main\<close> passes to the command line parser.\<close>

definition loader_config :: config where
  "loader_config = config0\<lparr>attach_mode := XDP_MODE_NATIVE, ifindex := -1, do_unload_flag := False,
     filename := strncpy 512 default_filename\<rparr>"

text \<open>\<^verbatim>\<open>main\<close> behind the parser; \<open>Inl\<close> in the first component is \<^verbatim>\<open>exit\<close>, \<open>Inr\<close> is \<^verbatim>\<open>return\<close>.\<close>

definition main_loader ::
  "(config \<Rightarrow> int + 'prog) \<Rightarrow> (string \<Rightarrow> bool) \<Rightarrow> (string \<Rightarrow> int) \<Rightarrow> (string \<Rightarrow> int) \<Rightarrow> config \<Rightarrow>
   (int + int) \<times> pin_call list" where
  "main_loader load_attach access unpin_maps pin_maps cfg =
     (if ifindex cfg = -1 then (Inr EXIT_FAIL_OPTION, [])
      else
        let cfg1 = cfg\<lparr>pin_dir := strncpy 512 (snprintf 512 (pin_basedir @ ''/'' @ c_str (ifname_buf cfg)))\<rparr>
        in case load_attach cfg1 of
             Inl code \<Rightarrow> (Inl code, [])
           | Inr program \<Rightarrow>
               if reuse_maps_flag cfg1 then (Inr EXIT_OK, [])
               else
                 let (err, calls) = pin_maps_in_bpf_object access unpin_maps pin_maps cfg1 in
                 if err \<noteq> 0 then (Inr err, calls) else (Inr EXIT_OK, calls))"

section \<open>Properties\<close>

lemma c_str_no_nul [simp]: "CHR 0x00 \<notin> set (c_str s)"
  by (auto simp: c_str_def dest: set_takeWhileD)

lemma c_str_idem [simp]: "c_str (c_str s) = c_str s"
  by (simp add: c_str_def takeWhile_idem)

lemma pin_dir_str:
  assumes "length (c_str (ifname_buf cfg)) \<le> 16"
  shows "c_str (strncpy 512 (snprintf 512 (pin_basedir @ ''/'' @ c_str (ifname_buf cfg)))) =
    ''/sys/fs/bpf/'' @ c_str (ifname_buf cfg)"
proof -
  let ?s = "pin_basedir @ ''/'' @ c_str (ifname_buf cfg)"
  have nul: "CHR 0x00 \<notin> set ?s" by (simp add: pin_basedir_def)
  have "length ?s \<le> 511" using assms by (simp add: pin_basedir_def)
  then have "snprintf 512 ?s = ?s" by (simp add: snprintf_def)
  then show ?thesis using strncpy_str(1) [OF nul, of 512] \<open>length ?s \<le> 511\<close> by (simp add: pin_basedir_def)
qed

text \<open>
  how the loader treats pinned maps. Maps are pinned under \<^verbatim>\<open>/sys/fs/bpf/<dev>\<close>, but whether an
  earlier run has left maps there is decided by a file with the device name twice in its path,
  \<^verbatim>\<open>/sys/fs/bpf/<dev>/<dev>/xdp_stats_map\<close>. When that file does not exist nothing is unpinned, so
  if the pinning call fails because \<^verbatim>\<open>/sys/fs/bpf/<dev>/xdp_stats_map\<close> is still there, the loader
  fails with \<^verbatim>\<open>EXIT_FAIL_BPF\<close> after having attached the program. The option \<^verbatim>\<open>--unload\<close> changes
  nothing: the program is loaded all the same.
\<close>

theorem loader_pinning:
  assumes dev: "ifindex cfg \<noteq> -1" "length (c_str (ifname_buf cfg)) \<le> 16" "\<not> reuse_maps_flag cfg"
    and attached: "\<And>c. load c = Inr prog"
  defines "dev \<equiv> c_str (ifname_buf cfg)"
  defines "dir \<equiv> ''/sys/fs/bpf/'' @ dev"
  shows "main_loader load access unpin pin cfg =
    (let old = access (dir @ ''/'' @ dev @ ''/xdp_stats_map'');
         calls = (if old then [Unpin_Maps dir] else [])
     in if old \<and> unpin dir \<noteq> 0 then (Inr EXIT_FAIL_BPF, calls)
        else (Inr (if pin dir \<noteq> 0 then EXIT_FAIL_BPF else EXIT_OK), calls @ [Pin_Maps dir])) \<and>
    main_loader load access unpin pin (cfg\<lparr>do_unload_flag := True\<rparr>) = main_loader load access unpin pin cfg"
proof -
  let ?cfg1 = "\<lambda>c. c\<lparr>pin_dir := strncpy 512 (snprintf 512 (pin_basedir @ ''/'' @ c_str (ifname_buf c)))\<rparr>"
  have d: "c_str (pin_dir (?cfg1 cfg)) = dir" "c_str (ifname_buf (?cfg1 cfg)) = dev"
    using pin_dir_str [OF dev(2)] by (simp_all add: dir_def dev_def)
  have "length (dir @ ''/'' @ dev @ ''/'' @ loader_map_name) < 4096"
    using dev(2) by (simp add: dir_def dev_def loader_map_name_def)
  then have path: "snprintf PATH_MAX (dir @ ''/'' @ dev @ ''/'' @ loader_map_name) = dir @ ''/'' @ dev @ ''/xdp_stats_map''"
    by (simp add: snprintf_def PATH_MAX_def loader_map_name_def)
  have "main_loader load access unpin pin cfg =
    (let old = access (dir @ ''/'' @ dev @ ''/xdp_stats_map'');
         calls = (if old then [Unpin_Maps dir] else [])
     in if old \<and> unpin dir \<noteq> 0 then (Inr EXIT_FAIL_BPF, calls)
        else (Inr (if pin dir \<noteq> 0 then EXIT_FAIL_BPF else EXIT_OK), calls @ [Pin_Maps dir]))"
    using dev(1,3) attached d path
    by (simp add: main_loader_def pin_maps_in_bpf_object_def Let_def EXIT_FAIL_BPF_def EXIT_OK_def)
  moreover have "main_loader load access unpin pin (cfg\<lparr>do_unload_flag := True\<rparr>) = main_loader load access unpin pin cfg"
    using attached by (simp add: main_loader_def pin_maps_in_bpf_object_def Let_def)
  ultimately show ?thesis by blast
qed

theorem loader_pinning_witness:
  "main_loader (\<lambda>_. Inr ()) (\<lambda>p. p = ''/sys/fs/bpf/eth0/xdp_stats_map'') (\<lambda>_. 0) (\<lambda>_. -17)
     (loader_config\<lparr>ifindex := 3, ifname_set := True, ifname_buf := strncpy 16 ''eth0''\<rparr>) =
   (Inr EXIT_FAIL_BPF, [Pin_Maps ''/sys/fs/bpf/eth0''])"
proof -
  have n: "c_str (strncpy 16 ''eth0'') = ''eth0''" by (simp add: strncpy_str)
  show ?thesis
    using loader_pinning [of "loader_config\<lparr>ifindex := 3, ifname_set := True, ifname_buf := strncpy 16 ''eth0''\<rparr>"
        "\<lambda>_. Inr ()" "()" "\<lambda>p. p = ''/sys/fs/bpf/eth0/xdp_stats_map''" "\<lambda>_. 0" "\<lambda>_. -17"]
    by (simp add: n loader_config_def config0_def Let_def)
qed

text \<open>
  the option tables of \<^verbatim>\<open>xdp_loader\<close> and \<^verbatim>\<open>xdp_stats\<close> end with the terminating entry and their
  usage texts, short and full, are printed without leaving the line buffer.
\<close>

theorem program_usage_texts:
  "(\<exists>t. usage prog doc loader_options full = Some t) \<and> (\<exists>t. usage prog doc stats_options full = Some t)"
proof -
  have last: "\<not> named opt_end" by (simp add: named_def opt_end_def)
  have "\<exists>t. usage prog doc (butlast tbl @ opt_end # []) full = Some t"
    if "list_all named (butlast tbl)" "list_all fits (butlast tbl)" for tbl
    using usage_total [OF that(1) last] that(2) by simp
  from this [of loader_options] this [of stats_options] show ?thesis
    by (simp add: loader_options_def stats_options_def option_row_def opt_end_def named_def fits_def)
qed

end
