(* ===== verification/Hashmap.thy ===== *)
theory Hashmap
  imports Prelude "HOL-Library.Multiset"
begin

text \<open>
  \<^verbatim>\<open>lib/libbpf/src/hashmap.c\<close> and \<^verbatim>\<open>hashmap.h\<close>: the chained hash table of libbpf. A bucket is the list of
  the entries of its chain, first entry first; \<open>None\<close> for the bucket array is NULL. Keys and values are
  64-bit \<^verbatim>\<open>long\<close>s. The success of \<^verbatim>\<open>calloc\<close>, as a function of the number of buckets, and of \<^verbatim>\<open>malloc\<close> are
  parameters. Sizes are natural numbers: the number of buckets stays below \<open>2 ^ 61\<close>, since
  \<^verbatim>\<open>calloc\<close> refuses more than the address space holds.
\<close>

section \<open>Model\<close>

definition hash_bits :: "u64 \<Rightarrow> nat \<Rightarrow> u64" where
  "hash_bits h bits = (if bits = 0 then 0 else drop_bit (64 - bits) (h * 11400714819323198485))"

fun str_hash_loop :: "string \<Rightarrow> u64 \<Rightarrow> u64" where
  "str_hash_loop [] h = h"
| "str_hash_loop (c # s) h = str_hash_loop s (h * 31 + word_of_int (sint (of_char c :: u8)))"

definition str_hash :: "string \<Rightarrow> u64" where
  "str_hash s = str_hash_loop s 0"

record hashmap_entry =
  hkey :: u64
  hvalue :: u64

record hashmap =
  hash_fn :: "u64 \<Rightarrow> u64"
  equal_fn :: "u64 \<Rightarrow> u64 \<Rightarrow> bool"
  buckets :: "hashmap_entry list list option"
  cap :: nat
  cap_bits :: nat
  sz :: nat

definition HASHMAP_MIN_CAP_BITS :: nat where "HASHMAP_MIN_CAP_BITS = 2"

datatype hashmap_insert_strategy = HASHMAP_ADD | HASHMAP_SET | HASHMAP_UPDATE | HASHMAP_APPEND

definition hashmap_add_entry :: "nat \<Rightarrow> hashmap_entry \<Rightarrow> hashmap_entry list list \<Rightarrow> hashmap_entry list list" where
  "hashmap_add_entry h e bs = bs[h := e # bs ! h]"

definition hashmap_del_entry :: "nat \<Rightarrow> nat \<Rightarrow> hashmap_entry list list \<Rightarrow> hashmap_entry list list" where
  "hashmap_del_entry h i bs = bs[h := take i (bs ! h) @ drop (Suc i) (bs ! h)]"

definition hashmap_init :: "(u64 \<Rightarrow> u64) \<Rightarrow> (u64 \<Rightarrow> u64 \<Rightarrow> bool) \<Rightarrow> hashmap" where
  "hashmap_init hash equal =
     \<lparr>hash_fn = hash, equal_fn = equal, buckets = None, cap = 0, cap_bits = 0, sz = 0\<rparr>"

definition hashmap_new :: "bool \<Rightarrow> (u64 \<Rightarrow> u64) \<Rightarrow> (u64 \<Rightarrow> u64 \<Rightarrow> bool) \<Rightarrow> int + hashmap" where
  "hashmap_new malloc_ok hash equal =
     (if \<not> malloc_ok then Inl (- ENOMEM) else Inr (hashmap_init hash equal))"

definition hashmap_clear :: "hashmap \<Rightarrow> hashmap" where
  "hashmap_clear m = m\<lparr>buckets := None, cap := 0, cap_bits := 0, sz := 0\<rparr>"

text \<open>What is cleared before the table itself is freed: nothing for an error pointer.\<close>

definition hashmap_free :: "int + hashmap \<Rightarrow> hashmap option" where
  "hashmap_free p = (case p of Inl _ \<Rightarrow> None | Inr m \<Rightarrow> Some (hashmap_clear m))"

definition hashmap_size :: "hashmap \<Rightarrow> nat" where
  "hashmap_size m = sz m"

definition hashmap_capacity :: "hashmap \<Rightarrow> nat" where
  "hashmap_capacity m = cap m"

definition hashmap_needs_to_grow :: "hashmap \<Rightarrow> bool" where
  "hashmap_needs_to_grow m \<longleftrightarrow> cap m = 0 \<or> (sz m + 1) * 4 div 3 > cap m"

text \<open>The entries in the order of \<^verbatim>\<open>hashmap__for_each_entry\<close>.\<close>

definition hashmap_entries :: "hashmap \<Rightarrow> hashmap_entry list" where
  "hashmap_entries m = (case buckets m of None \<Rightarrow> [] | Some bs \<Rightarrow> concat bs)"

definition hashmap_grow :: "(nat \<Rightarrow> bool) \<Rightarrow> hashmap \<Rightarrow> int \<times> hashmap" where
  "hashmap_grow calloc_ok m =
     (let bits0 = cap_bits m + 1;
          new_cap_bits = (if bits0 < HASHMAP_MIN_CAP_BITS then HASHMAP_MIN_CAP_BITS else bits0);
          new_cap = 2 ^ new_cap_bits
      in if \<not> calloc_ok new_cap then (- ENOMEM, m)
         else
           let new_buckets = fold (\<lambda>e bs. hashmap_add_entry (unat (hash_bits (hash_fn m (hkey e)) new_cap_bits)) e bs)
                 (hashmap_entries m) (replicate new_cap [])
           in (0, m\<lparr>cap := new_cap, cap_bits := new_cap_bits, buckets := Some new_buckets\<rparr>))"

fun find_pos :: "(hashmap_entry \<Rightarrow> bool) \<Rightarrow> hashmap_entry list \<Rightarrow> nat option" where
  "find_pos p [] = None"
| "find_pos p (e # es) = (if p e then Some 0 else map_option Suc (find_pos p es))"

text \<open>The position of the entry in its chain.\<close>

definition hashmap_find_entry :: "hashmap \<Rightarrow> u64 \<Rightarrow> nat \<Rightarrow> nat option" where
  "hashmap_find_entry m key h =
     (case buckets m of None \<Rightarrow> None | Some bs \<Rightarrow> find_pos (\<lambda>e. equal_fn m (hkey e) key) (bs ! h))"

definition bucket_of :: "hashmap \<Rightarrow> u64 \<Rightarrow> nat" where
  "bucket_of m key = unat (hash_bits (hash_fn m key) (cap_bits m))"

definition chain :: "hashmap \<Rightarrow> nat \<Rightarrow> hashmap_entry list" where
  "chain m h = (case buckets m of None \<Rightarrow> [] | Some bs \<Rightarrow> bs ! h)"

text \<open>The result: return value, old key and value, and the table.\<close>

definition hashmap_insert ::
  "(nat \<Rightarrow> bool) \<Rightarrow> bool \<Rightarrow> hashmap \<Rightarrow> u64 \<Rightarrow> u64 \<Rightarrow> hashmap_insert_strategy \<Rightarrow> int \<times> (u64 \<times> u64) \<times> hashmap" where
  "hashmap_insert calloc_ok malloc_ok m key val strategy =
     (let h = bucket_of m key;
          found = (if strategy \<noteq> HASHMAP_APPEND then hashmap_find_entry m key h else None);
          old = (case found of None \<Rightarrow> (0, 0) | Some i \<Rightarrow> (hkey (chain m h ! i), hvalue (chain m h ! i)));
          new = \<lparr>hkey = key, hvalue = val\<rparr>
      in if found \<noteq> None \<and> strategy \<in> {HASHMAP_SET, HASHMAP_UPDATE}
         then (0, old, m\<lparr>buckets := map_option (\<lambda>bs. bs[h := (bs ! h)[the found := new]]) (buckets m)\<rparr>)
         else if found \<noteq> None \<and> strategy = HASHMAP_ADD then (- EEXIST, old, m)
         else if strategy = HASHMAP_UPDATE then (- ENOENT, old, m)
         else
           let (err, m1) = (if hashmap_needs_to_grow m then hashmap_grow calloc_ok m else (0, m)) in
           if err \<noteq> 0 then (err, old, m1)
           else if \<not> malloc_ok then (- ENOMEM, old, m1)
           else (0, old, m1\<lparr>buckets := map_option (hashmap_add_entry (bucket_of m1 key) new) (buckets m1),
                           sz := sz m1 + 1\<rparr>))"

definition hashmap_find :: "hashmap \<Rightarrow> u64 \<Rightarrow> u64 option" where
  "hashmap_find m key =
     (let h = bucket_of m key in
      case hashmap_find_entry m key h of None \<Rightarrow> None | Some i \<Rightarrow> Some (hvalue (chain m h ! i)))"

definition hashmap_delete :: "hashmap \<Rightarrow> u64 \<Rightarrow> (u64 \<times> u64) option \<times> hashmap" where
  "hashmap_delete m key =
     (let h = bucket_of m key in
      case hashmap_find_entry m key h of
        None \<Rightarrow> (None, m)
      | Some i \<Rightarrow>
          (Some (hkey (chain m h ! i), hvalue (chain m h ! i)),
           m\<lparr>buckets := map_option (hashmap_del_entry h i) (buckets m), sz := sz m - 1\<rparr>))"

text \<open>The values that \<^verbatim>\<open>hashmap__for_each_key_entry\<close> visits for a key.\<close>

definition hashmap_key_entries :: "hashmap \<Rightarrow> u64 \<Rightarrow> u64 list" where
  "hashmap_key_entries m key =
     map hvalue (filter (\<lambda>e. equal_fn m (hkey e) key) (chain m (bucket_of m key)))"

section \<open>The invariant\<close>

definition hm_wf :: "hashmap \<Rightarrow> bool" where
  "hm_wf m \<longleftrightarrow>
     (case buckets m of
        None \<Rightarrow> cap m = 0 \<and> cap_bits m = 0 \<and> sz m = 0
      | Some bs \<Rightarrow> length bs = cap m \<and> cap m = 2 ^ cap_bits m \<and> 2 \<le> cap_bits m \<and> cap_bits m < 61 \<and>
          sz m = length (concat bs) \<and> sz m \<le> cap m \<and>
          (\<forall>i<length bs. \<forall>e\<in>set (bs ! i). bucket_of m (hkey e) = i))"

lemma hash_bits_bound: "bits < 64 \<Longrightarrow> unat (hash_bits h bits) < 2 ^ bits"
proof -
  assume bits: "bits < 64"
  let ?w = "h * 11400714819323198485 :: u64"
  have "unat ?w < 2 ^ 64" using unsigned_less [where ?'a = nat, of ?w] by simp
  moreover have "(2::nat) ^ 64 = 2 ^ (64 - bits) * 2 ^ bits" using bits by (simp flip: power_add)
  ultimately have "unat ?w div 2 ^ (64 - bits) < 2 ^ bits"
    by (simp add: less_mult_imp_div_less mult.commute)
  then have "drop_bit (64 - bits) (unat ?w) < 2 ^ bits" by (simp add: drop_bit_eq_div)
  moreover have "take_bit 64 (unat ?w) = unat ?w"
    using \<open>unat ?w < 2 ^ 64\<close> by (rule take_bit_nat_eq_self)
  ultimately show ?thesis by (simp add: hash_bits_def unsigned_drop_bit_eq)
qed

lemma bucket_bound: "hm_wf m \<Longrightarrow> buckets m = Some bs \<Longrightarrow> bucket_of m k < length bs"
  using hash_bits_bound [of "cap_bits m" "hash_fn m k"] by (simp add: hm_wf_def bucket_of_def)

lemma find_pos_Some: "find_pos p es = Some i \<Longrightarrow> i < length es \<and> p (es ! i)"
  by (induction es arbitrary: i) (auto split: if_splits)

lemma find_pos_None: "find_pos p es = None \<longleftrightarrow> filter p es = []"
  by (induction es) auto

lemma find_pos_first: "find_pos p es = Some i \<Longrightarrow> es ! i = hd (filter p es)"
  by (induction es arbitrary: i) (auto split: if_splits)

text \<open>The contents as a multiset.\<close>

definition ents :: "hashmap \<Rightarrow> hashmap_entry multiset" where
  "ents m = mset (hashmap_entries m)"

lemma mset_concat_update:
  assumes "h < length bs"
  shows "mset (concat (bs[h := c])) = mset (concat bs) - mset (bs ! h) + mset c"
proof -
  have bs: "bs = take h bs @ bs ! h # drop (Suc h) bs" using assms by (simp add: id_take_nth_drop)
  have "mset (concat (bs[h := c])) = mset (concat (take h bs)) + mset c + mset (concat (drop (Suc h) bs))"
    using assms by (simp add: upd_conv_take_nth_drop)
  moreover have "mset (concat bs) = mset (concat (take h bs)) + mset (bs ! h) + mset (concat (drop (Suc h) bs))"
    by (subst bs) simp
  ultimately show ?thesis by simp
qed

lemma mset_bucket: "h < length bs \<Longrightarrow> mset (bs ! h) \<subseteq># mset (concat bs)"
  by (metis concat_append concat.simps(2) id_take_nth_drop mset_append mset_subset_eq_add_left
      mset_subset_eq_add_right subset_mset.trans)

lemma ents_Some: "buckets m = Some bs \<Longrightarrow> ents m = mset (concat bs)"
  by (simp add: ents_def hashmap_entries_def)

lemma chain_Some: "buckets m = Some bs \<Longrightarrow> chain m h = bs ! h"
  by (simp add: chain_def)

lemma replace_nth_mset: "i < length c \<Longrightarrow> mset (c[i := x]) = mset c - {#c ! i#} + {#x#}"
  by (simp add: mset_update)

lemma remove_nth_mset: "i < length c \<Longrightarrow> mset (take i c @ drop (Suc i) c) = mset c - {#c ! i#}"
  by (subst (3) id_take_nth_drop [of i c]) auto

lemma concat_update_add:
  "h < length bs \<Longrightarrow> mset (concat (hashmap_add_entry h e bs)) = add_mset e (mset (concat bs))"
  using mset_bucket [of h bs] by (simp add: hashmap_add_entry_def mset_concat_update)

lemma concat_update_del:
  "h < length bs \<Longrightarrow> i < length (bs ! h) \<Longrightarrow>
     mset (concat (hashmap_del_entry h i bs)) = mset (concat bs) - {#bs ! h ! i#}"
  using mset_bucket [of h bs]
  by (simp only: hashmap_del_entry_def mset_concat_update remove_nth_mset)
     (simp add: subset_mset.diff_add_assoc2 multiset_diff_union_assoc)

section \<open>Every operation keeps the invariant\<close>

definition placed :: "(u64 \<Rightarrow> nat) \<Rightarrow> hashmap_entry list list \<Rightarrow> bool" where
  "placed f bs \<longleftrightarrow> (\<forall>i<length bs. \<forall>e\<in>set (bs ! i). f (hkey e) = i)"

lemma placed_update:
  "placed f bs \<Longrightarrow> \<forall>e\<in>set c. f (hkey e) = h \<Longrightarrow> placed f (bs[h := c])"
  by (cases "h < length bs") (auto simp: placed_def nth_list_update list_update_beyond split: if_splits)

lemma placed_nth: "placed f bs \<Longrightarrow> i < length bs \<Longrightarrow> e \<in> set (bs ! i) \<Longrightarrow> f (hkey e) = i"
  by (simp add: placed_def)

lemma length_add_entry [simp]: "length (hashmap_add_entry h e bs) = length bs"
  by (simp add: hashmap_add_entry_def)

lemma placed_add:
  "placed f bs \<Longrightarrow> f (hkey e) = h \<Longrightarrow> h < length bs \<Longrightarrow> placed f (hashmap_add_entry h e bs)"
  unfolding hashmap_add_entry_def by (rule placed_update) (auto dest: placed_nth)

lemma placed_del:
  "placed f bs \<Longrightarrow> h < length bs \<Longrightarrow> placed f (hashmap_del_entry h i bs)"
  unfolding hashmap_del_entry_def
  by (rule placed_update) (auto dest: placed_nth in_set_takeD in_set_dropD)

lemma hm_wf_None: "buckets m = None \<Longrightarrow> hm_wf m \<longleftrightarrow> cap m = 0 \<and> cap_bits m = 0 \<and> sz m = 0"
  by (simp add: hm_wf_def)

lemma hm_wf_Some:
  "buckets m = Some bs \<Longrightarrow> hm_wf m \<longleftrightarrow>
     length bs = cap m \<and> cap m = 2 ^ cap_bits m \<and> 2 \<le> cap_bits m \<and> cap_bits m < 61 \<and>
     sz m = size (mset (concat bs)) \<and> sz m \<le> cap m \<and> placed (bucket_of m) bs"
  by (simp add: hm_wf_def placed_def)

lemma sz_ents: "hm_wf m \<Longrightarrow> sz m = size (ents m)"
  by (cases "buckets m") (simp_all add: hm_wf_None hm_wf_Some ents_def hashmap_entries_def)

lemma fold_add_entry:
  assumes "\<And>e. f e < length bs"
  shows "length (fold (\<lambda>e. hashmap_add_entry (f e) e) es bs) = length bs"
    and "mset (concat (fold (\<lambda>e. hashmap_add_entry (f e) e) es bs)) = mset es + mset (concat bs)"
    and "f = g \<circ> hkey \<Longrightarrow> placed g bs \<Longrightarrow> placed g (fold (\<lambda>e. hashmap_add_entry (f e) e) es bs)"
  using assms
  by (induction es arbitrary: bs) (simp_all add: concat_update_add placed_add)

lemma bucket_of_update [simp]:
  "bucket_of (m\<lparr>buckets := b\<rparr>) = bucket_of m" "bucket_of (m\<lparr>sz := n\<rparr>) = bucket_of m"
  by (simp_all add: bucket_of_def fun_eq_iff)

definition calloc_bounded :: "(nat \<Rightarrow> bool) \<Rightarrow> bool" where
  "calloc_bounded calloc_ok \<longleftrightarrow> (\<forall>n. calloc_ok n \<longrightarrow> n * 8 < 2 ^ 64)"

lemma calloc_bits: "calloc_bounded ok \<Longrightarrow> ok (2 ^ n) \<Longrightarrow> n < 61"
proof -
  assume "calloc_bounded ok" "ok (2 ^ n)"
  then have "(2::nat) ^ n * 8 < 2 ^ 64" by (auto simp: calloc_bounded_def)
  then have "(2::nat) ^ n < 2 ^ 61" by simp
  then show ?thesis using power_less_imp_less_exp [of "2::nat" n 61] by simp
qed

lemma hashmap_grow_ok:
  assumes grow: "hashmap_grow ok m = (0, m')" and wf: "hm_wf m" and ok: "calloc_bounded ok"
  shows "hm_wf m'" "ents m' = ents m" "hash_fn m' = hash_fn m" "equal_fn m' = equal_fn m"
    "sz m' = sz m" "sz m' < cap m'" "\<exists>bs. buckets m' = Some bs"
proof -
  define n where "n = (if cap_bits m + 1 < 2 then 2 else cap_bits m + 1)"
  let ?f = "\<lambda>e. unat (hash_bits (hash_fn m (hkey e)) n)"
  let ?bs = "fold (\<lambda>e. hashmap_add_entry (?f e) e) (hashmap_entries m) (replicate (2 ^ n) [])"
  have ok_n: "ok (2 ^ n)" and m': "m' = m\<lparr>cap := 2 ^ n, cap_bits := n, buckets := Some ?bs\<rparr>"
    using grow by (auto simp: hashmap_grow_def Let_def n_def HASHMAP_MIN_CAP_BITS_def ENOMEM_def split: if_splits)
  have n: "n < 61" "2 \<le> n" using calloc_bits [OF ok ok_n] by (auto simp: n_def)
  have f: "\<And>e. ?f e < length (replicate (2 ^ n) ([] :: hashmap_entry list))"
    using hash_bits_bound [of n] n by simp
  note fold = fold_add_entry [where f = ?f, OF f]
  have e: "ents m' = ents m" using fold(2) by (simp add: m' ents_def hashmap_entries_def concat_replicate_trivial)
  have s: "sz m = size (ents m)" by (rule sz_ents [OF wf])
  have c: "sz m < 2 ^ n"
  proof (cases "buckets m")
    case (Some bs)
    then have "sz m \<le> 2 ^ cap_bits m" "2 \<le> cap_bits m" using wf by (auto simp: hm_wf_Some)
    moreover have "(2::nat) ^ cap_bits m < 2 ^ n" using \<open>2 \<le> cap_bits m\<close> by (simp add: n_def)
    ultimately show ?thesis by linarith
  qed (use wf in \<open>simp add: hm_wf_None\<close>)
  have "placed (bucket_of m') ?bs"
    by (rule fold(3)) (auto simp: m' bucket_of_def fun_eq_iff placed_def)
  then show "hm_wf m'"
    using n s c e fold(1) ents_Some [of m' ?bs] by (subst hm_wf_Some [of m' ?bs]) (simp_all add: m')
  show "ents m' = ents m" by (rule e)
  show "hash_fn m' = hash_fn m" "equal_fn m' = equal_fn m" "sz m' = sz m" "sz m' < cap m'"
    "\<exists>bs. buckets m' = Some bs"
    using c by (simp_all add: m')
qed

text \<open>The keys of a table are compared by an equivalence that the hash function respects.\<close>

definition keys_ok :: "hashmap \<Rightarrow> bool" where
  "keys_ok m \<longleftrightarrow> equivp (equal_fn m) \<and> (\<forall>a b. equal_fn m a b \<longrightarrow> hash_fn m a = hash_fn m b)"

lemma keys_ok_refl: "keys_ok m \<Longrightarrow> equal_fn m k k"
  by (simp add: keys_ok_def equivp_reflp)

lemma keys_ok_cong: "keys_ok m \<Longrightarrow> equal_fn m a b \<Longrightarrow> equal_fn m a c = equal_fn m b c"
  unfolding keys_ok_def by (meson equivp_symp equivp_transp)

lemma keys_ok_cong2: "keys_ok m \<Longrightarrow> equal_fn m a b \<Longrightarrow> equal_fn m c a = equal_fn m c b"
  unfolding keys_ok_def by (meson equivp_symp equivp_transp)

lemma keys_ok_sym: "keys_ok m \<Longrightarrow> equal_fn m a b \<Longrightarrow> equal_fn m b a"
  unfolding keys_ok_def by (meson equivp_symp)

lemma keys_ok_bucket: "keys_ok m \<Longrightarrow> equal_fn m a b \<Longrightarrow> bucket_of m a = bucket_of m b"
  by (simp add: keys_ok_def bucket_of_def)

definition matches :: "hashmap \<Rightarrow> u64 \<Rightarrow> hashmap_entry multiset" where
  "matches m k = filter_mset (\<lambda>e. equal_fn m (hkey e) k) (ents m)"

definition hm_uniq :: "hashmap \<Rightarrow> bool" where
  "hm_uniq m \<longleftrightarrow> (\<forall>k. size (matches m k) \<le> 1)"

lemma in_chain_iff:
  assumes "hm_wf m" "keys_ok m" "equal_fn m (hkey e) k"
  shows "e \<in> set (chain m (bucket_of m k)) \<longleftrightarrow> e \<in># ents m"
proof (cases "buckets m")
  case None
  then show ?thesis by (simp add: chain_def ents_def hashmap_entries_def)
next
  case (Some bs)
  have b: "bucket_of m k < length bs" by (rule bucket_bound [OF assms(1) Some])
  have "e \<in> set (bs ! bucket_of m k)" if "i < length bs" "e \<in> set (bs ! i)" for i
    using that placed_nth [of "bucket_of m" bs i e] assms(1) Some keys_ok_bucket [OF assms(2,3)]
    by (simp add: hm_wf_Some)
  moreover have "e \<in> set (concat bs) \<longleftrightarrow> (\<exists>i<length bs. e \<in> set (bs ! i))"
    by (auto simp: in_set_conv_nth) (metis in_set_conv_nth)+
  ultimately show ?thesis using b by (auto simp: Some chain_def ents_def hashmap_entries_def)
qed

text \<open>Finding an entry: what the walk of one chain says about the whole table.\<close>

lemma find_entry_None:
  assumes "hm_wf m" "keys_ok m"
  shows "hashmap_find_entry m k (bucket_of m k) = None \<longleftrightarrow> matches m k = {#}"
proof -
  have "hashmap_find_entry m k (bucket_of m k) = None \<longleftrightarrow>
      (\<forall>e\<in>set (chain m (bucket_of m k)). \<not> equal_fn m (hkey e) k)"
    by (cases "buckets m") (auto simp: hashmap_find_entry_def chain_def find_pos_None filter_empty_conv)
  also have "\<dots> \<longleftrightarrow> matches m k = {#}"
    using in_chain_iff [OF assms] by (auto simp: matches_def multiset_eq_iff not_in_iff [symmetric])
  finally show ?thesis .
qed

lemma find_entry_Some:
  assumes wf: "hm_wf m" and k: "keys_ok m" and f: "hashmap_find_entry m k (bucket_of m k) = Some i"
  obtains bs where "buckets m = Some bs" "bucket_of m k < length bs" "i < length (bs ! bucket_of m k)"
    "equal_fn m (hkey (bs ! bucket_of m k ! i)) k" "bs ! bucket_of m k ! i \<in># ents m"
proof -
  obtain bs where bs: "buckets m = Some bs" using f by (auto simp: hashmap_find_entry_def split: option.splits)
  have b: "bucket_of m k < length bs" by (rule bucket_bound [OF wf bs])
  have i: "i < length (bs ! bucket_of m k)" "equal_fn m (hkey (bs ! bucket_of m k ! i)) k"
    using f bs find_pos_Some by (auto simp: hashmap_find_entry_def)
  then have "bs ! bucket_of m k ! i \<in># ents m"
    using in_chain_iff [OF wf k i(2)] by (simp add: chain_Some [OF bs])
  then show thesis using that bs b i by blast
qed

lemma hashmap_find_None: "hm_wf m \<Longrightarrow> keys_ok m \<Longrightarrow> hashmap_find m k = None \<longleftrightarrow> matches m k = {#}"
  using find_entry_None [of m k] by (auto simp: hashmap_find_def Let_def split: option.splits)

lemma uniq_match: "hm_uniq m \<Longrightarrow> e \<in># ents m \<Longrightarrow> equal_fn m (hkey e) k \<Longrightarrow> matches m k = {#e#}"
proof -
  assume u: "hm_uniq m" and e: "e \<in># ents m" "equal_fn m (hkey e) k"
  then have "e \<in># matches m k" by (simp add: matches_def)
  then obtain M where "matches m k = add_mset e M" by (blast dest: multi_member_split)
  then show ?thesis using u unfolding hm_uniq_def by (metis add_mset_eq_single le_numeral_extra(4)
      not_less_eq_eq size_add_mset size_eq_0_iff_empty One_nat_def le_zero_eq Suc_le_mono)
qed

lemma hashmap_find_iff:
  assumes wf: "hm_wf m" and k: "keys_ok m" and u: "hm_uniq m"
  shows "hashmap_find m k = Some v \<longleftrightarrow> (\<exists>e. matches m k = {#e#} \<and> hvalue e = v)"
proof (cases "hashmap_find_entry m k (bucket_of m k)")
  case None
  then show ?thesis using find_entry_None [OF wf k, of k] by (simp add: hashmap_find_def Let_def)
next
  case (Some i)
  obtain bs where bs: "buckets m = Some bs" "equal_fn m (hkey (bs ! bucket_of m k ! i)) k"
    "bs ! bucket_of m k ! i \<in># ents m"
    by (rule find_entry_Some [OF wf k Some])
  have "matches m k = {#bs ! bucket_of m k ! i#}" by (rule uniq_match [OF u bs(3,2)])
  then show ?thesis by (auto simp: hashmap_find_def Let_def Some chain_Some [OF bs(1)])
qed

lemma hm_wf_change:
  assumes "hm_wf m" "buckets m = Some bs" "buckets m' = Some bs'" "length bs' = length bs"
    "cap m' = cap m" "cap_bits m' = cap_bits m" "hash_fn m' = hash_fn m" "sz m' = size (ents m')"
    "sz m' \<le> cap m" "placed (bucket_of m) bs'"
  shows "hm_wf m'"
proof -
  have "bucket_of m' = bucket_of m" using assms(6,7) by (simp add: bucket_of_def fun_eq_iff)
  then show ?thesis
    using assms ents_Some [OF assms(3)] by (simp add: hm_wf_Some [OF assms(2)] hm_wf_Some [OF assms(3)])
qed

lemma sz_le_cap: "hm_wf m \<Longrightarrow> sz m \<le> cap m"
  by (cases "buckets m") (simp_all add: hm_wf_None hm_wf_Some)

abbreviation same_fns :: "hashmap \<Rightarrow> hashmap \<Rightarrow> bool" where
  "same_fns m' m \<equiv> hash_fn m' = hash_fn m \<and> equal_fn m' = equal_fn m"

lemma keys_ok_same: "same_fns m' m \<Longrightarrow> keys_ok m' = keys_ok m"
  by (simp add: keys_ok_def)

text \<open>Overwriting an entry that was found, and removing it.\<close>

lemma overwrite_entry:
  assumes wf: "hm_wf m" and k: "keys_ok m" and f: "hashmap_find_entry m k (bucket_of m k) = Some i"
    and m': "m' = m\<lparr>buckets := map_option (\<lambda>bs. bs[bucket_of m k := (bs ! bucket_of m k)[i := \<lparr>hkey = k, hvalue = v\<rparr>]]) (buckets m)\<rparr>"
    and e: "e = chain m (bucket_of m k) ! i"
  shows "hm_wf m'" "e \<in># ents m" "equal_fn m (hkey e) k"
    "ents m' = add_mset \<lparr>hkey = k, hvalue = v\<rparr> (ents m - {#e#})"
proof -
  let ?h = "bucket_of m k" and ?n = "\<lparr>hkey = k, hvalue = v\<rparr>"
  obtain bs where bs: "buckets m = Some bs" "?h < length bs" "i < length (bs ! ?h)"
    "equal_fn m (hkey (bs ! ?h ! i)) k" "bs ! ?h ! i \<in># ents m"
    by (rule find_entry_Some [OF wf k f])
  have e': "e = bs ! ?h ! i" by (simp add: e chain_Some [OF bs(1)])
  show in_e: "e \<in># ents m" and "equal_fn m (hkey e) k" using bs e' by simp_all
  let ?bs = "bs[?h := (bs ! ?h)[i := ?n]]"
  have b': "buckets m' = Some ?bs" by (simp add: m' bs)
  have sub: "mset (bs ! ?h) \<subseteq># mset (concat bs)" by (rule mset_bucket [OF bs(2)])
  have "e \<in># mset (bs ! ?h)" using bs(3) e' by simp
  then have "mset (concat ?bs) = add_mset ?n (mset (concat bs) - {#e#})"
    using sub bs(2,3) e'
    by (simp add: mset_concat_update replace_nth_mset subset_mset.diff_add_assoc2 multiset_diff_union_assoc)
  then show ents': "ents m' = add_mset ?n (ents m - {#e#})" by (simp add: ents_Some [OF b'] ents_Some [OF bs(1)])
  have pl: "placed (bucket_of m) bs" using wf by (simp add: hm_wf_Some [OF bs(1)])
  have "placed (bucket_of m) ?bs"
    by (rule placed_update [OF pl]) (use bs placed_nth [OF pl] in \<open>auto dest!: set_update_subset_insert [THEN subsetD]\<close>)
  then show "hm_wf m'"
    using size_Suc_Diff1 [OF in_e] sz_ents [OF wf] sz_le_cap [OF wf]
    by (intro hm_wf_change [OF wf bs(1) b']) (simp_all add: ents', simp_all add: m')
qed

lemma remove_entry:
  assumes wf: "hm_wf m" and k: "keys_ok m" and f: "hashmap_find_entry m k (bucket_of m k) = Some i"
    and m': "m' = m\<lparr>buckets := map_option (hashmap_del_entry (bucket_of m k) i) (buckets m), sz := sz m - 1\<rparr>"
    and e: "e = chain m (bucket_of m k) ! i"
  shows "hm_wf m'" "e \<in># ents m" "equal_fn m (hkey e) k" "ents m' = ents m - {#e#}"
proof -
  let ?h = "bucket_of m k"
  obtain bs where bs: "buckets m = Some bs" "?h < length bs" "i < length (bs ! ?h)"
    "equal_fn m (hkey (bs ! ?h ! i)) k" "bs ! ?h ! i \<in># ents m"
    by (rule find_entry_Some [OF wf k f])
  have e': "e = bs ! ?h ! i" by (simp add: e chain_Some [OF bs(1)])
  show in_e: "e \<in># ents m" and "equal_fn m (hkey e) k" using bs e' by simp_all
  have b': "buckets m' = Some (hashmap_del_entry ?h i bs)" by (simp add: m' bs)
  show ents': "ents m' = ents m - {#e#}"
    using concat_update_del [OF bs(2,3)] by (simp add: ents_Some [OF b'] ents_Some [OF bs(1)] e')
  have "placed (bucket_of m) (hashmap_del_entry ?h i bs)"
    using wf by (intro placed_del bs) (simp add: hm_wf_Some [OF bs(1)])
  moreover have "length (hashmap_del_entry ?h i bs) = length bs" by (simp add: hashmap_del_entry_def)
  ultimately show "hm_wf m'"
    using size_Suc_Diff1 [OF in_e] sz_ents [OF wf] sz_le_cap [OF wf]
    by (intro hm_wf_change [OF wf bs(1) b']) (simp_all add: ents', simp_all add: m')
qed

lemma add_entry:
  assumes wf: "hm_wf m" and b: "buckets m = Some bs" and room: "sz m < cap m"
    and m': "m' = m\<lparr>buckets := map_option (hashmap_add_entry (bucket_of m k) \<lparr>hkey = k, hvalue = v\<rparr>) (buckets m),
                    sz := sz m + 1\<rparr>"
  shows "hm_wf m'" "ents m' = add_mset \<lparr>hkey = k, hvalue = v\<rparr> (ents m)"
proof -
  let ?bs = "hashmap_add_entry (bucket_of m k) \<lparr>hkey = k, hvalue = v\<rparr> bs"
  have h: "bucket_of m k < length bs" by (rule bucket_bound [OF wf b])
  have b': "buckets m' = Some ?bs" by (simp add: m' b)
  show e: "ents m' = add_mset \<lparr>hkey = k, hvalue = v\<rparr> (ents m)"
    using concat_update_add [OF h] by (simp add: ents_Some [OF b'] ents_Some [OF b])
  have "placed (bucket_of m) ?bs"
    using wf h by (intro placed_add) (simp_all add: hm_wf_Some [OF b])
  then show "hm_wf m'"
    using room sz_ents [OF wf]
    by (intro hm_wf_change [OF wf b b']) (simp_all add: e, simp_all add: m')
qed

section \<open>Insert and delete on the contents\<close>

lemma insert_found:
  assumes wf: "hm_wf m" and k: "keys_ok m" and f: "matches m key \<noteq> {#}" and st: "st \<in> {HASHMAP_SET, HASHMAP_UPDATE}"
    and ins: "hashmap_insert ok mok m key v st = (r, old, m')"
  shows "r = 0" "same_fns m' m" "hm_wf m'"
    "\<exists>e. e \<in># ents m \<and> equal_fn m (hkey e) key \<and> old = (hkey e, hvalue e) \<and>
      ents m' = add_mset \<lparr>hkey = key, hvalue = v\<rparr> (ents m - {#e#})"
proof -
  obtain i where i: "hashmap_find_entry m key (bucket_of m key) = Some i"
    using find_entry_None [OF wf k, of key] f by auto
  have res: "r = 0" "old = (hkey (chain m (bucket_of m key) ! i), hvalue (chain m (bucket_of m key) ! i))"
    and m': "m' = m\<lparr>buckets := map_option (\<lambda>bs. bs[bucket_of m key := (bs ! bucket_of m key)[i := \<lparr>hkey = key, hvalue = v\<rparr>]]) (buckets m)\<rparr>"
    using ins st i by (auto simp: hashmap_insert_def Let_def)
  show "r = 0" "same_fns m' m" by (simp_all add: res m')
  show "hm_wf m'" by (rule overwrite_entry(1) [OF wf k i m' refl])
  show "\<exists>e. e \<in># ents m \<and> equal_fn m (hkey e) key \<and> old = (hkey e, hvalue e) \<and>
      ents m' = add_mset \<lparr>hkey = key, hvalue = v\<rparr> (ents m - {#e#})"
    using overwrite_entry [OF wf k i m' refl] res(2) by blast
qed

lemma insert_refused:
  assumes wf: "hm_wf m" and k: "keys_ok m"
  shows "matches m key \<noteq> {#} \<Longrightarrow> fst (hashmap_insert ok mok m key v HASHMAP_ADD) = - EEXIST \<and>
           snd (snd (hashmap_insert ok mok m key v HASHMAP_ADD)) = m"
    and "matches m key = {#} \<Longrightarrow> hashmap_insert ok mok m key v HASHMAP_UPDATE = (- ENOENT, (0, 0), m)"
  using find_entry_None [OF wf k, of key] by (auto simp: hashmap_insert_def Let_def)

lemma insert_fresh:
  assumes wf: "hm_wf m" and k: "keys_ok m" and ok: "calloc_bounded ok"
    and st: "st = HASHMAP_APPEND \<or> matches m key = {#} \<and> st \<noteq> HASHMAP_UPDATE"
    and ins: "hashmap_insert ok mok m key v st = (r, old, m')"
  shows "old = (0, 0)" "same_fns m' m" "hm_wf m'"
    "r = 0 \<and> ents m' = add_mset \<lparr>hkey = key, hvalue = v\<rparr> (ents m) \<or>
     r = - ENOMEM \<and> ents m' = ents m"
proof -
  obtain err m1 where m1: "(if hashmap_needs_to_grow m then hashmap_grow ok m else (0, m)) = (err, m1)" by fastforce
  have "hashmap_find_entry m key (bucket_of m key) = None" if "st \<noteq> HASHMAP_APPEND"
    using that st find_entry_None [OF wf k, of key] by simp
  then have res: "old = (0, 0)" "(r, m') = (if err \<noteq> 0 then (err, m1) else if \<not> mok then (- ENOMEM, m1)
      else (0, m1\<lparr>buckets := map_option (hashmap_add_entry (bucket_of m1 key) \<lparr>hkey = key, hvalue = v\<rparr>) (buckets m1),
                  sz := sz m1 + 1\<rparr>))"
    using ins st m1 by (auto simp: hashmap_insert_def Let_def split: if_splits)
  have g: "err = 0 \<and> same_fns m1 m \<and> hm_wf m1 \<and> ents m1 = ents m \<and> sz m1 < cap m1 \<and> (\<exists>bs. buckets m1 = Some bs) \<or>
      err = - ENOMEM \<and> m1 = m"
  proof (cases "hashmap_needs_to_grow m")
    case True
    then have "hashmap_grow ok m = (err, m1)" using m1 by simp
    then show ?thesis
      using hashmap_grow_ok [OF _ wf ok, of m1] by (cases "err = 0") (auto simp: hashmap_grow_def Let_def split: if_splits)
  next
    case False
    then have "cap m \<noteq> 0" "sz m < cap m" by (auto simp: hashmap_needs_to_grow_def)
    then show ?thesis using False m1 wf by (cases "buckets m") (auto simp: hm_wf_None)
  qed
  show "old = (0, 0)" by (rule res)
  show "same_fns m' m" using g res(2) by (auto split: if_splits)
  have E: "- ENOMEM \<noteq> 0" by (simp add: ENOMEM_def)
  show "hm_wf m'"
    using g res(2) wf E add_entry(1) [of m1 _ _ key v, OF _ _ _ refl] by (auto split: if_splits)
  show "r = 0 \<and> ents m' = add_mset \<lparr>hkey = key, hvalue = v\<rparr> (ents m) \<or> r = - ENOMEM \<and> ents m' = ents m"
    using g res(2) E add_entry(2) [of m1 _ _ key v, OF _ _ _ refl] by (auto split: if_splits)
qed

lemma delete_found:
  assumes wf: "hm_wf m" and k: "keys_ok m" and del: "hashmap_delete m key = (r, m')"
  shows "same_fns m' m" "hm_wf m'"
    "matches m key = {#} \<Longrightarrow> r = None \<and> m' = m"
    "matches m key \<noteq> {#} \<Longrightarrow> \<exists>e. e \<in># ents m \<and> equal_fn m (hkey e) key \<and> r = Some (hkey e, hvalue e) \<and>
       ents m' = ents m - {#e#}"
proof -
  show "same_fns m' m" using del by (auto simp: hashmap_delete_def Let_def split: option.splits)
  show "hm_wf m'"
    using del wf remove_entry(1) [OF wf k _ refl refl] by (auto simp: hashmap_delete_def Let_def split: option.splits)
  show "matches m key = {#} \<Longrightarrow> r = None \<and> m' = m"
    using del find_entry_None [OF wf k, of key] by (auto simp: hashmap_delete_def Let_def)
  assume "matches m key \<noteq> {#}"
  then obtain i where i: "hashmap_find_entry m key (bucket_of m key) = Some i"
    using find_entry_None [OF wf k, of key] by auto
  show "\<exists>e. e \<in># ents m \<and> equal_fn m (hkey e) key \<and> r = Some (hkey e, hvalue e) \<and> ents m' = ents m - {#e#}"
    using del i remove_entry(2-4) [OF wf k i refl refl] by (auto simp: hashmap_delete_def Let_def)
qed

section \<open>A table without duplicates is a finite map\<close>

definition hm_inv :: "(u64 \<Rightarrow> u64 \<Rightarrow> bool) \<Rightarrow> hashmap \<Rightarrow> bool" where
  "hm_inv eq m \<longleftrightarrow> hm_wf m \<and> keys_ok m \<and> hm_uniq m \<and> equal_fn m = eq"

lemma uniq_other: "keys_ok m \<Longrightarrow> equal_fn m (hkey e) k \<Longrightarrow> \<not> equal_fn m k k' \<Longrightarrow> \<not> equal_fn m (hkey e) k'"
  using keys_ok_cong by blast

lemma matches_replaced:
  assumes "keys_ok m" "hm_uniq m" "same_fns m' m" "e \<in># ents m" "equal_fn m (hkey e) k"
    "ents m' = add_mset \<lparr>hkey = k, hvalue = v\<rparr> (ents m - {#e#})"
  shows "matches m' k' = (if equal_fn m k k' then {#\<lparr>hkey = k, hvalue = v\<rparr>#} else matches m k')"
proof (cases "equal_fn m k k'")
  case True
  then have e: "equal_fn m (hkey e) k'" using keys_ok_cong2 [OF assms(1) True] assms(5) by simp
  then have "matches m k' = {#e#}" by (rule uniq_match [OF assms(2,4)])
  then show ?thesis using assms(3,6) True e by (simp add: matches_def)
next
  case False
  then have "\<not> equal_fn m (hkey e) k'" by (rule uniq_other [OF assms(1,5)])
  then show ?thesis using assms(3,6) False by (simp add: matches_def)
qed

lemma matches_added:
  assumes "keys_ok m" "same_fns m' m" "matches m k = {#}" "ents m' = add_mset \<lparr>hkey = k, hvalue = v\<rparr> (ents m)"
  shows "matches m' k' = (if equal_fn m k k' then {#\<lparr>hkey = k, hvalue = v\<rparr>#} else matches m k')"
proof (cases "equal_fn m k k'")
  case True
  then have "matches m k' = matches m k"
    unfolding matches_def by (simp add: keys_ok_cong2 [OF assms(1) True])
  then show ?thesis using assms(2-) True by (simp add: matches_def)
qed (use assms(2,4) in \<open>simp add: matches_def\<close>)

lemma matches_removed:
  assumes "keys_ok m" "hm_uniq m" "same_fns m' m" "e \<in># ents m" "equal_fn m (hkey e) k" "ents m' = ents m - {#e#}"
  shows "matches m' k' = (if equal_fn m k k' then {#} else matches m k')"
proof (cases "equal_fn m k k'")
  case True
  then have e: "equal_fn m (hkey e) k'" using keys_ok_cong2 [OF assms(1) True] assms(5) by simp
  then have "matches m k' = {#e#}" by (rule uniq_match [OF assms(2,4)])
  then show ?thesis using assms(3,6) True e by (simp add: matches_def)
next
  case False
  then have "\<not> equal_fn m (hkey e) k'" by (rule uniq_other [OF assms(1,5)])
  then show ?thesis using assms(3,6) False by (simp add: matches_def)
qed

lemma inv_from_matches:
  assumes "hm_inv eq m" "same_fns m' m" "hm_wf m'" "\<And>k. matches m' k = (if P k then {#e#} else matches m k) \<or> matches m' k = {#}"
  shows "hm_inv eq m'"
proof -
  have "size (matches m' k) \<le> 1" for k
    using assms(1) assms(4) [of k] by (auto simp: hm_inv_def hm_uniq_def split: if_splits)
  then show ?thesis using assms(1-3) keys_ok_same [OF assms(2)] by (simp add: hm_inv_def hm_uniq_def)
qed

lemma find_from_matches:
  assumes "hm_inv eq m" "hm_inv eq m'" "matches m' k = matches m k" "same_fns m' m"
  shows "hashmap_find m' k = hashmap_find m k"
  using assms hashmap_find_iff [of m k] hashmap_find_iff [of m' k]
  by (metis hm_inv_def not_Some_eq)

lemma find_match: "hm_inv eq m \<Longrightarrow> matches m k = {#e#} \<Longrightarrow> hashmap_find m k = Some (hvalue e)"
  using hashmap_find_iff [of m k "hvalue e"] by (auto simp: hm_inv_def)

lemma find_no_match: "hm_inv eq m \<Longrightarrow> hashmap_find m k = None \<longleftrightarrow> matches m k = {#}"
  using hashmap_find_None [of m k] by (auto simp: hm_inv_def)

lemma hm_inv_same:
  assumes "hm_inv eq m" "same_fns m' m" "hm_wf m'" "ents m' = ents m"
  shows "hm_inv eq m'" "hashmap_find m' = hashmap_find m"
proof -
  have e: "matches m' k = matches m k" for k using assms(2,4) by (simp add: matches_def)
  then show i: "hm_inv eq m'"
    using assms(1-3) keys_ok_same [OF assms(2)] by (simp add: hm_inv_def hm_uniq_def)
  show "hashmap_find m' = hashmap_find m"
    using find_from_matches [OF assms(1) i e assms(2)] by (simp add: fun_eq_iff)
qed

lemma hm_inv_put:
  assumes i: "hm_inv eq m" and f: "same_fns m' m" and wf: "hm_wf m'"
    and e: "\<And>k'. matches m' k' = (if equal_fn m k k' then {#\<lparr>hkey = k, hvalue = v\<rparr>#} else matches m k')"
  shows "hm_inv eq m'" "hashmap_find m' = (\<lambda>k'. if eq k k' then Some v else hashmap_find m k')"
proof -
  show i': "hm_inv eq m'" using e by (intro inv_from_matches [OF i f wf]) blast
  have eq: "equal_fn m = eq" using i by (simp add: hm_inv_def)
  show "hashmap_find m' = (\<lambda>k'. if eq k k' then Some v else hashmap_find m k')"
    using find_match [OF i'] find_from_matches [OF i i' _ f] by (auto simp: fun_eq_iff e eq)
qed

lemma hm_inv_drop:
  assumes i: "hm_inv eq m" and f: "same_fns m' m" and wf: "hm_wf m'"
    and e: "\<And>k'. matches m' k' = (if equal_fn m k k' then {#} else matches m k')"
  shows "hm_inv eq m'" "hashmap_find m' = (\<lambda>k'. if eq k k' then None else hashmap_find m k')"
proof -
  show i': "hm_inv eq m'" using e by (intro inv_from_matches [OF i f wf, where P = "\<lambda>_. False"]) simp
  have eq: "equal_fn m = eq" using i by (simp add: hm_inv_def)
  show "hashmap_find m' = (\<lambda>k'. if eq k k' then None else hashmap_find m k')"
    using find_no_match [OF i'] find_from_matches [OF i i' _ f] by (auto simp: fun_eq_iff e eq)
qed

text \<open>The outcomes of the macros \<^verbatim>\<open>hashmap__add\<close>, \<^verbatim>\<open>hashmap__set\<close> and \<^verbatim>\<open>hashmap__update\<close>.\<close>

abbreviation put_fails :: "(u64 \<Rightarrow> u64 \<Rightarrow> bool) \<Rightarrow> hashmap \<Rightarrow> hashmap \<Rightarrow> bool" where
  "put_fails eq m m' \<equiv> hm_inv eq m' \<and> hashmap_find m' = hashmap_find m"

abbreviation put_works :: "(u64 \<Rightarrow> u64 \<Rightarrow> bool) \<Rightarrow> u64 \<Rightarrow> u64 \<Rightarrow> hashmap \<Rightarrow> hashmap \<Rightarrow> bool" where
  "put_works eq k v m m' \<equiv> hm_inv eq m' \<and> hashmap_find m' = (\<lambda>k'. if eq k k' then Some v else hashmap_find m k')"

lemma insert_new:
  assumes i: "hm_inv eq m" and ok: "calloc_bounded ok" and n: "hashmap_find m k = None"
    and st: "st \<noteq> HASHMAP_UPDATE" and ins: "hashmap_insert ok mok m k v st = (r, old, m')"
  shows "old = (0, 0) \<and> (r = 0 \<and> put_works eq k v m m' \<or> r = - ENOMEM \<and> put_fails eq m m')"
proof -
  have wf: "hm_wf m" "keys_ok m" using i by (simp_all add: hm_inv_def)
  have nm: "matches m k = {#}" using n find_no_match [OF i] by simp
  have st': "st = HASHMAP_APPEND \<or> matches m k = {#} \<and> st \<noteq> HASHMAP_UPDATE" using st nm by auto
  note f = insert_fresh [OF wf ok st' ins]
  show ?thesis
    using f(4,1) hm_inv_same [OF i f(2,3)]
      hm_inv_put [OF i f(2,3) matches_added [OF wf(2) f(2) nm]]
    by blast
qed

lemma insert_absent:
  assumes "hm_inv eq m" "calloc_bounded ok" "hashmap_find m k = None" "st \<in> {HASHMAP_ADD, HASHMAP_SET}" "hashmap_insert ok mok m k v st = (r, old, m')"
  shows "old = (0, 0) \<and> (r = 0 \<and> put_works eq k v m m' \<or> r = - ENOMEM \<and> put_fails eq m m')"
  by (rule insert_new [OF assms(1-3) _ assms(5)]) (use assms(4) in auto)

lemma insert_present:
  assumes i: "hm_inv eq m" and n: "hashmap_find m k = Some w"
    and ins: "hashmap_insert ok mok m k v st = (r, old, m')"
  shows "st \<in> {HASHMAP_SET, HASHMAP_UPDATE} \<Longrightarrow> r = 0 \<and> snd old = w \<and> put_works eq k v m m'"
    and "st = HASHMAP_ADD \<Longrightarrow> r = - EEXIST \<and> m' = m"
proof -
  have wf: "hm_wf m" "keys_ok m" and u: "hm_uniq m" using i by (simp_all add: hm_inv_def)
  have nm: "matches m k \<noteq> {#}" using n find_no_match [OF i, of k] by simp
  show "st = HASHMAP_ADD \<Longrightarrow> r = - EEXIST \<and> m' = m"
    using insert_refused(1) [OF wf nm, of ok mok v] ins by simp
  assume st: "st \<in> {HASHMAP_SET, HASHMAP_UPDATE}"
  note f = insert_found [OF wf nm st ins]
  obtain e where e: "e \<in># ents m" "equal_fn m (hkey e) k" "old = (hkey e, hvalue e)"
    "ents m' = add_mset \<lparr>hkey = k, hvalue = v\<rparr> (ents m - {#e#})"
    using f(4) by blast
  have "hvalue e = w" using find_match [OF i uniq_match [OF u e(1,2)]] n by simp
  then show "r = 0 \<and> snd old = w \<and> put_works eq k v m m'"
    using f(1) e(3) hm_inv_put [OF i f(2,3) matches_replaced [OF wf(2) u f(2) e(1,2,4)]] by simp
qed

lemma delete_outcome:
  assumes i: "hm_inv eq m" and del: "hashmap_delete m k = (r, m')"
  shows "hm_inv eq m' \<and> hashmap_find m k = map_option snd r \<and>
    hashmap_find m' = (\<lambda>k'. if eq k k' then None else hashmap_find m k')"
proof -
  have wf: "hm_wf m" "keys_ok m" and u: "hm_uniq m" and eq: "equal_fn m = eq" using i by (simp_all add: hm_inv_def)
  note f = delete_found [OF wf del]
  show ?thesis
  proof (cases "matches m k = {#}")
    case True
    have "matches m k' = {#}" if "eq k k'" for k'
      using that True keys_ok_cong2 [OF wf(2), of k k'] by (simp add: matches_def eq)
    moreover have "hashmap_find m k = None" using True find_no_match [OF i] by simp
    ultimately show ?thesis using f(3) [OF True] i find_no_match [OF i] by (auto simp: fun_eq_iff)
  next
    case False
    obtain e where e: "e \<in># ents m" "equal_fn m (hkey e) k" "r = Some (hkey e, hvalue e)" "ents m' = ents m - {#e#}"
      using f(4) [OF False] by blast
    show ?thesis
      using find_match [OF i uniq_match [OF u e(1,2)]] e(3)
        hm_inv_drop [OF i f(1,2) matches_removed [OF wf(2) u f(1) e(1,2,4)]] by simp
  qed
qed

section \<open>Refinement\<close>

text \<open>
  The calls on a table used as a map. An \<^verbatim>\<open>Add\<close> or \<^verbatim>\<open>Set\<close> carries whether the memory allocations it
  may need succeed. The result is the return value and the old or found value.
\<close>

datatype hm_op =
    Hm_Add bool bool u64 u64
  | Hm_Set bool bool u64 u64
  | Hm_Update u64 u64
  | Hm_Delete u64
  | Hm_Find u64

definition calloc_of :: "bool \<Rightarrow> nat \<Rightarrow> bool" where
  "calloc_of okc n \<longleftrightarrow> okc \<and> n * 8 < 2 ^ 64"

definition ins_result :: "int \<times> (u64 \<times> u64) \<times> hashmap \<Rightarrow> (int \<times> u64) \<times> hashmap" where
  "ins_result = (\<lambda>(r, old, m). ((r, snd old), m))"

fun hm_step :: "hm_op \<Rightarrow> hashmap \<Rightarrow> (int \<times> u64) \<times> hashmap" where
  "hm_step (Hm_Add okc okm k v) m = ins_result (hashmap_insert (calloc_of okc) okm m k v HASHMAP_ADD)"
| "hm_step (Hm_Set okc okm k v) m = ins_result (hashmap_insert (calloc_of okc) okm m k v HASHMAP_SET)"
| "hm_step (Hm_Update k v) m = ins_result (hashmap_insert (calloc_of False) False m k v HASHMAP_UPDATE)"
| "hm_step (Hm_Delete k) m =
     (case hashmap_delete m k of (None, m') \<Rightarrow> ((0, 0), m') | (Some old, m') \<Rightarrow> ((1, snd old), m'))"
| "hm_step (Hm_Find k) m = (case hashmap_find m k of None \<Rightarrow> ((0, 0), m) | Some v \<Rightarrow> ((1, v), m))"

text \<open>What a map promises of each call.\<close>

fun map_allowed :: "hm_op \<Rightarrow> int \<times> u64 \<Rightarrow> (u64 \<Rightarrow> u64 option) \<Rightarrow> bool" where
  "map_allowed (Hm_Add _ _ k v) (r, old) a =
     (case a k of None \<Rightarrow> old = 0 \<and> r \<in> {0, - ENOMEM} | Some w \<Rightarrow> r = - EEXIST)"
| "map_allowed (Hm_Set _ _ k v) (r, old) a =
     (case a k of None \<Rightarrow> old = 0 \<and> r \<in> {0, - ENOMEM} | Some w \<Rightarrow> old = w \<and> r = 0)"
| "map_allowed (Hm_Update k v) (r, old) a =
     (case a k of None \<Rightarrow> old = 0 \<and> r = - ENOENT | Some w \<Rightarrow> old = w \<and> r = 0)"
| "map_allowed (Hm_Delete k) (r, old) a = (case a k of None \<Rightarrow> r = 0 | Some w \<Rightarrow> old = w \<and> r = 1)"
| "map_allowed (Hm_Find k) (r, old) a = (case a k of None \<Rightarrow> r = 0 | Some w \<Rightarrow> old = w \<and> r = 1)"

definition map_put :: "(u64 \<Rightarrow> u64 \<Rightarrow> bool) \<Rightarrow> u64 \<Rightarrow> u64 option \<Rightarrow> (u64 \<Rightarrow> u64 option) \<Rightarrow> u64 \<Rightarrow> u64 option" where
  "map_put eq k v a = (\<lambda>k'. if eq k k' then v else a k')"

fun map_next :: "(u64 \<Rightarrow> u64 \<Rightarrow> bool) \<Rightarrow> hm_op \<Rightarrow> int \<times> u64 \<Rightarrow> (u64 \<Rightarrow> u64 option) \<Rightarrow> u64 \<Rightarrow> u64 option" where
  "map_next eq (Hm_Add _ _ k v) (r, _) a = (if r = 0 then map_put eq k (Some v) a else a)"
| "map_next eq (Hm_Set _ _ k v) (r, _) a = (if r = 0 then map_put eq k (Some v) a else a)"
| "map_next eq (Hm_Update k v) (r, _) a = (if r = 0 then map_put eq k (Some v) a else a)"
| "map_next eq (Hm_Delete k) _ a = map_put eq k None a"
| "map_next eq (Hm_Find k) _ a = a"

lemma calloc_of_bounded: "calloc_bounded (calloc_of okc)"
  by (simp add: calloc_bounded_def calloc_of_def)

lemma errno_distinct: "ENOMEM \<noteq> 0" "EEXIST \<noteq> 0" "ENOENT \<noteq> 0"
  by (simp_all add: ENOMEM_def EEXIST_def ENOENT_def)

lemma put_step:
  assumes i: "hm_inv eq m" and st: "st \<in> {HASHMAP_ADD, HASHMAP_SET}"
    and s: "ins_result (hashmap_insert (calloc_of okc) okm m k v st) = ((r, old), m')"
  shows "hm_inv eq m' \<and> hashmap_find m' = (if r = 0 then map_put eq k (Some v) (hashmap_find m) else hashmap_find m) \<and>
    (case hashmap_find m k of None \<Rightarrow> old = 0 \<and> r \<in> {0, - ENOMEM}
     | Some w \<Rightarrow> if st = HASHMAP_ADD then r = - EEXIST else old = w \<and> r = 0)"
proof -
  obtain o' where ins: "hashmap_insert (calloc_of okc) okm m k v st = (r, o', m')" "snd o' = old"
    using s by (auto simp: ins_result_def split: prod.splits)
  show ?thesis
  proof (cases "hashmap_find m k")
    case None
    show ?thesis
      using insert_absent [OF i calloc_of_bounded None st ins(1)] ins(2) errno_distinct None
      by (auto simp: map_put_def)
  next
    case (Some w)
    show ?thesis
      using insert_present [OF i Some ins(1)] st ins(2) errno_distinct Some i by (auto simp: map_put_def)
  qed
qed

lemma update_step:
  assumes i: "hm_inv eq m" and s: "ins_result (hashmap_insert ok okm m k v HASHMAP_UPDATE) = ((r, old), m')"
  shows "hm_inv eq m' \<and> hashmap_find m' = (if r = 0 then map_put eq k (Some v) (hashmap_find m) else hashmap_find m) \<and>
    (case hashmap_find m k of None \<Rightarrow> old = 0 \<and> r = - ENOENT | Some w \<Rightarrow> old = w \<and> r = 0)"
proof -
  obtain o' where ins: "hashmap_insert ok okm m k v HASHMAP_UPDATE = (r, o', m')" "snd o' = old"
    using s by (auto simp: ins_result_def split: prod.splits)
  have wf: "hm_wf m" "keys_ok m" using i by (simp_all add: hm_inv_def)
  show ?thesis
  proof (cases "hashmap_find m k")
    case None
    then show ?thesis
      using insert_refused(2) [OF wf, of k ok okm v] find_no_match [OF i, of k] ins errno_distinct i by auto
  next
    case (Some w)
    then show ?thesis using insert_present(1) [OF i Some ins(1)] ins(2) by (auto simp: map_put_def)
  qed
qed

lemma delete_step:
  assumes i: "hm_inv eq m" and s: "hm_step (Hm_Delete k) m = ((r, old), m')"
  shows "hm_inv eq m' \<and> hashmap_find m' = map_put eq k None (hashmap_find m) \<and>
    (case hashmap_find m k of None \<Rightarrow> r = 0 | Some w \<Rightarrow> old = w \<and> r = 1)"
proof -
  obtain d m1 where d: "hashmap_delete m k = (d, m1)" by fastforce
  show ?thesis using delete_outcome [OF i d] s d by (cases d) (auto simp: map_put_def)
qed

lemma hm_step_refines:
  assumes i: "hm_inv eq m" and s: "hm_step c m = (r, m')"
  shows "hm_inv eq m' \<and> hashmap_find m' = map_next eq c r (hashmap_find m) \<and> map_allowed c r (hashmap_find m)"
proof -
  obtain n old where r: "r = (n, old)" by fastforce
  show ?thesis
  proof (cases c)
    case (Hm_Add okc okm k v)
    then show ?thesis using put_step [OF i, of HASHMAP_ADD okc okm k v n old m'] s r by (auto split: option.splits)
  next
    case (Hm_Set okc okm k v)
    then show ?thesis using put_step [OF i, of HASHMAP_SET okc okm k v n old m'] s r by (auto split: option.splits)
  next
    case (Hm_Update k v)
    then show ?thesis using update_step [OF i, of _ _ k v n old m'] s r by auto
  next
    case (Hm_Delete k)
    then show ?thesis using delete_step [OF i, of k n old m'] s r by auto
  next
    case (Hm_Find k)
    then show ?thesis using i s by (auto split: option.splits)
  qed
qed

interpretation hm: trace_refinement "hm_inv eq" hashmap_find hm_step map_allowed "map_next eq"
  by unfold_locales (use hm_step_refines in blast)+

section \<open>Growing\<close>

lemma fold_add_nth:
  assumes "\<And>e. f e < length bs" "i < length bs"
  shows "fold (\<lambda>e. hashmap_add_entry (f e) e) es bs ! i = rev (filter (\<lambda>e. f e = i) es) @ bs ! i"
  using assms
proof (induction es arbitrary: bs)
  case (Cons e es)
  show ?case using Cons.prems
    by (simp add: Cons.IH) (simp add: hashmap_add_entry_def nth_list_update)
qed simp

lemma filter_concat_one:
  assumes "h < length bs" "\<And>i e. i < length bs \<Longrightarrow> i \<noteq> h \<Longrightarrow> e \<in> set (bs ! i) \<Longrightarrow> \<not> P e"
  shows "filter P (concat bs) = filter P (bs ! h)"
proof -
  have "\<not> P e" if "c \<in> set (take h bs)" "e \<in> set c" for c e
    using that assms(1) assms(2) [of _ e] by (fastforce simp: in_set_conv_nth [of c])
  moreover have "\<not> P e" if "c \<in> set (drop (Suc h) bs)" "e \<in> set c" for c e
    using that assms(1) assms(2) [of "Suc (h + _)" e] by (auto simp: in_set_conv_nth [of c] less_diff_conv add.commute)
  ultimately have "filter P (concat (take h bs)) = []" "filter P (concat (drop (Suc h) bs)) = []"
    by (auto simp: filter_empty_conv)
  moreover have "concat bs = concat (take h bs) @ bs ! h @ concat (drop (Suc h) bs)"
    by (subst id_take_nth_drop [OF assms(1)]) simp
  ultimately show ?thesis by simp
qed

lemma key_entries_concat:
  assumes "hm_wf m" "keys_ok m"
  shows "filter (\<lambda>e. equal_fn m (hkey e) k) (chain m (bucket_of m k)) =
    filter (\<lambda>e. equal_fn m (hkey e) k) (hashmap_entries m)"
proof (cases "buckets m")
  case (Some bs)
  have "placed (bucket_of m) bs" using assms(1) by (simp add: hm_wf_Some [OF Some])
  then have "filter (\<lambda>e. equal_fn m (hkey e) k) (concat bs) = filter (\<lambda>e. equal_fn m (hkey e) k) (bs ! bucket_of m k)"
    by (intro filter_concat_one bucket_bound [OF assms(1) Some])
      (metis placed_nth keys_ok_bucket [OF assms(2)])
  then show ?thesis by (simp add: Some chain_def hashmap_entries_def)
qed (simp add: chain_def hashmap_entries_def)

lemma grow_key_entries:
  assumes grow: "hashmap_grow ok m = (0, m')" and wf: "hm_wf m" and k: "keys_ok m" and ok: "calloc_bounded ok"
  shows "hashmap_key_entries m' key = rev (hashmap_key_entries m key)"
proof -
  let ?n = "cap_bits m'" let ?P = "\<lambda>e. equal_fn m (hkey e) key"
  let ?f = "\<lambda>e. unat (hash_bits (hash_fn m (hkey e)) ?n)"
  note g = hashmap_grow_ok [OF grow wf ok]
  have m': "buckets m' = Some (fold (\<lambda>e. hashmap_add_entry (?f e) e) (hashmap_entries m) (replicate (2 ^ ?n) []))"
    and e: "equal_fn m' = equal_fn m" "hash_fn m' = hash_fn m"
    using grow by (auto simp: hashmap_grow_def Let_def ENOMEM_def split: if_splits)
  have n: "?n < 61" using g(1,7) by (auto simp: hm_wf_Some)
  have b: "unat (hash_bits h ?n) < 2 ^ ?n" for h using hash_bits_bound [of ?n h] n by simp
  have c: "chain m' (bucket_of m' key) = rev (filter (\<lambda>e. ?f e = bucket_of m' key) (hashmap_entries m))"
    using b by (simp add: chain_def m' fold_add_nth bucket_of_def)
  have "?f e = bucket_of m' key" if "?P e" for e
    using that k by (simp add: bucket_of_def e keys_ok_def)
  then have "filter ?P (filter (\<lambda>e. ?f e = bucket_of m' key) (hashmap_entries m)) = filter ?P (hashmap_entries m)"
    by (auto intro: filter_cong)
  then have "filter ?P (chain m' (bucket_of m' key)) = rev (filter ?P (chain m (bucket_of m key)))"
    by (simp add: c key_entries_concat [OF wf k] flip: rev_filter)
  then show ?thesis by (simp add: hashmap_key_entries_def e rev_map)
qed

lemma hm_inv_init:
  assumes "equivp eq" "\<And>a b. eq a b \<Longrightarrow> h a = h b"
  shows "hm_inv eq (hashmap_init h eq)" "hashmap_find (hashmap_init h eq) = (\<lambda>_. None)"
  using assms
  by (auto simp: hm_inv_def hm_wf_def keys_ok_def hm_uniq_def matches_def ents_def hashmap_entries_def
      hashmap_init_def hashmap_find_def hashmap_find_entry_def fun_eq_iff)

section \<open>Properties\<close>

text \<open>
  C28: The hash table is a map. On a fresh table, for any hash function that respects the
  key comparison, every sequence of add, set, update, delete and find calls, whichever allocations fail
  on the way, returns exactly what a map from keys to values allows (old values, \<^verbatim>\<open>-EEXIST\<close>,
  \<^verbatim>\<open>-ENOENT\<close>, \<^verbatim>\<open>-ENOMEM\<close> without a change), and at the end a find gives what the map holds. In particular
  neither growing nor failing to grow loses, duplicates or misplaces an entry.
\<close>

theorem hashmap_refines_map:
  assumes "equivp eq" "\<And>a b. eq a b \<Longrightarrow> h a = h b"
    and "run_steps hm_step cs (hashmap_init h eq) = (rs, m)"
  shows "hm_inv eq m \<and> spec_run map_allowed (map_next eq) cs rs (\<lambda>_. None) = Some (hashmap_find m)"
  using hm.run_refines [OF hm_inv_init(1) [OF assms(1,2)] assms(3)] hm_inv_init(2) [OF assms(1,2)] by simp

theorem hashmap_refines_map_witness:
  "spec_run map_allowed (map_next (=))
     [Hm_Set True True 5 1, Hm_Set True True 5 2, Hm_Add True False 6 3, Hm_Delete 5]
     (fst (run_steps hm_step [Hm_Set True True 5 1, Hm_Set True True 5 2, Hm_Add True False 6 3, Hm_Delete 5]
        (hashmap_init (\<lambda>k. k) (=)))) (\<lambda>_. None) =
   Some (hashmap_find (snd (run_steps hm_step
     [Hm_Set True True 5 1, Hm_Set True True 5 2, Hm_Add True False 6 3, Hm_Delete 5] (hashmap_init (\<lambda>k. k) (=)))))"
  using hashmap_refines_map [OF identity_equivp, of "\<lambda>k. k"
      "[Hm_Set True True 5 1, Hm_Set True True 5 2, Hm_Add True False 6 3, Hm_Delete 5]"]
  by (metis prod.collapse)

text \<open>
  Growing the table reverses the order of the entries of every key. A key that was appended twice is
  found by its last entry before the table grows and by its first one after, although the comment on
  \<^verbatim>\<open>HASHMAP_APPEND\<close> says that a find returns the last inserted entry.
\<close>

theorem hashmap_grow_reverses:
  assumes "hm_wf m" "keys_ok m" "calloc_bounded ok" "hashmap_grow ok m = (0, m')"
  shows "hm_wf m' \<and> ents m' = ents m \<and> hashmap_key_entries m' key = rev (hashmap_key_entries m key)"
  using hashmap_grow_ok(1,2) [OF assms(4,1,3)] grow_key_entries [OF assms(4,1,2,3)] by blast

theorem hashmap_grow_reverses_witness:
  "let m = \<lparr>hash_fn = \<lambda>k. k, equal_fn = (=), buckets = Some [[\<lparr>hkey = 5, hvalue = 2\<rparr>, \<lparr>hkey = 5, hvalue = 1\<rparr>], [], [], []],
              cap = 4, cap_bits = 2, sz = 2\<rparr>;
       m' = snd (hashmap_grow (\<lambda>n. n = 8) m)
   in hashmap_find m 5 = Some 2 \<and> hashmap_find m' 5 = Some 1 \<and>
      hashmap_key_entries m' 5 = rev (hashmap_key_entries m 5)"
proof -
  let ?m = "\<lparr>hash_fn = \<lambda>k. k, equal_fn = (=), buckets = Some [[\<lparr>hkey = 5, hvalue = 2\<rparr>, \<lparr>hkey = 5, hvalue = 1\<rparr>], [], [], []],
              cap = 4, cap_bits = 2, sz = 2\<rparr>"
  let ?ok = "\<lambda>n. n = (8::nat)"
  have wf: "hm_wf ?m" by code_simp
  have k: "keys_ok ?m" by (simp add: keys_ok_def identity_equivp)
  have ok: "calloc_bounded ?ok" by (simp add: calloc_bounded_def)
  have g: "hashmap_grow ?ok ?m = (0, snd (hashmap_grow ?ok ?m))"
    by (simp add: hashmap_grow_def Let_def HASHMAP_MIN_CAP_BITS_def)
  have "hashmap_find ?m 5 = Some 2" by code_simp
  moreover have "hashmap_find (snd (hashmap_grow ?ok ?m)) 5 = Some 1" by code_simp
  ultimately show ?thesis using hashmap_grow_reverses [OF wf k ok g, of 5] by (simp only: Let_def)
qed

end
