(* ===== verification/Xsk_Ring.thy ===== *)
theory Xsk_Ring
  imports Prelude
begin

text \<open>
  The rings of \<^verbatim>\<open>lib/xdp-tools/headers/xdp/xsk.h\<close>, through which a program and the kernel exchange
  descriptors of an \<^verbatim>\<open>AF_XDP\<close> socket, and their set-up in \<^verbatim>\<open>lib/xdp-tools/lib/libxdp/xsk.c\<close>.
  The words \<^verbatim>\<open>*producer\<close>, \<^verbatim>\<open>*consumer\<close> and \<^verbatim>\<open>*flags\<close> and the slots are shared memory; the other fields
  belong to one end. All positions are free-running 32-bit counters that wrap around. The atomic
  accesses are modelled as steps that happen one after the other in any order.
\<close>

section \<open>Model\<close>

record xsk_ring =
  cached_prod :: u32
  cached_cons :: u32
  mask_of :: u32
  size_of :: u32

record 'a shared_ring =
  producer :: u32
  consumer :: u32
  ring_flags :: u32
  slots :: "'a list"

definition XDP_RING_NEED_WAKEUP :: u32 where "XDP_RING_NEED_WAKEUP = 1"

text \<open>The set-up of a transmit and of a receive ring by \<^verbatim>\<open>xsk_socket__create_shared\<close>.\<close>

definition tx_setup :: "u32 \<Rightarrow> 'a shared_ring \<Rightarrow> xsk_ring" where
  "tx_setup tx_size sh = \<lparr>cached_prod = producer sh, cached_cons = consumer sh + tx_size, mask_of = tx_size - 1, size_of = tx_size\<rparr>"

definition rx_setup :: "u32 \<Rightarrow> 'a shared_ring \<Rightarrow> xsk_ring" where
  "rx_setup rx_size sh = \<lparr>cached_prod = producer sh, cached_cons = consumer sh, mask_of = rx_size - 1, size_of = rx_size\<rparr>"

text \<open>The slot an index addresses. \<open>None\<close> is an address outside the ring.\<close>

definition slot_of :: "xsk_ring \<Rightarrow> 'a shared_ring \<Rightarrow> u32 \<Rightarrow> nat option" where
  "slot_of r sh idx = (let i = unat (idx AND mask_of r) in if i < length (slots sh) then Some i else None)"

definition xsk_ring_prod__fill_addr :: "xsk_ring \<Rightarrow> 'a shared_ring \<Rightarrow> u32 \<Rightarrow> nat option" where
  "xsk_ring_prod__fill_addr fill sh idx = slot_of fill sh idx"

definition xsk_ring_cons__comp_addr :: "xsk_ring \<Rightarrow> 'a shared_ring \<Rightarrow> u32 \<Rightarrow> nat option" where
  "xsk_ring_cons__comp_addr cring sh idx = slot_of cring sh idx"

definition xsk_ring_prod__tx_desc :: "xsk_ring \<Rightarrow> 'a shared_ring \<Rightarrow> u32 \<Rightarrow> nat option" where
  "xsk_ring_prod__tx_desc tx sh idx = slot_of tx sh idx"

definition xsk_ring_cons__rx_desc :: "xsk_ring \<Rightarrow> 'a shared_ring \<Rightarrow> u32 \<Rightarrow> nat option" where
  "xsk_ring_cons__rx_desc rx sh idx = slot_of rx sh idx"

definition xsk_ring_prod__needs_wakeup :: "'a shared_ring \<Rightarrow> u32" where
  "xsk_ring_prod__needs_wakeup sh = ring_flags sh AND XDP_RING_NEED_WAKEUP"

definition xsk_prod_nb_free :: "xsk_ring \<Rightarrow> 'a shared_ring \<Rightarrow> u32 \<Rightarrow> u32 \<times> xsk_ring" where
  "xsk_prod_nb_free r sh nb =
     (let free_entries = cached_cons r - cached_prod r in
      if free_entries \<ge> nb then (free_entries, r)
      else
        let r1 = r\<lparr>cached_cons := consumer sh\<rparr>;
            r2 = r1\<lparr>cached_cons := cached_cons r1 + size_of r1\<rparr>
        in (cached_cons r2 - cached_prod r2, r2))"

definition xsk_cons_nb_avail :: "xsk_ring \<Rightarrow> 'a shared_ring \<Rightarrow> u32 \<Rightarrow> u32 \<times> xsk_ring" where
  "xsk_cons_nb_avail r sh nb =
     (let entries0 = cached_prod r - cached_cons r;
          r1 = (if entries0 = 0 then r\<lparr>cached_prod := producer sh\<rparr> else r);
          entries = (if entries0 = 0 then cached_prod r1 - cached_cons r1 else entries0)
      in (if entries > nb then nb else entries, r1))"

text \<open>\<open>idx\<close> is the caller's variable: it keeps its value when nothing is reserved or available.\<close>

definition xsk_ring_prod__reserve :: "xsk_ring \<Rightarrow> 'a shared_ring \<Rightarrow> u32 \<Rightarrow> u32 \<Rightarrow> u32 \<times> u32 \<times> xsk_ring" where
  "xsk_ring_prod__reserve r sh nb idx =
     (let (free, r1) = xsk_prod_nb_free r sh nb in
      if free < nb then (0, idx, r1)
      else (nb, cached_prod r1, r1\<lparr>cached_prod := cached_prod r1 + nb\<rparr>))"

definition xsk_ring_prod__submit :: "'a shared_ring \<Rightarrow> u32 \<Rightarrow> 'a shared_ring" where
  "xsk_ring_prod__submit sh nb = sh\<lparr>producer := producer sh + nb\<rparr>"

definition xsk_ring_cons__peek :: "xsk_ring \<Rightarrow> 'a shared_ring \<Rightarrow> u32 \<Rightarrow> u32 \<Rightarrow> u32 \<times> u32 \<times> xsk_ring" where
  "xsk_ring_cons__peek r sh nb idx =
     (let (entries, r1) = xsk_cons_nb_avail r sh nb in
      if entries > 0 then (entries, cached_cons r1, r1\<lparr>cached_cons := cached_cons r1 + entries\<rparr>)
      else (entries, idx, r1))"

definition xsk_ring_cons__cancel :: "xsk_ring \<Rightarrow> u32 \<Rightarrow> xsk_ring" where
  "xsk_ring_cons__cancel r nb = r\<lparr>cached_cons := cached_cons r - nb\<rparr>"

definition xsk_ring_cons__release :: "'a shared_ring \<Rightarrow> u32 \<Rightarrow> 'a shared_ring" where
  "xsk_ring_cons__release sh nb = sh\<lparr>consumer := consumer sh + nb\<rparr>"

definition XSK_UNALIGNED_BUF_OFFSET_SHIFT :: nat where "XSK_UNALIGNED_BUF_OFFSET_SHIFT = 48"

definition XSK_UNALIGNED_BUF_ADDR_MASK :: u64 where
  "XSK_UNALIGNED_BUF_ADDR_MASK = push_bit XSK_UNALIGNED_BUF_OFFSET_SHIFT 1 - 1"

definition xsk_umem__get_data :: "u64 \<Rightarrow> u64 \<Rightarrow> u64" where
  "xsk_umem__get_data umem_area addr = umem_area + addr"

definition xsk_umem__extract_addr :: "u64 \<Rightarrow> u64" where
  "xsk_umem__extract_addr addr = addr AND XSK_UNALIGNED_BUF_ADDR_MASK"

definition xsk_umem__extract_offset :: "u64 \<Rightarrow> u64" where
  "xsk_umem__extract_offset addr = drop_bit XSK_UNALIGNED_BUF_OFFSET_SHIFT addr"

definition xsk_umem__add_offset_to_addr :: "u64 \<Rightarrow> u64" where
  "xsk_umem__add_offset_to_addr addr = xsk_umem__extract_addr addr + xsk_umem__extract_offset addr"

section \<open>The two ends of a ring\<close>

text \<open>
  A state holds both ends over one shared ring. \<open>Write\<close> and \<open>Read\<close> are the caller's accesses through
  \<^verbatim>\<open>xsk_ring_prod__tx_desc\<close> and \<^verbatim>\<open>xsk_ring_cons__rx_desc\<close>.
\<close>

datatype 'a ring_op =
    Reserve u32 | Write u32 'a | Submit u32
  | Peek u32 | Read u32 | Cancel u32 | Release u32

datatype 'a ring_result = Count u32 u32 | Value 'a | Done | Fault

record 'a rings =
  prod_end :: xsk_ring
  cons_end :: xsk_ring
  shared :: "'a shared_ring"

fun ring_step :: "'a ring_op \<Rightarrow> 'a rings \<Rightarrow> 'a ring_result \<times> 'a rings" where
  "ring_step (Reserve nb) s =
     (let (n, idx, p) = xsk_ring_prod__reserve (prod_end s) (shared s) nb 0 in (Count n idx, s\<lparr>prod_end := p\<rparr>))"
| "ring_step (Write idx v) s =
     (case xsk_ring_prod__tx_desc (prod_end s) (shared s) idx of
        None \<Rightarrow> (Fault, s)
      | Some i \<Rightarrow> (Done, s\<lparr>shared := (shared s)\<lparr>slots := (slots (shared s))[i := v]\<rparr>\<rparr>))"
| "ring_step (Submit nb) s = (Done, s\<lparr>shared := xsk_ring_prod__submit (shared s) nb\<rparr>)"
| "ring_step (Peek nb) s =
     (let (n, idx, c) = xsk_ring_cons__peek (cons_end s) (shared s) nb 0 in (Count n idx, s\<lparr>cons_end := c\<rparr>))"
| "ring_step (Read idx) s =
     (case xsk_ring_cons__rx_desc (cons_end s) (shared s) idx of
        None \<Rightarrow> (Fault, s) | Some i \<Rightarrow> (Value (slots (shared s) ! i), s))"
| "ring_step (Cancel nb) s = (Done, s\<lparr>cons_end := xsk_ring_cons__cancel (cons_end s) nb\<rparr>)"
| "ring_step (Release nb) s = (Done, s\<lparr>shared := xsk_ring_cons__release (shared s) nb\<rparr>)"

definition rings_setup :: "u32 \<Rightarrow> 'a shared_ring \<Rightarrow> 'a rings" where
  "rings_setup n sh = \<lparr>prod_end = tx_setup n sh, cons_end = rx_setup n sh, shared = sh\<rparr>"

section \<open>The queue that the rings implement\<close>

text \<open>
  A bounded queue whose positions are natural numbers that never wrap: everything below \<open>q_freed\<close> is
  released, up to \<open>q_taken\<close> peeked, up to \<open>q_sent\<close> submitted, up to \<open>q_held\<close> reserved; \<open>q_vals\<close> is what
  was last written at each position.
\<close>

record 'a queue =
  q_size :: nat
  q_freed :: nat
  q_taken :: nat
  q_sent :: nat
  q_held :: nat
  q_vals :: "nat \<Rightarrow> 'a option"

text \<open>The position that an index names, counted from a position at or before it.\<close>

definition pos_from :: "nat \<Rightarrow> u32 \<Rightarrow> nat" where
  "pos_from n idx = n + unat (idx - of_nat n)"

fun queue_guard :: "'a ring_op \<Rightarrow> 'a queue \<Rightarrow> bool" where
  "queue_guard (Reserve nb) q \<longleftrightarrow> True"
| "queue_guard (Write idx v) q \<longleftrightarrow> pos_from (q_sent q) idx < q_held q"
| "queue_guard (Submit nb) q \<longleftrightarrow> q_sent q + unat nb \<le> q_held q"
| "queue_guard (Peek nb) q \<longleftrightarrow> True"
| "queue_guard (Read idx) q \<longleftrightarrow> pos_from (q_freed q) idx < q_taken q"
| "queue_guard (Cancel nb) q \<longleftrightarrow> q_freed q + unat nb \<le> q_taken q"
| "queue_guard (Release nb) q \<longleftrightarrow> q_freed q + unat nb \<le> q_taken q"

fun queue_allowed :: "'a ring_op \<Rightarrow> 'a ring_result \<Rightarrow> 'a queue \<Rightarrow> bool" where
  "queue_allowed (Reserve nb) (Count n idx) q \<longleftrightarrow>
     n = (if q_held q + unat nb \<le> q_freed q + q_size q then nb else 0) \<and> (n > 0 \<longrightarrow> idx = of_nat (q_held q))"
| "queue_allowed (Peek nb) (Count n idx) q \<longleftrightarrow>
     n \<le> nb \<and> q_taken q + unat n \<le> q_sent q \<and> (nb > 0 \<and> q_taken q < q_sent q \<longrightarrow> n > 0) \<and>
     (n > 0 \<longrightarrow> idx = of_nat (q_taken q))"
| "queue_allowed (Read idx) (Value v) q \<longleftrightarrow> (case q_vals q (pos_from (q_freed q) idx) of None \<Rightarrow> True | Some w \<Rightarrow> v = w)"
| "queue_allowed (Write idx v) Done q \<longleftrightarrow> True"
| "queue_allowed (Submit nb) Done q \<longleftrightarrow> True"
| "queue_allowed (Cancel nb) Done q \<longleftrightarrow> True"
| "queue_allowed (Release nb) Done q \<longleftrightarrow> True"
| "queue_allowed _ _ q \<longleftrightarrow> False"

fun queue_next :: "'a ring_op \<Rightarrow> 'a ring_result \<Rightarrow> 'a queue \<Rightarrow> 'a queue" where
  "queue_next (Reserve nb) (Count n idx) q = q\<lparr>q_held := q_held q + unat n\<rparr>"
| "queue_next (Peek nb) (Count n idx) q = q\<lparr>q_taken := q_taken q + unat n\<rparr>"
| "queue_next (Write idx v) r q = q\<lparr>q_vals := (q_vals q)(pos_from (q_sent q) idx := Some v)\<rparr>"
| "queue_next (Submit nb) r q = q\<lparr>q_sent := q_sent q + unat nb\<rparr>"
| "queue_next (Cancel nb) r q = q\<lparr>q_taken := q_taken q - unat nb\<rparr>"
| "queue_next (Release nb) r q = q\<lparr>q_freed := q_freed q + unat nb\<rparr>"
| "queue_next _ _ q = q"

definition ring_shape :: "nat \<Rightarrow> xsk_ring \<Rightarrow> bool" where
  "ring_shape n r \<longleftrightarrow> (\<exists>b\<le>31. n = 2 ^ b) \<and> size_of r = of_nat n \<and> mask_of r = of_nat n - 1"

definition ring_sim :: "'a rings \<Rightarrow> 'a queue \<Rightarrow> bool" where
  "ring_sim s q \<longleftrightarrow>
     ring_shape (q_size q) (prod_end s) \<and> ring_shape (q_size q) (cons_end s) \<and>
     length (slots (shared s)) = q_size q \<and>
     q_freed q \<le> q_taken q \<and> q_taken q \<le> q_sent q \<and> q_sent q \<le> q_held q \<and> q_held q \<le> q_freed q + q_size q \<and>
     producer (shared s) = of_nat (q_sent q) \<and> consumer (shared s) = of_nat (q_freed q) \<and>
     cached_prod (prod_end s) = of_nat (q_held q) \<and> cached_cons (cons_end s) = of_nat (q_taken q) \<and>
     (\<exists>l\<le>q_freed q. q_held q \<le> l + q_size q \<and> cached_cons (prod_end s) = of_nat (l + q_size q)) \<and>
     (\<exists>t. q_taken q \<le> t \<and> t \<le> q_sent q \<and> cached_prod (cons_end s) = of_nat t) \<and>
     (\<forall>i v. q_freed q \<le> i \<longrightarrow> i < q_held q \<longrightarrow> q_vals q i = Some v \<longrightarrow> slots (shared s) ! (i mod q_size q) = v) \<and>
     (\<forall>i. q_held q \<le> i \<longrightarrow> q_vals q i = None)"

lemma u32_diff: "y \<le> x \<Longrightarrow> x - y < 2 ^ 32 \<Longrightarrow> unat (of_nat x - of_nat y :: u32) = x - y"
  by (simp flip: of_nat_diff add: unat_of_nat take_bit_nat_eq_self unsigned_of_nat)

lemma shape_bound: "ring_shape n r \<Longrightarrow> n \<le> 2 ^ 31 \<and> 0 < n"
  by (auto simp: ring_shape_def intro: power_increasing [where a = "2::nat" and N = 31, simplified])

lemma mask_index:
  assumes "ring_shape n r"
  shows "unat (of_nat i AND mask_of r) = i mod n"
proof -
  obtain b where b: "b \<le> 31" "n = 2 ^ b" "mask_of r = of_nat n - 1" using assms by (auto simp: ring_shape_def)
  have "mask_of r = mask b" by (simp add: b mask_eq_exp_minus_1)
  then have "of_nat i AND mask_of r = take_bit b (of_nat i :: u32)" by (simp add: take_bit_eq_mask)
  then have "unat (of_nat i AND mask_of r) = take_bit b (take_bit 32 i)"
    by (simp only: unsigned_take_bit_eq unsigned_of_nat) simp
  then show ?thesis using b(1) by (simp only: take_bit_take_bit) (simp add: b(2) take_bit_eq_mod)
qed

lemma slot_index:
  "ring_shape n r \<Longrightarrow> length (slots sh) = n \<Longrightarrow> slot_of r sh (of_nat i) = Some (i mod n)"
  using shape_bound [of n r] by (simp add: slot_of_def mask_index)

lemma pos_from_index: "of_nat (pos_from n idx) = idx"
  by (simp add: pos_from_def)

lemma pos_from_ge: "n \<le> pos_from n idx"
  by (simp add: pos_from_def)

lemma mod_distinct_less: "i < j \<Longrightarrow> j < i + n \<Longrightarrow> i mod n \<noteq> j mod (n::nat)"
proof
  assume a: "i < j" "j < i + n" and "i mod n = j mod n"
  then have "n dvd j - i" using mod_eq_dvd_iff_nat [of i j n] by simp
  then show False using a by (auto dest: dvd_imp_le)
qed

lemma mod_distinct: "i \<noteq> j \<Longrightarrow> i < j + n \<Longrightarrow> j < i + n \<Longrightarrow> i mod n \<noteq> j mod (n::nat)"
  using mod_distinct_less [of i j n] mod_distinct_less [of j i n] by (metis nat_neq_iff)

section \<open>Each call simulates the queue\<close>

lemma sim_facts:
  assumes "ring_sim s q"
  shows "ring_shape (q_size q) (prod_end s)" "ring_shape (q_size q) (cons_end s)" "length (slots (shared s)) = q_size q"
    "q_freed q \<le> q_taken q" "q_taken q \<le> q_sent q" "q_sent q \<le> q_held q" "q_held q \<le> q_freed q + q_size q"
    "producer (shared s) = of_nat (q_sent q)" "consumer (shared s) = of_nat (q_freed q)"
    "cached_prod (prod_end s) = of_nat (q_held q)" "cached_cons (cons_end s) = of_nat (q_taken q)"
  using assms by (simp_all add: ring_sim_def)

lemma sim_cached_cons:
  assumes "ring_sim s q"
  obtains l where "l \<le> q_freed q" "q_held q \<le> l + q_size q" "cached_cons (prod_end s) = of_nat (l + q_size q)"
  using assms unfolding ring_sim_def by blast

lemma sim_cached_prod:
  assumes "ring_sim s q"
  obtains t where "q_taken q \<le> t" "t \<le> q_sent q" "cached_prod (cons_end s) = of_nat t"
  using assms unfolding ring_sim_def by blast

lemma sim_size: "ring_sim s q \<Longrightarrow> q_size q \<le> 2 ^ 31 \<and> 0 < q_size q"
  using shape_bound sim_facts(1) by blast

lemma ring_simI:
  assumes "ring_shape (q_size q) (prod_end s)" "ring_shape (q_size q) (cons_end s)" "length (slots (shared s)) = q_size q"
    "q_freed q \<le> q_taken q" "q_taken q \<le> q_sent q" "q_sent q \<le> q_held q" "q_held q \<le> q_freed q + q_size q"
    "producer (shared s) = of_nat (q_sent q)" "consumer (shared s) = of_nat (q_freed q)"
    "cached_prod (prod_end s) = of_nat (q_held q)" "cached_cons (cons_end s) = of_nat (q_taken q)"
    "l \<le> q_freed q" "q_held q \<le> l + q_size q" "cached_cons (prod_end s) = of_nat (l + q_size q)"
    "q_taken q \<le> t" "t \<le> q_sent q" "cached_prod (cons_end s) = of_nat t"
    "\<And>i v. q_freed q \<le> i \<Longrightarrow> i < q_held q \<Longrightarrow> q_vals q i = Some v \<Longrightarrow> slots (shared s) ! (i mod q_size q) = v"
    "\<And>i. q_held q \<le> i \<Longrightarrow> q_vals q i = None"
  shows "ring_sim s q"
  unfolding ring_sim_def using assms by blast

lemma sim_vals:
  assumes "ring_sim s q"
  shows "q_freed q \<le> i \<Longrightarrow> i < q_held q \<Longrightarrow> q_vals q i = Some v \<Longrightarrow> slots (shared s) ! (i mod q_size q) = v"
    and "q_held q \<le> i \<Longrightarrow> q_vals q i = None"
  using assms unfolding ring_sim_def by blast+

text \<open>The free entries, read from the cached or from the fresh consumer position.\<close>

lemma prod_nb_free_sim:
  assumes sim: "ring_sim s q" and f: "xsk_prod_nb_free (prod_end s) (shared s) nb = (free, p)"
  shows "(nb \<le> free) = (q_held q + unat nb \<le> q_freed q + q_size q)"
    and "\<exists>l\<le>q_freed q. q_held q + unat free = l + q_size q \<and> cached_cons p = of_nat (l + q_size q)"
    and "cached_prod p = cached_prod (prod_end s)" "size_of p = size_of (prod_end s)" "mask_of p = mask_of (prod_end s)"
proof -
  note S = sim_facts [OF sim] sim_size [OF sim]
  obtain l where l: "l \<le> q_freed q" "q_held q \<le> l + q_size q" "cached_cons (prod_end s) = of_nat (l + q_size q)"
    by (rule sim_cached_cons [OF sim])
  have free: "unat (of_nat (k + q_size q) - of_nat (q_held q) :: u32) = k + q_size q - q_held q"
    if "q_held q \<le> k + q_size q" "k \<le> q_freed q" for k
    using that S by (intro u32_diff) auto
  have size: "size_of (prod_end s) = of_nat (q_size q)" using S(1) by (simp add: ring_shape_def)
  show "cached_prod p = cached_prod (prod_end s)" "size_of p = size_of (prod_end s)" "mask_of p = mask_of (prod_end s)"
    using f by (auto simp: xsk_prod_nb_free_def Let_def split: if_splits)
  have D: "nb \<le> of_nat (l + q_size q) - of_nat (q_held q) \<and> free = of_nat (l + q_size q) - of_nat (q_held q) \<and> cached_cons p = of_nat (l + q_size q) \<or>
      \<not> nb \<le> of_nat (l + q_size q) - of_nat (q_held q) \<and>
      free = of_nat (q_freed q + q_size q) - of_nat (q_held q) \<and> cached_cons p = of_nat (q_freed q + q_size q)"
    using f l(3) S(9,10) size by (auto simp: xsk_prod_nb_free_def Let_def add.commute split: if_splits)
  show "\<exists>l\<le>q_freed q. q_held q + unat free = l + q_size q \<and> cached_cons p = of_nat (l + q_size q)"
    using D free [of l] free [of "q_freed q"] l S(7) by (elim disjE) force+
  show "(nb \<le> free) = (q_held q + unat nb \<le> q_freed q + q_size q)"
    using D free [of l] free [of "q_freed q"] l S(7) by (auto simp: word_le_nat_alt)
qed

lemma reserve_sim:
  assumes sim: "ring_sim s q" and st: "ring_step (Reserve nb) s = (r, s')"
  shows "queue_allowed (Reserve nb) r q" "ring_sim s' (queue_next (Reserve nb) r q)"
proof -
  note S = sim_facts [OF sim] sim_size [OF sim]
  obtain free p where f: "xsk_prod_nb_free (prod_end s) (shared s) nb = (free, p)" by fastforce
  note F = prod_nb_free_sim [OF sim f]
  obtain l where l: "l \<le> q_freed q" "q_held q + unat free = l + q_size q" "cached_cons p = of_nat (l + q_size q)"
    using F(2) by blast
  have shape: "ring_shape (q_size q) p" using S(1) F(4,5) by (simp add: ring_shape_def)
  show "queue_allowed (Reserve nb) r q"
    using st F(1,3) S(10) by (auto simp: xsk_ring_prod__reserve_def f Let_def not_less [symmetric] split: if_splits)
  obtain t where t: "q_taken q \<le> t" "t \<le> q_sent q" "cached_prod (cons_end s) = of_nat t"
    by (rule sim_cached_prod [OF sim])
  have v: "slots (shared s) ! (i mod q_size q) = w" if "q_freed q \<le> i" "q_vals q i = Some w" for i w
    using that sim_vals [OF sim, of i] by (cases "i < q_held q") auto
  show "ring_sim s' (queue_next (Reserve nb) r q)"
  proof (cases "free < nb")
    case True
    then have "r = Count 0 0" "s' = s\<lparr>prod_end := p\<rparr>" using st by (simp_all add: xsk_ring_prod__reserve_def f)
    then show ?thesis
      using S F(3) l t shape sim_vals [OF sim] by (intro ring_simI [where l = l and t = t]) simp_all
  next
    case False
    then have r: "r = Count nb (cached_prod p)" "s' = s\<lparr>prod_end := p\<lparr>cached_prod := cached_prod p + nb\<rparr>\<rparr>"
      using st by (simp_all add: xsk_ring_prod__reserve_def f)
    have "q_held q + unat nb \<le> l + q_size q" using False l(2) by (simp add: word_le_nat_alt not_less)
    then show ?thesis
      using S F(3) l t shape sim_vals(2) [OF sim] v r
      by (intro ring_simI [where l = l and t = t]) (simp_all add: ring_shape_def)
  qed
qed

abbreviation sim_view :: "'a rings \<Rightarrow> 'a queue \<Rightarrow> nat \<Rightarrow> nat \<Rightarrow> bool" where
  "sim_view s q l t \<equiv>
     l \<le> q_freed q \<and> q_held q \<le> l + q_size q \<and> cached_cons (prod_end s) = of_nat (l + q_size q) \<and>
     q_taken q \<le> t \<and> t \<le> q_sent q \<and> cached_prod (cons_end s) = of_nat t"

lemma sim_cached:
  assumes "ring_sim s q"
  obtains l t where "sim_view s q l t"
  using assms unfolding ring_sim_def by blast

lemma submit_sim:
  assumes sim: "ring_sim s q" and g: "queue_guard (Submit nb) q"
  shows "ring_sim (snd (ring_step (Submit nb) s)) (queue_next (Submit nb) r q)"
proof -
  note S = sim_facts [OF sim]
  obtain l t where lt: "sim_view s q l t" by (rule sim_cached [OF sim])
  show ?thesis
    using S lt g sim_vals [OF sim]
    by (intro ring_simI [where l = l and t = t]) (auto simp: xsk_ring_prod__submit_def)
qed

lemma release_sim:
  assumes sim: "ring_sim s q" and g: "queue_guard (Release nb) q"
  shows "ring_sim (snd (ring_step (Release nb) s)) (queue_next (Release nb) r q)"
proof -
  note S = sim_facts [OF sim]
  obtain l t where lt: "sim_view s q l t" by (rule sim_cached [OF sim])
  show ?thesis
    using S lt g sim_vals [OF sim]
    by (intro ring_simI [where l = l and t = t]) (auto simp: xsk_ring_cons__release_def)
qed

lemma cancel_sim:
  assumes sim: "ring_sim s q" and g: "queue_guard (Cancel nb) q"
  shows "ring_sim (snd (ring_step (Cancel nb) s)) (queue_next (Cancel nb) r q)"
proof -
  note S = sim_facts [OF sim]
  obtain l t where lt: "sim_view s q l t" by (rule sim_cached [OF sim])
  show ?thesis
    using S lt g sim_vals [OF sim]
    by (intro ring_simI [where l = l and t = t]) (auto simp: xsk_ring_cons__cancel_def ring_shape_def of_nat_diff)
qed


lemma write_sim:
  assumes sim: "ring_sim s q" and g: "queue_guard (Write idx v) q" and st: "ring_step (Write idx v) s = (r, s')"
  shows "queue_allowed (Write idx v) r q" "ring_sim s' (queue_next (Write idx v) r q)"
proof -
  note S = sim_facts [OF sim]
  obtain l t where lt: "sim_view s q l t" by (rule sim_cached [OF sim])
  define i where "i = pos_from (q_sent q) idx"
  have i: "q_sent q \<le> i" "i < q_held q" "idx = of_nat i"
    using g pos_from_ge [of "q_sent q" idx] pos_from_index [of "q_sent q" idx] by (simp_all add: i_def)
  have r: "r = Done" "s' = s\<lparr>shared := (shared s)\<lparr>slots := (slots (shared s))[i mod q_size q := v]\<rparr>\<rparr>"
    using st slot_index [OF S(1,3)] by (simp_all add: xsk_ring_prod__tx_desc_def i(3))
  then show "queue_allowed (Write idx v) r q" by simp
  have "(slots (shared s))[i mod q_size q := v] ! (j mod q_size q) = w"
    if j: "q_freed q \<le> j" "j < q_held q" "((q_vals q)(i := Some v)) j = Some w" for j w
  proof (cases "j = i")
    case True
    then show ?thesis using j(3) S(3) sim_size [OF sim] by simp
  next
    case False
    then have "i mod q_size q \<noteq> j mod q_size q" using S(4-7) i j by (intro mod_distinct) auto
    then show ?thesis using sim_vals(1) [OF sim j(1,2)] j(3) False by simp
  qed
  then show "ring_sim s' (queue_next (Write idx v) r q)"
    using S lt r(2) sim_vals(2) [OF sim] i(2)
    by (intro ring_simI [where l = l and t = t]) (simp_all flip: i_def)
qed

lemma read_sim:
  assumes sim: "ring_sim s q" and g: "queue_guard (Read idx) q" and st: "ring_step (Read idx) s = (r, s')"
  shows "queue_allowed (Read idx) r q" "ring_sim s' (queue_next (Read idx) r q)"
proof -
  note S = sim_facts [OF sim]
  define i where "i = pos_from (q_freed q) idx"
  have i: "q_freed q \<le> i" "i < q_taken q" "idx = of_nat i"
    using g pos_from_ge [of "q_freed q" idx] pos_from_index [of "q_freed q" idx] by (simp_all add: i_def)
  have r: "r = Value (slots (shared s) ! (i mod q_size q))" "s' = s"
    using st slot_index [OF S(2,3), of i] by (auto simp: xsk_ring_cons__rx_desc_def i(3))
  show "queue_allowed (Read idx) r q"
    using r(1) i(1,2) S(5,6) sim_vals(1) [OF sim, of i] by (auto split: option.splits simp flip: i_def)
  show "ring_sim s' (queue_next (Read idx) r q)" using sim r by simp
qed

lemma cons_nb_avail_sim:
  assumes sim: "ring_sim s q" and f: "xsk_cons_nb_avail (cons_end s) (shared s) nb = (n, c)"
  shows "n \<le> nb" "q_taken q + unat n \<le> q_sent q" "nb > 0 \<Longrightarrow> q_taken q < q_sent q \<Longrightarrow> n > 0"
    and "\<exists>t. q_taken q + unat n \<le> t \<and> t \<le> q_sent q \<and> cached_prod c = of_nat t"
    and "cached_cons c = cached_cons (cons_end s)" "size_of c = size_of (cons_end s)" "mask_of c = mask_of (cons_end s)"
proof -
  note S = sim_facts [OF sim] sim_size [OF sim]
  obtain t where t: "q_taken q \<le> t" "t \<le> q_sent q" "cached_prod (cons_end s) = of_nat t"
    by (rule sim_cached_prod [OF sim])
  have av: "unat (of_nat k - of_nat (q_taken q) :: u32) = k - q_taken q" if "q_taken q \<le> k" "k \<le> q_sent q" for k
    using that S by (intro u32_diff) auto
  have z: "of_nat t - of_nat (q_taken q) = (0::u32) \<longleftrightarrow> t = q_taken q"
    using av [OF t(1,2)] t(1) by (metis diff_is_0_eq' le_antisym diff_self unat_0 zero_less_diff not_less)
  define t' where "t' = (if t = q_taken q then q_sent q else t)"
  have t': "q_taken q \<le> t'" "t' \<le> q_sent q" "q_taken q < q_sent q \<Longrightarrow> q_taken q < t'"
    using t S(5) by (auto simp: t'_def)
  have n: "n = (if of_nat t' - of_nat (q_taken q) > nb then nb else of_nat t' - of_nat (q_taken q))"
    and c: "cached_prod c = of_nat t'"
    using f t(3) z S(8,11) by (auto simp: xsk_cons_nb_avail_def Let_def t'_def split: if_splits)
  have un: "unat n = min (unat nb) (t' - q_taken q)"
    using n av [OF t'(1,2)] by (auto simp: word_less_nat_alt)
  show "n \<le> nb" "q_taken q + unat n \<le> q_sent q" using un t'(1,2) by (auto simp: word_le_nat_alt)
  show "nb > 0 \<Longrightarrow> q_taken q < q_sent q \<Longrightarrow> n > 0" using un t'(3) by (auto simp: word_less_nat_alt)
  show "\<exists>t. q_taken q + unat n \<le> t \<and> t \<le> q_sent q \<and> cached_prod c = of_nat t"
    using un t' c by (intro exI [of _ t']) auto
  show "cached_cons c = cached_cons (cons_end s)" "size_of c = size_of (cons_end s)" "mask_of c = mask_of (cons_end s)"
    using f by (auto simp: xsk_cons_nb_avail_def Let_def split: if_splits)
qed

lemma peek_sim:
  assumes sim: "ring_sim s q" and st: "ring_step (Peek nb) s = (r, s')"
  shows "queue_allowed (Peek nb) r q" "ring_sim s' (queue_next (Peek nb) r q)"
proof -
  note S = sim_facts [OF sim]
  obtain l t0 where lt: "sim_view s q l t0" by (rule sim_cached [OF sim])
  obtain n c where f: "xsk_cons_nb_avail (cons_end s) (shared s) nb = (n, c)" by fastforce
  note F = cons_nb_avail_sim [OF sim f]
  obtain t where t: "q_taken q + unat n \<le> t" "t \<le> q_sent q" "cached_prod c = of_nat t" using F(4) by blast
  obtain i where r: "r = Count n i" "n > 0 \<longrightarrow> i = cached_cons c" "s' = s\<lparr>cons_end := c\<lparr>cached_cons := cached_cons c + n\<rparr>\<rparr>"
    using st by (cases "n = 0") (auto simp: xsk_ring_cons__peek_def f word_gt_0 Let_def)
  show "queue_allowed (Peek nb) r q" using F(1-3,5) r S(11) by auto
  show "ring_sim s' (queue_next (Peek nb) r q)"
    using S lt F(2,5-7) t r sim_vals [OF sim]
    by (intro ring_simI [where l = l and t = t]) (simp_all add: ring_shape_def)
qed


lemma ring_step_sim:
  assumes sim: "ring_sim s q" and g: "queue_guard c q" and st: "ring_step c s = (r, s')"
  shows "queue_allowed c r q \<and> ring_sim s' (queue_next c r q)"
proof (cases c)
  case (Reserve nb)
  then show ?thesis using reserve_sim [OF sim] st by simp
next
  case (Write idx v)
  then show ?thesis using write_sim [OF sim] g st by simp
next
  case (Submit nb)
  then show ?thesis using submit_sim [OF sim, of nb r] g st by auto
next
  case (Peek nb)
  then show ?thesis using peek_sim [OF sim] st by simp
next
  case (Read idx)
  then show ?thesis using read_sim [OF sim] g st by simp
next
  case (Cancel nb)
  then show ?thesis using cancel_sim [OF sim, of nb r] g st by auto
next
  case (Release nb)
  then show ?thesis using release_sim [OF sim, of nb r] g st by auto
qed

interpretation xr: simulation ring_sim ring_step queue_guard queue_allowed queue_next
  by unfold_locales (use ring_step_sim in blast)+

definition queue_start :: "nat \<Rightarrow> nat \<Rightarrow> 'a queue" where
  "queue_start n i = \<lparr>q_size = n, q_freed = i, q_taken = i, q_sent = i, q_held = i, q_vals = \<lambda>_. None\<rparr>"

lemma setup_sim:
  assumes "b \<le> 31" "length (slots sh) = 2 ^ b" "consumer sh = producer sh"
  shows "ring_sim (rings_setup (2 ^ b) sh) (queue_start (2 ^ b) (unat (producer sh)))"
  using assms
  by (intro ring_simI [where l = "unat (producer sh)" and t = "unat (producer sh)"])
     (auto simp: rings_setup_def queue_start_def tx_setup_def rx_setup_def ring_shape_def)

section \<open>Properties\<close>

text \<open>
  C29: The rings are a bounded queue. Take a ring whose size is a power of two up to \<open>2 ^ 31\<close>, with its two
  counters equal to each other and otherwise arbitrary, so close to the 32-bit wrap-around too. Let the
  producer and the consumer make any interleaving of calls that keep to the protocol: write only between
  the submitted and the reserved position, submit no more than was reserved, read, cancel and release only
  what was peeked. Then a reserve succeeds exactly when that many slots are free (so it never hands out a slot that is not yet
  released), a peek gives submitted entries only and gives some when there are any, no access leaves the ring,
  and the consumer reads at each position what the producer last wrote there.
\<close>

theorem xsk_rings_are_a_queue:
  assumes "b \<le> 31" "length (slots sh) = 2 ^ b" "consumer sh = producer sh"
    and "run_steps ring_step cs (rings_setup (2 ^ b) sh) = (rs, s)"
    and "guards_hold queue_guard queue_next cs rs (queue_start (2 ^ b) (unat (producer sh)))"
  shows "\<exists>q. spec_run queue_allowed queue_next cs rs (queue_start (2 ^ b) (unat (producer sh))) = Some q \<and> ring_sim s q"
  by (rule xr.run_simulates [OF setup_sim [OF assms(1-3)] assms(4,5)])

theorem xsk_rings_are_a_queue_witness:
  "let cs = [Reserve 2, Write (- 1) (7::u64), Write 0 8, Submit 2, Reserve 1, Peek 5, Read (- 1), Read 0, Release 1, Reserve 1];
       sh = \<lparr>producer = - 1, consumer = - 1, ring_flags = 0, slots = [0, 0]\<rparr>;
       rs = fst (run_steps ring_step cs (rings_setup 2 sh))
   in rs = [Count 2 (- 1), Done, Done, Done, Count 0 0, Count 2 (- 1), Value 7, Value 8, Done, Count 1 1] \<and>
      spec_run queue_allowed queue_next cs rs (queue_start 2 (unat (- 1 :: u32))) \<noteq> None"
proof -
  let ?cs = "[Reserve 2, Write (- 1) (7::u64), Write 0 8, Submit 2, Reserve 1, Peek 5, Read (- 1), Read 0, Release 1, Reserve 1]"
  let ?sh = "\<lparr>producer = - 1, consumer = - 1, ring_flags = 0, slots = [0, 0::u64]\<rparr>"
  let ?rs = "[Count 2 (- 1), Done, Done, Done, Count 0 0, Count 2 (- 1), Value 7, Value 8, Done, Count 1 (1::u32)]"
  have rs: "fst (run_steps ring_step ?cs (rings_setup (2 ^ 1) ?sh)) = ?rs" by code_simp
  have g: "guards_hold queue_guard queue_next ?cs ?rs (queue_start (2 ^ 1) (unat (producer ?sh)))"
    by (simp add: queue_start_def pos_from_def unsigned_minus_1_eq_mask mask_eq_exp_minus_1)
  have run: "run_steps ring_step ?cs (rings_setup (2 ^ 1) ?sh) = (?rs, snd (run_steps ring_step ?cs (rings_setup (2 ^ 1) ?sh)))"
    using rs by (simp only: prod_eq_iff fst_conv snd_conv)
  have "\<exists>q. spec_run queue_allowed queue_next ?cs ?rs (queue_start (2 ^ 1) (unat (producer ?sh))) = Some q \<and>
      ring_sim (snd (run_steps ring_step ?cs (rings_setup (2 ^ 1) ?sh))) q"
    by (rule xsk_rings_are_a_queue [OF _ _ _ run g]) simp_all
  then show ?thesis using rs unfolding Let_def by (simp only: power_one_right shared_ring.simps) blast
qed

text \<open>
  An unaligned descriptor address splits into a 48-bit base and a 16-bit offset without losing a bit, and
  their sum never wraps.
\<close>

theorem xsk_umem_address_split:
  "push_bit 48 (xsk_umem__extract_offset addr) OR xsk_umem__extract_addr addr = addr \<and>
   unat (xsk_umem__add_offset_to_addr addr) = unat (xsk_umem__extract_addr addr) + unat (xsk_umem__extract_offset addr)"
proof -
  have m: "xsk_umem__extract_addr addr = take_bit 48 addr"
    by (simp add: xsk_umem__extract_addr_def XSK_UNALIGNED_BUF_ADDR_MASK_def XSK_UNALIGNED_BUF_OFFSET_SHIFT_def
        take_bit_eq_mask mask_eq_exp_minus_1 push_bit_eq_mult)
  have o: "xsk_umem__extract_offset addr = drop_bit 48 addr"
    by (simp add: xsk_umem__extract_offset_def XSK_UNALIGNED_BUF_OFFSET_SHIFT_def)
  have "unat (take_bit 48 addr) < 2 ^ 48"
    unfolding unsigned_take_bit_eq using take_bit_nat_less_exp [of 48 "unat addr"] by simp
  moreover have "unat (drop_bit 48 addr) < 2 ^ 16"
  proof -
    have "unat addr div 2 ^ 48 < 2 ^ 16" using unsigned_less [where ?'a = nat, of addr] by (simp add: div_less_iff_less_mult)
    then show ?thesis
      using take_bit_nat_eq_self [of "unat addr" 64] unsigned_less [where ?'a = nat, of addr]
      by (simp only: unsigned_drop_bit_eq) (simp add: drop_bit_eq_div)
  qed
  ultimately have "unat (take_bit 48 addr + drop_bit 48 addr) = unat (take_bit 48 addr) + unat (drop_bit 48 addr)"
    by (intro word_add_lt) simp
  moreover have "push_bit 48 (drop_bit 48 addr) OR take_bit 48 addr = addr"
    by (rule bit_eqI) (auto simp: bit_simps)
  ultimately show ?thesis by (simp add: m o xsk_umem__add_offset_to_addr_def)
qed

end
