(* ===== verification/Lib_Parsing.thy ===== *)
theory Lib_Parsing
  imports Parsing
begin

text \<open>
  \<^verbatim>\<open>lib/xdp-tools/headers/xdp/parsing_helpers.h\<close>: the parsers that the packet filter of xdp-tools uses. They
  differ from \<^verbatim>\<open>common/parsing_helpers.h\<close>: up to four VLAN tags are skipped, IPv6
  extension headers are followed, and the lengths in an IPv4 or TCP header may be shorter than the header itself.
  They keep a weaker contract, \<open>lax_parser\<close>, which the parsers of \<^verbatim>\<open>common\<close> keep too.
\<close>

section \<open>Model\<close>

definition LIB_VLAN_MAX_DEPTH :: nat where "LIB_VLAN_MAX_DEPTH = 4"
definition IPV6_EXT_MAX_CHAIN :: nat where "IPV6_EXT_MAX_CHAIN = 6"

definition IPPROTO_HOPOPTS :: u8 where "IPPROTO_HOPOPTS = 0"
definition IPPROTO_ROUTING :: u8 where "IPPROTO_ROUTING = 43"
definition IPPROTO_FRAGMENT :: u8 where "IPPROTO_FRAGMENT = 44"
definition IPPROTO_AH :: u8 where "IPPROTO_AH = 51"
definition IPPROTO_DSTOPTS :: u8 where "IPPROTO_DSTOPTS = 60"
definition IPPROTO_MH :: u8 where "IPPROTO_MH = 135"

fun lib_vlan_loop :: "mem \<Rightarrow> nat \<Rightarrow> nat \<Rightarrow> u16 \<Rightarrow> (nat \<times> u16) option" where
  "lib_vlan_loop pkt 0 vlh h_proto = Some (vlh, h_proto)"
| "lib_vlan_loop pkt (Suc n) vlh h_proto =
     (if \<not> proto_is_vlan h_proto then Some (vlh, h_proto)
      else if vlh + 4 > length pkt then Some (vlh, h_proto)
      else do {
        h_proto' \<leftarrow> ld16 pkt (vlh + 2);
        lib_vlan_loop pkt n (vlh + 4) h_proto'
      })"

definition lib_parse_ethhdr :: "mem \<Rightarrow> hdr_cursor \<Rightarrow> parse_result" where
  "lib_parse_ethhdr pkt nh =
     (let eth = pos nh in
      if eth + 14 > length pkt then Some (-1, nh, None)
      else do {
        h_proto \<leftarrow> ld16 pkt (eth + 12);
        (vlh, h_proto') \<leftarrow> lib_vlan_loop pkt LIB_VLAN_MAX_DEPTH (eth + 14) h_proto;
        Some (uint h_proto', nh\<lparr>pos := vlh\<rparr>, Some eth)
      })"

text \<open>The loop of \<^verbatim>\<open>skip_ip6hdrext\<close>, with the number of rounds left.\<close>

fun ip6ext_loop :: "mem \<Rightarrow> nat \<Rightarrow> hdr_cursor \<Rightarrow> u8 \<Rightarrow> (int \<times> hdr_cursor) option" where
  "ip6ext_loop pkt 0 nh next_hdr_type = Some (-1, nh)"
| "ip6ext_loop pkt (Suc n) nh next_hdr_type =
     (let hdr = pos nh in
      if hdr + 2 > length pkt then Some (-1, nh)
      else if next_hdr_type \<in> {IPPROTO_HOPOPTS, IPPROTO_DSTOPTS, IPPROTO_ROUTING, IPPROTO_MH} then do {
        hdrlen \<leftarrow> ld8 pkt (hdr + 1);
        nexthdr \<leftarrow> ld8 pkt hdr;
        ip6ext_loop pkt n (nh\<lparr>pos := hdr + (unat hdrlen + 1) * 8\<rparr>) nexthdr
      }
      else if next_hdr_type = IPPROTO_AH then do {
        hdrlen \<leftarrow> ld8 pkt (hdr + 1);
        nexthdr \<leftarrow> ld8 pkt hdr;
        ip6ext_loop pkt n (nh\<lparr>pos := hdr + (unat hdrlen + 2) * 4\<rparr>) nexthdr
      }
      else if next_hdr_type = IPPROTO_FRAGMENT then do {
        nexthdr \<leftarrow> ld8 pkt hdr;
        ip6ext_loop pkt n (nh\<lparr>pos := hdr + 8\<rparr>) nexthdr
      }
      else Some (uint next_hdr_type, nh))"

definition skip_ip6hdrext :: "mem \<Rightarrow> hdr_cursor \<Rightarrow> u8 \<Rightarrow> (int \<times> hdr_cursor) option" where
  "skip_ip6hdrext pkt nh next_hdr_type = ip6ext_loop pkt IPV6_EXT_MAX_CHAIN nh next_hdr_type"

definition lib_parse_ip6hdr :: "mem \<Rightarrow> hdr_cursor \<Rightarrow> parse_result" where
  "lib_parse_ip6hdr pkt nh =
     (let ip6h = pos nh in
      if ip6h + 40 > length pkt then Some (-1, nh, None)
      else do {
        nexthdr \<leftarrow> ld8 pkt (ip6h + 6);
        (r, nh') \<leftarrow> skip_ip6hdrext pkt (nh\<lparr>pos := ip6h + 40\<rparr>) nexthdr;
        Some (r, nh', Some ip6h)
      })"

definition lib_parse_iphdr :: "mem \<Rightarrow> hdr_cursor \<Rightarrow> parse_result" where
  "lib_parse_iphdr pkt nh =
     (let iph = pos nh in
      if iph + 20 > length pkt then Some (-1, nh, None)
      else do {
        b0 \<leftarrow> ld8 pkt iph;
        let hdrsize = ihl_of b0 * 4;
        if pos nh + hdrsize > length pkt then Some (-1, nh, None)
        else do {
          protocol \<leftarrow> ld8 pkt (iph + 9);
          Some (uint protocol, nh\<lparr>pos := pos nh + hdrsize\<rparr>, Some iph)
        }
      })"

definition lib_parse_icmp6hdr :: "mem \<Rightarrow> hdr_cursor \<Rightarrow> parse_result" where
  "lib_parse_icmp6hdr pkt nh =
     (let icmp6h = pos nh in
      if icmp6h + 8 > length pkt then Some (-1, nh, None)
      else do {
        t \<leftarrow> ld8 pkt icmp6h;
        Some (uint t, nh\<lparr>pos := icmp6h + 8\<rparr>, Some icmp6h)
      })"

definition lib_parse_icmphdr :: "mem \<Rightarrow> hdr_cursor \<Rightarrow> parse_result" where
  "lib_parse_icmphdr pkt nh =
     (let icmph = pos nh in
      if icmph + 8 > length pkt then Some (-1, nh, None)
      else do {
        t \<leftarrow> ld8 pkt icmph;
        Some (uint t, nh\<lparr>pos := icmph + 8\<rparr>, Some icmph)
      })"

definition lib_parse_icmphdr_common :: "mem \<Rightarrow> hdr_cursor \<Rightarrow> parse_result" where
  "lib_parse_icmphdr_common pkt nh =
     (let h = pos nh in
      if h + 4 > length pkt then Some (-1, nh, None)
      else do {
        t \<leftarrow> ld8 pkt h;
        Some (uint t, nh\<lparr>pos := h + 4\<rparr>, Some h)
      })"

definition lib_parse_udphdr :: "mem \<Rightarrow> hdr_cursor \<Rightarrow> parse_result" where
  "lib_parse_udphdr pkt nh =
     (let h = pos nh in
      if h + 8 > length pkt then Some (-1, nh, None)
      else do {
        l \<leftarrow> ld16 pkt (h + 4);
        let len = uint (bpf_ntohs l) - 8;
        if len < 0 then Some (-1, nh\<lparr>pos := h + 8\<rparr>, Some h)
        else Some (len, nh\<lparr>pos := h + 8\<rparr>, Some h)
      })"

definition lib_parse_tcphdr :: "mem \<Rightarrow> hdr_cursor \<Rightarrow> parse_result" where
  "lib_parse_tcphdr pkt nh =
     (let h = pos nh in
      if h + 20 > length pkt then Some (-1, nh, None)
      else do {
        b12 \<leftarrow> ld8 pkt (h + 12);
        let len = doff_of b12 * 4;
        if h + len > length pkt then Some (-1, nh, None)
        else Some (int len, nh\<lparr>pos := h + 20\<rparr>, Some h)
      })"

section \<open>The weaker contract\<close>

locale lax_parser =
  fixes parse :: "mem \<Rightarrow> hdr_cursor \<Rightarrow> parse_result"
    and hdrlen :: nat
  assumes lax_no_fault: "\<exists>r nh' p. parse pkt nh = Some (r, nh', p)"
    and lax_error_code: "parse pkt nh = Some (r, nh', p) \<Longrightarrow> r < 0 \<Longrightarrow> r = -1"
    and lax_success: "parse pkt nh = Some (r, nh', p) \<Longrightarrow> 0 \<le> r \<Longrightarrow>
      p = Some (pos nh) \<and> pos nh + hdrlen \<le> length pkt \<and> pos nh \<le> pos nh' \<and> pos nh' \<le> length pkt"
begin

lemma lax_cases:
  obtains (refused) nh' p where "parse pkt nh = Some (-1, nh', p)"
  | (parsed) r nh' where "parse pkt nh = Some (r, nh', Some (pos nh))" "0 \<le> r"
      "pos nh + hdrlen \<le> length pkt" "pos nh' \<le> length pkt"
proof -
  obtain r nh' p where r: "parse pkt nh = Some (r, nh', p)" using lax_no_fault by blast
  show thesis
  proof (cases "r < 0")
    case True
    then show thesis using refused lax_error_code [OF r] r by simp
  next
    case False
    then show thesis using parsed [of r nh'] lax_success [OF r] r by simp
  qed
qed

lemma lax_bytes:
  assumes "parse pkt nh = Some (r, nh', Some p)" "0 \<le> r" "i + n \<le> hdrlen"
  shows "ldn pkt (p + i) n = Some (take n (drop (p + i) pkt))"
  using lax_success [OF assms(1,2)] assms(3) by (auto simp: ldn_def)

end

sublocale header_parser \<subseteq> lax: lax_parser parse hdrlen
  using no_fault error_code success by unfold_locales (blast, blast, fastforce)

section \<open>The parsers keep it\<close>

lemma lib_vlan_loop_bounds:
  "vlh \<le> length pkt \<Longrightarrow> \<exists>vlh' h'. lib_vlan_loop pkt n vlh h = Some (vlh', h') \<and> vlh \<le> vlh' \<and> vlh' \<le> length pkt"
proof (induction n arbitrary: vlh h)
  case (Suc n)
  show ?case
  proof (cases "proto_is_vlan h \<and> vlh + 4 \<le> length pkt")
    case True
    then obtain h' where h': "ld16 pkt (vlh + 2) = Some h'" by (auto simp: mem_simps)
    then show ?thesis using True Suc.IH [of "vlh + 4" h'] by auto
  qed (use Suc.prems in auto)
qed auto

definition is_ip6ext :: "u8 \<Rightarrow> bool" where
  "is_ip6ext t \<longleftrightarrow> t \<in> {IPPROTO_HOPOPTS, IPPROTO_DSTOPTS, IPPROTO_ROUTING, IPPROTO_MH, IPPROTO_AH, IPPROTO_FRAGMENT}"

text \<open>The length of the extension header of type \<open>t\<close> at \<open>p\<close>, as its RFC defines it.\<close>

definition ip6ext_len :: "mem \<Rightarrow> nat \<Rightarrow> u8 \<Rightarrow> nat" where
  "ip6ext_len pkt p t =
     (if t = IPPROTO_AH then (unat (pkt ! (p + 1)) + 2) * 4
      else if t = IPPROTO_FRAGMENT then 8 else (unat (pkt ! (p + 1)) + 1) * 8)"

text \<open>\<open>n\<close> extension headers lie between the header of type \<open>t\<close> at \<open>p\<close> and that of type \<open>t'\<close> at \<open>p'\<close>.\<close>

inductive ip6_chain :: "mem \<Rightarrow> nat \<Rightarrow> nat \<Rightarrow> u8 \<Rightarrow> nat \<Rightarrow> u8 \<Rightarrow> bool" for pkt where
  chain_end: "ip6_chain pkt 0 p t p t"
| chain_ext: "is_ip6ext t \<Longrightarrow> p + 2 \<le> length pkt \<Longrightarrow>
    ip6_chain pkt n (p + ip6ext_len pkt p t) (pkt ! p) p' t' \<Longrightarrow> ip6_chain pkt (Suc n) p t p' t'"

inductive_cases chain_endE: "ip6_chain pkt 0 p t p' t'"
inductive_cases chain_extE: "ip6_chain pkt (Suc n) p t p' t'"

lemma ip6ext_loop_step:
  "ip6ext_loop pkt (Suc n) nh t =
     (if pos nh + 2 > length pkt then Some (-1, nh)
      else if is_ip6ext t then ip6ext_loop pkt n (nh\<lparr>pos := pos nh + ip6ext_len pkt (pos nh) t\<rparr>) (pkt ! pos nh)
      else Some (uint t, nh))"
  by (auto simp: Let_def is_ip6ext_def ip6ext_len_def ld8_def IPPROTO_HOPOPTS_def IPPROTO_DSTOPTS_def
      IPPROTO_ROUTING_def IPPROTO_MH_def IPPROTO_AH_def IPPROTO_FRAGMENT_def)

declare ip6ext_loop.simps(2) [simp del]

lemma ip6ext_loop_total: "\<exists>r nh'. ip6ext_loop pkt n nh t = Some (r, nh') \<and> (r < 0 \<longrightarrow> r = -1)"
  by (induction n arbitrary: nh t) (auto simp: ip6ext_loop_step)

lemma ip6ext_loop_chain:
  "ip6ext_loop pkt n nh t = Some (r, nh') \<and> 0 \<le> r \<longleftrightarrow>
     (\<exists>k t'. k < n \<and> ip6_chain pkt k (pos nh) t (pos nh') t' \<and> \<not> is_ip6ext t' \<and>
        pos nh' + 2 \<le> length pkt \<and> r = uint t' \<and> nh' = nh\<lparr>pos := pos nh'\<rparr>)"
proof (induction n arbitrary: nh t)
  case (Suc n)
  show ?case
  proof (cases "pos nh + 2 \<le> length pkt \<and> is_ip6ext t")
    case True
    let ?nh = "nh\<lparr>pos := pos nh + ip6ext_len pkt (pos nh) t\<rparr>"
    have unfold: "ip6_chain pkt k (pos nh) t p' t' \<and> \<not> is_ip6ext t' \<longleftrightarrow>
        (\<exists>j. k = Suc j \<and> ip6_chain pkt j (pos ?nh) (pkt ! pos nh) p' t' \<and> \<not> is_ip6ext t')" for k p' t'
      using True by (cases k) (auto elim!: chain_endE chain_extE intro: chain_ext)
    have "(\<exists>k t'. k < Suc n \<and> ip6_chain pkt k (pos nh) t (pos nh') t' \<and> \<not> is_ip6ext t' \<and> X t') \<longleftrightarrow>
        (\<exists>j t'. j < n \<and> ip6_chain pkt j (pos ?nh) (pkt ! pos nh) (pos nh') t' \<and> \<not> is_ip6ext t' \<and> X t')" for X
      using unfold [of _ "pos nh'"] by (metis Suc_less_eq)
    then show ?thesis using True Suc.IH [of ?nh "pkt ! pos nh"] by (simp add: ip6ext_loop_step)
  next
    case False
    have stop: "ip6_chain pkt k (pos nh) t p' t' \<and> \<not> is_ip6ext t' \<and> p' + 2 \<le> length pkt \<longleftrightarrow>
        k = 0 \<and> p' = pos nh \<and> t' = t \<and> \<not> is_ip6ext t \<and> pos nh + 2 \<le> length pkt" for k p' t'
      using False by (cases k) (auto elim!: chain_endE chain_extE intro: chain_end)
    have "(\<exists>k t'. k < Suc n \<and> ip6_chain pkt k (pos nh) t (pos nh') t' \<and> \<not> is_ip6ext t' \<and> pos nh' + 2 \<le> length pkt \<and> X t') \<longleftrightarrow>
        \<not> is_ip6ext t \<and> pos nh + 2 \<le> length pkt \<and> pos nh' = pos nh \<and> X t" for X
      using stop [of _ "pos nh'"] by (metis zero_less_Suc)
    moreover have "nh' = nh \<longleftrightarrow> pos nh' = pos nh" by (cases nh, cases nh') simp
    ultimately show ?thesis using False by (auto simp: ip6ext_loop_step)
  qed
qed auto

lemma ip6_chain_mono: "ip6_chain pkt n p t p' t' \<Longrightarrow> p \<le> p'"
  by (induction rule: ip6_chain.induct) simp_all

lemma lib_parse_ethhdr_eq:
  assumes "pos nh + 14 \<le> length pkt"
  shows "\<exists>vlh (h::u16). lib_parse_ethhdr pkt nh = Some (uint h, nh\<lparr>pos := vlh\<rparr>, Some (pos nh)) \<and>
    pos nh + 14 \<le> vlh \<and> vlh \<le> length pkt"
proof -
  obtain h0 where h0: "ld16 pkt (pos nh + 12) = Some h0" using assms by (auto simp: mem_simps)
  then show ?thesis
    using assms lib_vlan_loop_bounds [OF assms, of LIB_VLAN_MAX_DEPTH h0]
    by (auto simp: lib_parse_ethhdr_def Let_def)
qed

lemma lib_parse_ethhdr_short: "length pkt < pos nh + 14 \<Longrightarrow> lib_parse_ethhdr pkt nh = Some (-1, nh, None)"
  by (simp add: lib_parse_ethhdr_def Let_def)

interpretation leth: lax_parser lib_parse_ethhdr 14
proof
  fix pkt :: mem and nh :: hdr_cursor
  consider "length pkt < pos nh + 14" | "pos nh + 14 \<le> length pkt" by linarith
  note split = this
  show "\<exists>r nh' p. lib_parse_ethhdr pkt nh = Some (r, nh', p)"
    using split by cases (use lib_parse_ethhdr_short lib_parse_ethhdr_eq in blast)+
  fix r nh' p assume ok: "lib_parse_ethhdr pkt nh = Some (r, nh', p)"
  show "r < 0 \<Longrightarrow> r = -1"
    using split ok by cases (auto simp: lib_parse_ethhdr_short dest!: lib_parse_ethhdr_eq)
  show "0 \<le> r \<Longrightarrow> p = Some (pos nh) \<and> pos nh + 14 \<le> length pkt \<and> pos nh \<le> pos nh' \<and> pos nh' \<le> length pkt"
    using split ok by cases (auto simp: lib_parse_ethhdr_short dest!: lib_parse_ethhdr_eq)
qed

lemma lib_parse_ip6hdr_eq:
  "lib_parse_ip6hdr pkt nh =
     (if length pkt < pos nh + 40 then Some (-1, nh, None)
      else do { (r, nh') \<leftarrow> ip6ext_loop pkt 6 (nh\<lparr>pos := pos nh + 40\<rparr>) (pkt ! (pos nh + 6)); Some (r, nh', Some (pos nh)) })"
  by (simp add: lib_parse_ip6hdr_def skip_ip6hdrext_def IPV6_EXT_MAX_CHAIN_def ld8_def Let_def)

lemma lib_parse_ip6hdr_iff:
  "lib_parse_ip6hdr pkt nh = Some (r, nh', p) \<and> 0 \<le> r \<longleftrightarrow>
     p = Some (pos nh) \<and> pos nh + 40 \<le> length pkt \<and> nh' = nh\<lparr>pos := pos nh'\<rparr> \<and>
     (\<exists>k t. k < 6 \<and> ip6_chain pkt k (pos nh + 40) (pkt ! (pos nh + 6)) (pos nh') t \<and> \<not> is_ip6ext t \<and>
        pos nh' + 2 \<le> length pkt \<and> r = uint t)"
proof -
  have "lib_parse_ip6hdr pkt nh = Some (r, nh', p) \<and> 0 \<le> r \<longleftrightarrow>
      pos nh + 40 \<le> length pkt \<and> p = Some (pos nh) \<and>
      (ip6ext_loop pkt 6 (nh\<lparr>pos := pos nh + 40\<rparr>) (pkt ! (pos nh + 6)) = Some (r, nh') \<and> 0 \<le> r)"
    by (auto simp: lib_parse_ip6hdr_eq bind_eq_Some_conv split: if_splits)
  then show ?thesis unfolding ip6ext_loop_chain by auto
qed

interpretation lip6: lax_parser lib_parse_ip6hdr 40
proof
  fix pkt :: mem and nh :: hdr_cursor
  show "\<exists>r nh' p. lib_parse_ip6hdr pkt nh = Some (r, nh', p)"
    using ip6ext_loop_total [of pkt 6 "nh\<lparr>pos := pos nh + 40\<rparr>" "pkt ! (pos nh + 6)"]
    by (auto simp: lib_parse_ip6hdr_eq)
  fix r nh' p assume ok: "lib_parse_ip6hdr pkt nh = Some (r, nh', p)"
  show "r < 0 \<Longrightarrow> r = -1"
    using ok ip6ext_loop_total [of pkt 6 "nh\<lparr>pos := pos nh + 40\<rparr>" "pkt ! (pos nh + 6)"]
    by (auto simp: lib_parse_ip6hdr_eq split: if_splits)
  assume "0 \<le> r"
  then have "lib_parse_ip6hdr pkt nh = Some (r, nh', p) \<and> 0 \<le> r" using ok by simp
  then show "p = Some (pos nh) \<and> pos nh + 40 \<le> length pkt \<and> pos nh \<le> pos nh' \<and> pos nh' \<le> length pkt"
    unfolding lib_parse_ip6hdr_iff by (auto dest: ip6_chain_mono)
qed

lemmas lib_parse_simps = lib_parse_iphdr_def lib_parse_icmp6hdr_def lib_parse_icmphdr_def
  lib_parse_icmphdr_common_def lib_parse_udphdr_def lib_parse_tcphdr_def

interpretation lip4: lax_parser lib_parse_iphdr 20
  by unfold_locales (auto simp: lib_parse_simps Let_def mem_simps split: if_splits)

interpretation licmp6: lax_parser lib_parse_icmp6hdr 8
  by unfold_locales (auto simp: lib_parse_simps Let_def mem_simps split: if_splits)

interpretation licmp4: lax_parser lib_parse_icmphdr 8
  by unfold_locales (auto simp: lib_parse_simps Let_def mem_simps split: if_splits)

interpretation licmpc: lax_parser lib_parse_icmphdr_common 4
  by unfold_locales (auto simp: lib_parse_simps Let_def mem_simps split: if_splits)

interpretation ludp: lax_parser lib_parse_udphdr 8
  by unfold_locales (auto simp: lib_parse_simps Let_def mem_simps split: if_splits)

interpretation ltcp: lax_parser lib_parse_tcphdr 20
  by unfold_locales (auto simp: lib_parse_simps Let_def mem_simps split: if_splits)

section \<open>Properties\<close>

text \<open>
  C32: The IPv6 parser of xdp-tools never reads outside the packet, and it accepts a packet exactly when
  the fixed header fits and a chain of at most five extension headers (one fewer than the
  \<^verbatim>\<open>IPV6_EXT_MAX_CHAIN\<close> that is documented as the longest chain to resolve) leads, each one starting inside the packet and
  having the length its type prescribes, to a header that is no extension and of which two bytes at least are
  present. It then returns the type of that header and leaves the cursor on it.
\<close>

theorem lib_parse_ip6hdr_chain:
  "lib_parse_ip6hdr pkt nh \<noteq> None \<and>
   (lib_parse_ip6hdr pkt nh = Some (r, nh', p) \<and> 0 \<le> r \<longleftrightarrow>
     p = Some (pos nh) \<and> pos nh + 40 \<le> length pkt \<and> nh' = nh\<lparr>pos := pos nh'\<rparr> \<and>
     (\<exists>k t. k < 6 \<and> ip6_chain pkt k (pos nh + 40) (pkt ! (pos nh + 6)) (pos nh') t \<and> \<not> is_ip6ext t \<and>
        pos nh' + 2 \<le> length pkt \<and> r = uint t))"
  using lip6.lax_no_fault [of pkt nh] lib_parse_ip6hdr_iff [of pkt nh r nh' p] by auto

end
