(* ===== verification/Xdp_Filter.thy ===== *)
theory Xdp_Filter
  imports Lib_Parsing Stats_Kern
begin

text \<open>
  \<^verbatim>\<open>lib/xdp-tools/xdp-filter/xdpfilt_prog.h\<close>: the packet filter of xdp-tools, compiled once for every set of
  features by the files \<^verbatim>\<open>xdpfilt_*.c\<close>. The macros that those files define are the record \<open>filt_mode\<close>.
  A filter map is, on one CPU, a partial function from keys to 64-bit values whose low bits are
  flags and whose other bits are a counter. The port map is an array of 65536 entries, indexed by the port
  as it stands in the packet.
\<close>

section \<open>Model\<close>

definition FEAT_TCP :: u32 where "FEAT_TCP = 1"
definition FEAT_UDP :: u32 where "FEAT_UDP = 2"
definition FEAT_IPV6 :: u32 where "FEAT_IPV6 = 4"
definition FEAT_IPV4 :: u32 where "FEAT_IPV4 = 8"
definition FEAT_ETHERNET :: u32 where "FEAT_ETHERNET = 16"
definition FEAT_ALLOW :: u32 where "FEAT_ALLOW = 32"
definition FEAT_DENY :: u32 where "FEAT_DENY = 64"

definition MAP_FLAG_SRC :: u64 where "MAP_FLAG_SRC = 1"
definition MAP_FLAG_DST :: u64 where "MAP_FLAG_DST = 2"
definition MAP_FLAG_TCP :: u64 where "MAP_FLAG_TCP = 4"
definition MAP_FLAG_UDP :: u64 where "MAP_FLAG_UDP = 8"
definition COUNTER_SHIFT :: nat where "COUNTER_SHIFT = 6"

definition IPPROTO_TCP :: int where "IPPROTO_TCP = 6"
definition IPPROTO_UDP :: int where "IPPROTO_UDP = 17"

record filt_mode =
  mode_deny :: bool
  mode_ethernet :: bool
  mode_ipv4 :: bool
  mode_ipv6 :: bool
  mode_udp :: bool
  mode_tcp :: bool

definition VERDICT_HIT :: "filt_mode \<Rightarrow> u32" where
  "VERDICT_HIT f = (if mode_deny f then XDP_PASS else XDP_DROP)"

definition VERDICT_MISS :: "filt_mode \<Rightarrow> u32" where
  "VERDICT_MISS f = (if mode_deny f then XDP_DROP else XDP_PASS)"

definition features :: "filt_mode \<Rightarrow> u32" where
  "features f =
     (if mode_ethernet f then FEAT_ETHERNET else 0) OR (if mode_ipv4 f then FEAT_IPV4 else 0) OR
     (if mode_ipv6 f then FEAT_IPV6 else 0) OR (if mode_udp f then FEAT_UDP else 0) OR
     (if mode_tcp f then FEAT_TCP else 0) OR (if mode_deny f then FEAT_DENY else FEAT_ALLOW)"

record filter_maps =
  filter_ports :: "u32 \<Rightarrow> u64 option"
  filter_ipv4 :: "u32 \<Rightarrow> u64 option"
  filter_ipv6 :: "mem \<Rightarrow> u64 option"
  filter_ethernet :: "mem \<Rightarrow> u64 option"

text \<open>\<^verbatim>\<open>CHECK_MAP\<close>: the map with the counter moved on when the entry has all the flags of the mask, else \<open>None\<close>.\<close>

definition CHECK_MAP :: "('k \<Rightarrow> u64 option) \<Rightarrow> 'k \<Rightarrow> u64 \<Rightarrow> ('k \<Rightarrow> u64 option) option" where
  "CHECK_MAP m key msk =
     (case m key of
        None \<Rightarrow> None
      | Some v \<Rightarrow> if v AND msk = msk then Some (m(key := Some (v + push_bit COUNTER_SHIFT 1))) else None)"

text \<open>The lookups: the destination first, then the source. \<open>None\<close> is a read outside the packet.\<close>

definition lookup_verdict_tcp :: "filt_mode \<Rightarrow> mem \<Rightarrow> nat \<Rightarrow> filter_maps \<Rightarrow> (u32 \<times> filter_maps) option" where
  "lookup_verdict_tcp f p tcphdr maps =
     do {
       dest \<leftarrow> ld16 p (tcphdr + 2);
       case CHECK_MAP (filter_ports maps) (ucast dest) (MAP_FLAG_DST OR MAP_FLAG_TCP) of
         Some m \<Rightarrow> Some (VERDICT_HIT f, maps\<lparr>filter_ports := m\<rparr>)
       | None \<Rightarrow> do {
           source \<leftarrow> ld16 p tcphdr;
           case CHECK_MAP (filter_ports maps) (ucast source) (MAP_FLAG_SRC OR MAP_FLAG_TCP) of
             Some m \<Rightarrow> Some (VERDICT_HIT f, maps\<lparr>filter_ports := m\<rparr>)
           | None \<Rightarrow> Some (VERDICT_MISS f, maps)
         }
     }"

definition lookup_verdict_udp :: "filt_mode \<Rightarrow> mem \<Rightarrow> nat \<Rightarrow> filter_maps \<Rightarrow> (u32 \<times> filter_maps) option" where
  "lookup_verdict_udp f p udphdr maps =
     do {
       dest \<leftarrow> ld16 p (udphdr + 2);
       case CHECK_MAP (filter_ports maps) (ucast dest) (MAP_FLAG_DST OR MAP_FLAG_UDP) of
         Some m \<Rightarrow> Some (VERDICT_HIT f, maps\<lparr>filter_ports := m\<rparr>)
       | None \<Rightarrow> do {
           source \<leftarrow> ld16 p udphdr;
           case CHECK_MAP (filter_ports maps) (ucast source) (MAP_FLAG_SRC OR MAP_FLAG_UDP) of
             Some m \<Rightarrow> Some (VERDICT_HIT f, maps\<lparr>filter_ports := m\<rparr>)
           | None \<Rightarrow> Some (VERDICT_MISS f, maps)
         }
     }"

definition lookup_verdict_ipv4 :: "filt_mode \<Rightarrow> mem \<Rightarrow> nat \<Rightarrow> filter_maps \<Rightarrow> (u32 \<times> filter_maps) option" where
  "lookup_verdict_ipv4 f p iphdr maps =
     do {
       daddr \<leftarrow> ld32 p (iphdr + 16);
       case CHECK_MAP (filter_ipv4 maps) daddr MAP_FLAG_DST of
         Some m \<Rightarrow> Some (VERDICT_HIT f, maps\<lparr>filter_ipv4 := m\<rparr>)
       | None \<Rightarrow> do {
           saddr \<leftarrow> ld32 p (iphdr + 12);
           case CHECK_MAP (filter_ipv4 maps) saddr MAP_FLAG_SRC of
             Some m \<Rightarrow> Some (VERDICT_HIT f, maps\<lparr>filter_ipv4 := m\<rparr>)
           | None \<Rightarrow> Some (VERDICT_MISS f, maps)
         }
     }"

definition lookup_verdict_ipv6 :: "filt_mode \<Rightarrow> mem \<Rightarrow> nat \<Rightarrow> filter_maps \<Rightarrow> (u32 \<times> filter_maps) option" where
  "lookup_verdict_ipv6 f p ipv6hdr maps =
     do {
       daddr \<leftarrow> ldn p (ipv6hdr + 24) 16;
       case CHECK_MAP (filter_ipv6 maps) daddr MAP_FLAG_DST of
         Some m \<Rightarrow> Some (VERDICT_HIT f, maps\<lparr>filter_ipv6 := m\<rparr>)
       | None \<Rightarrow> do {
           saddr \<leftarrow> ldn p (ipv6hdr + 8) 16;
           case CHECK_MAP (filter_ipv6 maps) saddr MAP_FLAG_SRC of
             Some m \<Rightarrow> Some (VERDICT_HIT f, maps\<lparr>filter_ipv6 := m\<rparr>)
           | None \<Rightarrow> Some (VERDICT_MISS f, maps)
         }
     }"

definition lookup_verdict_ethernet :: "filt_mode \<Rightarrow> mem \<Rightarrow> nat \<Rightarrow> filter_maps \<Rightarrow> (u32 \<times> filter_maps) option" where
  "lookup_verdict_ethernet f p eth maps =
     do {
       h_dest \<leftarrow> ldn p eth 6;
       case CHECK_MAP (filter_ethernet maps) h_dest MAP_FLAG_DST of
         Some m \<Rightarrow> Some (VERDICT_HIT f, maps\<lparr>filter_ethernet := m\<rparr>)
       | None \<Rightarrow> do {
           h_source \<leftarrow> ldn p (eth + 6) 6;
           case CHECK_MAP (filter_ethernet maps) h_source MAP_FLAG_SRC of
             Some m \<Rightarrow> Some (VERDICT_HIT f, maps\<lparr>filter_ethernet := m\<rparr>)
           | None \<Rightarrow> Some (VERDICT_MISS f, maps)
         }
     }"

text \<open>
  \<^verbatim>\<open>CHECK_RET\<close> and \<^verbatim>\<open>CHECK_VERDICT\<close> with the code that follows them as their last argument. \<open>on\<close> is
  whether the feature is compiled in.
\<close>

definition CHECK_RET ::
  "int \<Rightarrow> filter_maps \<Rightarrow> (u32 \<times> filter_maps) option \<Rightarrow> (u32 \<times> filter_maps) option" where
  "CHECK_RET ret maps rest = (if ret < 0 then Some (XDP_ABORTED, maps) else rest)"

definition CHECK_VERDICT ::
  "filt_mode \<Rightarrow> bool \<Rightarrow> (filter_maps \<Rightarrow> (u32 \<times> filter_maps) option) \<Rightarrow> filter_maps \<Rightarrow>
   (filter_maps \<Rightarrow> (u32 \<times> filter_maps) option) \<Rightarrow> (u32 \<times> filter_maps) option" where
  "CHECK_VERDICT f on lookup maps rest =
     (if \<not> on then rest maps
      else do {
        (action, maps') \<leftarrow> lookup maps;
        if action \<noteq> VERDICT_MISS f then Some (action, maps') else rest maps'
      })"

definition filter_tcp :: "filt_mode \<Rightarrow> mem \<Rightarrow> hdr_cursor \<Rightarrow> int \<Rightarrow> filter_maps \<Rightarrow> (u32 \<times> filter_maps) option" where
  "filter_tcp f p nh ip_type maps =
     (if mode_tcp f \<and> ip_type = IPPROTO_TCP then do {
        (ret, nh', h) \<leftarrow> lib_parse_tcphdr p nh;
        CHECK_RET ret maps (do {
          tcphdr \<leftarrow> h;
          CHECK_VERDICT f True (lookup_verdict_tcp f p tcphdr) maps (\<lambda>maps. Some (VERDICT_MISS f, maps))
        })
      }
      else Some (VERDICT_MISS f, maps))"

definition filter_udp :: "filt_mode \<Rightarrow> mem \<Rightarrow> hdr_cursor \<Rightarrow> int \<Rightarrow> filter_maps \<Rightarrow> (u32 \<times> filter_maps) option" where
  "filter_udp f p nh ip_type maps =
     (if mode_udp f \<and> ip_type = IPPROTO_UDP then do {
        (ret, nh', h) \<leftarrow> lib_parse_udphdr p nh;
        CHECK_RET ret maps (do {
          udphdr \<leftarrow> h;
          CHECK_VERDICT f True (lookup_verdict_udp f p udphdr) maps (filter_tcp f p nh' ip_type)
        })
      }
      else filter_tcp f p nh ip_type maps)"

definition filter_ip :: "filt_mode \<Rightarrow> mem \<Rightarrow> hdr_cursor \<Rightarrow> int \<Rightarrow> filter_maps \<Rightarrow> (u32 \<times> filter_maps) option" where
  "filter_ip f p nh eth_type maps =
     (if eth_type = uint (bpf_htons ETH_P_IP) then do {
        (ip_type, nh', h) \<leftarrow> lib_parse_iphdr p nh;
        CHECK_RET ip_type maps (do {
          iphdr \<leftarrow> h;
          CHECK_VERDICT f (mode_ipv4 f) (lookup_verdict_ipv4 f p iphdr) maps (filter_udp f p nh' ip_type)
        })
      }
      else if eth_type = uint (bpf_htons ETH_P_IPV6) then do {
        (ip_type, nh', h) \<leftarrow> lib_parse_ip6hdr p nh;
        CHECK_RET ip_type maps (do {
          ipv6hdr \<leftarrow> h;
          CHECK_VERDICT f (mode_ipv6 f) (lookup_verdict_ipv6 f p ipv6hdr) maps (filter_udp f p nh' ip_type)
        })
      }
      else Some (VERDICT_MISS f, maps))"

definition filter_verdict :: "filt_mode \<Rightarrow> mem \<Rightarrow> filter_maps \<Rightarrow> (u32 \<times> filter_maps) option" where
  "filter_verdict f p maps =
     do {
       (eth_type, nh, h) \<leftarrow> lib_parse_ethhdr p \<lparr>pos = 0\<rparr>;
       CHECK_RET eth_type maps (do {
         eth \<leftarrow> h;
         CHECK_VERDICT f (mode_ethernet f) (lookup_verdict_ethernet f p eth) maps (\<lambda>maps.
           if mode_ipv4 f \<or> mode_ipv6 f \<or> mode_tcp f \<or> mode_udp f
           then filter_ip f p nh eth_type maps
           else Some (VERDICT_MISS f, maps))
       })
     }"

definition xdp_filter ::
  "filt_mode \<Rightarrow> xdp_md \<Rightarrow> filter_maps \<Rightarrow> datarec list \<Rightarrow> (u32 \<times> filter_maps \<times> datarec list) option" where
  "xdp_filter f ctx maps stats =
     do {
       (action, maps') \<leftarrow> filter_verdict f (pkt ctx) maps;
       let (ret, stats') = xdp_stats_record_action ctx action stats;
       Some (ret, maps', stats')
     }"

section \<open>Lookups\<close>

lemma verdict_distinct: "VERDICT_HIT f \<noteq> VERDICT_MISS f" "VERDICT_HIT f \<noteq> XDP_ABORTED" "VERDICT_MISS f \<noteq> XDP_ABORTED"
  by (simp_all add: VERDICT_HIT_def VERDICT_MISS_def action_defs)

text \<open>One entry of one map has its counter moved on by one.\<close>

definition bump :: "('k \<Rightarrow> u64 option) \<Rightarrow> ('k \<Rightarrow> u64 option) \<Rightarrow> bool" where
  "bump m m' \<longleftrightarrow> (\<exists>k v. m k = Some v \<and> m' = m(k := Some (v + push_bit COUNTER_SHIFT 1)))"

definition bumped :: "filter_maps \<Rightarrow> filter_maps \<Rightarrow> bool" where
  "bumped maps maps' \<longleftrightarrow>
     (\<exists>m. bump (filter_ports maps) m \<and> maps' = maps\<lparr>filter_ports := m\<rparr>) \<or>
     (\<exists>m. bump (filter_ipv4 maps) m \<and> maps' = maps\<lparr>filter_ipv4 := m\<rparr>) \<or>
     (\<exists>m. bump (filter_ipv6 maps) m \<and> maps' = maps\<lparr>filter_ipv6 := m\<rparr>) \<or>
     (\<exists>m. bump (filter_ethernet maps) m \<and> maps' = maps\<lparr>filter_ethernet := m\<rparr>)"

text \<open>The outcome of a part of the program: a hit with one counter moved, or nothing changed.\<close>

definition outcome :: "filt_mode \<Rightarrow> filter_maps \<Rightarrow> (u32 \<times> filter_maps) option \<Rightarrow> bool" where
  "outcome f maps r \<longleftrightarrow>
     (case r of
        None \<Rightarrow> False
      | Some (a, maps') \<Rightarrow>
          if a = VERDICT_HIT f then bumped maps maps' else a \<in> {VERDICT_MISS f, XDP_ABORTED} \<and> maps' = maps)"

lemma CHECK_MAP_bump: "CHECK_MAP m k msk = Some m' \<Longrightarrow> bump m m'"
  by (auto simp: CHECK_MAP_def bump_def split: option.splits if_splits)

lemmas lookup_defs = lookup_verdict_tcp_def lookup_verdict_udp_def lookup_verdict_ipv4_def
  lookup_verdict_ipv6_def lookup_verdict_ethernet_def

lemma outcome_lookup:
  "h + 4 \<le> length p \<Longrightarrow> outcome f maps (lookup_verdict_tcp f p h maps)"
  "h + 4 \<le> length p \<Longrightarrow> outcome f maps (lookup_verdict_udp f p h maps)"
  "h + 20 \<le> length p \<Longrightarrow> outcome f maps (lookup_verdict_ipv4 f p h maps)"
  "h + 40 \<le> length p \<Longrightarrow> outcome f maps (lookup_verdict_ipv6 f p h maps)"
  "h + 14 \<le> length p \<Longrightarrow> outcome f maps (lookup_verdict_ethernet f p h maps)"
  by (auto simp: outcome_def lookup_defs ld16_def ld32_def ldn_def bumped_def verdict_distinct [symmetric]
      dest: CHECK_MAP_bump split: option.splits)

lemma outcome_done: "outcome f maps (Some (VERDICT_MISS f, maps))"
  by (simp add: outcome_def verdict_distinct [symmetric])

lemma outcome_ret: "(0 \<le> ret \<Longrightarrow> outcome f maps rest) \<Longrightarrow> outcome f maps (CHECK_RET ret maps rest)"
  by (simp add: CHECK_RET_def outcome_def verdict_distinct [symmetric])

lemma outcome_verdict:
  assumes "on \<Longrightarrow> outcome f maps (lookup maps)" "outcome f maps (rest maps)"
  shows "outcome f maps (CHECK_VERDICT f on lookup maps rest)"
proof (cases on)
  case True
  then obtain a maps' where "lookup maps = Some (a, maps')" using assms(1) by (auto simp: outcome_def split: option.splits)
  then show ?thesis
    using assms True by (auto simp: CHECK_VERDICT_def outcome_def verdict_distinct split: if_splits)
qed (use assms(2) in \<open>simp add: CHECK_VERDICT_def\<close>)

context lax_parser
begin

lemma outcome_parse:
  assumes "\<And>r nh'. 0 \<le> r \<Longrightarrow> pos nh + hdrlen \<le> length p \<Longrightarrow> outcome f maps (body r nh' (pos nh))"
  shows "outcome f maps
    (do { (r, nh', h) \<leftarrow> parse p nh; CHECK_RET r maps (do { x \<leftarrow> h; body r nh' x }) })"
proof (cases rule: lax_cases [of p nh])
  case (refused nh' h)
  then show ?thesis using outcome_ret [of "- 1" f maps None] by (simp add: CHECK_RET_def)
next
  case (parsed r nh')
  then show ?thesis using assms [of r nh'] by (simp add: outcome_ret)
qed

end

lemma outcome_tcp: "outcome f maps (filter_tcp f p nh t maps)"
  by (auto simp: filter_tcp_def
      intro!: ltcp.outcome_parse outcome_verdict outcome_lookup outcome_done)

lemma outcome_udp: "outcome f maps (filter_udp f p nh t maps)"
  by (auto simp: filter_udp_def
      intro!: ludp.outcome_parse outcome_verdict outcome_lookup outcome_tcp)

lemma outcome_ip: "outcome f maps (filter_ip f p nh t maps)"
  by (auto simp: filter_ip_def
      intro!: lip4.outcome_parse lip6.outcome_parse outcome_verdict outcome_lookup outcome_udp outcome_done)

lemma outcome_filter: "outcome f maps (filter_verdict f p maps)"
  by (auto simp: filter_verdict_def
      intro!: leth.outcome_parse outcome_verdict outcome_lookup outcome_ip outcome_done)

section \<open>Counters do not matter\<close>

definition flags_of :: "('k \<Rightarrow> u64 option) \<Rightarrow> 'k \<Rightarrow> u64 option" where
  "flags_of m k = map_option (take_bit COUNTER_SHIFT) (m k)"

definition same_flags :: "filter_maps \<Rightarrow> filter_maps \<Rightarrow> bool" where
  "same_flags maps maps' \<longleftrightarrow>
     flags_of (filter_ports maps) = flags_of (filter_ports maps') \<and> flags_of (filter_ipv4 maps) = flags_of (filter_ipv4 maps') \<and>
     flags_of (filter_ipv6 maps) = flags_of (filter_ipv6 maps') \<and> flags_of (filter_ethernet maps) = flags_of (filter_ethernet maps')"

lemma count_keeps_flags: "take_bit COUNTER_SHIFT (v + 2 ^ COUNTER_SHIFT) = take_bit COUNTER_SHIFT (v :: u64)"
proof -
  have "take_bit 6 (uint (v + 64)) = take_bit 6 (uint v)"
    by (simp add: uint_word_ariths take_bit_eq_mod mod_mod_cancel)
  then have "uint (take_bit 6 (v + 64)) = uint (take_bit 6 v)" by (simp only: unsigned_take_bit_eq)
  then show ?thesis by (simp add: COUNTER_SHIFT_def word_uint_eq_iff)
qed

lemma bump_flags: "bump m m' \<Longrightarrow> flags_of m' = flags_of m"
  by (auto simp: bump_def flags_of_def fun_eq_iff count_keeps_flags)

lemma bumped_flags: "bumped maps maps' \<Longrightarrow> same_flags maps maps'"
  by (auto simp: bumped_def same_flags_def bump_flags)

lemma mask_flags:
  assumes "take_bit COUNTER_SHIFT v = take_bit COUNTER_SHIFT (w::u64)" "take_bit COUNTER_SHIFT msk = msk"
  shows "v AND msk = w AND msk"
proof (rule bit_eqI)
  fix n
  have "bit msk n \<Longrightarrow> n < COUNTER_SHIFT" using assms(2) by (metis bit_take_bit_iff)
  moreover have "n < COUNTER_SHIFT \<Longrightarrow> bit v n = bit w n" using assms(1) by (metis bit_take_bit_iff)
  ultimately show "bit (v AND msk) n = bit (w AND msk) n" by (auto simp: bit_and_iff)
qed

definition same_outcome :: "(u32 \<times> filter_maps) option \<Rightarrow> (u32 \<times> filter_maps) option \<Rightarrow> bool" where
  "same_outcome r r' \<longleftrightarrow> rel_option (\<lambda>(a, m) (a', m'). a = a' \<and> same_flags m m') r r'"

lemma CHECK_MAP_flags:
  assumes "flags_of m = flags_of m'" "take_bit COUNTER_SHIFT msk = msk"
  shows "rel_option (\<lambda>a b. flags_of a = flags_of b) (CHECK_MAP m k msk) (CHECK_MAP m' k msk)"
proof (cases "m k")
  case None
  then have "m' k = None" using fun_cong [OF assms(1), of k] by (simp add: flags_of_def)
  then show ?thesis using None by (simp add: CHECK_MAP_def)
next
  case (Some v)
  then obtain w where w: "m' k = Some w" "take_bit COUNTER_SHIFT v = take_bit COUNTER_SHIFT w"
    using fun_cong [OF assms(1), of k] by (cases "m' k") (auto simp: flags_of_def)
  have b: "bump m (m(k \<mapsto> v + push_bit COUNTER_SHIFT 1))" "bump m' (m'(k \<mapsto> w + push_bit COUNTER_SHIFT 1))"
    using Some w by (auto simp: bump_def)
  show ?thesis
    using mask_flags [OF w(2) assms(2)] bump_flags [OF b(1)] bump_flags [OF b(2)] assms(1)
    by (simp add: CHECK_MAP_def Some w)
qed

lemma flag_masks:
  "take_bit COUNTER_SHIFT MAP_FLAG_DST = MAP_FLAG_DST" "take_bit COUNTER_SHIFT MAP_FLAG_SRC = MAP_FLAG_SRC"
  "take_bit COUNTER_SHIFT (MAP_FLAG_DST OR MAP_FLAG_TCP) = MAP_FLAG_DST OR MAP_FLAG_TCP"
  "take_bit COUNTER_SHIFT (MAP_FLAG_SRC OR MAP_FLAG_TCP) = MAP_FLAG_SRC OR MAP_FLAG_TCP"
  "take_bit COUNTER_SHIFT (MAP_FLAG_DST OR MAP_FLAG_UDP) = MAP_FLAG_DST OR MAP_FLAG_UDP"
  "take_bit COUNTER_SHIFT (MAP_FLAG_SRC OR MAP_FLAG_UDP) = MAP_FLAG_SRC OR MAP_FLAG_UDP"
  by (simp_all add: COUNTER_SHIFT_def MAP_FLAG_DST_def MAP_FLAG_SRC_def MAP_FLAG_TCP_def MAP_FLAG_UDP_def)

lemma check_flags:
  assumes "flags_of m = flags_of m'" "take_bit COUNTER_SHIFT x = x"
    and "\<And>n n'. flags_of n = flags_of n' \<Longrightarrow> same_flags (put n maps) (put n' maps')"
    and "same_outcome rest rest'"
  shows "same_outcome (case CHECK_MAP m k x of Some n \<Rightarrow> Some (hit, put n maps) | None \<Rightarrow> rest)
    (case CHECK_MAP m' k x of Some n \<Rightarrow> Some (hit, put n maps') | None \<Rightarrow> rest')"
  using CHECK_MAP_flags [OF assms(1,2), of k] assms(3,4)
  by (cases "CHECK_MAP m k x"; cases "CHECK_MAP m' k x") (auto simp: same_outcome_def)

lemma bind_flags: "(\<And>k. same_outcome (g k) (h k)) \<Longrightarrow> same_outcome (Option.bind a g) (Option.bind a h)"
  by (cases a) (simp_all add: same_outcome_def)

lemma done_flags: "same_flags maps maps' \<Longrightarrow> same_outcome (Some (a, maps)) (Some (a, maps'))"
  by (simp add: same_outcome_def)

lemmas outcome_intros = bind_flags done_flags check_flags flag_masks

lemma lookup_flags:
  assumes "same_flags maps maps'"
  shows "same_outcome (lookup_verdict_tcp f p h maps) (lookup_verdict_tcp f p h maps')"
    "same_outcome (lookup_verdict_udp f p h maps) (lookup_verdict_udp f p h maps')"
    "same_outcome (lookup_verdict_ipv4 f p h maps) (lookup_verdict_ipv4 f p h maps')"
    "same_outcome (lookup_verdict_ipv6 f p h maps) (lookup_verdict_ipv6 f p h maps')"
    "same_outcome (lookup_verdict_ethernet f p h maps) (lookup_verdict_ethernet f p h maps')"
  unfolding lookup_defs
      apply (intro outcome_intros; use assms in \<open>simp add: same_flags_def\<close>)+
  done

lemma ret_flags:
  "same_flags maps maps' \<Longrightarrow> same_outcome rest rest' \<Longrightarrow> same_outcome (CHECK_RET r maps rest) (CHECK_RET r maps' rest')"
  by (simp add: CHECK_RET_def same_outcome_def)

lemma verdict_flags:
  assumes "same_flags maps maps'" "same_outcome (lookup maps) (lookup maps')"
    and "\<And>m m'. same_flags m m' \<Longrightarrow> same_outcome (rest m) (rest m')"
  shows "same_outcome (CHECK_VERDICT f on lookup maps rest) (CHECK_VERDICT f on lookup maps' rest)"
  using assms by (cases "lookup maps"; cases "lookup maps'") (auto simp: CHECK_VERDICT_def same_outcome_def)

lemma tcp_flags: "same_flags maps maps' \<Longrightarrow> same_outcome (filter_tcp f p nh t maps) (filter_tcp f p nh t maps')"
  by (auto simp: filter_tcp_def intro!: bind_flags ret_flags verdict_flags lookup_flags done_flags split: prod.splits)

lemma udp_flags: "same_flags maps maps' \<Longrightarrow> same_outcome (filter_udp f p nh t maps) (filter_udp f p nh t maps')"
  by (auto simp: filter_udp_def intro!: bind_flags ret_flags verdict_flags lookup_flags tcp_flags split: prod.splits)

lemma ip_flags: "same_flags maps maps' \<Longrightarrow> same_outcome (filter_ip f p nh t maps) (filter_ip f p nh t maps')"
  by (auto simp: filter_ip_def intro!: bind_flags ret_flags verdict_flags lookup_flags udp_flags done_flags split: prod.splits)

lemma filter_flags: "same_flags maps maps' \<Longrightarrow> same_outcome (filter_verdict f p maps) (filter_verdict f p maps')"
  by (auto simp: filter_verdict_def intro!: bind_flags ret_flags verdict_flags lookup_flags ip_flags done_flags split: prod.splits)

section \<open>What the rules say\<close>


definition parsed_as :: "parse_result \<Rightarrow> (int \<Rightarrow> hdr_cursor \<Rightarrow> nat \<Rightarrow> bool) \<Rightarrow> bool" where
  "parsed_as r Q \<longleftrightarrow> (\<exists>t nh h. r = Some (t, nh, Some h) \<and> 0 \<le> t \<and> Q t nh h)"

definition refused :: "parse_result \<Rightarrow> bool" where
  "refused r \<longleftrightarrow> (\<exists>t nh h. r = Some (t, nh, h) \<and> t < 0)"














text \<open>A part of the program decides by the rules: a hit, else a cut off header, else a miss.\<close>

definition decided :: "filt_mode \<Rightarrow> (u32 \<times> filter_maps) option \<Rightarrow> bool \<Rightarrow> bool \<Rightarrow> bool" where
  "decided f r hit bad \<longleftrightarrow>
     map_option fst r = Some (if hit then VERDICT_HIT f else if bad then XDP_ABORTED else VERDICT_MISS f)"







context lax_parser
begin

lemma decided_parse:
  assumes "\<And>r nh'. 0 \<le> r \<Longrightarrow> pos nh + hdrlen \<le> length p \<Longrightarrow> decided f (body r nh' (pos nh)) (Q r nh' (pos nh)) (B r nh' (pos nh))"
  shows "decided f
    (do { (r, nh', h) \<leftarrow> parse p nh; CHECK_RET r maps (do { x \<leftarrow> h; body r nh' x }) })
    (parsed_as (parse p nh) Q) (refused (parse p nh) \<or> parsed_as (parse p nh) B)"
proof (cases rule: lax_cases [of p nh])
  case (refused nh' h)
  then show ?thesis by (simp add: CHECK_RET_def decided_def parsed_as_def refused_def)
next
  case (parsed r nh')
  then show ?thesis using assms [of r nh'] by (simp add: CHECK_RET_def decided_def parsed_as_def refused_def)
qed

end







section \<open>Properties\<close>

fun filter_run :: "filt_mode \<Rightarrow> mem list \<Rightarrow> filter_maps \<Rightarrow> (u32 list \<times> filter_maps) option" where
  "filter_run f [] maps = Some ([], maps)"
| "filter_run f (p # ps) maps =
     do {
       (a, maps1) \<leftarrow> filter_verdict f p maps;
       (as, maps2) \<leftarrow> filter_run f ps maps1;
       Some (a # as, maps2)
     }"

text \<open>
  C30: The packet filter never reads outside the packet, whatever the bytes are. Its action is the
  hit verdict, the miss verdict or \<^verbatim>\<open>XDP_ABORTED\<close>; on a hit the counter of exactly one existing entry of one
  filter map is moved on by one, otherwise no filter map changes; and the packet is counted in the statistics under its action.
\<close>

theorem xdp_filter_counts:
  assumes "length stats = 5"
  shows "\<exists>a maps'. xdp_filter f ctx maps stats =
      Some (a, maps', stats[unat a := (stats ! unat a)\<lparr>rx_packets := rx_packets (stats ! unat a) + 1,
        rx_bytes := rx_bytes (stats ! unat a) + ucast (word_of_nat (length (pkt ctx)) :: u32)\<rparr>]) \<and>
    (if a = VERDICT_HIT f then bumped maps maps' else a \<in> {VERDICT_MISS f, XDP_ABORTED} \<and> maps' = maps)"
proof -
  obtain a maps' where r: "filter_verdict f (pkt ctx) maps = Some (a, maps')"
    "if a = VERDICT_HIT f then bumped maps maps' else a \<in> {VERDICT_MISS f, XDP_ABORTED} \<and> maps' = maps"
    using outcome_filter [of f maps "pkt ctx"] by (auto simp: outcome_def split: option.splits)
  have "a < 5" using r(2) by (auto simp: VERDICT_HIT_def VERDICT_MISS_def action_defs split: if_splits)
  then show ?thesis using r xdp_stats_valid [OF assms, of a ctx] by (auto simp: xdp_filter_def)
qed

theorem xdp_filter_counts_witness:
  "let f = \<lparr>mode_deny = False, mode_ethernet = True, mode_ipv4 = False, mode_ipv6 = False, mode_udp = False, mode_tcp = False\<rparr>;
       maps = \<lparr>filter_ports = \<lambda>_. None, filter_ipv4 = \<lambda>_. None, filter_ipv6 = \<lambda>_. None, filter_ethernet = [replicate 6 1 \<mapsto> 3]\<rparr>
   in \<exists>maps' st. xdp_filter f \<lparr>room = [], pkt = replicate 14 1\<rparr> maps (replicate 5 \<lparr>rx_packets = 0, rx_bytes = 0\<rparr>) =
        Some (XDP_DROP, maps', st) \<and> bumped maps maps'"
proof -
  let ?f = "\<lparr>mode_deny = False, mode_ethernet = True, mode_ipv4 = False, mode_ipv6 = False, mode_udp = False, mode_tcp = False\<rparr>"
  let ?maps = "\<lparr>filter_ports = \<lambda>_. None, filter_ipv4 = \<lambda>_. None, filter_ipv6 = \<lambda>_. None, filter_ethernet = [replicate 6 1 \<mapsto> 3]\<rparr>"
  let ?r = "xdp_filter ?f \<lparr>room = [], pkt = replicate 14 1\<rparr> ?maps (replicate 5 \<lparr>rx_packets = 0, rx_bytes = 0\<rparr>)"
  have a: "map_option fst ?r = Some XDP_DROP" by code_simp
  have h: "VERDICT_HIT ?f = XDP_DROP" by code_simp
  have "length (replicate 5 \<lparr>rx_packets = 0, rx_bytes = 0\<rparr>) = 5" by simp
  from xdp_filter_counts [OF this, of ?f "\<lparr>room = [], pkt = replicate 14 1\<rparr>" ?maps]
  show ?thesis using a h by (auto simp only: Let_def option.map fst_conv option.inject if_True) metis
qed

text \<open>
  Counting does not change what the filter decides. However many packets it has seen, each packet of a sequence
  gets the verdict that it would get on the maps as they were at the beginning, and the flags of all entries stay what they were, also when a
  counter overflows.
\<close>

theorem filter_run_stateless:
  "\<exists>maps'. filter_run f ps maps = Some (map (\<lambda>p. fst (the (filter_verdict f p maps))) ps, maps') \<and> same_flags maps maps'"
proof (induction ps arbitrary: maps)
  case Nil
  then show ?case by (simp add: same_flags_def)
next
  case (Cons p ps)
  obtain a maps1 where r: "filter_verdict f p maps = Some (a, maps1)"
    and o: "if a = VERDICT_HIT f then bumped maps maps1 else maps1 = maps"
    using outcome_filter [of f maps p] by (auto simp: outcome_def split: option.splits if_splits)
  have sf: "same_flags maps maps1" using o by (auto simp: bumped_flags same_flags_def [of maps maps] split: if_splits)
  obtain maps2 where run: "filter_run f ps maps1 = Some (map (\<lambda>p. fst (the (filter_verdict f p maps1))) ps, maps2)"
    "same_flags maps1 maps2"
    using Cons.IH by blast
  have "fst (the (filter_verdict f p maps1)) = fst (the (filter_verdict f p maps))" for p
    using filter_flags [OF sf, of f p] outcome_filter [of f maps p] outcome_filter [of f maps1 p]
    by (auto simp: same_outcome_def outcome_def split: option.splits)
  then show ?case using r run sf by (auto simp: same_flags_def)
qed


end
