(* ===== verification/Filter_User.thy ===== *)
theory Filter_User
  imports Xdp_Filter
begin

text \<open>
  The rule commands of \<^verbatim>\<open>lib/xdp-tools/xdp-filter/xdp-filter.c\<close>, which put rules into the maps that the packet filter of
  \<open>Xdp_Filter\<close> looks up. A per-CPU map is, for user space, a partial function from keys to one value per CPU.
  The results of the system calls (number of CPUs, allocation, map update and deletion, lock file, pinned
  map) are the record \<open>fenv\<close>. A status table is the list of its rows; the printing of addresses and the alignment of the columns are left out.
\<close>

section \<open>Model\<close>

type_synonym 'k pcpu_map = "'k \<Rightarrow> u64 list option"

definition MAP_FLAGS :: u64 where "MAP_FLAGS = MAP_FLAG_SRC OR MAP_FLAG_DST OR MAP_FLAG_TCP OR MAP_FLAG_UDP"

text \<open>Error numbers are positive, 0 is success; the other numbers are as the calls return them. A map that is not pinned has a negative descriptor.\<close>

record fenv =
  num_cpus :: int
  calloc_ok :: bool
  update_errno :: int
  delete_errno :: int
  lock_fd :: int
  ports_fd :: int
  ipv4_fd :: int
  ipv6_fd :: int
  ethernet_fd :: int
  root_dir_err :: int

type_synonym flag_val = "string \<times> u64"

definition map_flags_all :: "flag_val list" where
  "map_flags_all = [(''src'', MAP_FLAG_SRC), (''dst'', MAP_FLAG_DST), (''tcp'', MAP_FLAG_TCP), (''udp'', MAP_FLAG_UDP)]"

definition map_flags_srcdst :: "flag_val list" where
  "map_flags_srcdst = [(''src'', MAP_FLAG_SRC), (''dst'', MAP_FLAG_DST)]"

definition map_flags_tcpudp :: "flag_val list" where
  "map_flags_tcpudp = [(''tcp'', MAP_FLAG_TCP), (''udp'', MAP_FLAG_UDP)]"

text \<open>
  \<^verbatim>\<open>print_flags\<close> of \<^verbatim>\<open>lib/util/params.c\<close>: the string that is in the buffer at the end. A name that does not fit is cut off by the final NUL.
\<close>

fun print_flags_loop :: "flag_val list \<Rightarrow> nat \<Rightarrow> u64 \<Rightarrow> bool \<Rightarrow> string" where
  "print_flags_loop [] buf_len flags_set is_first = []"
| "print_flags_loop ((flagstring, flagval) # flags) buf_len flags_set is_first =
     (if buf_len = 0 then []
      else if flagval AND flags_set = 0 then print_flags_loop flags buf_len flags_set is_first
      else
        let sep = (if is_first then [] else '','');
            buf_len1 = buf_len - length sep
        in if length flagstring \<ge> buf_len1 then sep
           else sep @ flagstring @ print_flags_loop flags (buf_len1 - length flagstring) flags_set False)"

definition print_flags :: "nat \<Rightarrow> flag_val list \<Rightarrow> u64 \<Rightarrow> string" where
  "print_flags buf_len flags flags_set = print_flags_loop flags buf_len flags_set True"

text \<open>The loop over the CPUs: error, sum of the counters, flags.\<close>

fun sum_cpus :: "u64 list \<Rightarrow> u64 \<Rightarrow> u8 \<Rightarrow> int \<times> u64 \<times> u8" where
  "sum_cpus [] sum_ctr flags = (0, sum_ctr, flags)"
| "sum_cpus (v # vs) sum_ctr flags =
     (let flg = ucast (v AND MAP_FLAGS) in
      if flg = 0 then (- ENOENT, sum_ctr, flags)
      else sum_cpus vs (sum_ctr + drop_bit COUNTER_SHIFT v) flg)"

text \<open>The counter is \<open>None\<close> when it is not written.\<close>

definition map_get_counter_flags :: "fenv \<Rightarrow> 'k pcpu_map \<Rightarrow> 'k \<Rightarrow> u8 \<Rightarrow> int \<times> u64 option \<times> u8" where
  "map_get_counter_flags env m key flags =
     (if num_cpus env < 0 then (num_cpus env, None, flags)
      else if \<not> calloc_ok env then (- ENOMEM, None, flags)
      else case m key of
        None \<Rightarrow> (- ENOENT, None, flags)
      | Some values \<Rightarrow>
          let (err, sum_ctr, flags') = sum_cpus values 0 flags
          in (err, if err = 0 then Some sum_ctr else None, flags'))"

definition map_set_flags :: "fenv \<Rightarrow> 'k pcpu_map \<Rightarrow> 'k \<Rightarrow> u8 \<Rightarrow> bool \<Rightarrow> int \<times> 'k pcpu_map" where
  "map_set_flags env m key flags delete_empty =
     (if num_cpus env < 0 then (num_cpus env, m)
      else if \<not> calloc_ok env then (- ENOMEM, m)
      else if m key \<noteq> None \<and> flags = 0 \<and> delete_empty then
        (if delete_errno env \<noteq> 0 then (- delete_errno env, m) else (0, m(key := None)))
      else
        let values = (case m key of None \<Rightarrow> replicate (nat (num_cpus env)) 0 | Some vs \<Rightarrow> vs);
            values' = map (\<lambda>v. if flags \<noteq> 0 then (v AND NOT MAP_FLAGS) OR (ucast flags AND MAP_FLAGS) else 0) values
        in if update_errno env \<noteq> 0 then (- update_errno env, m) else (0, m(key := Some values')))"

text \<open>A status table over the keys that the kernel enumerates: one row per rule, or the error.\<close>

fun rule_rows :: "fenv \<Rightarrow> flag_val list \<Rightarrow> 'k pcpu_map \<Rightarrow> 'k list \<Rightarrow> int \<times> ('k \<times> string \<times> u64) list" where
  "rule_rows env flag_names m [] = (0, [])"
| "rule_rows env flag_names m (key # keys) =
     (case map_get_counter_flags env m key 0 of
        (err, counter, flags) \<Rightarrow>
          if err = - ENOENT then rule_rows env flag_names m keys
          else if err \<noteq> 0 then (err, [])
          else case rule_rows env flag_names m keys of
            (err', rows) \<Rightarrow> (err', (key, print_flags 100 flag_names (ucast flags), the counter) # rows))"

definition print_ports :: "fenv \<Rightarrow> u32 pcpu_map \<Rightarrow> u32 list \<Rightarrow> int \<times> (u16 \<times> string \<times> u64) list" where
  "print_ports env m keys =
     (let (err, rows) = rule_rows env map_flags_all m keys
      in (err, map (\<lambda>(key, row). (bpf_ntohs (ucast key), row)) rows))"

definition print_ips_of :: "fenv \<Rightarrow> 'k pcpu_map \<Rightarrow> 'k list \<Rightarrow> int \<times> ('k \<times> string \<times> u64) list" where
  "print_ips_of env m keys = rule_rows env map_flags_srcdst m keys"

definition print_ethers :: "fenv \<Rightarrow> mem pcpu_map \<Rightarrow> mem list \<Rightarrow> int \<times> (mem \<times> string \<times> u64) list" where
  "print_ethers env m keys = rule_rows env map_flags_srcdst m keys"

datatype ip_addr = Ip4 u32 | Ip6 mem

definition print_ips ::
  "fenv \<Rightarrow> u32 pcpu_map \<Rightarrow> u32 list \<Rightarrow> mem pcpu_map \<Rightarrow> mem list \<Rightarrow> int \<times> (ip_addr \<times> string \<times> u64) list" where
  "print_ips env m4 keys4 m6 keys6 =
     (if root_dir_err env \<noteq> 0 then (root_dir_err env, [])
      else if ipv4_fd env < 0 \<and> ipv6_fd env < 0 then (- ENOENT, [])
      else
        let (err6, rows6) = (if ipv6_fd env \<ge> 0 then print_ips_of env m6 keys6 else (0, []));
            out6 = map (\<lambda>(key, row). (Ip6 key, row)) rows6
        in if err6 \<noteq> 0 then (err6, out6)
           else if ipv4_fd env \<ge> 0 then
             let (err4, rows4) = print_ips_of env m4 keys4
             in (err4, out6 @ map (\<lambda>(key, row). (Ip4 key, row)) rows4)
           else (0, out6))"

record portopt =
  po_mode :: u32
  po_proto :: u32
  po_port :: u16
  po_print_status :: bool
  po_remove :: bool

definition SRC32 :: u32 where "SRC32 = ucast MAP_FLAG_SRC"
definition DST32 :: u32 where "DST32 = ucast MAP_FLAG_DST"
definition TCP32 :: u32 where "TCP32 = ucast MAP_FLAG_TCP"
definition UDP32 :: u32 where "UDP32 = ucast MAP_FLAG_UDP"

text \<open>The new flags of a port from its old ones.\<close>

definition port_flags :: "portopt \<Rightarrow> u8 \<Rightarrow> u8" where
  "port_flags opt flags =
     (let (mode, proto) =
            (if po_remove opt then
               (if po_mode opt = 0 \<and> po_proto opt = 0 then (SRC32 OR DST32, TCP32 OR UDP32)
                else (po_mode opt, po_proto opt))
             else (if po_mode opt = 0 then DST32 else po_mode opt,
                   if po_proto opt = 0 then TCP32 OR UDP32 else po_proto opt));
          flags1 = (if po_remove opt then flags AND NOT (ucast (mode OR proto)) else flags OR ucast (mode OR proto))
      in if flags1 AND ucast (DST32 OR SRC32) = 0 \<or> flags1 AND ucast (TCP32 OR UDP32) = 0 then 0 else flags1)"

definition EXIT_FAILURE :: int where "EXIT_FAILURE = 1"

text \<open>The result: exit code, port map, rows of the status table. \<open>keys\<close> are the keys the kernel enumerates afterwards.\<close>

definition do_port ::
  "fenv \<Rightarrow> portopt \<Rightarrow> u32 pcpu_map \<Rightarrow> u32 list \<Rightarrow> int \<times> u32 pcpu_map \<times> (u16 \<times> string \<times> u64) list" where
  "do_port env opt m keys =
     (if lock_fd env < 0 then (lock_fd env, m, [])
      else if ports_fd env < 0 then (EXIT_FAILURE, m, [])
      else
        let map_key = ucast (bpf_htons (po_port opt)) :: u32;
            (err, counter, flags) = map_get_counter_flags env m map_key 0
        in if err \<noteq> 0 \<and> err \<noteq> - ENOENT then (err, m, [])
           else
             let (err1, m') = map_set_flags env m map_key (port_flags opt flags) False
             in if err1 \<noteq> 0 then (err1, m', [])
                else if po_print_status opt then
                  let (err2, rows) = print_ports env m' keys in (err2, m', rows)
                else (0, m', []))"

definition do_address :: "fenv \<Rightarrow> int \<Rightarrow> 'k pcpu_map \<Rightarrow> 'k \<Rightarrow> bool \<Rightarrow> u32 \<Rightarrow> int \<times> 'k pcpu_map" where
  "do_address env map_fd m key rm mode =
     (if map_fd < 0 then (- ENOENT, m)
      else
        let (err, counter, flags) = map_get_counter_flags env m key 0
        in if err \<noteq> 0 \<and> err \<noteq> - ENOENT then (err, m)
           else
             let flags' = (if rm then flags AND NOT (ucast mode) else flags OR ucast mode);
                 (err1, m') = map_set_flags env m key flags' True
             in if err1 \<noteq> 0 then (err1, m') else (map_fd, m'))"

record ipopt =
  io_mode :: u32
  io_addr :: ip_addr
  io_print_status :: bool
  io_remove :: bool

record etheropt =
  eo_mode :: u32
  eo_addr :: mem
  eo_print_status :: bool
  eo_remove :: bool

definition do_ip ::
  "fenv \<Rightarrow> ipopt \<Rightarrow> u32 pcpu_map \<Rightarrow> mem pcpu_map \<Rightarrow> u32 list \<Rightarrow> mem list \<Rightarrow>
   int \<times> u32 pcpu_map \<times> mem pcpu_map \<times> (ip_addr \<times> string \<times> u64) list" where
  "do_ip env opt m4 m6 keys4 keys6 =
     (if lock_fd env < 0 then (lock_fd env, m4, m6, [])
      else
        let (map_fd, m4', m6') =
              (case io_addr opt of
                 Ip6 addr \<Rightarrow> (case do_address env (ipv6_fd env) m6 addr (io_remove opt) (io_mode opt) of (fd, m) \<Rightarrow> (fd, m4, m))
               | Ip4 addr \<Rightarrow> (case do_address env (ipv4_fd env) m4 addr (io_remove opt) (io_mode opt) of (fd, m) \<Rightarrow> (fd, m, m6)))
        in if map_fd < 0 then (map_fd, m4', m6', [])
           else if io_print_status opt then
             let (err, rows) = print_ips env m4' keys4 m6' keys6 in (err, m4', m6', rows)
           else (0, m4', m6', []))"

definition do_ether ::
  "fenv \<Rightarrow> etheropt \<Rightarrow> mem pcpu_map \<Rightarrow> mem list \<Rightarrow> int \<times> mem pcpu_map \<times> (mem \<times> string \<times> u64) list" where
  "do_ether env opt m keys =
     (if lock_fd env < 0 then (lock_fd env, m, [])
      else
        let (map_fd, m') = do_address env (ethernet_fd env) m (eo_addr opt) (eo_remove opt) (eo_mode opt)
        in if map_fd < 0 then (map_fd, m', [])
           else if eo_print_status opt then let (err, rows) = print_ethers env m' keys in (err, m', rows)
           else (0, m', []))"

section \<open>Rule maps\<close>

text \<open>What the kernel sees on CPU \<open>c\<close>.\<close>

definition cpu_view :: "nat \<Rightarrow> 'k pcpu_map \<Rightarrow> 'k \<Rightarrow> u64 option" where
  "cpu_view c m = (\<lambda>k. map_option (\<lambda>vs. vs ! c) (m k))"

text \<open>Every entry has a value for each of the \<open>n\<close> CPUs, all with the same flags.\<close>

definition rule_map :: "int \<Rightarrow> 'k pcpu_map \<Rightarrow> bool" where
  "rule_map n m \<longleftrightarrow> (\<forall>k vs. m k = Some vs \<longrightarrow> length vs = nat n \<and> (\<forall>v\<in>set vs. v AND MAP_FLAGS = hd vs AND MAP_FLAGS))"

definition entry_flags :: "'k pcpu_map \<Rightarrow> 'k \<Rightarrow> u64" where
  "entry_flags m k = (case m k of None \<Rightarrow> 0 | Some vs \<Rightarrow> hd vs AND MAP_FLAGS)"

definition entry_counter :: "'k pcpu_map \<Rightarrow> 'k \<Rightarrow> u64" where
  "entry_counter m k = (case m k of None \<Rightarrow> 0 | Some vs \<Rightarrow> sum_list (map (drop_bit COUNTER_SHIFT) vs))"

text \<open>The system calls that a rule command makes succeed.\<close>

definition calls_ok :: "fenv \<Rightarrow> bool" where
  "calls_ok env \<longleftrightarrow> num_cpus env > 0 \<and> calloc_ok env \<and> update_errno env = 0 \<and> delete_errno env = 0 \<and> lock_fd env \<ge> 0"

lemma map_flags_val: "MAP_FLAGS = 15"
  by (simp add: MAP_FLAGS_def MAP_FLAG_SRC_def MAP_FLAG_DST_def MAP_FLAG_TCP_def MAP_FLAG_UDP_def)

lemma bit_MAP_FLAGS: "bit MAP_FLAGS i \<longleftrightarrow> i < 4"
proof -
  have m: "MAP_FLAGS = Bit_Operations.mask 4" by (simp add: map_flags_val mask_eq_exp_minus_1)
  show ?thesis unfolding m by (auto simp: bit_mask_iff)
qed

lemma ucast_flags: "ucast (ucast (v AND MAP_FLAGS) :: u8) = v AND MAP_FLAGS"
  by (rule bit_word_eqI) (auto simp: bit_simps bit_MAP_FLAGS)

lemma ucast_flags_0: "(ucast (v AND MAP_FLAGS) :: u8) = 0 \<longleftrightarrow> v AND MAP_FLAGS = 0"
  using ucast_flags [of v] by auto

lemma sum_cpus_set:
  "\<forall>v\<in>set vs. v AND MAP_FLAGS = fl \<Longrightarrow> fl \<noteq> 0 \<Longrightarrow>
     sum_cpus vs s f = (0, s + sum_list (map (drop_bit COUNTER_SHIFT) vs), if vs = [] then f else ucast fl)"
proof (induction vs arbitrary: s f)
  case (Cons v vs)
  then have "(ucast (v AND MAP_FLAGS) :: u8) \<noteq> 0" using ucast_flags_0 [of v] by simp
  then show ?case using Cons by (simp add: Let_def ac_simps)
qed simp

lemma get_counter_flags:
  assumes "rule_map (num_cpus env) m" "calls_ok env"
  shows "map_get_counter_flags env m k f =
    (if entry_flags m k = 0 then (- ENOENT, None, f) else (0, Some (entry_counter m k), ucast (entry_flags m k)))"
proof (cases "m k")
  case (Some vs)
  have vs: "vs \<noteq> []" "\<forall>v\<in>set vs. v AND MAP_FLAGS = hd vs AND MAP_FLAGS"
    using assms Some unfolding rule_map_def calls_ok_def by fastforce+
  show ?thesis
  proof (cases "hd vs AND MAP_FLAGS = 0")
    case True
    then have "sum_cpus vs 0 f = (- ENOENT, 0, f)" using vs(1) by (cases vs) (simp_all add: Let_def)
    then show ?thesis using True Some assms by (simp add: map_get_counter_flags_def calls_ok_def entry_flags_def ENOENT_def)
  next
    case False
    then show ?thesis
      using sum_cpus_set [OF vs(2) False, of 0 f] vs(1) Some assms(2)
      by (simp add: map_get_counter_flags_def calls_ok_def entry_flags_def entry_counter_def)
  qed
qed (use assms in \<open>simp add: map_get_counter_flags_def calls_ok_def entry_flags_def\<close>)

definition set_value :: "u8 \<Rightarrow> u64 \<Rightarrow> u64" where
  "set_value flags v = (if flags \<noteq> 0 then (v AND NOT MAP_FLAGS) OR (ucast flags AND MAP_FLAGS) else 0)"

lemma set_value_flags: "set_value flags v AND MAP_FLAGS = ucast flags AND MAP_FLAGS"
  by (auto simp: set_value_def intro!: bit_word_eqI simp: bit_simps)

lemma set_value_counter:
  assumes "flags \<noteq> 0"
  shows "drop_bit COUNTER_SHIFT (set_value flags v) = drop_bit COUNTER_SHIFT v"
proof (rule bit_word_eqI)
  fix n assume "n < LENGTH(64)"
  show "bit (drop_bit COUNTER_SHIFT (set_value flags v)) n = bit (drop_bit COUNTER_SHIFT v) n"
    using bit_imp_le_length [of v "6 + n"] assms
    by (auto simp: set_value_def COUNTER_SHIFT_def bit_simps bit_MAP_FLAGS)
qed

definition new_entry :: "fenv \<Rightarrow> 'k pcpu_map \<Rightarrow> 'k \<Rightarrow> u8 \<Rightarrow> bool \<Rightarrow> u64 list option" where
  "new_entry env m k flags delete_empty =
     (if m k \<noteq> None \<and> flags = 0 \<and> delete_empty then None
      else Some (map (set_value flags) (case m k of None \<Rightarrow> replicate (nat (num_cpus env)) 0 | Some vs \<Rightarrow> vs)))"

lemma set_flags_ok:
  "calls_ok env \<Longrightarrow> map_set_flags env m k flags de = (0, m(k := new_entry env m k flags de))"
  by (auto simp: map_set_flags_def calls_ok_def new_entry_def set_value_def [abs_def] Let_def split: option.splits)

lemma set_flags_err: "map_set_flags env m k flags de = (e, m') \<Longrightarrow> e \<noteq> 0 \<Longrightarrow> m' = m"
  by (auto simp: map_set_flags_def Let_def split: option.splits if_splits)

lemma new_entry_shape:
  assumes "rule_map (num_cpus env) m" "calls_ok env" "new_entry env m k flags de = Some vs"
  shows "length vs = nat (num_cpus env)" "v \<in> set vs \<Longrightarrow> v AND MAP_FLAGS = ucast flags AND MAP_FLAGS" "vs \<noteq> []"
proof -
  show l: "length vs = nat (num_cpus env)"
    using assms by (auto simp: new_entry_def rule_map_def split: if_splits option.splits)
  show "v \<in> set vs \<Longrightarrow> v AND MAP_FLAGS = ucast flags AND MAP_FLAGS"
    using assms(3) by (auto simp: new_entry_def set_value_flags split: if_splits)
  show "vs \<noteq> []" using l assms(2) by (auto simp: calls_ok_def)
qed

lemma set_flags_rule_map:
  assumes "rule_map (num_cpus env) m" "calls_ok env"
  shows "rule_map (num_cpus env) (m(k := new_entry env m k flags de))"
  using assms(1) new_entry_shape [OF assms, of k flags de] unfolding rule_map_def
  by (auto simp: rule_map_def) 

lemma set_flags_entry:
  assumes "rule_map (num_cpus env) m" "calls_ok env"
  shows "entry_flags (m(k := new_entry env m k flags de)) k = ucast flags AND MAP_FLAGS"
proof (cases "new_entry env m k flags de")
  case None
  then show ?thesis by (simp add: entry_flags_def new_entry_def split: if_splits)
next
  case (Some vs)
  then show ?thesis using new_entry_shape [OF assms Some] by (simp add: entry_flags_def)
qed

lemma set_flags_counter:
  assumes "rule_map (num_cpus env) m" "calls_ok env" "flags \<noteq> 0"
  shows "entry_counter (m(k := new_entry env m k flags de)) k = entry_counter m k"
proof -
  have z: "map (drop_bit COUNTER_SHIFT) (map (set_value flags) vs) = map (drop_bit COUNTER_SHIFT) vs" for vs
    by (simp add: set_value_counter [OF assms(3)])
  show ?thesis using assms(3) z by (auto simp: entry_counter_def new_entry_def sum_list_replicate simp del: map_map split: option.splits)
qed

text \<open>The kernel hits an entry exactly if its flags contain the mask.\<close>

lemma kernel_hit:
  assumes "rule_map n m" "c < nat n" "msk AND MAP_FLAGS = msk" "msk \<noteq> 0"
  shows "CHECK_MAP (cpu_view c m) k msk \<noteq> None \<longleftrightarrow> entry_flags m k AND msk = msk"
proof (cases "m k")
  case (Some vs)
  then have "vs ! c AND MAP_FLAGS = hd vs AND MAP_FLAGS"
    using assms(1,2) nth_mem unfolding rule_map_def by metis
  then have "vs ! c AND msk = (hd vs AND MAP_FLAGS) AND msk"
    using assms(3) by (metis and.assoc and.commute)
  then show ?thesis using Some by (simp add: CHECK_MAP_def cpu_view_def entry_flags_def)
qed (use assms in \<open>simp add: CHECK_MAP_def cpu_view_def entry_flags_def\<close>)

lemma rows_ok:
  assumes "rule_map (num_cpus env) m" "calls_ok env"
  shows "rule_rows env flag_names m keys =
    (0, map (\<lambda>k. (k, print_flags 100 flag_names (entry_flags m k), entry_counter m k)) (filter (\<lambda>k. entry_flags m k \<noteq> 0) keys))"
proof -
  have "ucast (ucast (entry_flags m k) :: u8) = entry_flags m k" for k
    by (simp add: entry_flags_def ucast_flags split: option.splits)
  then show ?thesis by (induction keys) (simp_all add: get_counter_flags [OF assms] ENOENT_def)
qed

section \<open>Port rules\<close>

lemma word_bits_iff: "(x :: 'a::len word) = y \<longleftrightarrow> (\<forall>n < LENGTH('a). bit x n = bit y n)"
  by (auto intro: bit_word_eqI)

lemma and_flag: "i < LENGTH('a) \<Longrightarrow> (x :: 'a::len word) AND push_bit i 1 = 0 \<longleftrightarrow> \<not> bit x i"
  by (auto simp: word_bits_iff bit_simps)

lemma and_or_eq: "(x :: 'a::len word) AND (a OR b) = a OR b \<longleftrightarrow> x AND a = a \<and> x AND b = b"
  by (auto simp: word_bits_iff bit_simps)

lemma and_flag_eq: "i < LENGTH('a) \<Longrightarrow> (x :: 'a::len word) AND 2 ^ i = 2 ^ i \<longleftrightarrow> bit x i"
  by (auto simp: word_bits_iff bit_simps)

lemma flag_bits:
  "MAP_FLAG_SRC = push_bit 0 1" "MAP_FLAG_DST = push_bit 1 1" "MAP_FLAG_TCP = push_bit 2 1" "MAP_FLAG_UDP = push_bit 3 1"
  by (simp_all add: MAP_FLAG_SRC_def MAP_FLAG_DST_def MAP_FLAG_TCP_def MAP_FLAG_UDP_def)

lemma bit_flag: "i < LENGTH('a) \<Longrightarrow> bit (push_bit i 1 :: 'a::len word) n \<longleftrightarrow> n = i"
  by (auto simp: bit_simps)

lemma bit_ucast_flag: "i < 32 \<Longrightarrow> bit (ucast (push_bit i 1 :: u64) :: u32) n \<longleftrightarrow> n = i"
  by (auto simp: bit_simps)

lemma bit_flags32:
  "bit SRC32 n \<longleftrightarrow> n = 0" "bit DST32 n \<longleftrightarrow> n = 1" "bit TCP32 n \<longleftrightarrow> n = 2" "bit UDP32 n \<longleftrightarrow> n = 3"
  unfolding SRC32_def DST32_def TCP32_def UDP32_def flag_bits by (rule bit_ucast_flag, simp)+

text \<open>The flags that a port command names, with the defaults of the program.\<close>

definition selects :: "portopt \<Rightarrow> nat \<Rightarrow> bool" where
  "selects opt i \<longleftrightarrow>
     bit (po_mode opt) i \<or> bit (po_proto opt) i \<or>
     (if po_remove opt then po_mode opt = 0 \<and> po_proto opt = 0
      else po_mode opt = 0 \<and> i = 1 \<or> po_proto opt = 0 \<and> (i = 2 \<or> i = 3))"

definition flag_after :: "portopt \<Rightarrow> u8 \<Rightarrow> nat \<Rightarrow> bool" where
  "flag_after opt flags i \<longleftrightarrow> (if po_remove opt then bit flags i \<and> \<not> selects opt i else bit flags i \<or> selects opt i)"

lemma no_flags_iff:
  "(x :: u8) AND ucast (DST32 OR SRC32) = 0 \<longleftrightarrow> \<not> bit x 0 \<and> \<not> bit x 1"
  "(x :: u8) AND ucast (TCP32 OR UDP32) = 0 \<longleftrightarrow> \<not> bit x 2 \<and> \<not> bit x 3"
  by (auto simp: word_bits_iff bit_simps bit_flags32 numeral_eq_Suc All_less_Suc)

lemma port_flags_bit:
  assumes "i < 4"
  shows "bit (port_flags opt flags) i \<longleftrightarrow>
    flag_after opt flags i \<and> (flag_after opt flags 0 \<or> flag_after opt flags 1) \<and> (flag_after opt flags 2 \<or> flag_after opt flags 3)"
proof -
  define sel where "sel = (if po_remove opt
    then (if po_mode opt = 0 \<and> po_proto opt = 0 then (SRC32 OR DST32) OR (TCP32 OR UDP32) else po_mode opt OR po_proto opt)
    else (if po_mode opt = 0 then DST32 else po_mode opt) OR (if po_proto opt = 0 then TCP32 OR UDP32 else po_proto opt))"
  define f1 where "f1 = (if po_remove opt then flags AND NOT (ucast sel) else flags OR ucast sel)"
  have pf: "port_flags opt flags =
      (if f1 AND ucast (DST32 OR SRC32) = 0 \<or> f1 AND ucast (TCP32 OR UDP32) = 0 then 0 else f1)"
    by (simp add: port_flags_def f1_def sel_def)
  have "bit sel j \<longleftrightarrow> selects opt j" if "j < 4" for j
    using that by (auto simp: sel_def selects_def bit_simps bit_flags32 numeral_eq_Suc less_Suc_eq)
  then have "bit f1 j \<longleftrightarrow> flag_after opt flags j" if "j < 4" for j
    using that by (auto simp: f1_def flag_after_def bit_simps)
  then show ?thesis using assms unfolding pf no_flags_iff by auto
qed

abbreviation port_key :: "portopt \<Rightarrow> u32" where
  "port_key opt \<equiv> ucast (bpf_htons (po_port opt))"

lemma do_port_ok:
  assumes "rule_map (num_cpus env) m" "calls_ok env" "ports_fd env \<ge> 0"
  shows "\<exists>rows. do_port env opt m keys =
    (0, m(port_key opt := new_entry env m (port_key opt) (port_flags opt (ucast (entry_flags m (port_key opt)))) False), rows)"
proof -
  let ?m = "m(port_key opt := new_entry env m (port_key opt) (port_flags opt (ucast (entry_flags m (port_key opt)))) False)"
  have "fst (print_ports env ?m keys) = 0"
    by (simp add: print_ports_def rows_ok [OF set_flags_rule_map [OF assms(1,2)] assms(2)])
  then show ?thesis
    using assms(2,3)
    by (auto simp: do_port_def get_counter_flags [OF assms(1,2)] set_flags_ok ENOENT_def calls_ok_def Let_def split: prod.splits)
qed

text \<open>The kernel's view of a mask that is a direction and a protocol.\<close>

lemma kernel_hit_pair:
  assumes "rule_map n m" "c < nat n" "d \<in> {0, 1}" "t \<in> {2, 3}"
  shows "CHECK_MAP (cpu_view c m) k (2 ^ d OR 2 ^ t) \<noteq> None \<longleftrightarrow>
    bit (entry_flags m k) d \<and> bit (entry_flags m k) t"
proof -
  have i: "d < LENGTH(64)" "t < LENGTH(64)" using assms(3,4) by auto
  let ?msk = "2 ^ d OR 2 ^ t :: u64"
  have "?msk AND MAP_FLAGS = ?msk"
    using assms(3,4) by (auto simp: word_bits_iff bit_simps bit_MAP_FLAGS)
  moreover have "?msk \<noteq> 0" using i(1) by (auto simp: word_bits_iff bit_simps)
  ultimately show ?thesis
    using kernel_hit [OF assms(1,2), of ?msk k] and_flag_eq [OF i(1)] and_flag_eq [OF i(2)] by (simp add: and_or_eq)
qed

lemma entry_flags_small: "bit (ucast (entry_flags m k) :: u8) i \<longleftrightarrow> bit (entry_flags m k) i"
proof -
  have "i < 4" if "bit (entry_flags m k) i" for i
    using that by (auto simp: entry_flags_def bit_simps bit_MAP_FLAGS split: option.splits)
  from this [of i] show ?thesis by (auto simp: bit_simps)
qed

text \<open>
  C33: A successful \<^verbatim>\<open>xdp-filter port\<close> command does in the kernel what its options say. On every CPU, a packet with the port in direction
  \<open>d\<close> (0 source, 1 destination) and of protocol \<open>t\<close> (2 TCP, 3 UDP) hits the rule afterwards exactly if, when adding, direction and
  protocol are named by the command (by default the destination, and both protocols) or were filtered before, and when removing, it hit
  the rule before and the command names neither of the two. The entries of all other ports are untouched, the flags stay the same on all CPUs, and
  a rule that remains keeps its hit counter.
\<close>

theorem port_command_effect:
  assumes "rule_map (num_cpus env) m" "calls_ok env" "ports_fd env \<ge> 0"
    and "do_port env opt m keys = (err, m', rows)"
  shows "err = 0 \<and> rule_map (num_cpus env) m' \<and> (\<forall>k. k \<noteq> port_key opt \<longrightarrow> m' k = m k) \<and>
    (\<forall>c < nat (num_cpus env). \<forall>d\<in>{0, 1}. \<forall>t\<in>{2, 3}.
      CHECK_MAP (cpu_view c m') (port_key opt) (2 ^ d OR 2 ^ t) \<noteq> None \<longleftrightarrow>
        (if po_remove opt
         then CHECK_MAP (cpu_view c m) (port_key opt) (2 ^ d OR 2 ^ t) \<noteq> None \<and> \<not> selects opt d \<and> \<not> selects opt t
         else (bit (entry_flags m (port_key opt)) d \<or> selects opt d) \<and> (bit (entry_flags m (port_key opt)) t \<or> selects opt t))) \<and>
    (entry_flags m' (port_key opt) \<noteq> 0 \<longrightarrow> entry_counter m' (port_key opt) = entry_counter m (port_key opt))"
proof -
  let ?k = "port_key opt"
  let ?fl = "port_flags opt (ucast (entry_flags m ?k))"
  have r: "err = 0" "m' = m(?k := new_entry env m ?k ?fl False)"
    using do_port_ok [OF assms(1-3), of opt keys] assms(4) by auto
  have rm: "rule_map (num_cpus env) m'" using set_flags_rule_map [OF assms(1,2)] r(2) by simp
  have fl: "entry_flags m' ?k = ucast ?fl AND MAP_FLAGS" using set_flags_entry [OF assms(1,2)] r(2) by simp
  have b: "bit (entry_flags m' ?k) i \<longleftrightarrow> bit ?fl i" if "i < 4" for i
    using that by (simp add: fl bit_simps bit_MAP_FLAGS)
  have "CHECK_MAP (cpu_view c m') ?k (2 ^ d OR 2 ^ t) \<noteq> None \<longleftrightarrow>
        (if po_remove opt
         then CHECK_MAP (cpu_view c m) ?k (2 ^ d OR 2 ^ t) \<noteq> None \<and> \<not> selects opt d \<and> \<not> selects opt t
         else (bit (entry_flags m ?k) d \<or> selects opt d) \<and> (bit (entry_flags m ?k) t \<or> selects opt t))"
    if "c < nat (num_cpus env)" and dt: "d \<in> {0, 1}" "t \<in> {2, 3}" for c d t
  proof -
    have "d < 4" "t < 4" using dt by auto
    then show ?thesis
      unfolding kernel_hit_pair [OF rm that] kernel_hit_pair [OF assms(1) that]
      using dt by (auto simp: b port_flags_bit flag_after_def entry_flags_small)
  qed
  moreover have "entry_counter m' ?k = entry_counter m ?k" if "entry_flags m' ?k \<noteq> 0"
    using that set_flags_counter [OF assms(1,2), of ?fl ?k False] fl r(2) by (cases "?fl = 0") auto
  ultimately show ?thesis using r rm by auto
qed

theorem port_command_effect_witness:
  "let env = \<lparr>num_cpus = 2, calloc_ok = True, update_errno = 0, delete_errno = 0, lock_fd = 3, ports_fd = 4,
        ipv4_fd = 5, ipv6_fd = 6, ethernet_fd = 7, root_dir_err = 0\<rparr>;
       opt = \<lparr>po_mode = 0, po_proto = 4, po_port = 80, po_print_status = False, po_remove = False\<rparr>;
       m' = fst (snd (do_port env opt (\<lambda>_. Some [64, 128]) []))
   in CHECK_MAP (cpu_view 1 m') (port_key opt) (MAP_FLAG_DST OR MAP_FLAG_TCP) \<noteq> None \<and>
      CHECK_MAP (cpu_view 1 m') (port_key opt) (MAP_FLAG_DST OR MAP_FLAG_UDP) = None"
proof -
  let ?env = "\<lparr>num_cpus = 2, calloc_ok = True, update_errno = 0, delete_errno = 0, lock_fd = 3, ports_fd = 4,
        ipv4_fd = 5, ipv6_fd = 6, ethernet_fd = 7, root_dir_err = 0\<rparr>"
  let ?opt = "\<lparr>po_mode = 0, po_proto = 4, po_port = 80, po_print_status = False, po_remove = False\<rparr>"
  let ?m = "\<lambda>_ :: u32. Some [64, 128] :: u64 list option"
  have 1: "rule_map (num_cpus ?env) ?m" by (simp add: rule_map_def map_flags_val)
  have 2: "calls_ok ?env" by (simp add: calls_ok_def)
  obtain err m' rows where r: "do_port ?env ?opt ?m [] = (err, m', rows)" by (metis prod_cases3)
  have 3: "ports_fd ?env \<ge> 0" by simp
  have s: "selects ?opt 1" "selects ?opt 2" "\<not> selects ?opt 3"
    "\<not> bit (entry_flags ?m (port_key ?opt)) 3"
    by (simp_all add: selects_def entry_flags_def bit_iff_odd map_flags_val)
  have c: "1 < nat (num_cpus ?env)" by simp
  note t = port_command_effect [OF 1 2 3 r, THEN conjunct2, THEN conjunct2, THEN conjunct2, THEN conjunct1, rule_format, OF c]
  show ?thesis
    using t [of 1 2] t [of 1 3] s by (simp add: r Let_def MAP_FLAG_DST_def MAP_FLAG_TCP_def MAP_FLAG_UDP_def)
qed

section \<open>Address rules and the status table\<close>

lemma do_address_ok:
  assumes "rule_map (num_cpus env) m" "calls_ok env" "map_fd \<ge> 0"
  shows "do_address env map_fd m k rm mode =
    (map_fd, m(k := new_entry env m k
      (if rm then ucast (entry_flags m k) AND NOT (ucast mode) else ucast (entry_flags m k) OR ucast mode) True))"
  using assms(3) by (auto simp: do_address_def get_counter_flags [OF assms(1,2)] set_flags_ok [OF assms(2)] ENOENT_def Let_def)

text \<open>The effect of a command on the rules of one address map.\<close>

definition address_effect :: "int \<Rightarrow> bool \<Rightarrow> u32 \<Rightarrow> 'k \<Rightarrow> 'k pcpu_map \<Rightarrow> 'k pcpu_map \<Rightarrow> bool" where
  "address_effect n rm mode a m m' \<longleftrightarrow>
     rule_map n m' \<and> (\<forall>k. k \<noteq> a \<longrightarrow> m' k = m k) \<and>
     (\<forall>c < nat n. \<forall>d\<in>{0, 1}.
        CHECK_MAP (cpu_view c m') a (2 ^ d) \<noteq> None \<longleftrightarrow>
          (if rm then CHECK_MAP (cpu_view c m) a (2 ^ d) \<noteq> None \<and> \<not> bit mode d
           else CHECK_MAP (cpu_view c m) a (2 ^ d) \<noteq> None \<or> bit mode d))"

lemma kernel_hit_single:
  assumes "rule_map n m" "c < nat n" "d \<in> {0, 1}"
  shows "CHECK_MAP (cpu_view c m) k (2 ^ d) \<noteq> None \<longleftrightarrow> bit (entry_flags m k) d"
proof -
  have i: "d < LENGTH(64)" using assms(3) by auto
  have "(2 :: u64) ^ d AND MAP_FLAGS = 2 ^ d"
    using assms(3) by (auto simp: word_bits_iff bit_simps bit_MAP_FLAGS)
  moreover have "(2 :: u64) ^ d \<noteq> 0" using i by (auto simp: word_bits_iff bit_simps)
  ultimately show ?thesis
    using kernel_hit [OF assms(1,2), of "2 ^ d" k] by (simp add: and_flag_eq i)
qed

lemma do_address_effect:
  assumes "rule_map (num_cpus env) m" "calls_ok env" "map_fd \<ge> 0"
  shows "\<exists>m'. do_address env map_fd m k rm mode = (map_fd, m') \<and> address_effect (num_cpus env) rm mode k m m'"
proof -
  let ?fl = "if rm then ucast (entry_flags m k) AND NOT (ucast mode) else ucast (entry_flags m k) OR ucast mode :: u8"
  let ?m = "m(k := new_entry env m k ?fl True)"
  have rm: "rule_map (num_cpus env) ?m" by (rule set_flags_rule_map [OF assms(1,2)])
  have "bit (entry_flags ?m k) i \<longleftrightarrow> (if rm then bit (entry_flags m k) i \<and> \<not> bit mode i else bit (entry_flags m k) i \<or> bit mode i)"
    if "i < 4" for i
    using that by (auto simp only: set_flags_entry [OF assms(1,2)]) (auto simp: bit_simps bit_MAP_FLAGS)
  then have "CHECK_MAP (cpu_view c ?m) k (2 ^ d) \<noteq> None \<longleftrightarrow>
      (if rm then CHECK_MAP (cpu_view c m) k (2 ^ d) \<noteq> None \<and> \<not> bit mode d
       else CHECK_MAP (cpu_view c m) k (2 ^ d) \<noteq> None \<or> bit mode d)"
    if "c < nat (num_cpus env)" "d \<in> {0, 1}" for c d
    unfolding kernel_hit_single [OF rm that] kernel_hit_single [OF assms(1) that] using that(2) by auto
  then have "address_effect (num_cpus env) rm mode k m ?m"
    unfolding address_effect_def using rm by auto
  then show ?thesis using do_address_ok [OF assms, of k rm mode] by blast
qed

text \<open>
  A successful \<^verbatim>\<open>xdp-filter ip\<close> command changes the rule of exactly its address, in the map of its address family, and leaves the other family alone.
  On every CPU the kernel then hits the address as source (0) or destination (1) exactly if the command adds that direction or the direction was filtered before,
  and after a removal exactly if it was filtered before and the command does not name the direction. This holds also when the entry
  disappears from the map because no direction is left.
\<close>

theorem ip_command_effect:
  assumes "rule_map (num_cpus env) m4" "rule_map (num_cpus env) m6" "calls_ok env" "ipv4_fd env \<ge> 0" "ipv6_fd env \<ge> 0" "root_dir_err env = 0"
  shows "\<exists>m4' m6' rows. do_ip env opt m4 m6 keys4 keys6 = (0, m4', m6', rows) \<and>
    (case io_addr opt of
       Ip4 a \<Rightarrow> address_effect (num_cpus env) (io_remove opt) (io_mode opt) a m4 m4' \<and> m6' = m6
     | Ip6 a \<Rightarrow> address_effect (num_cpus env) (io_remove opt) (io_mode opt) a m6 m6' \<and> m4' = m4)"
proof -
  have pr: "fst (print_ips env m4' keys4 m6' keys6) = 0"
    if "rule_map (num_cpus env) m4'" "rule_map (num_cpus env) m6'" for m4' m6'
    using assms(4-6) by (simp add: print_ips_def print_ips_of_def rows_ok [OF that(1) assms(3)] rows_ok [OF that(2) assms(3)])
  have l: "\<not> lock_fd env < 0" using assms(3) by (simp add: calls_ok_def)
  show ?thesis
  proof (cases "io_addr opt")
    case (Ip4 a)
    obtain m' where m': "do_address env (ipv4_fd env) m4 a (io_remove opt) (io_mode opt) = (ipv4_fd env, m')"
      "address_effect (num_cpus env) (io_remove opt) (io_mode opt) a m4 m'"
      using do_address_effect [OF assms(1,3,4)] by blast
    then show ?thesis
      using Ip4 l assms(4) pr [of m' m6] assms(2) by (auto simp: do_ip_def address_effect_def Let_def split: prod.splits)
  next
    case (Ip6 a)
    obtain m' where m': "do_address env (ipv6_fd env) m6 a (io_remove opt) (io_mode opt) = (ipv6_fd env, m')"
      "address_effect (num_cpus env) (io_remove opt) (io_mode opt) a m6 m'"
      using do_address_effect [OF assms(2,3,5)] by blast
    then show ?thesis
      using Ip6 l assms(5) pr [of m4 m'] assms(1) by (auto simp: do_ip_def address_effect_def Let_def split: prod.splits)
  qed
qed

theorem ip_command_effect_witness:
  "let env = \<lparr>num_cpus = 2, calloc_ok = True, update_errno = 0, delete_errno = 0, lock_fd = 3, ports_fd = 4,
        ipv4_fd = 5, ipv6_fd = 6, ethernet_fd = 7, root_dir_err = 0\<rparr>;
       opt = \<lparr>io_mode = 2, io_addr = Ip4 7, io_print_status = False, io_remove = True\<rparr>
   in \<exists>m' rows. do_ip env opt [7 \<mapsto> [2, 66]] Map.empty [7] [] = (0, m', Map.empty, rows) \<and> m' 7 = None \<and>
        address_effect 2 True 2 7 [7 \<mapsto> [2, 66]] m'"
proof -
  let ?env = "\<lparr>num_cpus = 2, calloc_ok = True, update_errno = 0, delete_errno = 0, lock_fd = 3, ports_fd = 4,
        ipv4_fd = 5, ipv6_fd = 6, ethernet_fd = 7, root_dir_err = 0\<rparr>"
  let ?opt = "\<lparr>io_mode = 2, io_addr = Ip4 7, io_print_status = False, io_remove = True\<rparr>"
  let ?m = "[7 \<mapsto> [2, 66]] :: u32 pcpu_map"
  have 1: "rule_map (num_cpus ?env) ?m" "rule_map (num_cpus ?env) (Map.empty :: mem pcpu_map)"
    by (simp_all add: rule_map_def map_flags_val)
  have 2: "calls_ok ?env" by (simp add: calls_ok_def)
  have 3: "fst (snd (do_ip ?env ?opt ?m Map.empty [7] [])) 7 = None" by code_simp
  show ?thesis using ip_command_effect [OF 1 2, of ?opt "[7]" "[]"] 3 by (auto simp: Let_def)
qed

text \<open>
  The status table is the list of the rules in force. When the system calls succeed it has, in the order in which
  the kernel enumerates the keys, one row for every port that has flags, with the port in host order, the names of its flags
  and the sum of its hit counters over all CPUs, and no row for any other port.
\<close>

theorem print_ports_lists_rules:
  assumes "rule_map (num_cpus env) m" "calls_ok env"
  shows "print_ports env m (map (\<lambda>p. ucast (bpf_htons p)) ports) =
    (0, map (\<lambda>p. (p, print_flags 100 map_flags_all (entry_flags m (ucast (bpf_htons p))), entry_counter m (ucast (bpf_htons p))))
          (filter (\<lambda>p. entry_flags m (ucast (bpf_htons p)) \<noteq> 0) ports))"
proof -
  have "ucast (ucast (bpf_htons p) :: u32) = bpf_htons p" for p
    by (rule bit_word_eqI) (simp add: bit_simps)
  then show ?thesis
    by (simp add: print_ports_def rows_ok [OF assms] filter_map comp_def byte_order_defs)
qed

theorem print_ports_lists_rules_witness:
  "print_ports \<lparr>num_cpus = 2, calloc_ok = True, update_errno = 0, delete_errno = 0, lock_fd = 3, ports_fd = 4,
        ipv4_fd = 5, ipv6_fd = 6, ethernet_fd = 7, root_dir_err = 0\<rparr>
     [ucast (bpf_htons 80) \<mapsto> [70, 134], ucast (bpf_htons 81) \<mapsto> [0, 0]] [ucast (bpf_htons 80), ucast (bpf_htons 81)] =
   (0, [(80, ''dst,tcp'', 3)])"
proof -
  let ?env = "\<lparr>num_cpus = 2, calloc_ok = True, update_errno = 0, delete_errno = 0, lock_fd = 3, ports_fd = 4,
        ipv4_fd = 5, ipv6_fd = 6, ethernet_fd = 7, root_dir_err = 0\<rparr>"
  let ?m = "[ucast (bpf_htons 80) \<mapsto> [70, 134], ucast (bpf_htons 81) \<mapsto> [0, 0]] :: u32 pcpu_map"
  have 1: "rule_map (num_cpus ?env) ?m" by (simp add: rule_map_def map_flags_val)
  have 2: "calls_ok ?env" by (simp add: calls_ok_def)
  have 3: "map (\<lambda>p. (p, print_flags 100 map_flags_all (entry_flags ?m (ucast (bpf_htons p))), entry_counter ?m (ucast (bpf_htons p))))
          (filter (\<lambda>p. entry_flags ?m (ucast (bpf_htons p)) \<noteq> 0) [80, 81]) = [(80, ''dst,tcp'', 3)]" by code_simp
  show ?thesis using print_ports_lists_rules [OF 1 2, of "[80, 81]"] unfolding 3 by simp
qed

text \<open>A port command that fails before it prints its table leaves the map as it was.\<close>

lemma do_port_fail:
  "do_port env opt m keys = (err, m', rows) \<Longrightarrow> err \<noteq> 0 \<Longrightarrow> \<not> po_print_status opt \<Longrightarrow> m' = m"
  by (auto simp: do_port_def Let_def dest: set_flags_err split: if_splits prod.splits)

end
