(* ===== verification/Zip.thy ===== *)
theory Zip
  imports Prelude
begin

text \<open>
  \<^verbatim>\<open>lib/libbpf/src/zip.c\<close>: reading the directory of a zip archive that is mapped into memory. The
  archive's bytes are a memory region, and a pointer into it is an offset; the packed little-endian structures are
  read by loads at their field offsets. \<open>None\<close> is a read outside the mapping. The 32-bit
  offsets wrap around as they do in C.
\<close>

section \<open>Model\<close>

definition END_OF_CD_RECORD_MAGIC :: u32 where "END_OF_CD_RECORD_MAGIC = 0x06054b50"
definition CD_FILE_HEADER_MAGIC :: u32 where "CD_FILE_HEADER_MAGIC = 0x02014b50"
definition LOCAL_FILE_HEADER_MAGIC :: u32 where "LOCAL_FILE_HEADER_MAGIC = 0x04034b50"
definition FLAG_ENCRYPTED :: u16 where "FLAG_ENCRYPTED = 1"
definition FLAG_HAS_DATA_DESCRIPTOR :: u16 where "FLAG_HAS_DATA_DESCRIPTOR = 8"

record end_of_cd_record =
  eo_magic :: u32
  this_disk :: u16
  cd_disk :: u16
  cd_records :: u16
  cd_records_total :: u16
  cd_size :: u32
  cd_offset :: u32
  comment_length :: u16

definition ld_eocd :: "mem \<Rightarrow> nat \<Rightarrow> end_of_cd_record option" where
  "ld_eocd m p =
     do {
       mg \<leftarrow> ld32 m p;
       td \<leftarrow> ld16 m (p + 4);
       cd \<leftarrow> ld16 m (p + 6);
       cr \<leftarrow> ld16 m (p + 8);
       ct \<leftarrow> ld16 m (p + 10);
       cs \<leftarrow> ld32 m (p + 12);
       co \<leftarrow> ld32 m (p + 16);
       cl \<leftarrow> ld16 m (p + 20);
       Some \<lparr>eo_magic = mg, this_disk = td, cd_disk = cd, cd_records = cr, cd_records_total = ct,
             cd_size = cs, cd_offset = co, comment_length = cl\<rparr>
     }"

text \<open>The fields of the other two structures that the code reads.\<close>

record cd_file_header =
  cf_magic :: u32
  cf_flags :: u16
  cf_file_name_length :: u16
  cf_extra_field_length :: u16
  cf_file_comment_length :: u16
  cf_offset :: u32

definition ld_cdfh :: "mem \<Rightarrow> nat \<Rightarrow> cd_file_header option" where
  "ld_cdfh m p =
     do {
       mg \<leftarrow> ld32 m p;
       fl \<leftarrow> ld16 m (p + 8);
       nl \<leftarrow> ld16 m (p + 28);
       el \<leftarrow> ld16 m (p + 30);
       cl \<leftarrow> ld16 m (p + 32);
       off \<leftarrow> ld32 m (p + 42);
       Some \<lparr>cf_magic = mg, cf_flags = fl, cf_file_name_length = nl, cf_extra_field_length = el,
             cf_file_comment_length = cl, cf_offset = off\<rparr>
     }"

record local_file_header =
  lf_magic :: u32
  lf_flags :: u16
  lf_compression :: u16
  lf_compressed_size :: u32
  lf_file_name_length :: u16
  lf_extra_field_length :: u16

definition ld_lfh :: "mem \<Rightarrow> nat \<Rightarrow> local_file_header option" where
  "ld_lfh m p =
     do {
       mg \<leftarrow> ld32 m p;
       fl \<leftarrow> ld16 m (p + 6);
       co \<leftarrow> ld16 m (p + 8);
       cs \<leftarrow> ld32 m (p + 18);
       nl \<leftarrow> ld16 m (p + 26);
       el \<leftarrow> ld16 m (p + 28);
       Some \<lparr>lf_magic = mg, lf_flags = fl, lf_compression = co, lf_compressed_size = cs,
             lf_file_name_length = nl, lf_extra_field_length = el\<rparr>
     }"

record zip_archive =
  za_data :: mem
  za_size :: u32
  za_cd_offset :: u32
  za_cd_records :: u32

record zip_entry =
  ze_compression :: u16
  ze_name :: nat
  ze_name_length :: u16
  ze_data :: nat
  ze_data_length :: u32
  ze_data_offset :: u32

text \<open>\<open>None\<close> is NULL.\<close>

definition check_access :: "zip_archive \<Rightarrow> u32 \<Rightarrow> u32 \<Rightarrow> nat option" where
  "check_access archive offset n =
     (if offset + n > za_size archive \<or> offset > offset + n then None else Some (unat offset))"

definition try_parse_end_of_cd :: "zip_archive \<Rightarrow> u32 \<Rightarrow> (int \<times> zip_archive) option" where
  "try_parse_end_of_cd archive offset =
     (case check_access archive offset 22 of
        None \<Rightarrow> Some (- EINVAL, archive)
      | Some p \<Rightarrow> do {
          eocd \<leftarrow> ld_eocd (za_data archive) p;
          if eo_magic eocd \<noteq> END_OF_CD_RECORD_MAGIC then Some (- EINVAL, archive)
          else if unat offset + 22 + unat (comment_length eocd) \<noteq> unat (za_size archive) then Some (- EINVAL, archive)
          else if this_disk eocd \<noteq> 0 \<or> cd_disk eocd \<noteq> 0 \<or> cd_records_total eocd \<noteq> cd_records eocd
          then Some (- ENOTSUP, archive)
          else if check_access archive (cd_offset eocd) (cd_size eocd) = None then Some (- EINVAL, archive)
          else Some (0, archive\<lparr>za_cd_offset := cd_offset eocd, za_cd_records := ucast (cd_records eocd)\<rparr>)
        })"

text \<open>The scan towards the beginning of the file, down to \<open>limit\<close>.\<close>

function find_cd_loop :: "zip_archive \<Rightarrow> int \<Rightarrow> int \<Rightarrow> int \<Rightarrow> (int \<times> zip_archive) option" where
  "find_cd_loop archive offset limit rc =
     (if offset \<ge> 0 \<and> offset > limit \<and> rc \<noteq> 0 then do {
        (rc', archive') \<leftarrow> try_parse_end_of_cd archive (word_of_int offset);
        if rc' = - ENOTSUP then Some (rc', archive')
        else find_cd_loop archive' (offset - 1) limit rc'
      }
      else Some (rc, archive))"
  by pat_completeness auto
termination
  by (relation "measure (\<lambda>(_, offset, _, _). nat (offset + 1))") auto

definition find_cd :: "zip_archive \<Rightarrow> (int \<times> zip_archive) option" where
  "find_cd archive =
     (if unat (za_size archive) \<le> 22 then Some (- EINVAL, archive)
      else
        let offset = uint (za_size archive) - 22;
            limit = offset - 2 ^ 16
        in find_cd_loop archive offset limit (- EINVAL))"

text \<open>
  Opening: the descriptor (or minus the error number), the size that \<^verbatim>\<open>lseek\<close> gives, the mapping (or the error number)
  and the success of \<^verbatim>\<open>malloc\<close> are the environment. An error pointer is \<open>Inl\<close>.
\<close>

record zip_env =
  ze_fd :: int
  ze_size :: int
  ze_mmap :: "int + mem"
  ze_malloc_ok :: bool

definition zip_archive_open :: "zip_env \<Rightarrow> (int + zip_archive) option" where
  "zip_archive_open env =
     (if ze_fd env < 0 then Some (Inl (ze_fd env))
      else if ze_size env = -1 \<or> ze_size env > 2 ^ 32 - 1 then Some (Inl (- EINVAL))
      else case ze_mmap env of
        Inl e \<Rightarrow> Some (Inl (- e))
      | Inr d \<Rightarrow>
          if \<not> ze_malloc_ok env then Some (Inl (- ENOMEM))
          else do {
            (err, archive) \<leftarrow> find_cd \<lparr>za_data = d, za_size = word_of_int (ze_size env), za_cd_offset = 0, za_cd_records = 0\<rparr>;
            Some (if err \<noteq> 0 then Inl err else Inr archive)
          })"

definition local_file_header_at_offset :: "zip_archive \<Rightarrow> u32 \<Rightarrow> local_file_header option option" where
  "local_file_header_at_offset archive offset =
     (case check_access archive offset 30 of
        None \<Rightarrow> Some None
      | Some p \<Rightarrow> do {
          lfh \<leftarrow> ld_lfh (za_data archive) p;
          Some (if lf_magic lfh \<noteq> LOCAL_FILE_HEADER_MAGIC then None else Some lfh)
        })"

definition get_entry_at_offset :: "zip_archive \<Rightarrow> u32 \<Rightarrow> (int + zip_entry) option" where
  "get_entry_at_offset archive offset =
     do {
       lfh' \<leftarrow> local_file_header_at_offset archive offset;
       case lfh' of
         None \<Rightarrow> Some (Inl (- EINVAL))
       | Some lfh \<Rightarrow>
           let offset1 = offset + 30;
               offset2 = offset1 + ucast (lf_file_name_length lfh);
               offset3 = offset2 + ucast (lf_extra_field_length lfh)
           in if lf_flags lfh AND FLAG_ENCRYPTED \<noteq> 0 \<or> lf_flags lfh AND FLAG_HAS_DATA_DESCRIPTOR \<noteq> 0
              then Some (Inl (- EINVAL))
              else case check_access archive offset1 (ucast (lf_file_name_length lfh)) of
                None \<Rightarrow> Some (Inl (- EINVAL))
              | Some name \<Rightarrow>
                  if check_access archive offset2 (ucast (lf_extra_field_length lfh)) = None then Some (Inl (- EINVAL))
                  else case check_access archive offset3 (lf_compressed_size lfh) of
                    None \<Rightarrow> Some (Inl (- EINVAL))
                  | Some d \<Rightarrow> Some (Inr
                      \<lparr>ze_compression = lf_compression lfh, ze_name = name, ze_name_length = lf_file_name_length lfh,
                       ze_data = d, ze_data_length = lf_compressed_size lfh, ze_data_offset = offset3\<rparr>)
     }"

text \<open>The loop over the directory, with the number of records left. The file name is a byte string without its NUL.\<close>

fun find_entry_loop :: "zip_archive \<Rightarrow> mem \<Rightarrow> nat \<Rightarrow> u32 \<Rightarrow> (int + zip_entry) option" where
  "find_entry_loop archive file_name 0 offset = Some (Inl (- ENOENT))"
| "find_entry_loop archive file_name (Suc n) offset =
     (case check_access archive offset 46 of
        None \<Rightarrow> Some (Inl (- EINVAL))
      | Some p \<Rightarrow> do {
          cdfh \<leftarrow> ld_cdfh (za_data archive) p;
          if cf_magic cdfh \<noteq> CD_FILE_HEADER_MAGIC then Some (Inl (- EINVAL))
          else
            let offset1 = offset + 46;
                nl = cf_file_name_length cdfh
            in case check_access archive offset1 (ucast nl) of
              None \<Rightarrow> Some (Inl (- EINVAL))
            | Some q \<Rightarrow> do {
                same \<leftarrow>
                  (if cf_flags cdfh AND FLAG_ENCRYPTED = 0 \<and> cf_flags cdfh AND FLAG_HAS_DATA_DESCRIPTOR = 0 \<and>
                      length file_name = unat nl
                   then do { b \<leftarrow> ldn (za_data archive) (unat offset1) (length file_name); Some (b = file_name) }
                   else Some False);
                if same then get_entry_at_offset archive (cf_offset cdfh)
                else find_entry_loop archive file_name n
                  (offset1 + ucast nl + ucast (cf_extra_field_length cdfh) + ucast (cf_file_comment_length cdfh))
              }
        })"

definition zip_archive_find_entry :: "zip_archive \<Rightarrow> mem \<Rightarrow> (int + zip_entry) option" where
  "zip_archive_find_entry archive file_name =
     find_entry_loop archive file_name (unat (za_cd_records archive)) (za_cd_offset archive)"

section \<open>Accesses stay inside\<close>

lemma word_no_wrap:
  fixes a b :: u32
  assumes "\<not> a > a + b"
  shows "unat (a + b) = unat a + unat b"
proof (rule ccontr)
  assume "unat (a + b) \<noteq> unat a + unat b"
  then have "2 ^ 32 \<le> unat a + unat b" using word_add_lt [of a b] by force
  then have "unat (a + b) < unat a"
    using unsigned_less [where ?'a = nat, of b] unsigned_less [where ?'a = nat, of a]
    by (auto simp: unat_word_ariths mod_if)
  then show False using assms by (simp add: word_less_nat_alt)
qed

lemma check_access_bounds:
  "check_access a off n = Some p \<Longrightarrow> p = unat off \<and> unat off + unat n \<le> unat (za_size a) \<and> unat (off + n) = unat off + unat n"
  using word_no_wrap [of off n] by (auto simp: check_access_def word_le_nat_alt not_less split: if_splits)

definition zip_wf :: "zip_archive \<Rightarrow> bool" where
  "zip_wf a \<longleftrightarrow> length (za_data a) = unat (za_size a)"

lemma ld_struct:
  "p + 22 \<le> length m \<Longrightarrow> \<exists>r. ld_eocd m p = Some r"
  "p + 46 \<le> length m \<Longrightarrow> \<exists>r. ld_cdfh m p = Some r"
  "p + 30 \<le> length m \<Longrightarrow> \<exists>r. ld_lfh m p = Some r"
  by (simp_all add: ld_eocd_def ld_cdfh_def ld_lfh_def ld16_def ld32_def)

lemma try_parse_total:
  assumes "zip_wf a"
  shows "\<exists>rc a'. try_parse_end_of_cd a off = Some (rc, a') \<and> rc \<in> {0, - EINVAL, - ENOTSUP} \<and> zip_wf a' \<and> za_data a' = za_data a"
proof (cases "check_access a off 22")
  case (Some p)
  then have "p + 22 \<le> length (za_data a)" using check_access_bounds [OF Some] assms by (simp add: zip_wf_def)
  then obtain e where "ld_eocd (za_data a) p = Some e" using ld_struct(1) by blast
  then show ?thesis using Some assms by (auto simp: try_parse_end_of_cd_def zip_wf_def)
qed (use assms in \<open>simp add: try_parse_end_of_cd_def\<close>)

lemma find_cd_loop_total:
  "zip_wf a \<Longrightarrow> rc \<in> {0, - EINVAL, - ENOTSUP} \<Longrightarrow>
     \<exists>rc' a'. find_cd_loop a off limit rc = Some (rc', a') \<and> rc' \<in> {0, - EINVAL, - ENOTSUP} \<and> zip_wf a' \<and> za_data a' = za_data a"
proof (induction a off limit rc rule: find_cd_loop.induct)
  case (1 a off limit rc)
  show ?case
  proof (cases "off \<ge> 0 \<and> off > limit \<and> rc \<noteq> 0")
    case True
    obtain rc1 a1 where t: "try_parse_end_of_cd a (word_of_int off) = Some (rc1, a1)" "rc1 \<in> {0, - EINVAL, - ENOTSUP}" "zip_wf a1"
      "za_data a1 = za_data a"
      using try_parse_total [OF 1(2)] by blast
    then show ?thesis
      using 1(1) [OF True t(1)] True by (subst find_cd_loop.simps) (auto simp: t)
  next
    case False
    then show ?thesis using 1(2,3) by (subst find_cd_loop.simps) (auto simp only: if_False refl)
  qed
qed

declare find_cd_loop.simps [simp del]

lemma find_cd_total:
  assumes "zip_wf a"
  shows "\<exists>rc a'. find_cd a = Some (rc, a') \<and> rc \<in> {0, - EINVAL, - ENOTSUP} \<and> zip_wf a' \<and> za_data a' = za_data a"
proof (cases "unat (za_size a) \<le> 22")
  case False
  then show ?thesis unfolding find_cd_def Let_def using find_cd_loop_total [OF assms, of "- EINVAL"] by simp
qed (use assms in \<open>simp add: find_cd_def\<close>)

definition entry_in_archive :: "zip_archive \<Rightarrow> int + zip_entry \<Rightarrow> bool" where
  "entry_in_archive a r \<longleftrightarrow>
    (case r of Inl e \<Rightarrow> e \<in> {- EINVAL, - ENOENT}
     | Inr e \<Rightarrow> ze_name e + unat (ze_name_length e) \<le> ze_data e \<and> ze_data e = unat (ze_data_offset e) \<and>
         ze_data e + unat (ze_data_length e) \<le> length (za_data a))"

lemma get_entry_safe:
  assumes wf: "zip_wf a"
  shows "\<exists>r. get_entry_at_offset a off = Some r \<and> entry_in_archive a r"
proof (cases "check_access a off 30")
  case None
  then show ?thesis by (simp add: get_entry_at_offset_def local_file_header_at_offset_def entry_in_archive_def)
next
  case (Some p)
  have p: "p + 30 \<le> length (za_data a)" "p = unat off" "unat (off + 30) = unat off + 30"
    using check_access_bounds [OF Some] wf by (simp_all add: zip_wf_def)
  then obtain l where l: "ld_lfh (za_data a) p = Some l" using ld_struct(3) by blast
  show ?thesis
    using wf l Some
    by (auto simp: get_entry_at_offset_def local_file_header_at_offset_def Let_def zip_wf_def
        entry_in_archive_def
        dest!: check_access_bounds split: option.splits)
qed

lemma find_entry_loop_safe:
  assumes wf: "zip_wf a"
  shows "\<exists>r. find_entry_loop a name n off = Some r \<and> entry_in_archive a r"
proof (induction n arbitrary: off)
  case (Suc n)
  show ?case
  proof (cases "check_access a off 46")
    case (Some p)
    have "p + 46 \<le> length (za_data a)" using check_access_bounds [OF Some] wf by (simp add: zip_wf_def)
    then obtain h where h: "ld_cdfh (za_data a) p = Some h" using ld_struct(2) by blast
    show ?thesis
    proof (cases "check_access a (off + 46) (ucast (cf_file_name_length h))")
      case q: (Some q)
      have "unat (off + 46) + unat (cf_file_name_length h) \<le> length (za_data a)"
        using check_access_bounds [OF q] wf by (simp add: zip_wf_def)
      then have "length name = unat (cf_file_name_length h) \<Longrightarrow> \<exists>b. ldn (za_data a) (unat (off + 46)) (length name) = Some b"
        by (simp add: ldn_def)
      then show ?thesis
        using Some h q Suc.IH get_entry_safe [OF wf, of "cf_offset h"]
        by (auto simp: Let_def entry_in_archive_def [of a "Inl _"])
    qed (use Some h in \<open>simp add: Let_def entry_in_archive_def\<close>)
  qed (simp add: entry_in_archive_def)
qed (simp add: entry_in_archive_def)


text \<open>The scan finds the last record and no other.\<close>

lemma try_parse_cases:
  "try_parse_end_of_cd a off = None \<or> (\<exists>a'. try_parse_end_of_cd a off = Some (0, a')) \<or>
     try_parse_end_of_cd a off = Some (- EINVAL, a) \<or> try_parse_end_of_cd a off = Some (- ENOTSUP, a)"
proof (cases "check_access a off 22")
  case (Some p)
  then show ?thesis by (cases "ld_eocd (za_data a) p") (simp_all add: try_parse_end_of_cd_def)
qed (simp add: try_parse_end_of_cd_def)

definition last_record :: "zip_archive \<Rightarrow> zip_archive \<Rightarrow> int \<Rightarrow> int \<Rightarrow> int \<Rightarrow> bool" where
  "last_record a a' limit off p \<longleftrightarrow>
     0 \<le> p \<and> limit < p \<and> p \<le> off \<and> try_parse_end_of_cd a (word_of_int p) = Some (0, a') \<and>
     (\<forall>q. p < q \<and> q \<le> off \<longrightarrow> try_parse_end_of_cd a (word_of_int q) = Some (- EINVAL, a))"

lemma find_cd_loop_iff:
  "find_cd_loop a off limit (- EINVAL) = Some (0, a') \<longleftrightarrow> (\<exists>p. last_record a a' limit off p)"
proof (induction "nat (off + 1)" arbitrary: off)
  case 0
  then show ?case by (subst find_cd_loop.simps) (auto simp: EINVAL_def last_record_def)
next
  case (Suc n)
  show ?case
  proof (cases "off > limit")
    case False
    then show ?thesis by (subst find_cd_loop.simps) (auto simp: EINVAL_def last_record_def)
  next
    case True
    let ?t = "try_parse_end_of_cd a (word_of_int off)"
    have off: "0 \<le> off" using Suc(2) by linarith
    have loop: "find_cd_loop a off limit (- EINVAL) = do {
        (rc', archive') \<leftarrow> ?t;
        if rc' = - ENOTSUP then Some (rc', archive') else find_cd_loop archive' (off - 1) limit rc' }"
      using True off by (subst find_cd_loop.simps) (simp add: EINVAL_def)
    have IH: "find_cd_loop a (off - 1) limit (- EINVAL) = Some (0, a') \<longleftrightarrow> (\<exists>p. last_record a a' limit (off - 1) p)"
      using Suc by simp
    have here: "last_record a a' limit off off \<longleftrightarrow> ?t = Some (0, a')" using True off by (auto simp: last_record_def)
    have step: "(\<exists>p. last_record a a' limit off p) \<longleftrightarrow> ?t = Some (0, a') \<or> (?t = Some (- EINVAL, a) \<and> (\<exists>p. last_record a a' limit (off - 1) p))"
    proof -
      have "last_record a a' limit off p \<longleftrightarrow> ?t = Some (- EINVAL, a) \<and> last_record a a' limit (off - 1) p" if "p \<noteq> off" for p
        using that by (auto simp: zle_diff1_eq order_le_less last_record_def)
      moreover have "\<not> last_record a a' limit (off - 1) off" by (simp add: last_record_def)
      ultimately show ?thesis using here by metis
    qed
    have "?t = None \<or> (\<exists>a1. ?t = Some (0, a1)) \<or> ?t = Some (- EINVAL, a) \<or> ?t = Some (- ENOTSUP, a)"
      by (rule try_parse_cases)
    then show ?thesis
      unfolding loop step IH [symmetric]
      by (elim disjE exE) (auto simp: EINVAL_def ENOTSUP_def find_cd_loop.simps [of _ _ _ 0])
  qed
qed

definition zip_example :: "u8 list \<Rightarrow> mem" where
  "zip_example comment = [0x50, 0x4b, 0x05, 0x06] @ replicate 16 0 @ [word_of_nat (length comment), 0] @ comment"

section \<open>Properties\<close>

text \<open>
  C35: Opening an archive and looking up a file read inside the mapping only, however the bytes of the file look.
  An archive that was opened is on the mapped bytes, and a look-up of any name in it ends with an entry, \<^verbatim>\<open>-EINVAL\<close> or \<^verbatim>\<open>-ENOENT\<close>. The
  name and the data of an entry lie inside the archive, the data behind the name and at the reported offset.
\<close>

theorem zip_safe:
  assumes "ze_mmap env = Inr d" "int (length d) = ze_size env"
  shows "case zip_archive_open env of
      None \<Rightarrow> False
    | Some (Inl e) \<Rightarrow> e < 0
    | Some (Inr archive) \<Rightarrow> za_data archive = d \<and>
        (case zip_archive_find_entry archive file_name of
           None \<Rightarrow> False
         | Some (Inl e) \<Rightarrow> e \<in> {- EINVAL, - ENOENT}
         | Some (Inr e) \<Rightarrow> ze_name e + unat (ze_name_length e) \<le> ze_data e \<and> ze_data e = unat (ze_data_offset e) \<and>
             ze_data e + unat (ze_data_length e) \<le> length d)"
proof (cases "ze_fd env < 0 \<or> ze_size env > 2 ^ 32 - 1 \<or> \<not> ze_malloc_ok env")
  case True
  then show ?thesis using assms by (auto simp: zip_archive_open_def EINVAL_def ENOMEM_def)
next
  case False
  let ?a = "\<lparr>za_data = d, za_size = word_of_int (ze_size env), za_cd_offset = 0, za_cd_records = 0\<rparr>"
  have n: "length d < 2 ^ 32" and sz: "ze_size env = int (length d)" using False assms(2) by auto
  have "unat (word_of_int (int (length d)) :: u32) = length d"
    using n by (simp add: unsigned_of_nat take_bit_nat_eq_self)
  then have wf: "zip_wf ?a" by (simp add: zip_wf_def sz)
  obtain rc a' where f: "find_cd ?a = Some (rc, a')" "rc \<in> {0, - EINVAL, - ENOTSUP}" "zip_wf a'" "za_data a' = d"
    using find_cd_total [OF wf] by auto
  have o: "zip_archive_open env = Some (if rc \<noteq> 0 then Inl rc else Inr a')"
    using False f(1) assms by (simp add: zip_archive_open_def)
  obtain r where r: "zip_archive_find_entry a' file_name = Some r" "entry_in_archive a' r"
    using find_entry_loop_safe [OF f(3)] unfolding zip_archive_find_entry_def by blast
  show ?thesis
    using o f(2,4) r by (cases r) (auto simp: entry_in_archive_def EINVAL_def ENOTSUP_def)
qed

theorem zip_safe_witness:
  "case zip_archive_open \<lparr>ze_fd = 3, ze_size = 23, ze_mmap = Inr (zip_example [7]), ze_malloc_ok = True\<rparr> of
     None \<Rightarrow> False | Some (Inl e) \<Rightarrow> e < 0 | Some (Inr archive) \<Rightarrow> za_data archive = zip_example [7]"
proof -
  let ?env = "\<lparr>ze_fd = 3, ze_size = 23, ze_mmap = Inr (zip_example [7]), ze_malloc_ok = True\<rparr>"
  have "ze_mmap ?env = Inr (zip_example [7])" "int (length (zip_example [7])) = ze_size ?env"
    by (simp_all add: zip_example_def)
  moreover have "zip_archive_open ?env = Some (Inr \<lparr>za_data = zip_example [7], za_size = 23, za_cd_offset = 0, za_cd_records = 0\<rparr>)"
    by code_simp
  ultimately show ?thesis using zip_safe [of ?env "zip_example [7]" "[]"] by simp
qed

text \<open>
  Opening an archive takes the directory from the record nearest to
  the end of the file whose comment ends exactly at the end, among the last 64 KiB of positions, and gives up at a record
  of an unsupported kind. An archive of 22 bytes or less is refused, so a valid archive without entries and comment is refused too.
\<close>

theorem zip_find_cd_iff:
  "find_cd archive = Some (0, archive') \<longleftrightarrow>
     22 < unat (za_size archive) \<and>
     (\<exists>p. 0 \<le> p \<and> uint (za_size archive) - 22 - 65536 < p \<and> p \<le> uint (za_size archive) - 22 \<and>
       try_parse_end_of_cd archive (word_of_int p) = Some (0, archive') \<and>
       (\<forall>q. p < q \<and> q \<le> uint (za_size archive) - 22 \<longrightarrow>
          try_parse_end_of_cd archive (word_of_int q) = Some (- EINVAL, archive)))"
  using find_cd_loop_iff [of archive "uint (za_size archive) - 22" "uint (za_size archive) - 22 - 65536" archive']
  by (auto simp: find_cd_def Let_def EINVAL_def last_record_def)


theorem zip_find_cd_iff_witness:
  "let a = \<lparr>za_data = zip_example [7], za_size = 23, za_cd_offset = 5, za_cd_records = 5\<rparr>
   in \<exists>p. try_parse_end_of_cd a (word_of_int p) = Some (0, a\<lparr>za_cd_offset := 0, za_cd_records := 0\<rparr>)"
proof -
  let ?a = "\<lparr>za_data = zip_example [7], za_size = 23, za_cd_offset = 5, za_cd_records = 5\<rparr>"
  have "find_cd ?a = Some (0, ?a\<lparr>za_cd_offset := 0, za_cd_records := 0\<rparr>)" by code_simp
  then show ?thesis
    unfolding zip_find_cd_iff [of ?a "?a\<lparr>za_cd_offset := 0, za_cd_records := 0\<rparr>"] Let_def by blast
qed

end
