(* ===== verification/Nlattr.thy ===== *)
theory Nlattr
  imports Prelude
begin

text \<open>
  \<^verbatim>\<open>lib/libbpf/src/nlattr.c\<close> and \<^verbatim>\<open>nlattr.h\<close>: netlink attributes, which libbpf uses to attach an XDP
  program to a device. A message is a memory region and an attribute a pointer (offset) to its 4-byte header:
  length, then type, both little-endian. \<open>None\<close> is an access outside the region.
  The warning about a repeated attribute is left out.
\<close>

section \<open>Model\<close>

definition NLA_ALIGN :: "int \<Rightarrow> int" where "NLA_ALIGN len = (len + 4 - 1) AND NOT (4 - 1)"
definition NLA_HDRLEN :: int where "NLA_HDRLEN = 4"
definition NLA_F_NESTED :: u16 where "NLA_F_NESTED = 0x8000"
definition NLA_F_NET_BYTEORDER :: u16 where "NLA_F_NET_BYTEORDER = 0x4000"
definition NLA_TYPE_MASK :: u16 where "NLA_TYPE_MASK = NOT (NLA_F_NESTED OR NLA_F_NET_BYTEORDER)"
definition NLMSG_ALIGN :: "u32 \<Rightarrow> u32" where "NLMSG_ALIGN len = (len + 4 - 1) AND NOT (4 - 1)"

datatype nla_policy_type =
    LIBBPF_NLA_UNSPEC | LIBBPF_NLA_U8 | LIBBPF_NLA_U16 | LIBBPF_NLA_U32 | LIBBPF_NLA_U64
  | LIBBPF_NLA_STRING | LIBBPF_NLA_FLAG | LIBBPF_NLA_MSECS | LIBBPF_NLA_NESTED

text \<open>A policy whose type is none of the enumeration is \<open>None\<close>: it accepts everything.\<close>

record libbpf_nla_policy =
  pt_type :: "nla_policy_type option"
  pt_minlen :: u16
  pt_maxlen :: u16

fun nla_attr_minlen :: "nla_policy_type \<Rightarrow> u16" where
  "nla_attr_minlen LIBBPF_NLA_U8 = 1"
| "nla_attr_minlen LIBBPF_NLA_U16 = 2"
| "nla_attr_minlen LIBBPF_NLA_U32 = 4"
| "nla_attr_minlen LIBBPF_NLA_U64 = 8"
| "nla_attr_minlen LIBBPF_NLA_STRING = 1"
| "nla_attr_minlen _ = 0"

definition nla_next :: "mem \<Rightarrow> nat \<Rightarrow> int \<Rightarrow> (nat \<times> int) option" where
  "nla_next m nla remaining =
     do {
       l \<leftarrow> ld16 m nla;
       let totlen = NLA_ALIGN (uint l);
       Some (nla + nat totlen, remaining - totlen)
     }"

definition nla_ok :: "mem \<Rightarrow> nat \<Rightarrow> int \<Rightarrow> bool option" where
  "nla_ok m nla remaining =
     (if remaining \<ge> 4 then do { l \<leftarrow> ld16 m nla; Some (uint l \<ge> 4 \<and> uint l \<le> remaining) } else Some False)"

definition nla_type :: "mem \<Rightarrow> nat \<Rightarrow> int option" where
  "nla_type m nla = do { t \<leftarrow> ld16 m (nla + 2); Some (uint (t AND NLA_TYPE_MASK)) }"

definition libbpf_nla_data :: "nat \<Rightarrow> nat" where
  "libbpf_nla_data nla = nla + nat NLA_HDRLEN"

definition libbpf_nla_len :: "mem \<Rightarrow> nat \<Rightarrow> int option" where
  "libbpf_nla_len m nla = do { l \<leftarrow> ld16 m nla; Some (uint l - NLA_HDRLEN) }"

definition libbpf_nla_getattr_u8 :: "mem \<Rightarrow> nat \<Rightarrow> u8 option" where
  "libbpf_nla_getattr_u8 m nla = ld8 m (libbpf_nla_data nla)"

definition libbpf_nla_getattr_u16 :: "mem \<Rightarrow> nat \<Rightarrow> u16 option" where
  "libbpf_nla_getattr_u16 m nla = ld16 m (libbpf_nla_data nla)"

definition libbpf_nla_getattr_u32 :: "mem \<Rightarrow> nat \<Rightarrow> u32 option" where
  "libbpf_nla_getattr_u32 m nla = ld32 m (libbpf_nla_data nla)"

definition libbpf_nla_getattr_u64 :: "mem \<Rightarrow> nat \<Rightarrow> u64 option" where
  "libbpf_nla_getattr_u64 m nla = ld64 m (libbpf_nla_data nla)"

definition libbpf_nla_getattr_str :: "nat \<Rightarrow> nat" where
  "libbpf_nla_getattr_str nla = libbpf_nla_data nla"

text \<open>The payload length is compared with \<open>minlen\<close> as an unsigned and with \<open>maxlen\<close> as a signed number.\<close>

definition validate_nla :: "mem \<Rightarrow> nat \<Rightarrow> int \<Rightarrow> libbpf_nla_policy list \<Rightarrow> int option" where
  "validate_nla m nla maxtype policy =
     do {
       ty \<leftarrow> nla_type m nla;
       if ty < 0 \<or> ty > maxtype then Some 0
       else if length policy \<le> nat ty then None
       else
         let pt = policy ! nat ty in
         case pt_type pt of
           None \<Rightarrow> Some 0
         | Some pty \<Rightarrow> do {
             let minlen = (if pt_minlen pt \<noteq> 0 then pt_minlen pt
                           else if pty \<noteq> LIBBPF_NLA_UNSPEC then nla_attr_minlen pty else 0);
             len \<leftarrow> libbpf_nla_len m nla;
             if (word_of_int len :: u32) < ucast minlen then Some (-1)
             else if pt_maxlen pt \<noteq> 0 \<and> len > uint (pt_maxlen pt) then Some (-1)
             else if pty = LIBBPF_NLA_STRING then do {
               let last = int (libbpf_nla_data nla) + len - 1;
               c \<leftarrow> (if last < 0 then None else ld8 m (nat last));
               Some (if c \<noteq> 0 then -1 else 0)
             }
             else Some 0
           }
     }"

lemma nla_align_eq: "NLA_ALIGN len = 4 * ((len + 3) div 4)"
proof -
  have "(len + 3) AND NOT (mask 2) = push_bit 2 (drop_bit 2 (len + 3))"
    by (rule bit_eqI) (auto simp: bit_simps not_less, (metis add_2_eq_Suc le_add_diff_inverse)+)
  moreover have "len + 4 - 1 = len + 3" by simp
  ultimately show ?thesis
    by (simp only: NLA_ALIGN_def) (simp add: mask_eq_exp_minus_1 push_bit_eq_mult drop_bit_eq_div mult.commute)
qed

text \<open>The body of the loop of \<^verbatim>\<open>libbpf_nla_parse\<close>: \<open>Inl\<close> an error, \<open>Inr\<close> the index array. \<open>None\<close> as a policy is NULL.\<close>

definition parse_attr ::
  "mem \<Rightarrow> nat \<Rightarrow> int \<Rightarrow> libbpf_nla_policy list option \<Rightarrow> nat option list \<Rightarrow> (int + nat option list) option" where
  "parse_attr m nla maxtype policy tb =
     do {
       ty \<leftarrow> nla_type m nla;
       if ty > maxtype then Some (Inr tb)
       else do {
         err \<leftarrow> (case policy of None \<Rightarrow> Some 0 | Some p \<Rightarrow> validate_nla m nla maxtype p);
         if err < 0 then Some (Inl err)
         else if nat ty < length tb then Some (Inr (tb[nat ty := Some nla]))
         else None
       }
     }"

function nla_parse_loop ::
  "mem \<Rightarrow> nat \<Rightarrow> int \<Rightarrow> int \<Rightarrow> libbpf_nla_policy list option \<Rightarrow> nat option list \<Rightarrow> (int \<times> nat option list) option" where
  "nla_parse_loop m nla rem_len maxtype policy tb =
     do {
       ok \<leftarrow> nla_ok m nla rem_len;
       if \<not> ok then Some (0, tb)
       else do {
         r \<leftarrow> parse_attr m nla maxtype policy tb;
         case r of
           Inl err \<Rightarrow> Some (err, tb)
         | Inr tb' \<Rightarrow> do {
             (nla', rem') \<leftarrow> nla_next m nla rem_len;
             nla_parse_loop m nla' rem' maxtype policy tb'
           }
       }
     }"
  by pat_completeness auto
termination
proof (relation "measure (\<lambda>(_, _, r, _). nat r)", goal_cases)
  case (2 m nla r maxtype policy tb ok res tb' x nla' rem')
  then show ?case by (auto simp: nla_ok_def nla_next_def nla_align_eq bind_eq_Some_conv Let_def split: if_splits)
qed simp

definition libbpf_nla_parse ::
  "mem \<Rightarrow> int \<Rightarrow> nat \<Rightarrow> int \<Rightarrow> libbpf_nla_policy list option \<Rightarrow> (int \<times> nat option list) option" where
  "libbpf_nla_parse m maxtype head len policy =
     nla_parse_loop m head len maxtype policy (replicate (nat (maxtype + 1)) None)"

definition libbpf_nla_parse_nested ::
  "mem \<Rightarrow> int \<Rightarrow> nat \<Rightarrow> libbpf_nla_policy list option \<Rightarrow> (int \<times> nat option list) option" where
  "libbpf_nla_parse_nested m maxtype nla policy =
     do { len \<leftarrow> libbpf_nla_len m nla; libbpf_nla_parse m maxtype (libbpf_nla_data nla) len policy }"

text \<open>
  Building a request: \<^verbatim>\<open>struct libbpf_nla_req\<close> is the 16-byte message header, whose first field is the message length, a
  20-byte union and a buffer of 128 bytes.
\<close>

definition REQ_SIZE :: nat where "REQ_SIZE = 16 + 20 + 128"

definition req_tail :: "mem \<Rightarrow> nat option" where
  "req_tail req = do { n \<leftarrow> ld32 req 0; Some (unat (NLMSG_ALIGN n)) }"

definition nlattr_add :: "mem \<Rightarrow> u16 \<Rightarrow> mem option \<Rightarrow> int \<Rightarrow> (int \<times> mem) option" where
  "nlattr_add req ty data len =
     do {
       n \<leftarrow> ld32 req 0;
       if NLMSG_ALIGN n + word_of_int (NLA_ALIGN (NLA_HDRLEN + len)) > of_nat REQ_SIZE then Some (- EMSGSIZE, req)
       else if (data \<noteq> None) \<noteq> (len \<noteq> 0) then Some (- EINVAL, req)
       else do {
         nla \<leftarrow> req_tail req;
         r1 \<leftarrow> st16 req (nla + 2) ty;
         r2 \<leftarrow> st16 r1 nla (word_of_int (NLA_HDRLEN + len));
         r3 \<leftarrow> (case data of None \<Rightarrow> Some r2 | Some d \<Rightarrow> do { bs \<leftarrow> ldn d 0 (nat len); stn r2 (nla + 4) bs });
         l \<leftarrow> ld16 r3 nla;
         r4 \<leftarrow> st32 r3 0 (NLMSG_ALIGN n + word_of_int (NLA_ALIGN (uint l)));
         Some (0, r4)
       }
     }"

definition nlattr_begin_nested :: "mem \<Rightarrow> u16 \<Rightarrow> (nat option \<times> mem) option" where
  "nlattr_begin_nested req ty =
     do {
       tail \<leftarrow> req_tail req;
       (err, req') \<leftarrow> nlattr_add req (ty OR NLA_F_NESTED) None 0;
       Some (if err \<noteq> 0 then None else Some tail, req')
     }"

definition nlattr_end_nested :: "mem \<Rightarrow> nat \<Rightarrow> mem option" where
  "nlattr_end_nested req tail =
     do { t \<leftarrow> req_tail req; st16 req tail (word_of_int (int t - int tail)) }"

section \<open>Parsing stays inside the stream\<close>

declare nla_parse_loop.simps [simp del]

text \<open>What a pointer in the index array says: an attribute of that type lies completely between \<open>lo\<close> and \<open>hi\<close>.\<close>

definition attr_in :: "mem \<Rightarrow> nat \<Rightarrow> nat \<Rightarrow> nat \<Rightarrow> nat \<Rightarrow> bool" where
  "attr_in m lo hi t p \<longleftrightarrow>
     lo \<le> p \<and> (\<exists>l. ld16 m p = Some l \<and> 4 \<le> unat l \<and> p + unat l \<le> hi) \<and> nla_type m p = Some (int t)"

definition tb_ok :: "mem \<Rightarrow> nat \<Rightarrow> nat \<Rightarrow> nat option list \<Rightarrow> bool" where
  "tb_ok m lo hi tb \<longleftrightarrow> (\<forall>t<length tb. case tb ! t of None \<Rightarrow> True | Some p \<Rightarrow> attr_in m lo hi t p)"

lemma nla_type_total: "p + 4 \<le> length m \<Longrightarrow> \<exists>t. nla_type m p = Some (int t)"
  by (simp add: nla_type_def ld16_def) (metis nonneg_int_cases uint_nonnegative)

lemma u32_small: "0 \<le> n \<Longrightarrow> n < 65536 \<Longrightarrow> unat (word_of_int n :: u32) = nat n"
  by (simp add: unsigned_of_int take_bit_int_eq_self)

lemma validate_total:
  assumes l: "ld16 m p = Some l" "4 \<le> unat l" "p + unat l \<le> length m" and len: "nat maxtype < length policy"
  shows "\<exists>e. validate_nla m p maxtype policy = Some e \<and> e \<in> {0, -1}"
proof -
  obtain t where t: "nla_type m p = Some (int t)" using nla_type_total [of p m] l by auto
  define n where "n = unat l"
  have n: "uint l = int n" "4 \<le> n" "p + n \<le> length m" "n < 65536"
    using l(2,3) unat_lt_16 [of l] by (simp_all add: n_def)
  have u: "unat (word_of_int (int n - 4) :: u32) = n - 4"
    using u32_small [of "int n - 4"] n(2,4) by simp
  show ?thesis
  proof (cases "int t > maxtype \<or> pt_type (policy ! t) = None")
    case True
    then show ?thesis using t len by (auto simp: validate_nla_def Let_def)
  next
    case False
    then obtain pty where pty: "pt_type (policy ! t) = Some pty" by auto
    define mn where "mn = (if pt_minlen (policy ! t) \<noteq> 0 then pt_minlen (policy ! t)
        else if pty \<noteq> LIBBPF_NLA_UNSPEC then nla_attr_minlen pty else 0)"
    let ?w = "word_of_int (int n - 4) :: u32" and ?last = "int (libbpf_nla_data p) + (int n - 4) - 1"
    have tl: "\<not> length policy \<le> t" using False len by linarith
    have eq: "validate_nla m p maxtype policy =
        (if ?w < ucast mn then Some (-1)
         else if pt_maxlen (policy ! t) \<noteq> 0 \<and> int n - 4 > uint (pt_maxlen (policy ! t)) then Some (-1)
         else if pty = LIBBPF_NLA_STRING
         then do { c \<leftarrow> (if ?last < 0 then None else ld8 m (nat ?last)); Some (if c \<noteq> 0 then -1 else 0) }
         else Some 0)"
      using False t tl pty l(1) n(1)
      by (simp only: validate_nla_def mn_def libbpf_nla_len_def NLA_HDRLEN_def Let_def) simp
    show ?thesis
    proof (cases "pty = LIBBPF_NLA_STRING \<and> \<not> ?w < ucast mn")
      case True
      then have "mn \<noteq> 0" by (simp add: mn_def)
      then have "0 < unat mn" by (simp add: unat_gt_0)
      then have "4 < n" using True u by (simp only: word_less_nat_alt unat_ucast_16_32) linarith
      then have "\<not> ?last < 0" "\<exists>c. ld8 m (nat ?last) = Some c"
        using n(3) by (auto simp: libbpf_nla_data_def NLA_HDRLEN_def ld8_def)
      then show ?thesis unfolding eq by auto
    next
      case False
      then show ?thesis unfolding eq by auto
    qed
  qed
qed

lemma parse_attr_total:
  assumes l: "ld16 m p = Some l" "4 \<le> unat l" "p + unat l \<le> hi" "hi \<le> length m" "lo \<le> p"
    and len: "\<And>pol. policy = Some pol \<Longrightarrow> nat maxtype < length pol"
    and tb: "length tb = nat (maxtype + 1)" "tb_ok m lo hi tb"
  shows "\<exists>r. parse_attr m p maxtype policy tb = Some r \<and>
    (case r of Inl e \<Rightarrow> e = -1 | Inr tb' \<Rightarrow> length tb' = length tb \<and> tb_ok m lo hi tb')"
proof -
  obtain t where t: "nla_type m p = Some (int t)" using nla_type_total [of p m] l by auto
  obtain e where e: "(case policy of None \<Rightarrow> Some 0 | Some pol \<Rightarrow> validate_nla m p maxtype pol) = Some e" "e \<in> {0, -1}"
    using validate_total [of m p l maxtype] l len by (cases policy) auto
  have "tb_ok m lo hi (tb[t := Some p])" if "t < length tb"
    using tb(2) l t that by (auto simp: tb_ok_def attr_in_def nth_list_update)
  then show ?thesis using t e tb by (auto simp: parse_attr_def)
qed

lemma nla_ok_cases:
  assumes "int p + r = int hi" "hi \<le> length m"
  obtains "nla_ok m p r = Some False"
  | l where "nla_ok m p r = Some True" "ld16 m p = Some l" "4 \<le> unat l" "p + unat l \<le> hi"
      "nla_next m p r = Some (p + nat (NLA_ALIGN (uint l)), r - NLA_ALIGN (uint l))"
proof (cases "r \<ge> 4")
  case True
  then obtain l where l: "ld16 m p = Some l" using assms by (auto simp: ld16_def)
  show thesis
  proof (cases "uint l \<ge> 4 \<and> uint l \<le> r")
    case ok: True
    have "uint l = int (unat l)" by simp
    then have "4 \<le> unat l" "p + unat l \<le> hi" using ok assms(1) by linarith+
    then show thesis using that(2) [of l] l True ok by (simp add: nla_ok_def nla_next_def Let_def)
  qed (use that(1) l True in \<open>simp add: nla_ok_def\<close>)
qed (use that(1) in \<open>simp add: nla_ok_def\<close>)

lemma nla_parse_loop_safe:
  assumes "int p + r = int hi" "hi \<le> length m" "lo \<le> p"
    and "\<And>pol. policy = Some pol \<Longrightarrow> nat maxtype < length pol"
    and "length tb = nat (maxtype + 1)" "tb_ok m lo hi tb"
  shows "\<exists>e tb'. nla_parse_loop m p r maxtype policy tb = Some (e, tb') \<and> e \<in> {0, -1} \<and>
    length tb' = nat (maxtype + 1) \<and> tb_ok m lo hi tb'"
  using assms
proof (induction "nat r" arbitrary: p r tb rule: less_induct)
  case less
  show ?case
  proof (cases rule: nla_ok_cases [OF less(2,3)])
    case 1
    then show ?thesis using less by (subst nla_parse_loop.simps) simp
  next
    case (2 l)
    obtain res where res: "parse_attr m p maxtype policy tb = Some res"
      "case res of Inl e \<Rightarrow> e = -1 | Inr tb' \<Rightarrow> length tb' = length tb \<and> tb_ok m lo hi tb'"
      using parse_attr_total [OF 2(2-4) less(3,4,5,6,7)] by blast
    have al: "4 \<le> NLA_ALIGN (uint l)" "r \<ge> 4"
      using 2 less(2) by (auto simp: nla_align_eq nla_ok_def split: if_splits)
    show ?thesis
    proof (cases res)
      case (Inl e)
      then show ?thesis using 2 res less by (subst nla_parse_loop.simps) simp
    next
      case (Inr tb')
      have "\<exists>e tb''. nla_parse_loop m (p + nat (NLA_ALIGN (uint l))) (r - NLA_ALIGN (uint l)) maxtype policy tb' = Some (e, tb'') \<and>
          e \<in> {0, -1} \<and> length tb'' = nat (maxtype + 1) \<and> tb_ok m lo hi tb''"
        using al less res Inr by (intro less(1)) auto
      then show ?thesis using 2 res Inr by (subst nla_parse_loop.simps) simp
    qed
  qed
qed

section \<open>Properties\<close>

text \<open>
  C37: Parsing a stream of attributes reads inside the stream only, whatever lengths and types the attributes claim and whatever the
  policy is, provided the policy has an entry for every accepted type. It returns 0 or -1, and each
  pointer that it leaves in the index array is to an attribute of that type that lies completely inside the stream.
\<close>

theorem nla_parse_safe:
  assumes "head + nat len \<le> length m" "0 \<le> maxtype"
    and "case policy of None \<Rightarrow> True | Some pol \<Rightarrow> nat maxtype < length pol"
  shows "\<exists>e tb. libbpf_nla_parse m maxtype head len policy = Some (e, tb) \<and> e \<in> {0, -1} \<and>
    length tb = nat maxtype + 1 \<and> tb_ok m head (head + nat len) tb"
proof -
  have tb: "tb_ok m head (head + nat len) (replicate (nat (maxtype + 1)) None)" by (simp add: tb_ok_def)
  show ?thesis
  proof (cases "len < 0")
    case True
    then have "libbpf_nla_parse m maxtype head len policy = Some (0, replicate (nat (maxtype + 1)) None)"
      by (simp add: libbpf_nla_parse_def nla_parse_loop.simps [of _ _ len] nla_ok_def)
    then show ?thesis using tb assms(2) by (simp add: nat_add_distrib)
  next
    case False
    then show ?thesis
      using nla_parse_loop_safe [of head len "head + nat len" m head policy maxtype "replicate (nat (maxtype + 1)) None"] assms tb
      by (auto simp: libbpf_nla_parse_def nat_add_distrib split: option.splits)
  qed
qed

theorem nla_parse_safe_witness:
  "\<exists>e tb. libbpf_nla_parse [9, 0, 1, 0, 255] 2 0 5 None = Some (e, tb) \<and> tb_ok [9, 0, 1, 0, 255] 0 5 tb"
  using nla_parse_safe [of 0 5 "[9, 0, 1, 0, 255]" 2 None] by auto

section \<open>Round trip\<close>

definition attr_space :: "mem \<Rightarrow> nat" where
  "attr_space d = 4 * ((length d + 7) div 4)"

text \<open>The attributes \<open>xs\<close>, each a type and a payload, lie one behind the other from \<open>p\<close> to \<open>q\<close>.\<close>

fun attrs_at :: "mem \<Rightarrow> nat \<Rightarrow> (u16 \<times> mem) list \<Rightarrow> nat \<Rightarrow> bool" where
  "attrs_at m p [] q \<longleftrightarrow> q = p"
| "attrs_at m p ((t, d) # xs) q \<longleftrightarrow>
     length d + 4 < 65536 \<and> ld16 m p = Some (word_of_nat (length d + 4)) \<and> ld16 m (p + 2) = Some t \<and>
     ldn m (p + 4) (length d) = Some d \<and> attrs_at m (p + attr_space d) xs q"

lemma attr_space_ge: "length d + 4 \<le> attr_space d"
  by (simp add: attr_space_def)

lemma attrs_at_append:
  "attrs_at m p (xs @ ys) q \<longleftrightarrow> (\<exists>r. attrs_at m p xs r \<and> attrs_at m r ys q)"
  by (induction xs arbitrary: p) auto

lemma attrs_at_le: "attrs_at m p xs q \<Longrightarrow> p \<le> q"
proof (induction xs arbitrary: p)
  case (Cons x xs)
  then show ?case by (cases x) (force dest: add_leD1)
qed simp

lemma ldn_cong:
  "length m' = length m \<Longrightarrow> (\<And>j. i \<le> j \<Longrightarrow> j < i + n \<Longrightarrow> m' ! j = m ! j) \<Longrightarrow> ldn m' i n = ldn m i n"
  by (auto simp: ldn_def intro!: nth_equalityI)

lemma ld16_cong:
  "length m' = length m \<Longrightarrow> (\<And>j. i \<le> j \<Longrightarrow> j < i + 2 \<Longrightarrow> m' ! j = m ! j) \<Longrightarrow> ld16 m' i = ld16 m i"
  by (simp add: ld16_def)

lemma attrs_at_frame:
  "attrs_at m p xs q \<Longrightarrow> length m' = length m \<Longrightarrow> (\<And>j. p \<le> j \<Longrightarrow> j < q \<Longrightarrow> m' ! j = m ! j) \<Longrightarrow> attrs_at m' p xs q"
proof (induction xs arbitrary: p)
  case (Cons x xs)
  obtain t d where x: "x = (t, d)" by fastforce
  have rest: "attrs_at m (p + attr_space d) xs q" using Cons.prems(1) x by simp
  have q: "p + 4 + length d \<le> q" using attrs_at_le [OF rest] attr_space_ge [of d] by simp
  have "attrs_at m' (p + attr_space d) xs q"
    by (rule Cons.IH [OF rest Cons.prems(2)]) (use Cons.prems(3) in simp)
  moreover have "ld16 m' p = ld16 m p" "ld16 m' (p + 2) = ld16 m (p + 2)" "ldn m' (p + 4) (length d) = ldn m (p + 4) (length d)"
    using q Cons.prems(2,3) by (auto intro!: ld16_cong ldn_cong)
  ultimately show ?case using Cons.prems(1) x by simp
qed simp

lemma align_space: "NLA_ALIGN (NLA_HDRLEN + int (length d)) = int (attr_space d)"
  by (simp add: nla_align_eq NLA_HDRLEN_def attr_space_def zdiv_int add.commute)

lemma unat_drop_bit_u32: "unat (drop_bit k (w::u32)) = unat w div 2 ^ k"
proof -
  have "take_bit 32 (unat w) = unat w" using unsigned_less [where ?'a = nat, of w] by (intro take_bit_nat_eq_self) simp
  then show ?thesis by (simp add: unsigned_drop_bit_eq) (simp add: drop_bit_eq_div)
qed

lemma nlmsg_align_eq:
  assumes "unat n + 3 < 2 ^ 32"
  shows "unat (NLMSG_ALIGN n) = 4 * ((unat n + 3) div 4)"
proof -
  have "(n + 3) AND NOT (mask 2) = push_bit 2 (drop_bit 2 (n + 3))"
    by (rule bit_eqI) (auto simp: bit_simps not_less, (metis add_2_eq_Suc le_add_diff_inverse)+)
  moreover have "n + 4 - 1 = n + 3" by simp
  ultimately have a: "NLMSG_ALIGN n = push_bit 2 (drop_bit 2 (n + 3))"
    by (simp only: NLMSG_ALIGN_def) (simp add: mask_eq_exp_minus_1)
  have "unat (n + 3) = unat n + 3" using word_add_lt [of n 3] assms by simp
  then have d: "unat (drop_bit 2 (n + 3)) = (unat n + 3) div 4" by (simp add: unat_drop_bit_u32)
  have "unat (push_bit 2 (drop_bit 2 (n + 3))) = 4 * unat (drop_bit 2 (n + 3))"
    using assms d by (simp add: push_bit_eq_mult unat_word_ariths)
  then show ?thesis using a d by simp
qed

lemma msg_align: "4 dvd unat n \<Longrightarrow> unat n + 3 < 2 ^ 32 \<Longrightarrow> unat (NLMSG_ALIGN n) = unat n"
  by (auto simp: nlmsg_align_eq elim!: dvdE)


lemma ld_patch_same:
  "i + 2 \<le> length m \<Longrightarrow> ld16 (patch m i (le16_bytes w)) i = Some w"
  "i + 4 \<le> length m \<Longrightarrow> ld32 (patch m i (le32_bytes v)) i = Some v"
  by (simp_all add: ld16_def ld32_def nth_patch le16_bytes_def le32_bytes_def le16_split le32_split)

lemma attr_written:
  fixes m d :: mem and n :: nat and t :: u16 and v :: u32
  assumes n: "n + attr_space d \<le> length m" "4 \<le> n" and d: "length d + 4 < 65536"
  defines "m1 \<equiv> patch m (n + 2) (le16_bytes t)"
  defines "m2 \<equiv> patch m1 n (le16_bytes (word_of_nat (length d + 4)))"
  defines "m3 \<equiv> patch m2 (n + 4) d"
  defines "m4 \<equiv> patch m3 0 (le32_bytes v)"
  shows "length m4 = length m" "ld16 m3 n = Some (word_of_nat (length d + 4))" "ld32 m4 0 = Some v"
    "attrs_at m4 n [(t, d)] (n + attr_space d)" "\<And>j. 4 \<le> j \<Longrightarrow> j < n \<Longrightarrow> m4 ! j = m ! j"
proof -
  have s: "n + 4 + length d \<le> length m" using n(1) attr_space_ge [of d] by simp
  have len: "length m1 = length m" "length m2 = length m" "length m3 = length m" "length m4 = length m"
    using s n(2) by (simp_all add: m1_def m2_def m3_def m4_def)
  show "length m4 = length m" by (rule len)
  have nth: "m4 ! j = (if j < 4 then le32_bytes v ! j else if n + 4 \<le> j \<and> j < n + 4 + length d then d ! (j - (n + 4))
      else if n \<le> j \<and> j < n + 2 then le16_bytes (word_of_nat (length d + 4)) ! (j - n)
      else if n + 2 \<le> j \<and> j < n + 4 then le16_bytes t ! (j - (n + 2)) else m ! j)" if "j < length m" for j
    using that s len n(2) unfolding m4_def m3_def m2_def m1_def by (auto simp: nth_patch)
  show "ld32 m4 0 = Some v" using s n(2) len(3) by (simp add: m4_def ld_patch_same)
  show "\<And>j. 4 \<le> j \<Longrightarrow> j < n \<Longrightarrow> m4 ! j = m ! j" using s by (simp add: nth)
  have "ld16 m3 n = ld16 m2 n"
    using s len by (intro ld16_cong) (simp_all add: m3_def nth_patch)
  also have "\<dots> = Some (word_of_nat (length d + 4))" using s len by (simp add: m2_def ld_patch_same)
  finally show l3: "ld16 m3 n = Some (word_of_nat (length d + 4))" .
  have "ld16 m4 n = ld16 m3 n" using s n(2) len by (intro ld16_cong) (simp_all add: m4_def nth_patch)
  moreover have "ld16 m4 (n + 2) = ld16 m1 (n + 2)"
    using s n(2) len unfolding m4_def m3_def m2_def by (intro ld16_cong) (simp_all add: nth_patch)
  moreover have "ld16 m1 (n + 2) = Some t" using s by (simp add: m1_def ld_patch_same)
  moreover have "ldn m4 (n + 4) (length d) = Some d"
    using s n(2) len(4) by (auto simp: ldn_def nth intro!: nth_equalityI)
  ultimately show "attrs_at m4 n [(t, d)] (n + attr_space d)" using l3 d by simp
qed

lemma u16_of_nat: "k < 65536 \<Longrightarrow> unat (word_of_nat k :: u16) = k"
  by (simp only: unsigned_of_nat) (simp add: take_bit_nat_eq_self)

definition req_holds :: "mem \<Rightarrow> nat \<Rightarrow> (u16 \<times> mem) list \<Rightarrow> bool" where
  "req_holds req base xs \<longleftrightarrow>
     length req = REQ_SIZE \<and> 4 \<le> base \<and>
     (\<exists>n. ld32 req 0 = Some n \<and> 4 dvd unat n \<and> unat n \<le> REQ_SIZE \<and> attrs_at req base xs (unat n))"

text \<open>A call of \<^verbatim>\<open>nlattr_add\<close> with a payload, NULL for the empty one.\<close>

definition add_attr :: "mem \<Rightarrow> u16 \<times> mem \<Rightarrow> (int \<times> mem) option" where
  "add_attr req x = nlattr_add req (fst x) (if snd x = [] then None else Some (snd x)) (int (length (snd x)))"

lemma add_attr_result:
  assumes req: "req_holds req base xs" and d: "length d < 2 ^ 31 - 8"
  shows "\<exists>e req'. add_attr req (t, d) = Some (e, req') \<and>
    (e = - EMSGSIZE \<and> req' = req \<or> e = 0 \<and> req_holds req' base (xs @ [(t, d)]))"
proof -
  obtain n where len: "length req = 164" and base: "4 \<le> base" and n: "ld32 req 0 = Some n" "4 dvd unat n" "unat n \<le> 164"
    "attrs_at req base xs (unat n)"
    using req by (auto simp: req_holds_def REQ_SIZE_def)
  have al: "NLMSG_ALIGN n = n" using msg_align [of n] n(2,3) by (simp add: word_unat_eq_iff)
  have sp: "attr_space d < 2 ^ 31" using d by (simp add: attr_space_def)
  have wd: "word_of_int (NLA_ALIGN (NLA_HDRLEN + int (length d))) = (of_nat (attr_space d) :: u32)"
    by (simp add: align_space)
  have un: "unat (of_nat (attr_space d) :: u32) = attr_space d"
    using sp by (simp add: unsigned_of_nat take_bit_nat_eq_self)
  have sum: "unat (n + of_nat (attr_space d)) = unat n + attr_space d"
    using word_add_lt [of n "of_nat (attr_space d)"] un n(3) sp by simp
  have guard: "of_nat REQ_SIZE < n + of_nat (attr_space d) \<longleftrightarrow> 164 < unat n + attr_space d"
    by (simp only: word_less_nat_alt sum) (simp add: REQ_SIZE_def)
  show ?thesis
  proof (cases "164 < unat n + attr_space d")
    case True
    then show ?thesis
      unfolding add_attr_def nlattr_add_def fst_conv snd_conv n(1) Option.bind.simps al wd guard by simp
  next
    case False
    have fits: "unat n + attr_space d \<le> length req" "4 \<le> unat n" and d16: "length d + 4 < 65536"
      using False len base attrs_at_le [OF n(4)] attr_space_ge [of d] by auto
    let ?v = "n + of_nat (attr_space d)"
    note W = attr_written(1,3,4,5) [OF fits d16, where t = t and v = ?v] attr_written(2) [OF fits d16, where t = t]
    let ?r2 = "patch (patch req (unat n + 2) (le16_bytes t)) (unat n) (le16_bytes (word_of_nat (length d + 4)))"
    let ?r3 = "patch ?r2 (unat n + 4) d" and ?r4 = "patch (patch ?r2 (unat n + 4) d) 0 (le32_bytes ?v)"
    have b: "unat n + 4 + length d \<le> length req" using fits(1) attr_space_ge [of d] by simp
    have nl: "word_of_int (NLA_HDRLEN + int (length d)) = (word_of_nat (length d + 4) :: u16)"
      by (simp add: NLA_HDRLEN_def)
    have l16: "uint (word_of_nat (length d + 4) :: u16) = NLA_HDRLEN + int (length d)"
      using d16 u16_of_nat [of "length d + 4"] by (simp add: uint_nat NLA_HDRLEN_def)
    have r3: "(case (if d = [] then None else Some d) of None \<Rightarrow> Some ?r2
        | Some d' \<Rightarrow> do { bs \<leftarrow> ldn d' 0 (nat (int (length d))); stn ?r2 (unat n + 4) bs }) = Some ?r3"
      using b by (auto simp: ldn_def stn_def patch_def)
    have st: "st16 req (unat n + 2) t = Some (patch req (unat n + 2) (le16_bytes t))"
      "st16 (patch req (unat n + 2) (le16_bytes t)) (unat n) (word_of_nat (length d + 4)) = Some ?r2"
      "st32 ?r3 0 ?v = Some ?r4"
      using b by (simp_all add: mem_simps)
    have "add_attr req (t, d) = Some (0, ?r4)"
      unfolding add_attr_def nlattr_add_def fst_conv snd_conv req_tail_def n(1) Option.bind.simps guard al nl st(1,2) r3 W(5)
        l16 wd st(3) Let_def
      using False by simp
    moreover have "req_holds ?r4 base (xs @ [(t, d)])"
    proof -
      have "attrs_at ?r4 base xs (unat n)"
        by (rule attrs_at_frame [OF n(4)]) (use W(1,4) base in auto)
      then have "attrs_at ?r4 base (xs @ [(t, d)]) (unat n + attr_space d)"
        using W(3) by (auto simp: attrs_at_append)
      moreover have "4 dvd unat n + attr_space d" using n(2) by (simp add: attr_space_def)
      ultimately show ?thesis
        using W(1,2) len base False sum unfolding req_holds_def REQ_SIZE_def by (intro conjI exI [of _ ?v]) simp_all
    qed
    ultimately show ?thesis by blast
  qed
qed


fun add_attrs :: "mem \<Rightarrow> (u16 \<times> mem) list \<Rightarrow> (int \<times> mem) option" where
  "add_attrs req [] = Some (0, req)"
| "add_attrs req (x # xs) =
     do {
       (e, req') \<leftarrow> add_attr req x;
       if e \<noteq> 0 then Some (e, req') else add_attrs req' xs
     }"

lemma add_attrs_result:
  assumes "req_holds req base xs" "\<And>x. x \<in> set ys \<Longrightarrow> length (snd x) < 2 ^ 31 - 8"
  shows "\<exists>e req'. add_attrs req ys = Some (e, req') \<and> (e = - EMSGSIZE \<or> e = 0 \<and> req_holds req' base (xs @ ys))"
  using assms
proof (induction ys arbitrary: req xs)
  case (Cons y ys)
  obtain t d where y: "y = (t, d)" by fastforce
  have d: "length d < 2 ^ 31 - 8" using Cons.prems(2) [of y] y by simp
  obtain e req1 where add: "add_attr req (t, d) = Some (e, req1)"
    "e = - EMSGSIZE \<and> req1 = req \<or> e = 0 \<and> req_holds req1 base (xs @ [(t, d)])"
    using add_attr_result [OF Cons.prems(1) d, of t] by blast
  have IH: "\<exists>e req'. add_attrs req1 ys = Some (e, req') \<and> (e = - EMSGSIZE \<or> e = 0 \<and> req_holds req' base ((xs @ [(t, d)]) @ ys))"
    if "e = 0"
    using Cons.IH [of req1 "xs @ [(t, d)]"] add(2) that Cons.prems(2) by (auto simp: EMSGSIZE_def)
  show ?case
  proof (cases "e = 0")
    case True
    then show ?thesis using IH add(1) y by auto
  next
    case False
    then show ?thesis using add y by auto
  qed
qed auto

text \<open>The type a parser sees, and the payload it gives for a type: the last one.\<close>

definition seen_type :: "u16 \<Rightarrow> nat" where
  "seen_type t = unat (t AND NLA_TYPE_MASK)"

definition payload :: "(u16 \<times> mem) list \<Rightarrow> nat \<Rightarrow> mem option" where
  "payload xs t = map_of (rev (map (\<lambda>(t, d). (seen_type t, d)) xs)) t"

definition tb_holds :: "mem \<Rightarrow> nat option list \<Rightarrow> (nat \<Rightarrow> mem option) \<Rightarrow> bool" where
  "tb_holds m tb f \<longleftrightarrow> (\<forall>t<length tb. case tb ! t of
     None \<Rightarrow> f t = None
   | Some p \<Rightarrow> \<exists>d. f t = Some d \<and> libbpf_nla_len m p = Some (int (length d)) \<and> ldn m (libbpf_nla_data p) (length d) = Some d)"

lemma parse_attrs:
  assumes "attrs_at m p xs q" "q \<le> length m" "\<And>x. x \<in> set xs \<Longrightarrow> int (seen_type (fst x)) \<le> maxtype"
    and "length tb = nat (maxtype + 1)" "tb_holds m tb f"
  shows "\<exists>tb'. nla_parse_loop m p (int q - int p) maxtype None tb = Some (0, tb') \<and>
    length tb' = length tb \<and> tb_holds m tb' (f ++ payload xs)"
  using assms
proof (induction xs arbitrary: p tb f)
  case Nil
  have "payload [] = Map.empty" by (simp add: payload_def fun_eq_iff)
  then show ?case using Nil by (subst nla_parse_loop.simps) (auto simp: nla_ok_def)
next
  case (Cons x xs)
  obtain t d where x: "x = (t, d)" by fastforce
  have A: "length d + 4 < 65536" "ld16 m p = Some (word_of_nat (length d + 4))" "ld16 m (p + 2) = Some t"
    "ldn m (p + 4) (length d) = Some d" "attrs_at m (p + attr_space d) xs q"
    using Cons.prems(1) x by simp_all
  define lw where "lw = (word_of_nat (length d + 4) :: u16)"
  have "unat lw = length d + 4" unfolding lw_def by (rule u16_of_nat [OF A(1)])
  moreover have "uint lw = int (unat lw)" by simp
  ultimately have lw: "ld16 m p = Some lw" "uint lw = int (length d) + 4" using A(2) by (simp_all add: lw_def)
  have q: "p + attr_space d \<le> q" by (rule attrs_at_le [OF A(5)])
  have al: "NLA_ALIGN (int (length d) + 4) = int (attr_space d)"
    using align_space [of d] by (simp add: NLA_HDRLEN_def add.commute)
  have ok: "nla_ok m p (int q - int p) = Some True"
    using q attr_space_ge [of d] by (simp add: nla_ok_def lw)
  have nx: "nla_next m p (int q - int p) = Some (p + attr_space d, int q - int (p + attr_space d))"
    by (simp add: nla_next_def lw al Let_def)
  let ?t = "seen_type t" and ?tb = "tb[seen_type t := Some p]"
  have ty: "nla_type m p = Some (int ?t)" unfolding nla_type_def A(3) by (simp add: seen_type_def)
  have tl: "int ?t \<le> maxtype" "?t < length tb" using Cons.prems(3) [of x] Cons.prems(4) x by auto
  have pa: "parse_attr m p maxtype None tb = Some (Inr ?tb)" using ty tl by (simp add: parse_attr_def)
  define g where "g = f(?t \<mapsto> d)"
  have "tb_holds m ?tb g"
    unfolding g_def using Cons.prems(5) tl A(4) lw
    by (auto simp: tb_holds_def nth_list_update libbpf_nla_len_def libbpf_nla_data_def NLA_HDRLEN_def split: option.splits)
  from Cons.IH [OF A(5) Cons.prems(2) _ _ this]
  obtain tb' where tb': "nla_parse_loop m (p + attr_space d) (int q - int (p + attr_space d)) maxtype None ?tb = Some (0, tb')"
    "length tb' = length tb" "tb_holds m tb' (g ++ payload xs)"
    using Cons.prems(3,4) by auto
  moreover have "g ++ payload xs = f ++ payload (x # xs)"
    by (simp add: g_def payload_def x map_add_def fun_eq_iff split: option.splits)
  moreover have "nla_parse_loop m p (int q - int p) maxtype None tb = Some (0, tb')"
    using ok nx pa tb'(1) by (subst nla_parse_loop.simps) simp
  ultimately show ?case by auto
qed

section \<open>Round-trip property\<close>

text \<open>
  C36: What \<^verbatim>\<open>nlattr_add\<close> writes, \<^verbatim>\<open>libbpf_nla_parse\<close> reads back. Adding any attributes to a request either reports that they do not
  fit, or gives a request in which the parser finds, under the type of each attribute, the length and the bytes of
  the last attribute of that type and nothing else.
\<close>

theorem nlattr_roundtrip:
  assumes "length req = REQ_SIZE" "ld32 req 0 = Some n" "4 dvd unat n" "4 \<le> unat n" "unat n \<le> REQ_SIZE"
    and "list_all (\<lambda>(t, d). length d < 2 ^ 31 - 8 \<and> int (seen_type t) \<le> maxtype) xs" "0 \<le> maxtype"
  shows "\<exists>e req'. add_attrs req xs = Some (e, req') \<and>
    (e = - EMSGSIZE \<or>
     e = 0 \<and> (\<exists>n' tb. ld32 req' 0 = Some n' \<and>
       libbpf_nla_parse req' maxtype (unat n) (int (unat n') - int (unat n)) None = Some (0, tb) \<and>
       length tb = nat maxtype + 1 \<and> tb_holds req' tb (payload xs)))"
proof -
  have h: "req_holds req (unat n) []" using assms(1-5) by (simp add: req_holds_def)
  have small: "\<And>x. x \<in> set xs \<Longrightarrow> length (snd x) < 2 ^ 31 - 8" using assms(6) by (force simp: list_all_iff)
  obtain e req' where add: "add_attrs req xs = Some (e, req')" "e = - EMSGSIZE \<or> e = 0 \<and> req_holds req' (unat n) xs"
    using add_attrs_result [OF h, of xs, OF small] by auto
  show ?thesis
  proof (cases "e = 0")
    case True
    then obtain n' where n': "ld32 req' 0 = Some n'" "unat n' \<le> length req'" "attrs_at req' (unat n) xs (unat n')"
      using add(2) by (auto simp: req_holds_def EMSGSIZE_def)
    have "tb_holds req' (replicate (nat (maxtype + 1)) None) (\<lambda>_. None)" by (simp add: tb_holds_def)
    moreover have "\<And>x. x \<in> set xs \<Longrightarrow> int (seen_type (fst x)) \<le> maxtype" using assms(6) by (force simp: list_all_iff)
    ultimately obtain tb where tb: "libbpf_nla_parse req' maxtype (unat n) (int (unat n') - int (unat n)) None = Some (0, tb)"
      "length tb = nat maxtype + 1" "tb_holds req' tb (Map.empty ++ payload xs)"
      using parse_attrs [OF n'(3,2), of maxtype "replicate (nat (maxtype + 1)) None" Map.empty] assms(7)
      by (auto simp: libbpf_nla_parse_def nat_add_distrib)
    then show ?thesis using add(1) True n'(1) by simp blast?
  qed (use add in blast)
qed

theorem nlattr_roundtrip_witness:
  "\<exists>e req'. add_attrs (le32_bytes 32 @ replicate 160 0) [(1, [5, 6, 7]), (2, [])] = Some (e, req') \<and>
    (e = - EMSGSIZE \<or> e = 0 \<and> (\<exists>n' tb. ld32 req' 0 = Some n' \<and> tb_holds req' tb (payload [(1, [5, 6, 7]), (2, [])])))"
proof -
  have "ld32 (le32_bytes 32 @ replicate 160 0) 0 = Some 32" by code_simp
  then show ?thesis
    using nlattr_roundtrip [of "le32_bytes 32 @ replicate 160 0" 32 2 "[(1, [5, 6, 7]), (2, [])]"]
    by (auto simp: REQ_SIZE_def seen_type_def NLA_TYPE_MASK_def NLA_F_NESTED_def NLA_F_NET_BYTEORDER_def) blast?
qed

end
