(* ===== verification/Prog_Linfo.thy ===== *)
theory Prog_Linfo
  imports Prelude
begin

text \<open>
  \<^verbatim>\<open>lib/libbpf/src/bpf_prog_linfo.c\<close>: the table that finds the source line of a BPF instruction, or of an address of its
  compiled code. The buffers that the caller passes in by address are lists; \<open>None\<close> is an access outside
  a buffer. The results of the allocations are parameters, and so is the content of fresh memory. A search returns \<open>Inr\<close> of
  the offset of the record it found, or the error number.
\<close>

section \<open>Model\<close>

record bpf_prog_linfo =
  raw_linfo :: mem
  raw_jited_linfo :: mem
  nr_jited_linfo_per_func :: "u32 list"
  jited_linfo_func_idx :: "u32 list"
  nr_linfo :: u32
  nr_jited_func :: u32
  rec_size :: u32
  jited_rec_size :: u32

text \<open>The fields of \<^verbatim>\<open>struct bpf_prog_info\<close> that are read. \<open>None\<close> is a null pointer.\<close>

record bpf_prog_info =
  line_info :: mem
  nr_line_info :: u32
  line_info_rec_size :: u32
  jited_line_info :: "mem option"
  nr_jited_line_info :: u32
  jited_line_info_rec_size :: u32
  jited_ksyms :: "u64 list option"
  nr_jited_ksyms :: u32
  jited_func_lens :: "u32 list option"
  nr_jited_func_lens :: u32

record linfo_mem =
  calloc_ok :: bool
  raw_ok :: bool
  raw_jited_ok :: bool
  per_func_ok :: bool
  func_idx_ok :: bool
  per_func_junk :: "u32 list"
  func_idx_junk :: "u32 list"

definition at :: "'a list \<Rightarrow> nat \<Rightarrow> 'a option" where
  "at xs i = (if i < length xs then Some (xs ! i) else None)"

definition put :: "'a list \<Rightarrow> nat \<Rightarrow> 'a \<Rightarrow> 'a list option" where
  "put xs i v = (if i < length xs then Some (xs[i := v]) else None)"

text \<open>
  The loop of \<^verbatim>\<open>dissect_jited_func\<close>, with the position of \<^verbatim>\<open>jited_linfo\<close> in the buffer. The indices stay below
  32-bit counts and are natural numbers. \<open>Inl\<close> is the jump to the error label, \<open>Inr\<close> the values at the end of the loop.
\<close>

function dissect_loop ::
  "bpf_prog_linfo \<Rightarrow> u64 list \<Rightarrow> u32 list \<Rightarrow> nat \<Rightarrow> nat \<Rightarrow> nat \<Rightarrow> nat \<Rightarrow> (int + nat \<times> nat \<times> bpf_prog_linfo) option" where
  "dissect_loop pl ksym_func ksym_len prev_i i f p =
     (if i < unat (nr_linfo pl) \<and> f < unat (nr_jited_func pl) then do {
        last_jited_linfo \<leftarrow> ld64 (raw_jited_linfo pl) p;
        jited_linfo \<leftarrow> ld64 (raw_jited_linfo pl) (p + unat (jited_rec_size pl));
        func \<leftarrow> at ksym_func f;
        if func = jited_linfo then do {
          idx \<leftarrow> put (jited_linfo_func_idx pl) f (word_of_nat i);
          prev_func \<leftarrow> at ksym_func (f - 1);
          len \<leftarrow> at ksym_len (f - 1);
          if last_jited_linfo - prev_func + 1 > ucast len then Some (Inl (- EINVAL))
          else do {
            per \<leftarrow> put (nr_jited_linfo_per_func pl) (f - 1) (word_of_nat (i - prev_i));
            dissect_loop (pl\<lparr>jited_linfo_func_idx := idx, nr_jited_linfo_per_func := per\<rparr>) ksym_func ksym_len
              i (i + 1) (f + 1) (p + unat (jited_rec_size pl))
          }
        }
        else if jited_linfo \<le> last_jited_linfo then Some (Inl (- EINVAL))
        else dissect_loop pl ksym_func ksym_len prev_i (i + 1) f (p + unat (jited_rec_size pl))
      }
      else Some (Inr (f, prev_i, pl)))"
  by pat_completeness auto

termination dissect_loop
  by (relation "measure (\<lambda>(pl, kf, kl, prev_i, i, f, p). unat (nr_linfo pl) - i)") auto

declare dissect_loop.simps [simp del]

definition dissect_jited_func :: "bpf_prog_linfo \<Rightarrow> u64 list \<Rightarrow> u32 list \<Rightarrow> (int + bpf_prog_linfo) option" where
  "dissect_jited_func pl ksym_func ksym_len =
     do {
       jited_linfo \<leftarrow> ld64 (raw_jited_linfo pl) 0;
       func \<leftarrow> at ksym_func 0;
       if func \<noteq> jited_linfo then Some (Inl (- EINVAL))
       else do {
         idx \<leftarrow> put (jited_linfo_func_idx pl) 0 0;
         r \<leftarrow> dissect_loop (pl\<lparr>jited_linfo_func_idx := idx\<rparr>) ksym_func ksym_len 0 1 1 0;
         case r of
           Inl e \<Rightarrow> Some (Inl e)
         | Inr (f, prev_i, pl') \<Rightarrow>
             if f \<noteq> unat (nr_jited_func pl') then Some (Inl (- EINVAL))
             else do {
               per \<leftarrow> put (nr_jited_linfo_per_func pl') (unat (nr_jited_func pl') - 1) (nr_linfo pl' - word_of_nat prev_i);
               Some (Inr (pl'\<lparr>nr_jited_linfo_per_func := per\<rparr>))
             }
       }
     }"

definition bpf_prog_linfo__new :: "linfo_mem \<Rightarrow> bpf_prog_info \<Rightarrow> (int + bpf_prog_linfo) option" where
  "bpf_prog_linfo__new lm info =
     (if nr_line_info info = 0 then Some (Inl EINVAL)
      else if line_info_rec_size info < 4 then Some (Inl EINVAL)
      else if \<not> calloc_ok lm then Some (Inl ENOMEM)
      else if \<not> raw_ok lm then Some (Inl EINVAL)
      else do {
        raw \<leftarrow> ldn (line_info info) 0 (unat (nr_line_info info) * unat (line_info_rec_size info));
        let pl = \<lparr>raw_linfo = raw, raw_jited_linfo = [], nr_jited_linfo_per_func = [], jited_linfo_func_idx = [],
                  nr_linfo = nr_line_info info, nr_jited_func = 0, rec_size = line_info_rec_size info, jited_rec_size = 0\<rparr>;
        if nr_jited_ksyms info = 0 \<or> jited_line_info info = None \<or> nr_jited_line_info info \<noteq> nr_line_info info \<or>
           jited_line_info_rec_size info < 8 \<or> nr_jited_func_lens info \<noteq> nr_jited_ksyms info \<or>
           jited_ksyms info = None \<or> jited_func_lens info = None
        then Some (Inr pl)
        else if \<not> raw_jited_ok lm then Some (Inl EINVAL)
        else do {
          raw_jited \<leftarrow> ldn (the (jited_line_info info)) 0 (unat (nr_line_info info) * unat (jited_line_info_rec_size info));
          if \<not> per_func_ok lm \<or> \<not> func_idx_ok lm then Some (Inl EINVAL)
          else do {
            r \<leftarrow> dissect_jited_func
              (pl\<lparr>nr_jited_func := nr_jited_ksyms info, jited_rec_size := jited_line_info_rec_size info, raw_jited_linfo := raw_jited,
                  nr_jited_linfo_per_func := take (unat (nr_jited_ksyms info)) (per_func_junk lm),
                  jited_linfo_func_idx := take (unat (nr_jited_ksyms info)) (func_idx_junk lm)\<rparr>)
              (the (jited_ksyms info)) (the (jited_func_lens info));
            case r of Inl _ \<Rightarrow> Some (Inl EINVAL) | Inr pl' \<Rightarrow> Some (Inr pl')
          }
        }
      })"

text \<open>The rounds of a search loop over \<open>n\<close> records: how many are passed before a value beyond the target, or the end.\<close>

fun search_loop :: "(nat \<Rightarrow> 'v option) \<Rightarrow> 'v::ord \<Rightarrow> nat \<Rightarrow> nat \<Rightarrow> nat \<Rightarrow> nat option" where
  "search_loop rd target rec 0 p = Some 0"
| "search_loop rd target rec (Suc n) p =
     do { v \<leftarrow> rd p; if target < v then Some 0 else map_option Suc (search_loop rd target rec n (p + rec)) }"

definition bpf_prog_linfo__lfind_addr_func :: "bpf_prog_linfo \<Rightarrow> u64 \<Rightarrow> u32 \<Rightarrow> u32 \<Rightarrow> (int + nat) option" where
  "bpf_prog_linfo__lfind_addr_func pl addr func_idx nr_skip =
     (if func_idx \<ge> nr_jited_func pl then Some (Inl ENOENT)
      else do {
        nr \<leftarrow> at (nr_jited_linfo_per_func pl) (unat func_idx);
        if nr_skip \<ge> nr then Some (Inl ENOENT)
        else do {
          idx \<leftarrow> at (jited_linfo_func_idx pl) (unat func_idx);
          let start = idx + nr_skip;
          let base = unat (start * jited_rec_size pl);
          jited_linfo \<leftarrow> ld64 (raw_jited_linfo pl) base;
          if addr < jited_linfo then Some (Inl ENOENT)
          else do {
            n \<leftarrow> search_loop (ld64 (raw_jited_linfo pl)) addr (unat (jited_rec_size pl)) (unat (nr - nr_skip)) base;
            Some (Inr (unat (start * rec_size pl) + n * unat (rec_size pl) - unat (rec_size pl)))
          }
        }
      })"

definition bpf_prog_linfo__lfind :: "bpf_prog_linfo \<Rightarrow> u32 \<Rightarrow> u32 \<Rightarrow> (int + nat) option" where
  "bpf_prog_linfo__lfind pl insn_off nr_skip =
     (if nr_skip \<ge> nr_linfo pl then Some (Inl ENOENT)
      else do {
        let base = unat (nr_skip * rec_size pl);
        linfo_insn_off \<leftarrow> ld32 (raw_linfo pl) base;
        if insn_off < linfo_insn_off then Some (Inl ENOENT)
        else do {
          n \<leftarrow> search_loop (ld32 (raw_linfo pl)) insn_off (unat (rec_size pl)) (unat (nr_linfo pl - nr_skip)) base;
          Some (Inr (base + n * unat (rec_size pl) - unat (rec_size pl)))
        }
      })"

section \<open>Dissecting the compiled functions\<close>

text \<open>The address in record \<open>k\<close> of the compiled line information.\<close>

definition jaddr :: "bpf_prog_linfo \<Rightarrow> nat \<Rightarrow> u64" where
  "jaddr pl k = the (ld64 (raw_jited_linfo pl) (k * unat (jited_rec_size pl)))"

abbreviation fstart :: "bpf_prog_linfo \<Rightarrow> nat \<Rightarrow> nat" where
  "fstart pl f \<equiv> unat (jited_linfo_func_idx pl ! f)"

abbreviation fcount :: "bpf_prog_linfo \<Rightarrow> nat \<Rightarrow> nat" where
  "fcount pl f \<equiv> unat (nr_jited_linfo_per_func pl ! f)"

definition sized :: "bpf_prog_linfo \<Rightarrow> u64 list \<Rightarrow> u32 list \<Rightarrow> bool" where
  "sized pl kf kl \<longleftrightarrow>
     length (raw_jited_linfo pl) = unat (nr_linfo pl) * unat (jited_rec_size pl) \<and> 8 \<le> unat (jited_rec_size pl) \<and>
     length (jited_linfo_func_idx pl) = unat (nr_jited_func pl) \<and> length (nr_jited_linfo_per_func pl) = unat (nr_jited_func pl) \<and>
     unat (nr_jited_func pl) \<le> length kf \<and> unat (nr_jited_func pl) \<le> length kl \<and> 0 < unat (nr_linfo pl) \<and> 0 < unat (nr_jited_func pl)"

text \<open>
  The first \<open>f\<close> functions have been found among the first \<open>i\<close> records, the last of them at \<open>prev_i\<close>: they follow each other
  without a gap, each begins at its address, and addresses grow except where a function begins.
\<close>

definition dissected :: "u64 list \<Rightarrow> bpf_prog_linfo \<Rightarrow> nat \<Rightarrow> nat \<Rightarrow> nat \<Rightarrow> bool" where
  "dissected kf pl prev_i i f \<longleftrightarrow>
     0 < f \<and> f \<le> unat (nr_jited_func pl) \<and> prev_i < i \<and> i \<le> unat (nr_linfo pl) \<and>
     fstart pl 0 = 0 \<and> fstart pl (f - 1) = prev_i \<and>
     (\<forall>g. Suc g < f \<longrightarrow> fstart pl (Suc g) = fstart pl g + fcount pl g \<and> 0 < fcount pl g) \<and>
     (\<forall>g < f. jaddr pl (fstart pl g) = kf ! g) \<and>
     (\<forall>k. Suc k < i \<longrightarrow> (\<exists>g < f. Suc k = fstart pl g) \<or> jaddr pl k < jaddr pl (Suc k))"

lemma jaddr_ld:
  assumes "sized pl kf kl" "k < unat (nr_linfo pl)"
  shows "ld64 (raw_jited_linfo pl) (k * unat (jited_rec_size pl)) = Some (jaddr pl k)"
proof -
  have "Suc k * unat (jited_rec_size pl) \<le> unat (nr_linfo pl) * unat (jited_rec_size pl)"
    using assms(2) by (intro mult_le_mono1) simp
  then have "k * unat (jited_rec_size pl) + 8 \<le> length (raw_jited_linfo pl)" using assms(1) by (simp add: sized_def)
  then show ?thesis using ld64_in_bounds by (fastforce simp: jaddr_def)
qed

lemma jaddr_update [simp]:
  "jaddr (pl\<lparr>jited_linfo_func_idx := a, nr_jited_linfo_per_func := b\<rparr>) = jaddr pl"
  "jaddr (pl\<lparr>jited_linfo_func_idx := a\<rparr>) = jaddr pl" "jaddr (pl\<lparr>nr_jited_linfo_per_func := b\<rparr>) = jaddr pl"
  by (simp_all add: jaddr_def fun_eq_iff)

lemma unat_below: "n < unat (b :: u32) \<Longrightarrow> unat (word_of_nat n :: u32) = n"
  using unsigned_less [where ?'a = nat, of b] by (simp add: unat_of_nat take_bit_nat_eq_self)

text \<open>A new function begins at record \<open>i\<close>.\<close>

lemma dissected_func:
  assumes d: "dissected kf pl prev_i i f" and s: "sized pl kf kl" and i: "i < unat (nr_linfo pl)" and f: "f < unat (nr_jited_func pl)"
    and k: "kf ! f = jaddr pl i"
  defines "pl' \<equiv> pl\<lparr>jited_linfo_func_idx := (jited_linfo_func_idx pl)[f := word_of_nat i],
    nr_jited_linfo_per_func := (nr_jited_linfo_per_func pl)[f - 1 := word_of_nat (i - prev_i)]\<rparr>"
  shows "dissected kf pl' i (i + 1) (f + 1)"
proof -
  have l: "f < length (jited_linfo_func_idx pl)" "f - 1 < length (nr_jited_linfo_per_func pl)" "0 < f" "prev_i < i"
    using s f d by (auto simp: sized_def dissected_def)
  have ui: "unat (word_of_nat i :: u32) = i" "unat (word_of_nat (i - prev_i) :: u32) = i - prev_i"
    using i unat_below [of i "nr_linfo pl"] unat_below [of "i - prev_i" "nr_linfo pl"] by auto
  have st: "fstart pl' g = (if g = f then i else fstart pl g)" for g
    using l(1) ui(1) by (simp add: pl'_def nth_list_update)
  have ct: "fcount pl' g = (if g = f - 1 then i - prev_i else fcount pl g)" if "g < f" for g
    using l(2) ui(2) by (simp add: pl'_def nth_list_update)
  have j: "jaddr pl' = jaddr pl" "nr_linfo pl' = nr_linfo pl" "nr_jited_func pl' = nr_jited_func pl" by (simp_all add: pl'_def)
  have chain: "fstart pl' (Suc g) = fstart pl' g + fcount pl' g \<and> 0 < fcount pl' g" if "Suc g < f + 1" for g
  proof (cases "Suc g = f")
    case True
    then have "fstart pl' g = prev_i" using d by (auto simp: st dissected_def)
    then show ?thesis using True l(4) ct [of g] st [of f] by auto
  next
    case False
    then have "Suc g < f" using that by simp
    then show ?thesis using d ct [of g] st [of g] st [of "Suc g"] by (auto simp: dissected_def)
  qed
  have "(\<exists>g < f + 1. Suc n = fstart pl' g) \<or> jaddr pl n < jaddr pl (Suc n)" if "Suc n < i + 1" for n
  proof (cases "Suc n = i")
    case True
    then show ?thesis using st [of f] by auto
  next
    case False
    then have "(\<exists>g < f. Suc n = fstart pl g) \<or> jaddr pl n < jaddr pl (Suc n)" using that d by (auto simp: dissected_def)
    moreover have "fstart pl' g = fstart pl g" if "g < f" for g using that st [of g] by simp
    ultimately show ?thesis by (metis less_SucI Suc_eq_plus1)
  qed
  moreover have "jaddr pl (fstart pl' g) = kf ! g" if "g < f + 1" for g
    using that d k by (cases "g = f") (auto simp: st dissected_def)
  ultimately show ?thesis
    using d i f l chain st [of 0] st [of f] unfolding dissected_def j by auto
qed

lemma dissected_next:
  assumes "dissected kf pl prev_i i f" "i < unat (nr_linfo pl)" "jaddr pl (i - 1) < jaddr pl i"
  shows "dissected kf pl prev_i (i + 1) f"
proof -
  have "0 < i" using assms(1) by (auto simp: dissected_def)
  then have "(\<exists>g < f. Suc n = fstart pl g) \<or> jaddr pl n < jaddr pl (Suc n)" if "Suc n < i + 1" for n
    using assms that by (cases "Suc n = i") (auto simp: dissected_def)
  then show ?thesis using assms unfolding dissected_def by auto
qed

lemma dissect_loop_ok:
  assumes "dissected kf pl prev_i i f" "sized pl kf kl" "p = (i - 1) * unat (jited_rec_size pl)"
  shows "\<exists>r. dissect_loop pl kf kl prev_i i f p = Some r \<and>
    (case r of Inl e \<Rightarrow> e = - EINVAL
     | Inr (f', prev_i', pl') \<Rightarrow> sized pl' kf kl \<and> (\<exists>i'. dissected kf pl' prev_i' i' f' \<and> (i' = unat (nr_linfo pl') \<or> f' = unat (nr_jited_func pl'))) \<and>
        pl' = pl\<lparr>jited_linfo_func_idx := jited_linfo_func_idx pl', nr_jited_linfo_per_func := nr_jited_linfo_per_func pl'\<rparr>)"
  using assms
proof (induction pl kf kl prev_i i f p rule: dissect_loop.induct)
  case (1 pl kf kl prev_i i f p)
  show ?case
  proof (cases "i < unat (nr_linfo pl) \<and> f < unat (nr_jited_func pl)")
    case False
    then have "i = unat (nr_linfo pl) \<or> f = unat (nr_jited_func pl)" using "1.prems"(1) by (auto simp: dissected_def)
    then show ?thesis using False "1.prems" by (subst dissect_loop.simps) auto
  next
    case True
    have i0: "0 < i" "0 < f" using "1.prems"(1) by (auto simp: dissected_def)
    then have pn: "p + unat (jited_rec_size pl) = i * unat (jited_rec_size pl)" using "1.prems"(3) by (cases i) simp_all
    have ld: "ld64 (raw_jited_linfo pl) p = Some (jaddr pl (i - 1))"
      "ld64 (raw_jited_linfo pl) (p + unat (jited_rec_size pl)) = Some (jaddr pl i)"
      using jaddr_ld [OF "1.prems"(2), of "i - 1"] jaddr_ld [OF "1.prems"(2), of i] True "1.prems"(3) pn by auto
    have at: "at kf f = Some (kf ! f)" "at kf (f - 1) = Some (kf ! (f - 1))" "at kl (f - 1) = Some (kl ! (f - 1))"
      "put (jited_linfo_func_idx pl) f v = Some ((jited_linfo_func_idx pl)[f := v])"
      "put (nr_jited_linfo_per_func pl) (f - 1) v = Some ((nr_jited_linfo_per_func pl)[f - 1 := v])" for v
      using True "1.prems"(2) by (auto simp: at_def put_def sized_def)
    show ?thesis
    proof (cases "kf ! f = jaddr pl i")
      case func: True
      show ?thesis
      proof (cases "ucast (kl ! (f - 1)) < jaddr pl (i - 1) - kf ! (f - 1) + 1")
        case False
        let ?pl = "pl\<lparr>jited_linfo_func_idx := (jited_linfo_func_idx pl)[f := word_of_nat i],
          nr_jited_linfo_per_func := (nr_jited_linfo_per_func pl)[f - 1 := word_of_nat (i - prev_i)]\<rparr>"
        have d: "dissected kf ?pl i (i + 1) (f + 1)"
          using dissected_func [OF "1.prems"(1,2)] True func by blast
        have s: "sized ?pl kf kl" using "1.prems"(2) by (simp add: sized_def)
        have e: "dissect_loop pl kf kl prev_i i f p = dissect_loop ?pl kf kl i (i + 1) (f + 1) (p + unat (jited_rec_size pl))"
          using True ld at func False by (subst dissect_loop.simps) simp
        show ?thesis
          using "1.IH"(1) [OF True ld at(1) func at(4) at(2,3) False at(5) d s] pn unfolding e by (auto split: sum.splits)
      qed (use True ld at func in \<open>subst dissect_loop.simps; simp\<close>)
    next
      case func: False
      show ?thesis
      proof (cases "jaddr pl i \<le> jaddr pl (i - 1)")
        case False
        have d: "dissected kf pl prev_i (i + 1) f"
          using dissected_next [OF "1.prems"(1)] True False by simp
        have e: "dissect_loop pl kf kl prev_i i f p = dissect_loop pl kf kl prev_i (i + 1) f (p + unat (jited_rec_size pl))"
          using True ld at func False by (subst dissect_loop.simps) simp
        show ?thesis
          using "1.IH"(2) [OF True ld at(1) func False d "1.prems"(2)] pn unfolding e by simp
      qed (use True ld at func in \<open>subst dissect_loop.simps; simp\<close>)
    qed
  qed
qed

text \<open>
  The functions cover the records without gap or overlap, each begins at its address, and the addresses grow within every function but the
  last: the loop ends as soon as the last function has been found.
\<close>

definition funcs_ok :: "u64 list \<Rightarrow> bpf_prog_linfo \<Rightarrow> bool" where
  "funcs_ok kf pl \<longleftrightarrow>
     0 < unat (nr_jited_func pl) \<and> fstart pl 0 = 0 \<and>
     (\<forall>f. Suc f < unat (nr_jited_func pl) \<longrightarrow> fstart pl (Suc f) = fstart pl f + fcount pl f) \<and>
     fstart pl (unat (nr_jited_func pl) - 1) + fcount pl (unat (nr_jited_func pl) - 1) = unat (nr_linfo pl) \<and>
     (\<forall>f < unat (nr_jited_func pl). 0 < fcount pl f \<and> jaddr pl (fstart pl f) = kf ! f) \<and>
     (\<forall>f k. Suc f < unat (nr_jited_func pl) \<longrightarrow> fstart pl f \<le> k \<longrightarrow> Suc k < fstart pl (Suc f) \<longrightarrow> jaddr pl k < jaddr pl (Suc k))"

lemma starts_mono:
  assumes "\<And>g. Suc g < n \<Longrightarrow> s (Suc g) = s g + c g" "f \<le> g" "g < n"
  shows "s f \<le> (s g :: nat)"
  using assms(2,3)
proof (induction g rule: dec_induct)
  case (step g)
  then show ?case using assms(1) [of g] by simp
qed simp

lemma dissected_end:
  assumes d: "dissected kf pl prev_i i (unat (nr_jited_func pl))" and s: "sized pl kf kl"
  defines "pl' \<equiv> pl\<lparr>nr_jited_linfo_per_func := (nr_jited_linfo_per_func pl)[unat (nr_jited_func pl) - 1 := nr_linfo pl - word_of_nat prev_i]\<rparr>"
  shows "funcs_ok kf pl' \<and> sized pl' kf kl"
proof -
  let ?n = "unat (nr_jited_func pl)"
  have n: "0 < ?n" "prev_i < i" "i \<le> unat (nr_linfo pl)" and l: "fstart pl (?n - 1) = prev_i"
    using d by (auto simp: dissected_def)
  have "unat (word_of_nat prev_i :: u32) = prev_i" using unat_below [of prev_i "nr_linfo pl"] n by simp
  then have last: "unat (nr_linfo pl - word_of_nat prev_i) = unat (nr_linfo pl) - prev_i"
    using n by (simp add: unat_sub word_le_nat_alt)
  have ct: "fcount pl' g = (if g = ?n - 1 then unat (nr_linfo pl) - prev_i else fcount pl g)" if "g < ?n" for g
    using that s last by (auto simp: pl'_def nth_list_update sized_def)
  have st: "jited_linfo_func_idx pl' = jited_linfo_func_idx pl" and j: "jaddr pl' = jaddr pl" and nf: "nr_jited_func pl' = nr_jited_func pl" "nr_linfo pl' = nr_linfo pl"
    by (simp_all add: pl'_def fun_eq_iff)
  have chain: "fstart pl (Suc g) = fstart pl g + fcount pl g \<and> 0 < fcount pl g" if "Suc g < ?n" for g
    using d that by (auto simp: dissected_def)
  have grow: "jaddr pl k < jaddr pl (Suc k)" if f: "Suc f < ?n" "fstart pl f \<le> k" "Suc k < fstart pl (Suc f)" for f k
  proof -
    have "Suc k \<noteq> fstart pl g" if "g < ?n" for g
    proof (cases "g \<le> f")
      case True
      then have "fstart pl g \<le> fstart pl f" using f(1) starts_mono [of ?n "fstart pl" "fcount pl" g f] chain by auto
      then show ?thesis using f(2) by simp
    next
      case False
      then have "fstart pl (Suc f) \<le> fstart pl g" using that starts_mono [of ?n "fstart pl" "fcount pl" "Suc f" g] chain by auto
      then show ?thesis using f(3) by simp
    qed
    moreover have "fstart pl (Suc f) \<le> prev_i" using f(1) l starts_mono [of ?n "fstart pl" "fcount pl" "Suc f" "?n - 1"] chain by auto
    ultimately show ?thesis using d f(3) n(2) unfolding dissected_def by (meson le_less_trans less_le_trans order_less_trans)
  qed
  have a: "0 < fcount pl' g \<and> jaddr pl (fstart pl g) = kf ! g" if "g < ?n" for g
    using that ct [OF that] chain [of g] d n by (cases "g = ?n - 1") (auto simp: dissected_def)
  have b: "fstart pl (Suc g) = fstart pl g + fcount pl' g" if "Suc g < ?n" for g
    using that ct [of g] chain [of g] by auto
  have z: "fstart pl 0 = 0" "fstart pl (?n - 1) + fcount pl' (?n - 1) = unat (nr_linfo pl)"
    using d ct [of "?n - 1"] n l by (auto simp: dissected_def)
  have "funcs_ok kf pl'"
    unfolding funcs_ok_def st j nf using n(1) a b grow z by blast
  moreover have "sized pl' kf kl" using s by (auto simp: sized_def pl'_def)
  ultimately show ?thesis ..
qed

lemma linfo_frame:
  "pl' = pl\<lparr>jited_linfo_func_idx := b, jited_linfo_func_idx := jited_linfo_func_idx pl', nr_jited_linfo_per_func := nr_jited_linfo_per_func pl'\<rparr> \<Longrightarrow>
   pl'\<lparr>nr_jited_linfo_per_func := c\<rparr> = pl\<lparr>jited_linfo_func_idx := jited_linfo_func_idx pl', nr_jited_linfo_per_func := c\<rparr>"
  by (cases pl; cases pl') simp

lemma dissect_ok:
  assumes s: "sized pl kf kl"
  shows "\<exists>r. dissect_jited_func pl kf kl = Some r \<and>
    (case r of Inl e \<Rightarrow> e = - EINVAL
     | Inr pl' \<Rightarrow> funcs_ok kf pl' \<and> sized pl' kf kl \<and>
        pl' = pl\<lparr>jited_linfo_func_idx := jited_linfo_func_idx pl', nr_jited_linfo_per_func := nr_jited_linfo_per_func pl'\<rparr>)"
proof (cases "kf ! 0 = jaddr pl 0")
  case True
  let ?pl = "pl\<lparr>jited_linfo_func_idx := (jited_linfo_func_idx pl)[0 := 0]\<rparr>"
  have pos: "0 < unat (nr_linfo pl)" "0 < unat (nr_jited_func pl)" and ln: "0 < length (jited_linfo_func_idx pl)" "0 < length kf"
    using s by (auto simp: sized_def)
  have ld: "ld64 (raw_jited_linfo pl) 0 = Some (jaddr pl 0)" using jaddr_ld [OF s pos(1)] by simp
  have s': "sized ?pl kf kl" using s by (simp add: sized_def)
  have d: "dissected kf ?pl 0 1 1" using True pos ln by (auto simp: dissected_def)
  obtain r where r: "dissect_loop ?pl kf kl 0 1 1 0 = Some r"
    "case r of Inl e \<Rightarrow> e = - EINVAL
     | Inr (f', prev_i', pl') \<Rightarrow> sized pl' kf kl \<and> (\<exists>i'. dissected kf pl' prev_i' i' f' \<and> (i' = unat (nr_linfo pl') \<or> f' = unat (nr_jited_func pl'))) \<and>
        pl' = ?pl\<lparr>jited_linfo_func_idx := jited_linfo_func_idx pl', nr_jited_linfo_per_func := nr_jited_linfo_per_func pl'\<rparr>"
    using dissect_loop_ok [OF d s', of 0] by auto
  have start: "dissect_jited_func pl kf kl =
      (case r of Inl e \<Rightarrow> Some (Inl e)
       | Inr (f, prev_i, pl') \<Rightarrow>
           if f \<noteq> unat (nr_jited_func pl') then Some (Inl (- EINVAL))
           else do {
             per \<leftarrow> put (nr_jited_linfo_per_func pl') (unat (nr_jited_func pl') - 1) (nr_linfo pl' - word_of_nat prev_i);
             Some (Inr (pl'\<lparr>nr_jited_linfo_per_func := per\<rparr>))
           })"
    using True ld ln r(1) by (simp add: dissect_jited_func_def at_def put_def)
  show ?thesis
  proof (cases r)
    case (Inr x)
    obtain f prev_i pl' where x: "x = (f, prev_i, pl')" by (metis prod_cases3)
    have sz: "sized pl' kf kl" and ex: "\<exists>i'. dissected kf pl' prev_i i' f"
      and eq: "pl' = ?pl\<lparr>jited_linfo_func_idx := jited_linfo_func_idx pl', nr_jited_linfo_per_func := nr_jited_linfo_per_func pl'\<rparr>"
      using r(2) by (auto simp: Inr x)
    show ?thesis
    proof (cases "f = unat (nr_jited_func pl')")
      case f: True
      obtain i' where "dissected kf pl' prev_i i' (unat (nr_jited_func pl'))" using ex f by auto
      moreover have "unat (nr_jited_func pl') - 1 < length (nr_jited_linfo_per_func pl')" using sz by (auto simp: sized_def)
      ultimately show ?thesis
        using dissected_end [OF _ sz] linfo_frame [OF eq] unfolding start by (simp add: Inr x f put_def)
    qed (simp add: start Inr x)
  qed (use r(2) in \<open>simp add: start\<close>)
next
  case False
  have "0 < unat (nr_linfo pl)" "0 < length kf" using s by (auto simp: sized_def)
  then show ?thesis using jaddr_ld [OF s, of 0] False by (simp add: dissect_jited_func_def at_def)
qed

text \<open>The buffers that the caller passes are as long as it says, and fresh arrays as long as asked for.\<close>

definition info_ok :: "linfo_mem \<Rightarrow> bpf_prog_info \<Rightarrow> bool" where
  "info_ok lm info \<longleftrightarrow>
     unat (nr_line_info info) * unat (line_info_rec_size info) \<le> length (line_info info) \<and>
     (case jited_line_info info of None \<Rightarrow> True
      | Some b \<Rightarrow> unat (nr_jited_line_info info) * unat (jited_line_info_rec_size info) \<le> length b) \<and>
     (case jited_ksyms info of None \<Rightarrow> True | Some k \<Rightarrow> unat (nr_jited_ksyms info) \<le> length k) \<and>
     (case jited_func_lens info of None \<Rightarrow> True | Some k \<Rightarrow> unat (nr_jited_func_lens info) \<le> length k) \<and>
     unat (nr_jited_ksyms info) \<le> length (per_func_junk lm) \<and> unat (nr_jited_ksyms info) \<le> length (func_idx_junk lm)"

definition linfo_ok :: "bpf_prog_linfo \<Rightarrow> bool" where
  "linfo_ok pl \<longleftrightarrow>
     length (raw_linfo pl) = unat (nr_linfo pl) * unat (rec_size pl) \<and> 4 \<le> unat (rec_size pl) \<and>
     (nr_jited_func pl = 0 \<or> (\<exists>kf kl. funcs_ok kf pl \<and> sized pl kf kl))"

lemma new_jited:
  assumes "sized pl kf kl" "length (raw_linfo pl) = unat (nr_linfo pl) * unat (rec_size pl)" "4 \<le> unat (rec_size pl)"
  shows "\<exists>r. dissect_jited_func pl kf kl = Some r \<and>
    (case r of Inl e \<Rightarrow> True | Inr pl' \<Rightarrow> linfo_ok pl' \<and> funcs_ok kf pl' \<and> raw_linfo pl' = raw_linfo pl \<and> raw_jited_linfo pl' = raw_jited_linfo pl)"
proof -
  obtain r where r: "dissect_jited_func pl kf kl = Some r"
    "case r of Inl e \<Rightarrow> e = - EINVAL
     | Inr pl' \<Rightarrow> funcs_ok kf pl' \<and> sized pl' kf kl \<and>
        pl' = pl\<lparr>jited_linfo_func_idx := jited_linfo_func_idx pl', nr_jited_linfo_per_func := nr_jited_linfo_per_func pl'\<rparr>"
    using dissect_ok [OF assms(1)] by blast
  show ?thesis
  proof (cases r)
    case (Inr pl')
    then have f: "funcs_ok kf pl'" "sized pl' kf kl"
      and e: "pl' = pl\<lparr>jited_linfo_func_idx := jited_linfo_func_idx pl', nr_jited_linfo_per_func := nr_jited_linfo_per_func pl'\<rparr>"
      using r(2) by auto
    have "raw_linfo pl' = raw_linfo pl" "raw_jited_linfo pl' = raw_jited_linfo pl" "nr_linfo pl' = nr_linfo pl" "rec_size pl' = rec_size pl"
      by (subst e, simp)+
    then show ?thesis using r(1) f assms(2,3) Inr by (auto simp: linfo_ok_def)
  qed (use r(1) in simp)
qed

section \<open>Searching\<close>

lemma search_loop_result:
  fixes v :: "nat \<Rightarrow> 'v::linorder"
  assumes "\<And>j. j < n \<Longrightarrow> rd (p + j * rec) = Some (v j)"
  shows "\<exists>m \<le> n. search_loop rd x rec n p = Some m \<and> (\<forall>j < m. v j \<le> x) \<and> (m < n \<longrightarrow> x < v m)"
  using assms
proof (induction n arbitrary: p v)
  case (Suc n)
  have r: "rd p = Some (v 0)" using Suc.prems [of 0] by simp
  have "\<exists>m \<le> n. search_loop rd x rec n (p + rec) = Some m \<and> (\<forall>j < m. v (Suc j) \<le> x) \<and> (m < n \<longrightarrow> x < v (Suc m))"
    using Suc.IH [of "p + rec" "\<lambda>j. v (Suc j)"] Suc.prems [of "Suc j" for j] by (simp add: ac_simps)
  then obtain m where m: "m \<le> n" "search_loop rd x rec n (p + rec) = Some m" "\<forall>j < m. v (Suc j) \<le> x" "m < n \<longrightarrow> x < v (Suc m)"
    by blast
  show ?case
  proof (cases "x < v 0")
    case False
    then have "\<forall>j < Suc m. v j \<le> x" using m(3) by (auto simp: less_Suc_eq_0_disj)
    then show ?thesis using False m r by (intro exI [of _ "Suc m"]) simp
  qed (use r in simp)
qed simp

text \<open>\<open>k\<close> is the last record of a run of records from \<open>a\<close> that are all at or below the target, in the range up to \<open>b\<close>.\<close>

definition last_below :: "(nat \<Rightarrow> 'v::linorder) \<Rightarrow> 'v \<Rightarrow> nat \<Rightarrow> nat \<Rightarrow> nat \<Rightarrow> bool" where
  "last_below v x a b k \<longleftrightarrow> a \<le> k \<and> k < b \<and> (\<forall>j. a \<le> j \<and> j \<le> k \<longrightarrow> v j \<le> x) \<and> (Suc k < b \<longrightarrow> x < v (Suc k))"

lemma search_last_below:
  fixes v :: "nat \<Rightarrow> 'v::linorder"
  assumes "\<And>k. a \<le> k \<Longrightarrow> k < b \<Longrightarrow> rd (k * rec) = Some (v k)" "a < b" "v a \<le> x"
  shows "\<exists>m. search_loop rd x rec (b - a) (a * rec) = Some (Suc m) \<and> last_below v x a b (a + m)"
proof -
  have "rd (a * rec + j * rec) = Some (v (a + j))" if "j < b - a" for j
    using assms(1) [of "a + j"] that by (simp add: add_mult_distrib)
  then obtain m where m: "m \<le> b - a" "search_loop rd x rec (b - a) (a * rec) = Some m" "\<forall>j < m. v (a + j) \<le> x"
    "m < b - a \<longrightarrow> x < v (a + m)"
    using search_loop_result [of "b - a" rd "a * rec" rec "\<lambda>j. v (a + j)" x] by blast
  have "m \<noteq> 0"
  proof
    assume "m = 0"
    then have "x < v a" using m(4) assms(2) by simp
    then show False using assms(3) by simp
  qed
  then obtain m' where m': "m = Suc m'" by (cases m) auto
  have "v j \<le> x" if "a \<le> j" "j \<le> a + m'" for j using m(3) [rule_format, of "j - a"] that m' by simp
  then show ?thesis using m m' by (intro exI [of _ m']) (auto simp: last_below_def)
qed

definition insn_off_of :: "bpf_prog_linfo \<Rightarrow> nat \<Rightarrow> u32" where
  "insn_off_of pl k = the (ld32 (raw_linfo pl) (k * unat (rec_size pl)))"

lemma insn_off_ld:
  assumes "linfo_ok pl" "k < unat (nr_linfo pl)"
  shows "ld32 (raw_linfo pl) (k * unat (rec_size pl)) = Some (insn_off_of pl k)"
proof -
  have "Suc k * unat (rec_size pl) \<le> unat (nr_linfo pl) * unat (rec_size pl)"
    using assms(2) by (intro mult_le_mono1) simp
  then have "k * unat (rec_size pl) + 4 \<le> length (raw_linfo pl)" using assms(1) by (simp add: linfo_ok_def)
  then show ?thesis by (simp add: insn_off_of_def ld32_def)
qed

lemma unat_mult_small:
  assumes "a < n" "n * unat (b :: u32) < 2 ^ 32" "unat (w :: u32) = a"
  shows "unat (w * b) = a * unat b"
proof -
  have "a * unat b < 2 ^ 32" by (rule le_less_trans [OF mult_le_mono1 assms(2)]) (use assms(1) in simp)
  then show ?thesis using assms(3) by (simp add: unat_word_ariths)
qed

lemma func_range:
  assumes "funcs_ok kf pl" "f < unat (nr_jited_func pl)"
  shows "fstart pl f + fcount pl f \<le> unat (nr_linfo pl)"
proof (cases "Suc f < unat (nr_jited_func pl)")
  case True
  then have "fstart pl f + fcount pl f \<le> fstart pl (unat (nr_jited_func pl) - 1)"
    using assms(1) starts_mono [of "unat (nr_jited_func pl)" "fstart pl" "fcount pl" "Suc f" "unat (nr_jited_func pl) - 1"]
    by (auto simp: funcs_ok_def)
  then show ?thesis using assms(1) by (auto simp: funcs_ok_def)
next
  case False
  then have "f = unat (nr_jited_func pl) - 1" using assms(2) by simp
  then show ?thesis using assms(1) by (simp add: funcs_ok_def)
qed

lemma lfind_result:
  fixes nr_skip :: u32
  assumes "linfo_ok pl" "unat (nr_linfo pl) * unat (rec_size pl) < 2 ^ 32"
  defines "a \<equiv> unat nr_skip" and "b \<equiv> unat (nr_linfo pl)"
  shows "if b \<le> a \<or> insn_off < insn_off_of pl a then bpf_prog_linfo__lfind pl insn_off nr_skip = Some (Inl ENOENT)
    else \<exists>k. bpf_prog_linfo__lfind pl insn_off nr_skip = Some (Inr (k * unat (rec_size pl))) \<and>
      last_below (insn_off_of pl) insn_off a b k"
proof (cases "b \<le> a")
  case False
  have base: "unat (nr_skip * rec_size pl) = a * unat (rec_size pl)"
    by (rule unat_mult_small [OF _ assms(2)]) (use False in \<open>simp_all add: a_def b_def\<close>)
  have "nr_skip \<le> nr_linfo pl" using False unfolding word_le_nat_alt a_def b_def by linarith
  then have n: "unat (nr_linfo pl - nr_skip) = b - a" "\<not> nr_linfo pl \<le> nr_skip"
    using False unat_sub [of nr_skip "nr_linfo pl"] by (auto simp: a_def b_def)
  have ld: "ld32 (raw_linfo pl) (k * unat (rec_size pl)) = Some (insn_off_of pl k)" if "k < b" for k
    using that insn_off_ld [OF assms(1)] by (simp add: b_def)
  show ?thesis
  proof (cases "insn_off < insn_off_of pl a")
    case True
    then show ?thesis using n ld [of a] False by (simp add: bpf_prog_linfo__lfind_def base)
  next
    case below: False
    then obtain m where "search_loop (ld32 (raw_linfo pl)) insn_off (unat (rec_size pl)) (b - a) (a * unat (rec_size pl)) = Some (Suc m)"
      "last_below (insn_off_of pl) insn_off a b (a + m)"
      using search_last_below [of a b "ld32 (raw_linfo pl)" "unat (rec_size pl)" "insn_off_of pl" insn_off] ld False
      by (metis not_le not_less)
    then show ?thesis
      using False n ld [of a] below
      by (auto simp: bpf_prog_linfo__lfind_def base add_mult_distrib intro!: exI [of _ "a + m"])
  qed
qed (simp add: bpf_prog_linfo__lfind_def word_le_nat_alt a_def b_def)

lemma lfind_addr_result:
  fixes func_idx nr_skip :: u32
  assumes "linfo_ok pl" "unat (nr_linfo pl) * unat (rec_size pl) < 2 ^ 32" "unat (nr_linfo pl) * unat (jited_rec_size pl) < 2 ^ 32"
  defines "a \<equiv> fstart pl (unat func_idx) + unat nr_skip" and "b \<equiv> fstart pl (unat func_idx) + fcount pl (unat func_idx)"
  shows "if nr_jited_func pl \<le> func_idx \<or> b \<le> a \<or> addr < jaddr pl a
    then bpf_prog_linfo__lfind_addr_func pl addr func_idx nr_skip = Some (Inl ENOENT)
    else \<exists>k. bpf_prog_linfo__lfind_addr_func pl addr func_idx nr_skip = Some (Inr (k * unat (rec_size pl))) \<and>
      last_below (jaddr pl) addr a b k"
proof (cases "nr_jited_func pl \<le> func_idx")
  case False
  let ?f = "unat func_idx"
  let ?nr = "nr_jited_linfo_per_func pl ! ?f" and ?start = "jited_linfo_func_idx pl ! ?f + nr_skip"
  have f: "?f < unat (nr_jited_func pl)" using False by (simp add: word_le_nat_alt)
  then have "nr_jited_func pl \<noteq> 0" by auto
  then obtain kf kl where ok: "funcs_ok kf pl" "sized pl kf kl" using assms(1) by (auto simp: linfo_ok_def)
  have b: "b \<le> unat (nr_linfo pl)" using func_range [OF ok(1) f] by (simp add: b_def)
  have at: "at (nr_jited_linfo_per_func pl) ?f = Some ?nr" "at (jited_linfo_func_idx pl) ?f = Some (jited_linfo_func_idx pl ! ?f)"
    using f ok(2) by (simp_all add: at_def sized_def)
  show ?thesis
  proof (cases "b \<le> a")
    case True
    then show ?thesis using False at by (simp add: bpf_prog_linfo__lfind_addr_func_def a_def b_def word_le_nat_alt)
  next
    case lt: False
    have "nr_skip \<le> ?nr" using lt unfolding word_le_nat_alt a_def b_def by linarith
    then have skip: "\<not> ?nr \<le> nr_skip" "unat (?nr - nr_skip) = b - a"
      using lt unat_sub [of nr_skip ?nr] by (auto simp: a_def b_def)
    have "a < 2 ^ 32" using lt b unsigned_less [where ?'a = nat, of "nr_linfo pl"] by simp
    then have st: "unat ?start = a" by (simp add: a_def unat_word_ariths)
    have base: "unat (?start * jited_rec_size pl) = a * unat (jited_rec_size pl)" "unat (?start * rec_size pl) = a * unat (rec_size pl)"
      using unat_mult_small [OF _ assms(3) st] unat_mult_small [OF _ assms(2) st] lt b by simp_all
    have ld: "ld64 (raw_jited_linfo pl) (k * unat (jited_rec_size pl)) = Some (jaddr pl k)" if "k < b" for k
      using jaddr_ld [OF ok(2), of k] that b by simp
    show ?thesis
    proof (cases "addr < jaddr pl a")
      case True
      then show ?thesis using False lt skip at ld [of a] by (simp add: bpf_prog_linfo__lfind_addr_func_def Let_def base)
    next
      case below: False
      then obtain m where "search_loop (ld64 (raw_jited_linfo pl)) addr (unat (jited_rec_size pl)) (b - a) (a * unat (jited_rec_size pl)) = Some (Suc m)"
        "last_below (jaddr pl) addr a b (a + m)"
        using search_last_below [of a b "ld64 (raw_jited_linfo pl)" "unat (jited_rec_size pl)" "jaddr pl" addr] ld lt by (metis not_le not_less)
      then show ?thesis
        using False lt skip at ld [of a] below
        by (auto simp: bpf_prog_linfo__lfind_addr_func_def Let_def base add_mult_distrib intro!: exI [of _ "a + m"])
    qed
  qed
qed (simp add: bpf_prog_linfo__lfind_addr_func_def)

lemma new_table:
  assumes "info_ok lm info"
  shows "\<exists>r. bpf_prog_linfo__new lm info = Some r \<and>
    (case r of Inl e \<Rightarrow> e \<in> {EINVAL, ENOMEM}
     | Inr pl \<Rightarrow> linfo_ok pl \<and> raw_linfo pl = take (unat (nr_line_info info) * unat (line_info_rec_size info)) (line_info info) \<and>
        (nr_jited_func pl = 0 \<or> funcs_ok (the (jited_ksyms info)) pl))"
proof -
  let ?n = "unat (nr_line_info info)" let ?r = "unat (line_info_rec_size info)"
  have ld: "ldn (line_info info) 0 (?n * ?r) = Some (take (?n * ?r) (line_info info))"
    using assms by (simp add: info_ok_def ldn_def)
  have r4: "4 \<le> ?r" if "\<not> line_info_rec_size info < 4" using that by (simp add: word_less_nat_alt)
  show ?thesis
  proof (cases "nr_line_info info = 0 \<or> line_info_rec_size info < 4 \<or> \<not> calloc_ok lm \<or> \<not> raw_ok lm")
    case True
    then show ?thesis by (auto simp: bpf_prog_linfo__new_def)
  next
    case go: False
    let ?pl = "\<lparr>raw_linfo = take (?n * ?r) (line_info info), raw_jited_linfo = [], nr_jited_linfo_per_func = [], jited_linfo_func_idx = [],
      nr_linfo = nr_line_info info, nr_jited_func = 0, rec_size = line_info_rec_size info, jited_rec_size = 0\<rparr>"
    have ok: "linfo_ok ?pl" using assms r4 go by (auto simp: linfo_ok_def info_ok_def)
    show ?thesis
    proof (cases "nr_jited_ksyms info = 0 \<or> jited_line_info info = None \<or> nr_jited_line_info info \<noteq> nr_line_info info \<or>
           jited_line_info_rec_size info < 8 \<or> nr_jited_func_lens info \<noteq> nr_jited_ksyms info \<or>
           jited_ksyms info = None \<or> jited_func_lens info = None")
      case True
      then show ?thesis using go ld ok by (auto simp: bpf_prog_linfo__new_def Let_def)
    next
      case jit: False
      then obtain b kf kl where b: "jited_line_info info = Some b" "jited_ksyms info = Some kf" "jited_func_lens info = Some kl" by auto
      let ?j = "unat (jited_line_info_rec_size info)" let ?k = "unat (nr_jited_ksyms info)"
      have len: "?n * ?j \<le> length b" "?k \<le> length kf" "?k \<le> length kl" "?k \<le> length (per_func_junk lm)" "?k \<le> length (func_idx_junk lm)"
        using assms b jit by (auto simp: info_ok_def)
      let ?pl' = "?pl\<lparr>nr_jited_func := nr_jited_ksyms info, jited_rec_size := jited_line_info_rec_size info, raw_jited_linfo := take (?n * ?j) b,
        nr_jited_linfo_per_func := take ?k (per_func_junk lm), jited_linfo_func_idx := take ?k (func_idx_junk lm)\<rparr>"
      have "8 \<le> ?j" using jit by (simp add: word_less_nat_alt)
      moreover have "0 < ?n" "0 < ?k" using go jit by (auto simp: unat_gt_0)
      ultimately have sz: "sized ?pl' kf kl" using len by (simp add: sized_def)
      obtain r where "dissect_jited_func ?pl' kf kl = Some r"
        "case r of Inl e \<Rightarrow> True | Inr pl' \<Rightarrow> linfo_ok pl' \<and> funcs_ok kf pl' \<and> raw_linfo pl' = raw_linfo ?pl' \<and> raw_jited_linfo pl' = raw_jited_linfo ?pl'"
        using new_jited [OF sz] assms r4 go by (auto simp: info_ok_def)
      then show ?thesis
        using go jit ld len(1) b by (auto simp: bpf_prog_linfo__new_def Let_def ldn_def split: sum.splits)
    qed
  qed
qed

section \<open>Properties\<close>

text \<open>
  C40: Building the line table reads inside the caller's buffers and writes inside its own arrays only. It
  ends with \<^verbatim>\<open>EINVAL\<close>, \<^verbatim>\<open>ENOMEM\<close>, a table without compiled code, or a table in which the records are divided among the compiled functions without
  gap or overlap: every function has at least one record, its first record is at its address, and within every function but the last
  the addresses grow.
\<close>

theorem linfo_new_ok:
  assumes "info_ok lm info"
  shows "\<exists>r. bpf_prog_linfo__new lm info = Some r \<and>
    (case r of Inl e \<Rightarrow> e \<in> {EINVAL, ENOMEM}
     | Inr pl \<Rightarrow> linfo_ok pl \<and> raw_linfo pl = take (unat (nr_line_info info) * unat (line_info_rec_size info)) (line_info info) \<and>
        (nr_jited_func pl = 0 \<or> funcs_ok (the (jited_ksyms info)) pl))"
  by (rule new_table [OF assms])

text \<open>Two functions at 16 and 32 with two records each; the second record of the last function is given by \<open>x\<close>.\<close>

definition linfo_example :: "u8 \<Rightarrow> bpf_prog_info" where
  "linfo_example x = \<lparr>line_info = concat (map (\<lambda>i. [i, 0, 0, 0]) [0, 2, 5, 9]), nr_line_info = 4, line_info_rec_size = 4,
     jited_line_info = Some (concat (map (\<lambda>i. i # replicate 7 0) [16, 20, 32, x])), nr_jited_line_info = 4, jited_line_info_rec_size = 8,
     jited_ksyms = Some [16, 32], nr_jited_ksyms = 2, jited_func_lens = Some [16, 16], nr_jited_func_lens = 2\<rparr>"

definition linfo_example_mem :: linfo_mem where
  "linfo_example_mem = \<lparr>calloc_ok = True, raw_ok = True, raw_jited_ok = True, per_func_ok = True, func_idx_ok = True,
     per_func_junk = [7, 7], func_idx_junk = [7, 7]\<rparr>"

definition linfo_example_table :: "u8 \<Rightarrow> bpf_prog_linfo" where
  "linfo_example_table x = \<lparr>raw_linfo = concat (map (\<lambda>i. [i, 0, 0, 0]) [0, 2, 5, 9]),
     raw_jited_linfo = concat (map (\<lambda>i. i # replicate 7 0) [16, 20, 32, x]), nr_jited_linfo_per_func = [2, 2],
     jited_linfo_func_idx = [0, 2], nr_linfo = 4, nr_jited_func = 2, rec_size = 4, jited_rec_size = 8\<rparr>"

theorem linfo_new_ok_witness:
  "info_ok linfo_example_mem (linfo_example 40) \<and>
   bpf_prog_linfo__new linfo_example_mem (linfo_example 40) = Some (Inr (linfo_example_table 40)) \<and>
   funcs_ok [16, 32] (linfo_example_table 40)"
proof -
  have i: "info_ok linfo_example_mem (linfo_example 40)"
    by (simp add: info_ok_def linfo_example_def linfo_example_mem_def)
  have n: "bpf_prog_linfo__new linfo_example_mem (linfo_example 40) = Some (Inr (linfo_example_table 40))" by code_simp
  have k: "the (jited_ksyms (linfo_example 40)) = [16, 32]" "nr_jited_func (linfo_example_table 40) \<noteq> 0"
    by (simp_all add: linfo_example_def linfo_example_table_def)
  show ?thesis using linfo_new_ok [OF i] i n k by auto
qed

text \<open>
  The two searches return the right record of every table that was built, as long as the tables are smaller than 4 GiB. A search for an address looks
  only at the records of its function behind the skipped ones, a search for an instruction at all records behind the skipped ones. It fails with \<^verbatim>\<open>ENOENT\<close> when there is no such
  record or the first of them is beyond the target. Otherwise the result is the record in front of the first one beyond the target, or
  the last one when there is none beyond.
\<close>

theorem linfo_search:
  assumes "info_ok lm info" "bpf_prog_linfo__new lm info = Some (Inr pl)"
    and "unat (nr_linfo pl) * unat (rec_size pl) < 2 ^ 32" "unat (nr_linfo pl) * unat (jited_rec_size pl) < 2 ^ 32"
  shows "(let a = fstart pl (unat func_idx) + unat nr_skip; b = fstart pl (unat func_idx) + fcount pl (unat func_idx) in
      if nr_jited_func pl \<le> func_idx \<or> b \<le> a \<or> addr < jaddr pl a
      then bpf_prog_linfo__lfind_addr_func pl addr func_idx nr_skip = Some (Inl ENOENT)
      else \<exists>k. bpf_prog_linfo__lfind_addr_func pl addr func_idx nr_skip = Some (Inr (k * unat (rec_size pl))) \<and>
        last_below (jaddr pl) addr a b k) \<and>
    (let a = unat nr_skip; b = unat (nr_linfo pl) in
      if b \<le> a \<or> insn_off < insn_off_of pl a then bpf_prog_linfo__lfind pl insn_off nr_skip = Some (Inl ENOENT)
      else \<exists>k. bpf_prog_linfo__lfind pl insn_off nr_skip = Some (Inr (k * unat (rec_size pl))) \<and>
        last_below (insn_off_of pl) insn_off a b k)"
proof -
  have ok: "linfo_ok pl" using new_table [OF assms(1)] assms(2) by auto
  show ?thesis
    unfolding Let_def using lfind_addr_result [OF ok assms(3,4)] lfind_result [OF ok assms(3)] by blast
qed

theorem linfo_search_witness:
  "bpf_prog_linfo__lfind_addr_func (linfo_example_table 40) 39 1 0 = Some (Inr 8) \<and>
   last_below (jaddr (linfo_example_table 40)) 39 2 4 2"
proof -
  let ?pl = "linfo_example_table 40"
  have i: "info_ok linfo_example_mem (linfo_example 40)"
    by (simp add: info_ok_def linfo_example_def linfo_example_mem_def)
  have n: "bpf_prog_linfo__new linfo_example_mem (linfo_example 40) = Some (Inr ?pl)" by code_simp
  have sz: "unat (nr_linfo ?pl) * unat (rec_size ?pl) < 2 ^ 32" "unat (nr_linfo ?pl) * unat (jited_rec_size ?pl) < 2 ^ 32"
    "unat (rec_size ?pl) = 4" by (simp_all add: linfo_example_table_def)
  have v: "fstart ?pl (unat (1::u32)) = 2" "fcount ?pl (unat (1::u32)) = 2" "\<not> nr_jited_func ?pl \<le> 1" "jaddr ?pl 2 = 32"
    and r: "bpf_prog_linfo__lfind_addr_func ?pl 39 1 0 = Some (Inr 8)"
    by code_simp+
  show ?thesis
    using linfo_search [OF i n sz(1,2), of 1 0 39 0, THEN conjunct1] v r sz(3) by (auto simp: Let_def)
qed

text \<open>The addresses of the last function are not checked: a table in which they fall is accepted.\<close>

lemma linfo_last_unchecked:
  "bpf_prog_linfo__new linfo_example_mem (linfo_example 8) = Some (Inr (linfo_example_table 8)) \<and>
   jaddr (linfo_example_table 8) 3 < jaddr (linfo_example_table 8) 2"
proof -
  have "bpf_prog_linfo__new linfo_example_mem (linfo_example 8) = Some (Inr (linfo_example_table 8))" by code_simp
  moreover have "jaddr (linfo_example_table 8) 3 < jaddr (linfo_example_table 8) 2" by code_simp
  ultimately show ?thesis ..
qed

end
