(* ===== verification/Ringbuf.thy ===== *)
theory Ringbuf
  imports Prelude
begin

text \<open>
  \<^verbatim>\<open>lib/libbpf/src/ringbuf.c\<close>: the consumer of a BPF ring buffer and the producer of a user ring buffer. The data
  pages are mapped twice in a row, so an access behind the end is one to the beginning; \<open>twice\<close> is what the program
  sees. The kernel works at the same time: the consumer's \<open>t\<close>-th read of shared memory sees the producer position and the data of \<open>kern t\<close>.
  Mapping, polling and closing are system calls.
\<close>

section \<open>Model\<close>

definition BPF_RINGBUF_BUSY_BIT :: u32 where "BPF_RINGBUF_BUSY_BIT = push_bit 31 1"
definition BPF_RINGBUF_DISCARD_BIT :: u32 where "BPF_RINGBUF_DISCARD_BIT = push_bit 30 1"
definition BPF_RINGBUF_HDR_SZ :: u32 where "BPF_RINGBUF_HDR_SZ = 8"

record kview =
  producer_pos :: u64
  ring_data :: mem

definition twice :: "mem \<Rightarrow> mem" where
  "twice d = d @ d"

definition roundup_len :: "u32 \<Rightarrow> u32" where
  "roundup_len len = (drop_bit 2 (push_bit 2 len) + BPF_RINGBUF_HDR_SZ + 7) div 8 * 8"

text \<open>
  \<^verbatim>\<open>ringbuf_process_ring\<close>. The two loops are one: the inner one runs while there is data up to the producer position that was read
  last, then the position is read again if the round has found anything. The callback gets its context, the bytes of the sample and their number; what it
  does to the context is in its result. The result: return value, context, shared consumer position. \<open>Fault\<close> is a read outside
  the two mappings; \<open>None\<close> is a loop that does not end.
\<close>

datatype 'c ring_result = Fault | Done int 'c u64

partial_function (option) process_loop ::
  "('c \<Rightarrow> mem \<Rightarrow> u32 \<Rightarrow> int \<times> 'c) \<Rightarrow> (nat \<Rightarrow> kview) \<Rightarrow> u64 \<Rightarrow> nat \<Rightarrow> u64 \<Rightarrow> u64 \<Rightarrow> bool \<Rightarrow> int \<Rightarrow> 'c \<Rightarrow> u64 \<Rightarrow> 'c ring_result option" where
  "process_loop sample_cb kern msk t cons_pos prod_pos got_new_data cnt ctx consumer_pos =
     (if cons_pos < prod_pos then
        (case ld32 (twice (ring_data (kern t))) (unat (cons_pos AND msk)) of
           None \<Rightarrow> Some Fault
         | Some len \<Rightarrow>
             if len AND BPF_RINGBUF_BUSY_BIT \<noteq> 0 then Some (Done cnt ctx consumer_pos)
             else
               let cons_pos' = cons_pos + ucast (roundup_len len) in
               if len AND BPF_RINGBUF_DISCARD_BIT = 0 then
                 (case ldn (twice (ring_data (kern t))) (unat (cons_pos AND msk) + 8) (unat len) of
                    None \<Rightarrow> Some Fault
                  | Some sample \<Rightarrow>
                      (case sample_cb ctx sample len of
                         (err, ctx') \<Rightarrow>
                           if err < 0 then Some (Done err ctx' cons_pos')
                           else process_loop sample_cb kern msk (t + 1) cons_pos' prod_pos True (cnt + 1) ctx' cons_pos'))
               else process_loop sample_cb kern msk (t + 1) cons_pos' prod_pos True cnt ctx cons_pos')
      else if got_new_data then
        process_loop sample_cb kern msk (t + 1) cons_pos (producer_pos (kern t)) False cnt ctx consumer_pos
      else Some (Done cnt ctx consumer_pos))"

definition ringbuf_process_ring ::
  "('c \<Rightarrow> mem \<Rightarrow> u32 \<Rightarrow> int \<times> 'c) \<Rightarrow> (nat \<Rightarrow> kview) \<Rightarrow> u64 \<Rightarrow> 'c \<Rightarrow> u64 \<Rightarrow> 'c ring_result option" where
  "ringbuf_process_ring sample_cb kern msk ctx consumer_pos =
     process_loop sample_cb kern msk 1 consumer_pos (producer_pos (kern 0)) False 0 ctx consumer_pos"

definition INT_MAX :: int where "INT_MAX = 2 ^ 31 - 1"

text \<open>A ring: its callback, what the kernel does to it, its mask, context and consumer position.\<close>

record 'c ring =
  sample_cb :: "'c \<Rightarrow> mem \<Rightarrow> u32 \<Rightarrow> int \<times> 'c"
  r_kern :: "nat \<Rightarrow> kview"
  r_mask :: u64
  r_ctx :: 'c
  r_consumer_pos :: u64

text \<open>\<^verbatim>\<open>ring_buffer__consume\<close> over the rings in order. \<open>Fault\<close> and \<open>None\<close> are passed on.\<close>

fun consume_loop :: "'c ring list \<Rightarrow> int \<Rightarrow> ((int \<times> 'c ring list) option) option" where
  "consume_loop [] res = Some (Some (if res > INT_MAX then INT_MAX else res, []))"
| "consume_loop (r # rs) res =
     (case ringbuf_process_ring (sample_cb r) (r_kern r) (r_mask r) (r_ctx r) (r_consumer_pos r) of
        None \<Rightarrow> None
      | Some Fault \<Rightarrow> Some None
      | Some (Done err ctx cpos) \<Rightarrow>
          let r' = r\<lparr>r_ctx := ctx, r_consumer_pos := cpos\<rparr> in
          if err < 0 then Some (Some (err, r' # rs))
          else map_option (map_option (\<lambda>(e, rs'). (e, r' # rs'))) (consume_loop rs (res + err)))"

definition ring_buffer__consume :: "'c ring list \<Rightarrow> ((int \<times> 'c ring list) option) option" where
  "ring_buffer__consume rings = consume_loop rings 0"

text \<open>The user ring buffer: positions, mask and data pages.\<close>

record user_ring_buffer =
  u_consumer_pos :: u64
  u_producer_pos :: u64
  u_data :: mem
  u_mask :: u64

definition E2BIG :: int where "E2BIG = 7"
definition ENOSPC :: int where "ENOSPC = 28"

text \<open>
  The pages are the ring once; the second mapping shows the same bytes. A sample is its offset into the data. The errors are the
  values of \<^verbatim>\<open>errno\<close>.
\<close>

definition user_ring_buffer__reserve :: "user_ring_buffer \<Rightarrow> u32 \<Rightarrow> ((int + nat) \<times> user_ring_buffer) option" where
  "user_ring_buffer__reserve rb sz =
     (if sz AND (BPF_RINGBUF_BUSY_BIT OR BPF_RINGBUF_DISCARD_BIT) \<noteq> 0 then Some (Inl E2BIG, rb)
      else
        let cons_pos = u_consumer_pos rb; prod_pos = u_producer_pos rb;
            max_size = (ucast (u_mask rb + 1) :: u32);
            avail_size = (ucast (ucast max_size - (prod_pos - cons_pos)) :: u32);
            total_size = (sz + BPF_RINGBUF_HDR_SZ + 7) div 8 * 8
        in if total_size > max_size then Some (Inl E2BIG, rb)
           else if avail_size < total_size then Some (Inl ENOSPC, rb)
           else do {
             d1 \<leftarrow> st32 (u_data rb) (unat (prod_pos AND u_mask rb)) (sz OR BPF_RINGBUF_BUSY_BIT);
             d2 \<leftarrow> st32 d1 (unat (prod_pos AND u_mask rb) + 4) 0;
             Some (Inr (unat ((prod_pos + ucast BPF_RINGBUF_HDR_SZ) AND u_mask rb)),
                   rb\<lparr>u_data := d2, u_producer_pos := prod_pos + ucast total_size\<rparr>)
           })"

definition user_ringbuf_commit :: "user_ring_buffer \<Rightarrow> nat \<Rightarrow> bool \<Rightarrow> user_ring_buffer option" where
  "user_ringbuf_commit rb sample discard =
     (let hdr_offset = u_mask rb + 1 + word_of_nat sample - ucast BPF_RINGBUF_HDR_SZ;
          hdr = unat (hdr_offset AND u_mask rb)
      in do {
        len \<leftarrow> ld32 (u_data rb) hdr;
        let new_len = len AND NOT BPF_RINGBUF_BUSY_BIT;
        d \<leftarrow> st32 (u_data rb) hdr (if discard then new_len OR BPF_RINGBUF_DISCARD_BIT else new_len);
        Some (rb\<lparr>u_data := d\<rparr>)
      })"

definition user_ring_buffer__discard :: "user_ring_buffer \<Rightarrow> nat \<Rightarrow> user_ring_buffer option" where
  "user_ring_buffer__discard rb sample = user_ringbuf_commit rb sample True"

definition user_ring_buffer__submit :: "user_ring_buffer \<Rightarrow> nat \<Rightarrow> user_ring_buffer option" where
  "user_ring_buffer__submit rb sample = user_ringbuf_commit rb sample False"

section \<open>The consumer\<close>

lemma bit_busy: "bit BPF_RINGBUF_BUSY_BIT n \<longleftrightarrow> n = 31"
  unfolding BPF_RINGBUF_BUSY_BIT_def bit_push_bit_iff by (auto simp: bit_1_iff)

lemma bit_discard: "bit BPF_RINGBUF_DISCARD_BIT n \<longleftrightarrow> n = 30"
  unfolding BPF_RINGBUF_DISCARD_BIT_def bit_push_bit_iff by (auto simp: bit_1_iff)

lemma flag_free:
  assumes "n < 2 ^ 30"
  shows "(word_of_nat n :: u32) AND BPF_RINGBUF_BUSY_BIT = 0" "(word_of_nat n :: u32) AND BPF_RINGBUF_DISCARD_BIT = 0"
    "(word_of_nat n OR BPF_RINGBUF_DISCARD_BIT) AND BPF_RINGBUF_BUSY_BIT = 0"
    "(word_of_nat n OR BPF_RINGBUF_DISCARD_BIT) AND BPF_RINGBUF_DISCARD_BIT \<noteq> 0"
proof -
  have b: "\<not> bit (word_of_nat n :: u32) i" if "30 \<le> i" for i
  proof -
    have "take_bit 30 n = n" using assms by (simp add: take_bit_nat_eq_self)
    then have "\<not> bit n i" using that by (metis bit_take_bit_iff not_less)
    then show ?thesis by (simp add: bit_simps)
  qed
  show "(word_of_nat n :: u32) AND BPF_RINGBUF_BUSY_BIT = 0" "(word_of_nat n :: u32) AND BPF_RINGBUF_DISCARD_BIT = 0"
    "(word_of_nat n OR BPF_RINGBUF_DISCARD_BIT) AND BPF_RINGBUF_BUSY_BIT = 0"
    using b [of 30] b [of 31]
    by (auto simp: bit_and_iff bit_or_iff bit_busy bit_discard intro!: bit_word_eqI)
  have "bit ((word_of_nat n OR BPF_RINGBUF_DISCARD_BIT) AND BPF_RINGBUF_DISCARD_BIT) 30"
    by (simp add: bit_and_iff bit_or_iff bit_discard)
  then show "(word_of_nat n OR BPF_RINGBUF_DISCARD_BIT) AND BPF_RINGBUF_DISCARD_BIT \<noteq> 0" by fastforce
qed

lemma roundup_len_value:
  assumes "n < 2 ^ 30"
  shows "unat (roundup_len (word_of_nat n)) = (n + 15) div 8 * 8"
    and "roundup_len (word_of_nat n OR BPF_RINGBUF_DISCARD_BIT) = roundup_len (word_of_nat n)"
proof -
  have t: "drop_bit 2 (push_bit 2 w) = take_bit 30 w" for w :: u32
    by (rule bit_word_eqI) (auto simp: bit_simps)
  have "unat (take_bit 30 (word_of_nat n :: u32)) = n"
    using assms by (simp add: unsigned_take_bit_eq unat_of_nat take_bit_nat_eq_self)
  then show "unat (roundup_len (word_of_nat n)) = (n + 15) div 8 * 8"
    using assms unfolding roundup_len_def t by (simp add: unat_word_ariths unat_div BPF_RINGBUF_HDR_SZ_def)
  have "take_bit 30 (word_of_nat n OR BPF_RINGBUF_DISCARD_BIT) = take_bit 30 (word_of_nat n :: u32)"
    by (rule bit_word_eqI) (auto simp: bit_take_bit_iff bit_or_iff bit_discard)
  then show "roundup_len (word_of_nat n OR BPF_RINGBUF_DISCARD_BIT) = roundup_len (word_of_nat n)"
    unfolding roundup_len_def t by simp
qed

text \<open>What a ring holds: samples, discarded space and reservations that are not committed.\<close>

datatype ring_rec = Sample mem | Discarded nat | Busy

definition rec_step :: "nat \<Rightarrow> u64" where
  "rec_step n = word_of_nat ((n + 15) div 8 * 8)"

fun ring_holds :: "kview \<Rightarrow> u64 \<Rightarrow> u64 \<Rightarrow> ring_rec list \<Rightarrow> bool" where
  "ring_holds v msk p [] \<longleftrightarrow> p = producer_pos v"
| "ring_holds v msk p (Sample bs # rs) \<longleftrightarrow>
     p < producer_pos v \<and> length bs < 2 ^ 30 \<and>
     ld32 (twice (ring_data v)) (unat (p AND msk)) = Some (word_of_nat (length bs)) \<and>
     ldn (twice (ring_data v)) (unat (p AND msk) + 8) (length bs) = Some bs \<and>
     ring_holds v msk (p + rec_step (length bs)) rs"
| "ring_holds v msk p (Discarded n # rs) \<longleftrightarrow>
     p < producer_pos v \<and> n < 2 ^ 30 \<and>
     ld32 (twice (ring_data v)) (unat (p AND msk)) = Some (word_of_nat n OR BPF_RINGBUF_DISCARD_BIT) \<and>
     ring_holds v msk (p + rec_step n) rs"
| "ring_holds v msk p (Busy # rs) \<longleftrightarrow>
     p < producer_pos v \<and>
     (case ld32 (twice (ring_data v)) (unat (p AND msk)) of None \<Rightarrow> False | Some len \<Rightarrow> len AND BPF_RINGBUF_BUSY_BIT \<noteq> 0)"

text \<open>
  What the consumer has to do with the records: hand the samples to the callback in order, skip what is discarded, stop at the
  first reservation or behind the first sample that the callback refuses.
\<close>

fun deliver :: "('c \<Rightarrow> mem \<Rightarrow> u32 \<Rightarrow> int \<times> 'c) \<Rightarrow> ring_rec list \<Rightarrow> int \<Rightarrow> 'c \<Rightarrow> u64 \<Rightarrow> 'c ring_result" where
  "deliver cb [] cnt ctx p = Done cnt ctx p"
| "deliver cb (Sample bs # rs) cnt ctx p =
     (case cb ctx bs (word_of_nat (length bs)) of
        (err, ctx') \<Rightarrow>
          if err < 0 then Done err ctx' (p + rec_step (length bs))
          else deliver cb rs (cnt + 1) ctx' (p + rec_step (length bs)))"
| "deliver cb (Discarded n # rs) cnt ctx p = deliver cb rs cnt ctx (p + rec_step n)"
| "deliver cb (Busy # rs) cnt ctx p = Done cnt ctx p"

lemma step_eq:
  assumes "n < 2 ^ 30"
  shows "ucast (roundup_len (word_of_nat n)) = rec_step n"
    "ucast (roundup_len (word_of_nat n OR BPF_RINGBUF_DISCARD_BIT)) = rec_step n"
proof -
  have "word_of_nat (unat (roundup_len (word_of_nat n))) = rec_step n"
    unfolding roundup_len_value(1) [OF assms] rec_step_def ..
  then show "ucast (roundup_len (word_of_nat n)) = rec_step n" by simp
  then show "ucast (roundup_len (word_of_nat n OR BPF_RINGBUF_DISCARD_BIT)) = rec_step n"
    unfolding roundup_len_value(2) [OF assms] .
qed

lemma process_loop_delivers:
  "ring_holds v msk p rs \<Longrightarrow>
     process_loop cb (\<lambda>_. v) msk t p (producer_pos v) got cnt ctx p = Some (deliver cb rs cnt ctx p)"
proof (induction rs arbitrary: t p got cnt ctx)
  case Nil
  have "process_loop cb (\<lambda>_. v) msk t p (producer_pos v) False cnt ctx p = Some (Done cnt ctx p)" for t
    using Nil by (subst process_loop.simps) simp
  then show ?case using Nil by (subst process_loop.simps) simp
next
  case (Cons r rs)
  show ?case
  proof (cases r)
    case (Sample bs)
    then have "unat (word_of_nat (length bs) :: u32) = length bs"
      using Cons.prems by (simp add: unat_of_nat take_bit_nat_eq_self)
    then show ?thesis
      using Cons Sample by (subst process_loop.simps) (simp add: flag_free step_eq Let_def split: prod.splits)
  next
    case (Discarded n)
    then show ?thesis
      using Cons flag_free(3,4) [of n] step_eq(2) [of n] by (subst process_loop.simps) (simp add: Let_def)
  next
    case Busy
    then show ?thesis
      using Cons.prems by (subst process_loop.simps) (auto split: option.splits)
  qed
qed

fun samples :: "ring_rec list \<Rightarrow> mem list" where
  "samples [] = []"
| "samples (Sample bs # rs) = bs # samples rs"
| "samples (_ # rs) = samples rs"

definition accepts :: "('c \<Rightarrow> mem \<Rightarrow> u32 \<Rightarrow> int \<times> 'c) \<Rightarrow> bool" where
  "accepts cb \<longleftrightarrow> (\<forall>ctx bs n. 0 \<le> fst (cb ctx bs n))"

definition callbacks :: "('c \<Rightarrow> mem \<Rightarrow> u32 \<Rightarrow> int \<times> 'c) \<Rightarrow> mem list \<Rightarrow> 'c \<Rightarrow> 'c" where
  "callbacks cb = fold (\<lambda>bs ctx. snd (cb ctx bs (word_of_nat (length bs))))"

lemma deliver_all:
  "ring_holds v msk p rs \<Longrightarrow> accepts cb \<Longrightarrow> Busy \<notin> set rs \<Longrightarrow>
     deliver cb rs cnt ctx p = Done (cnt + int (length (samples rs))) (callbacks cb (samples rs) ctx) (producer_pos v)"
proof (induction rs arbitrary: p cnt ctx)
  case (Cons r rs)
  show ?case
  proof (cases r)
    case (Sample bs)
    obtain e c where r: "cb ctx bs (word_of_nat (length bs)) = (e, c)" by fastforce
    then have "\<not> e < 0" using Cons.prems(2) unfolding accepts_def by (metis fst_conv not_less)
    then show ?thesis using Cons Sample r by (simp add: callbacks_def)
  qed (use Cons in \<open>simp_all add: callbacks_def\<close>)
qed (simp add: callbacks_def)

lemma process_ring_delivers:
  "ring_holds v msk p rs \<Longrightarrow> ringbuf_process_ring cb (\<lambda>_. v) msk ctx p = Some (deliver cb rs 0 ctx p)"
  by (simp add: ringbuf_process_ring_def process_loop_delivers)

text \<open>A ring whose kernel side rests in \<open>v\<close> and that holds the records \<open>rs\<close>, all committed, for a callback that accepts everything.\<close>

definition quiet_ring :: "'c ring \<Rightarrow> kview \<Rightarrow> ring_rec list \<Rightarrow> bool" where
  "quiet_ring r v rs \<longleftrightarrow>
     r_kern r = (\<lambda>_. v) \<and> ring_holds v (r_mask r) (r_consumer_pos r) rs \<and> accepts (sample_cb r) \<and> Busy \<notin> set rs"

lemma consume_loop_drains:
  "list_all (\<lambda>(r, v, rs). quiet_ring r v rs) qs \<Longrightarrow>
     consume_loop (map fst qs) res =
       Some (Some (min INT_MAX (res + int (\<Sum>(r, v, rs) \<leftarrow> qs. length (samples rs))),
         map (\<lambda>(r, v, rs). r\<lparr>r_ctx := callbacks (sample_cb r) (samples rs) (r_ctx r), r_consumer_pos := producer_pos v\<rparr>) qs))"
proof (induction qs arbitrary: res)
  case (Cons q qs)
  obtain r v rs where q: "q = (r, v, rs)" by (metis prod_cases3)
  have h: "ring_holds v (r_mask r) (r_consumer_pos r) rs" "accepts (sample_cb r)" "Busy \<notin> set rs" "r_kern r = (\<lambda>_. v)"
    using Cons.prems by (auto simp: q quiet_ring_def)
  have "ringbuf_process_ring (sample_cb r) (r_kern r) (r_mask r) (r_ctx r) (r_consumer_pos r) =
      Some (Done (int (length (samples rs))) (callbacks (sample_cb r) (samples rs) (r_ctx r)) (producer_pos v))"
    using process_ring_delivers [OF h(1), of "sample_cb r" "r_ctx r"] deliver_all [OF h(1-3), of 0 "r_ctx r"] by (simp add: h(4))
  then show ?case using Cons by (simp add: q Let_def add.assoc)
qed simp

section \<open>The user ring buffer\<close>

text \<open>The size is a power of two, the positions are at most that far apart, and the producer position is aligned.\<close>

definition user_ring_ok :: "nat \<Rightarrow> user_ring_buffer \<Rightarrow> bool" where
  "user_ring_ok k rb \<longleftrightarrow>
     3 \<le> k \<and> k \<le> 31 \<and> u_mask rb = 2 ^ k - 1 \<and> length (u_data rb) = 2 ^ k \<and>
     unat (u_consumer_pos rb) \<le> unat (u_producer_pos rb) \<and> unat (u_producer_pos rb) - unat (u_consumer_pos rb) \<le> 2 ^ k \<and>
     8 dvd unat (u_producer_pos rb) \<and> unat (u_producer_pos rb) < 2 ^ 63"

definition free_space :: "nat \<Rightarrow> user_ring_buffer \<Rightarrow> nat" where
  "free_space k rb = 2 ^ k - (unat (u_producer_pos rb) - unat (u_consumer_pos rb))"

definition record_size :: "u32 \<Rightarrow> nat" where
  "record_size n = (unat n + 15) div 8 * 8"

lemma and_mask_mod: "unat (x AND (2 ^ k - 1) :: u64) = unat x mod 2 ^ k"
proof -
  have "(2 ^ k - 1 :: u64) = Bit_Operations.mask k" by (simp add: mask_eq_exp_minus_1)
  then have "x AND (2 ^ k - 1) = take_bit k x" by (simp add: take_bit_eq_mask)
  then have "unat (x AND (2 ^ k - 1)) = take_bit k (unat x)" by (simp only: unsigned_take_bit_eq)
  then show ?thesis by (simp add: take_bit_eq_mod)
qed

lemma hdr_slot:
  assumes "user_ring_ok k rb"
  shows "unat (u_producer_pos rb AND u_mask rb) + 8 \<le> 2 ^ k" "8 dvd unat (u_producer_pos rb AND u_mask rb)"
proof -
  have m: "unat (u_producer_pos rb AND u_mask rb) = unat (u_producer_pos rb) mod 2 ^ k"
    using assms and_mask_mod [of "u_producer_pos rb" k] by (simp add: user_ring_ok_def)
  have d: "(8::nat) dvd 2 ^ k" using assms le_imp_power_dvd [of 3 k "2::nat"] by (simp add: user_ring_ok_def)
  then show a: "8 dvd unat (u_producer_pos rb AND u_mask rb)" unfolding m using assms by (simp add: user_ring_ok_def dvd_mod)
  have "unat (u_producer_pos rb AND u_mask rb) < 2 ^ k" by (simp add: m)
  moreover have "x + 8 \<le> y" if "x < y" "8 dvd x" "8 dvd y" for x y :: nat using that by (auto elim!: dvdE)
  ultimately show "unat (u_producer_pos rb AND u_mask rb) + 8 \<le> 2 ^ k" using a d by blast
qed

lemma small_flags: "n AND (BPF_RINGBUF_BUSY_BIT OR BPF_RINGBUF_DISCARD_BIT) = 0 \<longleftrightarrow> unat n < 2 ^ 30"
proof
  assume a: "n AND (BPF_RINGBUF_BUSY_BIT OR BPF_RINGBUF_DISCARD_BIT) = 0"
  have b: "\<not> bit n 30" "\<not> bit n 31"
    using arg_cong [OF a, of "\<lambda>w. bit w 30"] arg_cong [OF a, of "\<lambda>w. bit w 31"] by (auto simp: bit_and_iff bit_or_iff bit_busy bit_discard)
  have "n = take_bit 30 n"
  proof (rule bit_word_eqI)
    fix i assume "i < LENGTH(32)"
    then consider "i < 30" | "i = 30" | "i = 31" by fastforce
    then show "bit n i = bit (take_bit 30 n) i" using b by cases (simp_all add: bit_take_bit_iff)
  qed
  then have "unat n = take_bit 30 (unat n)" by (metis unsigned_take_bit_eq)
  then show "unat n < 2 ^ 30" by (metis take_bit_nat_less_exp)
next
  assume "unat n < 2 ^ 30"
  from flag_free(1,2) [OF this] show "n AND (BPF_RINGBUF_BUSY_BIT OR BPF_RINGBUF_DISCARD_BIT) = 0"
    by (simp add: bit.conj_disj_distrib)
qed

lemma record_size_word:
  assumes "unat n < 2 ^ 30"
  shows "unat ((n + BPF_RINGBUF_HDR_SZ + 7) div 8 * 8) = record_size n" "record_size n < 2 ^ 31" "8 dvd record_size n" "8 \<le> record_size n"
proof -
  have d: "(unat n + 15) div 8 * 8 \<le> unat n + 15" by simp
  then show "record_size n < 2 ^ 31" using assms by (simp add: record_size_def)
  show "unat ((n + BPF_RINGBUF_HDR_SZ + 7) div 8 * 8) = record_size n"
    using assms d by (simp add: unat_word_ariths unat_div BPF_RINGBUF_HDR_SZ_def record_size_def)
  show "8 dvd record_size n" "8 \<le> record_size n" by (simp_all add: record_size_def)
qed

lemma unat_pow: "(2::nat) ^ k < 2 ^ 64 \<Longrightarrow> unat (2 ^ k :: u64) = 2 ^ k"
  using unat_of_nat [of "2 ^ k", where 'a = 64] by simp

lemma ring_sizes:
  assumes "user_ring_ok k rb"
  shows "unat (ucast (u_mask rb + 1) :: u32) = 2 ^ k"
    and "unat (ucast (ucast (ucast (u_mask rb + 1) :: u32) - (u_producer_pos rb - u_consumer_pos rb)) :: u32) = free_space k rb"
proof -
  have k: "k \<le> 31" "u_mask rb + 1 = 2 ^ k" using assms by (simp_all add: user_ring_ok_def)
  have k3: "(2::nat) ^ k \<le> 2 ^ 31" using k(1) by (rule power_increasing) simp
  then have k4: "(2::nat) ^ k < 2 ^ 32" by (rule le_less_trans) simp
  have w64: "unat (2 ^ k :: u64) = 2 ^ k" using unat_pow [of k] k4 by simp
  show m: "unat (ucast (u_mask rb + 1) :: u32) = 2 ^ k"
    unfolding k(2) using k(1) k4 w64 by (simp add: unsigned_ucast_eq take_bit_nat_eq_self)
  have e: "ucast (ucast (u_mask rb + 1) :: u32) = (2 ^ k :: u64)"
  proof -
    have "word_of_nat (unat (ucast (u_mask rb + 1) :: u32)) = (2 ^ k :: u64)" unfolding m by simp
    then show ?thesis by (simp only: of_nat_unat)
  qed
  have u: "unat (u_producer_pos rb - u_consumer_pos rb) = unat (u_producer_pos rb) - unat (u_consumer_pos rb)"
    using assms by (simp add: user_ring_ok_def unat_sub word_le_nat_alt)
  have "unat (2 ^ k - (u_producer_pos rb - u_consumer_pos rb)) = free_space k rb"
    using assms u w64 by (simp add: user_ring_ok_def unat_sub word_le_nat_alt free_space_def)
  moreover have "free_space k rb < 2 ^ 32" using k4 by (simp add: free_space_def)
  ultimately show "unat (ucast (ucast (ucast (u_mask rb + 1) :: u32) - (u_producer_pos rb - u_consumer_pos rb)) :: u32) = free_space k rb"
    unfolding e by (simp add: unsigned_ucast_eq take_bit_nat_eq_self)
qed

definition reserved :: "nat \<Rightarrow> user_ring_buffer \<Rightarrow> u32 \<Rightarrow> user_ring_buffer" where
  "reserved k rb n =
     (let slot = unat (u_producer_pos rb) mod 2 ^ k in
      rb\<lparr>u_data := patch (patch (u_data rb) slot (le32_bytes (n OR BPF_RINGBUF_BUSY_BIT))) (slot + 4) (le32_bytes 0),
         u_producer_pos := u_producer_pos rb + word_of_nat (record_size n)\<rparr>)"

lemma slot_facts:
  assumes "user_ring_ok k rb"
  defines "slot \<equiv> unat (u_producer_pos rb) mod 2 ^ k"
  shows "unat (u_producer_pos rb AND u_mask rb) = slot" "slot + 8 \<le> 2 ^ k" "8 dvd slot" "slot + 8 \<le> length (u_data rb)"
proof -
  show m: "unat (u_producer_pos rb AND u_mask rb) = slot"
    using assms(1) and_mask_mod [of "u_producer_pos rb" k] by (simp add: user_ring_ok_def slot_def)
  show "slot + 8 \<le> 2 ^ k" "8 dvd slot" using hdr_slot [OF assms(1)] by (simp_all add: m)
  then show "slot + 8 \<le> length (u_data rb)" using assms(1) by (simp add: user_ring_ok_def)
qed

lemma reserve_result:
  assumes ok: "user_ring_ok k rb"
  shows "user_ring_buffer__reserve rb n =
    Some (if 2 ^ 30 \<le> unat n \<or> 2 ^ k < record_size n then (Inl E2BIG, rb)
      else if free_space k rb < record_size n then (Inl ENOSPC, rb)
      else (Inr ((unat (u_producer_pos rb) mod 2 ^ k + 8) mod 2 ^ k), reserved k rb n))"
proof (cases "unat n < 2 ^ 30")
  case False
  then show ?thesis using small_flags [of n] by (simp add: user_ring_buffer__reserve_def)
next
  case True
  let ?slot = "unat (u_producer_pos rb) mod 2 ^ k"
  have flags: "n AND (BPF_RINGBUF_BUSY_BIT OR BPF_RINGBUF_DISCARD_BIT) = 0" using True small_flags by simp
  note sz = record_size_word [OF True] ring_sizes [OF ok] and slot = slot_facts [OF ok]
  have "word_of_nat (unat ((n + BPF_RINGBUF_HDR_SZ + 7) div 8 * 8)) = (word_of_nat (record_size n) :: u64)" by (simp only: sz(1))
  then have step: "ucast ((n + BPF_RINGBUF_HDR_SZ + 7) div 8 * 8) = (word_of_nat (record_size n) :: u64)" by simp
  have p8: "unat (u_producer_pos rb + 8) = unat (u_producer_pos rb) + 8"
    using ok by (simp add: user_ring_ok_def unat_word_ariths)
  have "unat ((u_producer_pos rb + ucast BPF_RINGBUF_HDR_SZ) AND u_mask rb) = (?slot + 8) mod 2 ^ k"
    using ok and_mask_mod [of "u_producer_pos rb + 8" k] by (simp add: user_ring_ok_def BPF_RINGBUF_HDR_SZ_def p8 mod_add_left_eq)
  then show ?thesis
    using True slot(2,4) unfolding user_ring_buffer__reserve_def Let_def flags word_less_nat_alt sz(1,5,6) slot(1)
    by (simp add: st32_def stn_def reserved_def Let_def step)
qed

lemma reserved_ok:
  assumes ok: "user_ring_ok k rb" and n: "unat n < 2 ^ 30" "record_size n \<le> free_space k rb"
    and far: "unat (u_producer_pos rb) + 2 ^ 31 < 2 ^ 63"
  shows "user_ring_ok k (reserved k rb n)" "free_space k (reserved k rb n) = free_space k rb - record_size n"
    "unat (u_producer_pos (reserved k rb n)) = unat (u_producer_pos rb) + record_size n"
proof -
  note sz = record_size_word [OF n(1)]
  have "unat (word_of_nat (record_size n) :: u64) = record_size n" using sz(2) by (simp add: unat_of_nat)
  then show p: "unat (u_producer_pos (reserved k rb n)) = unat (u_producer_pos rb) + record_size n"
    using far sz(2) by (simp add: reserved_def Let_def unat_word_ariths)
  show "free_space k (reserved k rb n) = free_space k rb - record_size n"
    using ok n(2) p by (simp add: free_space_def reserved_def Let_def user_ring_ok_def)
  have "length (u_data (reserved k rb n)) = length (u_data rb)"
    using slot_facts [OF ok] by (simp add: reserved_def Let_def)
  moreover have "unat (u_producer_pos rb) + record_size n < 2 ^ 63" using far sz(2) by simp
  ultimately show "user_ring_ok k (reserved k rb n)"
    using ok n(2) sz(3) unfolding user_ring_ok_def p by (auto simp: reserved_def Let_def free_space_def)
qed

lemma commit_header:
  assumes ok: "user_ring_ok k rb" and h: "h + 8 \<le> 2 ^ k"
  shows "user_ringbuf_commit rb ((h + 8) mod 2 ^ k) discard =
    (case ld32 (u_data rb) h of None \<Rightarrow> None
     | Some len \<Rightarrow> Some (rb\<lparr>u_data := patch (u_data rb) h (le32_bytes
         (if discard then (len AND NOT BPF_RINGBUF_BUSY_BIT) OR BPF_RINGBUF_DISCARD_BIT else len AND NOT BPF_RINGBUF_BUSY_BIT))\<rparr>))"
proof -
  let ?s = "(h + 8) mod 2 ^ k"
  have k: "3 \<le> k" "k \<le> 31" "u_mask rb = 2 ^ k - 1" "length (u_data rb) = 2 ^ k" using ok by (simp_all add: user_ring_ok_def)
  have e8: "(8::nat) \<le> 2 ^ k" using h by simp
  have big: "(2::nat) ^ k \<le> 2 ^ 31" using k(2) by (rule power_increasing) simp
  have N: "(2 ^ k + ?s - 8) mod 2 ^ k = h"
  proof (cases "h + 8 = 2 ^ k")
    case True
    then show ?thesis using e8 by simp
  next
    case False
    then have "?s = h + 8" using h by simp
    then show ?thesis using h e8 by simp
  qed
  have "(2 ^ k + word_of_nat ?s - 8 :: u64) = word_of_nat (2 ^ k + ?s - 8)"
    using e8 by (simp add: of_nat_diff)
  moreover have "?s < 2 ^ k" by simp
  then have "2 ^ k + ?s - 8 < 2 ^ 31 + 2 ^ 31" using big by linarith
  then have "2 ^ k + ?s - 8 < 2 ^ 64" by (rule less_le_trans) simp
  then have "unat (word_of_nat (2 ^ k + ?s - 8) :: u64) = 2 ^ k + ?s - 8" by (simp add: unat_of_nat)
  ultimately have "unat ((u_mask rb + 1 + word_of_nat ?s - ucast BPF_RINGBUF_HDR_SZ) AND u_mask rb) = h"
    using and_mask_mod [of "2 ^ k + word_of_nat ?s - 8" k] N by (simp add: k(3) BPF_RINGBUF_HDR_SZ_def)
  then show ?thesis
    using h k(4) by (simp add: user_ringbuf_commit_def Let_def st32_def stn_def split: option.splits)
qed

section \<open>Properties\<close>

text \<open>
  C38: A consumer that runs while the kernel is quiet always comes to an end and leaves nothing behind. If every ring holds committed samples
  and discarded records and the callbacks accept what they get, \<^verbatim>\<open>ring_buffer__consume\<close> never reads outside the mappings, gives every callback
  all samples of its ring, with their exact bytes, once and in order, moves every consumer position to the producer position, and returns the
  number of samples, at most \<^verbatim>\<open>INT_MAX\<close>.
\<close>

theorem ring_buffer_drained:
  assumes "list_all (\<lambda>(r, v, rs). quiet_ring r v rs) qs"
  shows "ring_buffer__consume (map fst qs) =
    Some (Some (min INT_MAX (int (\<Sum>(r, v, rs) \<leftarrow> qs. length (samples rs))),
      map (\<lambda>(r, v, rs). r\<lparr>r_ctx := callbacks (sample_cb r) (samples rs) (r_ctx r), r_consumer_pos := producer_pos v\<rparr>) qs))"
  using consume_loop_drains [OF assms, of 0] by (simp add: ring_buffer__consume_def)

text \<open>A ring of 32 bytes: a sample of ten bytes that wraps around the end, then a discarded record.\<close>

definition drain_view :: kview where
  "drain_view = \<lparr>producer_pos = 48, ring_data =
     [8, 9, 0, 0, 0, 0, 0, 0] @ [0, 0, 0, 64, 0, 0, 0, 0] @ [10, 0, 0, 0, 0, 0, 0, 0] @ [0, 1, 2, 3, 4, 5, 6, 7]\<rparr>"

definition drain_ring :: "mem list ring" where
  "drain_ring = \<lparr>sample_cb = (\<lambda>ctx bs n. (0, ctx @ [bs])), r_kern = (\<lambda>_. drain_view), r_mask = 31, r_ctx = [], r_consumer_pos = 16\<rparr>"

theorem ring_buffer_drained_witness:
  "ring_buffer__consume [drain_ring] =
     Some (Some (1, [drain_ring\<lparr>r_ctx := [[0, 1, 2, 3, 4, 5, 6, 7, 8, 9]], r_consumer_pos := 48\<rparr>]))"
proof -
  let ?rs = "[Sample [0, 1, 2, 3, 4, 5, 6, 7, 8, 9], Discarded 0]"
  have "ring_holds drain_view 31 16 ?rs"
    by (simp add: drain_view_def ld32_def ldn_def twice_def le32_def rec_step_def BPF_RINGBUF_DISCARD_BIT_def)
  then have q: "list_all (\<lambda>(r, v, rs). quiet_ring r v rs) [(drain_ring, drain_view, ?rs)]"
    by (simp add: quiet_ring_def drain_ring_def accepts_def del: ring_holds.simps)
  show ?thesis using ring_buffer_drained [OF q]
    by (simp add: drain_ring_def drain_view_def callbacks_def INT_MAX_def)
qed

lemma ld32_patch:
  assumes "i + 4 \<le> length m"
  shows "ld32 (patch m i (le32_bytes w)) i = Some w"
proof -
  have "patch m i (le32_bytes w) ! i = ucast w" "patch m i (le32_bytes w) ! (i + 1) = ucast (drop_bit 8 w)"
    "patch m i (le32_bytes w) ! (i + 2) = ucast (drop_bit 16 w)" "patch m i (le32_bytes w) ! (i + 3) = ucast (drop_bit 24 w)"
    using assms by (simp_all add: nth_patch le32_bytes_def)
  then show ?thesis using assms by (simp add: ld32_def)
qed

lemma ld32_other:
  assumes "i + 4 \<le> length m" "j + length bs \<le> length m" "i + 4 \<le> j"
  shows "ld32 (patch m j bs) i = ld32 m i"
  using assms by (simp add: ld32_def nth_patch)

text \<open>Two rings agree outside the header at \<open>h\<close>.\<close>

definition same_but_header :: "nat \<Rightarrow> mem \<Rightarrow> mem \<Rightarrow> bool" where
  "same_but_header h d d' \<longleftrightarrow> length d' = length d \<and> (\<forall>i < length d. \<not> (h \<le> i \<and> i < h + 8) \<longrightarrow> d' ! i = d ! i)"

lemma same_but_patch: "h + 8 \<le> length d \<Longrightarrow> h \<le> j \<Longrightarrow> j + length bs \<le> h + 8 \<Longrightarrow> same_but_header h d (patch d j bs)"
  by (auto simp: same_but_header_def nth_patch)

lemma same_but_trans: "same_but_header h a b \<Longrightarrow> same_but_header h b c \<Longrightarrow> same_but_header h a c"
  by (auto simp: same_but_header_def)

lemma clear_busy:
  assumes "unat n < 2 ^ 30"
  shows "(n OR BPF_RINGBUF_BUSY_BIT) AND NOT BPF_RINGBUF_BUSY_BIT = n"
proof -
  have "n AND BPF_RINGBUF_BUSY_BIT = 0" using flag_free(1) [OF assms] by simp
  from arg_cong [OF this, of "\<lambda>w. bit w 31"] have "\<not> bit n 31" by (simp add: bit_and_iff bit_busy)
  then show ?thesis by (intro bit_word_eqI) (auto simp: bit_simps bit_busy)
qed

lemma reserved_data:
  assumes ok: "user_ring_ok k rb"
  defines "h \<equiv> unat (u_producer_pos rb) mod 2 ^ k"
  shows "ld32 (u_data (reserved k rb n)) h = Some (n OR BPF_RINGBUF_BUSY_BIT)" "same_but_header h (u_data rb) (u_data (reserved k rb n))"
proof -
  have h: "h + 8 \<le> length (u_data rb)" using slot_facts [OF ok] by (simp add: h_def)
  show "ld32 (u_data (reserved k rb n)) h = Some (n OR BPF_RINGBUF_BUSY_BIT)"
    using h by (simp add: reserved_def Let_def flip: h_def) (simp add: ld32_other ld32_patch)
  have "same_but_header h (u_data rb) (patch (u_data rb) h (le32_bytes w))" for w by (rule same_but_patch) (use h in simp_all)
  moreover have "same_but_header h (patch (u_data rb) h (le32_bytes w)) (patch (patch (u_data rb) h (le32_bytes w)) (h + 4) (le32_bytes 0))" for w
    by (rule same_but_patch) (use h in simp_all)
  ultimately show "same_but_header h (u_data rb) (u_data (reserved k rb n))"
    by (auto simp: reserved_def Let_def simp flip: h_def intro: same_but_trans)
qed

lemma commit_reserved:
  assumes ok: "user_ring_ok k rb" and n: "unat n < 2 ^ 30" "record_size n \<le> free_space k rb"
    and far: "unat (u_producer_pos rb) + 2 ^ 31 < 2 ^ 63"
  defines "h \<equiv> unat (u_producer_pos rb) mod 2 ^ k"
  shows "\<exists>d. user_ringbuf_commit (reserved k rb n) ((h + 8) mod 2 ^ k) discard = Some ((reserved k rb n)\<lparr>u_data := d\<rparr>) \<and>
    ld32 d h = Some (if discard then n OR BPF_RINGBUF_DISCARD_BIT else n) \<and> same_but_header h (u_data rb) d"
proof -
  note rok = reserved_ok(1) [OF ok n far] and rd = reserved_data [OF ok, of n, folded h_def] and sl = slot_facts [OF ok, folded h_def]
  have len: "length (u_data (reserved k rb n)) = 2 ^ k" using rok by (simp add: user_ring_ok_def)
  have sb: "same_but_header h (u_data rb) (patch (u_data (reserved k rb n)) h (le32_bytes w))" for w
    by (rule same_but_trans [OF rd(2)], rule same_but_patch) (use sl(2) len in simp_all)
  let ?d = "patch (u_data (reserved k rb n)) h (le32_bytes (if discard then n OR BPF_RINGBUF_DISCARD_BIT else n))"
  have "user_ringbuf_commit (reserved k rb n) ((h + 8) mod 2 ^ k) discard = Some ((reserved k rb n)\<lparr>u_data := ?d\<rparr>)"
    unfolding commit_header [OF rok sl(2)] rd(1) by (simp add: clear_busy [OF n(1)])
  moreover have "ld32 ?d h = Some (if discard then n OR BPF_RINGBUF_DISCARD_BIT else n)"
    using sl(2) len by (simp add: ld32_patch)
  ultimately show ?thesis using sb by blast
qed

text \<open>
  C39: Reserving and committing in a user ring buffer. A reservation fails with \<^verbatim>\<open>E2BIG\<close> exactly when the record can never fit and
  with \<^verbatim>\<open>ENOSPC\<close> exactly when it does not fit now, and then nothing changes. Otherwise it takes the rounded size of the record from the free
  space, keeps the positions in their relation, and writes nothing but the eight header bytes, marked busy. Committing or discarding the sample that was
  returned finds this header again, also when the sample begins at the start of the ring, and leaves there the length that was asked
  for, with the discard mark if the sample is discarded.
\<close>

theorem user_ring_reserve_commit:
  assumes "user_ring_ok k rb" "unat (u_producer_pos rb) + 2 ^ 31 < 2 ^ 63"
  shows "(case user_ring_buffer__reserve rb n of
      None \<Rightarrow> False
    | Some (Inl e, rb') \<Rightarrow>
        rb' = rb \<and> (if 2 ^ 30 \<le> unat n \<or> 2 ^ k < record_size n then e = E2BIG else e = ENOSPC \<and> free_space k rb < record_size n)
    | Some (Inr s, rb') \<Rightarrow>
        let h = unat (u_producer_pos rb) mod 2 ^ k in
        user_ring_ok k rb' \<and> free_space k rb = free_space k rb' + record_size n \<and>
        ld32 (u_data rb') h = Some (n OR BPF_RINGBUF_BUSY_BIT) \<and> same_but_header h (u_data rb) (u_data rb') \<and>
        (\<exists>d. user_ring_buffer__submit rb' s = Some (rb'\<lparr>u_data := d\<rparr>) \<and> ld32 d h = Some n \<and> same_but_header h (u_data rb) d) \<and>
        (\<exists>d. user_ring_buffer__discard rb' s = Some (rb'\<lparr>u_data := d\<rparr>) \<and>
          ld32 d h = Some (n OR BPF_RINGBUF_DISCARD_BIT) \<and> same_but_header h (u_data rb) d))"
proof (cases "2 ^ 30 \<le> unat n \<or> 2 ^ k < record_size n \<or> free_space k rb < record_size n")
  case True
  then show ?thesis unfolding reserve_result [OF assms(1)] by auto
next
  case False
  then have n: "unat n < 2 ^ 30" "record_size n \<le> free_space k rb" by simp_all
  show ?thesis
    using False commit_reserved [OF assms(1) n assms(2), of False] commit_reserved [OF assms(1) n assms(2), of True]
      reserved_ok(1,2) [OF assms(1) n assms(2)] reserved_data [OF assms(1), of n] n(2)
    unfolding reserve_result [OF assms(1)]
    by (simp add: Let_def user_ring_buffer__submit_def user_ring_buffer__discard_def)
qed

theorem user_ring_reserve_commit_witness:
  "let rb = \<lparr>u_consumer_pos = 16, u_producer_pos = 24, u_data = replicate 32 7, u_mask = 31\<rparr>
   in user_ring_ok 5 rb \<and>
      (\<exists>rb'. user_ring_buffer__reserve rb 3 = Some (Inr 0, rb') \<and> free_space 5 rb = free_space 5 rb' + 16 \<and>
        (\<exists>d. user_ring_buffer__submit rb' 0 = Some (rb'\<lparr>u_data := d\<rparr>) \<and> ld32 d 24 = Some 3))"
proof -
  let ?rb = "\<lparr>u_consumer_pos = 16, u_producer_pos = 24, u_data = replicate 32 7, u_mask = 31\<rparr>"
  have ok: "user_ring_ok 5 ?rb" by (simp add: user_ring_ok_def)
  have far: "unat (u_producer_pos ?rb) + 2 ^ 31 < 2 ^ 63" by simp
  have "map_option fst (user_ring_buffer__reserve ?rb 3) = Some (Inr 0)" by code_simp
  then obtain rb' where r: "user_ring_buffer__reserve ?rb 3 = Some (Inr 0, rb')" by auto
  have s: "record_size 3 = 16" by (simp add: record_size_def)
  show ?thesis
    using user_ring_reserve_commit [OF ok far, of 3] ok s by (auto simp: r Let_def)
qed

end
