(* ===== verification/Strset.thy ===== *)
theory Strset
  imports Hashmap
begin

text \<open>
  \<^verbatim>\<open>lib/libbpf/src/strset.c\<close>: a set of strings, stored one behind the other in one buffer and found again by an index,
  the hash table of \<open>Hashmap\<close>, whose keys are offsets into the buffer. The functions by which the table hashes and compares keys
  read the buffer as it is at the time of the call. The length of the list \<open>strs_data\<close> is the capacity. Allocation outcomes are parameters.
\<close>

section \<open>Model\<close>

abbreviation NUL :: char where "NUL \<equiv> CHR 0x00"

definition str_at :: "string \<Rightarrow> u64 \<Rightarrow> string" where
  "str_at d off = takeWhile (\<lambda>c. c \<noteq> NUL) (drop (unat off) d)"

record strset =
  strs_data :: string
  strs_data_len :: nat
  strs_data_max_len :: nat
  strs_hash :: hashmap

definition strset_hash_fn :: "string \<Rightarrow> u64 \<Rightarrow> u64" where
  "strset_hash_fn d key = str_hash (str_at d key)"

definition strset_equal_fn :: "string \<Rightarrow> u64 \<Rightarrow> u64 \<Rightarrow> bool" where
  "strset_equal_fn d key1 key2 \<longleftrightarrow> str_at d key1 = str_at d key2"

definition index_on :: "string \<Rightarrow> hashmap \<Rightarrow> hashmap" where
  "index_on d m = m\<lparr>hash_fn := strset_hash_fn d, equal_fn := strset_equal_fn d\<rparr>"

text \<open>\<^verbatim>\<open>libbpf_add_mem\<close> for an array of elements; new elements are all zero bits, which is the value \<open>zero\<close> of their type.\<close>

definition libbpf_add_mem :: "'a \<Rightarrow> (nat \<Rightarrow> bool) \<Rightarrow> 'a list \<Rightarrow> nat \<Rightarrow> nat \<Rightarrow> nat \<Rightarrow> 'a list option" where
  "libbpf_add_mem zero realloc_ok data cur_cnt max_cnt add_cnt =
     (let cap_cnt = length data in
      if cur_cnt + add_cnt \<le> cap_cnt then Some data
      else if cur_cnt + add_cnt > max_cnt then None
      else
        let n1 = cap_cnt + cap_cnt div 4;
            n2 = (if n1 < 16 then 16 else n1);
            n3 = (if n2 > max_cnt then max_cnt else n2);
            new_cnt = (if n3 < cur_cnt + add_cnt then cur_cnt + add_cnt else n3)
        in if \<not> realloc_ok new_cnt then None else Some (data @ replicate (new_cnt - cap_cnt) zero))"

definition strset_add_str_mem :: "(nat \<Rightarrow> bool) \<Rightarrow> strset \<Rightarrow> nat \<Rightarrow> string option" where
  "strset_add_str_mem realloc_ok ss add_sz =
     libbpf_add_mem NUL realloc_ok (strs_data ss) (strs_data_len ss) (strs_data_max_len ss) add_sz"

definition put_str :: "string \<Rightarrow> nat \<Rightarrow> string \<Rightarrow> string" where
  "put_str d off s = take off d @ (s @ [NUL]) @ drop (off + length s + 1) d"

text \<open>A \<^verbatim>\<open>long\<close> returned as an \<^verbatim>\<open>int\<close>.\<close>

definition as_int :: "u64 \<Rightarrow> int" where
  "as_int off = sint (ucast off :: u32)"

definition strset__find_str :: "(nat \<Rightarrow> bool) \<Rightarrow> strset \<Rightarrow> string \<Rightarrow> int \<times> strset" where
  "strset__find_str realloc_ok ss s =
     (case strset_add_str_mem realloc_ok ss (length s + 1) of
        None \<Rightarrow> (- ENOMEM, ss)
      | Some d \<Rightarrow>
          let new_off = strs_data_len ss;
              d' = put_str d new_off s;
              ss' = ss\<lparr>strs_data := d'\<rparr>
          in case hashmap_find (index_on d' (strs_hash ss)) (word_of_nat new_off) of
               Some old_off \<Rightarrow> (as_int old_off, ss')
             | None \<Rightarrow> (- ENOENT, ss'))"

definition strset__add_str :: "(nat \<Rightarrow> bool) \<Rightarrow> (nat \<Rightarrow> bool) \<Rightarrow> bool \<Rightarrow> strset \<Rightarrow> string \<Rightarrow> int \<times> strset" where
  "strset__add_str realloc_ok calloc_ok malloc_ok ss s =
     (case strset_add_str_mem realloc_ok ss (length s + 1) of
        None \<Rightarrow> (- ENOMEM, ss)
      | Some d \<Rightarrow>
          let new_off = strs_data_len ss;
              d' = put_str d new_off s;
              (err, (old_off, _), m) =
                hashmap_insert calloc_ok malloc_ok (index_on d' (strs_hash ss)) (word_of_nat new_off) (word_of_nat new_off) HASHMAP_ADD;
              ss' = ss\<lparr>strs_data := d', strs_hash := m\<rparr>
          in if err = - EEXIST then (as_int old_off, ss')
             else if err \<noteq> 0 then (err, ss')
             else (as_int (word_of_nat new_off), ss'\<lparr>strs_data_len := strs_data_len ss + (length s + 1)\<rparr>))"

definition strset__data_size :: "strset \<Rightarrow> nat" where
  "strset__data_size ss = strs_data_len ss"

definition strset__data :: "strset \<Rightarrow> string" where
  "strset__data ss = strs_data ss"

text \<open>The loop of \<^verbatim>\<open>strset__new\<close> over the strings of the initial data: an error, or the index.\<close>

function init_loop :: "(nat \<Rightarrow> bool) \<Rightarrow> (nat \<Rightarrow> bool) \<Rightarrow> string \<Rightarrow> nat \<Rightarrow> hashmap \<Rightarrow> int + hashmap" where
  "init_loop calloc_ok malloc_ok d off m =
     (if off < length d then
        (case hashmap_insert calloc_ok (malloc_ok off) m (word_of_nat off) (word_of_nat off) HASHMAP_ADD of
           (err, old, m') \<Rightarrow>
             if err \<noteq> - EEXIST \<and> err \<noteq> 0 then Inl err
             else init_loop calloc_ok malloc_ok d (off + length (str_at d (word_of_nat off)) + 1) m')
      else Inr m)"
  by pat_completeness auto

termination init_loop
  by (relation "measure (\<lambda>(c, a, d, off, m). length d - off)") auto

declare init_loop.simps [simp del]

text \<open>\<open>init_data\<close> is \<open>None\<close> for a null pointer. \<open>set_ok\<close>, \<open>new_ok\<close> and \<open>data_ok\<close> are the allocations of set, table and buffer.\<close>

definition strset__new ::
  "bool \<Rightarrow> bool \<Rightarrow> bool \<Rightarrow> (nat \<Rightarrow> bool) \<Rightarrow> (nat \<Rightarrow> bool) \<Rightarrow> nat \<Rightarrow> string option \<Rightarrow> int + strset" where
  "strset__new set_ok new_ok data_ok calloc_ok malloc_ok max_data_sz init_data =
     (if \<not> set_ok then Inl (- ENOMEM)
      else case hashmap_new new_ok (strset_hash_fn (case init_data of None \<Rightarrow> [] | Some d \<Rightarrow> d)) (strset_equal_fn (case init_data of None \<Rightarrow> [] | Some d \<Rightarrow> d)) of
        Inl _ \<Rightarrow> Inl (- ENOMEM)
      | Inr hash \<Rightarrow>
          (case init_data of
             None \<Rightarrow> Inr \<lparr>strs_data = [], strs_data_len = 0, strs_data_max_len = max_data_sz, strs_hash = hash\<rparr>
           | Some d \<Rightarrow>
               if \<not> data_ok then Inl (- ENOMEM)
               else case init_loop calloc_ok malloc_ok d 0 hash of
                 Inl err \<Rightarrow> Inl err
               | Inr m \<Rightarrow> Inr \<lparr>strs_data = d, strs_data_len = length d, strs_data_max_len = max_data_sz, strs_hash = m\<rparr>))"

section \<open>Strings in the buffer\<close>

lemma takeWhile_stop: "x \<in> set xs \<Longrightarrow> \<not> P x \<Longrightarrow> takeWhile P (xs @ ys) = takeWhile P xs"
  by (induction xs) auto

text \<open>A string that begins before a terminated position does not depend on what is behind it.\<close>

lemma str_at_prefix:
  assumes "take n d = take n d'" "n \<le> length d" "n \<le> length d'" "d ! (n - 1) = NUL" "unat k < n"
  shows "str_at d' k = str_at d k"
proof -
  let ?x = "drop (unat k) (take n d)"
  have m: "NUL \<in> set ?x"
  proof -
    have "?x ! (n - 1 - unat k) = NUL" using assms(2,4,5) by simp
    moreover have "n - 1 - unat k < length ?x" using assms(2,5) by simp
    ultimately show ?thesis by (metis nth_mem)
  qed
  have e: "drop (unat k) x = drop (unat k) (take n x) @ drop n x" if "n \<le> length x" for x :: string
    using that assms(5) append_take_drop_id [of n x] by (metis drop_append length_take min.absorb2 less_imp_le diff_is_0_eq drop0)
  have "str_at d k = takeWhile (\<lambda>c. c \<noteq> NUL) ?x"
    unfolding str_at_def e [OF assms(2)] by (rule takeWhile_stop [OF m]) simp
  moreover have "str_at d' k = takeWhile (\<lambda>c. c \<noteq> NUL) ?x"
    unfolding str_at_def e [OF assms(3)] assms(1) [symmetric] by (rule takeWhile_stop [OF m]) simp
  ultimately show ?thesis by simp
qed

lemma put_str_facts:
  assumes "off + length s + 1 \<le> length d"
  shows "length (put_str d off s) = length d" "take off (put_str d off s) = take off d"
    "put_str d off s ! (off + length s) = NUL" "take (off + length s + 1) (put_str d off s) = take off d @ s @ [NUL]"
  using assms by (auto simp: put_str_def nth_append)

lemma str_at_put:
  assumes "off + length s + 1 \<le> length d" "NUL \<notin> set s" "unat k = off"
  shows "str_at (put_str d off s) k = s"
proof -
  have "drop off (put_str d off s) = s @ NUL # drop (off + length s + 1) d"
    using assms(1) by (simp add: put_str_def)
  moreover have "takeWhile (\<lambda>c. c \<noteq> NUL) (s @ NUL # xs) = s" for xs using assms(2) by (induction s) auto
  ultimately show ?thesis by (simp add: str_at_def assms(3))
qed

lemma add_mem_facts:
  assumes "libbpf_add_mem zero ok data cur mx add = Some d"
  shows "cur + add \<le> length d" "take (length data) d = data" "length d = length data \<or> length d \<le> mx"
  using assms by (auto simp: libbpf_add_mem_def Let_def split: if_splits)

section \<open>The index\<close>

lemma index_simps [simp]:
  "hash_fn (index_on d m) = strset_hash_fn d" "equal_fn (index_on d m) = strset_equal_fn d"
  "buckets (index_on d m) = buckets m" "cap (index_on d m) = cap m" "cap_bits (index_on d m) = cap_bits m" "sz (index_on d m) = sz m"
  "ents (index_on d m) = ents m" "index_on d (index_on d' m) = index_on d m"
  by (simp_all add: index_on_def ents_def hashmap_entries_def)

lemma index_same: "same_fns m (index_on d m') \<Longrightarrow> index_on d m = m"
  by (simp add: index_on_def)

lemma index_keys_ok: "keys_ok (index_on d m)"
  by (auto simp: keys_ok_def strset_hash_fn_def strset_equal_fn_def intro!: equivpI reflpI sympI transpI)

lemma filter_mset_none: "filter_mset P M = {#} \<longleftrightarrow> (\<forall>x. x \<in># M \<longrightarrow> \<not> P x)"
  by (subst set_mset_eq_empty_iff [symmetric]) auto

lemma index_matches: "matches (index_on d m) k = filter_mset (\<lambda>e. str_at d (hkey e) = str_at d k) (ents m)"
  by (simp add: matches_def strset_equal_fn_def)

lemma reindex:
  assumes i: "hm_inv (strset_equal_fn d) (index_on d m)" and e: "\<And>e. e \<in># ents m \<Longrightarrow> str_at d' (hkey e) = str_at d (hkey e)"
  shows "hm_inv (strset_equal_fn d') (index_on d' m)"
proof -
  have b: "bucket_of (index_on d' m) (hkey e) = bucket_of (index_on d m) (hkey e)" if "e \<in># ents m" for e
    using e [OF that] by (simp add: bucket_of_def strset_hash_fn_def)
  have "hm_wf (index_on d' m)"
  proof (cases "buckets m")
    case None
    then show ?thesis using i by (simp add: hm_inv_def hm_wf_def)
  next
    case (Some bs)
    have "x \<in># ents m" if "j < length bs" "x \<in> set (bs ! j)" for x j
      using that Some by (auto simp: ents_def hashmap_entries_def)
    then show ?thesis using i b Some by (auto simp: hm_inv_def hm_wf_def)
  qed
  moreover have "size (matches (index_on d' m) k) \<le> 1" for k
  proof (cases "\<exists>e0. e0 \<in># ents m \<and> str_at d' (hkey e0) = str_at d' k")
    case True
    then obtain e0 where e0: "e0 \<in># ents m" "str_at d' (hkey e0) = str_at d' k" by blast
    have "matches (index_on d' m) k = matches (index_on d m) (hkey e0)"
      unfolding index_matches e0(2) [symmetric] by (rule filter_mset_cong) (simp_all add: e e0(1))
    then show ?thesis using i by (simp add: hm_inv_def hm_uniq_def)
  next
    case False
    then have "matches (index_on d' m) k = {#}" by (auto simp: index_matches filter_mset_none)
    then show ?thesis by simp
  qed
  ultimately show ?thesis using index_keys_ok by (simp add: hm_inv_def hm_uniq_def)
qed

lemma insert_old_key:
  assumes "hm_wf m" "keys_ok m" "matches m k \<noteq> {#}"
  shows "\<exists>e. e \<in># ents m \<and> equal_fn m (hkey e) k \<and> hashmap_insert ok mok m k v HASHMAP_ADD = (- EEXIST, (hkey e, hvalue e), m)"
proof -
  obtain i where i: "hashmap_find_entry m k (bucket_of m k) = Some i" using find_entry_None [OF assms(1,2), of k] assms(3) by auto
  obtain bs where "buckets m = Some bs" "equal_fn m (hkey (bs ! bucket_of m k ! i)) k" "bs ! bucket_of m k ! i \<in># ents m"
    by (rule find_entry_Some [OF assms(1,2) i])
  then show ?thesis using i by (auto simp: hashmap_insert_def Let_def chain_Some)
qed

section \<open>The set of strings\<close>

definition strset_inv :: "strset \<Rightarrow> bool" where
  "strset_inv ss \<longleftrightarrow>
     strs_data_len ss \<le> length (strs_data ss) \<and> length (strs_data ss) < 2 ^ 31 \<and> strs_data_max_len ss < 2 ^ 31 \<and>
     (strs_data_len ss \<noteq> 0 \<longrightarrow> strs_data ss ! (strs_data_len ss - 1) = NUL) \<and>
     hm_inv (strset_equal_fn (strs_data ss)) (index_on (strs_data ss) (strs_hash ss)) \<and>
     (\<forall>e \<in># ents (strs_hash ss). unat (hkey e) < strs_data_len ss \<and> hvalue e = hkey e)"

text \<open>What a set holds: the offset of every string, and the bytes of all strings.\<close>

definition offset_of :: "strset \<Rightarrow> string \<Rightarrow> nat option" where
  "offset_of ss s =
     map_option (\<lambda>e. unat (hkey e)) (List.find (\<lambda>e. str_at (strs_data ss) (hkey e) = s) (hashmap_entries (strs_hash ss)))"

definition visible :: "strset \<Rightarrow> string" where
  "visible ss = take (strs_data_len ss) (strs_data ss)"

lemma offset_of_Some:
  assumes "strset_inv ss"
  shows "offset_of ss s = Some off \<longleftrightarrow>
    (\<exists>e. e \<in># ents (strs_hash ss) \<and> str_at (strs_data ss) (hkey e) = s \<and> off = unat (hkey e))"
proof
  assume "offset_of ss s = Some off"
  then show "\<exists>e. e \<in># ents (strs_hash ss) \<and> str_at (strs_data ss) (hkey e) = s \<and> off = unat (hkey e)"
    by (auto simp: offset_of_def ents_def find_Some_iff) (metis nth_mem)
next
  assume "\<exists>e. e \<in># ents (strs_hash ss) \<and> str_at (strs_data ss) (hkey e) = s \<and> off = unat (hkey e)"
  then obtain e where e: "e \<in># ents (strs_hash ss)" "str_at (strs_data ss) (hkey e) = s" "off = unat (hkey e)" by blast
  have "List.find (\<lambda>e. str_at (strs_data ss) (hkey e) = s) (hashmap_entries (strs_hash ss)) \<noteq> None"
    using e(1,2) by (auto simp: find_None_iff ents_def)
  then obtain f where f: "List.find (\<lambda>e. str_at (strs_data ss) (hkey e) = s) (hashmap_entries (strs_hash ss)) = Some f" by blast
  then have f': "f \<in># ents (strs_hash ss)" "str_at (strs_data ss) (hkey f) = s"
    by (auto simp: ents_def find_Some_iff) 
  let ?i = "index_on (strs_data ss) (strs_hash ss)"
  have u: "hm_uniq ?i" using assms by (simp add: strset_inv_def hm_inv_def)
  have "matches ?i (hkey e) = {#e#}" "matches ?i (hkey e) = {#f#}"
    using uniq_match [OF u, of e "hkey e"] uniq_match [OF u, of f "hkey e"] e f' by (simp_all add: strset_equal_fn_def)
  then have "f = e" by simp
  then show "offset_of ss s = Some off" using f e(3) by (simp add: offset_of_def)
qed

lemma offset_of_None:
  "offset_of ss s = None \<longleftrightarrow> (\<forall>e. e \<in># ents (strs_hash ss) \<longrightarrow> str_at (strs_data ss) (hkey e) \<noteq> s)"
  by (auto simp: offset_of_def find_None_iff ents_def)

lemma as_int_small:
  assumes "unat off = n" "n < 2 ^ 31"
  shows "as_int off = int n"
proof -
  have u: "uint off = int n" unfolding assms(1) [symmetric] by simp
  moreover have "int n < 2 ^ 31" using assms(2) by simp
  ultimately have "signed_take_bit 31 (uint off) = int n" by (simp add: signed_take_bit_int_eq_self)
  then show ?thesis by (simp add: as_int_def signed_ucast_eq)
qed

text \<open>The buffer with a string written behind the visible part.\<close>

definition scratched :: "strset \<Rightarrow> string \<Rightarrow> string \<Rightarrow> bool" where
  "scratched ss s d \<longleftrightarrow>
     strs_data_len ss + length s + 1 \<le> length d \<and> length d < 2 ^ 31 \<and> take (strs_data_len ss) d = visible ss \<and>
     d ! (strs_data_len ss + length s) = NUL \<and> take (strs_data_len ss + length s + 1) d = visible ss @ s @ [NUL] \<and>
     str_at d (word_of_nat (strs_data_len ss)) = s"

lemma small_len: "strset_inv ss \<Longrightarrow> unat (word_of_nat (strs_data_len ss) :: u64) = strs_data_len ss"
  by (simp add: strset_inv_def unat_of_nat)

lemma scratch_ok:
  assumes i: "strset_inv ss" and s: "NUL \<notin> set s" and a: "strset_add_str_mem ok ss (length s + 1) = Some d"
  shows "scratched ss s (put_str d (strs_data_len ss) s)"
proof -
  have l: "strs_data_len ss + length s + 1 \<le> length d" "take (length (strs_data ss)) d = strs_data ss"
    "length d = length (strs_data ss) \<or> length d \<le> strs_data_max_len ss"
    using add_mem_facts [OF a [unfolded strset_add_str_mem_def]] by simp_all
  have v: "take (strs_data_len ss) d = visible ss"
    using l(2) i unfolding visible_def strset_inv_def by (metis min.absorb1 take_take)
  note p = put_str_facts [OF l(1)]
  show ?thesis
    using l(1,3) i p v str_at_put [OF l(1) s small_len [OF i]] by (auto simp: scratched_def strset_inv_def)
qed

lemma scratch_strings:
  assumes i: "strset_inv ss" and d: "scratched ss s d" and e: "e \<in># ents (strs_hash ss)"
  shows "str_at d (hkey e) = str_at (strs_data ss) (hkey e)"
proof -
  have k: "unat (hkey e) < strs_data_len ss" using i e by (simp add: strset_inv_def)
  show ?thesis
    by (rule str_at_prefix [OF _ _ _ _ k]) (use i d k in \<open>auto simp: strset_inv_def scratched_def visible_def\<close>)
qed

lemma scratch_index:
  assumes i: "strset_inv ss" and d: "scratched ss s d"
  shows "hm_inv (strset_equal_fn d) (index_on d (strs_hash ss))"
    "matches (index_on d (strs_hash ss)) (word_of_nat (strs_data_len ss)) =
       filter_mset (\<lambda>e. str_at (strs_data ss) (hkey e) = s) (ents (strs_hash ss))"
proof -
  show "hm_inv (strset_equal_fn d) (index_on d (strs_hash ss))"
    by (rule reindex [where d = "strs_data ss"]) (use i scratch_strings [OF i d] in \<open>simp_all add: strset_inv_def\<close>)
  show "matches (index_on d (strs_hash ss)) (word_of_nat (strs_data_len ss)) =
       filter_mset (\<lambda>e. str_at (strs_data ss) (hkey e) = s) (ents (strs_hash ss))"
    unfolding index_matches by (rule filter_mset_cong) (use d scratch_strings [OF i d] in \<open>simp_all add: scratched_def\<close>)
qed

text \<open>Writing behind the visible part, or rearranging the table, changes nothing.\<close>

lemma scratch_same:
  assumes i: "strset_inv ss" and d: "scratched ss s d"
    and m: "hm_inv (strset_equal_fn d) (index_on d m)" "ents m = ents (strs_hash ss)"
  shows "strset_inv (ss\<lparr>strs_data := d, strs_hash := m\<rparr>) \<and> offset_of (ss\<lparr>strs_data := d, strs_hash := m\<rparr>) = offset_of ss \<and>
    visible (ss\<lparr>strs_data := d, strs_hash := m\<rparr>) = visible ss"
proof -
  let ?ss = "ss\<lparr>strs_data := d, strs_hash := m\<rparr>"
  have n: "d ! (strs_data_len ss - 1) = NUL" if "strs_data_len ss \<noteq> 0"
  proof -
    have "d ! (strs_data_len ss - 1) = take (strs_data_len ss) d ! (strs_data_len ss - 1)" using that by simp
    also have "take (strs_data_len ss) d = visible ss" using d by (simp add: scratched_def)
    also have "visible ss ! (strs_data_len ss - 1) = NUL" using i that by (simp add: visible_def strset_inv_def)
    finally show ?thesis .
  qed
  have inv: "strset_inv ?ss" using i d m n by (auto simp: strset_inv_def scratched_def)
  have "offset_of ?ss t = offset_of ss t" for t
  proof (cases "offset_of ?ss t")
    case None
    then have "offset_of ss t = None" using scratch_strings [OF i d] m(2) by (simp add: offset_of_None)
    then show ?thesis using None by simp
  next
    case (Some off)
    then show ?thesis
      using offset_of_Some [OF inv, of t off] offset_of_Some [OF i, of t off] scratch_strings [OF i d] m(2) by auto
  qed
  then show ?thesis using inv d by (auto simp: visible_def scratched_def)
qed

text \<open>A new string: the visible part grows by it and the table gets its offset.\<close>

lemma scratch_new:
  assumes i: "strset_inv ss" and d: "scratched ss s d" and n: "offset_of ss s = None"
    and m: "hm_inv (strset_equal_fn d) (index_on d m)"
      "ents m = add_mset \<lparr>hkey = word_of_nat (strs_data_len ss), hvalue = word_of_nat (strs_data_len ss)\<rparr> (ents (strs_hash ss))"
  defines "ss' \<equiv> ss\<lparr>strs_data := d, strs_hash := m, strs_data_len := strs_data_len ss + (length s + 1)\<rparr>"
  shows "strset_inv ss' \<and> offset_of ss' = (offset_of ss)(s \<mapsto> strs_data_len ss) \<and> visible ss' = visible ss @ s @ [NUL]"
proof -
  note u = small_len [OF i]
  have inv: "strset_inv ss'"
    using i d m u by (auto simp: strset_inv_def scratched_def ss'_def)
  have "offset_of ss' t = ((offset_of ss)(s \<mapsto> strs_data_len ss)) t" for t
  proof (cases "t = s")
    case True
    have "str_at d (word_of_nat (strs_data_len ss)) = s" using d by (simp add: scratched_def)
    then have "offset_of ss' s = Some (strs_data_len ss)"
      unfolding offset_of_Some [OF inv] using m(2) u
      by (auto simp: ss'_def intro!: exI [of _ "\<lparr>hkey = word_of_nat (strs_data_len ss), hvalue = word_of_nat (strs_data_len ss)\<rparr>"])
    then show ?thesis using True by simp
  next
    case False
    have "str_at d (word_of_nat (strs_data_len ss)) \<noteq> t" using d False by (simp add: scratched_def)
    then have ex: "(\<exists>e. e \<in># ents m \<and> str_at d (hkey e) = t \<and> P e) \<longleftrightarrow>
        (\<exists>e. e \<in># ents (strs_hash ss) \<and> str_at (strs_data ss) (hkey e) = t \<and> P e)" for P
      using m(2) scratch_strings [OF i d] by auto
    have "offset_of ss' t = Some off \<longleftrightarrow> offset_of ss t = Some off" for off
      unfolding offset_of_Some [OF inv] offset_of_Some [OF i] using ex [of "\<lambda>e. off = unat (hkey e)"] by (simp add: ss'_def)
    then have "offset_of ss' t = offset_of ss t" by (metis option.exhaust)
    then show ?thesis using False by simp
  qed
  then show ?thesis using inv d by (auto simp: ss'_def visible_def scratched_def)
qed

lemma find_str_outcome:
  assumes i: "strset_inv ss" and s: "NUL \<notin> set s" and f: "strset__find_str ok ss s = (r, ss')"
  shows "strset_inv ss' \<and> offset_of ss' = offset_of ss \<and> visible ss' = visible ss \<and>
    (r = - ENOMEM \<or> (case offset_of ss s of None \<Rightarrow> r = - ENOENT | Some off \<Rightarrow> r = int off))"
proof (cases "strset_add_str_mem ok ss (length s + 1)")
  case None
  then show ?thesis using f i by (simp add: strset__find_str_def)
next
  case (Some d0)
  let ?d = "put_str d0 (strs_data_len ss) s"
  have d: "scratched ss s ?d" by (rule scratch_ok [OF i s Some])
  note x = scratch_index [OF i d]
  let ?i = "index_on ?d (strs_hash ss)" and ?k = "word_of_nat (strs_data_len ss) :: u64"
  have h: "hm_wf ?i" "keys_ok ?i" "hm_uniq ?i" using x(1) by (simp_all add: hm_inv_def)
  have ss': "ss' = ss\<lparr>strs_data := ?d\<rparr>" and r: "r = (case hashmap_find ?i ?k of Some old \<Rightarrow> as_int old | None \<Rightarrow> - ENOENT)"
    using f Some by (auto simp: strset__find_str_def Let_def split: option.splits)
  have e: "ss' = ss\<lparr>strs_data := ?d, strs_hash := strs_hash ss\<rparr>" by (simp add: ss')
  have "case offset_of ss s of None \<Rightarrow> r = - ENOENT | Some off \<Rightarrow> r = int off"
  proof (cases "hashmap_find ?i ?k")
    case None
    then have "matches ?i ?k = {#}" using hashmap_find_None [OF h(1,2)] by simp
    then have "offset_of ss s = None" unfolding x(2) offset_of_None filter_mset_none by blast
    then show ?thesis using r None by simp
  next
    case (Some old)
    then obtain a where a: "matches ?i ?k = {#a#}" "hvalue a = old" using hashmap_find_iff [OF h] by blast
    then have "a \<in># filter_mset (\<lambda>e. str_at (strs_data ss) (hkey e) = s) (ents (strs_hash ss))" unfolding x(2) by simp
    then have a': "a \<in># ents (strs_hash ss)" "str_at (strs_data ss) (hkey a) = s" by simp_all
    then have "unat (hkey a) < strs_data_len ss" "hvalue a = hkey a" "strs_data_len ss < 2 ^ 31" using i by (auto simp: strset_inv_def)
    then have "as_int old = int (unat (hkey a))" using as_int_small [OF refl, of "hkey a"] a(2) by (metis less_trans)
    then have "r = int (unat (hkey a))" using r Some by (metis option.simps(5))
    moreover have "offset_of ss s = Some (unat (hkey a))" using offset_of_Some [OF i] a' by blast
    ultimately show ?thesis by (simp only: option.simps)
  qed
  then show ?thesis using scratch_same [OF i d x(1) refl] unfolding e by blast
qed

lemma add_str_outcome:
  assumes i: "strset_inv ss" and s: "NUL \<notin> set s" and ok: "calloc_bounded okc" and f: "strset__add_str ok okc okm ss s = (r, ss')"
  shows "strset_inv ss' \<and>
    (r = - ENOMEM \<and> offset_of ss' = offset_of ss \<and> visible ss' = visible ss \<or>
     (\<exists>off. offset_of ss s = Some off \<and> r = int off) \<and> offset_of ss' = offset_of ss \<and> visible ss' = visible ss \<or>
     offset_of ss s = None \<and> r = int (length (visible ss)) \<and> offset_of ss' = (offset_of ss)(s \<mapsto> length (visible ss)) \<and> visible ss' = visible ss @ s @ [NUL])"
proof (cases "strset_add_str_mem ok ss (length s + 1)")
  case None
  then show ?thesis using f i by (simp add: strset__add_str_def)
next
  case (Some d0)
  let ?d = "put_str d0 (strs_data_len ss) s"
  have d: "scratched ss s ?d" by (rule scratch_ok [OF i s Some])
  note x = scratch_index [OF i d]
  let ?i = "index_on ?d (strs_hash ss)" and ?k = "word_of_nat (strs_data_len ss) :: u64"
  have h: "hm_wf ?i" "keys_ok ?i" using x(1) by (simp_all add: hm_inv_def)
  obtain err old m where ins: "hashmap_insert okc okm ?i ?k ?k HASHMAP_ADD = (err, old, m)" by (metis prod_cases3)
  have res: "(r, ss') = (if err = - EEXIST then (as_int (fst old), ss\<lparr>strs_data := ?d, strs_hash := m\<rparr>)
      else if err \<noteq> 0 then (err, ss\<lparr>strs_data := ?d, strs_hash := m\<rparr>)
      else (as_int ?k, ss\<lparr>strs_data := ?d, strs_hash := m, strs_data_len := strs_data_len ss + (length s + 1)\<rparr>))"
    using f Some ins by (cases old) (auto simp: strset__add_str_def Let_def)
  show ?thesis
  proof (cases "matches ?i ?k = {#}")
    case True
    have n: "offset_of ss s = None"
      using True unfolding x(2) offset_of_None filter_mset_none by blast
    note fr = insert_fresh [OF h ok disjI2 [OF conjI [OF True]] ins, simplified]
    have ix: "index_on ?d m = m" by (rule index_same [of m ?d "strs_hash ss"]) (use fr(2) in simp)
    have "hashmap_find ?i ?k = None" using True hashmap_find_None [OF h] by simp
    from insert_absent [OF x(1) ok this _ ins] have im: "hm_inv (strset_equal_fn ?d) (index_on ?d m)" unfolding ix by auto
    show ?thesis
    proof (cases "err = 0")
      case True
      then have "ents m = add_mset \<lparr>hkey = ?k, hvalue = ?k\<rparr> (ents (strs_hash ss))" using fr(4) by (auto simp: ENOMEM_def)
      moreover have "as_int ?k = int (strs_data_len ss)"
        by (rule as_int_small [OF small_len [OF i]]) (use i in \<open>simp add: strset_inv_def\<close>)
      moreover have "length (visible ss) = strs_data_len ss" using i by (simp add: visible_def strset_inv_def)
      ultimately show ?thesis using scratch_new [OF i d n im] res True n by (simp add: EEXIST_def)
    next
      case False
      then have e: "err = - ENOMEM" "ents m = ents (strs_hash ss)" using fr(4) by auto
      then show ?thesis using scratch_same [OF i d im e(2)] res by (simp add: ENOMEM_def EEXIST_def)
    qed
  next
    case False
    obtain e where e: "e \<in># ents ?i" "equal_fn ?i (hkey e) ?k" "hashmap_insert okc okm ?i ?k ?k HASHMAP_ADD = (- EEXIST, (hkey e, hvalue e), ?i)"
      using insert_old_key [OF h False] by blast
    have e': "e \<in># ents (strs_hash ss)" "str_at (strs_data ss) (hkey e) = s"
      using e(1,2) scratch_strings [OF i d, of e] d by (simp_all add: strset_equal_fn_def scratched_def)
    have "unat (hkey e) < strs_data_len ss" "strs_data_len ss < 2 ^ 31" using i e'(1) by (auto simp: strset_inv_def)
    then have "as_int (hkey e) = int (unat (hkey e))" by (intro as_int_small refl) (rule less_trans)
    moreover have eqs: "err = - EEXIST" "old = (hkey e, hvalue e)" "m = ?i" using ins e(3) by simp_all
    ultimately have r: "r = int (unat (hkey e))" "ss' = ss\<lparr>strs_data := ?d, strs_hash := ?i\<rparr>" using res unfolding eqs by simp_all
    moreover have "offset_of ss s = Some (unat (hkey e))" using offset_of_Some [OF i] e' by blast
    moreover have "hm_inv (strset_equal_fn ?d) (index_on ?d ?i)" using x(1) by simp
    ultimately show ?thesis using scratch_same [OF i d, of ?i] by (metis index_simps(7))
  qed
qed

section \<open>Refinement\<close>

text \<open>The calls on a set, each with the outcomes of the allocations it may need.\<close>

datatype ss_op = Ss_Add bool bool bool string | Ss_Find bool string

fun ss_step :: "ss_op \<Rightarrow> strset \<Rightarrow> int \<times> strset" where
  "ss_step (Ss_Add okr okc okm s) ss = strset__add_str (\<lambda>_. okr) (calloc_of okc) okm ss s"
| "ss_step (Ss_Find okr s) ss = strset__find_str (\<lambda>_. okr) ss s"

text \<open>The abstract state: the offset of each string, and the text of all strings in the order of their offsets.\<close>

type_synonym ss_abs = "(string \<Rightarrow> nat option) \<times> string"

fun ss_guard :: "ss_op \<Rightarrow> ss_abs \<Rightarrow> bool" where
  "ss_guard (Ss_Add _ _ _ s) a = (NUL \<notin> set s)"
| "ss_guard (Ss_Find _ s) a = (NUL \<notin> set s)"

fun ss_allowed :: "ss_op \<Rightarrow> int \<Rightarrow> ss_abs \<Rightarrow> bool" where
  "ss_allowed (Ss_Add _ _ _ s) r (m, txt) \<longleftrightarrow>
     r = - ENOMEM \<or> (case m s of Some off \<Rightarrow> r = int off | None \<Rightarrow> r = int (length txt))"
| "ss_allowed (Ss_Find _ s) r (m, txt) \<longleftrightarrow>
     r = - ENOMEM \<or> (case m s of Some off \<Rightarrow> r = int off | None \<Rightarrow> r = - ENOENT)"

fun ss_next :: "ss_op \<Rightarrow> int \<Rightarrow> ss_abs \<Rightarrow> ss_abs" where
  "ss_next (Ss_Add _ _ _ s) r (m, txt) =
     (if r \<ge> 0 \<and> m s = None then (m(s \<mapsto> length txt), txt @ s @ [NUL]) else (m, txt))"
| "ss_next (Ss_Find _ s) r a = a"

definition ss_sim :: "strset \<Rightarrow> ss_abs \<Rightarrow> bool" where
  "ss_sim ss a \<longleftrightarrow> strset_inv ss \<and> a = (offset_of ss, visible ss)"

lemma ss_step_simulates:
  assumes sim: "ss_sim ss a" and g: "ss_guard c a" and st: "ss_step c ss = (r, ss')"
  shows "ss_allowed c r a \<and> ss_sim ss' (ss_next c r a)"
proof -
  have i: "strset_inv ss" and a: "a = (offset_of ss, visible ss)" using sim by (simp_all add: ss_sim_def)
  show ?thesis
  proof (cases c)
    case (Ss_Add okr okc okm s)
    then have "NUL \<notin> set s" "strset__add_str (\<lambda>_. okr) (calloc_of okc) okm ss s = (r, ss')" using g st by simp_all
    from add_str_outcome [OF i this(1) calloc_of_bounded this(2)] show ?thesis
      by (auto simp: Ss_Add a ss_sim_def ENOMEM_def)
  next
    case (Ss_Find okr s)
    then have "NUL \<notin> set s" "strset__find_str (\<lambda>_. okr) ss s = (r, ss')" using g st by simp_all
    from find_str_outcome [OF i this] show ?thesis by (simp add: Ss_Find a ss_sim_def)
  qed
qed

interpretation strs: simulation ss_sim ss_step ss_guard ss_allowed ss_next
  using ss_step_simulates by unfold_locales blast+

text \<open>Building the index of initial data.\<close>

definition indexed :: "string \<Rightarrow> hashmap \<Rightarrow> bool" where
  "indexed d m \<longleftrightarrow> hm_inv (strset_equal_fn d) m \<and> index_on d m = m \<and> (\<forall>e \<in># ents m. unat (hkey e) < length d \<and> hvalue e = hkey e)"

lemma indexed_insert:
  assumes m: "indexed d m" and ok: "calloc_bounded okc" and off: "off < length d" "length d < 2 ^ 31"
    and ins: "hashmap_insert okc okm m (word_of_nat off) (word_of_nat off) HASHMAP_ADD = (err, old, m')"
  shows "indexed d m' \<and> err \<in> {0, - EEXIST, - ENOMEM}"
proof (cases "matches m (word_of_nat off) = {#}")
  case True
  have h: "hm_inv (strset_equal_fn d) m" "hm_wf m" "keys_ok m" "index_on d m = m" using m by (simp_all add: indexed_def hm_inv_def)
  note fr = insert_fresh [OF h(2,3) ok disjI2 [OF conjI [OF True]] ins, simplified]
  have "hashmap_find m (word_of_nat off) = None" using True hashmap_find_None [OF h(2,3)] by simp
  from insert_absent [OF h(1) ok this _ ins] have im: "hm_inv (strset_equal_fn d) m'" by auto
  have "same_fns m' (index_on d m)" using fr(2) h(4) by simp
  from index_same [OF this] have ix: "index_on d m' = m'" .
  have "unat (word_of_nat off :: u64) = off" using off by (simp add: unat_of_nat)
  then show ?thesis using fr(4) im ix m off(1) by (auto simp: indexed_def)
next
  case False
  have "hm_wf m" "keys_ok m" using m by (simp_all add: indexed_def hm_inv_def)
  from insert_old_key [OF this False, of okc okm "word_of_nat off"] show ?thesis using ins m by auto
qed

lemma init_loop_indexed:
  assumes "indexed d m" "calloc_bounded okc" "length d < 2 ^ 31"
  shows "case init_loop okc okm d off m of Inl err \<Rightarrow> err = - ENOMEM | Inr m' \<Rightarrow> indexed d m'"
  using assms
proof (induction okc okm d off m rule: init_loop.induct)
  case (1 okc okm d off m)
  show ?case
  proof (cases "off < length d")
    case True
    obtain err old m' where ins: "hashmap_insert okc (okm off) m (word_of_nat off) (word_of_nat off) HASHMAP_ADD = (err, old, m')"
      by (metis prod_cases3)
    have i: "indexed d m'" "err \<in> {0, - EEXIST, - ENOMEM}" using indexed_insert [OF "1.prems"(1,2) True "1.prems"(3) ins] by auto
    show ?thesis
    proof (cases "err = - EEXIST \<or> err = 0")
      case e: True
      then have "\<not> (err \<noteq> - EEXIST \<and> err \<noteq> 0)" by blast
      from "1.IH" [OF True ins [symmetric] refl this i(1) "1.prems"(2,3)] show ?thesis
        using True ins e by (subst init_loop.simps) auto
    next
      case False
      then show ?thesis using True ins i(2) by (subst init_loop.simps) simp
    qed
  qed (use "1.prems" in \<open>subst init_loop.simps; simp\<close>)
qed

lemma indexed_init: "indexed d (hashmap_init (strset_hash_fn d) (strset_equal_fn d))"
proof -
  have "hm_inv (strset_equal_fn d) (hashmap_init (strset_hash_fn d) (strset_equal_fn d))"
    by (rule hm_inv_init) (auto simp: strset_hash_fn_def strset_equal_fn_def intro!: equivpI reflpI sympI transpI)
  then show ?thesis by (simp add: indexed_def index_on_def hashmap_init_def ents_def hashmap_entries_def)
qed

lemma strset_new_error:
  assumes "strset__new a b c okc okm mx (Some d) = Inl e" "length d < 2 ^ 31" "calloc_bounded okc"
  shows "e = - ENOMEM"
  using assms init_loop_indexed [OF indexed_init assms(3,2), of okm 0]
  by (auto simp: strset__new_def hashmap_new_def split: if_splits sum.splits)

lemma strset_new_ok:
  assumes "strset__new a b c okc okm mx init = Inr ss" "mx < 2 ^ 31" "calloc_bounded okc"
    and "\<And>d. init = Some d \<Longrightarrow> length d < 2 ^ 31 \<and> (d \<noteq> [] \<longrightarrow> last d = NUL)"
  shows "ss_sim ss (offset_of ss, (case init of None \<Rightarrow> [] | Some d \<Rightarrow> d))"
proof -
  define d where "d = (case init of None \<Rightarrow> [] | Some d \<Rightarrow> d)"
  have d: "length d < 2 ^ 31" "d \<noteq> [] \<longrightarrow> last d = NUL" using assms(4) by (auto simp: d_def split: option.splits)
  let ?h = "hashmap_init (strset_hash_fn d) (strset_equal_fn d)"
  note h = indexed_init [of d]
  obtain m where ss: "ss = \<lparr>strs_data = d, strs_data_len = length d, strs_data_max_len = mx, strs_hash = m\<rparr>" and m: "indexed d m"
  proof (cases init)
    case None
    then show thesis using assms(1) h that [of ?h] by (auto simp: strset__new_def hashmap_new_def d_def split: if_splits)
  next
    case (Some d')
    then have dd: "d' = d" by (simp add: d_def)
    obtain m where "init_loop okc okm d 0 ?h = Inr m" "ss = \<lparr>strs_data = d, strs_data_len = length d, strs_data_max_len = mx, strs_hash = m\<rparr>"
      using assms(1) by (auto simp: strset__new_def hashmap_new_def Some dd split: if_splits sum.splits)
    then show thesis using init_loop_indexed [OF h assms(3) d(1), of okm 0] that by auto
  qed
  have "strset_inv ss" using m d assms(2) by (auto simp: ss strset_inv_def indexed_def last_conv_nth)
  then show ?thesis by (simp add: ss_sim_def ss visible_def flip: d_def)
qed

text \<open>
  The strings of a text, each with the offset at which it begins, independently of the program, and
  the map from every string to the first offset at which it occurs.
\<close>

function text_strings :: "nat \<Rightarrow> string \<Rightarrow> (string \<times> nat) list" where
  "text_strings off d =
     (if d = [] then []
      else let s = takeWhile (\<lambda>c. c \<noteq> NUL) d in (s, off) # text_strings (off + length s + 1) (drop (length s + 1) d))"
  by pat_completeness auto

termination text_strings
  by (relation "measure (\<lambda>(off, d). length d)") auto

declare text_strings.simps [simp del]

definition first_offsets :: "string \<Rightarrow> string \<Rightarrow> nat option" where
  "first_offsets d = map_of (text_strings 0 d)"

text \<open>The offsets that an index of the data \<open>d\<close> holds.\<close>

definition index_offsets :: "string \<Rightarrow> hashmap \<Rightarrow> string \<Rightarrow> nat option" where
  "index_offsets d m = offset_of \<lparr>strs_data = d, strs_data_len = length d, strs_data_max_len = 0, strs_hash = m\<rparr>"

lemma offset_of_index: "offset_of ss = index_offsets (strs_data ss) (strs_hash ss)"
  by (simp add: index_offsets_def offset_of_def fun_eq_iff)

lemma index_offsets_Some:
  assumes "indexed d m" "length d < 2 ^ 31" "d \<noteq> [] \<longrightarrow> last d = NUL"
  shows "index_offsets d m s = Some off \<longleftrightarrow> (\<exists>e. e \<in># ents m \<and> str_at d (hkey e) = s \<and> off = unat (hkey e))"
proof -
  have "strset_inv \<lparr>strs_data = d, strs_data_len = length d, strs_data_max_len = 0, strs_hash = m\<rparr>"
    using assms by (auto simp: strset_inv_def indexed_def last_conv_nth)
  from offset_of_Some [OF this] show ?thesis by (simp add: index_offsets_def)
qed

text \<open>One step of the loop adds the string at \<open>off\<close>, unless it is known.\<close>

lemma index_offsets_insert:
  assumes m: "indexed d m" and d: "length d < 2 ^ 31" "d \<noteq> [] \<longrightarrow> last d = NUL" "off < length d" and ok: "calloc_bounded okc"
    and ins: "hashmap_insert okc okm m (word_of_nat off) (word_of_nat off) HASHMAP_ADD = (err, old, m')" "err = 0 \<or> err = - EEXIST"
  shows "index_offsets d m' = [str_at d (word_of_nat off) \<mapsto> off] ++ index_offsets d m"
proof (cases "matches m (word_of_nat off) = {#}")
  case True
  have w: "hm_wf m" "keys_ok m" "index_on d m = m" using m by (simp_all add: indexed_def hm_inv_def)
  have i': "indexed d m'" using indexed_insert [OF m ok d(3,1) ins(1)] by blast
  have e: "ents m' = add_mset \<lparr>hkey = word_of_nat off, hvalue = word_of_nat off\<rparr> (ents m)"
    using insert_fresh(4) [OF w(1,2) ok disjI2 [OF conjI [OF True]] ins(1)] ins(2) by (auto simp: ENOMEM_def EEXIST_def)
  have u: "unat (word_of_nat off :: u64) = off" using d by (simp add: unat_of_nat)
  have none: "str_at d (hkey e) \<noteq> str_at d (word_of_nat off)" if "e \<in># ents m" for e
    using True that index_matches [of d m] by (auto simp: w(3) filter_mset_none)
  let ?s = "str_at d (word_of_nat off)"
  have n: "index_offsets d m ?s = None"
    using none index_offsets_Some [OF m d(1,2), of ?s] by (cases "index_offsets d m ?s") auto
  have y: "index_offsets d m' ?s = Some off" unfolding index_offsets_Some [OF i' d(1,2)] e using u by auto
  have o: "index_offsets d m' s = index_offsets d m s" if "s \<noteq> ?s" for s
  proof -
    have "index_offsets d m' s = Some k \<longleftrightarrow> index_offsets d m s = Some k" for k
      unfolding index_offsets_Some [OF i' d(1,2)] index_offsets_Some [OF m d(1,2)] e using that by auto
    then show ?thesis by (metis not_Some_eq)
  qed
  show ?thesis
  proof
    fix s show "index_offsets d m' s = ([?s \<mapsto> off] ++ index_offsets d m) s"
      using n y o [of s] by (cases "s = ?s") (simp_all add: map_add_def split: option.splits)
  qed
next
  case False
  have w: "hm_wf m" "keys_ok m" "index_on d m = m" using m by (simp_all add: indexed_def hm_inv_def)
  have "m' = m" using insert_old_key [OF w(1,2) False, of okc okm "word_of_nat off"] ins(1) by auto
  moreover obtain e where "e \<in># ents m" "str_at d (hkey e) = str_at d (word_of_nat off)"
    using False index_matches [of d m] by (auto simp: w(3) filter_mset_none)
  then have "index_offsets d m (str_at d (word_of_nat off)) \<noteq> None"
    using index_offsets_Some [OF m d(1,2)] by blast
  ultimately show ?thesis by (auto simp: map_add_def fun_eq_iff split: option.splits)
qed

lemma init_loop_offsets:
  assumes "indexed d m" "calloc_bounded okc" "length d < 2 ^ 31" "d \<noteq> [] \<longrightarrow> last d = NUL"
    and "init_loop okc okm d off m = Inr m'"
  shows "index_offsets d m' = map_of (text_strings off (drop off d)) ++ index_offsets d m"
  using assms
proof (induction okc okm d off m rule: init_loop.induct)
  case (1 okc okm d off m)
  show ?case
  proof (cases "off < length d")
    case True
    obtain err old m1 where ins: "hashmap_insert okc (okm off) m (word_of_nat off) (word_of_nat off) HASHMAP_ADD = (err, old, m1)"
      by (metis prod_cases3)
    let ?s = "str_at d (word_of_nat off)"
    have e: "\<not> (err \<noteq> - EEXIST \<and> err \<noteq> 0)" and r: "init_loop okc okm d (off + length ?s + 1) m1 = Inr m'"
      using "1.prems"(5) True ins by (auto simp: init_loop.simps [of _ _ _ off] split: if_splits)
    have i: "indexed d m1" using indexed_insert [OF "1.prems"(1,2) True "1.prems"(3) ins] by blast
    have u: "unat (word_of_nat off :: u64) = off" using "1.prems"(3) True by (simp add: unat_of_nat)
    have s: "?s = takeWhile (\<lambda>c. c \<noteq> NUL) (drop off d)" by (simp add: str_at_def u)
    have t: "text_strings off (drop off d) = (?s, off) # text_strings (off + length ?s + 1) (drop (off + length ?s + 1) d)"
      using True by (subst text_strings.simps) (simp add: Let_def add.commute add.left_commute flip: s)
    have "err = 0 \<or> err = - EEXIST" using e by blast
    note step = index_offsets_insert [OF "1.prems"(1,3,4) True "1.prems"(2) ins this]
    have "index_offsets d m' = map_of (text_strings (off + length ?s + 1) (drop (off + length ?s + 1) d)) ++ index_offsets d m1"
      by (rule "1.IH" [OF True ins [symmetric] refl e i "1.prems"(2-4) r])
    then show ?thesis by (simp only: step t map_of.simps map_add_assoc fst_conv snd_conv map_add_upd map_add_empty)
  next
    case False
    then show ?thesis using "1.prems"(5) by (simp add: init_loop.simps [of _ _ _ off] text_strings.simps)
  qed
qed

text \<open>A created set holds exactly the strings of its initial text.\<close>

lemma strset_new_offsets:
  assumes "strset__new a b c okc okm mx init = Inr ss" "calloc_bounded okc"
    and "\<And>d. init = Some d \<Longrightarrow> length d < 2 ^ 31 \<and> (d \<noteq> [] \<longrightarrow> last d = NUL)"
  shows "offset_of ss = first_offsets (case init of None \<Rightarrow> [] | Some d \<Rightarrow> d)"
proof (cases init)
  case None
  then show ?thesis using assms(1)
    by (auto simp: strset__new_def hashmap_new_def hashmap_init_def offset_of_def hashmap_entries_def
        first_offsets_def text_strings.simps fun_eq_iff split: if_splits)
next
  case (Some d)
  let ?h = "hashmap_init (strset_hash_fn d) (strset_equal_fn d)"
  obtain m where m: "init_loop okc okm d 0 ?h = Inr m" and ss: "strs_data ss = d" "strs_hash ss = m"
    using assms(1) by (auto simp: strset__new_def hashmap_new_def Some split: if_splits sum.splits)
  have d: "length d < 2 ^ 31" "d \<noteq> [] \<longrightarrow> last d = NUL" using assms(3) Some by simp_all
  have "index_offsets d ?h = Map.empty"
    by (simp add: index_offsets_def offset_of_def hashmap_init_def hashmap_entries_def fun_eq_iff)
  then show ?thesis
    using init_loop_offsets [OF indexed_init assms(2) d m] by (simp add: offset_of_index ss Some first_offsets_def)
qed

section \<open>Properties\<close>

text \<open>
  C34: The set of strings is a map from strings to offsets. Take a set that was created, empty or from terminated initial text below 2 GiB, with a size
  limit below 2 GiB. It starts with the strings of that text, each under the first offset at which it begins in the text. Any sequence of add and
  find calls with C strings, whichever allocations fail on the way, returns what such a map
  allows: adding a new string returns the length of the text so far and appends the string and its terminator, adding or finding a
  known string returns the offset under which it is stored, finding an unknown one returns \<^verbatim>\<open>-ENOENT\<close>, and a failed allocation changes
  nothing that can be seen. In particular the strings that are written behind the text for each call, and the growing of buffer
  and index, never disturb it. Offset 0 is one of the results: the first string of an empty set has it, although the comments
  promise offsets above 0.
\<close>

theorem strset_refines:
  assumes "strset__new a b c okc okm mx init = Inr ss" "mx < 2 ^ 31" "calloc_bounded okc"
    and "\<And>d. init = Some d \<Longrightarrow> length d < 2 ^ 31 \<and> (d \<noteq> [] \<longrightarrow> last d = NUL)"
    and "txt = (case init of None \<Rightarrow> [] | Some d \<Rightarrow> d)"
    and "run_steps ss_step cs ss = (rs, ss')"
    and "guards_hold ss_guard ss_next cs rs (first_offsets txt, txt)"
  shows "spec_run ss_allowed ss_next cs rs (first_offsets txt, txt) = Some (offset_of ss', visible ss') \<and> strset_inv ss'"
proof -
  have "ss_sim ss (offset_of ss, txt)"
    unfolding assms(5) by (rule strset_new_ok [OF assms(1-3)]) (rule assms(4))
  moreover have "offset_of ss = first_offsets txt"
    unfolding assms(5) by (rule strset_new_offsets [OF assms(1,3)]) (rule assms(4))
  ultimately have "ss_sim ss (first_offsets txt, txt)" by simp
  from strs.run_simulates [OF this assms(6,7)] show ?thesis by (auto simp: ss_sim_def)
qed

theorem strset_refines_witness:
  "let ss = projr (strset__new True True True (calloc_of True) (\<lambda>_. True) 100 (Some ([NUL] @ ''ab'' @ [NUL])));
       cs = [Ss_Find True ''ab'', Ss_Add True True True ''c'', Ss_Add True True True ''ab'', Ss_Find True ''c'', Ss_Find False ''d''];
       ss' = snd (run_steps ss_step cs ss)
   in fst (run_steps ss_step cs ss) = [1, 4, 1, 4, -2] \<and> visible ss' = [NUL] @ ''ab'' @ [NUL] @ ''c'' @ [NUL] \<and> strset_inv ss'"
proof -
  let ?txt = "[NUL] @ ''ab'' @ [NUL]"
  let ?ss = "projr (strset__new True True True (calloc_of True) (\<lambda>_. True) 100 (Some ?txt))"
  let ?cs = "[Ss_Find True ''ab'', Ss_Add True True True ''c'', Ss_Add True True True ''ab'', Ss_Find True ''c'', Ss_Find False ''d'']"
  note ev = strset__new_def hashmap_new_def init_loop.simps strset__add_str_def strset__find_str_def strset_add_str_mem_def
    libbpf_add_mem_def put_str_def hashmap_insert_def hashmap_find_def
    bucket_of_def hash_bits_def index_on_def hashmap_init_def hashmap_find_entry_def hashmap_needs_to_grow_def hashmap_grow_def HASHMAP_MIN_CAP_BITS_def
    hashmap_entries_def hashmap_add_entry_def strset_hash_fn_def strset_equal_fn_def str_hash_def str_at_def chain_def calloc_of_def Let_def visible_def
    as_int_def ENOMEM_def EEXIST_def ENOENT_def
  have n: "strset__new True True True (calloc_of True) (\<lambda>_. True) 100 (Some ?txt) = Inr ?ss" by (simp add: ev)
  have r: "fst (run_steps ss_step ?cs ?ss) = [1, 4, 1, 4, -2]" "visible (snd (run_steps ss_step ?cs ?ss)) = [NUL] @ ''ab'' @ [NUL] @ ''c'' @ [NUL]"
    by (simp_all add: ev)
  have g: "guards_hold ss_guard ss_next ?cs (fst (run_steps ss_step ?cs ?ss)) (first_offsets ?txt, ?txt)"
    unfolding r(1) by simp
  have "strset_inv (snd (run_steps ss_step ?cs ?ss))"
    using strset_refines [OF n _ calloc_of_bounded _ _ prod.collapse [symmetric] g] by simp
  then show ?thesis using r by (simp add: Let_def)
qed

end
