(* ===== verification/Btf_Type.thy ===== *)
theory Btf_Type
  imports Strset
begin

text \<open>
  The records of the BTF type format: \<^verbatim>\<open>include/uapi/linux/btf.h\<close>, the accessors of \<^verbatim>\<open>src/btf.h\<close> and the size and byte order
  functions of \<^verbatim>\<open>src/btf.c\<close>, all of libbpf.

  In memory a type is a \<^verbatim>\<open>struct btf_type\<close> of three 32-bit words, followed by more words whose number and meaning depend on the kind. As a value it
  is the record \<open>btf_type\<close> with these words as the list \<open>tail\<close>; the union of \<^verbatim>\<open>size\<close> and \<^verbatim>\<open>type\<close> is the field \<open>size_type\<close>. The elements behind a type
  (members, enumerators, parameters) are read from the tail, and \<open>None\<close> is reading beyond it.
\<close>

section \<open>Kinds and fields\<close>

abbreviation (input) BTF_KIND_UNKN :: nat where "BTF_KIND_UNKN \<equiv> 0"
abbreviation (input) BTF_KIND_INT :: nat where "BTF_KIND_INT \<equiv> 1"
abbreviation (input) BTF_KIND_PTR :: nat where "BTF_KIND_PTR \<equiv> 2"
abbreviation (input) BTF_KIND_ARRAY :: nat where "BTF_KIND_ARRAY \<equiv> 3"
abbreviation (input) BTF_KIND_STRUCT :: nat where "BTF_KIND_STRUCT \<equiv> 4"
abbreviation (input) BTF_KIND_UNION :: nat where "BTF_KIND_UNION \<equiv> 5"
abbreviation (input) BTF_KIND_ENUM :: nat where "BTF_KIND_ENUM \<equiv> 6"
abbreviation (input) BTF_KIND_FWD :: nat where "BTF_KIND_FWD \<equiv> 7"
abbreviation (input) BTF_KIND_TYPEDEF :: nat where "BTF_KIND_TYPEDEF \<equiv> 8"
abbreviation (input) BTF_KIND_VOLATILE :: nat where "BTF_KIND_VOLATILE \<equiv> 9"
abbreviation (input) BTF_KIND_CONST :: nat where "BTF_KIND_CONST \<equiv> 10"
abbreviation (input) BTF_KIND_RESTRICT :: nat where "BTF_KIND_RESTRICT \<equiv> 11"
abbreviation (input) BTF_KIND_FUNC :: nat where "BTF_KIND_FUNC \<equiv> 12"
abbreviation (input) BTF_KIND_FUNC_PROTO :: nat where "BTF_KIND_FUNC_PROTO \<equiv> 13"
abbreviation (input) BTF_KIND_VAR :: nat where "BTF_KIND_VAR \<equiv> 14"
abbreviation (input) BTF_KIND_DATASEC :: nat where "BTF_KIND_DATASEC \<equiv> 15"
abbreviation (input) BTF_KIND_FLOAT :: nat where "BTF_KIND_FLOAT \<equiv> 16"
abbreviation (input) BTF_KIND_DECL_TAG :: nat where "BTF_KIND_DECL_TAG \<equiv> 17"
abbreviation (input) BTF_KIND_TYPE_TAG :: nat where "BTF_KIND_TYPE_TAG \<equiv> 18"
abbreviation (input) BTF_KIND_ENUM64 :: nat where "BTF_KIND_ENUM64 \<equiv> 19"

record btf_type =
  name_off :: u32
  info :: u32
  size_type :: u32
  tail :: "u32 list"

definition BTF_INFO_KIND :: "u32 \<Rightarrow> u32" where
  "BTF_INFO_KIND i = drop_bit 24 i AND 0x1f"

definition BTF_INFO_VLEN :: "u32 \<Rightarrow> u32" where
  "BTF_INFO_VLEN i = i AND 0xffff"

definition BTF_INFO_KFLAG :: "u32 \<Rightarrow> u32" where
  "BTF_INFO_KFLAG i = drop_bit 31 i"

definition btf_kind :: "btf_type \<Rightarrow> nat" where
  "btf_kind t = unat (BTF_INFO_KIND (info t))"

definition btf_vlen :: "btf_type \<Rightarrow> nat" where
  "btf_vlen t = unat (BTF_INFO_VLEN (info t))"

definition btf_kflag :: "btf_type \<Rightarrow> bool" where
  "btf_kflag t \<longleftrightarrow> BTF_INFO_KFLAG (info t) \<noteq> 0"

definition btf_type_info :: "nat \<Rightarrow> nat \<Rightarrow> bool \<Rightarrow> u32" where
  "btf_type_info kind vlen kflag =
     push_bit 31 (of_bool kflag) OR push_bit 24 (word_of_nat kind) OR word_of_nat vlen"

definition btf_is_int :: "btf_type \<Rightarrow> bool" where "btf_is_int t \<longleftrightarrow> btf_kind t = BTF_KIND_INT"
definition btf_is_ptr :: "btf_type \<Rightarrow> bool" where "btf_is_ptr t \<longleftrightarrow> btf_kind t = BTF_KIND_PTR"
definition btf_is_array :: "btf_type \<Rightarrow> bool" where "btf_is_array t \<longleftrightarrow> btf_kind t = BTF_KIND_ARRAY"
definition btf_is_union :: "btf_type \<Rightarrow> bool" where "btf_is_union t \<longleftrightarrow> btf_kind t = BTF_KIND_UNION"
definition btf_is_enum :: "btf_type \<Rightarrow> bool" where "btf_is_enum t \<longleftrightarrow> btf_kind t = BTF_KIND_ENUM"
definition btf_is_enum64 :: "btf_type \<Rightarrow> bool" where "btf_is_enum64 t \<longleftrightarrow> btf_kind t = BTF_KIND_ENUM64"
definition btf_is_fwd :: "btf_type \<Rightarrow> bool" where "btf_is_fwd t \<longleftrightarrow> btf_kind t = BTF_KIND_FWD"
definition btf_is_typedef :: "btf_type \<Rightarrow> bool" where "btf_is_typedef t \<longleftrightarrow> btf_kind t = BTF_KIND_TYPEDEF"
definition btf_is_func_proto :: "btf_type \<Rightarrow> bool" where "btf_is_func_proto t \<longleftrightarrow> btf_kind t = BTF_KIND_FUNC_PROTO"
definition btf_is_var :: "btf_type \<Rightarrow> bool" where "btf_is_var t \<longleftrightarrow> btf_kind t = BTF_KIND_VAR"
definition btf_is_datasec :: "btf_type \<Rightarrow> bool" where "btf_is_datasec t \<longleftrightarrow> btf_kind t = BTF_KIND_DATASEC"

definition btf_is_composite :: "btf_type \<Rightarrow> bool" where
  "btf_is_composite t \<longleftrightarrow> (let kind = btf_kind t in kind = BTF_KIND_STRUCT \<or> kind = BTF_KIND_UNION)"

definition btf_is_mod :: "btf_type \<Rightarrow> bool" where
  "btf_is_mod t \<longleftrightarrow> (let kind = btf_kind t in
     kind = BTF_KIND_VOLATILE \<or> kind = BTF_KIND_CONST \<or> kind = BTF_KIND_RESTRICT \<or> kind = BTF_KIND_TYPE_TAG)"

definition btf_is_any_enum :: "btf_type \<Rightarrow> bool" where
  "btf_is_any_enum t \<longleftrightarrow> btf_is_enum t \<or> btf_is_enum64 t"

definition btf_kind_core_compat :: "btf_type \<Rightarrow> btf_type \<Rightarrow> bool" where
  "btf_kind_core_compat t1 t2 \<longleftrightarrow> btf_kind t1 = btf_kind t2 \<or> (btf_is_any_enum t1 \<and> btf_is_any_enum t2)"

lemmas btf_is_defs = btf_is_int_def btf_is_ptr_def btf_is_array_def btf_is_union_def btf_is_enum_def btf_is_enum64_def
  btf_is_fwd_def btf_is_typedef_def btf_is_func_proto_def btf_is_var_def btf_is_datasec_def btf_is_composite_def btf_is_mod_def
  btf_is_any_enum_def

section \<open>What follows a type\<close>

definition word_at :: "btf_type \<Rightarrow> nat \<Rightarrow> u32 option" where
  "word_at t i = (if i < length (tail t) then Some (tail t ! i) else None)"

record btf_array_info =
  a_type :: u32
  a_index_type :: u32
  a_nelems :: u32

record btf_member =
  m_name_off :: u32
  m_type :: u32
  m_offset :: u32

record btf_param =
  p_name_off :: u32
  p_type :: u32

definition btf_array :: "btf_type \<Rightarrow> btf_array_info option" where
  "btf_array t = do { ty \<leftarrow> word_at t 0; ix \<leftarrow> word_at t 1; n \<leftarrow> word_at t 2;
     Some \<lparr>a_type = ty, a_index_type = ix, a_nelems = n\<rparr> }"

text \<open>\<^verbatim>\<open>btf_members(t) + i\<close>, \<^verbatim>\<open>btf_params(t) + i\<close>, \<^verbatim>\<open>btf_enum(t)[i]\<close> and \<^verbatim>\<open>btf_enum64(t)[i]\<close>.\<close>

definition btf_members :: "btf_type \<Rightarrow> nat \<Rightarrow> btf_member option" where
  "btf_members t i = do { n \<leftarrow> word_at t (3 * i); ty \<leftarrow> word_at t (3 * i + 1); off \<leftarrow> word_at t (3 * i + 2);
     Some \<lparr>m_name_off = n, m_type = ty, m_offset = off\<rparr> }"

definition btf_params :: "btf_type \<Rightarrow> nat \<Rightarrow> btf_param option" where
  "btf_params t i = do { n \<leftarrow> word_at t (2 * i); ty \<leftarrow> word_at t (2 * i + 1); Some \<lparr>p_name_off = n, p_type = ty\<rparr> }"

definition enum_name_off :: "btf_type \<Rightarrow> nat \<Rightarrow> u32 option" where
  "enum_name_off t i = (if btf_is_enum t then word_at t (2 * i) else word_at t (3 * i))"

definition btf_enum_val :: "btf_type \<Rightarrow> nat \<Rightarrow> u32 option" where
  "btf_enum_val t i = word_at t (2 * i + 1)"

definition btf_enum64_value :: "btf_type \<Rightarrow> nat \<Rightarrow> u64 option" where
  "btf_enum64_value t i = do { lo \<leftarrow> word_at t (3 * i + 1); hi \<leftarrow> word_at t (3 * i + 2); Some (push_bit 32 (ucast hi) OR ucast lo) }"

definition BTF_INT_ENCODING :: "u32 \<Rightarrow> u32" where
  "BTF_INT_ENCODING v = drop_bit 24 (v AND 0x0f000000)"

definition BTF_INT_OFFSET :: "u32 \<Rightarrow> u32" where
  "BTF_INT_OFFSET v = drop_bit 16 (v AND 0x00ff0000)"

definition btf_int_encoding :: "btf_type \<Rightarrow> u32 option" where
  "btf_int_encoding t = map_option BTF_INT_ENCODING (word_at t 0)"

definition btf_int_offset :: "btf_type \<Rightarrow> u32 option" where
  "btf_int_offset t = map_option BTF_INT_OFFSET (word_at t 0)"

definition BTF_INT_SIGNED :: u32 where "BTF_INT_SIGNED = 1"
definition BTF_INT_CHAR :: u32 where "BTF_INT_CHAR = 2"
definition BTF_INT_BOOL :: u32 where "BTF_INT_BOOL = 4"

definition btf_member_bit_offset :: "btf_type \<Rightarrow> nat \<Rightarrow> u32 option" where
  "btf_member_bit_offset t i = do { m \<leftarrow> btf_members t i; Some (if btf_kflag t then m_offset m AND 0xffffff else m_offset m) }"

definition btf_member_bitfield_size :: "btf_type \<Rightarrow> nat \<Rightarrow> u32 option" where
  "btf_member_bitfield_size t i = do { m \<leftarrow> btf_members t i; Some (if btf_kflag t then drop_bit 24 (m_offset m) else 0) }"

section \<open>Size and byte order\<close>

definition btf_type_size :: "btf_type \<Rightarrow> int" where
  "btf_type_size t =
     (let kind = btf_kind t; vlen = int (btf_vlen t) in
      if kind \<in> {BTF_KIND_FWD, BTF_KIND_CONST, BTF_KIND_VOLATILE, BTF_KIND_RESTRICT, BTF_KIND_PTR, BTF_KIND_TYPEDEF,
                 BTF_KIND_FUNC, BTF_KIND_FLOAT, BTF_KIND_TYPE_TAG} then 12
      else if kind = BTF_KIND_INT then 12 + 4
      else if kind = BTF_KIND_ENUM then 12 + vlen * 8
      else if kind = BTF_KIND_ENUM64 then 12 + vlen * 12
      else if kind = BTF_KIND_ARRAY then 12 + 12
      else if kind \<in> {BTF_KIND_STRUCT, BTF_KIND_UNION} then 12 + vlen * 12
      else if kind = BTF_KIND_FUNC_PROTO then 12 + vlen * 8
      else if kind = BTF_KIND_VAR then 12 + 4
      else if kind = BTF_KIND_DATASEC then 12 + vlen * 12
      else if kind = BTF_KIND_DECL_TAG then 12 + 4
      else - EINVAL)"

definition bswap32_at :: "mem \<Rightarrow> nat \<Rightarrow> mem option" where
  "bswap32_at m p = do { v \<leftarrow> ld32 m p; st32 m p (bpf_swab32 v) }"

text \<open>The fields of one structure of \<open>k\<close> words, and the loops over \<open>n\<close> such structures.\<close>

fun bswap_fields :: "mem \<Rightarrow> nat \<Rightarrow> nat \<Rightarrow> mem option" where
  "bswap_fields m p 0 = Some m"
| "bswap_fields m p (Suc k) = do { m1 \<leftarrow> bswap32_at m p; bswap_fields m1 (p + 4) k }"

fun bswap_elems :: "nat \<Rightarrow> mem \<Rightarrow> nat \<Rightarrow> nat \<Rightarrow> mem option" where
  "bswap_elems k m p 0 = Some m"
| "bswap_elems k m p (Suc n) = do { m1 \<leftarrow> bswap_fields m p k; bswap_elems k m1 (p + 4 * k) n }"

text \<open>The \<^verbatim>\<open>struct btf_type\<close> at a position of memory, without what follows it.\<close>

definition ld_base :: "mem \<Rightarrow> nat \<Rightarrow> btf_type option" where
  "ld_base m p = do { n \<leftarrow> ld32 m p; i \<leftarrow> ld32 m (p + 4); s \<leftarrow> ld32 m (p + 8);
     Some \<lparr>name_off = n, info = i, size_type = s, tail = []\<rparr> }"

definition btf_bswap_type_base :: "mem \<Rightarrow> nat \<Rightarrow> mem option" where
  "btf_bswap_type_base m p = bswap_fields m p 3"

definition btf_bswap_type_rest :: "mem \<Rightarrow> nat \<Rightarrow> (int \<times> mem) option" where
  "btf_bswap_type_rest m p = do {
     t \<leftarrow> ld_base m p;
     let kind = btf_kind t; vlen = btf_vlen t; q = p + 12 in
     if kind \<in> {BTF_KIND_FWD, BTF_KIND_CONST, BTF_KIND_VOLATILE, BTF_KIND_RESTRICT, BTF_KIND_PTR, BTF_KIND_TYPEDEF,
                BTF_KIND_FUNC, BTF_KIND_FLOAT, BTF_KIND_TYPE_TAG} then Some (0, m)
     else if kind = BTF_KIND_INT then map_option (Pair 0) (bswap32_at m q)
     else if kind = BTF_KIND_ENUM then map_option (Pair 0) (bswap_elems 2 m q vlen)
     else if kind = BTF_KIND_ENUM64 then map_option (Pair 0) (bswap_elems 3 m q vlen)
     else if kind = BTF_KIND_ARRAY then map_option (Pair 0) (bswap_fields m q 3)
     else if kind \<in> {BTF_KIND_STRUCT, BTF_KIND_UNION} then map_option (Pair 0) (bswap_elems 3 m q vlen)
     else if kind = BTF_KIND_FUNC_PROTO then map_option (Pair 0) (bswap_elems 2 m q vlen)
     else if kind = BTF_KIND_VAR then map_option (Pair 0) (bswap32_at m q)
     else if kind = BTF_KIND_DATASEC then map_option (Pair 0) (bswap_elems 3 m q vlen)
     else if kind = BTF_KIND_DECL_TAG then map_option (Pair 0) (bswap32_at m q)
     else Some (- EINVAL, m) }"

section \<open>Types as words\<close>

definition words_of :: "btf_type \<Rightarrow> u32 list" where
  "words_of t = [name_off t, info t, size_type t] @ tail t"

definition enc :: "u32 list \<Rightarrow> mem" where
  "enc ws = concat (map le32_bytes ws)"

definition type_bytes :: "btf_type \<Rightarrow> mem" where
  "type_bytes t = enc (words_of t)"

text \<open>A complete type: its kind is known, and as many words follow as kind and \<^verbatim>\<open>vlen\<close> say.\<close>

definition type_ok :: "btf_type \<Rightarrow> bool" where
  "type_ok t \<longleftrightarrow> btf_type_size t = int (12 + 4 * length (tail t))"

lemma enc_simps [simp]:
  "enc [] = []" "enc (w # ws) = le32_bytes w @ enc ws" "enc (ws @ ws') = enc ws @ enc ws'" "length (enc ws) = 4 * length ws"
  by (simp_all add: enc_def length_concat sum_list_triv comp_def)

lemma length_type_bytes [simp]: "length (type_bytes t) = 12 + 4 * length (tail t)"
  by (simp add: type_bytes_def words_of_def)

lemma ld32_mid [simp]: "p = length a \<Longrightarrow> ld32 (a @ le32_bytes w @ r) p = Some w"
  by (auto simp: ld32_def le32_bytes_def nth_append)

lemma st32_mid [simp]: "p = length a \<Longrightarrow> st32 (a @ le32_bytes w @ r) p v = Some (a @ le32_bytes v @ r)"
  by (simp add: st32_def stn_def patch_def)

lemma bswap32_mid: "p = length a \<Longrightarrow> bswap32_at (a @ le32_bytes w @ r) p = Some (a @ le32_bytes (bpf_swab32 w) @ r)"
  by (simp add: bswap32_at_def)

lemma bswap_fields_mid:
  "p = length a \<Longrightarrow> k = length ws \<Longrightarrow> bswap_fields (a @ enc ws @ r) p k = Some (a @ enc (map bpf_swab32 ws) @ r)"
proof (induction ws arbitrary: a p k)
  case (Cons w ws)
  have "bswap_fields (a @ le32_bytes w @ enc ws @ r) p (Suc (length ws)) =
      bswap_fields ((a @ le32_bytes (bpf_swab32 w)) @ enc ws @ r) (p + 4) (length ws)"
    using Cons.prems by (simp add: bswap32_mid)
  also have "\<dots> = Some ((a @ le32_bytes (bpf_swab32 w)) @ enc (map bpf_swab32 ws) @ r)"
    using Cons.prems by (intro Cons.IH) simp_all
  finally show ?case using Cons.prems by simp
qed simp

lemma bswap_elems_mid:
  "p = length a \<Longrightarrow> k * n = length ws \<Longrightarrow> bswap_elems k (a @ enc ws @ r) p n = Some (a @ enc (map bpf_swab32 ws) @ r)"
proof (induction n arbitrary: a p ws)
  case (Suc n)
  let ?x = "take k ws" and ?y = "drop k ws"
  have k: "length ?x = k" "length ?y = k * n" using Suc.prems(2) by auto
  have ws: "ws = ?x @ ?y" by simp
  have "bswap_fields (a @ enc ws @ r) p k = Some (a @ enc (map bpf_swab32 ?x) @ enc ?y @ r)"
    using bswap_fields_mid [of p a k ?x "enc ?y @ r"] Suc.prems(1) k(1) by (subst ws) (simp del: append_take_drop_id)
  moreover have "bswap_elems k ((a @ enc (map bpf_swab32 ?x)) @ enc ?y @ r) (p + 4 * k) n =
      Some ((a @ enc (map bpf_swab32 ?x)) @ enc (map bpf_swab32 ?y) @ r)"
    using Suc.prems(1) k by (intro Suc.IH) simp_all
  moreover have "enc (map bpf_swab32 ws) = enc (map bpf_swab32 ?x) @ enc (map bpf_swab32 ?y)"
    by (subst ws) (simp del: append_take_drop_id)
  ultimately show ?case by simp
qed simp

lemma ld_base_mid:
  assumes "p = length a"
  shows "ld_base (a @ type_bytes t @ r) p = Some (t\<lparr>tail := []\<rparr>)"
proof -
  have "ld32 ((a @ le32_bytes (name_off t)) @ le32_bytes (info t) @ (le32_bytes (size_type t) @ enc (tail t) @ r)) (p + 4) = Some (info t)"
    "ld32 ((a @ le32_bytes (name_off t) @ le32_bytes (info t)) @ le32_bytes (size_type t) @ (enc (tail t) @ r)) (p + 8) = Some (size_type t)"
    using assms by (simp_all only: ld32_mid length_append length_le_bytes)
  then show ?thesis using assms by (simp add: ld_base_def type_bytes_def words_of_def)
qed

lemma btf_kind_upd [simp]: "btf_kind (t\<lparr>tail := ws\<rparr>) = btf_kind t" "btf_kind (t\<lparr>name_off := n\<rparr>) = btf_kind t"
    "btf_kind (t\<lparr>size_type := n\<rparr>) = btf_kind t"
  and btf_vlen_upd [simp]: "btf_vlen (t\<lparr>tail := ws\<rparr>) = btf_vlen t" "btf_vlen (t\<lparr>name_off := n\<rparr>) = btf_vlen t"
    "btf_vlen (t\<lparr>size_type := n\<rparr>) = btf_vlen t"
  by (simp_all add: btf_kind_def btf_vlen_def)

lemma btf_type_size_upd [simp]: "btf_type_size (t\<lparr>tail := ws\<rparr>) = btf_type_size t"
  by (simp add: btf_type_size_def)

text \<open>The size of a type is an error, or it is a number of whole words.\<close>

lemma btf_type_size_words: "btf_type_size t = - EINVAL \<or> (\<exists>k. btf_type_size t = int (12 + 4 * k))"
proof -
  have "\<exists>k. 12 + int v * 12 = int (12 + 4 * k)" "\<exists>k. 12 + int v * 8 = int (12 + 4 * k)" for v
    by (rule exI [of _ "3 * v"], simp) (rule exI [of _ "2 * v"], simp)
  moreover have "\<exists>k. (12::int) = int (12 + 4 * k)" "\<exists>k. (12 + 4::int) = int (12 + 4 * k)" "\<exists>k. (12 + 12::int) = int (12 + 4 * k)"
    by (rule exI [of _ 0], simp) (rule exI [of _ 1], simp, rule exI [of _ 3], simp)
  ultimately show ?thesis unfolding btf_type_size_def Let_def by (simp only: if_splits(1) [of "\<lambda>x. x = _ \<or> (\<exists>k. x = _ k)"]) blast
qed

lemma btf_type_size_ge: "0 \<le> btf_type_size t \<Longrightarrow> 12 \<le> btf_type_size t"
  using btf_type_size_words [of t] by (auto simp: EINVAL_def)

lemma bswap_base_mid:
  assumes "p = length a"
  shows "btf_bswap_type_base (a @ enc [x, y, z] @ r) p = Some (a @ enc [bpf_swab32 x, bpf_swab32 y, bpf_swab32 z] @ r)"
  using bswap_fields_mid [of p a 3 "[x, y, z]" r] assms by (simp add: btf_bswap_type_base_def)

lemma bswap_rest_mid:
  assumes p: "p = length a" and s: "btf_type_size t = int (12 + 4 * length ws)" and t: "tail t = ws"
  shows "btf_bswap_type_rest (a @ type_bytes t @ r) p = Some (0, a @ type_bytes (t\<lparr>tail := map bpf_swab32 ws\<rparr>) @ r)"
proof -
  let ?a = "a @ enc [name_off t, info t, size_type t]" and ?q = "p + 12" and ?ws' = "map bpf_swab32 ws"
  let ?m = "?a @ enc ws @ r" and ?m' = "?a @ enc ?ws' @ r"
  have m: "a @ type_bytes t @ r = ?m" "a @ type_bytes (t\<lparr>tail := ?ws'\<rparr>) @ r = ?m'"
    by (simp_all add: type_bytes_def words_of_def t)
  have b: "ld_base ?m p = Some (t\<lparr>tail := []\<rparr>)" using ld_base_mid [OF p, of t r] unfolding m(1) .
  have q: "?q = length ?a" using p by simp
  have one: "bswap32_at ?m ?q = Some ?m'" if "length ws = 1"
    using that q by (cases ws) (auto simp: bswap32_mid simp del: append_assoc)
  have fs: "bswap_fields ?m ?q 3 = Some ?m'" if "length ws = 3" using bswap_fields_mid [OF q, of 3 ws r] that by simp
  have es: "bswap_elems k ?m ?q (btf_vlen t) = Some ?m'" if "length ws = k * btf_vlen t" for k
    using bswap_elems_mid [OF q, of k "btf_vlen t" ws r] that by simp
  have no: "?m' = ?m" if "ws = []" using that by simp
  define M where "M = ?m"
  define M' where "M' = ?m'"
  note f = b one fs es [of 2] es [of 3] no
  show ?thesis
    using s f unfolding m M_def [symmetric] M'_def [symmetric] btf_bswap_type_rest_def btf_type_size_def Let_def
    by (auto simp: EINVAL_def split: if_splits)
qed

lemma le32_bytes_le32 [simp]: "le32_bytes (le32 a b c d) = [a, b, c, d]"
  by (simp add: le32_bytes_def)

lemma enc_surj: "length bs = 4 * n \<Longrightarrow> \<exists>ws. length ws = n \<and> bs = enc ws"
proof (induction n arbitrary: bs)
  case (Suc n)
  then obtain a b c d r where r: "bs = a # b # c # d # r" "length r = 4 * n"
    by (auto simp: length_Suc_conv numeral_eq_Suc)
  with Suc.IH obtain ws where "length ws = n" "r = enc ws" by blast
  then show ?case using r by (intro exI [of _ "le32 a b c d # ws"]) simp
qed simp

lemma le32_bytes_inj: "le32_bytes w = le32_bytes w' \<Longrightarrow> w = w'"
  unfolding le32_bytes_def list.inject by (metis le32_split)

lemma enc_inj: "length ws = length ws' \<Longrightarrow> enc ws = enc ws' \<Longrightarrow> ws = ws'"
proof (induction ws ws' rule: list_induct2)
  case (Cons w ws w' ws')
  then have "le32_bytes w = le32_bytes w'" "enc ws = enc ws'" by simp_all
  then show ?case using Cons.IH le32_bytes_inj by blast
qed simp

lemma enc_at:
  assumes "p + 4 * n \<le> length m"
  obtains ws where "length ws = n" "m = take p m @ enc ws @ drop (p + 4 * n) m"
proof -
  have "length (take (4 * n) (drop p m)) = 4 * n" using assms by simp
  then obtain ws where ws: "length ws = n" "take (4 * n) (drop p m) = enc ws" using enc_surj by blast
  have "m = take p m @ take (4 * n) (drop p m) @ drop (p + 4 * n) m"
    by (metis add.commute append_take_drop_id drop_drop)
  then show ?thesis using ws that by metis
qed

lemma map_swab [simp]: "map bpf_swab32 (map bpf_swab32 ws) = ws"
  by (induction ws) simp_all

lemma swab_comp [simp]: "bpf_swab32 \<circ> bpf_swab32 = id"
  by (simp add: fun_eq_iff)

section \<open>One type in memory\<close>

text \<open>What a type looks like in memory before it is brought into the byte order of the host.\<close>

definition type_image :: "bool \<Rightarrow> btf_type \<Rightarrow> mem" where
  "type_image swapped t = (if swapped then enc (map bpf_swab32 (words_of t)) else type_bytes t)"

lemma length_type_image [simp]: "length (type_image sw t) = 12 + 4 * length (tail t)"
  by (simp add: type_image_def words_of_def)

text \<open>The steps by which the parser reads one type never leave the section, and find what a writer would have put there.\<close>

lemma type_step:
  assumes p: "p + 12 \<le> endp" "endp \<le> length m"
  obtains t m1 where
    "(if sw then btf_bswap_type_base m p else Some m) = Some m1" "ld_base m1 p = Some (t\<lparr>tail := []\<rparr>)"
    "0 \<le> btf_type_size t \<and> p + nat (btf_type_size t) \<le> endp \<longrightarrow>
       type_ok t \<and> m = take p m @ type_image sw t @ drop (p + length (type_bytes t)) m \<and>
       (if sw then btf_bswap_type_rest m1 p else Some (0, m1)) =
         Some (0, take p m @ type_bytes t @ drop (p + length (type_bytes t)) m)"
proof -
  let ?sw = "\<lambda>w. if sw then bpf_swab32 w else w"
  obtain ws3 where ws3: "length ws3 = 3" "m = take p m @ enc ws3 @ drop (p + 12) m" using enc_at [of p 3 m] p by auto
  then obtain x y z where xyz: "ws3 = [x, y, z]" by (auto simp: length_Suc_conv numeral_eq_Suc)
  define t0 where "t0 = \<lparr>name_off = ?sw x, info = ?sw y, size_type = ?sw z, tail = []\<rparr>"
  define m1 where "m1 = take p m @ type_bytes t0 @ drop (p + 12) m"
  have la: "p = length (take p m)" using p by simp
  have m1: "(if sw then btf_bswap_type_base m p else Some m) = Some m1"
    using bswap_base_mid [OF la, of x y z "drop (p + 12) m"] ws3(2) xyz
    by (auto simp: m1_def t0_def type_bytes_def words_of_def)
  have b: "ld_base m1 p = Some t0" using ld_base_mid [OF la, of t0 "drop (p + 12) m"] by (simp add: m1_def t0_def)
  show ?thesis
  proof (cases "0 \<le> btf_type_size t0 \<and> p + nat (btf_type_size t0) \<le> endp")
    case True
    then obtain k where k: "btf_type_size t0 = int (12 + 4 * k)" using btf_type_size_words [of t0] by (auto simp: EINVAL_def)
    then have pk: "(p + 12) + 4 * k \<le> length m" using True p by simp
    obtain ws where ws: "length ws = k" "m = take (p + 12) m @ enc ws @ drop (p + 12 + 4 * k) m" using enc_at [OF pk] by blast
    then have d: "drop (p + 12) m = enc ws @ drop (p + 12 + 4 * k) m"
      by (metis append_eq_conv_conj length_take min.absorb2 p add_leD1 le_trans)
    let ?t = "t0\<lparr>tail := map ?sw ws\<rparr>" and ?r = "drop (p + 12 + 4 * k) m"
    have m: "m = take p m @ enc ws3 @ enc ws @ ?r" using ws3(2) d by simp
    have ok: "type_ok ?t" using k ws(1) by (simp add: type_ok_def)
    have im: "type_image sw ?t = enc ws3 @ enc ws" by (simp add: type_image_def xyz t0_def words_of_def type_bytes_def comp_def)
    have rest: "btf_bswap_type_rest (take p m @ type_bytes (t0\<lparr>tail := ws\<rparr>) @ ?r) p =
        Some (0, take p m @ type_bytes (t0\<lparr>tail := map bpf_swab32 ws\<rparr>) @ ?r)"
      using bswap_rest_mid [OF la, of "t0\<lparr>tail := ws\<rparr>" ws ?r] k ws(1) by simp
    have m1': "m1 = take p m @ type_bytes (t0\<lparr>tail := ws\<rparr>) @ ?r" unfolding m1_def d by (simp add: type_bytes_def words_of_def t0_def)
    have len: "p + length (type_bytes ?t) = p + 12 + 4 * k" using ws(1) by simp
    have id: "map ?sw ws = (if sw then map bpf_swab32 ws else ws)" by simp
    show ?thesis
    proof (rule that [OF m1, of ?t])
      show "ld_base m1 p = Some (?t\<lparr>tail := []\<rparr>)" using b by (simp add: t0_def)
      show "0 \<le> btf_type_size ?t \<and> p + nat (btf_type_size ?t) \<le> endp \<longrightarrow>
         type_ok ?t \<and> m = take p m @ type_image sw ?t @ drop (p + length (type_bytes ?t)) m \<and>
         (if sw then btf_bswap_type_rest m1 p else Some (0, m1)) =
           Some (0, take p m @ type_bytes ?t @ drop (p + length (type_bytes ?t)) m)"
        unfolding len im using ok m rest m1' by (auto simp: id)
    qed
  next
    case False
    then show ?thesis using that [OF m1, of t0] b by (auto simp: t0_def)
  qed
qed

lemma type_forward:
  assumes p: "p = length a" and t: "type_ok t"
  obtains m1 where "(if sw then btf_bswap_type_base (a @ type_image sw t @ r) p else Some (a @ type_image sw t @ r)) = Some m1"
    "ld_base m1 p = Some (t\<lparr>tail := []\<rparr>)" "(if sw then btf_bswap_type_rest m1 p else Some (0, m1)) = Some (0, a @ type_bytes t @ r)"
proof -
  define u where "u = (if sw then t\<lparr>tail := map bpf_swab32 (tail t)\<rparr> else t)"
  let ?m1 = "a @ type_bytes u @ r"
  have im: "type_image True t = enc [bpf_swab32 (name_off t), bpf_swab32 (info t), bpf_swab32 (size_type t)] @ enc (map bpf_swab32 (tail t))"
    by (simp add: type_image_def words_of_def)
  have 1: "(if sw then btf_bswap_type_base (a @ type_image sw t @ r) p else Some (a @ type_image sw t @ r)) = Some ?m1"
  proof (cases sw)
    case True
    show ?thesis
      using bswap_base_mid [OF p, of "bpf_swab32 (name_off t)" "bpf_swab32 (info t)" "bpf_swab32 (size_type t)" "enc (map bpf_swab32 (tail t)) @ r"]
      unfolding im [symmetric] by (simp add: True im u_def type_bytes_def words_of_def)
  qed (simp add: type_image_def u_def)
  have 2: "ld_base ?m1 p = Some (t\<lparr>tail := []\<rparr>)" using ld_base_mid [OF p, of u r] by (simp add: u_def)
  have "btf_bswap_type_rest ?m1 p = Some (0, a @ type_bytes t @ r)" if sw
    using bswap_rest_mid [OF p, of u "map bpf_swab32 (tail t)" r] t that by (simp add: u_def type_ok_def)
  then show ?thesis using that [OF 1 2] by (simp add: u_def)
qed

end
