(* ===== verification/Btf_Parse.thy ===== *)
theory Btf_Parse
  imports Btf_Type
begin

text \<open>
  Loading and writing BTF: \<^verbatim>\<open>btf_new\<close> and \<^verbatim>\<open>btf__raw_data\<close> of \<^verbatim>\<open>lib/libbpf/src/btf.c\<close> with everything that they call, on bytes.

  A \<^verbatim>\<open>struct btf\<close> is a datatype of its base BTF and a record of its other fields. \<open>types_data\<close> and \<open>strs_data\<close> are the memory from that pointer on. The fixed part of the
  header is the record \<open>hdr\<close>, bytes of a longer header are \<open>hdr_rest\<close>. \<open>modifiable\<close> is that the header is not inside \<open>raw_data\<close>. Type numbers are natural numbers: a section has less than
  4 GiB, so less than \<open>2 ^ 29\<close> types. Allocation outcomes are parameters.
\<close>

section \<open>State\<close>

record btf_header =
  h_magic :: u16
  h_version :: u8
  h_flags :: u8
  h_hdr_len :: u32
  h_type_off :: u32
  h_type_len :: u32
  h_str_off :: u32
  h_str_len :: u32

record btf_data =
  raw_data :: "mem option"
  raw_data_swapped :: "mem option"
  raw_size :: nat
  swapped_endian :: bool
  modifiable :: bool
  hdr :: btf_header
  hdr_rest :: mem
  types_data :: mem
  type_offs :: "u32 list"
  nr_types :: nat
  start_id :: nat
  start_str_off :: nat
  strs_data :: "string option"
  strs_set :: "strset option"
  strs_deduped :: bool
  ptr_sz :: int

datatype btf = Btf (base_btf: "btf option") (own: btf_data)

definition BTF_MAGIC :: u16 where "BTF_MAGIC = 0xeB9F"
definition BTF_MAX_NR_TYPES :: nat where "BTF_MAX_NR_TYPES = 0x7fffffff"
definition BTF_MAX_STR_OFFSET :: nat where "BTF_MAX_STR_OFFSET = 0x7fffffff"

definition byte_char :: "u8 \<Rightarrow> char" where "byte_char b = char_of (unat b)"
definition char_byte :: "char \<Rightarrow> u8" where "char_byte c = word_of_nat (of_char c)"

definition btf__type_cnt :: "btf \<Rightarrow> nat" where
  "btf__type_cnt btf = start_id (own btf) + nr_types (own btf)"

section \<open>Header\<close>

definition ld_hdr :: "mem \<Rightarrow> btf_header option" where
  "ld_hdr m = do {
     magic \<leftarrow> ld16 m 0; version \<leftarrow> ld8 m 2; flags \<leftarrow> ld8 m 3; hl \<leftarrow> ld32 m 4;
     toff \<leftarrow> ld32 m 8; tlen \<leftarrow> ld32 m 12; soff \<leftarrow> ld32 m 16; slen \<leftarrow> ld32 m 20;
     Some \<lparr>h_magic = magic, h_version = version, h_flags = flags, h_hdr_len = hl,
           h_type_off = toff, h_type_len = tlen, h_str_off = soff, h_str_len = slen\<rparr> }"

definition hdr_bytes :: "btf_header \<Rightarrow> mem" where
  "hdr_bytes h = le16_bytes (h_magic h) @ [h_version h, h_flags h] @
     enc [h_hdr_len h, h_type_off h, h_type_len h, h_str_off h, h_str_len h]"

definition btf_bswap_hdr :: "mem \<Rightarrow> mem option" where
  "btf_bswap_hdr m = do { magic \<leftarrow> ld16 m 0; m1 \<leftarrow> st16 m 0 (bpf_swab16 magic); bswap_fields m1 4 5 }"

definition hdr_checks :: "nat \<Rightarrow> btf_header \<Rightarrow> int" where
  "hdr_checks rsz h =
     (if rsz < unat (h_hdr_len h) then - EINVAL
      else if rsz - unat (h_hdr_len h) < unat (h_str_off h) + unat (h_str_len h) then - EINVAL
      else if unat (h_type_off h) + unat (h_type_len h) > unat (h_str_off h) then - EINVAL
      else if h_type_off h mod 4 \<noteq> 0 then - EINVAL
      else 0)"

definition btf_parse_hdr :: "mem \<Rightarrow> (int \<times> bool \<times> mem) option" where
  "btf_parse_hdr raw =
     (if length raw < 24 then Some (- EINVAL, False, raw)
      else do {
        h \<leftarrow> ld_hdr raw;
        if h_magic h = bpf_swab16 BTF_MAGIC then
          if bpf_swab32 (h_hdr_len h) \<noteq> 24 then Some (- ENOTSUP, True, raw)
          else do { raw1 \<leftarrow> btf_bswap_hdr raw; h1 \<leftarrow> ld_hdr raw1; Some (hdr_checks (length raw1) h1, True, raw1) }
        else if h_magic h \<noteq> BTF_MAGIC then Some (- EINVAL, False, raw)
        else Some (hdr_checks (length raw) h, False, raw) })"

section \<open>Strings and types\<close>

definition btf_parse_str_sec :: "bool \<Rightarrow> mem \<Rightarrow> nat \<Rightarrow> nat \<Rightarrow> int option" where
  "btf_parse_str_sec has_base m start str_len =
     (if has_base \<and> str_len = 0 then Some 0
      else if str_len = 0 \<or> str_len - 1 > BTF_MAX_STR_OFFSET then Some (- EINVAL)
      else do {
        last \<leftarrow> ld8 m (start + str_len - 1);
        if last \<noteq> 0 then Some (- EINVAL)
        else if has_base then Some 0
        else do { first \<leftarrow> ld8 m start; Some (if first \<noteq> 0 then - EINVAL else 0) } })"

definition btf_add_type_offs_mem :: "(nat \<Rightarrow> bool) \<Rightarrow> u32 list \<Rightarrow> nat \<Rightarrow> nat \<Rightarrow> u32 list option" where
  "btf_add_type_offs_mem realloc_ok offs nr add_cnt = libbpf_add_mem 0 realloc_ok offs nr BTF_MAX_NR_TYPES add_cnt"

definition btf_add_type_idx_entry :: "(nat \<Rightarrow> bool) \<Rightarrow> u32 list \<Rightarrow> nat \<Rightarrow> u32 \<Rightarrow> int + u32 list" where
  "btf_add_type_idx_entry realloc_ok offs nr type_off =
     (case btf_add_type_offs_mem realloc_ok offs nr 1 of
        None \<Rightarrow> Inl (- ENOMEM)
      | Some offs1 \<Rightarrow> Inr (offs1[nr := type_off]))"

text \<open>
  The loop of \<^verbatim>\<open>btf_parse_type_sec\<close> over the section that begins at \<open>start\<close> and ends at \<open>endp\<close>: an error, or memory after
  swapping with the index of the types.
\<close>

function parse_types :: "(nat \<Rightarrow> bool) \<Rightarrow> bool \<Rightarrow> nat \<Rightarrow> nat \<Rightarrow> mem \<Rightarrow> nat \<Rightarrow> u32 list \<Rightarrow> nat \<Rightarrow> (int + mem \<times> u32 list \<times> nat) option" where
  "parse_types realloc_ok swapped start endp m next offs nr =
     (if next + 12 \<le> endp then
        (case (if swapped then btf_bswap_type_base m next else Some m) of None \<Rightarrow> None
         | Some m1 \<Rightarrow>
        (case ld_base m1 next of None \<Rightarrow> None
         | Some t \<Rightarrow>
           let type_size = btf_type_size t in
           if type_size < 0 then Some (Inl type_size)
           else if next + nat type_size > endp then Some (Inl (- EINVAL))
           else case (if swapped then btf_bswap_type_rest m1 next else Some (0, m1)) of None \<Rightarrow> None
             | Some (err, m2) \<Rightarrow>
               if err \<noteq> 0 then Some (Inl (- EINVAL))
               else case btf_add_type_idx_entry realloc_ok offs nr (word_of_nat (next - start)) of
                 Inl e \<Rightarrow> Some (Inl e)
               | Inr offs1 \<Rightarrow> parse_types realloc_ok swapped start endp m2 (next + nat type_size) offs1 (nr + 1)))
      else if next \<noteq> endp then Some (Inl (- EINVAL))
      else Some (Inr (m, offs, nr)))"
  by pat_completeness auto

termination parse_types
  by (relation "measure (\<lambda>(_, _, _, endp, _, nxt, _, _). endp - nxt)") (auto dest!: btf_type_size_ge simp: not_less)

declare parse_types.simps [simp del]

definition btf_parse_type_sec :: "(nat \<Rightarrow> bool) \<Rightarrow> bool \<Rightarrow> mem \<Rightarrow> nat \<Rightarrow> nat \<Rightarrow> (int + mem \<times> u32 list \<times> nat) option" where
  "btf_parse_type_sec realloc_ok swapped m start type_len = parse_types realloc_ok swapped start (start + type_len) m start [] 0"

section \<open>Loading\<close>

definition btf_new :: "bool \<Rightarrow> bool \<Rightarrow> (nat \<Rightarrow> bool) \<Rightarrow> mem \<Rightarrow> btf option \<Rightarrow> (int + btf) option" where
  "btf_new calloc_ok malloc_ok realloc_ok data base =
     (if \<not> calloc_ok then Some (Inl (- ENOMEM))
      else if \<not> malloc_ok then Some (Inl (- ENOMEM))
      else do {
        (err, swapped, raw) \<leftarrow> btf_parse_hdr data;
        if err \<noteq> 0 then Some (Inl err)
        else do {
          h \<leftarrow> ld_hdr raw;
          let hl = unat (h_hdr_len h); strs = hl + unat (h_str_off h); types = hl + unat (h_type_off h) in do {
          err2 \<leftarrow> btf_parse_str_sec (base \<noteq> None) raw strs (unat (h_str_len h));
          if err2 \<noteq> 0 then Some (Inl err2)
          else do {
            res \<leftarrow> btf_parse_type_sec realloc_ok swapped raw types (unat (h_type_len h));
            case res of
              Inl e \<Rightarrow> Some (Inl e)
            | Inr (raw1, offs, nr) \<Rightarrow> Some (Inr (Btf base
                \<lparr>raw_data = Some raw1, raw_data_swapped = None, raw_size = length raw1, swapped_endian = swapped,
                 modifiable = False, hdr = h, hdr_rest = drop 24 (take hl raw1), types_data = drop types raw1,
                 type_offs = offs, nr_types = nr,
                 start_id = (case base of None \<Rightarrow> 1 | Some b \<Rightarrow> btf__type_cnt b),
                 start_str_off = (case base of None \<Rightarrow> 0 | Some b \<Rightarrow> unat (h_str_len (hdr (own b)))),
                 strs_data = Some (map byte_char (drop strs raw1)), strs_set = None, strs_deduped = False, ptr_sz = 0\<rparr>)) }}}})"

section \<open>Writing\<close>

definition btf_strs_data :: "btf_data \<Rightarrow> string option" where
  "btf_strs_data d = (case strs_data d of Some s \<Rightarrow> Some s | None \<Rightarrow> map_option strset__data (strs_set d))"

fun bswap_types :: "mem \<Rightarrow> nat \<Rightarrow> u32 list \<Rightarrow> (int \<times> mem) option" where
  "bswap_types m p [] = Some (0, m)"
| "bswap_types m p (off # offs) = do {
     (err, m1) \<leftarrow> btf_bswap_type_rest m (p + unat off);
     if err \<noteq> 0 then Some (err, m1)
     else do { m2 \<leftarrow> btf_bswap_type_base m1 (p + unat off); bswap_types m2 p offs } }"

text \<open>The inner \<open>None\<close> is the null pointer.\<close>

definition btf_get_raw_data :: "bool \<Rightarrow> btf_data \<Rightarrow> bool \<Rightarrow> (mem \<times> nat) option option" where
  "btf_get_raw_data calloc_ok d swap_endian =
     (case (if swap_endian then raw_data_swapped d else raw_data d) of
        Some data \<Rightarrow> Some (Some (data, raw_size d))
      | None \<Rightarrow>
          let h = hdr d; hl = unat (h_hdr_len h); tl = unat (h_type_len h); sl = unat (h_str_len h);
              data_sz = unat (h_hdr_len h + h_type_len h + h_str_len h) in
          if \<not> calloc_ok then Some None
          else do {
            hb \<leftarrow> ldn (hdr_bytes h @ hdr_rest d) 0 hl;
            p1 \<leftarrow> stn (replicate data_sz 0) 0 hb;
            p2 \<leftarrow> (if swap_endian then btf_bswap_hdr p1 else Some p1);
            tb \<leftarrow> ldn (types_data d) 0 tl;
            p3 \<leftarrow> stn p2 hl tb;
            (err, p4) \<leftarrow> (if swap_endian then bswap_types p3 hl (take (nr_types d) (type_offs d)) else Some (0, p3));
            if err \<noteq> 0 then Some None
            else do {
              s \<leftarrow> btf_strs_data d;
              sb \<leftarrow> ldn (map char_byte s) 0 sl;
              p5 \<leftarrow> stn p4 (hl + tl) sb;
              Some (Some (p5, data_sz)) } })"

definition btf__raw_data :: "bool \<Rightarrow> btf_data \<Rightarrow> ((mem \<times> nat) option \<times> btf_data) option" where
  "btf__raw_data calloc_ok d = do {
     r \<leftarrow> btf_get_raw_data calloc_ok d (swapped_endian d);
     case r of
       None \<Rightarrow> Some (None, d)
     | Some (data, data_sz) \<Rightarrow>
         let d1 = d\<lparr>raw_size := data_sz\<rparr> in
         Some (Some (data, data_sz), if swapped_endian d then d1\<lparr>raw_data_swapped := Some data\<rparr> else d1\<lparr>raw_data := Some data\<rparr>) }"

abbreviation (input) BTF_LITTLE_ENDIAN :: nat where "BTF_LITTLE_ENDIAN \<equiv> 0"
abbreviation (input) BTF_BIG_ENDIAN :: nat where "BTF_BIG_ENDIAN \<equiv> 1"

definition btf__endianness :: "btf_data \<Rightarrow> nat" where
  "btf__endianness d = (if swapped_endian d then BTF_BIG_ENDIAN else BTF_LITTLE_ENDIAN)"

definition btf__set_endianness :: "btf_data \<Rightarrow> nat \<Rightarrow> int \<times> btf_data" where
  "btf__set_endianness d endian =
     (if endian \<noteq> BTF_LITTLE_ENDIAN \<and> endian \<noteq> BTF_BIG_ENDIAN then (- EINVAL, d)
      else let d1 = d\<lparr>swapped_endian := (endian = BTF_BIG_ENDIAN)\<rparr> in
        (0, if swapped_endian d1 then d1 else d1\<lparr>raw_data_swapped := None\<rparr>))"

section \<open>The index of types\<close>

lemma idx_entry_facts:
  assumes "btf_add_type_idx_entry ok offs nr v = Inr offs'" "nr \<le> length offs"
  shows "nr < length offs'" "take nr offs' = take nr offs" "offs' ! nr = v"
proof -
  obtain o1 where o1: "libbpf_add_mem 0 ok offs nr BTF_MAX_NR_TYPES 1 = Some o1" "offs' = o1[nr := v]"
    using assms(1) by (auto simp: btf_add_type_idx_entry_def btf_add_type_offs_mem_def split: option.splits)
  note f = add_mem_facts [OF o1(1)]
  show "nr < length offs'" "offs' ! nr = v" using o1(2) f(1) by simp_all
  have "take nr o1 = take nr offs" using f(2) assms(2) by (metis min.absorb1 take_take)
  then show "take nr offs' = take nr offs" using o1(2) by simp
qed

lemma idx_entry_ok:
  "\<forall>n. ok n \<Longrightarrow> nr < BTF_MAX_NR_TYPES \<Longrightarrow> \<exists>offs'. btf_add_type_idx_entry ok offs nr v = Inr offs'"
  by (auto simp: btf_add_type_idx_entry_def btf_add_type_offs_mem_def libbpf_add_mem_def Let_def)

definition types_bytes :: "btf_type list \<Rightarrow> mem" where
  "types_bytes ts = concat (map type_bytes ts)"

definition images :: "bool \<Rightarrow> btf_type list \<Rightarrow> mem" where
  "images sw ts = concat (map (type_image sw) ts)"

lemma types_bytes_simps [simp]:
  "types_bytes [] = []" "types_bytes (t # ts) = type_bytes t @ types_bytes ts" "types_bytes (ts @ ts') = types_bytes ts @ types_bytes ts'"
  "images sw [] = []" "images sw (t # ts) = type_image sw t @ images sw ts" "images sw (ts @ ts') = images sw ts @ images sw ts'"
  by (simp_all add: types_bytes_def images_def)

lemma length_images [simp]: "length (images sw ts) = length (types_bytes ts)"
  by (induction ts) simp_all

lemma images_native [simp]: "images False ts = types_bytes ts"
  by (induction ts) (simp_all add: type_image_def)

text \<open>\<open>indexes offs start ts\<close>: the index gives the place of every type of \<open>ts\<close>, which begin at \<open>start\<close>.\<close>

fun indexes :: "u32 list \<Rightarrow> nat \<Rightarrow> btf_type list \<Rightarrow> bool" where
  "indexes offs start [] \<longleftrightarrow> offs = []"
| "indexes offs start (t # ts) \<longleftrightarrow>
     (case offs of [] \<Rightarrow> False | o1 # os \<Rightarrow> o1 = word_of_nat start \<and> indexes os (start + length (type_bytes t)) ts)"

lemma type_bytes_inj:
  assumes "type_ok t" "type_ok t'" "type_bytes t @ r = type_bytes t' @ r'"
  shows "t = t' \<and> r = r'"
proof -
  have "ld_base (type_bytes t @ r) 0 = Some (t\<lparr>tail := []\<rparr>)" "ld_base (type_bytes t' @ r') 0 = Some (t'\<lparr>tail := []\<rparr>)"
    using ld_base_mid [OF list.size(3) [symmetric]] by (simp_all only: append_Nil)
  then have e: "t\<lparr>tail := []\<rparr> = t'\<lparr>tail := []\<rparr>" using assms(3) by (metis option.inject)
  then have "btf_type_size t = btf_type_size t'" by (metis btf_type_size_upd)
  then have l: "length (tail t) = length (tail t')" using assms(1,2) by (simp add: type_ok_def)
  then have b: "type_bytes t = type_bytes t'" "r = r'" using assms(3) by simp_all
  then have "enc (tail t) = enc (tail t')" using e by (cases t; cases t') (simp add: type_bytes_def words_of_def)
  then have "tail t = tail t'" using enc_inj l by blast
  then show ?thesis using e b(2) by (cases t; cases t') simp
qed

lemma types_bytes_inj:
  "list_all type_ok ts \<Longrightarrow> list_all type_ok ts' \<Longrightarrow> length ts = length ts' \<Longrightarrow> types_bytes ts = types_bytes ts' \<Longrightarrow> ts = ts'"
proof (induction ts arbitrary: ts')
  case (Cons t ts)
  then obtain u us where u: "ts' = u # us" by (cases ts') auto
  then have "type_ok t" "type_ok u" "type_bytes t @ types_bytes ts = type_bytes u @ types_bytes us" using Cons.prems by simp_all
  then have "t = u \<and> types_bytes ts = types_bytes us" by (rule type_bytes_inj)
  then show ?case using Cons.IH [of us] Cons.prems(1-3) u by simp
qed simp

lemma parse_types_stop:
  "parse_types ok sw start endp m p offs nr = Some (if p = endp then Inr (m, offs, nr) else Inl (- EINVAL))" if "\<not> p + 12 \<le> endp"
  using that by (subst parse_types.simps) simp

text \<open>One turn of the loop: it fails, or it goes on behind the type that it has read.\<close>

lemma parse_types_turn:
  assumes p: "p + 12 \<le> endp" "endp \<le> length m"
  obtains (fail) e where "parse_types ok sw start endp m p offs nr = Some (Inl e)"
  | (turn) t offs1 m2 where "type_ok t" "m = take p m @ type_image sw t @ drop (p + length (type_bytes t)) m" "p + length (type_bytes t) \<le> endp"
      "btf_add_type_idx_entry ok offs nr (word_of_nat (p - start)) = Inr offs1"
      "m2 = take p m @ type_bytes t @ drop (p + length (type_bytes t)) m"
      "parse_types ok sw start endp m p offs nr = parse_types ok sw start endp m2 (p + length (type_bytes t)) offs1 (nr + 1)"
proof -
  obtain t m1 where m1: "(if sw then btf_bswap_type_base m p else Some m) = Some m1" "ld_base m1 p = Some (t\<lparr>tail := []\<rparr>)" and
    t: "0 \<le> btf_type_size t \<and> p + nat (btf_type_size t) \<le> endp \<longrightarrow>
       type_ok t \<and> m = take p m @ type_image sw t @ drop (p + length (type_bytes t)) m \<and>
       (if sw then btf_bswap_type_rest m1 p else Some (0, m1)) =
         Some (0, take p m @ type_bytes t @ drop (p + length (type_bytes t)) m)"
    by (rule type_step [OF p])
  note step = parse_types.simps [of ok sw start endp m p offs nr] m1
  show ?thesis
  proof (cases "0 \<le> btf_type_size t \<and> p + nat (btf_type_size t) \<le> endp")
    case True
    note t = t [rule_format, OF True]
    have sz: "nat (btf_type_size t) = length (type_bytes t)" using t by (simp add: type_ok_def)
    show ?thesis
    proof (cases "btf_add_type_idx_entry ok offs nr (word_of_nat (p - start))")
      case (Inl e)
      then show ?thesis using fail step p(1) True t by simp
    next
      case (Inr offs1)
      show ?thesis
        by (rule turn [OF _ _ _ Inr refl]) (use t True sz step p(1) Inr in \<open>simp_all\<close>)
    qed
  next
    case False
    then show ?thesis using fail step p(1) by (cases "btf_type_size t < 0") auto
  qed
qed

lemma parse_types_total:
  "endp \<le> length m \<Longrightarrow> \<exists>r. parse_types ok sw start endp m p offs nr = Some r"
proof (induction "endp - p" arbitrary: p m offs nr rule: less_induct)
  case less
  show ?case
  proof (cases "p + 12 \<le> endp")
    case True
    show ?thesis
    proof (rule parse_types_turn [OF True less.prems, of ok sw start offs nr], goal_cases fail turn)
      case (turn t offs1 m2)
      have "length m2 = length m" using arg_cong [OF turn(2), of length] turn(5) by simp
      then show ?thesis unfolding turn(6) using True turn(3) less.prems by (intro less.hyps) simp_all
    qed simp
  qed (simp add: parse_types_stop)
qed


lemma parse_types_sound:
  "parse_types ok sw start endp m p offs nr = Some (Inr (m', offs', nr')) \<Longrightarrow> endp \<le> length m \<Longrightarrow> start \<le> p \<Longrightarrow> p \<le> endp \<Longrightarrow>
     nr \<le> length offs \<Longrightarrow>
   \<exists>ts. list_all type_ok ts \<and> m = take p m @ images sw ts @ drop endp m \<and> m' = take p m @ types_bytes ts @ drop endp m \<and>
     nr' = nr + length ts \<and> nr' \<le> length offs' \<and> take nr offs' = take nr offs \<and>
     indexes (take (length ts) (drop nr offs')) (p - start) ts \<and> p + length (types_bytes ts) = endp"
proof (induction "endp - p" arbitrary: p m offs nr rule: less_induct)
  case less
  note pr = less.prems
  show ?case
  proof (cases "p + 12 \<le> endp")
    case True
    show ?thesis
    proof (rule parse_types_turn [OF True pr(2), of ok sw start offs nr], goal_cases fail turn)
      case (turn t offs1 m2)
      let ?q = "p + length (type_bytes t)"
      have len: "length m2 = length m" using arg_cong [OF turn(2), of length] turn(5) by simp
      have tq: "take ?q m2 = take p m @ type_bytes t" "drop endp m2 = drop endp m"
        using turn(3,5) pr(2) len by simp_all
      note f = idx_entry_facts [OF turn(4) pr(5)]
      have h: "endp - ?q < endp - p" using True by simp
      obtain ts where ts: "list_all type_ok ts" "m2 = take ?q m2 @ images sw ts @ drop endp m2" "m' = take ?q m2 @ types_bytes ts @ drop endp m2"
        "nr' = nr + 1 + length ts" "nr' \<le> length offs'" "take (nr + 1) offs' = take (nr + 1) offs1"
        "indexes (take (length ts) (drop (nr + 1) offs')) (?q - start) ts" "?q + length (types_bytes ts) = endp"
        using less.hyps [OF h, of m2 offs1 "nr + 1"] pr turn(3) f(1) len by (auto simp: turn(6))
      have "m2 = (take p m @ type_bytes t) @ drop ?q m" using turn(5) by simp
      then have "drop ?q m = images sw ts @ drop endp m"
        using ts(2) unfolding tq by (metis same_append_eq)
      then have 1: "m = take p m @ images sw (t # ts) @ drop endp m" using turn(2) by simp
      have n: "nr < length offs'" using ts(4,5) by simp
      have 2: "offs' ! nr = word_of_nat (p - start)" "take nr offs' = take nr offs"
      proof -
        have "offs' ! nr = offs1 ! nr" using ts(6) by (metis lessI nth_take Suc_eq_plus1)
        then show "offs' ! nr = word_of_nat (p - start)" using f(3) by simp
        have "take nr offs' = take nr offs1" using ts(6) by (metis min_add_distrib_left take_take min.absorb1 le_add1)
        then show "take nr offs' = take nr offs" using f(2) by simp
      qed
      have "drop nr offs' = offs' ! nr # drop (nr + 1) offs'" using n by (simp add: Cons_nth_drop_Suc)
      then have 3: "indexes (take (length (t # ts)) (drop nr offs')) (p - start) (t # ts)"
        using 2(1) ts(7) pr(3) by simp
      have 4: "m' = take p m @ types_bytes (t # ts) @ drop endp m" unfolding ts(3) tq by simp
      show ?thesis
        by (rule exI [of _ "t # ts"]) (use 1 2 3 4 turn(1) ts(1,4,5,8) in simp)
    qed (use pr(1) in simp)
  next
    case False
    then show ?thesis using pr by (auto simp: parse_types_stop split: if_splits)
  qed
qed


lemma parse_types_complete:
  "list_all type_ok ts \<Longrightarrow> \<forall>n. ok n \<Longrightarrow> nr + length ts \<le> BTF_MAX_NR_TYPES \<Longrightarrow> p = length a \<Longrightarrow> endp = p + length (types_bytes ts) \<Longrightarrow>
   \<exists>offs'. parse_types ok sw start endp (a @ images sw ts @ r) p offs nr = Some (Inr (a @ types_bytes ts @ r, offs', nr + length ts))"
proof (induction ts arbitrary: a p offs nr)
  case Nil
  then show ?case by (simp add: parse_types_stop)
next
  case (Cons t ts)
  have t: "type_ok t" using Cons.prems(1) by simp
  obtain m1 where m1: "(if sw then btf_bswap_type_base (a @ type_image sw t @ images sw ts @ r) p else Some (a @ type_image sw t @ images sw ts @ r)) = Some m1"
    "ld_base m1 p = Some (t\<lparr>tail := []\<rparr>)"
    "(if sw then btf_bswap_type_rest m1 p else Some (0, m1)) = Some (0, a @ type_bytes t @ images sw ts @ r)"
    by (rule type_forward [OF Cons.prems(4) t])
  have sz: "btf_type_size t = int (length (type_bytes t))" using t by (simp add: type_ok_def)
  obtain offs1 where o: "btf_add_type_idx_entry ok offs nr (word_of_nat (p - start)) = Inr offs1"
    using idx_entry_ok [of ok nr offs] Cons.prems(2,3) by (metis add_lessD1 add_Suc_right less_eq_Suc_le length_Cons le_add1 le_trans)
  let ?a = "a @ type_bytes t"
  have e: "endp = (p + length (type_bytes t)) + length (types_bytes ts)" using Cons.prems(5) by simp
  obtain offs' where "parse_types ok sw start endp (?a @ images sw ts @ r) (p + length (type_bytes t)) offs1 (nr + 1) =
      Some (Inr (?a @ types_bytes ts @ r, offs', nr + 1 + length ts))"
    using Cons.IH [of "nr + 1" "p + length (type_bytes t)" ?a offs1, OF _ Cons.prems(2) _ _ e] Cons.prems(1,3,4) by auto
  moreover have "p + 12 \<le> endp" "\<not> endp < p + length (type_bytes t)" using Cons.prems(5) by simp_all
  ultimately show ?case
    using m1 o by (cases sw; subst parse_types.simps; auto simp: sz simp del: length_type_bytes)
qed


section \<open>The header\<close>

lemma length_hdr_bytes [simp]: "length (hdr_bytes h) = 24"
  by (simp add: hdr_bytes_def)

lemma ld16_mid: "p = length a \<Longrightarrow> ld16 (a @ le16_bytes w @ r) p = Some w"
  by (auto simp: ld16_def le16_bytes_def nth_append)

lemma ld_hdr_bytes [simp]: "ld_hdr (hdr_bytes h @ r) = Some h"
proof -
  let ?b = "le16_bytes (h_magic h) @ [h_version h, h_flags h]"
  have w: "ld32 ((?b @ enc ws) @ le32_bytes w @ r') (4 + 4 * length ws) = Some w" for ws w r'
    by (rule ld32_mid) simp
  note w [of "[]"] w [of "[_]"] w [of "[_, _]"] w [of "[_, _, _]"] w [of "[_, _, _, _]"]
  moreover have "ld16 (le16_bytes (h_magic h) @ r') 0 = Some (h_magic h)" for r' using ld16_mid [of 0 "[]"] by simp
  moreover have "ld8 (?b @ r') 2 = Some (h_version h)" "ld8 (?b @ r') 3 = Some (h_flags h)" for r'
    by (simp_all add: ld8_def nth_append)
  ultimately show ?thesis by (simp add: ld_hdr_def hdr_bytes_def)
qed

lemma hdr_split:
  assumes "24 \<le> length m"
  obtains h where "m = hdr_bytes h @ drop 24 m"
proof -
  obtain ws where ws: "length ws = 5" "m = take 4 m @ enc ws @ drop 24 m" using enc_at [of 4 5 m] assms by auto
  obtain a b c d where t: "take 4 m = [a, b, c, d]" using assms by (cases m; cases "tl m"; cases "tl (tl m)"; cases "tl (tl (tl m))") auto
  obtain v w x y z where "ws = [v, w, x, y, z]" using ws(1) by (auto simp: length_Suc_conv numeral_eq_Suc)
  then have "m = hdr_bytes \<lparr>h_magic = le16 a b, h_version = c, h_flags = d, h_hdr_len = v, h_type_off = w, h_type_len = x, h_str_off = y, h_str_len = z\<rparr> @ drop 24 m"
    using ws(2) t by (simp add: hdr_bytes_def)
  then show ?thesis by (rule that)
qed

definition swab_hdr :: "btf_header \<Rightarrow> btf_header" where
  "swab_hdr h = h\<lparr>h_magic := bpf_swab16 (h_magic h), h_hdr_len := bpf_swab32 (h_hdr_len h), h_type_off := bpf_swab32 (h_type_off h),
     h_type_len := bpf_swab32 (h_type_len h), h_str_off := bpf_swab32 (h_str_off h), h_str_len := bpf_swab32 (h_str_len h)\<rparr>"

lemma swab_hdr_swab_hdr [simp]: "swab_hdr (swab_hdr h) = h"
  by (simp add: swab_hdr_def)

lemma bswap_hdr_bytes [simp]: "btf_bswap_hdr (hdr_bytes h @ r) = Some (hdr_bytes (swab_hdr h) @ r)"
proof -
  let ?ws = "[h_hdr_len h, h_type_off h, h_type_len h, h_str_off h, h_str_len h]"
  let ?a = "le16_bytes (bpf_swab16 (h_magic h)) @ [h_version h, h_flags h]"
  have "ld16 (hdr_bytes h @ r) 0 = Some (h_magic h)" using ld16_mid [of 0 "[]"] by (simp add: hdr_bytes_def)
  moreover have "st16 (hdr_bytes h @ r) 0 (bpf_swab16 (h_magic h)) = Some (?a @ enc ?ws @ r)"
    by (simp add: hdr_bytes_def st16_def stn_def patch_def)
  moreover have "bswap_fields (?a @ enc ?ws @ r) 4 5 = Some (?a @ enc (map bpf_swab32 ?ws) @ r)"
    by (rule bswap_fields_mid) simp_all
  ultimately show ?thesis by (simp add: btf_bswap_hdr_def hdr_bytes_def swab_hdr_def)
qed

text \<open>What the header check has established when it succeeds.\<close>

lemma parse_hdr_cases:
  obtains (fail) err sw raw where "btf_parse_hdr data = Some (err, sw, raw)" "err \<noteq> 0"
  | (good) sw h r where "data = hdr_bytes (if sw then swab_hdr h else h) @ r" "btf_parse_hdr data = Some (0, sw, hdr_bytes h @ r)"
      "hdr_checks (24 + length r) h = 0" "h_magic h = BTF_MAGIC" "sw \<Longrightarrow> h_hdr_len h = 24"
proof (cases "24 \<le> length data")
  case True
  then obtain g where g: "data = hdr_bytes g @ drop 24 data" by (rule hdr_split)
  define r where "r = drop 24 data"
  have d: "data = hdr_bytes g @ r" using g r_def by simp
  show ?thesis
  proof (cases "h_magic g = bpf_swab16 BTF_MAGIC")
    case sw: True
    show ?thesis
    proof (cases "bpf_swab32 (h_hdr_len g) = 24 \<and> hdr_checks (24 + length r) (swab_hdr g) = 0")
      case True
      show ?thesis
        by (rule good [of True "swab_hdr g" r]) (use True sw d in \<open>simp_all add: btf_parse_hdr_def, simp_all add: swab_hdr_def\<close>)
    next
      case False
      show ?thesis
      proof (cases "bpf_swab32 (h_hdr_len g) = 24")
        case True
        show ?thesis
          by (rule fail [of "hdr_checks (24 + length r) (swab_hdr g)" True "hdr_bytes (swab_hdr g) @ r"])
            (use True False sw d in \<open>simp_all add: btf_parse_hdr_def\<close>)
      next
        case len: False
        show ?thesis
          by (rule fail [of "- ENOTSUP" True data]) (use len sw d in \<open>simp_all add: btf_parse_hdr_def ENOTSUP_def\<close>)
      qed
    qed
  next
    case False
    show ?thesis
    proof (cases "h_magic g = BTF_MAGIC \<and> hdr_checks (24 + length r) g = 0")
      case True
      show ?thesis by (rule good [of False g r]) (use True False d in \<open>simp_all add: btf_parse_hdr_def\<close>)
    next
      case f2: False
      show ?thesis
        by (rule fail [of "if h_magic g = BTF_MAGIC then hdr_checks (24 + length r) g else - EINVAL" False data])
          (use False f2 d in \<open>simp_all add: btf_parse_hdr_def EINVAL_def\<close>)
    qed
  qed
next
  case False
  then show ?thesis using fail by (simp add: btf_parse_hdr_def EINVAL_def)
qed

lemma hdr_checks_ok:
  "hdr_checks n h = 0 \<longleftrightarrow> unat (h_hdr_len h) \<le> n \<and> unat (h_hdr_len h) + unat (h_str_off h) + unat (h_str_len h) \<le> n \<and>
     unat (h_type_off h) + unat (h_type_len h) \<le> unat (h_str_off h) \<and> h_type_off h mod 4 = 0"
  by (auto simp: hdr_checks_def EINVAL_def)


section \<open>Well formed BTF\<close>

definition types_in :: "btf_data \<Rightarrow> btf_type list \<Rightarrow> bool" where
  "types_in d ts \<longleftrightarrow> list_all type_ok ts \<and> length ts = nr_types d \<and> nr_types d \<le> length (type_offs d) \<and>
     indexes (take (nr_types d) (type_offs d)) 0 ts \<and> unat (h_type_len (hdr d)) \<le> length (types_data d) \<and>
     take (unat (h_type_len (hdr d))) (types_data d) = types_bytes ts"

definition strings_in :: "bool \<Rightarrow> btf_data \<Rightarrow> bool" where
  "strings_in has_base d \<longleftrightarrow> (let n = unat (h_str_len (hdr d)) in
     case btf_strs_data d of None \<Rightarrow> False
     | Some s \<Rightarrow> n \<le> length s \<and> (n = 0 \<and> has_base \<or> n \<noteq> 0 \<and> s ! (n - 1) = NUL \<and> (has_base \<or> s ! 0 = NUL)))"

definition btf_ok :: "btf \<Rightarrow> bool" where
  "btf_ok b \<longleftrightarrow> (\<exists>ts. types_in (own b) ts) \<and> strings_in (base_btf b \<noteq> None) (own b)"

lemma byte_char_0 [simp]: "byte_char 0 = NUL"
  by (simp add: byte_char_def char_of_def)

lemma parse_str_sec_total:
  "start + n \<le> length m \<Longrightarrow> \<exists>e. btf_parse_str_sec has_base m start n = Some e"
  by (auto simp: btf_parse_str_sec_def ld8_def)

lemma parse_str_sec_ok:
  assumes "btf_parse_str_sec has_base m start n = Some 0" "start + n \<le> length m"
  shows "n = 0 \<and> has_base \<or> n \<noteq> 0 \<and> m ! (start + n - 1) = 0 \<and> (has_base \<or> m ! start = 0)"
  using assms by (cases "n = 0") (auto simp: btf_parse_str_sec_def EINVAL_def bind_eq_Some_conv ld8_eq_Some split: if_splits)

lemma indexes_length: "indexes offs p ts \<Longrightarrow> length offs = length ts"
  by (induction offs p ts rule: indexes.induct) (auto split: list.splits)

text \<open>The result of loading in one equation, once header and sections are accepted.\<close>

definition loaded :: "btf option \<Rightarrow> bool \<Rightarrow> btf_header \<Rightarrow> mem \<Rightarrow> u32 list \<Rightarrow> nat \<Rightarrow> btf_data" where
  "loaded base sw h raw offs nr =
     \<lparr>raw_data = Some raw, raw_data_swapped = None, raw_size = length raw, swapped_endian = sw, modifiable = False, hdr = h,
      hdr_rest = drop 24 (take (unat (h_hdr_len h)) raw), types_data = drop (unat (h_hdr_len h) + unat (h_type_off h)) raw,
      type_offs = offs, nr_types = nr, start_id = (case base of None \<Rightarrow> 1 | Some b \<Rightarrow> btf__type_cnt b),
      start_str_off = (case base of None \<Rightarrow> 0 | Some b \<Rightarrow> unat (h_str_len (hdr (own b)))),
      strs_data = Some (map byte_char (drop (unat (h_hdr_len h) + unat (h_str_off h)) raw)),
      strs_set = None, strs_deduped = False, ptr_sz = 0\<rparr>"

lemma btf_new_cases:
  obtains (fail) e where "btf_new c ma ok data base = Some (Inl e)"
  | (good) sw h r ts offs m p q where "data = hdr_bytes (if sw then swab_hdr h else h) @ r" "hdr_checks (24 + length r) h = 0" "h_magic h = BTF_MAGIC"
      "sw \<longrightarrow> h_hdr_len h = 24" "list_all type_ok ts" "length ts \<le> length offs" "indexes (take (length ts) offs) 0 ts"
      "length (types_bytes ts) = unat (h_type_len h)"
      "m = hdr_bytes h @ r" "p = unat (h_hdr_len h) + unat (h_type_off h)" "q = p + unat (h_type_len h)" "m = take p m @ images sw ts @ drop q m"
      "btf_new c ma ok data base = Some (Inr (Btf base (loaded base sw h (take p m @ types_bytes ts @ drop q m) offs (length ts))))"
      "btf_parse_str_sec (base \<noteq> None) m (unat (h_hdr_len h) + unat (h_str_off h)) (unat (h_str_len h)) = Some 0"
proof (cases "c \<and> ma")
  case False
  then show ?thesis using fail [of "- ENOMEM"] by (auto simp: btf_new_def)
next
  case True
  show ?thesis
  proof (rule parse_hdr_cases [of data], goal_cases)
    case (1 err sw raw)
    then show ?case using fail True by (simp add: btf_new_def)
  next
    case (2 sw h r)
    define m where "m = hdr_bytes h @ r"
    define s where "s = unat (h_hdr_len h) + unat (h_str_off h)"
    define p where "p = unat (h_hdr_len h) + unat (h_type_off h)"
    define q where "q = p + unat (h_type_len h)"
    note d = m_def [symmetric] s_def [symmetric] p_def [symmetric] q_def [symmetric]
    have b: "q \<le> s" "s + unat (h_str_len h) \<le> length m" "p \<le> q" using 2(3) by (simp_all add: hdr_checks_ok m_def s_def p_def q_def)
    have hd: "ld_hdr m = Some h" by (simp add: m_def)
    obtain e where e: "btf_parse_str_sec (base \<noteq> None) m s (unat (h_str_len h)) = Some e" using parse_str_sec_total [OF b(2)] by blast
    obtain res where res: "parse_types ok sw p q m p [] 0 = Some res" using parse_types_total [of q m] b by fastforce
    show ?case
    proof (cases "e = 0 \<and> (\<exists>x. res = Inr x)")
      case False
      have "btf_new c ma ok data base = Some (Inl (if e \<noteq> 0 then e else projl res))"
        using False True 2(2) e res hd by (cases res) (auto simp: btf_new_def btf_parse_type_sec_def Let_def d)
      then show ?thesis by (rule fail)
    next
      case good': True
      then obtain m' offs nr where r: "res = Inr (m', offs, nr)" by auto
      obtain ts where ts: "list_all type_ok ts" "m = take p m @ images sw ts @ drop q m" "m' = take p m @ types_bytes ts @ drop q m"
          "nr = length ts" "nr \<le> length offs" "indexes (take (length ts) offs) 0 ts" "p + length (types_bytes ts) = q"
        using parse_types_sound [OF res [unfolded r]] b by auto
      have "btf_new c ma ok data base = Some (Inr (Btf base (loaded base sw h m' offs nr)))"
        using True 2(2) e res good' r hd by (simp add: btf_new_def btf_parse_type_sec_def Let_def loaded_def d)
      then have n: "btf_new c ma ok data base = Some (Inr (Btf base (loaded base sw h (take p m @ types_bytes ts @ drop q m) offs (length ts))))"
        using ts(3,4) by blast
      have "sw \<longrightarrow> h_hdr_len h = 24" "length (types_bytes ts) = unat (h_type_len h)" using 2(5) ts(7) q_def by simp_all
      then show ?thesis
        using good [OF 2(1,3,4) _ ts(1) ts(5) [unfolded ts(4)] ts(6) _ m_def p_def q_def ts(2) n] e good' by (simp add: d)
    qed
  qed
qed

lemma splice:
  fixes m :: mem
  assumes "p + length x \<le> s" "s \<le> length m" "m' = take p m @ x @ drop (p + length x) m"
  shows "length m' = length m" "drop s m' = drop s m" "take (length x) (drop p m') = x"
proof -
  have "drop (p + length x) m' = drop (p + length x) m" using assms by simp
  then show "drop s m' = drop s m" using assms(1) by (metis drop_drop le_add_diff_inverse2)
qed (use assms in simp_all)

lemma loaded_ok:
  fixes h r ts
  defines "m \<equiv> hdr_bytes h @ r"
  defines "hl \<equiv> unat (h_hdr_len h)" and "n \<equiv> unat (h_str_len h)"
  defines "p \<equiv> hl + unat (h_type_off h)" and "s \<equiv> hl + unat (h_str_off h)"
  defines "m' \<equiv> take p m @ types_bytes ts @ drop (p + unat (h_type_len h)) m"
  assumes c: "hdr_checks (24 + length r) h = 0" and ts: "list_all type_ok ts" "length ts \<le> length offs" "indexes (take (length ts) offs) 0 ts"
    and l: "length (types_bytes ts) = unat (h_type_len h)" and s0: "btf_parse_str_sec (base \<noteq> None) m s n = Some 0"
  shows "btf_ok (Btf base (loaded base sw h m' offs (length ts)))"
proof -
  have b: "p + length (types_bytes ts) \<le> s" "s + n \<le> length m"
    using c l unfolding m_def s_def p_def n_def hl_def by (simp_all add: hdr_checks_ok)
  have "s \<le> length m" using b(2) by simp
  note sp = splice [OF b(1) this m'_def [unfolded l [symmetric], THEN meta_eq_to_obj_eq]]
  have h: "hdr (loaded base sw h m' offs (length ts)) = h" "types_data (loaded base sw h m' offs (length ts)) = drop p m'"
    "btf_strs_data (loaded base sw h m' offs (length ts)) = Some (map byte_char (drop s m))"
    by (simp_all add: loaded_def btf_strs_data_def p_def s_def hl_def [symmetric] sp(2) [unfolded s_def])
  have "types_in (loaded base sw h m' offs (length ts)) ts"
    using ts sp(1,3) b unfolding types_in_def h l by (simp add: loaded_def)
  moreover have "strings_in (base \<noteq> None) (loaded base sw h m' offs (length ts))"
  proof -
    let ?x = "map byte_char (drop s m)"
    have x: "n \<noteq> 0 \<Longrightarrow> ?x ! (n - 1) = byte_char (m ! (s + n - 1))" "n \<noteq> 0 \<Longrightarrow> ?x ! 0 = byte_char (m ! s)" "n \<le> length ?x"
      using b by simp_all
    show ?thesis using parse_str_sec_ok [OF s0 b(2)] x unfolding strings_in_def Let_def h n_def by auto
  qed
  ultimately show ?thesis by (auto simp: btf_ok_def)
qed

text \<open>
  C22: For every content of a BTF section and every outcome of allocation, \<^verbatim>\<open>btf_new\<close> reads and writes only inside its copy of the data, and a BTF that it returns is well formed: the
  type section is exactly a sequence of complete types of known kinds, the index has their places, and the string section is inside the data and terminated.
\<close>

theorem btf_new_safe:
  "\<exists>res. btf_new calloc_ok malloc_ok realloc_ok data base = Some res \<and>
     (case res of Inl _ \<Rightarrow> True | Inr b \<Rightarrow> btf_ok b \<and> base_btf b = base)"
proof (rule btf_new_cases [of calloc_ok malloc_ok realloc_ok data base], goal_cases)
  case (2 sw h r ts offs m p q)
  then show ?case using loaded_ok [of r h ts offs base sw, OF 2(2,5-8)] by (simp only: sum.case) auto
qed simp


section \<open>Images in both byte orders\<close>

lemma char_byte_char [simp]: "char_byte (byte_char b) = b"
proof -
  have "(of_char (char_of (unat b) :: char) :: nat) = unat b" using unat_lt_8 [of b] by simp
  then show ?thesis by (simp add: char_byte_def byte_char_def)
qed

lemma char_byte_comp [simp]: "char_byte \<circ> byte_char = id"
  by (simp add: fun_eq_iff)

lemma type_backward:
  assumes p: "p = length a" and t: "type_ok t"
  shows "btf_bswap_type_rest (a @ type_bytes t @ r) p \<bind> (\<lambda>(err, m1). if err \<noteq> 0 then None else btf_bswap_type_base m1 p) =
    Some (a @ type_image True t @ r)"
    and "\<exists>m1. btf_bswap_type_rest (a @ type_bytes t @ r) p = Some (0, m1) \<and> btf_bswap_type_base m1 p = Some (a @ type_image True t @ r)"
proof -
  let ?r = "enc (map bpf_swab32 (tail t)) @ r"
  have 1: "btf_bswap_type_rest (a @ type_bytes t @ r) p = Some (0, a @ enc [name_off t, info t, size_type t] @ ?r)"
    using bswap_rest_mid [OF p _ refl, of t r] t by (simp add: type_ok_def type_bytes_def words_of_def)
  have 2: "btf_bswap_type_base (a @ enc [name_off t, info t, size_type t] @ ?r) p = Some (a @ type_image True t @ r)"
    unfolding bswap_base_mid [OF p] by (simp add: type_image_def words_of_def)
  show "btf_bswap_type_rest (a @ type_bytes t @ r) p \<bind> (\<lambda>(err, m1). if err \<noteq> 0 then None else btf_bswap_type_base m1 p) =
    Some (a @ type_image True t @ r)" by (simp add: 1 2 del: enc_simps)
  show "\<exists>m1. btf_bswap_type_rest (a @ type_bytes t @ r) p = Some (0, m1) \<and> btf_bswap_type_base m1 p = Some (a @ type_image True t @ r)"
    using 1 2 by blast
qed

lemma bswap_types_mid:
  "list_all type_ok ts \<Longrightarrow> indexes offs k ts \<Longrightarrow> k + length (types_bytes ts) < 2 ^ 32 \<Longrightarrow> p + k = length a \<Longrightarrow>
   bswap_types (a @ types_bytes ts @ r) p offs = Some (0, a @ images True ts @ r)"
proof (induction ts arbitrary: offs k a)
  case (Cons t ts)
  obtain os where os: "offs = word_of_nat k # os" "indexes os (k + length (type_bytes t)) ts"
    using Cons.prems(2) by (cases offs) auto
  have k: "unat (word_of_nat k :: u32) = k" using Cons.prems(3) by (simp add: unsigned_of_nat take_bit_nat_eq_self)
  obtain m1 where m1: "btf_bswap_type_rest (a @ type_bytes t @ types_bytes ts @ r) (p + k) = Some (0, m1)"
      "btf_bswap_type_base m1 (p + k) = Some (a @ type_image True t @ types_bytes ts @ r)"
    using type_backward(2) [OF Cons.prems(4)] Cons.prems(1) by fastforce
  have "bswap_types ((a @ type_image True t) @ types_bytes ts @ r) p os = Some (0, (a @ type_image True t) @ images True ts @ r)"
    using Cons.prems by (intro Cons.IH [OF _ os(2)]) simp_all
  then show ?case using m1 by (simp add: os(1) k)
qed simp

text \<open>The bytes of a BTF section without gaps, for given types and strings.\<close>

definition image_hdr :: "u8 \<Rightarrow> u8 \<Rightarrow> nat \<Rightarrow> nat \<Rightarrow> btf_header" where
  "image_hdr version flags type_len str_len =
     \<lparr>h_magic = BTF_MAGIC, h_version = version, h_flags = flags, h_hdr_len = 24, h_type_off = 0, h_type_len = word_of_nat type_len,
      h_str_off = word_of_nat type_len, h_str_len = word_of_nat str_len\<rparr>"

definition btf_image :: "bool \<Rightarrow> u8 \<Rightarrow> u8 \<Rightarrow> btf_type list \<Rightarrow> mem \<Rightarrow> mem" where
  "btf_image sw version flags ts strs =
     (let h = image_hdr version flags (length (types_bytes ts)) (length strs) in
      hdr_bytes (if sw then swab_hdr h else h) @ images sw ts @ strs)"

definition strs_valid :: "bool \<Rightarrow> mem \<Rightarrow> bool" where
  "strs_valid has_base strs \<longleftrightarrow> strs = [] \<and> has_base \<or> strs \<noteq> [] \<and> last strs = 0 \<and> (has_base \<or> hd strs = 0) \<and> length strs \<le> 2 ^ 31"

lemma swab_magic: "bpf_swab16 BTF_MAGIC \<noteq> BTF_MAGIC"
  by (simp add: bpf_swab16_def bpf_mvb16_def BTF_MAGIC_def)

lemma parse_image_hdr:
  assumes "tn + sn + 24 < 2 ^ 32" "length x = tn + sn" and h: "h = image_hdr v f tn sn"
  shows "btf_parse_hdr (hdr_bytes (if sw then swab_hdr h else h) @ x) = Some (0, sw, hdr_bytes h @ x)"
proof -
  have u: "unat (word_of_nat tn :: u32) = tn" "unat (word_of_nat sn :: u32) = sn"
    using assms(1) by (simp_all add: unsigned_of_nat take_bit_nat_eq_self)
  have c: "hdr_checks (24 + length x) h = 0" using assms by (simp add: hdr_checks_ok image_hdr_def u)
  have m: "h_magic (swab_hdr h) = bpf_swab16 BTF_MAGIC" "h_magic h = BTF_MAGIC" "h_hdr_len (swab_hdr h) = bpf_swab32 24"
    by (simp_all add: h image_hdr_def swab_hdr_def)
  show ?thesis using c m swab_magic by (cases sw) (simp_all add: btf_parse_hdr_def)
qed

lemma parse_str_sec_valid:
  assumes "strs_valid has_base strs"
  shows "btf_parse_str_sec has_base (a @ strs) (length a) (length strs) = Some 0"
proof (cases "strs = []")
  case False
  then have "0 < length strs" "\<not> length a + length strs - 1 < length a" by (cases strs; simp)+
  then have "ld8 (a @ strs) (length a + length strs - 1) = Some (last strs)" "ld8 (a @ strs) (length a) = Some (hd strs)"
    using False by (simp_all add: ld8_def nth_append last_conv_nth hd_conv_nth)
  then show ?thesis using assms False by (auto simp: btf_parse_str_sec_def strs_valid_def BTF_MAX_STR_OFFSET_def)
qed (use assms in \<open>simp add: btf_parse_str_sec_def strs_valid_def\<close>)

lemma btf_new_image:
  assumes ts: "list_all type_ok ts" and n: "24 + length (types_bytes ts) + length strs < 2 ^ 32" and s: "strs_valid (base \<noteq> None) strs"
    and ok: "\<forall>n. ok n"
  obtains offs where "indexes (take (length ts) offs) 0 ts" "length ts \<le> length offs"
    "btf_new True True ok (btf_image sw v f ts strs) base =
       Some (Inr (Btf base (loaded base sw (image_hdr v f (length (types_bytes ts)) (length strs)) (btf_image False v f ts strs) offs (length ts))))"
proof -
  define h where "h = image_hdr v f (length (types_bytes ts)) (length strs)"
  have u: "unat (h_hdr_len h) = 24" "unat (h_type_off h) = 0" "unat (h_type_len h) = length (types_bytes ts)"
     "unat (h_str_off h) = length (types_bytes ts)" "unat (h_str_len h) = length strs"
    using n by (simp_all add: h_def image_hdr_def unsigned_of_nat take_bit_nat_eq_self)
  have hp: "btf_parse_hdr (btf_image sw v f ts strs) = Some (0, sw, hdr_bytes h @ images sw ts @ strs)"
    using parse_image_hdr [OF _ _ h_def, of "images sw ts @ strs" sw] n by (simp add: btf_image_def h_def [symmetric] Let_def)
  have sp: "btf_parse_str_sec (base \<noteq> None) (hdr_bytes h @ images sw ts @ strs) (24 + length (types_bytes ts)) (length strs) = Some 0"
    using parse_str_sec_valid [OF s, of "hdr_bytes h @ images sw ts"] by simp
  have cnt: "length ts \<le> BTF_MAX_NR_TYPES"
  proof -
    have "12 * length ts \<le> length (types_bytes ts)" by (induction ts) simp_all
    then show ?thesis using n by (simp add: BTF_MAX_NR_TYPES_def)
  qed
  obtain offs where tp: "parse_types ok sw 24 (24 + length (types_bytes ts)) (hdr_bytes h @ images sw ts @ strs) 24 [] 0 =
      Some (Inr (hdr_bytes h @ types_bytes ts @ strs, offs, length ts))"
    using parse_types_complete [OF ts ok, where nr = 0 and p = 24 and a = "hdr_bytes h" and sw = sw and start = 24 and r = strs and offs = "[]"] cnt by auto
  obtain ts' where ts': "list_all type_ok ts'" "hdr_bytes h @ types_bytes ts @ strs = hdr_bytes h @ types_bytes ts' @ strs"
      "length ts = length ts'" "length ts \<le> length offs" "indexes (take (length ts') offs) 0 ts'"
    using parse_types_sound [OF tp] by auto
  have "ts' = ts" using types_bytes_inj [OF ts'(1) ts] ts'(2,3) by simp
  moreover have "btf_new True True ok (btf_image sw v f ts strs) base =
       Some (Inr (Btf base (loaded base sw h (btf_image False v f ts strs) offs (length ts))))"
    using hp sp tp by (simp add: btf_new_def Let_def u btf_parse_type_sec_def loaded_def) (simp add: btf_image_def h_def)
  ultimately show ?thesis using that ts'(4,5) by (simp add: h_def)
qed


text \<open>A BTF without gaps is written as its image, in either byte order.\<close>

lemma ldn_prefix: "n \<le> length m \<Longrightarrow> ldn m 0 n = Some (take n m)"
  by (simp add: ldn_def)

lemma stn_replicate: "p = length a \<Longrightarrow> length bs \<le> n \<Longrightarrow> stn (a @ replicate n 0) p bs = Some (a @ bs @ replicate (n - length bs) 0)"
  by (simp add: stn_def patch_def)

lemma get_raw_data_image:
  assumes h: "hdr d = image_hdr v f (length (types_bytes ts)) (length strs)" and n: "24 + length (types_bytes ts) + length strs < 2 ^ 32"
    and t: "types_in d ts" and s: "btf_strs_data d = Some s" "length strs \<le> length s" "take (length strs) (map char_byte s) = strs"
    and c: "(if sw then raw_data_swapped d else raw_data d) = None"
  shows "btf_get_raw_data True d sw = Some (Some (btf_image sw v f ts strs, 24 + length (types_bytes ts) + length strs))"
proof -
  define T S where "T = length (types_bytes ts)" and "S = length strs"
  let ?h = "hdr d"
  have u: "unat (h_hdr_len ?h) = 24" "unat (h_type_len ?h) = T" "unat (h_str_len ?h) = S"
    using n by (simp_all add: h image_hdr_def unsigned_of_nat take_bit_nat_eq_self T_def S_def)
  have sum: "unat (h_hdr_len ?h + h_type_len ?h + h_str_len ?h) = 24 + T + S"
    using n u by (simp add: T_def S_def word_add_lt)
  have 1: "ldn (hdr_bytes ?h @ hdr_rest d) 0 24 = Some (hdr_bytes ?h)" by (subst ldn_prefix) simp_all
  have 2: "stn (replicate (24 + T + S) 0) 0 (hdr_bytes ?h) = Some (hdr_bytes ?h @ replicate (T + S) 0)"
    using stn_replicate [of 0 "[]" "hdr_bytes ?h" "24 + T + S"] by simp
  define H where "H = hdr_bytes (if sw then swab_hdr ?h else ?h)"
  have 3: "(if sw then btf_bswap_hdr (hdr_bytes ?h @ replicate (T + S) 0) else Some (hdr_bytes ?h @ replicate (T + S) 0)) = Some (H @ replicate (T + S) 0)"
    by (simp add: H_def)
  have 4: "ldn (types_data d) 0 T = Some (types_bytes ts)" using t u by (simp add: types_in_def ldn_prefix)
  have lH: "length H = 24" by (simp add: H_def)
  have 5: "stn (H @ replicate (T + S) 0) 24 (types_bytes ts) = Some (H @ types_bytes ts @ replicate S 0)"
    using stn_replicate [of 24 H "types_bytes ts" "T + S"] lH by (simp add: T_def)
  have ix: "indexes (take (nr_types d) (type_offs d)) 0 ts" "list_all type_ok ts" using t by (simp_all add: types_in_def)
  have 6: "(if sw then bswap_types (H @ types_bytes ts @ replicate S 0) 24 (take (nr_types d) (type_offs d)) else Some (0, H @ types_bytes ts @ replicate S 0)) =
      Some (0, H @ images sw ts @ replicate S 0)"
    using bswap_types_mid [OF ix(2,1), of 24 H "replicate S 0"] n lH by (cases sw) simp_all
  have 7: "ldn (map char_byte s) 0 S = Some strs" using s by (simp add: ldn_prefix S_def)
  have 8: "stn (H @ images sw ts @ replicate S 0) (24 + T) strs = Some (H @ images sw ts @ strs)"
    using stn_replicate [of "24 + T" "H @ images sw ts" strs S] lH by (simp add: T_def S_def)
  have im: "H @ images sw ts @ strs = btf_image sw v f ts strs" by (simp add: btf_image_def Let_def H_def h)
  show ?thesis
    unfolding btf_get_raw_data_def c option.case Let_def u sum
    using 1 2 3 4 5 6 7 8 s(1) by (simp add: im T_def [symmetric] S_def [symmetric])
qed

text \<open>
  C23: A BTF section without gaps is loaded in either byte order: it gives the same types and strings, and it is written again, in either byte order, with exactly the bytes that a section of that
  order has. So changing the byte order twice is the identity.
\<close>

theorem btf_image_roundtrip:
  assumes "list_all type_ok ts" "24 + length (types_bytes ts) + length strs < 2 ^ 32" "strs_valid (base \<noteq> None) strs" "\<forall>n. realloc_ok n"
  shows "\<exists>b. btf_new True True realloc_ok (btf_image sw v f ts strs) base = Some (Inr b) \<and> types_in (own b) ts \<and>
    btf_strs_data (own b) = Some (map byte_char strs) \<and> swapped_endian (own b) = sw \<and>
    btf_get_raw_data True (own b) sw' = Some (Some (btf_image sw' v f ts strs, length (btf_image sw v f ts strs)))"
proof -
  let ?h = "image_hdr v f (length (types_bytes ts)) (length strs)"
  obtain offs where o: "indexes (take (length ts) offs) 0 ts" "length ts \<le> length offs" and
    b: "btf_new True True realloc_ok (btf_image sw v f ts strs) base = Some (Inr (Btf base (loaded base sw ?h (btf_image False v f ts strs) offs (length ts))))"
    by (rule btf_new_image [OF assms])
  define d where "d = loaded base sw ?h (btf_image False v f ts strs) offs (length ts)"
  have u: "unat (h_hdr_len ?h) = 24" "unat (h_type_off ?h) = 0" "unat (h_type_len ?h) = length (types_bytes ts)" "unat (h_str_off ?h) = length (types_bytes ts)"
    using assms(2) by (simp_all add: image_hdr_def unsigned_of_nat take_bit_nat_eq_self)
  have im: "btf_image False v f ts strs = hdr_bytes ?h @ types_bytes ts @ strs" by (simp add: btf_image_def Let_def)
  have s: "btf_strs_data d = Some (map byte_char strs)" by (simp add: d_def loaded_def btf_strs_data_def u im)
  have t: "types_in d ts" using assms(1) o by (simp add: d_def loaded_def types_in_def u im)
  have len: "length (btf_image x v f ts strs) = 24 + length (types_bytes ts) + length strs" for x by (simp add: btf_image_def Let_def)
  have "btf_get_raw_data True d sw' = Some (Some (btf_image sw' v f ts strs, length (btf_image sw v f ts strs)))"
  proof (cases sw')
    case True
    show ?thesis unfolding len by (rule get_raw_data_image [OF _ assms(2) t s]) (simp_all add: d_def loaded_def True)
  next
    case False
    then show ?thesis by (simp add: btf_get_raw_data_def d_def loaded_def len)
  qed
  then show ?thesis using b s t unfolding d_def by (intro exI conjI) (assumption | simp add: loaded_def)+
qed


definition int_example :: btf_type where
  "int_example = \<lparr>name_off = 1, info = 0x01000000, size_type = 4, tail = [0x20]\<rparr>"

lemma int_example_ok: "type_ok int_example"
  by code_simp

theorem btf_image_roundtrip_witness:
  "\<exists>b. btf_new True True (\<lambda>n. True) (btf_image True 1 0 [int_example] [0, 105, 110, 116, 0]) None = Some (Inr b) \<and> types_in (own b) [int_example] \<and>
    btf_strs_data (own b) = Some (map byte_char [0, 105, 110, 116, 0]) \<and> swapped_endian (own b) = True \<and>
    btf_get_raw_data True (own b) False =
      Some (Some (btf_image False 1 0 [int_example] [0, 105, 110, 116, 0], length (btf_image True 1 0 [int_example] [0, 105, 110, 116, 0])))"
  by (rule btf_image_roundtrip) (simp_all add: int_example_ok strs_valid_def, simp add: int_example_def)

end
