(* ===== verification/Btf.thy ===== *)
theory Btf
  imports Btf_Parse
begin

text \<open>
  Questions to loaded BTF: types by number, strings by offset, sizes, resolving modifiers, and search by name, of \<^verbatim>\<open>lib/libbpf/src/btf.c\<close>, with
  \<^verbatim>\<open>skip_mods_and_typedefs\<close> of \<^verbatim>\<open>libbpf.c\<close>.

  A pointer into the type section is the value of the type there. \<open>None\<close> is an access outside memory, a null pointer that is followed, or a loop that does not end;
  a null pointer that is returned is \<open>Null\<close>. Type numbers are natural numbers.
\<close>

section \<open>Types and strings\<close>

datatype 'a nullable = Null | Ref 'a

definition btf_void :: btf_type where
  "btf_void = \<lparr>name_off = 0, info = 0, size_type = 0, tail = []\<rparr>"

fun ld_words :: "mem \<Rightarrow> nat \<Rightarrow> nat \<Rightarrow> u32 list option" where
  "ld_words m p 0 = Some []"
| "ld_words m p (Suc n) = do { w \<leftarrow> ld32 m p; ws \<leftarrow> ld_words m (p + 4) n; Some (w # ws) }"

definition ld_type :: "mem \<Rightarrow> nat \<Rightarrow> btf_type option" where
  "ld_type m p = do {
     t \<leftarrow> ld_base m p;
     ws \<leftarrow> ld_words m (p + 12) (nat (btf_type_size t - 12) div 4);
     Some (t\<lparr>tail := ws\<rparr>) }"

definition type_at :: "btf_data \<Rightarrow> nat \<Rightarrow> btf_type option" where
  "type_at d i = (if i < length (type_offs d) then ld_type (types_data d) (unat (type_offs d ! i)) else None)"

fun btf_type_by_id :: "btf \<Rightarrow> nat \<Rightarrow> btf_type option" where
  "btf_type_by_id (Btf base d) type_id =
     (if type_id = 0 then Some btf_void
      else if type_id < start_id d then (case base of None \<Rightarrow> None | Some b \<Rightarrow> btf_type_by_id b type_id)
      else type_at d (type_id - start_id d))"

definition btf__type_by_id :: "btf \<Rightarrow> nat \<Rightarrow> btf_type nullable option" where
  "btf__type_by_id btf type_id =
     (if type_id \<ge> btf__type_cnt btf then Some Null else map_option Ref (btf_type_by_id btf type_id))"

definition c_str :: "string \<Rightarrow> nat \<Rightarrow> string option" where
  "c_str s off = (if NUL \<in> set (drop off s) then Some (takeWhile (\<lambda>c. c \<noteq> NUL) (drop off s)) else None)"

fun btf__str_by_offset :: "btf \<Rightarrow> nat \<Rightarrow> string nullable option" where
  "btf__str_by_offset (Btf base d) off =
     (if off < start_str_off d then (case base of None \<Rightarrow> None | Some b \<Rightarrow> btf__str_by_offset b off)
      else if off - start_str_off d < unat (h_str_len (hdr d)) then
        do { s \<leftarrow> btf_strs_data d; n \<leftarrow> c_str s (off - start_str_off d); Some (Ref n) }
      else Some Null)"

definition btf__name_by_offset :: "btf \<Rightarrow> u32 \<Rightarrow> string nullable option" where
  "btf__name_by_offset btf off = btf__str_by_offset btf (unat off)"

section \<open>Pointer size\<close>

definition long_aliases :: "string list" where
  "long_aliases = [''long'', ''long int'', ''int long'', ''unsigned long'', ''long unsigned'', ''unsigned long int'', ''unsigned int long'',
     ''long unsigned int'', ''long int unsigned'', ''int unsigned long'', ''int long unsigned'']"

text \<open>The loop over the types from \<open>i\<close> on; the last argument is how many are left.\<close>

fun find_long :: "btf \<Rightarrow> nat \<Rightarrow> nat \<Rightarrow> int option" where
  "find_long btf i 0 = Some (-1)"
| "find_long btf i (Suc n) = do {
     r \<leftarrow> btf__type_by_id btf i;
     case r of Null \<Rightarrow> None
     | Ref t \<Rightarrow>
         if \<not> btf_is_int t then find_long btf (i + 1) n
         else if size_type t \<noteq> 4 \<and> size_type t \<noteq> 8 then find_long btf (i + 1) n
         else do {
           nm \<leftarrow> btf__name_by_offset btf (name_off t);
           case nm of Null \<Rightarrow> find_long btf (i + 1) n
           | Ref name \<Rightarrow> if name \<in> set long_aliases then Some (uint (size_type t)) else find_long btf (i + 1) n } }"

definition determine_ptr_size :: "btf \<Rightarrow> int option" where
  "determine_ptr_size btf =
     (case base_btf btf of
        Some b \<Rightarrow> if ptr_sz (own b) > 0 then Some (ptr_sz (own b)) else find_long btf 1 (btf__type_cnt btf - 1)
      | None \<Rightarrow> find_long btf 1 (btf__type_cnt btf - 1))"

text \<open>The size and the BTF in which it is remembered.\<close>

definition known_ptr_sz :: "btf \<Rightarrow> (int \<times> btf) option" where
  "known_ptr_sz btf =
     (if ptr_sz (own btf) \<noteq> 0 then Some (ptr_sz (own btf), btf)
      else do { n \<leftarrow> determine_ptr_size btf; Some (n, Btf (base_btf btf) ((own btf)\<lparr>ptr_sz := n\<rparr>)) })"

definition btf_ptr_sz :: "btf \<Rightarrow> (nat \<times> btf) option" where
  "btf_ptr_sz btf = do { (n, btf1) \<leftarrow> known_ptr_sz btf; Some (if n < 0 then 8 else nat n, btf1) }"

definition btf__pointer_size :: "btf \<Rightarrow> (nat \<times> btf) option" where
  "btf__pointer_size btf = do { (n, btf1) \<leftarrow> known_ptr_sz btf; Some (if n < 0 then 0 else nat n, btf1) }"

definition btf__set_pointer_size :: "btf_data \<Rightarrow> nat \<Rightarrow> int \<times> btf_data" where
  "btf__set_pointer_size d sz0 = (if sz0 \<noteq> 4 \<and> sz0 \<noteq> 8 then (- EINVAL, d) else (0, d\<lparr>ptr_sz := int sz0\<rparr>))"

section \<open>Sizes and references\<close>

definition E2BIG :: int where "E2BIG = 7"

definition btf_type_is_void :: "btf_type \<Rightarrow> bool" where
  "btf_type_is_void t \<longleftrightarrow> t = btf_void \<or> btf_is_fwd t"

definition MAX_RESOLVE_DEPTH :: nat where "MAX_RESOLVE_DEPTH = 32"

definition size_done :: "u32 \<Rightarrow> int \<Rightarrow> int" where
  "size_done nelems size1 =
     (if size1 < 0 then - EINVAL
      else if nelems \<noteq> 0 \<and> size1 > uint ((- 1 :: u32) div nelems) then - E2BIG
      else uint nelems * size1)"

text \<open>The loop of \<^verbatim>\<open>btf__resolve_size\<close>; the first argument is how many turns are left.\<close>

fun resolve_size_loop :: "nat \<Rightarrow> btf \<Rightarrow> btf_type nullable \<Rightarrow> u32 \<Rightarrow> int option" where
  "resolve_size_loop 0 btf r nelems = Some (size_done nelems (-1))"
| "resolve_size_loop (Suc n) btf r nelems =
     (case r of Null \<Rightarrow> Some (size_done nelems (-1))
      | Ref t \<Rightarrow>
          if btf_type_is_void t then Some (size_done nelems (-1))
          else let kind = btf_kind t in
          if kind \<in> {BTF_KIND_INT, BTF_KIND_STRUCT, BTF_KIND_UNION, BTF_KIND_ENUM, BTF_KIND_ENUM64, BTF_KIND_DATASEC, BTF_KIND_FLOAT}
          then Some (size_done nelems (uint (size_type t)))
          else if kind = BTF_KIND_PTR then do { (sz0, _) \<leftarrow> btf_ptr_sz btf; Some (size_done nelems (int sz0)) }
          else if kind \<in> {BTF_KIND_TYPEDEF, BTF_KIND_VOLATILE, BTF_KIND_CONST, BTF_KIND_RESTRICT, BTF_KIND_VAR, BTF_KIND_DECL_TAG, BTF_KIND_TYPE_TAG}
          then do { r1 \<leftarrow> btf__type_by_id btf (unat (size_type t)); resolve_size_loop n btf r1 nelems }
          else if kind = BTF_KIND_ARRAY then do {
            a \<leftarrow> btf_array t;
            if nelems \<noteq> 0 \<and> a_nelems a > (- 1) div nelems then Some (- E2BIG)
            else do { r1 \<leftarrow> btf__type_by_id btf (unat (a_type a)); resolve_size_loop n btf r1 (nelems * a_nelems a) } }
          else Some (- EINVAL))"

definition btf__resolve_size :: "btf \<Rightarrow> nat \<Rightarrow> int option" where
  "btf__resolve_size btf type_id = do { r \<leftarrow> btf__type_by_id btf type_id; resolve_size_loop MAX_RESOLVE_DEPTH btf r 1 }"

fun resolve_type_loop :: "nat \<Rightarrow> btf \<Rightarrow> nat \<Rightarrow> btf_type nullable \<Rightarrow> int option" where
  "resolve_type_loop n btf type_id r =
     (case r of Null \<Rightarrow> Some (- EINVAL)
      | Ref t \<Rightarrow>
          if btf_type_is_void t then Some (- EINVAL)
          else case n of 0 \<Rightarrow> Some (- EINVAL)
          | Suc n1 \<Rightarrow>
              if btf_is_mod t \<or> btf_is_typedef t \<or> btf_is_var t then do {
                r1 \<leftarrow> btf__type_by_id btf (unat (size_type t)); resolve_type_loop n1 btf (unat (size_type t)) r1 }
              else Some (int type_id))"

declare resolve_type_loop.simps [simp del]

definition btf__resolve_type :: "btf \<Rightarrow> nat \<Rightarrow> int option" where
  "btf__resolve_type btf type_id = do { r \<leftarrow> btf__type_by_id btf type_id; resolve_type_loop MAX_RESOLVE_DEPTH btf type_id r }"

text \<open>
  \<^verbatim>\<open>skip_mods_and_typedefs\<close> returns the type and its number. It reads the kind of what it finds before it could return a null pointer, so the
  checks of its callers for a null pointer never apply.
\<close>

partial_function (option) skip_mods_and_typedefs :: "btf \<Rightarrow> nat \<Rightarrow> (btf_type \<times> nat) option" where
  "skip_mods_and_typedefs btf type_id = do {
     r \<leftarrow> btf__type_by_id btf type_id;
     case r of Null \<Rightarrow> None
     | Ref t \<Rightarrow> if btf_is_mod t \<or> btf_is_typedef t then skip_mods_and_typedefs btf (unat (size_type t)) else Some (t, type_id) }"

section \<open>Search\<close>

fun find_name_loop :: "(btf_type \<Rightarrow> bool) \<Rightarrow> btf \<Rightarrow> string \<Rightarrow> nat \<Rightarrow> nat \<Rightarrow> int option" where
  "find_name_loop sel btf nm i 0 = Some (- ENOENT)"
| "find_name_loop sel btf nm i (Suc n) = do {
     r \<leftarrow> btf__type_by_id btf i;
     case r of Null \<Rightarrow> None
     | Ref t \<Rightarrow>
         if \<not> sel t then find_name_loop sel btf nm (i + 1) n
         else do {
           s \<leftarrow> btf__name_by_offset btf (name_off t);
           if s = Ref nm then Some (int i) else find_name_loop sel btf nm (i + 1) n } }"

definition btf__find_by_name :: "btf \<Rightarrow> string \<Rightarrow> int option" where
  "btf__find_by_name btf nm = (if nm = ''void'' then Some 0 else find_name_loop (\<lambda>t. True) btf nm 1 (btf__type_cnt btf - 1))"

definition btf_find_by_name_kind :: "btf \<Rightarrow> nat \<Rightarrow> string \<Rightarrow> nat \<Rightarrow> int option" where
  "btf_find_by_name_kind btf start nm kind =
     (if kind = BTF_KIND_UNKN \<or> nm = ''void'' then Some 0
      else find_name_loop (\<lambda>t. btf_kind t = kind) btf nm start (btf__type_cnt btf - start))"

definition btf__find_by_name_kind_own :: "btf \<Rightarrow> string \<Rightarrow> nat \<Rightarrow> int option" where
  "btf__find_by_name_kind_own btf nm kind = btf_find_by_name_kind btf (start_id (own btf)) nm kind"

definition btf__find_by_name_kind :: "btf \<Rightarrow> string \<Rightarrow> nat \<Rightarrow> int option" where
  "btf__find_by_name_kind btf nm kind = btf_find_by_name_kind btf 1 nm kind"

section \<open>Well formed chains of BTF\<close>

fun btf_wf :: "btf \<Rightarrow> bool" where
  "btf_wf (Btf base d) \<longleftrightarrow> (\<exists>ts. types_in d ts) \<and> strings_in (base \<noteq> None) d \<and>
     (case base of None \<Rightarrow> start_id d = 1 \<and> start_str_off d = 0
      | Some b \<Rightarrow> btf_wf b \<and> start_id d = btf__type_cnt b \<and> start_str_off d = unat (h_str_len (hdr (own b))))"

lemma btf_new_wf:
  assumes n: "btf_new c ma ok data base = Some (Inr b)" and base: "\<And>b0. base = Some b0 \<Longrightarrow> btf_wf b0"
  shows "btf_wf b"
proof -
  have ok: "btf_ok b" "base_btf b = base" using btf_new_safe [of c ma ok data base] n by auto
  have "\<exists>sw h m offs k. b = Btf base (loaded base sw h m offs k)"
  proof (rule btf_new_cases [of c ma ok data base], goal_cases)
    case (2 sw h r ts offs m p q)
    show ?case using trans [OF n [symmetric] 2(13)] by blast
  qed (use n in simp)
  then have "start_id (own b) = (case base of None \<Rightarrow> 1 | Some b0 \<Rightarrow> btf__type_cnt b0)"
    "start_str_off (own b) = (case base of None \<Rightarrow> 0 | Some b0 \<Rightarrow> unat (h_str_len (hdr (own b0))))"
    by (auto simp: loaded_def)
  then show ?thesis using ok base by (cases b) (auto simp: btf_ok_def split: option.split)
qed

lemma ld_words_enc: "p = length a \<Longrightarrow> n = length ws \<Longrightarrow> ld_words (a @ enc ws @ r) p n = Some ws"
proof (induction ws arbitrary: a p n)
  case (Cons w ws)
  have "ld_words ((a @ le32_bytes w) @ enc ws @ r) (p + 4) (length ws) = Some ws"
    using Cons.prems by (intro Cons.IH) simp_all
  then show ?case using Cons.prems by simp
qed simp

lemma ld_type_mid:
  assumes p: "p = length a" and t: "type_ok t"
  shows "ld_type (a @ type_bytes t @ r) p = Some t"
proof -
  have "ld_words ((a @ enc [name_off t, info t, size_type t]) @ enc (tail t) @ r) (p + 12) (length (tail t)) = Some (tail t)"
    using p by (intro ld_words_enc) simp_all
  moreover have "nat (btf_type_size t - 12) div 4 = length (tail t)" using t by (simp add: type_ok_def)
  ultimately show ?thesis
    using ld_base_mid [OF p, of t r] by (simp add: ld_type_def type_bytes_def words_of_def)
qed

lemma indexes_nth:
  "indexes offs k ts \<Longrightarrow> i < length ts \<Longrightarrow> offs ! i = word_of_nat (k + length (types_bytes (take i ts)))"
proof (induction ts arbitrary: offs k i)
  case (Cons t ts)
  then obtain os where os: "offs = word_of_nat k # os" "indexes os (k + length (type_bytes t)) ts" by (cases offs) auto
  show ?case
  proof (cases i)
    case (Suc j)
    then show ?thesis using Cons.IH [OF os(2), of j] Cons.prems(2) os(1) by (simp add: add.assoc)
  qed (simp add: os(1))
qed simp

lemma type_at_in:
  assumes t: "types_in d ts" and i: "i < nr_types d"
  shows "type_at d i = Some (ts ! i)"
proof -
  let ?a = "types_bytes (take i ts)"
  have n: "length ts = nr_types d" "nr_types d \<le> length (type_offs d)" "list_all type_ok ts" using t by (simp_all add: types_in_def)
  have ts: "ts = take i ts @ ts ! i # drop (Suc i) ts" using i n by (simp add: id_take_nth_drop)
  have tb: "types_bytes ts = ?a @ type_bytes (ts ! i) @ types_bytes (drop (Suc i) ts)"
    using arg_cong [OF ts, of types_bytes] by simp
  define L where "L = unat (h_type_len (hdr d))"
  have k: "L \<le> length (types_data d)" "take L (types_data d) = types_bytes ts" using t by (simp_all add: types_in_def L_def)
  have tl: "length (types_bytes ts) = L" using arg_cong [OF k(2), of length] k(1) by simp
  have "length ?a < 2 ^ 32" using tl unsigned_less [where ?'a = nat, of "h_type_len (hdr d)"] by (simp add: tb L_def)
  moreover have "type_offs d ! i = word_of_nat (length ?a)"
    using indexes_nth [of "take (nr_types d) (type_offs d)" 0 ts i] t i n by (simp add: types_in_def)
  ultimately have o: "unat (type_offs d ! i) = length ?a" by (simp add: unsigned_of_nat take_bit_nat_eq_self)
  obtain R where R: "types_data d = ?a @ type_bytes (ts ! i) @ R"
    using append_take_drop_id [of L "types_data d", symmetric] unfolding k(2) tb append.assoc by blast
  have "type_ok (ts ! i)" using n i by (simp add: list_all_length)
  then have "ld_type (types_data d) (length ?a) = Some (ts ! i)" unfolding R by (rule ld_type_mid [OF refl])
  then show ?thesis using i n(2) o by (simp add: type_at_def)
qed

text \<open>Every number below the count is a complete type, and every string offset is a string or refused.\<close>

lemma wf_type:
  "btf_wf b \<Longrightarrow> type_id < btf__type_cnt b \<Longrightarrow>
     \<exists>t. btf_type_by_id b type_id = Some t \<and> (if type_id = 0 then t = btf_void else type_ok t)"
proof (induction b type_id rule: btf_type_by_id.induct)
  case (1 base d type_id)
  then obtain ts where ts: "types_in d ts" by auto
  consider "type_id = 0" | "type_id \<noteq> 0" "type_id < start_id d" | "start_id d \<le> type_id" by linarith
  then show ?case
  proof cases
    case 2
    then obtain b0 where "base = Some b0" using 1(2) by (cases base) auto
    then show ?thesis using 1 2 by simp
  next
    case 3
    then have i: "type_id - start_id d < nr_types d" using 1(3) by (auto simp: btf__type_cnt_def)
    have "type_id \<noteq> 0" if "base = None" using 3 1(2) that by simp
    moreover have "type_ok (ts ! (type_id - start_id d))" using ts i by (simp add: types_in_def list_all_length)
    ultimately show ?thesis using type_at_in [OF ts i] 3 1(2) by (cases "type_id = 0") auto
  qed simp
qed

lemma wf_type_by_id: "btf_wf b \<Longrightarrow> \<exists>r. btf__type_by_id b type_id = Some r"
  using wf_type [of b type_id] by (auto simp: btf__type_by_id_def not_le)

lemma type_by_id_Ref:
  assumes "btf_wf b" "btf__type_by_id b type_id = Some (Ref t)"
  shows "type_id < btf__type_cnt b" "btf_type_by_id b type_id = Some t" "t = btf_void \<or> type_ok t"
  using assms wf_type [of b type_id] by (auto simp: btf__type_by_id_def split: if_splits)

lemma wf_string: "btf_wf b \<Longrightarrow> \<exists>r. btf__str_by_offset b off = Some r"
proof (induction b off rule: btf__str_by_offset.induct)
  case (1 base d off)
  show ?case
  proof (cases "off < start_str_off d")
    case True
    then obtain b0 where "base = Some b0" using 1(2) by (cases base) auto
    then show ?thesis using 1 True by simp
  next
    case False
    let ?n = "unat (h_str_len (hdr d))" and ?o = "off - start_str_off d"
    obtain s where s: "btf_strs_data d = Some s" "?n \<le> length s" "?n \<noteq> 0 \<longrightarrow> s ! (?n - 1) = NUL"
      using 1(2) by (auto simp: strings_in_def Let_def split: option.splits)
    have "NUL \<in> set (drop ?o s)" if "?o < ?n"
    proof -
      have "drop ?o s ! (?n - 1 - ?o) = NUL" "?n - 1 - ?o < length (drop ?o s)" using that s by simp_all
      then show ?thesis by (metis nth_mem)
    qed
    then show ?thesis using False s(1) by (simp add: c_str_def)
  qed
qed


section \<open>Sizes\<close>

lemma type_ok_tail:
  assumes "type_ok t"
  shows "btf_kind t = BTF_KIND_INT \<Longrightarrow> length (tail t) = 1" "btf_kind t = BTF_KIND_ARRAY \<Longrightarrow> length (tail t) = 3"
    "btf_is_composite t \<Longrightarrow> length (tail t) = 3 * btf_vlen t" "btf_is_enum t \<Longrightarrow> length (tail t) = 2 * btf_vlen t"
    "btf_is_enum64 t \<Longrightarrow> length (tail t) = 3 * btf_vlen t" "btf_is_func_proto t \<Longrightarrow> length (tail t) = 2 * btf_vlen t"
  using assms by (auto simp: type_ok_def btf_type_size_def btf_is_defs Let_def)

lemma type_ok_array: "type_ok t \<Longrightarrow> btf_kind t = BTF_KIND_ARRAY \<Longrightarrow> \<exists>a. btf_array t = Some a"
  using type_ok_tail(2) [of t] by (simp add: btf_array_def word_at_def)

lemma find_long_total: "btf_wf b \<Longrightarrow> i + n \<le> btf__type_cnt b \<Longrightarrow> \<exists>v. find_long b i n = Some v"
proof (induction n arbitrary: i)
  case (Suc n)
  obtain t where t: "btf__type_by_id b i = Some (Ref t)"
    using wf_type [OF Suc.prems(1), of i] Suc.prems(2) by (auto simp: btf__type_by_id_def)
  obtain nm where "btf__name_by_offset b (name_off t) = Some nm" using wf_string [OF Suc.prems(1)] by (auto simp: btf__name_by_offset_def)
  then show ?case using t Suc.IH [of "i + 1"] Suc.prems by (auto split: nullable.split)
qed simp

lemma wf_cnt: "btf_wf b \<Longrightarrow> 1 \<le> btf__type_cnt b"
proof (induction b rule: btf_wf.induct)
  case (1 base d)
  then show ?case by (cases base) (auto simp: btf__type_cnt_def)
qed

lemma ptr_sz_total: "btf_wf b \<Longrightarrow> \<exists>n b'. btf_ptr_sz b = Some (n, b')"
  using find_long_total [of b 1 "btf__type_cnt b - 1"] wf_cnt [of b]
  by (fastforce simp: btf_ptr_sz_def known_ptr_sz_def determine_ptr_size_def split: option.split)

text \<open>What the size of a type is: \<open>sized b id n k\<close> says that it is \<open>n\<close> and that \<open>k\<close> references lead to where it is stated.\<close>

definition kinds_with_size :: "nat set" where
  "kinds_with_size = {BTF_KIND_INT, BTF_KIND_STRUCT, BTF_KIND_UNION, BTF_KIND_ENUM, BTF_KIND_ENUM64, BTF_KIND_DATASEC, BTF_KIND_FLOAT}"

definition kinds_with_ref :: "nat set" where
  "kinds_with_ref = {BTF_KIND_TYPEDEF, BTF_KIND_VOLATILE, BTF_KIND_CONST, BTF_KIND_RESTRICT, BTF_KIND_VAR, BTF_KIND_DECL_TAG, BTF_KIND_TYPE_TAG}"

inductive sized :: "btf \<Rightarrow> nat \<Rightarrow> nat \<Rightarrow> nat \<Rightarrow> bool" for b where
  direct: "btf__type_by_id b i = Some (Ref t) \<Longrightarrow> btf_kind t \<in> kinds_with_size \<Longrightarrow> sized b i (unat (size_type t)) 0"
| pointer: "btf__type_by_id b i = Some (Ref t) \<Longrightarrow> btf_kind t = BTF_KIND_PTR \<Longrightarrow> btf_ptr_sz b = Some (n, b') \<Longrightarrow> sized b i n 0"
| refer: "btf__type_by_id b i = Some (Ref t) \<Longrightarrow> btf_kind t \<in> kinds_with_ref \<Longrightarrow> sized b (unat (size_type t)) n k \<Longrightarrow> sized b i n (Suc k)"
| array: "btf__type_by_id b i = Some (Ref t) \<Longrightarrow> btf_kind t = BTF_KIND_ARRAY \<Longrightarrow> btf_array t = Some a \<Longrightarrow>
     sized b (unat (a_type a)) n k \<Longrightarrow> sized b i (unat (a_nelems a) * n) (Suc k)"

lemma div_guard:
  fixes x :: u32
  assumes "x \<noteq> 0"
  shows "unat ((- 1 :: u32) div x) < y \<longleftrightarrow> 2 ^ 32 \<le> unat x * y"
proof -
  have p: "0 < unat x" using assms by (rule unat_pos)
  have "unat (- 1 :: u32) = 2 ^ 32 - 1" by (simp add: unsigned_minus_1_eq_mask mask_eq_exp_minus_1)
  then have "unat ((- 1 :: u32) div x) < y \<longleftrightarrow> (2 ^ 32 - 1) div unat x < y" by (simp only: unat_div)
  also have "\<dots> \<longleftrightarrow> 2 ^ 32 - 1 < unat x * y"
    using p by (simp add: div_less_iff_less_mult mult.commute)
  also have "\<dots> \<longleftrightarrow> 2 ^ 32 \<le> unat x * y" by auto
  finally show ?thesis .
qed

lemma mult_guard: "x \<noteq> 0 \<Longrightarrow> y > (- 1) div x \<longleftrightarrow> 2 ^ 32 \<le> unat x * unat y" for x y :: u32
  unfolding word_less_nat_alt by (rule div_guard)

lemma mult_no_wrap:
  fixes x y :: u32
  assumes "\<not> (x \<noteq> 0 \<and> y > (- 1) div x)"
  shows "unat (x * y) = unat x * unat y"
proof (cases "x = 0")
  case False
  then have "unat x * unat y < 2 ^ 32" using assms mult_guard [of x y] by (simp add: not_le)
  then show ?thesis by (simp add: unat_word_ariths)
qed simp

lemma size_done_exact: "size_done ne (int s) = (if 2 ^ 32 \<le> unat ne * s then - E2BIG else int (unat ne * s))"
proof -
  have "ne \<noteq> 0 \<and> int s > uint ((- 1 :: u32) div ne) \<longleftrightarrow> 2 ^ 32 \<le> unat ne * s"
  proof (cases "ne = 0")
    case False
    then show ?thesis using div_guard [OF False, of s] by (simp only: uint_nat of_nat_less_iff) simp
  qed simp
  moreover have "uint ne * int s = int (unat ne * s)" by (simp only: uint_nat of_nat_mult)
  ultimately show ?thesis by (auto simp: size_done_def)
qed

lemma not_void: "btf_kind t \<in> kinds_with_size \<union> kinds_with_ref \<union> {BTF_KIND_PTR, BTF_KIND_ARRAY} \<Longrightarrow> \<not> btf_type_is_void t"
  by (auto simp: btf_type_is_void_def btf_void_def btf_kind_def BTF_INFO_KIND_def btf_is_fwd_def kinds_with_size_def kinds_with_ref_def)


lemma resolve_loop_step:
  assumes "btf_kind t \<in> kinds_with_size \<union> kinds_with_ref \<union> {BTF_KIND_PTR, BTF_KIND_ARRAY}"
  shows "resolve_size_loop (Suc n) b (Ref t) ne =
    (if btf_kind t \<in> kinds_with_size then Some (size_done ne (int (unat (size_type t))))
     else if btf_kind t = BTF_KIND_PTR then do { (sz0, _) \<leftarrow> btf_ptr_sz b; Some (size_done ne (int sz0)) }
     else if btf_kind t \<in> kinds_with_ref then do { r1 \<leftarrow> btf__type_by_id b (unat (size_type t)); resolve_size_loop n b r1 ne }
     else do { a \<leftarrow> btf_array t;
       if ne \<noteq> 0 \<and> a_nelems a > (- 1) div ne then Some (- E2BIG)
       else do { r1 \<leftarrow> btf__type_by_id b (unat (a_type a)); resolve_size_loop n b r1 (ne * a_nelems a) } })"
  using assms not_void [OF assms]
  by (simp only: resolve_size_loop.simps nullable.case Let_def kinds_with_size_def kinds_with_ref_def uint_nat if_False) auto

lemma resolve_loop_other:
  assumes "btf_kind t \<notin> kinds_with_size \<union> kinds_with_ref \<union> {BTF_KIND_PTR, BTF_KIND_ARRAY}"
  shows "resolve_size_loop (Suc n) b (Ref t) ne = Some (- EINVAL)"
  using assms by (simp add: kinds_with_size_def kinds_with_ref_def size_done_def Let_def)

lemma resolve_loop_complete:
  "sized b i s k \<Longrightarrow> k < n \<Longrightarrow> \<exists>r v. btf__type_by_id b i = Some r \<and> resolve_size_loop n b r ne = Some v \<and>
     (v = int (unat ne * s) \<and> unat ne * s < 2 ^ 32 \<or> v = - E2BIG \<and> (2 ^ 32 \<le> unat ne * s \<or> unat ne * s = 0))"
proof (induction arbitrary: n ne rule: sized.induct)
  case (direct i t)
  obtain m where m: "n = Suc m" using direct.prems by (cases n) auto
  have "resolve_size_loop n b (Ref t) ne = Some (size_done ne (int (unat (size_type t))))"
    unfolding m using resolve_loop_step [of t m b ne] direct(2) by simp
  then show ?case using direct(1) unfolding size_done_exact by (cases "2 ^ 32 \<le> unat ne * unat (size_type t)") auto
next
  case (pointer i t s b')
  obtain m where m: "n = Suc m" using pointer.prems by (cases n) auto
  have "resolve_size_loop n b (Ref t) ne = Some (size_done ne (int s))"
    unfolding m using resolve_loop_step [of t m b ne] pointer(2,3) by (simp add: kinds_with_size_def)
  then show ?case using pointer(1) unfolding size_done_exact by (cases "2 ^ 32 \<le> unat ne * s") auto
next
  case (refer i t s k)
  obtain m where m: "n = Suc m" "k < m" using refer.prems by (cases n) auto
  obtain r v where r: "btf__type_by_id b (unat (size_type t)) = Some r" "resolve_size_loop m b r ne = Some v"
    "v = int (unat ne * s) \<and> unat ne * s < 2 ^ 32 \<or> v = - E2BIG \<and> (2 ^ 32 \<le> unat ne * s \<or> unat ne * s = 0)"
    using refer.IH [OF m(2), of ne] by blast
  have "resolve_size_loop n b (Ref t) ne = Some v"
    unfolding m(1) by (subst resolve_loop_step) (use refer(2) r in \<open>auto simp: kinds_with_size_def kinds_with_ref_def\<close>)
  then show ?case using refer(1) r(3) by blast
next
  case (array i t a s k)
  obtain m where m: "n = Suc m" "k < m" using array.prems by (cases n) auto
  have st: "resolve_size_loop n b (Ref t) ne =
      (if ne \<noteq> 0 \<and> a_nelems a > (- 1) div ne then Some (- E2BIG)
       else do { r1 \<leftarrow> btf__type_by_id b (unat (a_type a)); resolve_size_loop m b r1 (ne * a_nelems a) })"
    unfolding m(1) by (subst resolve_loop_step) (use array(2,3) in \<open>auto simp: kinds_with_size_def kinds_with_ref_def\<close>)
  show ?case
  proof (cases "ne \<noteq> 0 \<and> a_nelems a > (- 1) div ne")
    case True
    then have "2 ^ 32 \<le> unat ne * unat (a_nelems a)" using mult_guard [of ne "a_nelems a"] by simp
    moreover have "X \<le> X * s" if "s \<noteq> 0" for X :: nat using that by simp
    ultimately have "s = 0 \<or> 2 ^ 32 \<le> unat ne * (unat (a_nelems a) * s)" unfolding mult.assoc [symmetric] using le_trans by blast
    then show ?thesis using st True array(1) by auto
  next
    case False
    note w = mult_no_wrap [OF False]
    show ?thesis using array.IH [OF m(2), of "ne * a_nelems a"] st False array(1) by (auto simp: w mult.assoc)
  qed
qed

lemma resolve_loop_sound:
  "resolve_size_loop n b r ne = Some v \<Longrightarrow> 0 \<le> v \<Longrightarrow> btf__type_by_id b i = Some r \<Longrightarrow> \<exists>s k. k < n \<and> sized b i s k"
proof (induction n arbitrary: r ne i)
  case 0
  then show ?case by (simp add: size_done_def EINVAL_def)
next
  case (Suc n)
  show ?case
  proof (cases "\<exists>t. r = Ref t \<and> btf_kind t \<in> kinds_with_size \<union> kinds_with_ref \<union> {BTF_KIND_PTR, BTF_KIND_ARRAY}")
    case True
    then obtain t where t: "r = Ref t" "btf_kind t \<in> kinds_with_size \<union> kinds_with_ref \<union> {BTF_KIND_PTR, BTF_KIND_ARRAY}" by blast
    note st = Suc.prems(1) [unfolded t(1) resolve_loop_step [OF t(2)]]
    have i: "btf__type_by_id b i = Some (Ref t)" using Suc.prems(3) t(1) by simp
    consider "btf_kind t \<in> kinds_with_size" | "btf_kind t = BTF_KIND_PTR"
      | "btf_kind t \<in> kinds_with_ref" | "btf_kind t = BTF_KIND_ARRAY" using t(2) by blast
    then show ?thesis
    proof cases
      case 1
      then show ?thesis using sized.direct [OF i] by blast
    next
      case 2
      then show ?thesis using st sized.pointer [OF i 2] by (auto simp: bind_eq_Some_conv kinds_with_size_def)
    next
      case 3
      then have "btf_kind t \<notin> kinds_with_size" "btf_kind t \<noteq> BTF_KIND_PTR" by (auto simp: kinds_with_size_def kinds_with_ref_def)
      then obtain r1 where "btf__type_by_id b (unat (size_type t)) = Some r1" "resolve_size_loop n b r1 ne = Some v"
        using st 3 by (auto simp: bind_eq_Some_conv)
      then show ?thesis using Suc.IH Suc.prems(2) sized.refer [OF i 3] by (meson Suc_less_eq)
    next
      case 4
      then have "btf_kind t \<notin> kinds_with_size" "btf_kind t \<notin> kinds_with_ref" by (auto simp: kinds_with_size_def kinds_with_ref_def)
      then obtain a r1 ne' where "btf_array t = Some a" "btf__type_by_id b (unat (a_type a)) = Some r1" "resolve_size_loop n b r1 ne' = Some v"
        using st 4 Suc.prems(2) by (auto simp: bind_eq_Some_conv E2BIG_def split: if_splits)
      then show ?thesis using Suc.IH Suc.prems(2) sized.array [OF i 4] by (meson Suc_less_eq)
    qed
  next
    case False
    have "v = - EINVAL"
    proof (cases r)
      case Null
      then show ?thesis using Suc.prems(1) by (simp add: size_done_def)
    next
      case (Ref t)
      then show ?thesis using Suc.prems(1) False resolve_loop_other [of t n b ne] by simp
    qed
    then show ?thesis using Suc.prems(2) by (simp add: EINVAL_def)
  qed
qed


lemma resolve_size_sized:
  "sized b i s k \<Longrightarrow> k < MAX_RESOLVE_DEPTH \<Longrightarrow> \<exists>v. btf__resolve_size b i = Some v \<and>
     (v = int s \<and> s < 2 ^ 32 \<or> v = - E2BIG \<and> (2 ^ 32 \<le> s \<or> s = 0))"
  using resolve_loop_complete [of b i s k MAX_RESOLVE_DEPTH 1] by (auto simp: btf__resolve_size_def)

lemma resolve_size_nonneg:
  assumes "btf__resolve_size b i = Some v" "0 \<le> v"
  obtains s k where "k < MAX_RESOLVE_DEPTH" "sized b i s k" "v = int s" "s < 2 ^ 32"
proof -
  obtain r where r: "btf__type_by_id b i = Some r" "resolve_size_loop MAX_RESOLVE_DEPTH b r 1 = Some v"
    using assms(1) by (auto simp: btf__resolve_size_def bind_eq_Some_conv)
  obtain s k where k: "k < MAX_RESOLVE_DEPTH" "sized b i s k" using resolve_loop_sound [OF r(2) assms(2) r(1)] by blast
  then show ?thesis using that [OF k] resolve_size_sized [OF k(2,1)] assms by (auto simp: E2BIG_def)
qed

text \<open>
  C26: \<^verbatim>\<open>btf__resolve_size\<close> is exact. A result that is not an error is the size of the type, the product of all array lengths on the way and the size at the end, without
  wrap-around in 32 bits; every type of non-zero size below 4 GiB that is fewer than 32 references deep is answered with its size, and a larger one with \<^verbatim>\<open>-E2BIG\<close>.
\<close>

theorem resolve_size_exact:
  "(0 \<le> v \<longrightarrow> btf__resolve_size b i = Some v \<longrightarrow> v < 2 ^ 32 \<and> (\<exists>k < 32. sized b i (nat v) k)) \<and>
   (\<forall>k < 32. sized b i s k \<longrightarrow> 0 < s \<longrightarrow> btf__resolve_size b i = Some (if s < 2 ^ 32 then int s else - E2BIG))"
proof (intro conjI impI allI)
  assume v: "0 \<le> v" "btf__resolve_size b i = Some v"
  obtain s' k where "k < MAX_RESOLVE_DEPTH" "sized b i s' k" "v = int s'" "s' < 2 ^ 32" by (rule resolve_size_nonneg [OF v(2,1)])
  then show "v < 2 ^ 32" "\<exists>k < 32. sized b i (nat v) k" by (auto simp: MAX_RESOLVE_DEPTH_def)
next
  fix k :: nat assume "k < 32" "sized b i s k" "0 < s"
  then show "btf__resolve_size b i = Some (if s < 2 ^ 32 then int s else - E2BIG)"
    using resolve_size_sized [of b i s k] by (auto simp: MAX_RESOLVE_DEPTH_def)
qed


section \<open>BTF with given types\<close>

text \<open>The BTF that loading an image of the types \<open>ts\<close> and the strings \<open>strs\<close> gives, for examples.\<close>

fun offsets_from :: "nat \<Rightarrow> btf_type list \<Rightarrow> u32 list" where
  "offsets_from k [] = []"
| "offsets_from k (t # ts) = word_of_nat k # offsets_from (k + length (type_bytes t)) ts"

definition flat_btf :: "btf_type list \<Rightarrow> mem \<Rightarrow> btf" where
  "flat_btf ts strs = Btf None (loaded None False (image_hdr 1 0 (length (types_bytes ts)) (length strs)) (btf_image False 1 0 ts strs) (offsets_from 0 ts) (length ts))"

lemma indexes_offsets: "indexes (offsets_from k ts) k ts"
  by (induction k ts rule: offsets_from.induct) simp_all

lemma length_offsets [simp]: "length (offsets_from k ts) = length ts"
  by (induction k ts rule: offsets_from.induct) simp_all

lemma flat_facts:
  assumes ts: "list_all type_ok ts" and n: "24 + length (types_bytes ts) + length strs < 2 ^ 32" and s: "strs_valid False strs"
  shows "btf_wf (flat_btf ts strs)" "btf__type_cnt (flat_btf ts strs) = Suc (length ts)"
    "i < length ts \<Longrightarrow> btf__type_by_id (flat_btf ts strs) (Suc i) = Some (Ref (ts ! i))" "btf__type_by_id (flat_btf ts strs) 0 = Some (Ref btf_void)"
    "btf__str_by_offset (flat_btf ts strs) off = (if off < length strs then map_option Ref (c_str (map byte_char strs) off) else Some Null)"
proof -
  let ?h = "image_hdr 1 0 (length (types_bytes ts)) (length strs)"
  have u: "unat (h_hdr_len ?h) = 24" "unat (h_type_off ?h) = 0" "unat (h_type_len ?h) = length (types_bytes ts)"
     "unat (h_str_off ?h) = length (types_bytes ts)" "unat (h_str_len ?h) = length strs"
    using n by (simp_all add: image_hdr_def unsigned_of_nat take_bit_nat_eq_self)
  define d where "d = own (flat_btf ts strs)"
  have im: "btf_image False 1 0 ts strs = hdr_bytes ?h @ types_bytes ts @ strs" by (simp add: btf_image_def Let_def)
  have d: "types_data d = types_bytes ts @ strs" "btf_strs_data d = Some (map byte_char strs)" "hdr d = ?h" "start_id d = 1" "start_str_off d = 0"
    "nr_types d = length ts" "type_offs d = offsets_from 0 ts" "flat_btf ts strs = Btf None d"
    by (simp_all add: d_def flat_btf_def loaded_def btf_strs_data_def u im)
  have t: "types_in d ts" using ts indexes_offsets [of 0 ts] by (simp add: types_in_def d u)
  have "strings_in False d"
  proof -
    have "strs \<noteq> []" "last strs = 0" "hd strs = 0" using s by (auto simp: strs_valid_def)
    then have "map byte_char strs ! (length strs - 1) = NUL" "map byte_char strs ! 0 = NUL" by (simp_all add: last_conv_nth hd_conv_nth)
    then show ?thesis using \<open>strs \<noteq> []\<close> by (simp add: strings_in_def Let_def d u)
  qed
  then show "btf_wf (flat_btf ts strs)" using t d by auto
  show "btf__type_cnt (flat_btf ts strs) = Suc (length ts)" by (simp add: d(8) btf__type_cnt_def d(4,6))
  show "btf__type_by_id (flat_btf ts strs) 0 = Some (Ref btf_void)" by (simp add: d(8) btf__type_by_id_def btf__type_cnt_def d(4,6))
  show "btf__type_by_id (flat_btf ts strs) (Suc i) = Some (Ref (ts ! i))" if "i < length ts"
    using that type_at_in [OF t, of i] by (simp add: d(8) btf__type_by_id_def btf__type_cnt_def d(4,6))
  show "btf__str_by_offset (flat_btf ts strs) off = (if off < length strs then map_option Ref (c_str (map byte_char strs) off) else Some Null)"
    by (cases "c_str (map byte_char strs) off") (simp_all add: d(8) d(2,3,5) u)
qed

definition array_example :: btf_type where
  "array_example = \<lparr>name_off = 0, info = 0x03000000, size_type = 0, tail = [1, 1, 3]\<rparr>"

lemma array_example_ok: "type_ok array_example"
  by code_simp

theorem resolve_size_exact_witness:
  "btf__resolve_size (flat_btf [int_example, array_example] [0, 105, 0]) 2 = Some 12"
proof -
  let ?b = "flat_btf [int_example, array_example] [0, 105, 0]"
  have f: "list_all type_ok [int_example, array_example]" "24 + length (types_bytes [int_example, array_example]) + length [0, 105, 0::u8] < 2 ^ 32"
    "strs_valid False [0, 105, 0]" by (simp_all add: int_example_ok array_example_ok strs_valid_def) (simp add: int_example_def array_example_def)
  note t = flat_facts(3) [OF f, of 0] flat_facts(3) [OF f, of 1]
  have a: "btf_array array_example = Some \<lparr>a_type = 1, a_index_type = 1, a_nelems = 3\<rparr>" by (simp add: array_example_def btf_array_def word_at_def)
  have k: "btf_kind array_example = BTF_KIND_ARRAY" "btf_kind int_example \<in> kinds_with_size" by code_simp+
  have "sized ?b 1 4 0" using sized.direct [of ?b 1 int_example] t(1) k(2) by (simp add: int_example_def)
  then have "sized ?b 2 (unat (3::u32) * 4) 1" using sized.array [of ?b 2 array_example _ 4 0, OF _ k(1) a] t(2) by (simp add: numeral_2_eq_2)
  then show ?thesis using conjunct2 [OF resolve_size_exact [of 0 ?b 2 12], rule_format, of 1] by simp
qed


section \<open>No question leaves memory\<close>

lemma wf_ref: "btf_wf b \<Longrightarrow> btf__type_by_id b i = Some (Ref t) \<Longrightarrow> t = btf_void \<or> type_ok t"
  by (rule type_by_id_Ref(3))

lemma resolve_loop_total:
  "btf_wf b \<Longrightarrow> (\<And>t. r = Ref t \<Longrightarrow> t = btf_void \<or> type_ok t) \<Longrightarrow> \<exists>v. resolve_size_loop n b r ne = Some v"
proof (induction n arbitrary: r ne)
  case (Suc n)
  have IH: "\<exists>v. (btf__type_by_id b i \<bind> (\<lambda>r1. resolve_size_loop n b r1 ne1)) = Some v" for i ne1
  proof -
    obtain r1 where "btf__type_by_id b i = Some r1" using wf_type_by_id [OF Suc.prems(1)] by blast
    then show ?thesis using Suc.IH [OF Suc.prems(1), of r1 ne1] wf_ref [OF Suc.prems(1), of i] by simp
  qed
  show ?case
  proof (cases "\<exists>t. r = Ref t \<and> btf_kind t \<in> kinds_with_size \<union> kinds_with_ref \<union> {BTF_KIND_PTR, BTF_KIND_ARRAY}")
    case True
    then obtain t where t: "r = Ref t" "btf_kind t \<in> kinds_with_size \<union> kinds_with_ref \<union> {BTF_KIND_PTR, BTF_KIND_ARRAY}" by blast
    have "type_ok t" using Suc.prems(2) [OF t(1)] not_void [OF t(2)] by (auto simp: btf_type_is_void_def)
    then have "\<exists>a. btf_array t = Some a" if "btf_kind t = BTF_KIND_ARRAY" using type_ok_array that by blast
    moreover have "\<exists>v. (btf_ptr_sz b \<bind> (\<lambda>(s, _). Some (size_done ne (int s)))) = Some v" using ptr_sz_total [OF Suc.prems(1)] by auto
    ultimately show ?thesis using t(2) IH unfolding t(1) resolve_loop_step [OF t(2)] by auto
  next
    case False
    then show ?thesis using resolve_loop_other by (cases r) (simp, blast)
  qed
qed simp

lemma resolve_type_total: "btf_wf b \<Longrightarrow> \<exists>v. resolve_type_loop n b i r = Some v"
proof (induction n arbitrary: i r)
  case (Suc n)
  show ?case
  proof (cases r)
    case (Ref t)
    obtain r1 where "btf__type_by_id b (unat (size_type t)) = Some r1" using wf_type_by_id [OF Suc.prems] by blast
    then show ?thesis using Suc Ref by (simp add: resolve_type_loop.simps [of "Suc n"])
  qed (simp add: resolve_type_loop.simps)
qed (auto simp: resolve_type_loop.simps split: nullable.split)

text \<open>The search finds the first type that is selected and has the name.\<close>

definition has_name :: "(btf_type \<Rightarrow> bool) \<Rightarrow> btf \<Rightarrow> string \<Rightarrow> nat \<Rightarrow> bool" where
  "has_name sel b nm j \<longleftrightarrow> (\<exists>t. btf__type_by_id b j = Some (Ref t) \<and> sel t \<and> btf__name_by_offset b (name_off t) = Some (Ref nm))"

lemma find_name_spec:
  assumes "btf_wf b" "i + n \<le> btf__type_cnt b"
  shows "\<exists>v. find_name_loop sel b nm i n = Some v \<and>
     ((v = - ENOENT \<and> (\<forall>j. i \<le> j \<and> j < i + n \<longrightarrow> \<not> has_name sel b nm j)) \<or>
      (\<exists>j. v = int j \<and> i \<le> j \<and> j < i + n \<and> has_name sel b nm j \<and> (\<forall>k. i \<le> k \<and> k < j \<longrightarrow> \<not> has_name sel b nm k)))"
  using assms(2)
proof (induction n arbitrary: i)
  case (Suc n)
  obtain t where t: "btf__type_by_id b i = Some (Ref t)"
    using wf_type [OF assms(1), of i] Suc.prems by (auto simp: btf__type_by_id_def)
  obtain s where s: "btf__name_by_offset b (name_off t) = Some s" using wf_string [OF assms(1)] by (auto simp: btf__name_by_offset_def)
  have h: "has_name sel b nm i \<longleftrightarrow> sel t \<and> s = Ref nm" using t s by (auto simp: has_name_def)
  show ?case
  proof (cases "has_name sel b nm i")
    case True
    then have "find_name_loop sel b nm i (Suc n) = Some (int i)" using t s h by simp
    then show ?thesis using True by fastforce
  next
    case False
    then have e: "find_name_loop sel b nm i (Suc n) = find_name_loop sel b nm (Suc i) n" using t s h by auto
    have l: "i \<le> j \<longleftrightarrow> j = i \<or> Suc i \<le> j" for j by auto
    have b: "Suc i + n \<le> btf__type_cnt b" "i + Suc n = Suc i + n" using Suc.prems by simp_all
    show ?thesis using Suc.IH [OF b(1)] False unfolding e b(2) l by (metis Suc_leD Suc_n_not_le_n not_less)
  qed
qed auto

text \<open>
  C27: On BTF that \<^verbatim>\<open>btf_new\<close> has accepted, alone or on top of accepted base BTF, looking up a type or a string, resolving sizes and references and searching by name end and stay inside the data, for every
  type number, offset and name, even when numbers and offsets inside the types are out of range.
\<close>

theorem btf_queries_safe:
  assumes "btf_new calloc_ok malloc_ok realloc_ok data base = Some (Inr b)" "\<forall>b0. base = Some b0 \<longrightarrow> btf_wf b0"
  shows "(\<exists>r. btf__type_by_id b i = Some r) \<and> (\<exists>r. btf__name_by_offset b off = Some r) \<and> (\<exists>v. btf__resolve_size b i = Some v) \<and>
    (\<exists>v. btf__resolve_type b i = Some v) \<and> (\<exists>v. btf__find_by_name b nm = Some v) \<and> (\<exists>v. btf__find_by_name_kind b nm kind = Some v)"
proof -
  have wf: "btf_wf b" by (rule btf_new_wf [OF assms(1)]) (use assms(2) in simp)
  obtain r where r: "btf__type_by_id b i = Some r" using wf_type_by_id [OF wf] by blast
  have "\<exists>v. btf__resolve_size b i = Some v"
    using resolve_loop_total [OF wf, of r MAX_RESOLVE_DEPTH 1] wf_ref [OF wf, of i] r by (simp add: btf__resolve_size_def)
  moreover have "\<exists>v. btf__resolve_type b i = Some v"
    using resolve_type_total [OF wf] r by (simp add: btf__resolve_type_def)
  moreover have "\<exists>v. find_name_loop sel b nm 1 (btf__type_cnt b - 1) = Some v" for sel
    using find_name_spec [OF wf, of 1 "btf__type_cnt b - 1" sel nm] wf_cnt [OF wf] by auto
  ultimately show ?thesis
    using r wf_string [OF wf] by (simp add: btf__name_by_offset_def btf__find_by_name_def btf__find_by_name_kind_def btf_find_by_name_kind_def)
qed

theorem btf_queries_safe_witness:
  "\<exists>b. btf_new True True (\<lambda>n. True) (btf_image False 1 0 [int_example] [0, 105, 110, 116, 0]) None = Some (Inr b) \<and>
    (\<exists>v. btf__resolve_size b 7 = Some v) \<and> (\<exists>v. btf__find_by_name b ''int'' = Some v)"
proof -
  have v: "list_all type_ok [int_example]" "strs_valid (None \<noteq> (None :: btf option)) [0, 105, 110, 116, 0]"
    "24 + length (types_bytes [int_example]) + length [0, 105, 110, 116, 0 :: u8] < 2 ^ 32"
    by (simp_all add: int_example_ok strs_valid_def) (simp add: int_example_def)
  obtain b where b: "btf_new True True (\<lambda>n. True) (btf_image False 1 0 [int_example] [0, 105, 110, 116, 0]) None = Some (Inr b)"
    by (rule btf_new_image [OF v(1,3,2), of "\<lambda>n. True" False 1 0]) simp_all
  show ?thesis using btf_queries_safe [OF b, of 7 0 "''int''" 1] b by blast
qed

end
