(* ===== verification/Btf_Build.thy ===== *)
theory Btf_Build
  imports Btf
begin

text \<open>
  Building BTF: \<^verbatim>\<open>btf_new_empty\<close>, strings, and the \<^verbatim>\<open>btf__add_*\<close> functions of \<^verbatim>\<open>lib/libbpf/src/btf.c\<close>.

  The functions that append a type all take the same steps: make the BTF modifiable, grow the type section, store the name, write the words of the type
  behind the section, enter it in the index. \<open>append_type\<close> are these steps, with the words as a function of the name's offset; \<open>append_elem\<close> are the steps of the functions that
  extend the last type. A result is \<open>None\<close> for an access outside memory, or the returned number with the BTF afterwards.
  The outcomes of allocations are a record for each BTF of a chain of base BTFs, the first for the BTF itself. A base BTF is part of
  the value of the BTF on top of it. C strings are lists without the terminator, \<open>Null\<close> is a null pointer.
\<close>

section \<open>Making BTF modifiable\<close>

record build_allocs =
  al_hdr :: bool
  al_types :: bool
  al_set :: bool
  al_new :: bool
  al_data :: bool
  al_calloc :: "nat \<Rightarrow> bool"
  al_init :: "nat \<Rightarrow> bool"
  al_strs :: "nat \<Rightarrow> bool"
  al_entry :: bool
  al_tmem :: "nat \<Rightarrow> bool"
  al_offs :: "nat \<Rightarrow> bool"

definition BTF_VERSION :: u8 where "BTF_VERSION = 1"

definition btf_new_empty :: "bool \<Rightarrow> bool \<Rightarrow> btf option \<Rightarrow> int + btf" where
  "btf_new_empty obj_ok raw_ok base =
     (if \<not> obj_ok then Inl (- ENOMEM)
      else if \<not> raw_ok then Inl (- ENOMEM)
      else let slen = (if base = None then 1 else 0);
               h = \<lparr>h_magic = BTF_MAGIC, h_version = BTF_VERSION, h_flags = 0, h_hdr_len = 24, h_type_off = 0, h_type_len = 0, h_str_off = 0, h_str_len = word_of_nat slen\<rparr>;
               rest = replicate slen 0 in
        Inr (Btf base
          \<lparr>raw_data = Some (hdr_bytes h @ rest), raw_data_swapped = None, raw_size = 24 + slen, swapped_endian = False, modifiable = False, hdr = h, hdr_rest = [],
           types_data = rest, type_offs = [], nr_types = 0, start_id = (case base of None \<Rightarrow> 1 | Some b \<Rightarrow> btf__type_cnt b),
           start_str_off = (case base of None \<Rightarrow> 0 | Some b \<Rightarrow> unat (h_str_len (hdr (own b)))), strs_data = Some (map byte_char rest),
           strs_set = None, strs_deduped = False, ptr_sz = 8\<rparr>))"

definition btf_invalidate_raw_data :: "btf_data \<Rightarrow> btf_data" where
  "btf_invalidate_raw_data d = d\<lparr>raw_data := None, raw_data_swapped := None\<rparr>"

text \<open>A header that is shorter than its fixed part would be used beyond its end afterwards.\<close>

definition btf_ensure_modifiable :: "build_allocs \<Rightarrow> bool \<Rightarrow> btf_data \<Rightarrow> (int \<times> btf_data) option" where
  "btf_ensure_modifiable al has_base d =
     (if modifiable d then Some (0, btf_invalidate_raw_data d)
      else if \<not> al_hdr al \<or> \<not> al_types al then Some (- ENOMEM, d)
      else if unat (h_hdr_len (hdr d)) < 24 then None
      else do {
        types \<leftarrow> ldn (types_data d) 0 (unat (h_type_len (hdr d)));
        s \<leftarrow> strs_data d;
        let n = unat (h_str_len (hdr d)) in
        if length s < n then None
        else case strset__new (al_set al) (al_new al) (al_data al) (al_calloc al) (al_init al) BTF_MAX_STR_OFFSET (Some (take n s)) of
          Inl e \<Rightarrow> Some (e, d)
        | Inr ss \<Rightarrow> Some (0, btf_invalidate_raw_data (d\<lparr>modifiable := True, types_data := types, strs_data := None, strs_set := Some ss,
              strs_deduped := (strs_deduped d \<or> n = 0 \<or> \<not> has_base \<and> n = 1)\<rparr>)) })"

section \<open>Strings\<close>

text \<open>A sum of two \<^verbatim>\<open>int\<close>s.\<close>

definition c_add :: "int \<Rightarrow> int \<Rightarrow> int" where
  "c_add x y = sint (word_of_int (x + y) :: u32)"

fun btf__find_str :: "(nat \<Rightarrow> build_allocs) \<Rightarrow> btf \<Rightarrow> string \<Rightarrow> (int \<times> btf) option" where
  "btf__find_str al (Btf base d) s = do {
     (r, base1) \<leftarrow> (case base of None \<Rightarrow> Some (- ENOENT, None)
                     | Some b \<Rightarrow> do { (r, b1) \<leftarrow> btf__find_str (\<lambda>n. al (Suc n)) b s; Some (r, Some b1) });
     if r \<noteq> - ENOENT then Some (r, Btf base1 d)
     else do {
       (err, d1) \<leftarrow> btf_ensure_modifiable (al 0) (base \<noteq> None) d;
       if err \<noteq> 0 then Some (- ENOMEM, Btf base1 d1)
       else do {
         ss \<leftarrow> strs_set d1;
         let (off, ss1) = strset__find_str (al_strs (al 0)) ss s in
         Some (if off < 0 then off else c_add (int (start_str_off d1)) off, Btf base1 (d1\<lparr>strs_set := Some ss1\<rparr>)) } } }"

definition btf__add_str :: "(nat \<Rightarrow> build_allocs) \<Rightarrow> btf \<Rightarrow> string \<Rightarrow> (int \<times> btf) option" where
  "btf__add_str al b s = do {
     (r, base1) \<leftarrow> (case base_btf b of None \<Rightarrow> Some (- ENOENT, None)
                     | Some b0 \<Rightarrow> do { (r, b1) \<leftarrow> btf__find_str (\<lambda>n. al (Suc n)) b0 s; Some (r, Some b1) });
     if r \<noteq> - ENOENT then Some (r, Btf base1 (own b))
     else do {
       (err, d1) \<leftarrow> btf_ensure_modifiable (al 0) (base_btf b \<noteq> None) (own b);
       if err \<noteq> 0 then Some (- ENOMEM, Btf base1 d1)
       else do {
         ss \<leftarrow> strs_set d1;
         let (off, ss1) = strset__add_str (al_strs (al 0)) (al_calloc (al 0)) (al_entry (al 0)) ss s; d2 = d1\<lparr>strs_set := Some ss1\<rparr> in
         Some (if off < 0 then (off, Btf base1 d2)
               else (c_add (int (start_str_off d2)) off, Btf base1 (d2\<lparr>hdr := hdr d2\<lparr>h_str_len := word_of_nat (strset__data_size ss1)\<rparr>\<rparr>))) } } }"

section \<open>Appending\<close>

definition UINT_MAX :: nat where "UINT_MAX = 0xffffffff"

definition btf_add_type_mem :: "build_allocs \<Rightarrow> btf_data \<Rightarrow> nat \<Rightarrow> mem option" where
  "btf_add_type_mem al d add_sz = libbpf_add_mem 0 (al_tmem al) (types_data d) (unat (h_type_len (hdr d))) UINT_MAX add_sz"

text \<open>The sections grow by \<open>sz0\<close> bytes.\<close>

definition grow_hdr :: "nat \<Rightarrow> btf_data \<Rightarrow> btf_data" where
  "grow_hdr sz0 d = d\<lparr>hdr := hdr d\<lparr>h_type_len := h_type_len (hdr d) + word_of_nat sz0, h_str_off := h_str_off (hdr d) + word_of_nat sz0\<rparr>\<rparr>"

definition btf_commit_type :: "build_allocs \<Rightarrow> btf \<Rightarrow> nat \<Rightarrow> int \<times> btf" where
  "btf_commit_type al b data_sz = (let d = own b in
     case btf_add_type_idx_entry (al_offs al) (type_offs d) (nr_types d) (h_type_len (hdr d)) of
       Inl e \<Rightarrow> (e, b)
     | Inr offs \<Rightarrow> (int (start_id d + nr_types d), Btf (base_btf b) (grow_hdr data_sz (d\<lparr>type_offs := offs, nr_types := nr_types d + 1\<rparr>))))"

text \<open>The part that all functions share: room for \<open>sz0\<close> bytes behind the types, and the offset of the name, 0 without one.\<close>

definition no_name :: "string nullable \<Rightarrow> bool" where
  "no_name n = (case n of Null \<Rightarrow> True | Ref s \<Rightarrow> s = [])"

definition open_append :: "(nat \<Rightarrow> build_allocs) \<Rightarrow> btf \<Rightarrow> string nullable \<Rightarrow> nat \<Rightarrow> (int \<times> btf) option" where
  "open_append al b name sz0 = do {
     (err, d1) \<leftarrow> btf_ensure_modifiable (al 0) (base_btf b \<noteq> None) (own b);
     let b1 = Btf (base_btf b) d1 in
     if err \<noteq> 0 then Some (- ENOMEM, b1)
     else case btf_add_type_mem (al 0) d1 sz0 of
       None \<Rightarrow> Some (- ENOMEM, b1)
     | Some m \<Rightarrow>
         let b2 = Btf (base_btf b) (d1\<lparr>types_data := m\<rparr>) in
         case name of Null \<Rightarrow> Some (0, b2) | Ref s \<Rightarrow> if s = [] then Some (0, b2) else btf__add_str al b2 s }"

definition append_type :: "(nat \<Rightarrow> build_allocs) \<Rightarrow> btf \<Rightarrow> string nullable \<Rightarrow> (u32 \<Rightarrow> btf_type) \<Rightarrow> (int \<times> btf) option" where
  "append_type al b name mk = (let sz0 = length (type_bytes (mk 0)) in do {
     (name_off, b1) \<leftarrow> open_append al b name sz0;
     if name_off < 0 then Some (name_off, b1)
     else do {
       m \<leftarrow> stn (types_data (own b1)) (unat (h_type_len (hdr (own b1)))) (type_bytes (mk (word_of_int name_off)));
       Some (btf_commit_type (al 0) (Btf (base_btf b1) ((own b1)\<lparr>types_data := m\<rparr>)) sz0) } })"

text \<open>Storing to \<^verbatim>\<open>t->info\<close> of a type of this BTF.\<close>

definition set_info :: "btf \<Rightarrow> nat \<Rightarrow> u32 \<Rightarrow> btf option" where
  "set_info b tid ninfo = (let d = own b in
     if tid < start_id d \<or> tid - start_id d \<ge> length (type_offs d) then None
     else do { m \<leftarrow> st32 (types_data d) (unat (type_offs d ! (tid - start_id d)) + 4) ninfo; Some (Btf (base_btf b) (d\<lparr>types_data := m\<rparr>)) })"

definition btf_last_type :: "btf \<Rightarrow> btf_type option" where
  "btf_last_type b = btf_type_by_id b (btf__type_cnt b - 1)"

definition append_elem ::
  "(nat \<Rightarrow> build_allocs) \<Rightarrow> btf \<Rightarrow> string nullable \<Rightarrow> (u32 \<Rightarrow> u32 list) \<Rightarrow> (btf_type \<Rightarrow> u32) \<Rightarrow> (int \<times> btf) option" where
  "append_elem al b name mk new_info = (let sz0 = 4 * length (mk 0) in do {
     (name_off, b1) \<leftarrow> open_append al b name sz0;
     if name_off < 0 then Some (name_off, b1)
     else do {
       m \<leftarrow> stn (types_data (own b1)) (unat (h_type_len (hdr (own b1)))) (enc (mk (word_of_int name_off)));
       let b2 = Btf (base_btf b1) ((own b1)\<lparr>types_data := m\<rparr>) in do {
       t \<leftarrow> btf_last_type b2;
       b3 \<leftarrow> set_info b2 (btf__type_cnt b2 - 1) (new_info t);
       Some (0, Btf (base_btf b3) (grow_hdr sz0 (own b3))) } } })"

definition btf_type_inc_vlen :: "btf_type \<Rightarrow> u32" where
  "btf_type_inc_vlen t = btf_type_info (btf_kind t) (btf_vlen t + 1) (btf_kflag t)"

section \<open>The functions of the interface\<close>

definition mk_type :: "nat \<Rightarrow> nat \<Rightarrow> bool \<Rightarrow> u32 \<Rightarrow> u32 list \<Rightarrow> u32 \<Rightarrow> btf_type" where
  "mk_type kind vlen kflag st ws name_off0 = \<lparr>name_off = name_off0, info = btf_type_info kind vlen kflag, size_type = st, tail = ws\<rparr>"

definition inval :: "btf \<Rightarrow> (int \<times> btf) option" where
  "inval b = Some (- EINVAL, b)"

definition btf__add_int :: "(nat \<Rightarrow> build_allocs) \<Rightarrow> btf \<Rightarrow> string nullable \<Rightarrow> u64 \<Rightarrow> u32 \<Rightarrow> (int \<times> btf) option" where
  "btf__add_int al b name byte_sz encoding =
     (if no_name name then inval b
      else if byte_sz = 0 \<or> byte_sz AND (byte_sz - 1) \<noteq> 0 \<or> byte_sz > 16 then inval b
      else if encoding AND NOT (BTF_INT_SIGNED OR BTF_INT_CHAR OR BTF_INT_BOOL) \<noteq> 0 then inval b
      else append_type al b name (mk_type BTF_KIND_INT 0 False (ucast byte_sz) [push_bit 24 encoding OR ucast (byte_sz * 8)]))"

definition btf__add_float :: "(nat \<Rightarrow> build_allocs) \<Rightarrow> btf \<Rightarrow> string nullable \<Rightarrow> u64 \<Rightarrow> (int \<times> btf) option" where
  "btf__add_float al b name byte_sz =
     (if no_name name then inval b
      else if byte_sz \<notin> {2, 4, 8, 12, 16} then inval b
      else append_type al b name (mk_type BTF_KIND_FLOAT 0 False (ucast byte_sz) []))"

definition validate_type_id :: "int \<Rightarrow> bool" where
  "validate_type_id i \<longleftrightarrow> \<not> (i < 0 \<or> i > int BTF_MAX_NR_TYPES)"

definition btf_add_ref_kind :: "(nat \<Rightarrow> build_allocs) \<Rightarrow> btf \<Rightarrow> nat \<Rightarrow> string nullable \<Rightarrow> int \<Rightarrow> (int \<times> btf) option" where
  "btf_add_ref_kind al b kind name ref_type_id =
     (if \<not> validate_type_id ref_type_id then inval b
      else append_type al b name (mk_type kind 0 False (word_of_int ref_type_id) []))"

definition btf__add_ptr :: "(nat \<Rightarrow> build_allocs) \<Rightarrow> btf \<Rightarrow> int \<Rightarrow> (int \<times> btf) option" where
  "btf__add_ptr al b ref_type_id = btf_add_ref_kind al b BTF_KIND_PTR Null ref_type_id"

definition btf__add_array :: "(nat \<Rightarrow> build_allocs) \<Rightarrow> btf \<Rightarrow> int \<Rightarrow> int \<Rightarrow> u32 \<Rightarrow> (int \<times> btf) option" where
  "btf__add_array al b index_type_id elem_type_id nr_elems =
     (if \<not> validate_type_id index_type_id \<or> \<not> validate_type_id elem_type_id then inval b
      else append_type al b Null (mk_type BTF_KIND_ARRAY 0 False 0 [word_of_int elem_type_id, word_of_int index_type_id, nr_elems]))"

definition btf_add_composite :: "(nat \<Rightarrow> build_allocs) \<Rightarrow> btf \<Rightarrow> nat \<Rightarrow> string nullable \<Rightarrow> u32 \<Rightarrow> (int \<times> btf) option" where
  "btf_add_composite al b kind name bytes_sz = append_type al b name (mk_type kind 0 False bytes_sz [])"

definition btf__add_struct :: "(nat \<Rightarrow> build_allocs) \<Rightarrow> btf \<Rightarrow> string nullable \<Rightarrow> u32 \<Rightarrow> (int \<times> btf) option" where
  "btf__add_struct al b name byte_sz = btf_add_composite al b BTF_KIND_STRUCT name byte_sz"

definition btf__add_union :: "(nat \<Rightarrow> build_allocs) \<Rightarrow> btf \<Rightarrow> string nullable \<Rightarrow> u32 \<Rightarrow> (int \<times> btf) option" where
  "btf__add_union al b name byte_sz = btf_add_composite al b BTF_KIND_UNION name byte_sz"

definition btf__add_field :: "(nat \<Rightarrow> build_allocs) \<Rightarrow> btf \<Rightarrow> string nullable \<Rightarrow> int \<Rightarrow> u32 \<Rightarrow> u32 \<Rightarrow> (int \<times> btf) option" where
  "btf__add_field al b name type_id bit_off0 bit_size =
     (if nr_types (own b) = 0 then inval b
      else do {
        t \<leftarrow> btf_last_type b;
        let is_bitfield = (bit_size \<noteq> 0 \<or> bit_off0 mod 8 \<noteq> 0) in
        if \<not> btf_is_composite t then inval b
        else if \<not> validate_type_id type_id then inval b
        else if is_bitfield \<and> (bit_size = 0 \<or> bit_size > 255 \<or> bit_off0 > 0xffffff) then inval b
        else if btf_is_union t \<and> bit_off0 \<noteq> 0 then inval b
        else append_elem al b name (\<lambda>n. [n, word_of_int type_id, bit_off0 OR push_bit 24 bit_size])
          (\<lambda>t. btf_type_info (btf_kind t) (btf_vlen t + 1) (is_bitfield \<or> btf_kflag t)) })"

definition btf_add_enum_common :: "(nat \<Rightarrow> build_allocs) \<Rightarrow> btf \<Rightarrow> string nullable \<Rightarrow> u32 \<Rightarrow> bool \<Rightarrow> nat \<Rightarrow> (int \<times> btf) option" where
  "btf_add_enum_common al b name byte_sz is_signed kind =
     (if byte_sz = 0 \<or> byte_sz AND (byte_sz - 1) \<noteq> 0 \<or> byte_sz > 8 then inval b
      else append_type al b name (mk_type kind 0 is_signed byte_sz []))"

definition btf__add_enum :: "(nat \<Rightarrow> build_allocs) \<Rightarrow> btf \<Rightarrow> string nullable \<Rightarrow> u32 \<Rightarrow> (int \<times> btf) option" where
  "btf__add_enum al b name byte_sz = btf_add_enum_common al b name byte_sz False BTF_KIND_ENUM"

definition btf__add_enum_value :: "(nat \<Rightarrow> build_allocs) \<Rightarrow> btf \<Rightarrow> string nullable \<Rightarrow> int \<Rightarrow> (int \<times> btf) option" where
  "btf__add_enum_value al b name val0 =
     (if nr_types (own b) = 0 then inval b
      else do {
        t \<leftarrow> btf_last_type b;
        if \<not> btf_is_enum t then inval b
        else if no_name name then inval b
        else if val0 < - (2 ^ 31) \<or> val0 > int UINT_MAX then Some (- E2BIG, b)
        else append_elem al b name (\<lambda>n. [n, word_of_int val0])
          (\<lambda>t. if val0 < 0 then btf_type_info (btf_kind (t\<lparr>info := btf_type_inc_vlen t\<rparr>)) (btf_vlen (t\<lparr>info := btf_type_inc_vlen t\<rparr>)) True
                else btf_type_inc_vlen t) })"

definition btf__add_enum64 :: "(nat \<Rightarrow> build_allocs) \<Rightarrow> btf \<Rightarrow> string nullable \<Rightarrow> u32 \<Rightarrow> bool \<Rightarrow> (int \<times> btf) option" where
  "btf__add_enum64 al b name byte_sz is_signed = btf_add_enum_common al b name byte_sz is_signed BTF_KIND_ENUM64"

definition btf__add_enum64_value :: "(nat \<Rightarrow> build_allocs) \<Rightarrow> btf \<Rightarrow> string nullable \<Rightarrow> u64 \<Rightarrow> (int \<times> btf) option" where
  "btf__add_enum64_value al b name val0 =
     (if nr_types (own b) = 0 then inval b
      else do {
        t \<leftarrow> btf_last_type b;
        if \<not> btf_is_enum64 t then inval b
        else if no_name name then inval b
        else append_elem al b name (\<lambda>n. [n, ucast val0, ucast (drop_bit 32 val0)]) btf_type_inc_vlen })"

abbreviation (input) BTF_FWD_STRUCT :: nat where "BTF_FWD_STRUCT \<equiv> 0"
abbreviation (input) BTF_FWD_UNION :: nat where "BTF_FWD_UNION \<equiv> 1"
abbreviation (input) BTF_FWD_ENUM :: nat where "BTF_FWD_ENUM \<equiv> 2"

text \<open>\<^verbatim>\<open>btf__add_fwd\<close> and \<^verbatim>\<open>btf__add_func\<close> change the new type once more.\<close>

definition then_info :: "(int \<times> btf) option \<Rightarrow> u32 \<Rightarrow> (int \<times> btf) option" where
  "then_info r ninfo = do { (i, b) \<leftarrow> r; if i \<le> 0 then Some (i, b) else do { b1 \<leftarrow> set_info b (nat i) ninfo; Some (i, b1) } }"

definition btf__add_fwd :: "(nat \<Rightarrow> build_allocs) \<Rightarrow> btf \<Rightarrow> string nullable \<Rightarrow> nat \<Rightarrow> (int \<times> btf) option" where
  "btf__add_fwd al b name fwd_kind =
     (if no_name name then inval b
      else if fwd_kind \<in> {BTF_FWD_STRUCT, BTF_FWD_UNION}
      then then_info (btf_add_ref_kind al b BTF_KIND_FWD name 0) (btf_type_info BTF_KIND_FWD 0 (fwd_kind = BTF_FWD_UNION))
      else if fwd_kind = BTF_FWD_ENUM then btf__add_enum al b name 4
      else inval b)"

definition btf__add_typedef :: "(nat \<Rightarrow> build_allocs) \<Rightarrow> btf \<Rightarrow> string nullable \<Rightarrow> int \<Rightarrow> (int \<times> btf) option" where
  "btf__add_typedef al b name ref_type_id = (if no_name name then inval b else btf_add_ref_kind al b BTF_KIND_TYPEDEF name ref_type_id)"

definition btf__add_volatile :: "(nat \<Rightarrow> build_allocs) \<Rightarrow> btf \<Rightarrow> int \<Rightarrow> (int \<times> btf) option" where
  "btf__add_volatile al b ref_type_id = btf_add_ref_kind al b BTF_KIND_VOLATILE Null ref_type_id"

definition btf__add_const :: "(nat \<Rightarrow> build_allocs) \<Rightarrow> btf \<Rightarrow> int \<Rightarrow> (int \<times> btf) option" where
  "btf__add_const al b ref_type_id = btf_add_ref_kind al b BTF_KIND_CONST Null ref_type_id"

definition btf__add_restrict :: "(nat \<Rightarrow> build_allocs) \<Rightarrow> btf \<Rightarrow> int \<Rightarrow> (int \<times> btf) option" where
  "btf__add_restrict al b ref_type_id = btf_add_ref_kind al b BTF_KIND_RESTRICT Null ref_type_id"

definition btf__add_type_tag :: "(nat \<Rightarrow> build_allocs) \<Rightarrow> btf \<Rightarrow> string nullable \<Rightarrow> int \<Rightarrow> (int \<times> btf) option" where
  "btf__add_type_tag al b val0 ref_type_id = (if no_name val0 then inval b else btf_add_ref_kind al b BTF_KIND_TYPE_TAG val0 ref_type_id)"

definition btf__add_func :: "(nat \<Rightarrow> build_allocs) \<Rightarrow> btf \<Rightarrow> string nullable \<Rightarrow> nat \<Rightarrow> int \<Rightarrow> (int \<times> btf) option" where
  "btf__add_func al b name linkage proto_type_id =
     (if no_name name then inval b
      else if linkage \<notin> {0, 1, 2} then inval b
      else then_info (btf_add_ref_kind al b BTF_KIND_FUNC name proto_type_id) (btf_type_info BTF_KIND_FUNC linkage False))"

definition btf__add_func_proto :: "(nat \<Rightarrow> build_allocs) \<Rightarrow> btf \<Rightarrow> int \<Rightarrow> (int \<times> btf) option" where
  "btf__add_func_proto al b ret_type_id =
     (if \<not> validate_type_id ret_type_id then inval b
      else append_type al b Null (mk_type BTF_KIND_FUNC_PROTO 0 False (word_of_int ret_type_id) []))"

definition btf__add_func_param :: "(nat \<Rightarrow> build_allocs) \<Rightarrow> btf \<Rightarrow> string nullable \<Rightarrow> int \<Rightarrow> (int \<times> btf) option" where
  "btf__add_func_param al b name type_id =
     (if \<not> validate_type_id type_id then inval b
      else if nr_types (own b) = 0 then inval b
      else do {
        t \<leftarrow> btf_last_type b;
        if \<not> btf_is_func_proto t then inval b
        else append_elem al b name (\<lambda>n. [n, word_of_int type_id]) btf_type_inc_vlen })"

definition btf__add_var :: "(nat \<Rightarrow> build_allocs) \<Rightarrow> btf \<Rightarrow> string nullable \<Rightarrow> nat \<Rightarrow> int \<Rightarrow> (int \<times> btf) option" where
  "btf__add_var al b name linkage type_id =
     (if no_name name then inval b
      else if linkage \<notin> {0, 1, 2} then inval b
      else if \<not> validate_type_id type_id then inval b
      else append_type al b name (mk_type BTF_KIND_VAR 0 False (word_of_int type_id) [word_of_nat linkage]))"

definition btf__add_datasec :: "(nat \<Rightarrow> build_allocs) \<Rightarrow> btf \<Rightarrow> string nullable \<Rightarrow> u32 \<Rightarrow> (int \<times> btf) option" where
  "btf__add_datasec al b name byte_sz = (if no_name name then inval b else append_type al b name (mk_type BTF_KIND_DATASEC 0 False byte_sz []))"

definition btf__add_datasec_var_info :: "(nat \<Rightarrow> build_allocs) \<Rightarrow> btf \<Rightarrow> int \<Rightarrow> u32 \<Rightarrow> u32 \<Rightarrow> (int \<times> btf) option" where
  "btf__add_datasec_var_info al b var_type_id offset byte_sz =
     (if nr_types (own b) = 0 then inval b
      else do {
        t \<leftarrow> btf_last_type b;
        if \<not> btf_is_datasec t then inval b
        else if \<not> validate_type_id var_type_id then inval b
        else append_elem al b Null (\<lambda>n. [word_of_int var_type_id, offset, byte_sz]) btf_type_inc_vlen })"

definition btf__add_decl_tag :: "(nat \<Rightarrow> build_allocs) \<Rightarrow> btf \<Rightarrow> string nullable \<Rightarrow> int \<Rightarrow> int \<Rightarrow> (int \<times> btf) option" where
  "btf__add_decl_tag al b val0 ref_type_id component_idx =
     (if no_name val0 \<or> component_idx < - 1 then inval b
      else if \<not> validate_type_id ref_type_id then inval b
      else append_type al b val0 (mk_type BTF_KIND_DECL_TAG 0 False (word_of_int ref_type_id) [word_of_int component_idx]))"

end
