(* ===== verification/Btf_Build_Props.thy ===== *)
theory Btf_Build_Props
  imports Btf_Build
begin

text \<open>
  What building BTF means. An abstract type has its names as strings; \<open>conc\<close> is the type in memory for given offsets of the strings. The abstract
  state is the list of abstract types, and \<open>bspec\<close> says what each function of the interface does to it. Every sequence of calls refines it,
  whichever allocations fail, and what was built is read back by \<^verbatim>\<open>btf_new\<close> from the raw data.
\<close>

section \<open>Abstract types\<close>

record atype =
  at_name :: string
  at_kind :: nat
  at_vlen :: nat
  at_kflag :: bool
  at_size :: u32
  at_fixed :: "u32 list"
  at_elems :: "(string option \<times> u32 list) list"

definition nm :: "(string \<Rightarrow> u32) \<Rightarrow> string \<Rightarrow> u32" where
  "nm f s = (if s = [] then 0 else f s)"

definition elem_words :: "(string \<Rightarrow> u32) \<Rightarrow> string option \<times> u32 list \<Rightarrow> u32 list" where
  "elem_words f e = (case fst e of None \<Rightarrow> snd e | Some n \<Rightarrow> nm f n # snd e)"

definition conc :: "(string \<Rightarrow> u32) \<Rightarrow> atype \<Rightarrow> btf_type" where
  "conc f a = \<lparr>name_off = nm f (at_name a), info = btf_type_info (at_kind a) (at_vlen a) (at_kflag a), size_type = at_size a,
     tail = at_fixed a @ concat (map (elem_words f) (at_elems a))\<rparr>"

definition at_names :: "atype \<Rightarrow> string set" where
  "at_names a = insert (at_name a) {n. Some n \<in> fst ` set (at_elems a)} - {[]}"

definition at_ok :: "atype \<Rightarrow> bool" where
  "at_ok a \<longleftrightarrow> type_ok (conc (\<lambda>_. 0) a) \<and> at_kind a < 32 \<and> at_vlen a < 65536"

lemma conc_cong: "(\<And>n. n \<in> at_names a \<Longrightarrow> f n = g n) \<Longrightarrow> conc f a = conc g a"
proof -
  assume h: "\<And>n. n \<in> at_names a \<Longrightarrow> f n = g n"
  have "nm f (at_name a) = nm g (at_name a)" using h by (simp add: nm_def at_names_def)
  moreover have "elem_words f e = elem_words g e" if "e \<in> set (at_elems a)" for e
  proof -
    have "\<forall>n. fst e = Some n \<longrightarrow> n \<noteq> [] \<longrightarrow> n \<in> at_names a" using that by (force simp: at_names_def)
    then show ?thesis using h by (auto simp: elem_words_def nm_def split: option.split)
  qed
  ultimately show ?thesis by (simp add: conc_def cong: map_cong)
qed

lemma conc_length: "length (tail (conc f a)) = length (tail (conc g a))"
proof -
  have "length (elem_words f e) = length (elem_words g e)" for e by (simp add: elem_words_def split: option.split)
  then show ?thesis by (simp add: conc_def length_concat comp_def)
qed

lemma conc_ok: "at_ok a \<Longrightarrow> type_ok (conc f a)"
proof -
  assume "at_ok a"
  then have "btf_type_size (conc (\<lambda>_. 0) a) = int (12 + 4 * length (tail (conc f a)))" by (simp add: at_ok_def type_ok_def conc_length [of f a "\<lambda>_. 0"])
  moreover have "btf_type_size (conc f a) = btf_type_size (conc (\<lambda>_. 0) a)"
    by (simp add: btf_type_size_def btf_kind_def btf_vlen_def conc_def)
  ultimately show ?thesis by (simp add: type_ok_def)
qed

text \<open>The fields of \<^verbatim>\<open>info\<close>.\<close>

lemma info_fields:
  assumes "k < 32" "v < 65536"
  shows "BTF_INFO_KIND (btf_type_info k v kf) = word_of_nat k" "BTF_INFO_VLEN (btf_type_info k v kf) = word_of_nat v" "BTF_INFO_KFLAG (btf_type_info k v kf) = of_bool kf"
proof -
  define K V :: u32 where "K = word_of_nat k" and "V = word_of_nat v"
  have kv: "take_bit 5 K = K" "take_bit 16 V = V"
    using assms by (simp_all add: K_def V_def take_bit_of_nat take_bit_nat_eq_self)
  have bK: "bit K n \<Longrightarrow> n < 5" and bV: "bit V n \<Longrightarrow> n < 16" for n
    using kv by (metis bit_take_bit_iff)+
  have bt: "bit (btf_type_info k v kf) n \<longleftrightarrow> n = 31 \<and> kf \<or> 24 \<le> n \<and> n < 32 \<and> bit K (n - 24) \<or> bit V n" for n
    by (auto simp: btf_type_info_def bit_or_iff bit_push_bit_iff K_def V_def bit_of_bool_iff)
  have m: "0x1f = (mask 5 :: u32)" "0xffff = (mask 16 :: u32)" by (simp_all add: mask_eq_exp_minus_1)
  show "BTF_INFO_KIND (btf_type_info k v kf) = word_of_nat k"
    unfolding BTF_INFO_KIND_def m K_def [symmetric]
    by (rule bit_word_eqI) (use bK bV in \<open>force simp: bit_and_iff bit_mask_iff bit_drop_bit_eq bt\<close>)
  show "BTF_INFO_VLEN (btf_type_info k v kf) = word_of_nat v"
    unfolding BTF_INFO_VLEN_def m V_def [symmetric]
    by (rule bit_word_eqI) (use bK bV in \<open>force simp: bit_and_iff bit_mask_iff bt\<close>)
  show "BTF_INFO_KFLAG (btf_type_info k v kf) = of_bool kf"
    unfolding BTF_INFO_KFLAG_def
    by (rule bit_word_eqI) (use bK bV in \<open>force simp: bit_drop_bit_eq bt bit_of_bool_iff\<close>)
qed

lemma conc_fields:
  assumes "at_ok a"
  shows "btf_kind (conc f a) = at_kind a" "btf_vlen (conc f a) = at_vlen a" "btf_kflag (conc f a) = at_kflag a"
  using assms info_fields [of "at_kind a" "at_vlen a" "at_kflag a"]
  by (simp_all add: at_ok_def btf_kind_def btf_vlen_def btf_kflag_def conc_def unsigned_of_nat take_bit_nat_eq_self)

section \<open>States of a build\<close>

definition str_off :: "strset \<Rightarrow> string \<Rightarrow> u32" where
  "str_off ss s = (case offset_of ss s of None \<Rightarrow> 0 | Some off \<Rightarrow> word_of_nat off)"

definition cts :: "strset \<Rightarrow> atype list \<Rightarrow> btf_type list" where
  "cts ss ats = map (conc (str_off ss)) ats"

text \<open>BTF that has been modified, with the strings \<open>ss\<close> and the types \<open>ats\<close>.\<close>

definition built :: "btf_data \<Rightarrow> strset \<Rightarrow> atype list \<Rightarrow> bool" where
  "built d ss ats \<longleftrightarrow>
     modifiable d \<and> strs_data d = None \<and> strs_set d = Some ss \<and> strset_inv ss \<and>
     hdr d = image_hdr 1 0 (length (types_bytes (cts ss ats))) (length (visible ss)) \<and> hdr_rest d = [] \<and>
     length (types_data d) \<le> UINT_MAX \<and> types_in d (cts ss ats) \<and> list_all at_ok ats \<and>
     (\<forall>a \<in> set ats. \<forall>n \<in> at_names a. offset_of ss n \<noteq> None) \<and>
     start_id d = 1 \<and> start_str_off d = 0 \<and> raw_data d = None \<and> raw_data_swapped d = None \<and> visible ss \<noteq> [] \<and> hd (visible ss) = NUL"

definition bsim :: "btf \<Rightarrow> atype list \<Rightarrow> bool" where
  "bsim b ats \<longleftrightarrow> btf_new_empty True True None = Inr b \<and> ats = [] \<or> (\<exists>d ss. b = Btf None d \<and> built d ss ats)"

lemma strset_len: "strset_inv ss \<Longrightarrow> length (visible ss) = strs_data_len ss \<and> strs_data_len ss < 2 ^ 31"
  by (auto simp: strset_inv_def visible_def)

lemma built_len:
  assumes "built d ss ats"
  shows "length (types_bytes (cts ss ats)) \<le> length (types_data d)" "length (types_bytes (cts ss ats)) < 2 ^ 32"
    "unat (h_type_len (hdr d)) = length (types_bytes (cts ss ats))" "nr_types d = length ats"
proof -
  define L where "L = unat (h_type_len (hdr d))"
  have t: "L \<le> length (types_data d)" "take L (types_data d) = types_bytes (cts ss ats)"
    using assms unfolding built_def types_in_def L_def by blast+
  have "length (types_bytes (cts ss ats)) = L" by (metis length_take min.absorb2 t)
  then show "length (types_bytes (cts ss ats)) \<le> length (types_data d)" "length (types_bytes (cts ss ats)) < 2 ^ 32"
    "unat (h_type_len (hdr d)) = length (types_bytes (cts ss ats))"
    using t(1) unsigned_less [of "h_type_len (hdr d)", where ?'a = nat] by (simp_all add: L_def)
  show "nr_types d = length ats" using assms by (simp add: built_def types_in_def cts_def)
qed

text \<open>More strings do not change the types that are there.\<close>

lemma cts_grow:
  assumes "\<forall>a \<in> set ats. \<forall>n \<in> at_names a. offset_of ss n \<noteq> None" "\<And>n off. offset_of ss n = Some off \<Longrightarrow> offset_of ss' n = Some off"
  shows "cts ss' ats = cts ss ats" "\<forall>a \<in> set ats. \<forall>n \<in> at_names a. offset_of ss' n \<noteq> None"
proof -
  have e: "offset_of ss' n = offset_of ss n" if "a \<in> set ats" "n \<in> at_names a" for a n
    using assms that by (metis not_None_eq)
  show "cts ss' ats = cts ss ats"
    unfolding cts_def by (rule map_cong [OF refl], rule conc_cong) (simp add: str_off_def e)
  show "\<forall>a \<in> set ats. \<forall>n \<in> at_names a. offset_of ss' n \<noteq> None" using e assms(1) by metis
qed

text \<open>Data behind the types and the size of the buffer do not matter.\<close>

lemma built_data:
  assumes b: "built d ss ats" and m: "take (length (types_bytes (cts ss ats))) m = types_bytes (cts ss ats)" "length m \<le> UINT_MAX"
  shows "built (d\<lparr>types_data := m\<rparr>) ss ats"
proof -
  have "length (types_bytes (cts ss ats)) \<le> length m" using arg_cong [OF m(1), of length] by simp
  then show ?thesis using b m built_len(3) [OF b] by (auto simp: built_def types_in_def)
qed

lemma ensure_ok:
  assumes s: "bsim b ats" and c: "calloc_bounded (al_calloc al)"
  obtains err d1 where "btf_ensure_modifiable al False (own b) = Some (err, d1)" "base_btf b = None"
    "err = 0 \<and> (\<exists>ss. built d1 ss ats) \<or> err \<noteq> 0 \<and> bsim (Btf None d1) ats"
proof (cases "\<exists>d ss. b = Btf None d \<and> built d ss ats")
  case True
  then obtain d ss where d: "b = Btf None d" "built d ss ats" by blast
  have m: "modifiable d" "take (length (types_bytes (cts ss ats))) (types_data d) = types_bytes (cts ss ats)" "length (types_data d) \<le> UINT_MAX"
    using d(2) built_len [OF d(2)] by (simp_all add: built_def types_in_def)
  have "btf_invalidate_raw_data d = d" using d(2) by (simp add: built_def btf_invalidate_raw_data_def)
  then show ?thesis using that [of 0 d] d m(1) by (auto simp: btf_ensure_modifiable_def)
next
  case False
  then have f: "btf_new_empty True True None = Inr b" "ats = []" using s by (auto simp: bsim_def)
  define d where "d = own b"
  have b: "b = Btf None d" and d: "\<not> modifiable d" "unat (h_hdr_len (hdr d)) = 24" "unat (h_type_len (hdr d)) = 0" "strs_data d = Some [NUL]"
      "unat (h_str_len (hdr d)) = 1" "hdr d = image_hdr 1 0 0 1" "hdr_rest d = []" "nr_types d = 0" "start_id d = 1" "start_str_off d = 0"
    using f(1) by (auto simp: btf_new_empty_def d_def Let_def image_hdr_def BTF_VERSION_def)
  show ?thesis
  proof (cases "al_hdr al \<and> al_types al")
    case al: True
    let ?n = "strset__new (al_set al) (al_new al) (al_data al) (al_calloc al) (al_init al) BTF_MAX_STR_OFFSET (Some [NUL])"
    show ?thesis
    proof (cases ?n)
      case (Inl e)
      then have "e \<noteq> 0" using strset_new_error [OF Inl _ c] by (simp add: ENOMEM_def)
      then show ?thesis using that [of e d] Inl al d s b by (simp add: btf_ensure_modifiable_def ldn_def)
    next
      case (Inr ss)
      have "ss_sim ss (offset_of ss, [NUL])"
        using strset_new_ok [OF Inr _ c] by (simp add: BTF_MAX_STR_OFFSET_def)
      then have ss: "strset_inv ss" "visible ss = [NUL]" by (simp_all add: ss_sim_def)
      define d1 where "d1 = btf_invalidate_raw_data (d\<lparr>modifiable := True, types_data := [], strs_data := None, strs_set := Some ss, strs_deduped := True\<rparr>)"
      have "built d1 ss []"
        using ss d by (simp add: built_def d1_def btf_invalidate_raw_data_def types_in_def cts_def)
      moreover have "btf_ensure_modifiable al False d = Some (0, d1)" using Inr al d by (simp add: btf_ensure_modifiable_def ldn_def d1_def)
      ultimately show ?thesis using that [of 0 d1] b f(2) by auto
    qed
  next
    case al: False
    then have "btf_ensure_modifiable al False d = Some (- ENOMEM, d)" using d(1) by (auto simp: btf_ensure_modifiable_def)
    then show ?thesis using that [of "- ENOMEM" d] b s by (simp add: ENOMEM_def)
  qed
qed

section \<open>Appending\<close>

lemma add_str_ok:
  assumes b: "built d ss ats" and s: "NUL \<notin> set s" and c: "calloc_bounded (al_calloc (al 0))"
  obtains r ss' h where "btf__add_str al (Btf None d) s = Some (r, Btf None (d\<lparr>strs_set := Some ss', hdr := hdr d\<lparr>h_str_len := h\<rparr>\<rparr>))"
    "built (d\<lparr>strs_set := Some ss', hdr := hdr d\<lparr>h_str_len := h\<rparr>\<rparr>) ss' ats"
    "cts ss' ats = cts ss ats"
    "r = - ENOMEM \<or> (\<exists>off. offset_of ss' s = Some off \<and> r = int off)"
    "\<And>n k. offset_of ss n = Some k \<Longrightarrow> offset_of ss' n = Some k" "offset_of ss s \<noteq> None \<Longrightarrow> h = h_str_len (hdr d)"
proof -
  note bd = b [unfolded built_def]
  have i: "strset_inv ss" and ss: "strs_set d = Some ss" and m: "btf_ensure_modifiable (al 0) False d = Some (0, d)"
    using bd by (simp_all add: btf_ensure_modifiable_def btf_invalidate_raw_data_def)
  obtain off ss' where f: "strset__add_str (al_strs (al 0)) (al_calloc (al 0)) (al_entry (al 0)) ss s = (off, ss')" by fastforce
  note o = add_str_outcome [OF i s c f]
  have i': "strset_inv ss'" using o by blast
  have len: "length (visible ss') = strs_data_len ss'" "length (visible ss') < 2 ^ 31" "length (visible ss) < 2 ^ 31"
    using strset_len [OF i'] strset_len [OF i] by simp_all
  have mono: "offset_of ss' n = Some k" if "offset_of ss n = Some k" for n k using o that by auto
  have vis: "visible ss' \<noteq> []" "hd (visible ss') = NUL" using o bd by auto
  note g = cts_grow [OF _ mono, of ats]
  have cs: "cts ss' ats = cts ss ats" and nn: "\<forall>a \<in> set ats. \<forall>n \<in> at_names a. offset_of ss' n \<noteq> None" using g bd by blast+
  define h :: u32 where "h = word_of_nat (length (visible ss'))"
  have b': "built (d\<lparr>strs_set := Some ss', hdr := hdr d\<lparr>h_str_len := h\<rparr>\<rparr>) ss' ats"
  proof -
    have "types_in d (cts ss ats)" using bd by blast
    then have "types_in (d\<lparr>strs_set := Some ss', hdr := hdr d\<lparr>h_str_len := h\<rparr>\<rparr>) (cts ss ats)" by (simp add: types_in_def)
    moreover have "hdr d\<lparr>h_str_len := h\<rparr> = image_hdr 1 0 (length (types_bytes (cts ss ats))) (length (visible ss'))" using bd by (simp add: image_hdr_def h_def)
    ultimately show ?thesis using bd i' vis cs nn unfolding built_def by simp
  qed
  have r: "off = - ENOMEM \<or> (\<exists>k. offset_of ss' s = Some k \<and> off = int k \<and> k < 2 ^ 31)"
  proof -
    have "k < 2 ^ 31" if "offset_of ss s = Some k" for k
      using that offset_of_Some [OF i, of s k] i by (auto simp: strset_inv_def)
    then show ?thesis using o len(3) by auto
  qed
  have add: "c_add 0 (int k) = int k" if "k < 2 ^ 31" for k
    using that by (simp add: c_add_def signed_of_nat signed_take_bit_int_eq_self)
  have st: "start_str_off d = 0" using bd by blast
  have same: "h = h_str_len (hdr d)" if "offset_of ss s \<noteq> None"
    using that o bd by (auto simp: h_def image_hdr_def)
  show ?thesis
  proof (cases "off < 0")
    case True
    then have "off = - ENOMEM" "visible ss' = visible ss" using r o by (auto simp: ENOMEM_def)
    then have "hdr d\<lparr>h_str_len := h\<rparr> = hdr d" using bd by (simp add: h_def image_hdr_def)
    then have "d\<lparr>strs_set := Some ss', hdr := hdr d\<lparr>h_str_len := h\<rparr>\<rparr> = d\<lparr>strs_set := Some ss'\<rparr>" by simp
    then show ?thesis using that [OF _ b' cs _ mono same, of off] m f ss True r by (simp add: btf__add_str_def ENOENT_def)
  next
    case False
    then obtain k where k: "offset_of ss' s = Some k" "off = int k" "k < 2 ^ 31" using r by (auto simp: ENOMEM_def)
    then show ?thesis using that [OF _ b' cs _ mono same, of off] m f ss st add [OF k(3)]
      by (simp add: btf__add_str_def ENOENT_def strset__data_size_def h_def len)
  qed
qed

definition nstr :: "string nullable \<Rightarrow> string" where
  "nstr n = (case n of Null \<Rightarrow> [] | Ref s \<Rightarrow> s)"

text \<open>After \<open>open_append\<close> there is room behind the types, and the name is known.\<close>

definition opened :: "btf \<Rightarrow> string \<Rightarrow> nat \<Rightarrow> int \<Rightarrow> strset \<Rightarrow> atype list \<Rightarrow> bool" where
  "opened b s sz0 r ss ats \<longleftrightarrow> base_btf b = None \<and> built (own b) ss ats \<and> 0 \<le> r \<and> word_of_int r = nm (str_off ss) s \<and>
     length (types_bytes (cts ss ats)) + sz0 \<le> length (types_data (own b)) \<and> (s \<noteq> [] \<longrightarrow> offset_of ss s \<noteq> None)"

lemma open_append_ok:
  assumes s: "bsim b ats" and c: "calloc_bounded (al_calloc (al 0))" and n: "NUL \<notin> set (nstr name)"
  obtains r b1 where "open_append al b name sz0 = Some (r, b1)" "r = - ENOMEM \<and> bsim b1 ats \<or> (\<exists>ss. opened b1 (nstr name) sz0 r ss ats)"
proof -
  obtain err d1 where e: "btf_ensure_modifiable (al 0) False (own b) = Some (err, d1)" "base_btf b = None"
    "err = 0 \<and> (\<exists>ss. built d1 ss ats) \<or> err \<noteq> 0 \<and> bsim (Btf None d1) ats"
    by (rule ensure_ok [OF s c])
  show ?thesis
  proof (cases "err = 0")
    case True
    then obtain ss where b1: "built d1 ss ats" using e(3) by blast
    note len = built_len [OF b1]
    show ?thesis
    proof (cases "btf_add_type_mem (al 0) d1 sz0")
      case None
      then show ?thesis using that [of "- ENOMEM" "Btf None d1"] e True b1 by (auto simp: open_append_def bsim_def)
    next
      case (Some m)
      note f = add_mem_facts [OF Some [unfolded btf_add_type_mem_def]]
      have m: "take (length (types_bytes (cts ss ats))) m = types_bytes (cts ss ats)" "length m \<le> UINT_MAX"
      proof -
        have "take (length (types_bytes (cts ss ats))) (types_data d1) = types_bytes (cts ss ats)"
          using b1 len by (simp add: built_def types_in_def)
        then show "take (length (types_bytes (cts ss ats))) m = types_bytes (cts ss ats)" using f(2) len(1) by (metis min.absorb1 take_take)
        show "length m \<le> UINT_MAX" using f(3) b1 by (auto simp: built_def)
      qed
      note b2 = built_data [OF b1 m]
      have room: "length (types_bytes (cts ss ats)) + sz0 \<le> length m" using f(1) len by simp
      show ?thesis
      proof (cases "nstr name = []")
        case nn: True
        then have "open_append al b name sz0 = Some (0, Btf None (d1\<lparr>types_data := m\<rparr>))"
          using e True Some by (auto simp: open_append_def nstr_def split: nullable.splits)
        then show ?thesis using that b2 room nn by (auto simp: opened_def nm_def)
      next
        case nn: False
        obtain r ss' h where a: "btf__add_str al (Btf None (d1\<lparr>types_data := m\<rparr>)) (nstr name) =
            Some (r, Btf None (d1\<lparr>types_data := m, strs_set := Some ss', hdr := hdr d1\<lparr>h_str_len := h\<rparr>\<rparr>))"
          "built (d1\<lparr>types_data := m, strs_set := Some ss', hdr := hdr d1\<lparr>h_str_len := h\<rparr>\<rparr>) ss' ats"
          "cts ss' ats = cts ss ats" "r = - ENOMEM \<or> (\<exists>off. offset_of ss' (nstr name) = Some off \<and> r = int off)"
          by (rule add_str_ok [where al = al, OF b2 n c]) auto
        have "open_append al b name sz0 = btf__add_str al (Btf None (d1\<lparr>types_data := m\<rparr>)) (nstr name)"
          using e True Some nn by (auto simp: open_append_def nstr_def split: nullable.splits)
        then show ?thesis
          by (intro that) (use a room nn in \<open>auto simp: opened_def nm_def str_off_def bsim_def\<close>)
      qed
    qed
  next
    case False
    then show ?thesis using that [of "- ENOMEM" "Btf None d1"] e by (simp add: open_append_def)
  qed
qed

lemma indexes_snoc:
  "indexes offs k ts \<Longrightarrow> o1 = word_of_nat (k + length (types_bytes ts)) \<Longrightarrow> indexes (offs @ [o1]) k (ts @ [t])"
proof (induction ts arbitrary: offs k)
  case (Cons u us)
  then obtain os where os: "offs = word_of_nat k # os" "indexes os (k + length (type_bytes u)) us" by (cases offs) auto
  then show ?case using Cons.IH [OF os(2)] Cons.prems(2) by (simp add: add.assoc)
qed simp

text \<open>Storing behind the types.\<close>

lemma opened_store:
  assumes o: "opened b s sz0 r ss ats" and l: "length bs = sz0"
  obtains R where "stn (types_data (own b)) (unat (h_type_len (hdr (own b)))) bs = Some (types_bytes (cts ss ats) @ bs @ R)"
    "built ((own b)\<lparr>types_data := types_bytes (cts ss ats) @ bs @ R\<rparr>) ss ats"
proof -
  define T m where "T = types_bytes (cts ss ats)" and "m = types_data (own b)"
  have b: "built (own b) ss ats" and room: "length T + sz0 \<le> length m" using o by (simp_all add: opened_def T_def m_def)
  note len = built_len [OF b]
  have t: "take (length T) m = T" "length m \<le> UINT_MAX" using b len by (simp_all add: built_def types_in_def T_def m_def)
  have s: "stn m (length T) bs = Some (T @ bs @ drop (length T + sz0) m)" using room l t(1) by (simp add: stn_def patch_def)
  have n: "length (T @ bs @ drop (length T + sz0) m) \<le> UINT_MAX" using room l t(2) by simp
  have "built ((own b)\<lparr>types_data := T @ bs @ drop (length T + sz0) m\<rparr>) ss ats"
    by (rule built_data [OF b]) (use n in \<open>simp_all add: T_def\<close>)
  then show ?thesis using that s n len(3) by (simp add: T_def m_def)
qed

lemma grow_hdr_image:
  assumes "hdr d = image_hdr v f n k"
  shows "hdr (grow_hdr sz0 d) = image_hdr v f (n + sz0) k"
  using assms by (simp add: grow_hdr_def image_hdr_def)

lemma image_hdr_len: "n < 2 ^ 32 \<Longrightarrow> unat (h_type_len (image_hdr v f n k)) = n"
  by (simp add: image_hdr_def unsigned_of_nat take_bit_nat_eq_self)

lemma commit_ok:
  assumes bd: "built d ss ats" and td: "types_data d = types_bytes (cts ss ats) @ type_bytes (conc (str_off ss) a) @ R"
    and a: "at_ok a" "\<forall>n \<in> at_names a. offset_of ss n \<noteq> None" and sz: "sz0 = length (type_bytes (conc (str_off ss) a))"
  obtains r b' where "btf_commit_type al (Btf None d) sz0 = (r, b')"
    "r = - ENOMEM \<and> bsim b' ats \<or> r = int (length ats + 1) \<and> bsim b' (ats @ [a])"
proof (cases "btf_add_type_idx_entry (al_offs al) (type_offs d) (nr_types d) (h_type_len (hdr d))")
  case (Inl e)
  then have "e = - ENOMEM" by (auto simp: btf_add_type_idx_entry_def split: option.splits)
  then show ?thesis using that [of e "Btf None d"] Inl bd by (auto simp: btf_commit_type_def bsim_def)
next
  case (Inr offs)
  define T B where "T = types_bytes (cts ss ats)" and "B = type_bytes (conc (str_off ss) a)"
  note bu = bd [unfolded built_def]
  have ti: "types_in d (cts ss ats)" using bu by blast
  then have ti': "list_all type_ok (cts ss ats)" "length (cts ss ats) = nr_types d" "nr_types d \<le> length (type_offs d)"
    "indexes (take (nr_types d) (type_offs d)) 0 (cts ss ats)" by (simp_all add: types_in_def)
  note f = idx_entry_facts [OF Inr ti'(3)]
  define d' where "d' = grow_hdr sz0 (d\<lparr>type_offs := offs, nr_types := nr_types d + 1\<rparr>)"
  have d': "types_data d' = T @ B @ R" "modifiable d' = modifiable d" "btf_data.strs_data d' = btf_data.strs_data d" "strs_set d' = strs_set d"
      "hdr_rest d' = hdr_rest d" "start_id d' = start_id d" "start_str_off d' = start_str_off d" "raw_data d' = raw_data d" "raw_data_swapped d' = raw_data_swapped d"
    by (simp_all add: d'_def grow_hdr_def td T_def B_def)
  have h: "hdr d' = image_hdr 1 0 (length T + sz0) (length (visible ss))"
    unfolding d'_def by (rule grow_hdr_image) (use bu in \<open>simp add: T_def\<close>)
  have sB: "length B = sz0" and mx: "length (types_data d') \<le> UINT_MAX" using sz bu by (simp_all add: B_def d'(1)) (simp add: td T_def B_def)
  have u: "unat (h_type_len (hdr d')) = length T + sz0"
    unfolding h using mx sB by (intro image_hdr_len) (simp add: UINT_MAX_def d'(1))
  have tb: "types_bytes (cts ss (ats @ [a])) = T @ B" by (simp add: cts_def T_def B_def)
  have "take (nr_types d + 1) offs = take (nr_types d) (type_offs d) @ [h_type_len (hdr d)]"
    using f by (simp add: take_Suc_conv_app_nth)
  moreover have "h_type_len (hdr d) = word_of_nat (length T)" using bu by (simp add: image_hdr_def T_def)
  ultimately have "indexes (take (nr_types d + 1) offs) 0 (cts ss (ats @ [a]))"
    using indexes_snoc [OF ti'(4)] by (simp add: cts_def T_def)
  then have "types_in d' (cts ss (ats @ [a]))"
    unfolding types_in_def u d'(1) tb using ti' f(1) conc_ok [OF a(1), of "str_off ss"] sB by (simp add: d'_def grow_hdr_def cts_def)
  then have "built d' ss (ats @ [a])" unfolding built_def tb h using bu a sB d' mx by simp
  moreover have "btf_commit_type al (Btf None d) sz0 = (int (length ats + 1), Btf None d')"
    using Inr built_len(4) [OF bd] bu by (simp add: btf_commit_type_def d'_def)
  ultimately show ?thesis using that [of "int (length ats + 1)" "Btf None d'"] by (auto simp: bsim_def)
qed

lemma append_type_ok:
  assumes s: "bsim b ats" and c: "calloc_bounded (al_calloc (al 0))" and n: "NUL \<notin> set (nstr name)"
    and a: "at_ok a" "at_name a = nstr name" "at_elems a = []" and mk: "\<And>f. mk (nm f (nstr name)) = conc f a"
  obtains r b' where "append_type al b name mk = Some (r, b')"
    "r = - ENOMEM \<and> bsim b' ats \<or> r = int (length ats + 1) \<and> bsim b' (ats @ [a])"
proof -
  define sz0 where "sz0 = length (type_bytes (mk 0))"
  have sz: "length (type_bytes (conc f a)) = sz0" for f
    using mk [of "\<lambda>_. 0"] conc_length [of f a "\<lambda>_. 0"] by (simp add: sz0_def nm_def)
  obtain r b1 where o: "open_append al b name sz0 = Some (r, b1)" "r = - ENOMEM \<and> bsim b1 ats \<or> (\<exists>ss. opened b1 (nstr name) sz0 r ss ats)"
    by (rule open_append_ok [where al = al, OF s c n])
  show ?thesis
  proof (cases "r < 0")
    case True
    then have "r = - ENOMEM \<and> bsim b1 ats" using o(2) by (auto simp: opened_def)
    then show ?thesis using that [of r b1] o(1) True by (simp add: append_type_def sz0_def)
  next
    case False
    then obtain ss where p: "opened b1 (nstr name) sz0 r ss ats" using o(2) by (auto simp: ENOMEM_def)
    define T B where "T = types_bytes (cts ss ats)" and "B = type_bytes (conc (str_off ss) a)"
    have B: "type_bytes (mk (word_of_int r)) = B" using p mk [of "str_off ss"] by (simp add: B_def opened_def)
    obtain R where R: "stn (types_data (own b1)) (unat (h_type_len (hdr (own b1)))) B = Some (T @ B @ R)"
        "built ((own b1)\<lparr>types_data := T @ B @ R\<rparr>) ss ats"
      using opened_store [OF p, of B] sz [of "str_off ss"] unfolding T_def B_def by blast
    have base: "base_btf b1 = None" and "\<forall>n \<in> at_names a. offset_of ss n \<noteq> None" using p a by (auto simp: opened_def at_names_def)
    then obtain r' b' where "btf_commit_type (al 0) (Btf None ((own b1)\<lparr>types_data := T @ B @ R\<rparr>)) sz0 = (r', b')"
        "r' = - ENOMEM \<and> bsim b' ats \<or> r' = int (length ats + 1) \<and> bsim b' (ats @ [a])"
      using commit_ok [OF R(2) _ a(1), of R sz0 "al 0"] sz [of "str_off ss"] by (auto simp: T_def B_def)
    moreover have "append_type al b name mk = Some (btf_commit_type (al 0) (Btf None ((own b1)\<lparr>types_data := T @ B @ R\<rparr>)) sz0)"
      unfolding append_type_def sz0_def [symmetric] Let_def using o(1) False R(1) base by (simp add: B)
    ultimately show ?thesis using that by simp
  qed
qed

section \<open>Extending the last type\<close>

lemma indexes_last: "indexes offs k (ts @ [t]) \<Longrightarrow> indexes offs k (ts @ [t'])"
  by (induction ts arbitrary: offs k) (auto split: list.splits)

text \<open>The memory of BTF whose last type is \<open>a\<close>.\<close>

lemma last_type_mem:
  assumes b: "built d ss (ats @ [a])"
  obtains R where "types_data d = types_bytes (cts ss ats) @ type_bytes (conc (str_off ss) a) @ R"
proof -
  have "take (length (types_bytes (cts ss (ats @ [a])))) (types_data d) = types_bytes (cts ss (ats @ [a]))"
    using b built_len(3) [OF b] by (simp add: built_def types_in_def)
  then have "types_data d = types_bytes (cts ss (ats @ [a])) @ drop (length (types_bytes (cts ss (ats @ [a])))) (types_data d)"
    by (metis append_take_drop_id)
  then show ?thesis by (intro that) (simp add: cts_def)
qed

lemma set_info_mem:
  assumes b: "built d ss (ats @ [a])" and m: "types_data d = types_bytes (cts ss ats) @ type_bytes t @ R"
  shows "set_info (Btf None d) (length ats + 1) i = Some (Btf None (d\<lparr>types_data := types_bytes (cts ss ats) @ type_bytes (t\<lparr>info := i\<rparr>) @ R\<rparr>))"
proof -
  let ?T = "types_bytes (cts ss ats)"
  have d: "start_id d = 1" "length ats < length (type_offs d)" "indexes (take (Suc (length ats)) (type_offs d)) 0 (cts ss (ats @ [a]))"
    using b built_len(4) [OF b] by (simp_all add: built_def types_in_def)
  have "type_offs d ! length ats = word_of_nat (length ?T)" using indexes_nth [OF d(3), of "length ats"] by (simp add: cts_def)
  moreover have "length ?T < 2 ^ 32" using built_len(2) [OF b] by (simp add: cts_def)
  ultimately have o: "unat (type_offs d ! length ats) = length ?T" by (simp add: unsigned_of_nat take_bit_nat_eq_self)
  have "st32 ((?T @ le32_bytes (name_off t)) @ le32_bytes (info t) @ (enc (size_type t # tail t) @ R)) (length ?T + 4) i =
      Some ((?T @ le32_bytes (name_off t)) @ le32_bytes i @ (enc (size_type t # tail t) @ R))"
    by (rule st32_mid) (simp add: le32_bytes_def)
  then have "st32 (types_data d) (length ?T + 4) i = Some (?T @ type_bytes (t\<lparr>info := i\<rparr>) @ R)"
    unfolding m by (simp add: type_bytes_def words_of_def)
  then show ?thesis using d o by (simp add: set_info_def)
qed

lemma replace_last:
  assumes b: "built d ss (ats @ [a])" and m: "length (types_bytes (cts ss ats) @ type_bytes (conc (str_off ss) a') @ R) \<le> UINT_MAX"
    and a': "at_ok a'" "\<forall>n \<in> at_names a'. offset_of ss n \<noteq> None"
    and k: "length (type_bytes (conc (str_off ss) a')) = length (type_bytes (conc (str_off ss) a)) + k"
  shows "built (grow_hdr k (d\<lparr>types_data := types_bytes (cts ss ats) @ type_bytes (conc (str_off ss) a') @ R\<rparr>)) ss (ats @ [a'])" (is "built ?d ss _")
proof -
  define T B where "T = types_bytes (cts ss ats)" and "B = type_bytes (conc (str_off ss) a')"
  note bu = b [unfolded built_def]
  have h: "hdr ?d = image_hdr 1 0 (length (T @ B)) (length (visible ss))"
  proof -
    have "hdr ?d = image_hdr 1 0 (length (types_bytes (cts ss (ats @ [a]))) + k) (length (visible ss))"
      by (rule grow_hdr_image) (use bu in simp)
    moreover have "length (types_bytes (cts ss (ats @ [a]))) + k = length (T @ B)" using k by (simp add: cts_def T_def B_def)
    ultimately show ?thesis by metis
  qed
  have "length (T @ B) < 2 ^ 32" using m by (simp add: T_def B_def UINT_MAX_def)
  then have u: "unat (h_type_len (hdr ?d)) = length (T @ B)" unfolding h by (rule image_hdr_len)
  have tb: "types_bytes (cts ss (ats @ [a'])) = T @ B" by (simp add: cts_def T_def B_def)
  have d: "types_data ?d = T @ B @ R" "nr_types ?d = nr_types d" "type_offs ?d = type_offs d" by (simp_all add: grow_hdr_def T_def B_def)
  have "types_in d (cts ss (ats @ [a]))" using bu by blast
  then have "indexes (take (nr_types d) (type_offs d)) 0 (cts ss (ats @ [a']))" "list_all type_ok (cts ss ats)"
      "nr_types d = Suc (length ats)" "nr_types d \<le> length (type_offs d)"
    using indexes_last by (auto simp: types_in_def cts_def)
  then have "types_in ?d (cts ss (ats @ [a']))"
    unfolding types_in_def u tb d using conc_ok [OF a'(1), of "str_off ss"] by (simp add: cts_def)
  moreover have "length (types_data ?d) \<le> UINT_MAX" using m unfolding d T_def B_def by simp
  ultimately show ?thesis
    unfolding built_def tb h using bu a' by (simp add: grow_hdr_def)
qed

lemma then_info_ok:
  assumes s: "bsim b (ats @ [a])" and a': "a' = a\<lparr>at_vlen := v, at_kflag := kf\<rparr>" "at_ok a'"
  obtains b' where "set_info b (length ats + 1) (btf_type_info (at_kind a) v kf) = Some b'" "bsim b' (ats @ [a'])"
proof -
  obtain d ss where d: "b = Btf None d" "built d ss (ats @ [a])" using s by (auto simp: bsim_def)
  obtain R where R: "types_data d = types_bytes (cts ss ats) @ type_bytes (conc (str_off ss) a) @ R" by (rule last_type_mem [OF d(2)])
  have c: "(conc (str_off ss) a)\<lparr>info := btf_type_info (at_kind a) v kf\<rparr> = conc (str_off ss) a'" by (simp add: conc_def a'(1))
  have l: "length (type_bytes (conc (str_off ss) a')) = length (type_bytes (conc (str_off ss) a))" by (simp add: conc_def a'(1))
  have x: "at_names a' = at_names a" by (simp add: at_names_def a'(1))
  have "built (grow_hdr 0 (d\<lparr>types_data := types_bytes (cts ss ats) @ type_bytes (conc (str_off ss) a') @ R\<rparr>)) ss (ats @ [a'])"
    by (rule replace_last [OF d(2)]) (use d(2) R l a'(2) in \<open>auto simp: x built_def\<close>)
  then show ?thesis using that set_info_mem [OF d(2) R] d(1) by (auto simp: c bsim_def grow_hdr_def)
qed

lemma last_type_built:
  assumes b: "built d ss (ats @ [a])"
  shows "btf__type_cnt (Btf None d) = length ats + 2" "btf_last_type (Btf None d) = Some (conc (str_off ss) a)"
proof -
  have n: "nr_types d = Suc (length ats)" "start_id d = 1" "types_in d (cts ss (ats @ [a]))"
    using b built_len(4) [OF b] by (simp_all add: built_def)
  show "btf__type_cnt (Btf None d) = length ats + 2" using n by (simp add: btf__type_cnt_def)
  then show "btf_last_type (Btf None d) = Some (conc (str_off ss) a)"
    using type_at_in [OF n(3), of "length ats"] n by (simp add: btf_last_type_def cts_def nth_append)
qed

lemma append_elem_ok:
  assumes s: "bsim b (ats @ [a])" and c: "calloc_bounded (al_calloc (al 0))" and n: "NUL \<notin> set (nstr name)"
    and e: "fst e = None \<or> fst e = Some (nstr name)" and mk: "\<And>f. mk (nm f (nstr name)) = elem_words f e"
    and ni: "\<And>f. ninfo (conc f a) = btf_type_info (at_kind a) v kf"
    and a': "a' = a\<lparr>at_vlen := v, at_kflag := kf, at_elems := at_elems a @ [e]\<rparr>" "at_ok a'"
  obtains r b' where "append_elem al b name mk ninfo = Some (r, b')"
    "r = - ENOMEM \<and> bsim b' (ats @ [a]) \<or> r = 0 \<and> bsim b' (ats @ [a'])"
proof -
  define sz0 where "sz0 = 4 * length (mk 0)"
  have sz: "4 * length (elem_words f e) = sz0" for f
  proof -
    have "length (elem_words f e) = length (elem_words (\<lambda>_. 0) e)" by (simp add: elem_words_def split: option.split)
    then show ?thesis using mk [of "\<lambda>_. 0"] by (simp add: sz0_def nm_def)
  qed
  obtain r b1 where o: "open_append al b name sz0 = Some (r, b1)"
      "r = - ENOMEM \<and> bsim b1 (ats @ [a]) \<or> (\<exists>ss. opened b1 (nstr name) sz0 r ss (ats @ [a]))"
    by (rule open_append_ok [where al = al, OF s c n])
  show ?thesis
  proof (cases "r < 0")
    case True
    then have "r = - ENOMEM \<and> bsim b1 (ats @ [a])" using o(2) by (auto simp: opened_def)
    then show ?thesis using that [of r b1] o(1) True by (simp add: append_elem_def sz0_def)
  next
    case False
    then obtain ss where p: "opened b1 (nstr name) sz0 r ss (ats @ [a])" using o(2) by (auto simp: ENOMEM_def)
    define f T E where "f = str_off ss" and "T = types_bytes (cts ss ats)" and "E = enc (elem_words f e)"
    have mk': "enc (mk (word_of_int r)) = E" using p mk [of f] by (simp add: E_def f_def opened_def)
    obtain R where R: "stn (types_data (own b1)) (unat (h_type_len (hdr (own b1)))) E = Some (types_bytes (cts ss (ats @ [a])) @ E @ R)"
        "built ((own b1)\<lparr>types_data := types_bytes (cts ss (ats @ [a])) @ E @ R\<rparr>) ss (ats @ [a])"
      using opened_store [OF p, of E] sz [of f] by (auto simp: E_def)
    define d where "d = (own b1)\<lparr>types_data := types_bytes (cts ss (ats @ [a])) @ E @ R\<rparr>"
    note bd = R(2) [folded d_def]
    have m: "types_data d = T @ type_bytes (conc f a) @ E @ R" by (simp add: d_def cts_def T_def f_def)
    have tb: "type_bytes ((conc f a)\<lparr>info := btf_type_info (at_kind a) v kf\<rparr>) @ E = type_bytes (conc f a')"
      by (simp add: type_bytes_def words_of_def conc_def a'(1) E_def)
    let ?d' = "d\<lparr>types_data := T @ type_bytes (conc f a') @ R\<rparr>"
    have si: "set_info (Btf None d) (length ats + 1) (btf_type_info (at_kind a) v kf) = Some (Btf None ?d')"
      using set_info_mem [OF bd, of "conc f a" "E @ R"] m tb by (simp add: T_def)
    have base: "base_btf b1 = None" and nn: "\<forall>n \<in> at_names a'. offset_of ss n \<noteq> None"
      using p e bd by (auto simp: opened_def at_names_def a'(1) built_def)
    have len: "length (type_bytes (conc f a')) = length (type_bytes (conc f a)) + sz0" using sz [of f] by (simp add: conc_def a'(1))
    have "built (grow_hdr sz0 ?d') ss (ats @ [a'])"
      unfolding T_def f_def by (rule replace_last [OF bd _ a'(2) nn len [unfolded f_def]])
        (use bd m len sz [of f] in \<open>simp add: built_def T_def f_def E_def\<close>)
    moreover have "append_elem al b name mk ninfo = Some (0, Btf None (grow_hdr sz0 ?d'))"
      unfolding append_elem_def sz0_def [symmetric] Let_def using o(1) False R(1) base last_type_built [OF bd] si ni
      by (simp add: mk' d_def [symmetric] f_def)
    ultimately show ?thesis using that by (auto simp: bsim_def)
  qed
qed

end
