(* ===== verification/Btf_Build_Spec.thy ===== *)
theory Btf_Build_Spec
  imports Btf_Build_Props
begin

text \<open>
  The interface that builds BTF as an abstract machine. Its state is the list of types with their names; \<open>bspec\<close> is what a call asks for: a refusal, a new type,
  or one more element of the last type. Any sequence of calls refines it, and what was built is read back from the raw data.
\<close>

section \<open>The specification\<close>

datatype bop =
    Add_int "string nullable" u64 u32
  | Add_float "string nullable" u64
  | Add_ptr int
  | Add_array int int u32
  | Add_struct "string nullable" u32
  | Add_union "string nullable" u32
  | Add_field "string nullable" int u32 u32
  | Add_enum "string nullable" u32
  | Add_enum_value "string nullable" int
  | Add_enum64 "string nullable" u32 bool
  | Add_enum64_value "string nullable" u64
  | Add_fwd "string nullable" nat
  | Add_typedef "string nullable" int
  | Add_volatile int
  | Add_const int
  | Add_restrict int
  | Add_type_tag "string nullable" int
  | Add_func "string nullable" nat int
  | Add_func_proto int
  | Add_func_param "string nullable" int
  | Add_var "string nullable" nat int
  | Add_datasec "string nullable" u32
  | Add_datasec_var_info int u32 u32
  | Add_decl_tag "string nullable" int int

fun bcall :: "(nat \<Rightarrow> build_allocs) \<Rightarrow> bop \<Rightarrow> btf \<Rightarrow> (int \<times> btf) option" where
  "bcall al (Add_int n bsz e) b = btf__add_int al b n bsz e"
| "bcall al (Add_float n bsz) b = btf__add_float al b n bsz"
| "bcall al (Add_ptr i) b = btf__add_ptr al b i"
| "bcall al (Add_array ix el k) b = btf__add_array al b ix el k"
| "bcall al (Add_struct n bsz) b = btf__add_struct al b n bsz"
| "bcall al (Add_union n bsz) b = btf__add_union al b n bsz"
| "bcall al (Add_field n i off bsz) b = btf__add_field al b n i off bsz"
| "bcall al (Add_enum n bsz) b = btf__add_enum al b n bsz"
| "bcall al (Add_enum_value n v) b = btf__add_enum_value al b n v"
| "bcall al (Add_enum64 n bsz sg) b = btf__add_enum64 al b n bsz sg"
| "bcall al (Add_enum64_value n v) b = btf__add_enum64_value al b n v"
| "bcall al (Add_fwd n k) b = btf__add_fwd al b n k"
| "bcall al (Add_typedef n i) b = btf__add_typedef al b n i"
| "bcall al (Add_volatile i) b = btf__add_volatile al b i"
| "bcall al (Add_const i) b = btf__add_const al b i"
| "bcall al (Add_restrict i) b = btf__add_restrict al b i"
| "bcall al (Add_type_tag n i) b = btf__add_type_tag al b n i"
| "bcall al (Add_func n l i) b = btf__add_func al b n l i"
| "bcall al (Add_func_proto i) b = btf__add_func_proto al b i"
| "bcall al (Add_func_param n i) b = btf__add_func_param al b n i"
| "bcall al (Add_var n l i) b = btf__add_var al b n l i"
| "bcall al (Add_datasec n bsz) b = btf__add_datasec al b n bsz"
| "bcall al (Add_datasec_var_info i off bsz) b = btf__add_datasec_var_info al b i off bsz"
| "bcall al (Add_decl_tag n i c) b = btf__add_decl_tag al b n i c"

fun bname :: "bop \<Rightarrow> string" where
  "bname (Add_int n bsz e) = nstr n"
| "bname (Add_float n bsz) = nstr n"
| "bname (Add_struct n bsz) = nstr n"
| "bname (Add_union n bsz) = nstr n"
| "bname (Add_field n i off bsz) = nstr n"
| "bname (Add_enum n bsz) = nstr n"
| "bname (Add_enum_value n v) = nstr n"
| "bname (Add_enum64 n bsz sg) = nstr n"
| "bname (Add_enum64_value n v) = nstr n"
| "bname (Add_fwd n k) = nstr n"
| "bname (Add_typedef n i) = nstr n"
| "bname (Add_type_tag n i) = nstr n"
| "bname (Add_func n l i) = nstr n"
| "bname (Add_func_param n i) = nstr n"
| "bname (Add_var n l i) = nstr n"
| "bname (Add_datasec n bsz) = nstr n"
| "bname (Add_decl_tag n i c) = nstr n"
| "bname _ = []"

datatype outcome = Refuse int | Append atype | Extend atype

definition plain :: "string \<Rightarrow> nat \<Rightarrow> u32 \<Rightarrow> u32 list \<Rightarrow> atype" where
  "plain s k bsz ws = \<lparr>at_name = s, at_kind = k, at_vlen = 0, at_kflag = False, at_size = bsz, at_fixed = ws, at_elems = []\<rparr>"

definition one_more :: "string option \<times> u32 list \<Rightarrow> bool \<Rightarrow> atype \<Rightarrow> atype" where
  "one_more e kf a = a\<lparr>at_vlen := at_vlen a + 1, at_kflag := at_kflag a \<or> kf, at_elems := at_elems a @ [e]\<rparr>"

definition valid :: "bool \<Rightarrow> outcome \<Rightarrow> outcome" where
  "valid ok r = (if ok then r else Refuse (- EINVAL))"

definition on_last :: "nat set \<Rightarrow> atype list \<Rightarrow> (atype \<Rightarrow> outcome) \<Rightarrow> outcome" where
  "on_last kinds ats r = valid (ats \<noteq> [] \<and> at_kind (last ats) \<in> kinds) (r (last ats))"

definition id_ok :: "int \<Rightarrow> bool" where
  "id_ok i \<longleftrightarrow> 0 \<le> i \<and> i \<le> int BTF_MAX_NR_TYPES"

fun bspec :: "bop \<Rightarrow> atype list \<Rightarrow> outcome" where
  "bspec (Add_int n bsz e) ats = valid (nstr n \<noteq> [] \<and> bsz \<in> {1, 2, 4, 8, 16} \<and> e \<le> 7) (Append (plain (nstr n) BTF_KIND_INT (ucast bsz) [push_bit 24 e OR ucast (bsz * 8)]))"
| "bspec (Add_float n bsz) ats = valid (nstr n \<noteq> [] \<and> bsz \<in> {2, 4, 8, 12, 16}) (Append (plain (nstr n) BTF_KIND_FLOAT (ucast bsz) []))"
| "bspec (Add_ptr i) ats = valid (id_ok i) (Append (plain [] BTF_KIND_PTR (word_of_int i) []))"
| "bspec (Add_array ix el k) ats = valid (id_ok ix \<and> id_ok el) (Append (plain [] BTF_KIND_ARRAY 0 [word_of_int el, word_of_int ix, k]))"
| "bspec (Add_struct n bsz) ats = Append (plain (nstr n) BTF_KIND_STRUCT bsz [])"
| "bspec (Add_union n bsz) ats = Append (plain (nstr n) BTF_KIND_UNION bsz [])"
| "bspec (Add_field n i off bsz) ats = (let bitfield = bsz \<noteq> 0 \<or> off mod 8 \<noteq> 0 in
     on_last {BTF_KIND_STRUCT, BTF_KIND_UNION} ats (\<lambda>a.
       valid (id_ok i \<and> (bitfield \<longrightarrow> bsz \<noteq> 0 \<and> bsz \<le> 255 \<and> off \<le> 0xffffff) \<and> (at_kind a = BTF_KIND_UNION \<longrightarrow> off = 0))
         (Extend (one_more (Some (nstr n), [word_of_int i, off OR push_bit 24 bsz]) bitfield a))))"
| "bspec (Add_enum n bsz) ats = valid (bsz \<in> {1, 2, 4, 8}) (Append (plain (nstr n) BTF_KIND_ENUM bsz []))"
| "bspec (Add_enum_value n v) ats = on_last {BTF_KIND_ENUM} ats (\<lambda>a. valid (nstr n \<noteq> [])
     (if - (2 ^ 31) \<le> v \<and> v < 2 ^ 32 then Extend (one_more (Some (nstr n), [word_of_int v]) (v < 0) a) else Refuse (- E2BIG)))"
| "bspec (Add_enum64 n bsz sg) ats = valid (bsz \<in> {1, 2, 4, 8}) (Append ((plain (nstr n) BTF_KIND_ENUM64 bsz [])\<lparr>at_kflag := sg\<rparr>))"
| "bspec (Add_enum64_value n v) ats = on_last {BTF_KIND_ENUM64} ats (\<lambda>a. valid (nstr n \<noteq> [])
     (Extend (one_more (Some (nstr n), [ucast v, ucast (drop_bit 32 v)]) False a)))"
| "bspec (Add_fwd n k) ats = valid (nstr n \<noteq> [] \<and> k \<le> 2)
     (Append (if k = 2 then plain (nstr n) BTF_KIND_ENUM 4 [] else (plain (nstr n) BTF_KIND_FWD 0 [])\<lparr>at_kflag := (k = 1)\<rparr>))"
| "bspec (Add_typedef n i) ats = valid (nstr n \<noteq> [] \<and> id_ok i) (Append (plain (nstr n) BTF_KIND_TYPEDEF (word_of_int i) []))"
| "bspec (Add_volatile i) ats = valid (id_ok i) (Append (plain [] BTF_KIND_VOLATILE (word_of_int i) []))"
| "bspec (Add_const i) ats = valid (id_ok i) (Append (plain [] BTF_KIND_CONST (word_of_int i) []))"
| "bspec (Add_restrict i) ats = valid (id_ok i) (Append (plain [] BTF_KIND_RESTRICT (word_of_int i) []))"
| "bspec (Add_type_tag n i) ats = valid (nstr n \<noteq> [] \<and> id_ok i) (Append (plain (nstr n) BTF_KIND_TYPE_TAG (word_of_int i) []))"
| "bspec (Add_func n l i) ats = valid (nstr n \<noteq> [] \<and> l \<le> 2 \<and> id_ok i) (Append ((plain (nstr n) BTF_KIND_FUNC (word_of_int i) [])\<lparr>at_vlen := l\<rparr>))"
| "bspec (Add_func_proto i) ats = valid (id_ok i) (Append (plain [] BTF_KIND_FUNC_PROTO (word_of_int i) []))"
| "bspec (Add_func_param n i) ats = on_last {BTF_KIND_FUNC_PROTO} ats (\<lambda>a. valid (id_ok i)
     (Extend (one_more (Some (nstr n), [word_of_int i]) False a)))"
| "bspec (Add_var n l i) ats = valid (nstr n \<noteq> [] \<and> l \<le> 2 \<and> id_ok i) (Append (plain (nstr n) BTF_KIND_VAR (word_of_int i) [word_of_nat l]))"
| "bspec (Add_datasec n bsz) ats = valid (nstr n \<noteq> []) (Append (plain (nstr n) BTF_KIND_DATASEC bsz []))"
| "bspec (Add_datasec_var_info i off bsz) ats = on_last {BTF_KIND_DATASEC} ats (\<lambda>a. valid (id_ok i)
     (Extend (one_more (None, [word_of_int i, off, bsz]) False a)))"
| "bspec (Add_decl_tag n i c) ats = valid (nstr n \<noteq> [] \<and> - 1 \<le> c \<and> id_ok i) (Append (plain (nstr n) BTF_KIND_DECL_TAG (word_of_int i) [word_of_int c]))"

text \<open>A call with the outcomes of its allocations. A result \<open>None\<close> would be an access outside memory.\<close>

type_synonym bcmd = "(nat \<Rightarrow> build_allocs) \<times> bop"

definition bstep :: "bcmd \<Rightarrow> btf \<Rightarrow> int option \<times> btf" where
  "bstep c b = (case bcall (fst c) (snd c) b of None \<Rightarrow> (None, b) | Some (r, b') \<Rightarrow> (Some r, b'))"

definition bguard :: "bcmd \<Rightarrow> atype list \<Rightarrow> bool" where
  "bguard c ats \<longleftrightarrow> calloc_bounded (al_calloc (fst c 0)) \<and> NUL \<notin> set (bname (snd c)) \<and>
     (case bspec (snd c) ats of Extend a \<Rightarrow> at_vlen a < 65536 | _ \<Rightarrow> True)"

definition ballowed :: "bcmd \<Rightarrow> int option \<Rightarrow> atype list \<Rightarrow> bool" where
  "ballowed c r ats \<longleftrightarrow> (case bspec (snd c) ats of
       Refuse e \<Rightarrow> r = Some e
     | Append a \<Rightarrow> r = Some (int (length ats + 1)) \<or> r = Some (- ENOMEM)
     | Extend a \<Rightarrow> r = Some 0 \<or> r = Some (- ENOMEM))"

definition bnext :: "bcmd \<Rightarrow> int option \<Rightarrow> atype list \<Rightarrow> atype list" where
  "bnext c r ats = (if r = Some (- ENOMEM) then ats else
     case bspec (snd c) ats of Refuse e \<Rightarrow> ats | Append a \<Rightarrow> ats @ [a] | Extend a \<Rightarrow> butlast ats @ [a])"

section \<open>Each call does what it is asked for\<close>

definition realizes :: "(int \<times> btf) option \<Rightarrow> outcome \<Rightarrow> atype list \<Rightarrow> bool" where
  "realizes x out ats \<longleftrightarrow> (\<exists>r b'. x = Some (r, b') \<and> (case out of
       Refuse e \<Rightarrow> r = e \<and> bsim b' ats
     | Append a \<Rightarrow> r = - ENOMEM \<and> bsim b' ats \<or> r = int (length ats + 1) \<and> bsim b' (ats @ [a])
     | Extend a \<Rightarrow> r = - ENOMEM \<and> bsim b' ats \<or> r = 0 \<and> bsim b' (butlast ats @ [a])))"

lemma realizes_inval: "bsim b ats \<Longrightarrow> realizes (inval b) (Refuse (- EINVAL)) ats"
  by (simp add: realizes_def inval_def)

lemma no_name_nstr: "no_name n \<longleftrightarrow> nstr n = []"
  by (simp add: no_name_def nstr_def split: nullable.split)

lemma validate_id_ok: "validate_type_id i \<longleftrightarrow> id_ok i"
  by (auto simp: validate_type_id_def id_ok_def)

lemma conc_kind_vlen:
  assumes "at_kind a < 32" "at_vlen a < 65536"
  shows "btf_kind (conc f a) = at_kind a" "btf_vlen (conc f a) = at_vlen a"
  using assms info_fields [of "at_kind a" "at_vlen a" "at_kflag a"]
  by (simp_all add: btf_kind_def btf_vlen_def conc_def unsigned_of_nat take_bit_nat_eq_self)

text \<open>How many words follow a type.\<close>

definition fixed_words :: "nat \<Rightarrow> nat" where
  "fixed_words k = (if k \<in> {BTF_KIND_INT, BTF_KIND_VAR, BTF_KIND_DECL_TAG} then 1 else if k = BTF_KIND_ARRAY then 3 else 0)"

definition elem_size :: "nat \<Rightarrow> nat" where
  "elem_size k = (if k \<in> {BTF_KIND_ENUM, BTF_KIND_FUNC_PROTO} then 2 else if k \<in> {BTF_KIND_STRUCT, BTF_KIND_UNION, BTF_KIND_ENUM64, BTF_KIND_DATASEC} then 3 else 0)"

lemma at_ok_iff:
  assumes "1 \<le> at_kind a" "at_kind a \<le> 19" "at_vlen a < 65536"
  shows "at_ok a \<longleftrightarrow> length (tail (conc (\<lambda>_. 0) a)) = fixed_words (at_kind a) + at_vlen a * elem_size (at_kind a)"
proof -
  have k: "at_kind a \<in> {1, 2, 3, 4, 5, 6, 7, 8, 9, 10, 11, 12, 13, 14, 15, 16, 17, 18, 19}" using assms(1,2) unfolding insert_iff empty_iff by presburger
  have "btf_kind (conc (\<lambda>_. 0) a) = at_kind a" "btf_vlen (conc (\<lambda>_. 0) a) = at_vlen a" using conc_kind_vlen [of a "\<lambda>_. 0"] assms by simp_all
  then have "btf_type_size (conc (\<lambda>_. 0) a) = int (12 + 4 * (fixed_words (at_kind a) + at_vlen a * elem_size (at_kind a)))"
    using k by (auto simp: btf_type_size_def fixed_words_def elem_size_def Let_def)
  then have "type_ok (conc (\<lambda>_. 0) a) \<longleftrightarrow> 12 + 4 * (fixed_words (at_kind a) + at_vlen a * elem_size (at_kind a)) = 12 + 4 * length (tail (conc (\<lambda>_. 0) a))"
    unfolding type_ok_def by (simp only: of_nat_eq_iff)
  then show ?thesis using assms by (auto simp: at_ok_def)
qed

lemma plain_ok: "1 \<le> k \<Longrightarrow> k \<le> 19 \<Longrightarrow> length ws = fixed_words k \<Longrightarrow> at_ok (plain s k bsz ws)"
  by (subst at_ok_iff) (simp_all add: plain_def conc_def)

lemma one_more_ok:
  assumes "at_ok a" "1 \<le> at_kind a" "at_kind a \<le> 19" "at_vlen a + 1 < 65536" "length (elem_words (\<lambda>_. 0) e) = elem_size (at_kind a)"
  shows "at_ok (one_more e kf a)"
proof -
  have "at_vlen a < 65536" using assms(4) by simp
  then show ?thesis using assms at_ok_iff [of a] at_ok_iff [of "one_more e kf a"] by (simp add: one_more_def conc_def)
qed

lemma realizes_append:
  assumes "bsim b ats" "calloc_bounded (al_calloc (al 0))" "NUL \<notin> set (nstr name)" "at_ok a"
    and "a = \<lparr>at_name = nstr name, at_kind = k, at_vlen = 0, at_kflag = kf, at_size = st, at_fixed = ws, at_elems = []\<rparr>"
  shows "realizes (append_type al b name (mk_type k 0 kf st ws)) (Append a) ats"
  by (rule append_type_ok [where al = al, OF assms(1-4), where mk = "mk_type k 0 kf st ws"])
    (auto simp: assms(5) mk_type_def conc_def realizes_def)

lemma realizes_then_info:
  assumes "realizes x (Append a) ats" "a' = a\<lparr>at_vlen := v, at_kflag := kf\<rparr>" "at_ok a'" "i = btf_type_info (at_kind a) v kf"
  shows "realizes (then_info x i) (Append a') ats"
proof -
  obtain r b where x: "x = Some (r, b)" "r = - ENOMEM \<and> bsim b ats \<or> r = int (length ats + 1) \<and> bsim b (ats @ [a])"
    using assms(1) by (auto simp: realizes_def)
  show ?thesis
  proof (cases "r = - ENOMEM \<and> bsim b ats")
    case True
    then show ?thesis using x by (simp add: then_info_def realizes_def ENOMEM_def)
  next
    case False
    then have r: "r = int (length ats + 1)" "bsim b (ats @ [a])" using x(2) by auto
    obtain b' where "set_info b (length ats + 1) i = Some b'" "bsim b' (ats @ [a'])"
      by (rule then_info_ok [OF r(2) assms(2,3)]) (simp add: assms(4))
    then show ?thesis using x(1) r(1) by (simp add: then_info_def realizes_def nat_add_distrib)
  qed
qed

text \<open>What is known of the last type in memory.\<close>

lemma realizes_last:
  assumes s: "bsim b ats" and e: "ats = [] \<Longrightarrow> out = Refuse (- EINVAL)"
    and g: "\<And>t. ats \<noteq> [] \<Longrightarrow> at_ok (last ats) \<Longrightarrow> btf_kind t = at_kind (last ats) \<Longrightarrow> realizes (g t) out ats"
  shows "realizes (if nr_types (own b) = 0 then inval b else btf_last_type b \<bind> g) out ats"
proof (cases ats rule: rev_cases)
  case Nil
  have "nr_types (own b) = 0"
    using s built_len(4) Nil by (auto simp: bsim_def btf_new_empty_def Let_def)
  then show ?thesis using realizes_inval [OF s] e [OF Nil] by simp
next
  case (snoc as a)
  then obtain d ss where d: "b = Btf None d" "built d ss (as @ [a])" using s by (auto simp: bsim_def)
  then have "nr_types d \<noteq> 0" "at_ok a" using built_len(4) [OF d(2)] by (simp_all add: built_def)
  then show ?thesis
    using g [of "conc (str_off ss) a"] snoc last_type_built(2) [OF d(2)] conc_fields [of a "str_off ss"] d(1) by simp
qed

lemma realizes_elem:
  assumes s: "bsim b ats" and ne: "ats \<noteq> []" and c: "calloc_bounded (al_calloc (al 0))" and n: "NUL \<notin> set (nstr name)"
    and e: "fst e = None \<or> fst e = Some (nstr name)" and mk: "\<And>f. mk (nm f (nstr name)) = elem_words f e"
    and ni: "\<And>t. btf_vlen t + 1 < 65536 \<Longrightarrow> ninfo t = btf_type_info (btf_kind t) (btf_vlen t + 1) (btf_kflag t \<or> kf)"
    and k: "elem_size (at_kind (last ats)) = length (mk 0)" "length (mk 0) \<noteq> 0"
    and v: "at_vlen (one_more e kf (last ats)) < 65536"
  shows "realizes (append_elem al b name mk ninfo) (Extend (one_more e kf (last ats))) ats"
proof -
  obtain as a where ats: "ats = as @ [a]" using ne by (cases ats rule: rev_cases) auto
  have a: "at_ok a" using s ats by (auto simp: bsim_def built_def)
  have v': "at_vlen a + 1 < 65536" using v ats by (simp add: one_more_def)
  have kr: "1 \<le> at_kind a" "at_kind a \<le> 19" using k ats by (auto simp: elem_size_def split: if_splits)
  have ok: "at_ok (one_more e kf a)"
    by (rule one_more_ok [OF a kr v']) (use k ats mk [of "\<lambda>_. 0"] in \<open>simp add: nm_def\<close>)
  have i: "ninfo (conc f a) = btf_type_info (at_kind a) (at_vlen a + 1) (at_kflag a \<or> kf)" for f
    using ni [of "conc f a"] conc_fields [OF a, of f] v' by simp
  show ?thesis
    by (rule append_elem_ok [where al = al and mk = mk and ninfo = ninfo, OF s [unfolded ats] c n e mk i one_more_def ok]) (auto simp: realizes_def ats)
qed

lemma realizes_ref:
  assumes "bsim b ats" "calloc_bounded (al_calloc (al 0))" "NUL \<notin> set (nstr name)" "1 \<le> k" "k \<le> 19" "fixed_words k = 0"
  shows "realizes (btf_add_ref_kind al b k name i) (valid (id_ok i) (Append (plain (nstr name) k (word_of_int i) []))) ats"
  using realizes_inval [OF assms(1)] realizes_append [where al = al, OF assms(1-3) plain_ok [OF assms(4,5)] plain_def] assms(6)
  by (simp add: btf_add_ref_kind_def validate_id_ok valid_def)

section \<open>The functions of the interface\<close>

lemma small_word:
  fixes x :: "'a :: len word"
  assumes "x \<le> word_of_nat k" "k < 2 ^ LENGTH('a)"
  shows "\<exists>n \<le> k. x = word_of_nat n"
  using assms by (intro exI [of _ "unat x"]) (simp add: word_le_nat_alt unsigned_of_nat take_bit_nat_eq_self)

lemma power_16: "bsz = 0 \<or> bsz AND (bsz - 1) \<noteq> 0 \<or> bsz > 16 \<longleftrightarrow> bsz \<notin> {1, 2, 4, 8, 16}" for bsz :: u64
proof (cases "bsz > 16")
  case False
  then obtain n where n: "n \<le> 16" "bsz = word_of_nat n" using small_word [of bsz 16] by (auto simp: not_less)
  then have "n \<in> {0, 1, 2, 3, 4, 5, 6, 7, 8, 9, 10, 11, 12, 13, 14, 15, 16}" unfolding insert_iff empty_iff by presburger
  then show ?thesis using n(2) by auto
qed auto

lemma power_8: "bsz = 0 \<or> bsz AND (bsz - 1) \<noteq> 0 \<or> bsz > 8 \<longleftrightarrow> bsz \<notin> {1, 2, 4, 8}" for bsz :: u32
proof (cases "bsz > 8")
  case False
  then obtain n where n: "n \<le> 8" "bsz = word_of_nat n" using small_word [of bsz 8] by (auto simp: not_less)
  then have "n \<in> {0, 1, 2, 3, 4, 5, 6, 7, 8}" unfolding insert_iff empty_iff by presburger
  then show ?thesis using n(2) by auto
qed auto

lemma encoding_bits: "e AND NOT (BTF_INT_SIGNED OR BTF_INT_CHAR OR BTF_INT_BOOL) = 0 \<longleftrightarrow> e \<le> 7"
proof -
  have m: "BTF_INT_SIGNED OR BTF_INT_CHAR OR BTF_INT_BOOL = mask 3" by (simp add: BTF_INT_SIGNED_def BTF_INT_CHAR_def BTF_INT_BOOL_def mask_eq_exp_minus_1)
  have "e AND NOT (mask 3) = 0 \<longleftrightarrow> take_bit 3 e = e" unfolding bit_eq_iff by (auto simp: bit_simps)
  also have "\<dots> \<longleftrightarrow> e \<le> 7" by (auto simp: word_unat_eq_iff unsigned_take_bit_eq take_bit_nat_eq_self_iff word_le_nat_alt)
  finally show ?thesis unfolding m .
qed

lemma guard_facts:
  assumes "bguard (al, c) ats"
  shows "calloc_bounded (al_calloc (al 0))" "NUL \<notin> set (bname c)" "bspec c ats = Extend a \<Longrightarrow> at_vlen a < 65536"
  using assms by (auto simp: bguard_def)

text \<open>The functions that append a type.\<close>

lemma scalar_calls:
  assumes s: "bsim b ats" and c: "calloc_bounded (al_calloc (al 0))" and n: "NUL \<notin> set (nstr n)"
  shows "realizes (btf__add_int al b n sz1 e) (bspec (Add_int n sz1 e) ats) ats"
    "realizes (btf__add_float al b n sz1) (bspec (Add_float n sz1) ats) ats"
    "realizes (btf__add_var al b n l i) (bspec (Add_var n l i) ats) ats"
    "realizes (btf__add_decl_tag al b n i x) (bspec (Add_decl_tag n i x) ats) ats"
proof -
  note inv = realizes_inval [OF s] and app = realizes_append [where al = al, OF s c n plain_ok plain_def]
  show "realizes (btf__add_int al b n sz1 e) (bspec (Add_int n sz1 e) ats) ats"
    unfolding btf__add_int_def power_16 no_name_nstr bspec.simps valid_def using encoding_bits [of e] inv app
    by (simp add: fixed_words_def)
  show "realizes (btf__add_float al b n sz1) (bspec (Add_float n sz1) ats) ats"
    unfolding btf__add_float_def no_name_nstr bspec.simps valid_def using inv app by (simp add: fixed_words_def)
  show "realizes (btf__add_var al b n l i) (bspec (Add_var n l i) ats) ats"
  proof -
    have "l \<in> {0, 1, 2} \<longleftrightarrow> l \<le> 2" by auto
    then show ?thesis unfolding btf__add_var_def no_name_nstr bspec.simps valid_def validate_id_ok using inv app by (simp add: fixed_words_def)
  qed
  show "realizes (btf__add_decl_tag al b n i x) (bspec (Add_decl_tag n i x) ats) ats"
    unfolding btf__add_decl_tag_def no_name_nstr bspec.simps valid_def validate_id_ok using inv app by (simp add: fixed_words_def not_le)
qed

lemma composite_calls:
  assumes s: "bsim b ats" and c: "calloc_bounded (al_calloc (al 0))" and n: "NUL \<notin> set (nstr n)"
  shows "realizes (btf__add_struct al b n sz1) (bspec (Add_struct n sz1) ats) ats"
    "realizes (btf__add_union al b n sz1) (bspec (Add_union n sz1) ats) ats"
    "realizes (btf__add_enum al b n sz1) (bspec (Add_enum n sz1) ats) ats"
    "realizes (btf__add_enum64 al b n sz1 sg) (bspec (Add_enum64 n sz1 sg) ats) ats"
    "realizes (btf__add_datasec al b n sz1) (bspec (Add_datasec n sz1) ats) ats"
proof -
  note inv = realizes_inval [OF s] and app = realizes_append [where al = al, OF s c n plain_ok plain_def]
  show "realizes (btf__add_struct al b n sz1) (bspec (Add_struct n sz1) ats) ats"
    unfolding btf__add_struct_def btf_add_composite_def using app by (simp add: fixed_words_def)
  show "realizes (btf__add_union al b n sz1) (bspec (Add_union n sz1) ats) ats"
    unfolding btf__add_union_def btf_add_composite_def using app by (simp add: fixed_words_def)
  show "realizes (btf__add_enum al b n sz1) (bspec (Add_enum n sz1) ats) ats"
    unfolding btf__add_enum_def btf_add_enum_common_def power_8 bspec.simps valid_def using inv app by (simp add: fixed_words_def)
  have "at_ok ((plain (nstr n) BTF_KIND_ENUM64 sz1 [])\<lparr>at_kflag := sg\<rparr>)"
    by (subst at_ok_iff) (simp_all add: plain_def conc_def fixed_words_def)
  then show "realizes (btf__add_enum64 al b n sz1 sg) (bspec (Add_enum64 n sz1 sg) ats) ats"
    unfolding btf__add_enum64_def btf_add_enum_common_def power_8 bspec.simps valid_def
    using inv realizes_append [where al = al, OF s c n _ refl] by (auto simp: plain_def)
  show "realizes (btf__add_datasec al b n sz1) (bspec (Add_datasec n sz1) ats) ats"
    unfolding btf__add_datasec_def no_name_nstr bspec.simps valid_def using inv app by (simp add: fixed_words_def)
qed

lemma ref_calls:
  assumes s: "bsim b ats" and c: "calloc_bounded (al_calloc (al 0))"
  shows "realizes (btf__add_ptr al b i) (bspec (Add_ptr i) ats) ats" "realizes (btf__add_volatile al b i) (bspec (Add_volatile i) ats) ats"
    "realizes (btf__add_const al b i) (bspec (Add_const i) ats) ats" "realizes (btf__add_restrict al b i) (bspec (Add_restrict i) ats) ats"
    "realizes (btf__add_func_proto al b i) (bspec (Add_func_proto i) ats) ats" "realizes (btf__add_array al b ix el k) (bspec (Add_array ix el k) ats) ats"
proof -
  have n: "NUL \<notin> set (nstr Null)" by (simp add: nstr_def)
  note inv = realizes_inval [OF s] and app = realizes_append [where al = al, OF s c n plain_ok plain_def]
  note ref = realizes_ref [where al = al, OF s c n, of _ i]
  show "realizes (btf__add_ptr al b i) (bspec (Add_ptr i) ats) ats" "realizes (btf__add_volatile al b i) (bspec (Add_volatile i) ats) ats"
    "realizes (btf__add_const al b i) (bspec (Add_const i) ats) ats" "realizes (btf__add_restrict al b i) (bspec (Add_restrict i) ats) ats"
    unfolding btf__add_ptr_def btf__add_volatile_def btf__add_const_def btf__add_restrict_def bspec.simps
    using ref [of BTF_KIND_PTR] ref [of BTF_KIND_VOLATILE] ref [of BTF_KIND_CONST] ref [of BTF_KIND_RESTRICT] by (simp_all add: fixed_words_def nstr_def)
  show "realizes (btf__add_func_proto al b i) (bspec (Add_func_proto i) ats) ats"
    unfolding btf__add_func_proto_def validate_id_ok bspec.simps valid_def using inv app by (simp add: fixed_words_def nstr_def)
  show "realizes (btf__add_array al b ix el k) (bspec (Add_array ix el k) ats) ats"
    unfolding btf__add_array_def validate_id_ok bspec.simps valid_def using inv app by (simp add: fixed_words_def nstr_def)
qed

lemma named_ref_calls:
  assumes s: "bsim b ats" and c: "calloc_bounded (al_calloc (al 0))" and n: "NUL \<notin> set (nstr n)"
  shows "realizes (btf__add_typedef al b n i) (bspec (Add_typedef n i) ats) ats"
    "realizes (btf__add_type_tag al b n i) (bspec (Add_type_tag n i) ats) ats"
    "realizes (btf__add_func al b n l i) (bspec (Add_func n l i) ats) ats"
    "realizes (btf__add_fwd al b n k) (bspec (Add_fwd n k) ats) ats"
proof -
  note inv = realizes_inval [OF s] and ref = realizes_ref [where al = al, OF s c n]
  show "realizes (btf__add_typedef al b n i) (bspec (Add_typedef n i) ats) ats" "realizes (btf__add_type_tag al b n i) (bspec (Add_type_tag n i) ats) ats"
    unfolding btf__add_typedef_def btf__add_type_tag_def no_name_nstr
    using inv ref [of BTF_KIND_TYPEDEF i] ref [of BTF_KIND_TYPE_TAG i] by (auto simp: fixed_words_def valid_def)
  have l: "l \<in> {0, 1, 2} \<longleftrightarrow> l \<le> 2" by auto
  show "realizes (btf__add_func al b n l i) (bspec (Add_func n l i) ats) ats"
  proof (cases "nstr n \<noteq> [] \<and> l \<le> 2 \<and> id_ok i")
    case True
    have r: "realizes (btf_add_ref_kind al b BTF_KIND_FUNC n i) (Append (plain (nstr n) BTF_KIND_FUNC (word_of_int i) [])) ats"
      using ref [of BTF_KIND_FUNC i] True by (simp add: fixed_words_def valid_def)
    have "at_ok ((plain (nstr n) BTF_KIND_FUNC (word_of_int i) [])\<lparr>at_vlen := l, at_kflag := False\<rparr>)"
      using True by (subst at_ok_iff) (simp_all add: plain_def conc_def fixed_words_def elem_size_def)
    from realizes_then_info [OF r refl this] show ?thesis
      unfolding btf__add_func_def no_name_nstr l using True by (simp add: valid_def plain_def)
  next
    case False
    have "then_info (inval b) x = inval b" for x by (simp add: then_info_def inval_def EINVAL_def)
    then show ?thesis using False inv unfolding btf__add_func_def no_name_nstr l by (auto simp: valid_def btf_add_ref_kind_def validate_id_ok)
  qed
  have "at_ok ((plain (nstr n) BTF_KIND_FWD 0 [])\<lparr>at_vlen := 0, at_kflag := (k = 1)\<rparr>)"
    by (subst at_ok_iff) (simp_all add: plain_def conc_def fixed_words_def elem_size_def)
  moreover have "realizes (btf_add_ref_kind al b BTF_KIND_FWD n 0) (Append (plain (nstr n) BTF_KIND_FWD 0 [])) ats"
    using ref [of BTF_KIND_FWD 0] by (simp add: fixed_words_def valid_def id_ok_def)
  ultimately have "realizes (then_info (btf_add_ref_kind al b BTF_KIND_FWD n 0) (btf_type_info BTF_KIND_FWD 0 (k = 1)))
      (Append ((plain (nstr n) BTF_KIND_FWD 0 [])\<lparr>at_vlen := 0, at_kflag := (k = 1)\<rparr>)) ats"
    by (intro realizes_then_info [OF _ refl]) (simp_all add: plain_def)
  then show "realizes (btf__add_fwd al b n k) (bspec (Add_fwd n k) ats) ats"
    using inv composite_calls(3) [where al = al, OF s c n, of 4] unfolding btf__add_fwd_def no_name_nstr
    by (auto simp: valid_def plain_def)
qed

text \<open>The functions that extend the last type.\<close>

lemma elem_facts:
  "elem_words f (Some s, ws) = nm f s # ws" "elem_words f (None, ws) = ws" "nm f [] = 0"
  by (simp_all add: elem_words_def nm_def)

lemma set_info_fields:
  assumes "k < 32" "v < 65536"
  shows "btf_kind (t\<lparr>info := btf_type_info k v kf\<rparr>) = k" "btf_vlen (t\<lparr>info := btf_type_info k v kf\<rparr>) = v"
  using assms info_fields [OF assms] by (simp_all add: btf_kind_def btf_vlen_def unsigned_of_nat take_bit_nat_eq_self)

lemma enum_info:
  fixes v :: int
  assumes "btf_vlen t + 1 < 65536"
  shows "(if v < 0 then btf_type_info (btf_kind (t\<lparr>info := btf_type_inc_vlen t\<rparr>)) (btf_vlen (t\<lparr>info := btf_type_inc_vlen t\<rparr>)) True else btf_type_inc_vlen t) =
    btf_type_info (btf_kind t) (btf_vlen t + 1) (btf_kflag t \<or> v < 0)"
proof -
  have "btf_kind t < 32"
  proof -
    have "BTF_INFO_KIND (info t) = take_bit 5 (drop_bit 24 (info t))" by (simp add: BTF_INFO_KIND_def take_bit_eq_mask mask_eq_exp_minus_1)
    then show ?thesis using take_bit_nat_less_exp [of 5 "unat (drop_bit 24 (info t))"] by (simp add: btf_kind_def unsigned_take_bit_eq)
  qed
  then have "btf_kind (t\<lparr>info := btf_type_inc_vlen t\<rparr>) = btf_kind t" "btf_vlen (t\<lparr>info := btf_type_inc_vlen t\<rparr>) = btf_vlen t + 1"
    unfolding btf_type_inc_vlen_def using assms by (simp_all add: set_info_fields)
  then show ?thesis by (simp add: btf_type_inc_vlen_def)
qed

lemma field_call:
  assumes s: "bsim b ats" and c: "calloc_bounded (al_calloc (al 0))" and n: "NUL \<notin> set (nstr n)"
    and g: "\<And>a. bspec (Add_field n i off sz1) ats = Extend a \<Longrightarrow> at_vlen a < 65536"
  shows "realizes (btf__add_field al b n i off sz1) (bspec (Add_field n i off sz1) ats) ats"
  unfolding btf__add_field_def Let_def
proof (rule realizes_last [OF s])
  fix t assume t: "ats \<noteq> []" "btf_kind t = at_kind (last ats)"
  define bf where "bf \<longleftrightarrow> sz1 \<noteq> 0 \<or> off mod 8 \<noteq> 0"
  have "realizes (if \<not> btf_is_composite t then inval b
      else if \<not> validate_type_id i then inval b
      else if bf \<and> (sz1 = 0 \<or> sz1 > 255 \<or> off > 0xffffff) then inval b
      else if btf_is_union t \<and> off \<noteq> 0 then inval b
      else append_elem al b n (\<lambda>n. [n, word_of_int i, off OR push_bit 24 sz1])
        (\<lambda>t. btf_type_info (btf_kind t) (btf_vlen t + 1) (bf \<or> btf_kflag t))) (bspec (Add_field n i off sz1) ats) ats"
  proof (cases "bspec (Add_field n i off sz1) ats")
    case (Extend a)
    then have a: "a = one_more (Some (nstr n), [word_of_int i, off OR push_bit 24 sz1]) bf (last ats)"
      and v: "at_kind (last ats) \<in> {BTF_KIND_STRUCT, BTF_KIND_UNION}" "id_ok i" "bf \<longrightarrow> sz1 \<noteq> 0 \<and> sz1 \<le> 255 \<and> off \<le> 0xffffff"
        "at_kind (last ats) = BTF_KIND_UNION \<longrightarrow> off = 0"
      by (auto simp: on_last_def valid_def Let_def bf_def split: if_splits)
    have "realizes (append_elem al b n (\<lambda>n. [n, word_of_int i, off OR push_bit 24 sz1])
        (\<lambda>t. btf_type_info (btf_kind t) (btf_vlen t + 1) (bf \<or> btf_kflag t))) (Extend a) ats"
      unfolding a by (rule realizes_elem [where al = al, OF s t(1) c n]) (use v(1) g [OF Extend] a in \<open>auto simp: elem_facts elem_size_def disj_commute\<close>)
    then show ?thesis unfolding Extend validate_id_ok using v t
      by (auto simp: btf_is_composite_def btf_is_union_def Let_def)
  qed (use t realizes_inval [OF s] in \<open>auto simp: on_last_def valid_def Let_def btf_is_composite_def btf_is_union_def validate_id_ok not_less bf_def split: if_splits\<close>)
  then show "realizes (if \<not> btf_is_composite t then inval b
      else if \<not> validate_type_id i then inval b
      else if (sz1 \<noteq> 0 \<or> off mod 8 \<noteq> 0) \<and> (sz1 = 0 \<or> sz1 > 255 \<or> off > 0xffffff) then inval b
      else if btf_is_union t \<and> off \<noteq> 0 then inval b
      else append_elem al b n (\<lambda>n. [n, word_of_int i, off OR push_bit 24 sz1])
        (\<lambda>t. btf_type_info (btf_kind t) (btf_vlen t + 1) ((sz1 \<noteq> 0 \<or> off mod 8 \<noteq> 0) \<or> btf_kflag t))) (bspec (Add_field n i off sz1) ats) ats"
    unfolding bf_def .
qed (simp add: on_last_def valid_def Let_def)

lemma enum_value_call:
  assumes s: "bsim b ats" and c: "calloc_bounded (al_calloc (al 0))" and n: "NUL \<notin> set (nstr n)"
    and g: "\<And>a. bspec (Add_enum_value n v) ats = Extend a \<Longrightarrow> at_vlen a < 65536"
  shows "realizes (btf__add_enum_value al b n v) (bspec (Add_enum_value n v) ats) ats"
  unfolding btf__add_enum_value_def
proof (rule realizes_last [OF s])
  fix t assume t: "ats \<noteq> []" "btf_kind t = at_kind (last ats)"
  let ?mk = "\<lambda>n. [n, word_of_int v]"
  let ?i = "\<lambda>t. if v < 0 then btf_type_info (btf_kind (t\<lparr>info := btf_type_inc_vlen t\<rparr>)) (btf_vlen (t\<lparr>info := btf_type_inc_vlen t\<rparr>)) True else btf_type_inc_vlen t"
  have e2: "realizes (Some (- E2BIG, b)) (Refuse (- E2BIG)) ats" using s by (simp add: realizes_def)
  have v: "v < - (2 ^ 31) \<or> v > int UINT_MAX \<longleftrightarrow> \<not> (- (2 ^ 31) \<le> v \<and> v < 2 ^ 32)" by (auto simp: UINT_MAX_def)
  have "realizes (append_elem al b n ?mk ?i) (bspec (Add_enum_value n v) ats) ats"
    if e: "bspec (Add_enum_value n v) ats = Extend (one_more (Some (nstr n), [word_of_int v]) (v < 0) (last ats))" "at_kind (last ats) = BTF_KIND_ENUM"
    unfolding e(1) by (rule realizes_elem [where al = al, OF s t(1) c n _ _ enum_info]) (use e(2) g [OF e(1)] in \<open>auto simp: elem_facts elem_size_def\<close>)
  then show "realizes (if \<not> btf_is_enum t then inval b
      else if no_name n then inval b
      else if v < - (2 ^ 31) \<or> v > int UINT_MAX then Some (- E2BIG, b)
      else append_elem al b n ?mk ?i) (bspec (Add_enum_value n v) ats) ats"
    unfolding no_name_nstr v using t e2 realizes_inval [OF s] by (auto simp: on_last_def valid_def btf_is_enum_def)
qed (simp add: on_last_def valid_def)

lemma enum64_value_call:
  assumes s: "bsim b ats" and c: "calloc_bounded (al_calloc (al 0))" and n: "NUL \<notin> set (nstr n)"
    and g: "\<And>a. bspec (Add_enum64_value n v) ats = Extend a \<Longrightarrow> at_vlen a < 65536"
  shows "realizes (btf__add_enum64_value al b n v) (bspec (Add_enum64_value n v) ats) ats"
  unfolding btf__add_enum64_value_def
proof (rule realizes_last [OF s])
  fix t assume t: "ats \<noteq> []" "btf_kind t = at_kind (last ats)"
  let ?mk = "\<lambda>n. [n, ucast v, ucast (drop_bit 32 v)] :: u32 list"
  have "realizes (append_elem al b n ?mk btf_type_inc_vlen) (bspec (Add_enum64_value n v) ats) ats"
    if e: "bspec (Add_enum64_value n v) ats = Extend (one_more (Some (nstr n), [ucast v, ucast (drop_bit 32 v)]) False (last ats))" "at_kind (last ats) = BTF_KIND_ENUM64"
    unfolding e(1) by (rule realizes_elem [where al = al, OF s t(1) c n]) (use e(2) g [OF e(1)] in \<open>auto simp: elem_facts elem_size_def btf_type_inc_vlen_def\<close>)
  then show "realizes (if \<not> btf_is_enum64 t then inval b else if no_name n then inval b else append_elem al b n ?mk btf_type_inc_vlen) (bspec (Add_enum64_value n v) ats) ats"
    unfolding no_name_nstr using t realizes_inval [OF s] by (auto simp: on_last_def valid_def btf_is_enum64_def)
qed (simp add: on_last_def valid_def)

lemma func_param_call:
  assumes s: "bsim b ats" and c: "calloc_bounded (al_calloc (al 0))" and n: "NUL \<notin> set (nstr n)"
    and g: "\<And>a. bspec (Add_func_param n i) ats = Extend a \<Longrightarrow> at_vlen a < 65536"
  shows "realizes (btf__add_func_param al b n i) (bspec (Add_func_param n i) ats) ats"
proof (cases "id_ok i")
  case True
  let ?mk = "\<lambda>n. [n, word_of_int i] :: u32 list"
  have "realizes (if nr_types (own b) = 0 then inval b else btf_last_type b \<bind>
      (\<lambda>t. if \<not> btf_is_func_proto t then inval b else append_elem al b n ?mk btf_type_inc_vlen)) (bspec (Add_func_param n i) ats) ats"
  proof (rule realizes_last [OF s])
    fix t assume t: "ats \<noteq> []" "btf_kind t = at_kind (last ats)"
    have "realizes (append_elem al b n ?mk btf_type_inc_vlen) (bspec (Add_func_param n i) ats) ats"
      if e: "bspec (Add_func_param n i) ats = Extend (one_more (Some (nstr n), [word_of_int i]) False (last ats))" "at_kind (last ats) = BTF_KIND_FUNC_PROTO"
      unfolding e(1) by (rule realizes_elem [where al = al, OF s t(1) c n]) (use e(2) g [OF e(1)] in \<open>auto simp: elem_facts elem_size_def btf_type_inc_vlen_def\<close>)
    then show "realizes (if \<not> btf_is_func_proto t then inval b else append_elem al b n ?mk btf_type_inc_vlen) (bspec (Add_func_param n i) ats) ats"
      using t True realizes_inval [OF s] by (auto simp: on_last_def valid_def btf_is_func_proto_def)
  qed (simp add: on_last_def valid_def)
  then show ?thesis using True by (simp add: btf__add_func_param_def validate_id_ok)
qed (use realizes_inval [OF s] in \<open>auto simp: btf__add_func_param_def validate_id_ok on_last_def valid_def\<close>)

lemma var_info_call:
  assumes s: "bsim b ats" and c: "calloc_bounded (al_calloc (al 0))"
    and g: "\<And>a. bspec (Add_datasec_var_info i off sz1) ats = Extend a \<Longrightarrow> at_vlen a < 65536"
  shows "realizes (btf__add_datasec_var_info al b i off sz1) (bspec (Add_datasec_var_info i off sz1) ats) ats"
  unfolding btf__add_datasec_var_info_def
proof (rule realizes_last [OF s])
  fix t assume t: "ats \<noteq> []" "btf_kind t = at_kind (last ats)"
  let ?mk = "\<lambda>n. [word_of_int i, off, sz1] :: u32 list"
  have n: "NUL \<notin> set (nstr Null)" by (simp add: nstr_def)
  have "realizes (append_elem al b Null ?mk btf_type_inc_vlen) (bspec (Add_datasec_var_info i off sz1) ats) ats"
    if e: "bspec (Add_datasec_var_info i off sz1) ats = Extend (one_more (None, [word_of_int i, off, sz1]) False (last ats))" "at_kind (last ats) = BTF_KIND_DATASEC"
    unfolding e(1) by (rule realizes_elem [where al = al, OF s t(1) c n]) (use e(2) g [OF e(1)] in \<open>auto simp: elem_facts elem_size_def btf_type_inc_vlen_def\<close>)
  then show "realizes (if \<not> btf_is_datasec t then inval b else if \<not> validate_type_id i then inval b else append_elem al b Null ?mk btf_type_inc_vlen)
      (bspec (Add_datasec_var_info i off sz1) ats) ats"
    unfolding validate_id_ok using t realizes_inval [OF s] by (auto simp: on_last_def valid_def btf_is_datasec_def)
qed (simp add: on_last_def valid_def)

lemma bcall_realizes:
  assumes s: "bsim b ats" and g: "bguard (al, op) ats"
  shows "realizes (bcall al op b) (bspec op ats) ats"
proof -
  note c = guard_facts(1) [OF g] and n = guard_facts(2) [OF g] and v = guard_facts(3) [OF g]
  show ?thesis
    using n v by (cases op) (simp_all only: bcall.simps bname.simps not_False_eq_True scalar_calls [where al = al, OF s c] composite_calls [where al = al, OF s c] ref_calls [where al = al, OF s c]
        named_ref_calls [where al = al, OF s c] field_call [where al = al, OF s c] enum_value_call [where al = al, OF s c] enum64_value_call [where al = al, OF s c]
        func_param_call [where al = al, OF s c] var_info_call [where al = al, OF s c])
qed

lemma bstep_simulates:
  assumes "bsim b ats" "bguard c ats" "bstep c b = (r, b')"
  shows "ballowed c r ats \<and> bsim b' (bnext c r ats)"
proof -
  obtain al op where c: "c = (al, op)" by fastforce
  obtain x b1 where x: "bcall al op b = Some (x, b1)" and o: "case bspec op ats of
       Refuse e \<Rightarrow> x = e \<and> bsim b1 ats
     | Append a \<Rightarrow> x = - ENOMEM \<and> bsim b1 ats \<or> x = int (length ats + 1) \<and> bsim b1 (ats @ [a])
     | Extend a \<Rightarrow> x = - ENOMEM \<and> bsim b1 ats \<or> x = 0 \<and> bsim b1 (butlast ats @ [a])"
    using bcall_realizes [OF assms(1)] assms(2) unfolding c realizes_def by blast
  have "r = Some x" "b' = b1" using assms(3) x by (simp_all add: bstep_def c)
  then show ?thesis using o by (auto simp: ballowed_def bnext_def c ENOMEM_def split: outcome.splits)
qed

interpretation builder: simulation bsim bstep bguard ballowed bnext
  by unfold_locales (auto dest: bstep_simulates)

section \<open>Reading back\<close>

text \<open>\<open>t\<close> is the type \<open>a\<close>, with offsets under which the names are found in \<open>b\<close>.\<close>

definition reads :: "btf \<Rightarrow> btf_type \<Rightarrow> atype \<Rightarrow> bool" where
  "reads b t a \<longleftrightarrow> (\<exists>f. t = conc f a \<and> (\<forall>n \<in> at_names a. btf__name_by_offset b (f n) = Some (Ref n)))"

definition holds :: "btf \<Rightarrow> atype list \<Rightarrow> bool" where
  "holds b ats \<longleftrightarrow> btf__type_cnt b = length ats + 1 \<and> (\<forall>i < length ats. \<exists>t. btf__type_by_id b (i + 1) = Some (Ref t) \<and> reads b t (ats ! i))"

text \<open>Text \<open>vis\<close> in which \<open>f\<close> finds the names of the types.\<close>

definition text_ok :: "string \<Rightarrow> (string \<Rightarrow> u32) \<Rightarrow> atype list \<Rightarrow> bool" where
  "text_ok vis f ats \<longleftrightarrow> vis \<noteq> [] \<and> hd vis = NUL \<and> last vis = NUL \<and> length vis < 2 ^ 31 \<and> list_all at_ok ats \<and>
     (\<forall>a \<in> set ats. \<forall>n \<in> at_names a. unat (f n) < length vis \<and> takeWhile (\<lambda>c. c \<noteq> NUL) (drop (unat (f n)) vis) = n)"

definition parts :: "btf_data \<Rightarrow> string \<Rightarrow> btf_type list \<Rightarrow> bool" where
  "parts d vis ts \<longleftrightarrow> types_in d ts \<and> hdr d = image_hdr 1 0 (length (types_bytes ts)) (length vis) \<and> start_id d = 1 \<and> start_str_off d = 0 \<and>
     (\<exists>s. btf_strs_data d = Some s \<and> length vis \<le> length s \<and> take (length vis) s = vis)"

lemma c_str_prefix:
  assumes "take (length vis) s = vis" "vis \<noteq> []" "last vis = NUL" "k < length vis"
  shows "c_str s k = Some (takeWhile (\<lambda>c. c \<noteq> NUL) (drop k vis))"
proof -
  have s: "s = vis @ drop (length vis) s" using append_take_drop_id [of "length vis" s] assms(1) by simp
  have "last (drop k vis) = NUL" "drop k vis \<noteq> []" using assms by simp_all
  then have "NUL \<in> set (drop k vis)" by (metis last_in_set)
  then show ?thesis by (subst s) (simp add: c_str_def takeWhile_stop)
qed

lemma holds_parts:
  assumes p: "parts d vis (map (conc f) ats)" and t: "text_ok vis f ats"
  shows "holds (Btf None d) ats"
proof -
  obtain s where s: "btf_strs_data d = Some s" "take (length vis) s = vis" using p by (auto simp: parts_def)
  have d: "types_in d (map (conc f) ats)" "start_id d = 1" "start_str_off d = 0" and h: "hdr d = image_hdr 1 0 (length (types_bytes (map (conc f) ats))) (length vis)"
    using p by (simp_all add: parts_def)
  have n: "nr_types d = length ats" using d(1) by (simp add: types_in_def)
  have sl: "unat (h_str_len (hdr d)) = length vis" using t by (simp add: h image_hdr_def text_ok_def unsigned_of_nat take_bit_nat_eq_self)
  have nm: "btf__name_by_offset (Btf None d) (f x) = Some (Ref x)" if "a \<in> set ats" "x \<in> at_names a" for a x
  proof -
    have x: "unat (f x) < length vis" "takeWhile (\<lambda>c. c \<noteq> NUL) (drop (unat (f x)) vis) = x" using t that by (auto simp: text_ok_def)
    have "c_str s (unat (f x)) = Some x" using c_str_prefix [OF s(2) _ _ x(1)] x(2) t by (simp add: text_ok_def)
    then show ?thesis using x(1) s(1) d(3) sl by (simp add: btf__name_by_offset_def)
  qed
  have "btf__type_by_id (Btf None d) (i + 1) = Some (Ref (conc f (ats ! i)))" if "i < length ats" for i
    using type_at_in [OF d(1), of i] that n d(2) by (simp add: btf__type_by_id_def btf__type_cnt_def)
  then show ?thesis using nm n d(2) by (auto simp: holds_def reads_def btf__type_cnt_def intro!: exI [of _ f] intro: nth_mem)
qed

lemma built_parts:
  assumes b: "built d ss ats"
  shows "parts d (visible ss) (cts ss ats)" "text_ok (visible ss) (str_off ss) ats"
proof -
  note bu = b [unfolded built_def]
  have i: "strset_inv ss" using bu by blast
  note sl = strset_len [OF i]
  have v: "visible ss = take (strs_data_len ss) (strset.strs_data ss)" "strs_data_len ss \<le> length (strset.strs_data ss)" "strs_data_len ss \<noteq> 0"
    using i bu sl by (auto simp: visible_def strset_inv_def)
  show "parts d (visible ss) (cts ss ats)"
    unfolding parts_def using bu v sl by (auto simp: btf_strs_data_def strset__data_def)
  have l: "last (visible ss) = NUL" "strset.strs_data ss ! (strs_data_len ss - 1) = NUL"
  proof -
    show n: "strset.strs_data ss ! (strs_data_len ss - 1) = NUL" using i v(3) by (simp add: strset_inv_def)
    have "last (visible ss) = visible ss ! (strs_data_len ss - 1)" using bu sl by (simp add: last_conv_nth)
    then show "last (visible ss) = NUL" using n v by simp
  qed
  have "unat (str_off ss n) < length (visible ss) \<and> takeWhile (\<lambda>c. c \<noteq> NUL) (drop (unat (str_off ss n)) (visible ss)) = n"
    if o: "offset_of ss n = Some k" for n k
  proof -
    obtain e where e: "e \<in># ents (strs_hash ss)" "str_at (strset.strs_data ss) (hkey e) = n" "k = unat (hkey e)" using o offset_of_Some [OF i] by blast
    then have k: "k < strs_data_len ss" using i by (auto simp: strset_inv_def)
    have "str_at (visible ss) (hkey e) = n"
      using str_at_prefix [of "strs_data_len ss" "strset.strs_data ss" "visible ss" "hkey e"] v l(2) k e sl by simp
    moreover have "unat (str_off ss n) = k" using o k sl by (simp add: str_off_def unsigned_of_nat take_bit_nat_eq_self)
    ultimately show ?thesis using k sl e(3) by (simp add: str_at_def)
  qed
  moreover have "\<forall>a \<in> set ats. \<forall>n \<in> at_names a. \<exists>k. offset_of ss n = Some k" "list_all at_ok ats" "visible ss \<noteq> []" "hd (visible ss) = NUL" using bu by blast+
  ultimately show "text_ok (visible ss) (str_off ss) ats" unfolding text_ok_def using l(1) sl by metis
qed

lemma empty_parts:
  assumes "btf_new_empty True True None = Inr b"
  obtains d where "b = Btf None d" "parts d [NUL] []" "raw_data d = Some (btf_image False 1 0 [] [0])" "raw_size d = 25" "raw_data_swapped d = None"
proof -
  define d where "d = own b"
  have h: "hdr d = image_hdr 1 0 0 1" "raw_data d = Some (hdr_bytes (hdr d) @ [0])"
    and d: "b = Btf None d" "raw_size d = 25" "raw_data_swapped d = None" "types_data d = [0]" "nr_types d = 0" "start_id d = 1" "start_str_off d = 0" "strs_data d = Some [NUL]"
    using assms by (auto simp: btf_new_empty_def d_def Let_def image_hdr_def BTF_VERSION_def)
  have "parts d [NUL] []" using h d by (simp add: parts_def types_in_def btf_strs_data_def) (simp add: image_hdr_def)
  moreover have "raw_data d = Some (btf_image False 1 0 [] [0])" using h by (simp add: btf_image_def)
  ultimately show ?thesis using that d by blast
qed

lemma char_char_byte [simp]: "byte_char (char_byte c) = c"
  by (simp add: byte_char_def char_byte_def unsigned_of_nat take_bit_eq_mod)

lemma raw_parts:
  assumes p: "parts d vis ts" and n: "24 + length (types_bytes ts) + length vis < 2 ^ 32" and c: "(if sw then raw_data_swapped d else raw_data d) = None"
  shows "btf_get_raw_data True d sw = Some (Some (btf_image sw 1 0 ts (map char_byte vis), 24 + length (types_bytes ts) + length vis))"
proof -
  obtain s where s: "btf_strs_data d = Some s" "length vis \<le> length s" "take (length vis) s = vis" using p by (auto simp: parts_def)
  have "take (length vis) (map char_byte s) = map char_byte vis" using s(3) by (simp add: take_map)
  then show ?thesis using get_raw_data_image [where strs = "map char_byte vis" and d = d and ts = ts and sw = sw, OF _ _ _ s(1)] p n s(2) c by (simp add: parts_def)
qed

lemma load_parts:
  assumes p: "list_all type_ok ts" and t: "text_ok vis f ats" and n: "24 + length (types_bytes ts) + length vis < 2 ^ 32" and ok: "\<forall>n. ok n"
  obtains d where "btf_new True True ok (btf_image sw 1 0 ts (map char_byte vis)) None = Some (Inr (Btf None d))" "parts d vis ts"
proof -
  define strs where "strs = map char_byte vis"
  let ?h = "image_hdr 1 0 (length (types_bytes ts)) (length strs)"
  have v: "strs_valid (None \<noteq> (None :: btf option)) strs"
    using t by (auto simp: strs_valid_def strs_def text_ok_def last_map hd_map char_byte_def)
  have n': "24 + length (types_bytes ts) + length strs < 2 ^ 32" using n by (simp add: strs_def)
  obtain offs where o: "indexes (take (length ts) offs) 0 ts" "length ts \<le> length offs" and
    b: "btf_new True True ok (btf_image sw 1 0 ts strs) None = Some (Inr (Btf None (loaded None sw ?h (btf_image False 1 0 ts strs) offs (length ts))))"
    by (rule btf_new_image [OF p n' v ok])
  let ?d = "loaded None sw ?h (btf_image False 1 0 ts strs) offs (length ts)"
  have u: "unat (h_hdr_len ?h) = 24" "unat (h_type_off ?h) = 0" "unat (h_type_len ?h) = length (types_bytes ts)" "unat (h_str_off ?h) = length (types_bytes ts)"
    using n' by (simp_all add: image_hdr_def unsigned_of_nat take_bit_nat_eq_self)
  have im: "btf_image False 1 0 ts strs = hdr_bytes ?h @ types_bytes ts @ strs" by (simp add: btf_image_def Let_def)
  have "btf_strs_data ?d = Some (map byte_char strs)" "types_in ?d ts"
    using p o by (simp_all add: loaded_def btf_strs_data_def types_in_def u im)
  then have "parts ?d vis ts" by (simp add: parts_def loaded_def strs_def comp_def)
  then show ?thesis using that b by (simp add: strs_def)
qed


lemma bsim_parts:
  assumes "bsim b ats"
  obtains d vis f where "b = Btf None d" "parts d vis (map (conc f) ats)" "text_ok vis f ats"
    "raw_data_swapped d = None" "raw_data d = None \<or> raw_data d = Some (btf_image False 1 0 (map (conc f) ats) (map char_byte vis)) \<and> raw_size d = 24 + length (types_bytes (map (conc f) ats)) + length vis"
proof (cases "\<exists>d ss. b = Btf None d \<and> built d ss ats")
  case True
  then obtain d ss where d: "b = Btf None d" "built d ss ats" by blast
  then show ?thesis using that [OF d(1) built_parts(1) [OF d(2), unfolded cts_def] built_parts(2) [OF d(2)]] by (simp add: built_def)
next
  case False
  then have e: "btf_new_empty True True None = Inr b" "ats = []" using assms by (auto simp: bsim_def)
  obtain d where d: "b = Btf None d" "parts d [NUL] []" "raw_data d = Some (btf_image False 1 0 [] [0])" "raw_size d = 25" "raw_data_swapped d = None"
    by (rule empty_parts [OF e(1)])
  show ?thesis by (rule that [OF d(1), of "[NUL]" "\<lambda>_. 0"]) (use d e(2) in \<open>simp_all add: text_ok_def char_byte_def\<close>)
qed

lemma bsim_holds: "bsim b ats \<Longrightarrow> holds b ats"
  by (elim bsim_parts) (simp add: holds_parts)

lemma bsim_roundtrip:
  assumes s: "bsim b ats" and n: "24 + unat (h_type_len (hdr (own b))) + unat (h_str_len (hdr (own b))) < 2 ^ 32" and ok: "\<forall>n. realloc_ok n"
  shows "\<exists>raw b2. btf_get_raw_data True (own b) sw = Some (Some (raw, length raw)) \<and> btf_new True True realloc_ok raw None = Some (Inr b2) \<and> holds b2 ats"
proof -
  obtain d vis f where d: "b = Btf None d" "parts d vis (map (conc f) ats)" and t: "text_ok vis f ats" and r: "raw_data_swapped d = None"
      "raw_data d = None \<or> raw_data d = Some (btf_image False 1 0 (map (conc f) ats) (map char_byte vis)) \<and> raw_size d = 24 + length (types_bytes (map (conc f) ats)) + length vis"
    by (rule bsim_parts [OF s])
  let ?ts = "map (conc f) ats"
  have ti: "types_in d ?ts" and h: "hdr d = image_hdr 1 0 (length (types_bytes ?ts)) (length vis)" using d(2) by (simp_all add: parts_def)
  have "unat (h_type_len (hdr d)) = length (types_bytes ?ts)"
    using ti unfolding types_in_def by (metis length_take min.absorb2)
  moreover have "unat (h_str_len (hdr d)) = length vis" using t by (simp add: h image_hdr_def text_ok_def unsigned_of_nat take_bit_nat_eq_self)
  ultimately have n': "24 + length (types_bytes ?ts) + length vis < 2 ^ 32" using n d(1) by simp
  have raw: "btf_get_raw_data True d sw = Some (Some (btf_image sw 1 0 ?ts (map char_byte vis), 24 + length (types_bytes ?ts) + length vis))"
    using raw_parts [OF d(2) n', of sw] r by (cases sw) (auto simp: btf_get_raw_data_def)
  have "list_all type_ok ?ts" using ti by (simp add: types_in_def)
  then obtain d2 where "btf_new True True realloc_ok (btf_image sw 1 0 ?ts (map char_byte vis)) None = Some (Inr (Btf None d2))" "parts d2 vis ?ts"
    by (rule load_parts [OF _ t n' ok])
  moreover have "length (btf_image sw 1 0 ?ts (map char_byte vis)) = 24 + length (types_bytes ?ts) + length vis" by (simp add: btf_image_def Let_def)
  ultimately show ?thesis using raw d(1) holds_parts [OF _ t] by auto
qed

text \<open>Calls whose allocations all succeed.\<close>

definition all_ok :: "nat \<Rightarrow> build_allocs" where
  "all_ok n = \<lparr>al_hdr = True, al_types = True, al_set = True, al_new = True, al_data = True, al_calloc = calloc_of True, al_init = (\<lambda>_. True),
     al_strs = (\<lambda>_. True), al_entry = True, al_tmem = (\<lambda>_. True), al_offs = (\<lambda>_. True)\<rparr>"

definition build_example :: "bcmd list" where
  "build_example = [(all_ok, Add_int (Ref ''int'') 4 1), (all_ok, Add_struct (Ref ''s'') 4), (all_ok, Add_field (Ref ''x'') 1 0 0)]"


lemmas eval_hash = strset__new_def strset__add_str_def strset_add_str_mem_def libbpf_add_mem_def put_str_def init_loop.simps hashmap_insert_def hashmap_find_def hashmap_new_def
  bucket_of_def hash_bits_def index_on_def hashmap_init_def hashmap_find_entry_def hashmap_needs_to_grow_def hashmap_grow_def HASHMAP_MIN_CAP_BITS_def
  hashmap_entries_def hashmap_add_entry_def strset_hash_fn_def strset_equal_fn_def str_hash_def str_at_def chain_def calloc_of_def
  as_int_def ENOMEM_def EEXIST_def ENOENT_def BTF_MAX_STR_OFFSET_def strset__data_size_def

lemmas eval_build = btf_ensure_modifiable_def btf_invalidate_raw_data_def open_append_def append_type_def append_elem_def btf_commit_type_def btf_add_type_mem_def
  btf_add_type_idx_entry_def btf_add_type_offs_mem_def BTF_MAX_NR_TYPES_def UINT_MAX_def grow_hdr_def btf__add_str_def c_add_def stn_def patch_def ldn_def st32_def
  mk_type_def type_bytes_def words_of_def enc_def le32_bytes_def no_name_def bstep_def all_ok_def

lemma build_example_runs:
  assumes "btf_new_empty True True None = Inr b"
  shows "fst (run_steps bstep build_example b) = [Some 1, Some 2, Some 0]"
proof -
  have b: "b = projr (btf_new_empty True True None)" using assms by simp
  show ?thesis unfolding build_example_def b
    by (simp add: btf_new_empty_def BTF_VERSION_def Let_def eval_build eval_hash btf__add_int_def BTF_INT_SIGNED_def BTF_INT_CHAR_def BTF_INT_BOOL_def btf_type_info_def
     btf__add_struct_def btf_add_composite_def btf__add_field_def btf_last_type_def btf__type_cnt_def type_at_def ld_type_def ld_base_def ld32_def le32_def btf_is_composite_def btf_is_union_def
     btf_kind_def BTF_INFO_KIND_def btf_type_size_def btf_vlen_def BTF_INFO_VLEN_def validate_type_id_def set_info_def btf_kflag_def BTF_INFO_KFLAG_def)
qed

lemma build_example_guards: "guards_hold bguard bnext build_example [Some 1, Some 2, Some 0] []"
  by (simp add: build_example_def bguard_def bnext_def nstr_def all_ok_def calloc_bounded_def calloc_of_def valid_def on_last_def plain_def one_more_def id_ok_def
    BTF_MAX_NR_TYPES_def ENOMEM_def)

lemma build_example_spec:
  "spec_run ballowed bnext build_example [Some 1, Some 2, Some 0] [] = Some [plain ''int'' BTF_KIND_INT 4 [0x01000020], one_more (Some ''x'', [1, 0]) False (plain ''s'' BTF_KIND_STRUCT 4 [])]"
  by (simp add: build_example_def ballowed_def bnext_def nstr_def valid_def on_last_def plain_def one_more_def id_ok_def BTF_MAX_NR_TYPES_def ENOMEM_def)

lemma build_example_size:
  assumes "btf_new_empty True True None = Inr b"
  shows "24 + unat (h_type_len (hdr (own (snd (run_steps bstep build_example b))))) + unat (h_str_len (hdr (own (snd (run_steps bstep build_example b))))) < 2 ^ 32"
proof -
  have s: "run_steps bstep build_example b = ([Some 1, Some 2, Some 0], snd (run_steps bstep build_example b))"
    using build_example_runs [OF assms] by (metis prod.collapse)
  have "bsim b []" using assms by (simp add: bsim_def)
  from builder.run_simulates [OF this s build_example_guards]
  have "bsim (snd (run_steps bstep build_example b)) [plain ''int'' BTF_KIND_INT 4 [0x01000020], one_more (Some ''x'', [1, 0]) False (plain ''s'' BTF_KIND_STRUCT 4 [])]"
    (is "bsim ?b ?ats") by (simp add: build_example_spec)
  then obtain d vis f where d: "?b = Btf None d" "parts d vis (map (conc f) ?ats)" "text_ok vis f ?ats" by (rule bsim_parts)
  have "types_in d (map (conc f) ?ats)" using d(2) by (simp add: parts_def)
  then have "unat (h_type_len (hdr d)) = length (types_bytes (map (conc f) ?ats))" unfolding types_in_def by (metis length_take min.absorb2)
  then have "unat (h_type_len (hdr d)) = 40" by (simp add: plain_def one_more_def conc_def elem_words_def)
  moreover have "unat (h_str_len (hdr d)) < 2 ^ 31"
    using d(2,3) by (simp add: parts_def image_hdr_def text_ok_def unsigned_of_nat take_bit_nat_eq_self)
  ultimately show ?thesis using d(1) by simp
qed

text \<open>
  C20: Building BTF does what the calls ask for. Take new BTF and any sequence of \<^verbatim>\<open>btf__add_*\<close> calls, whichever allocations fail. No call reads or writes outside memory. Each call returns what the specification allows: a
  refusal exactly for the arguments that are not valid at that point, the next type id for a new type, 0 for a new element of the last type, or \<^verbatim>\<open>-ENOMEM\<close> with nothing changed that can be seen.
  Afterwards the BTF has exactly the types that the successful calls have added, in their order, and every name is found at the offset that the type has for it. A list has at most 65535 elements.
\<close>

theorem btf_build_refines:
  assumes "btf_new_empty True True None = Inr b" "run_steps bstep cs b = (rs, b')" "guards_hold bguard bnext cs rs []"
  shows "\<exists>ats. spec_run ballowed bnext cs rs [] = Some ats \<and> holds b' ats"
proof -
  have "bsim b []" using assms(1) by (simp add: bsim_def)
  from builder.run_simulates [OF this assms(2,3)] obtain ats where a: "spec_run ballowed bnext cs rs [] = Some ats" "bsim b' ats" by blast
  then show ?thesis using bsim_holds by blast
qed

theorem btf_build_refines_witness:
  "\<exists>b. btf_new_empty True True None = Inr b \<and> fst (run_steps bstep build_example b) = [Some 1, Some 2, Some 0] \<and>
     holds (snd (run_steps bstep build_example b)) [plain ''int'' BTF_KIND_INT 4 [0x01000020], one_more (Some ''x'', [1, 0]) False (plain ''s'' BTF_KIND_STRUCT 4 [])]"
proof -
  obtain b where b: "btf_new_empty True True None = Inr b" by (simp add: btf_new_empty_def Let_def)
  note r = build_example_runs [OF b]
  have "run_steps bstep build_example b = ([Some 1, Some 2, Some 0], snd (run_steps bstep build_example b))" using r by (metis prod.collapse)
  from btf_build_refines [OF b this build_example_guards] show ?thesis using b r by (auto simp: build_example_spec)
qed

text \<open>
  C21: What has been built can be written and loaded again. After any sequence of calls on new BTF, if everything together is smaller than 4 GiB, the raw data of the BTF, in either byte order, is accepted by
  \<^verbatim>\<open>btf_new\<close> when its allocations succeed, and the loaded BTF has exactly the types, elements and names that the calls have added.
\<close>

theorem btf_build_roundtrip:
  assumes "btf_new_empty True True None = Inr b" "run_steps bstep cs b = (rs, b')" "guards_hold bguard bnext cs rs []"
    and "24 + unat (h_type_len (hdr (own b'))) + unat (h_str_len (hdr (own b'))) < 2 ^ 32" "\<forall>n. realloc_ok n"
  shows "\<exists>ats raw b2. spec_run ballowed bnext cs rs [] = Some ats \<and> btf_get_raw_data True (own b') sw = Some (Some (raw, length raw)) \<and>
    btf_new True True realloc_ok raw None = Some (Inr b2) \<and> holds b2 ats"
proof -
  have "bsim b []" using assms(1) by (simp add: bsim_def)
  from builder.run_simulates [OF this assms(2,3)] obtain ats where a: "spec_run ballowed bnext cs rs [] = Some ats" "bsim b' ats" by blast
  then show ?thesis using bsim_roundtrip [OF a(2) assms(4,5)] by blast
qed

theorem btf_build_roundtrip_witness:
  "\<exists>b raw b2. btf_new_empty True True None = Inr b \<and> btf_get_raw_data True (own (snd (run_steps bstep build_example b))) True = Some (Some (raw, length raw)) \<and>
     btf_new True True (\<lambda>_. True) raw None = Some (Inr b2) \<and>
     holds b2 [plain ''int'' BTF_KIND_INT 4 [0x01000020], one_more (Some ''x'', [1, 0]) False (plain ''s'' BTF_KIND_STRUCT 4 [])]"
proof -
  obtain b where b: "btf_new_empty True True None = Inr b" by (simp add: btf_new_empty_def Let_def)
  note r = build_example_runs [OF b]
  have s: "run_steps bstep build_example b = ([Some 1, Some 2, Some 0], snd (run_steps bstep build_example b))" using r by (metis prod.collapse)
  from btf_build_roundtrip [OF b s build_example_guards build_example_size [OF b], of "\<lambda>_. True" True] show ?thesis using b by (auto simp: build_example_spec)
qed

end
