(* ===== verification/Btf_Copy.thy ===== *)
theory Btf_Copy
  imports Btf_Build_Spec
begin

text \<open>
  Copying types between BTFs: the visitors of \<^verbatim>\<open>lib/libbpf/src/btf.c\<close> that go through the string offsets and the type ids of a type, \<^verbatim>\<open>btf__add_type\<close> and \<^verbatim>\<open>btf__add_btf\<close>.
  A type in memory is visited as the list of its words. The source and the destination are different BTFs. The outcomes of allocations are functions of the number of the call that makes them.
\<close>

section \<open>Visitors\<close>

text \<open>The words of a type that are string offsets and type ids, in the order of the visits. Word 0 is \<^verbatim>\<open>name_off\<close>, word 2 is \<^verbatim>\<open>type\<close>, and word 3 is the first behind the record.\<close>

definition str_slots :: "btf_type \<Rightarrow> nat list" where
  "str_slots t = (let kind = btf_kind t; vlen = btf_vlen t in
     0 # (if kind \<in> {BTF_KIND_STRUCT, BTF_KIND_UNION} then map (\<lambda>i. 3 + 3 * i) [0..<vlen]
          else if kind = BTF_KIND_ENUM then map (\<lambda>i. 3 + 2 * i) [0..<vlen]
          else if kind = BTF_KIND_ENUM64 then map (\<lambda>i. 3 + 3 * i) [0..<vlen]
          else if kind = BTF_KIND_FUNC_PROTO then map (\<lambda>i. 3 + 2 * i) [0..<vlen]
          else []))"

definition id_slots :: "btf_type \<Rightarrow> nat list option" where
  "id_slots t = (let kind = btf_kind t; vlen = btf_vlen t in
     if kind \<in> {BTF_KIND_INT, BTF_KIND_FLOAT, BTF_KIND_ENUM, BTF_KIND_ENUM64} then Some []
     else if kind \<in> {BTF_KIND_FWD, BTF_KIND_CONST, BTF_KIND_VOLATILE, BTF_KIND_RESTRICT, BTF_KIND_PTR, BTF_KIND_TYPEDEF, BTF_KIND_FUNC, BTF_KIND_VAR,
       BTF_KIND_DECL_TAG, BTF_KIND_TYPE_TAG} then Some [2]
     else if kind = BTF_KIND_ARRAY then Some [3, 4]
     else if kind \<in> {BTF_KIND_STRUCT, BTF_KIND_UNION} then Some (map (\<lambda>i. 4 + 3 * i) [0..<vlen])
     else if kind = BTF_KIND_FUNC_PROTO then Some (2 # map (\<lambda>i. 4 + 2 * i) [0..<vlen])
     else if kind = BTF_KIND_DATASEC then Some (map (\<lambda>i. 3 + 3 * i) [0..<vlen])
     else None)"

text \<open>The loops of the visitors: a visit has a result, the new word and the context. The first result that is not 0 ends the loop.\<close>

fun visit_words :: "(u32 \<Rightarrow> 's \<Rightarrow> (int \<times> u32 \<times> 's) option) \<Rightarrow> nat list \<Rightarrow> u32 list \<Rightarrow> 's \<Rightarrow> (int \<times> u32 list \<times> 's) option" where
  "visit_words visit [] ws s = Some (0, ws, s)"
| "visit_words visit (i # is) ws s =
     (if i \<ge> length ws then None
      else do {
        (err, w, s1) \<leftarrow> visit (ws ! i) s;
        if err \<noteq> 0 then Some (err, ws[i := w], s1) else visit_words visit is (ws[i := w]) s1 })"

definition btf_type_visit_str_offs :: "(u32 \<Rightarrow> 's \<Rightarrow> (int \<times> u32 \<times> 's) option) \<Rightarrow> btf_type \<Rightarrow> u32 list \<Rightarrow> 's \<Rightarrow> (int \<times> u32 list \<times> 's) option" where
  "btf_type_visit_str_offs visit t ws s = visit_words visit (str_slots t) ws s"

definition btf_type_visit_type_ids :: "(u32 \<Rightarrow> 's \<Rightarrow> (int \<times> u32 \<times> 's) option) \<Rightarrow> btf_type \<Rightarrow> u32 list \<Rightarrow> 's \<Rightarrow> (int \<times> u32 list \<times> 's) option" where
  "btf_type_visit_type_ids visit t ws s = (case id_slots t of None \<Rightarrow> Some (- EINVAL, ws, s) | Some is \<Rightarrow> visit_words visit is ws s)"

section \<open>Strings and type ids\<close>

text \<open>The context of \<^verbatim>\<open>btf_rewrite_str\<close>: the destination, the map of offsets if there is one, and the number of calls so far. A string that the source does not have is a null pointer for \<^verbatim>\<open>btf__add_str\<close>.\<close>

record btf_pipe =
  dst :: btf
  str_off_map :: "hashmap option"
  calls :: nat

record copy_allocs =
  ca_calls :: "nat \<Rightarrow> nat \<Rightarrow> build_allocs"
  ca_map_new :: bool
  ca_map_calloc :: "nat \<Rightarrow> nat \<Rightarrow> bool"
  ca_map_entry :: "nat \<Rightarrow> bool"

definition btf_rewrite_str :: "copy_allocs \<Rightarrow> btf \<Rightarrow> u32 \<Rightarrow> btf_pipe \<Rightarrow> (int \<times> u32 \<times> btf_pipe) option" where
  "btf_rewrite_str ca src str_off0 p =
     (if str_off0 = 0 then Some (0, str_off0, p)
      else case Option.bind (str_off_map p) (\<lambda>m. hashmap_find m (ucast str_off0)) of
        Some mapped_off \<Rightarrow> Some (0, ucast mapped_off, p)
      | None \<Rightarrow> do {
          s \<leftarrow> btf__str_by_offset src (unat str_off0);
          case s of Null \<Rightarrow> None
          | Ref s1 \<Rightarrow> do {
              (off, dst1) \<leftarrow> btf__add_str (ca_calls ca (calls p)) (dst p) s1;
              let p1 = p\<lparr>dst := dst1, calls := calls p + 1\<rparr> in
              if off < 0 then Some (off, str_off0, p1)
              else case str_off_map p1 of
                None \<Rightarrow> Some (0, word_of_int off, p1)
              | Some m \<Rightarrow>
                  let (err, old, m1) = hashmap_insert (ca_map_calloc ca (calls p)) (ca_map_entry ca (calls p)) m (ucast str_off0) (word_of_int off) HASHMAP_APPEND;
                      p2 = p1\<lparr>str_off_map := Some m1\<rparr> in
                  Some (if err \<noteq> 0 then (err, str_off0, p2) else (0, word_of_int off, p2)) } })"

definition btf_rewrite_type_ids :: "btf \<Rightarrow> u32 \<Rightarrow> unit \<Rightarrow> (int \<times> u32 \<times> unit) option" where
  "btf_rewrite_type_ids b type_id s =
     Some (0, if type_id = 0 then type_id else type_id + word_of_nat (start_id (own b) + nr_types (own b) - 1), s)"

section \<open>One type\<close>

definition put_types :: "btf \<Rightarrow> nat \<Rightarrow> mem \<Rightarrow> btf option" where
  "put_types b p bs = do { m \<leftarrow> stn (types_data (own b)) p bs; Some (Btf (base_btf b) ((own b)\<lparr>types_data := m\<rparr>)) }"

definition btf__add_type :: "copy_allocs \<Rightarrow> btf \<Rightarrow> btf \<Rightarrow> btf_type \<Rightarrow> (int \<times> btf) option" where
  "btf__add_type ca b src t = (let sz0 = btf_type_size t; n = nat sz0 div 4 in
     if sz0 < 0 then Some (sz0, b)
     else if length (words_of t) < n then None
     else do {
       (err, b1) \<leftarrow> open_append (ca_calls ca 0) b Null (nat sz0);
       if err \<noteq> 0 then Some (err, b1)
       else let p = unat (h_type_len (hdr (own b1))); ws = take n (words_of t) in do {
         b2 \<leftarrow> put_types b1 p (enc ws);
         (err, ws1, pipe) \<leftarrow> btf_type_visit_str_offs (btf_rewrite_str ca src) t ws \<lparr>dst = b2, str_off_map = None, calls = 1\<rparr>;
         b3 \<leftarrow> put_types (dst pipe) p (enc ws1);
         Some (if err \<noteq> 0 then (err, b3) else btf_commit_type (ca_calls ca 0 0) b3 (nat sz0)) } })"

section \<open>All types of a BTF\<close>

definition ENOTSUP :: int where "ENOTSUP = 95"

definition btf_dedup_identity_hash_fn :: "u64 \<Rightarrow> u64" where
  "btf_dedup_identity_hash_fn key = key"

definition btf_dedup_equal_fn :: "u64 \<Rightarrow> u64 \<Rightarrow> bool" where
  "btf_dedup_equal_fn k1 k2 \<longleftrightarrow> k1 = k2"

text \<open>The loop over the copied types, \<open>n\<close> of which are left, with the next at \<open>p\<close> and its entry of the index at \<open>i\<close>.\<close>

fun copy_types :: "copy_allocs \<Rightarrow> btf \<Rightarrow> nat \<Rightarrow> nat \<Rightarrow> nat \<Rightarrow> btf_pipe \<Rightarrow> (int \<times> btf_pipe) option" where
  "copy_types ca src 0 p i pipe = Some (0, pipe)"
| "copy_types ca src (Suc n) p i pipe = do {
     t0 \<leftarrow> ld_base (types_data (own (dst pipe))) p;
     let sz0 = btf_type_size t0 in
     if sz0 < 0 then Some (sz0, pipe)
     else let d = own (dst pipe) in
     if i \<ge> length (type_offs d) then None
     else do {
       t \<leftarrow> ld_type (types_data d) p;
       let pipe1 = pipe\<lparr>dst := Btf (base_btf (dst pipe)) (d\<lparr>type_offs := (type_offs d)[i := word_of_nat p]\<rparr>)\<rparr> in do {
       (err, ws, pipe2) \<leftarrow> btf_type_visit_str_offs (btf_rewrite_str ca src) t (words_of t) pipe1;
       b2 \<leftarrow> put_types (dst pipe2) p (enc ws);
       if err \<noteq> 0 then Some (err, pipe2\<lparr>dst := b2\<rparr>)
       else do {
         (err, ws1, u) \<leftarrow> btf_type_visit_type_ids (btf_rewrite_type_ids b2) t ws ();
         b3 \<leftarrow> put_types b2 p (enc ws1);
         if err \<noteq> 0 then Some (err, pipe2\<lparr>dst := b3\<rparr>)
         else copy_types ca src n (p + nat sz0) (i + 1) (pipe2\<lparr>dst := b3\<rparr>) } } } }"

text \<open>The size of the types is an \<^verbatim>\<open>int\<close>, which is negative from 2 GiB on and huge when it is used as a size.\<close>

definition int_size :: "u32 \<Rightarrow> nat" where
  "int_size n = (if unat n < 2 ^ 31 then unat n else 2 ^ 64 - 2 ^ 32 + unat n)"

text \<open>The way out after an error clears the copied types and what \<^verbatim>\<open>strs_data\<close> has got since; for a modifiable BTF that is a null pointer.\<close>

definition undo_copy :: "btf \<Rightarrow> nat \<Rightarrow> u32 \<Rightarrow> btf option" where
  "undo_copy b data_sz old_strs_len = do {
     b1 \<leftarrow> put_types b (unat (h_type_len (hdr (own b)))) (replicate data_sz 0);
     let d = own b1; o1 = unat old_strs_len; n = unat (h_str_len (hdr d) - old_strs_len) in do {
     s \<leftarrow> (if n = 0 then Some (strs_data d)
           else case strs_data d of None \<Rightarrow> None | Some s \<Rightarrow> if o1 + n \<le> length s then Some (Some (take o1 s @ replicate n NUL @ drop (o1 + n) s)) else None);
     Some (Btf (base_btf b1) (d\<lparr>strs_data := s, hdr := hdr d\<lparr>h_str_len := old_strs_len\<rparr>\<rparr>)) } }"

definition btf__add_btf :: "copy_allocs \<Rightarrow> btf \<Rightarrow> btf \<Rightarrow> (int \<times> btf) option" where
  "btf__add_btf ca b src =
     (if base_btf src \<noteq> None then Some (- ENOTSUP, b)
      else let data_sz = int_size (h_type_len (hdr (own src))); cnt = btf__type_cnt src - 1; al = ca_calls ca 0 0 in do {
        (err, b1) \<leftarrow> open_append (ca_calls ca 0) b Null data_sz;
        if err \<noteq> 0 then Some (err, b1)
        else let d1 = own b1; p = unat (h_type_len (hdr d1)) in
        case btf_add_type_offs_mem (al_offs al) (type_offs d1) (nr_types d1) cnt of
          None \<Rightarrow> Some (- ENOMEM, b1)
        | Some offs \<Rightarrow>
            let b2 = Btf (base_btf b1) (d1\<lparr>type_offs := offs\<rparr>) in
            case hashmap_new (ca_map_new ca) btf_dedup_identity_hash_fn btf_dedup_equal_fn of
              Inl e \<Rightarrow> Some (- ENOMEM, b2)
            | Inr m \<Rightarrow> do {
                bs \<leftarrow> ldn (types_data (own src)) 0 data_sz;
                b3 \<leftarrow> put_types b2 p bs;
                (err, pipe) \<leftarrow> copy_types ca src cnt p (nr_types d1) \<lparr>dst = b3, str_off_map = Some m, calls = 1\<rparr>;
                let d = own (dst pipe) in
                if err \<noteq> 0 then do { b4 \<leftarrow> undo_copy (dst pipe) data_sz (h_str_len (hdr d1)); Some (err, b4) }
                else Some (int (start_id d + nr_types d), Btf (base_btf (dst pipe)) (grow_hdr data_sz (d\<lparr>nr_types := nr_types d + cnt\<rparr>))) } })"

section \<open>Rewriting the strings of a type\<close>

definition ca_ok :: "copy_allocs \<Rightarrow> bool" where
  "ca_ok ca \<longleftrightarrow> (\<forall>k. calloc_bounded (al_calloc (ca_calls ca k 0)) \<and> calloc_bounded (ca_map_calloc ca k))"

text \<open>The source has the string under the offset.\<close>

definition src_name :: "btf \<Rightarrow> (string \<Rightarrow> u32) \<Rightarrow> string \<Rightarrow> bool" where
  "src_name src f n \<longleftrightarrow> n \<noteq> [] \<longrightarrow> f n \<noteq> 0 \<and> btf__str_by_offset src (unat (f n)) = Some (Ref n) \<and> NUL \<notin> set n"

text \<open>The destination is BTF that is being built, and the map has offsets of its strings.\<close>

definition map_ok :: "btf \<Rightarrow> strset \<Rightarrow> hashmap \<Rightarrow> bool" where
  "map_ok src ss m \<longleftrightarrow> hm_inv btf_dedup_equal_fn m \<and>
     (\<forall>k v. hashmap_find m (ucast (k :: u32)) = Some v \<longrightarrow> (\<exists>n. btf__str_by_offset src (unat k) = Some (Ref n) \<and> offset_of ss n = Some (unat v)))"

definition pipe_ok :: "btf \<Rightarrow> strset \<Rightarrow> atype list \<Rightarrow> btf_data \<Rightarrow> btf_pipe \<Rightarrow> bool" where
  "pipe_ok src ss ats d p \<longleftrightarrow> dst p = Btf None d \<and> built d ss ats \<and> (\<forall>m. str_off_map p = Some m \<longrightarrow> map_ok src ss m)"

text \<open>What a visit may change, for the names \<open>ns\<close>: strings are added, and only if one of the names is new.\<close>

definition more_strs :: "string set \<Rightarrow> strset \<Rightarrow> btf_data \<Rightarrow> strset \<Rightarrow> btf_data \<Rightarrow> bool" where
  "more_strs ns ss d ss' d' \<longleftrightarrow> (\<forall>n k. offset_of ss n = Some k \<longrightarrow> offset_of ss' n = Some k) \<and>
     (\<exists>h. d' = d\<lparr>strs_set := Some ss', hdr := hdr d\<lparr>h_str_len := h\<rparr>\<rparr> \<and> ((\<forall>n \<in> ns - {[]}. offset_of ss n \<noteq> None) \<longrightarrow> h = h_str_len (hdr d)))"

lemma more_strs_refl: "strs_set d = Some ss \<Longrightarrow> more_strs ns ss d ss d"
  unfolding more_strs_def by (intro conjI exI [of _ "h_str_len (hdr d)"]) simp_all

lemma more_strs_trans:
  assumes a: "more_strs ns1 ss d ss1 d1" and b: "more_strs ns2 ss1 d1 ss2 d2"
  shows "more_strs (ns1 \<union> ns2) ss d ss2 d2"
proof -
  obtain h1 where h1: "d1 = d\<lparr>strs_set := Some ss1, hdr := hdr d\<lparr>h_str_len := h1\<rparr>\<rparr>" "(\<forall>n \<in> ns1 - {[]}. offset_of ss n \<noteq> None) \<longrightarrow> h1 = h_str_len (hdr d)"
    and m: "\<forall>n k. offset_of ss n = Some k \<longrightarrow> offset_of ss1 n = Some k" using a by (auto simp: more_strs_def)
  obtain h2 where h2: "d2 = d1\<lparr>strs_set := Some ss2, hdr := hdr d1\<lparr>h_str_len := h2\<rparr>\<rparr>" "(\<forall>n \<in> ns2 - {[]}. offset_of ss1 n \<noteq> None) \<longrightarrow> h2 = h_str_len (hdr d1)"
    and m2: "\<forall>n k. offset_of ss1 n = Some k \<longrightarrow> offset_of ss2 n = Some k" using b by (auto simp: more_strs_def)
  have "h2 = h_str_len (hdr d)" if k: "\<forall>n \<in> (ns1 \<union> ns2) - {[]}. offset_of ss n \<noteq> None"
  proof -
    have "\<forall>n \<in> ns2 - {[]}. offset_of ss1 n \<noteq> None" using k m by (metis DiffD1 DiffD2 DiffI UnI2 not_None_eq)
    then show ?thesis using h1 h2(2) k by simp
  qed
  moreover have "d2 = d\<lparr>strs_set := Some ss2, hdr := hdr d\<lparr>h_str_len := h2\<rparr>\<rparr>" using h1(1) h2(1) by simp
  ultimately show ?thesis using m m2 unfolding more_strs_def by blast
qed

lemma more_strs_nm:
  assumes "more_strs ns ss d ss' d'" "n \<noteq> [] \<longrightarrow> offset_of ss n \<noteq> None"
  shows "nm (str_off ss') n = nm (str_off ss) n" "n \<noteq> [] \<longrightarrow> offset_of ss' n \<noteq> None"
  using assms by (auto simp: more_strs_def nm_def str_off_def)

lemma map_ok_more: "map_ok src ss m \<Longrightarrow> more_strs ns ss d ss' d' \<Longrightarrow> map_ok src ss' m"
  unfolding map_ok_def more_strs_def by metis

lemma pipe_set: "pipe_ok src ss ats d p \<Longrightarrow> strs_set d = Some ss"
  by (simp add: built_def pipe_ok_def)

lemma unat_u32_u64: "unat (ucast k :: u64) = unat k" for k :: u32
proof -
  have "unat k < 2 ^ 64" using unsigned_less [of k, where ?'a = nat] by simp
  then show ?thesis by (simp add: unsigned_ucast_eq take_bit_nat_eq_self)
qed

lemma ucast_inj: "ucast k = (ucast k' :: u64) \<Longrightarrow> k = k'" for k k' :: u32
  by (metis unat_u32_u64 word_unat_eq_iff)

lemma rewrite_ok:
  assumes ca: "ca_ok ca" and p: "pipe_ok src ss ats d p" and n: "src_name src f n"
  obtains err w p' ss' d' where "btf_rewrite_str ca src (nm f n) p = Some (err, w, p')" "pipe_ok src ss' ats d' p'" "more_strs {n} ss d ss' d'"
    "err = - ENOMEM \<or> err = 0 \<and> w = nm (str_off ss') n \<and> (n \<noteq> [] \<longrightarrow> offset_of ss' n \<noteq> None)"
proof (cases "n = []")
  case True
  show ?thesis
    by (rule that [OF _ p more_strs_refl [OF pipe_set [OF p]], of 0 0]) (use True in \<open>simp_all add: btf_rewrite_str_def nm_def\<close>)
next
  case False
  then have s: "f n \<noteq> 0" "btf__str_by_offset src (unat (f n)) = Some (Ref n)" "NUL \<notin> set n" "nm f n = f n" using n by (simp_all add: src_name_def nm_def)
  have b: "dst p = Btf None d" "built d ss ats" and m: "\<And>m. str_off_map p = Some m \<Longrightarrow> map_ok src ss m" using p by (auto simp: pipe_ok_def)
  show ?thesis
  proof (cases "Option.bind (str_off_map p) (\<lambda>m. hashmap_find m (ucast (f n)))")
    case (Some v)
    then obtain mm where "str_off_map p = Some mm" "hashmap_find mm (ucast (f n)) = Some v" by (auto simp: bind_eq_Some_conv)
    then obtain n' where "btf__str_by_offset src (unat (f n)) = Some (Ref n')" "offset_of ss n' = Some (unat v)" using m by (auto simp: map_ok_def)
    then have o: "offset_of ss n = Some (unat v)" using s(2) by simp
    have "ucast v = (word_of_nat (unat v) :: u32)" by simp
    then show ?thesis using that [OF _ p more_strs_refl [OF pipe_set [OF p]], of 0 "ucast v"] Some s o False
      by (simp add: btf_rewrite_str_def nm_def str_off_def)
  next
    case None
    let ?al = "ca_calls ca (calls p)"
    have c: "calloc_bounded (al_calloc (?al 0))" "calloc_bounded (ca_map_calloc ca (calls p))" using ca by (simp_all add: ca_ok_def)
    obtain r ss' h where a: "btf__add_str ?al (Btf None d) n = Some (r, Btf None (d\<lparr>strs_set := Some ss', hdr := hdr d\<lparr>h_str_len := h\<rparr>\<rparr>))"
        "built (d\<lparr>strs_set := Some ss', hdr := hdr d\<lparr>h_str_len := h\<rparr>\<rparr>) ss' ats" "r = - ENOMEM \<or> (\<exists>off. offset_of ss' n = Some off \<and> r = int off)"
        "\<And>x k. offset_of ss x = Some k \<Longrightarrow> offset_of ss' x = Some k" "offset_of ss n \<noteq> None \<Longrightarrow> h = h_str_len (hdr d)"
      by (rule add_str_ok [where al = ?al, OF b(2) s(3) c(1)]) blast
    define d' where "d' = d\<lparr>strs_set := Some ss', hdr := hdr d\<lparr>h_str_len := h\<rparr>\<rparr>"
    have ms: "more_strs {n} ss d ss' d'" unfolding more_strs_def d'_def using a(4,5) False by blast
    define p1 where "p1 = p\<lparr>dst := Btf None d', calls := calls p + 1\<rparr>"
    have p1: "pipe_ok src ss' ats d' p1" using a(2) m map_ok_more [OF _ ms] by (auto simp: pipe_ok_def p1_def d'_def)
    show ?thesis
    proof (cases "r < 0")
      case True
      then show ?thesis using that [OF _ p1 ms, of r "f n"] a(1,3) None s b(1) by (auto simp: btf_rewrite_str_def p1_def d'_def)
    next
      case r: False
      then obtain off where off: "offset_of ss' n = Some off" "r = int off" using a(3) by (auto simp: ENOMEM_def)
      have w: "word_of_int r = nm (str_off ss') n" using off False by (simp add: nm_def str_off_def)
      show ?thesis
      proof (cases "str_off_map p")
        case mn: None
        then show ?thesis using that [OF _ p1 ms, of 0 "word_of_int r"] a(1) r s b(1) w off by (simp add: btf_rewrite_str_def p1_def d'_def)
      next
        case mm: (Some mm)
        obtain err old m1 where ins: "hashmap_insert (ca_map_calloc ca (calls p)) (ca_map_entry ca (calls p)) mm (ucast (f n)) (word_of_int r) HASHMAP_APPEND = (err, old, m1)"
          using prod_cases3 by blast
        have mo: "map_ok src ss' mm" using m [OF mm] map_ok_more [OF _ ms] by blast
        have fn: "hashmap_find mm (ucast (f n)) = None" using None mm by simp
        have i: "hm_inv btf_dedup_equal_fn mm" using mo by (simp add: map_ok_def)
        note f = insert_new [OF i c(2) fn _ ins]
        have sm: "off < 2 ^ 31"
          using off(1) offset_of_Some [of ss' n off] a(2) by (auto simp: built_def strset_inv_def)
        then have ro: "unat (word_of_int r :: u64) = off" using off(2) by (simp add: unsigned_of_nat take_bit_nat_eq_self)
        have "map_ok src ss' m1 \<and> (err = 0 \<or> err = - ENOMEM)"
        proof -
          have "err = 0 \<and> hashmap_find m1 = (\<lambda>k'. if ucast (f n) = k' then Some (word_of_int r) else hashmap_find mm k') \<or> err = - ENOMEM \<and> hashmap_find m1 = hashmap_find mm"
            "hm_inv btf_dedup_equal_fn m1" using f by (auto simp: btf_dedup_equal_fn_def)
          then show ?thesis using mo off(1) s(2) ro unfolding map_ok_def by (auto split: if_splits dest!: ucast_inj)
        qed
        then have p2: "pipe_ok src ss' ats d' (p1\<lparr>str_off_map := Some m1\<rparr>)" and err: "err = 0 \<or> err = - ENOMEM"
          using p1 by (simp_all add: pipe_ok_def)
        show ?thesis
          by (rule that [OF _ p2 ms, of err "if err \<noteq> 0 then f n else word_of_int r"])
            (use a(1) r s b(1) w off err mm fn ins in \<open>auto simp: btf_rewrite_str_def p1_def d'_def Let_def\<close>)
      qed
    qed
  qed
qed

lemma more_strs_sub: "more_strs ns ss d ss' d' \<Longrightarrow> ns - {[]} \<subseteq> ns' - {[]} \<Longrightarrow> more_strs ns' ss d ss' d'"
  unfolding more_strs_def by blast

section \<open>The words of a type\<close>

text \<open>The layout of an abstract type: every word is a name or a number.\<close>

definition elem_layout :: "string option \<times> u32 list \<Rightarrow> (string + u32) list" where
  "elem_layout e = (case fst e of None \<Rightarrow> map Inr (snd e) | Some n \<Rightarrow> Inl n # map Inr (snd e))"

definition layout :: "atype \<Rightarrow> (string + u32) list" where
  "layout a = [Inl (at_name a), Inr (btf_type_info (at_kind a) (at_vlen a) (at_kflag a)), Inr (at_size a)] @ map Inr (at_fixed a) @ concat (map elem_layout (at_elems a))"

definition ev :: "(string \<Rightarrow> u32) \<Rightarrow> string + u32 \<Rightarrow> u32" where
  "ev f x = (case x of Inl n \<Rightarrow> nm f n | Inr w \<Rightarrow> w)"

lemma ev_simps [simp]: "ev f (Inl n) = nm f n" "ev f (Inr w) = w" "map (ev f \<circ> Inr) ws = ws"
  by (simp_all add: ev_def comp_def)

lemma words_layout: "words_of (conc f a) = map (ev f) (layout a)"
proof -
  have "elem_words f = (\<lambda>e. map (ev f) (elem_layout e))" by (auto simp: fun_eq_iff elem_words_def elem_layout_def split: option.split)
  then show ?thesis by (simp add: words_of_def conc_def layout_def map_concat comp_def)
qed

definition layout_names :: "atype \<Rightarrow> string set" where
  "layout_names a = {n. Inl n \<in> set (layout a)}"

lemma layout_names_at: "layout_names a - {[]} = at_names a"
proof -
  have "Inl n \<in> set (elem_layout e) \<longleftrightarrow> fst e = Some n" for n e by (auto simp: elem_layout_def split: option.split)
  then show ?thesis by (force simp: layout_names_def layout_def at_names_def)
qed

text \<open>Visiting every name of a layout.\<close>

lemma visit_ok:
  assumes ca: "ca_ok ca" and p: "pipe_ok src ss ats d p" and ns: "\<forall>n. Inl n \<in> set L \<longrightarrow> src_name src f n"
    and l: "length ws = length L" "distinct is" "\<forall>i \<in> set is. i < length L \<and> (\<exists>n. L ! i = Inl n) \<and> ws ! i = ev f (L ! i)"
  shows "\<exists>err ws' p' ss' d'. visit_words (btf_rewrite_str ca src) is ws p = Some (err, ws', p') \<and> pipe_ok src ss' ats d' p' \<and> more_strs {n. Inl n \<in> set L} ss d ss' d' \<and>
    length ws' = length L \<and> (err = - ENOMEM \<or> err = 0 \<and> (\<forall>i < length L. ws' ! i = (if i \<in> set is then ev (str_off ss') (L ! i) else ws ! i)) \<and>
      (\<forall>i \<in> set is. \<forall>n. L ! i = Inl n \<longrightarrow> n \<noteq> [] \<longrightarrow> offset_of ss' n \<noteq> None))"
  using p l
proof (induction "is" arbitrary: ws p ss d)
  case Nil
  then show ?case using more_strs_refl [OF pipe_set [OF Nil(1)]] by (intro exI [of _ 0] exI [of _ ws] exI [of _ p] exI [of _ ss] exI [of _ d]) simp
next
  case (Cons i "is")
  obtain n where n: "i < length L" "L ! i = Inl n" "ws ! i = nm f n" using Cons.prems(4) by auto
  have nL: "Inl n \<in> set L" using n by (metis nth_mem)
  obtain err w p1 ss1 d1 where r: "btf_rewrite_str ca src (nm f n) p = Some (err, w, p1)" "pipe_ok src ss1 ats d1 p1" "more_strs {n} ss d ss1 d1"
      "err = - ENOMEM \<or> err = 0 \<and> w = nm (str_off ss1) n \<and> (n \<noteq> [] \<longrightarrow> offset_of ss1 n \<noteq> None)"
    by (rule rewrite_ok [OF ca Cons.prems(1) ns [rule_format, OF nL]])
  show ?case
  proof (cases "err = 0")
    case False
    then have e: "err = - ENOMEM" using r(4) by blast
    have "more_strs {n. Inl n \<in> set L} ss d ss1 d1" using nL by (intro more_strs_sub [OF r(3)]) auto
    then show ?thesis using r(1,2) e False n Cons.prems(2)
      by (intro exI [of _ err] exI [of _ "ws[i := w]"] exI [of _ p1] exI [of _ ss1] exI [of _ d1]) simp
  next
    case True
    then have w: "w = nm (str_off ss1) n" "n \<noteq> [] \<longrightarrow> offset_of ss1 n \<noteq> None" using r(4) by (auto simp: ENOMEM_def)
    have "\<forall>j \<in> set is. j < length L \<and> (\<exists>n. L ! j = Inl n) \<and> ws[i := w] ! j = ev f (L ! j)"
      using Cons.prems(3,4) by (metis distinct.simps(2) insert_iff list.set(2) nth_list_update_neq)
    from Cons.IH [OF r(2) _ _ this] obtain err2 ws2 p2 ss2 d2 where v: "visit_words (btf_rewrite_str ca src) is (ws[i := w]) p1 = Some (err2, ws2, p2)"
        "pipe_ok src ss2 ats d2 p2" "more_strs {n. Inl n \<in> set L} ss1 d1 ss2 d2" "length ws2 = length L"
        "err2 = - ENOMEM \<or> err2 = 0 \<and> (\<forall>j < length L. ws2 ! j = (if j \<in> set is then ev (str_off ss2) (L ! j) else ws[i := w] ! j)) \<and>
          (\<forall>i \<in> set is. \<forall>n. L ! i = Inl n \<longrightarrow> n \<noteq> [] \<longrightarrow> offset_of ss2 n \<noteq> None)"
      using Cons.prems(2,3) by auto
    have ms: "more_strs {n. Inl n \<in> set L} ss d ss2 d2" by (rule more_strs_sub [OF more_strs_trans [OF r(3) v(3)]]) (use nL in auto)
    note k = more_strs_nm [OF v(3) w(2)]
    have "i \<notin> set is" using Cons.prems(3) by simp
    then have "err2 = - ENOMEM \<or> err2 = 0 \<and> (\<forall>j < length L. ws2 ! j = (if j \<in> set (i # is) then ev (str_off ss2) (L ! j) else ws ! j)) \<and>
          (\<forall>i \<in> set (i # is). \<forall>n. L ! i = Inl n \<longrightarrow> n \<noteq> [] \<longrightarrow> offset_of ss2 n \<noteq> None)"
      using v(5) k w(1) n Cons.prems(2) by (auto simp: nth_list_update)
    then show ?thesis using r(1) True v n Cons.prems(2) ms
      by (intro exI [of _ err2] exI [of _ ws2] exI [of _ p2] exI [of _ ss2] exI [of _ d2]) simp
  qed
qed

lemma kind_range: "1 \<le> k \<Longrightarrow> k \<le> 19 \<Longrightarrow> k \<in> {1, 2, 3, 4, 5, 6, 7, 8, 9, 10, 11, 12, 13, 14, 15, 16, 17, 18, 19}" for k :: nat
  unfolding insert_iff empty_iff by presburger

lemma concat_uniform:
  assumes "\<forall>x \<in> set xs. length x = k"
  shows "length (concat xs) = k * length xs" "i < k * length xs \<Longrightarrow> concat xs ! i = xs ! (i div k) ! (i mod k)"
proof -
  show l: "length (concat xs) = k * length xs" using assms by (induction xs) simp_all
  show "i < k * length xs \<Longrightarrow> concat xs ! i = xs ! (i div k) ! (i mod k)"
    using assms
  proof (induction xs arbitrary: i)
    case (Cons x xs)
    show ?case
    proof (cases "i < k")
      case True
      then show ?thesis using Cons.prems(2) by (simp add: nth_append)
    next
      case False
      then obtain j where j: "i = k + j" by (metis le_Suc_ex linorder_not_le)
      have "j < k * length xs" using Cons.prems(1) j by simp
      moreover have "0 < k" using calculation by (cases k) auto
      ultimately show ?thesis using Cons.IH [of j] Cons.prems(2) j by (simp add: nth_append div_add_self1)
    qed
  qed simp
qed

text \<open>Types of the usual shape: as many elements as the count says, with a name if the kind has one.\<close>

definition named_kind :: "nat \<Rightarrow> bool" where
  "named_kind k \<longleftrightarrow> k \<in> {BTF_KIND_STRUCT, BTF_KIND_UNION, BTF_KIND_ENUM, BTF_KIND_ENUM64, BTF_KIND_FUNC_PROTO}"

definition shaped :: "atype \<Rightarrow> bool" where
  "shaped a \<longleftrightarrow> 1 \<le> at_kind a \<and> at_kind a \<le> 19 \<and> at_vlen a < 65536 \<and> length (at_fixed a) = fixed_words (at_kind a) \<and>
     (if elem_size (at_kind a) = 0 then at_elems a = [] else length (at_elems a) = at_vlen a) \<and>
     (\<forall>e \<in> set (at_elems a). length (elem_layout e) = elem_size (at_kind a) \<and> (fst e \<noteq> None \<longleftrightarrow> named_kind (at_kind a)))"

lemma shaped_length:
  assumes "shaped a"
  shows "length (concat (map elem_layout (at_elems a))) = at_vlen a * elem_size (at_kind a)"
proof -
  have "length (concat (map elem_layout (at_elems a))) = elem_size (at_kind a) * length (at_elems a)"
    using concat_uniform(1) [of "map elem_layout (at_elems a)"] assms by (simp add: shaped_def)
  then show ?thesis using assms by (auto simp: shaped_def split: if_splits)
qed

lemma shaped_ok: "shaped a \<Longrightarrow> at_ok a"
proof -
  assume s: "shaped a"
  have "length (words_of (conc (\<lambda>_. 0) a)) = length (layout a)" by (simp add: words_layout)
  then have "length (tail (conc (\<lambda>_. 0) a)) + 3 = length (layout a)" by (simp add: words_of_def)
  moreover have "length (layout a) = 3 + fixed_words (at_kind a) + at_vlen a * elem_size (at_kind a)"
    using shaped_length [OF s] s by (simp add: layout_def shaped_def)
  ultimately show ?thesis using s by (subst at_ok_iff) (simp_all add: shaped_def)
qed

lemma elem_layout_Inl:
  "(\<exists>n. elem_layout e ! j = Inl n) \<longleftrightarrow> fst e \<noteq> None \<and> j = 0" if "j < length (elem_layout e)"
  using that by (cases j) (auto simp: elem_layout_def split: option.splits)

lemma elems_Inl:
  assumes s: "shaped a" and i: "i < at_vlen a * elem_size (at_kind a)"
  shows "(\<exists>n. concat (map elem_layout (at_elems a)) ! i = Inl n) \<longleftrightarrow> named_kind (at_kind a) \<and> i mod elem_size (at_kind a) = 0"
proof -
  let ?k = "elem_size (at_kind a)"
  have k: "?k \<noteq> 0" using i by (cases ?k) auto
  then have l: "length (at_elems a) = at_vlen a" and e: "\<And>e. e \<in> set (at_elems a) \<Longrightarrow> length (elem_layout e) = ?k \<and> (fst e \<noteq> None \<longleftrightarrow> named_kind (at_kind a))"
    using s by (auto simp: shaped_def)
  have q: "i div ?k < length (at_elems a)" using i k l by (simp add: less_mult_imp_div_less mult.commute)
  have "concat (map elem_layout (at_elems a)) ! i = elem_layout (at_elems a ! (i div ?k)) ! (i mod ?k)"
    using concat_uniform(2) [of "map elem_layout (at_elems a)" ?k i] e i l q by (simp add: mult.commute)
  then show ?thesis using elem_layout_Inl [of "i mod ?k" "at_elems a ! (i div ?k)"] e [OF nth_mem [OF q]] k by simp
qed

lemma elem_slots:
  "(\<lambda>i. 3 + j + k * i) ` {0..<n} = {i. 3 \<le> i \<and> i < 3 + n * k \<and> (i - 3) mod k = j}" if "j < (k :: nat)"
proof (rule set_eqI)
  fix i
  show "i \<in> (\<lambda>i. 3 + j + k * i) ` {0..<n} \<longleftrightarrow> i \<in> {i. 3 \<le> i \<and> i < 3 + n * k \<and> (i - 3) mod k = j}"
  proof
    assume "i \<in> {i. 3 \<le> i \<and> i < 3 + n * k \<and> (i - 3) mod k = j}"
    then have "i = 3 + ((i - 3) div k * k + (i - 3) mod k)" "(i - 3) div k < n" "(i - 3) mod k = j" by (auto simp: less_mult_imp_div_less)
    then show "i \<in> (\<lambda>i. 3 + j + k * i) ` {0..<n}" by (intro image_eqI [of _ _ "(i - 3) div k"]) (simp_all add: mult.commute)
  next
    assume "i \<in> (\<lambda>i. 3 + j + k * i) ` {0..<n}"
    then obtain m where m: "i = 3 + j + k * m" "m < n" unfolding image_iff Bex_def atLeastLessThan_iff by blast
    have "j + k * m < k * Suc m" using that by simp
    also have "\<dots> \<le> n * k" using m(2) by (metis Suc_leI mult.commute mult_le_mono2)
    finally show "i \<in> {i. 3 \<le> i \<and> i < 3 + n * k \<and> (i - 3) mod k = j}" using m that by simp
  qed
qed

lemma str_slots_named:
  assumes "shaped a"
  shows "str_slots (conc f a) = 0 # (if named_kind (at_kind a) then map (\<lambda>i. 3 + elem_size (at_kind a) * i) [0..<at_vlen a] else [])"
  using conc_kind_vlen [of a f] assms by (auto simp: str_slots_def shaped_def Let_def named_kind_def elem_size_def)

lemma slots_layout:
  assumes s: "shaped a"
  shows "distinct (str_slots (conc f a))" "set (str_slots (conc f a)) = {i. i < length (layout a) \<and> (\<exists>n. layout a ! i = Inl n)}"
proof -
  let ?k = "at_kind a" and ?n = "at_vlen a" and ?C = "concat (map elem_layout (at_elems a))"
  note ss = str_slots_named [OF s, of f]
  have e0: "named_kind ?k \<Longrightarrow> elem_size ?k \<noteq> 0" "named_kind ?k \<Longrightarrow> fixed_words ?k = 0" by (auto simp: named_kind_def elem_size_def fixed_words_def)
  show "distinct (str_slots (conc f a))" unfolding ss using e0 by (auto simp: distinct_map inj_on_def)
  have len: "length ?C = ?n * elem_size ?k" by (rule shaped_length [OF s])
  have fx: "length (at_fixed a) = fixed_words ?k" using s by (simp add: shaped_def)
  have "i < length (layout a) \<and> (\<exists>n. layout a ! i = Inl n) \<longleftrightarrow> i = 0 \<or> named_kind ?k \<and> 3 \<le> i \<and> i < 3 + ?n * elem_size ?k \<and> (i - 3) mod elem_size ?k = 0" for i
  proof (cases "i < 3 + length (at_fixed a)")
    case True
    have "layout a ! i = (if i = 0 then Inl (at_name a) else if i = 1 then Inr (btf_type_info ?k ?n (at_kflag a)) else if i = 2 then Inr (at_size a) else Inr (at_fixed a ! (i - 3)))"
      using True by (auto simp: layout_def nth_append nth_Cons' numeral_eq_Suc)
    then show ?thesis using True e0(2) fx by (auto simp: layout_def)
  next
    case False
    then obtain j where j: "i = 3 + length (at_fixed a) + j" using le_Suc_ex linorder_not_less by blast
    have "layout a ! i = ?C ! j" by (simp add: j layout_def nth_append numeral_eq_Suc)
    then show ?thesis using elems_Inl [OF s, of j] len fx e0(2) j by (auto simp: layout_def)
  qed
  then show "set (str_slots (conc f a)) = {i. i < length (layout a) \<and> (\<exists>n. layout a ! i = Inl n)}"
    unfolding ss using elem_slots [of 0 "elem_size ?k" ?n] e0 by (cases "named_kind ?k") auto
qed

lemma visit_type_ok:
  assumes ca: "ca_ok ca" and p: "pipe_ok src ss ats d p" and a: "shaped a" and n: "\<forall>n \<in> at_names a. src_name src f n"
  obtains err ws p' ss' d' where "btf_type_visit_str_offs (btf_rewrite_str ca src) (conc f a) (words_of (conc f a)) p = Some (err, ws, p')"
    "pipe_ok src ss' ats d' p'" "more_strs (at_names a) ss d ss' d'" "length ws = length (words_of (conc f a))"
    "err = - ENOMEM \<or> err = 0 \<and> ws = words_of (conc (str_off ss') a) \<and> (\<forall>n \<in> at_names a. offset_of ss' n \<noteq> None)"
proof -
  let ?L = "layout a" and ?is = "str_slots (conc f a)"
  have ns: "\<forall>x. Inl x \<in> set ?L \<longrightarrow> src_name src f x"
    using n layout_names_at [of a] by (auto simp: layout_names_def src_name_def)
  note sl = slots_layout [OF a, of f]
  have l: "length (words_of (conc f a)) = length ?L" by (simp add: words_layout)
  have q: "\<forall>i \<in> set ?is. i < length ?L \<and> (\<exists>n. ?L ! i = Inl n) \<and> words_of (conc f a) ! i = ev f (?L ! i)"
    unfolding sl(2) by (auto simp: words_layout)
  obtain err ws p' ss' d' where v: "visit_words (btf_rewrite_str ca src) ?is (words_of (conc f a)) p = Some (err, ws, p')" "pipe_ok src ss' ats d' p'"
      "more_strs (layout_names a) ss d ss' d'" "length ws = length ?L"
      "err = - ENOMEM \<or> err = 0 \<and> (\<forall>i < length ?L. ws ! i = (if i \<in> set ?is then ev (str_off ss') (?L ! i) else words_of (conc f a) ! i)) \<and>
        (\<forall>i \<in> set ?is. \<forall>n. ?L ! i = Inl n \<longrightarrow> n \<noteq> [] \<longrightarrow> offset_of ss' n \<noteq> None)"
    using visit_ok [OF ca p ns l sl(1) q, folded layout_names_def] by (elim exE conjE) (rule that)
  have m: "more_strs (at_names a) ss d ss' d'" 
    by (rule more_strs_sub [OF v(3)]) (auto simp: layout_names_at at_names_def)
  have "ws = words_of (conc (str_off ss') a) \<and> (\<forall>n \<in> at_names a. offset_of ss' n \<noteq> None)" if "err \<noteq> - ENOMEM"
  proof
    show "ws = words_of (conc (str_off ss') a)"
    proof (rule nth_equalityI)
      fix i assume i: "i < length ws"
      then have "ws ! i = (if i \<in> set ?is then ev (str_off ss') (?L ! i) else ev f (?L ! i))" using v(4,5) that by (simp add: words_layout)
      then show "ws ! i = words_of (conc (str_off ss') a) ! i" using i v(4) sl(2) by (cases "?L ! i") (auto simp: words_layout)
    qed (simp add: v(4) words_layout)
    show "\<forall>n \<in> at_names a. offset_of ss' n \<noteq> None"
    proof
      fix x assume "x \<in> at_names a"
      then have x: "Inl x \<in> set ?L" "x \<noteq> []" using layout_names_at [of a] by (auto simp: layout_names_def)
      then obtain i where "i < length ?L" "?L ! i = Inl x" by (metis in_set_conv_nth)
      then show "offset_of ss' x \<noteq> None" using v(5) that x(2) sl(2) by auto
    qed
  qed
  then show ?thesis using that [OF _ v(2) m, of err ws] v(1,4,5) by (auto simp: btf_type_visit_str_offs_def words_layout)
qed

lemma open_append_Null: "open_append al b Null n = Some (r, b') \<Longrightarrow> r = 0 \<or> r = - ENOMEM"
  by (auto simp: open_append_def Let_def split: option.splits if_splits Option.bind_splits)

lemma built_prefix: "built d ss ats \<Longrightarrow> take (unat (h_type_len (hdr d))) (types_data d) = types_bytes (cts ss ats)"
  unfolding built_def types_in_def by blast

lemma put_types_mid: "types_data (own b) = T @ B @ R \<Longrightarrow> length B' = length B \<Longrightarrow>
    put_types b (length T) B' = Some (Btf (base_btf b) ((own b)\<lparr>types_data := T @ B' @ R\<rparr>))"
  by (simp add: put_types_def stn_def patch_def)

lemma add_type_ok:
  assumes s: "bsim b ats" and ca: "ca_ok ca" and a: "shaped a" and n: "\<forall>n \<in> at_names a. src_name src f n"
  shows "realizes (btf__add_type ca b src (conc f a)) (Append a) ats"
proof -
  let ?t = "conc f a" and ?al = "ca_calls ca 0"
  define W where "W = words_of ?t"
  have ok: "type_ok ?t" by (rule conc_ok [OF shaped_ok [OF a]])
  then have sz: "btf_type_size ?t = int (4 * length W)" by (simp add: type_ok_def W_def words_of_def)
  have un: "btf__add_type ca b src ?t = do {
       (err, b1) \<leftarrow> open_append ?al b Null (4 * length W);
       if err \<noteq> 0 then Some (err, b1)
       else let p = unat (h_type_len (hdr (own b1))) in do {
         b2 \<leftarrow> put_types b1 p (enc W);
         (err, ws1, pipe) \<leftarrow> btf_type_visit_str_offs (btf_rewrite_str ca src) ?t W \<lparr>dst = b2, str_off_map = None, calls = 1\<rparr>;
         b3 \<leftarrow> put_types (dst pipe) p (enc ws1);
         Some (if err \<noteq> 0 then (err, b3) else btf_commit_type (?al 0) b3 (4 * length W)) } }"
    unfolding btf__add_type_def Let_def sz nat_int W_def [symmetric] by (simp cong: if_cong)
  have c: "calloc_bounded (al_calloc (?al 0))" using ca by (simp add: ca_ok_def)
  obtain r b1 where o: "open_append ?al b Null (4 * length W) = Some (r, b1)" "r = - ENOMEM \<and> bsim b1 ats \<or> (\<exists>ss. opened b1 [] (4 * length W) r ss ats)"
    by (rule open_append_ok [where al = ?al and name = Null, OF s c]) (simp_all add: nstr_def)
  show ?thesis
  proof (cases "r = - ENOMEM")
    case True
    then have "bsim b1 ats" using o(2) by (auto simp: opened_def ENOMEM_def)
    then show ?thesis using o(1) True by (simp add: realizes_def un ENOMEM_def)
  next
    case False
    then obtain ss where p: "opened b1 [] (4 * length W) r ss ats" using o(2) by blast
    have r0: "r = 0" using open_append_Null [OF o(1)] False by simp
    define T where "T = types_bytes (cts ss ats)"
    obtain R where R: "stn (types_data (own b1)) (unat (h_type_len (hdr (own b1)))) (enc W) = Some (T @ enc W @ R)"
        "built ((own b1)\<lparr>types_data := T @ enc W @ R\<rparr>) ss ats"
      using opened_store [OF p, of "enc W"] unfolding T_def by auto
    define d where "d = (own b1)\<lparr>types_data := T @ enc W @ R\<rparr>"
    have base: "base_btf b1 = None" and hl: "unat (h_type_len (hdr (own b1))) = length T"
      using p built_len(3) [of "own b1" ss ats] by (simp_all add: opened_def T_def)
    have pk: "pipe_ok src ss ats d \<lparr>dst = Btf None d, str_off_map = None, calls = 1\<rparr>" using R(2) by (simp add: pipe_ok_def d_def)
    obtain err ws p' ss' d' where v: "btf_type_visit_str_offs (btf_rewrite_str ca src) ?t W \<lparr>dst = Btf None d, str_off_map = None, calls = 1\<rparr> = Some (err, ws, p')"
        "pipe_ok src ss' ats d' p'" "more_strs (at_names a) ss d ss' d'" "length ws = length W"
        "err = - ENOMEM \<or> err = 0 \<and> ws = words_of (conc (str_off ss') a) \<and> (\<forall>n \<in> at_names a. offset_of ss' n \<noteq> None)"
      unfolding W_def by (rule visit_type_ok [OF ca pk a n])
    have d': "dst p' = Btf None d'" "built d' ss' ats" "types_data d' = T @ enc W @ R" using v(2,3) by (auto simp: pipe_ok_def more_strs_def d_def)
    have T': "T = types_bytes (cts ss' ats)"
    proof -
      have "h_type_len (hdr d') = h_type_len (hdr (own b1))" using v(3) by (auto simp: more_strs_def d_def)
      then show ?thesis using built_prefix [OF d'(2)] d'(3) hl by simp
    qed
    define d3 where "d3 = d'\<lparr>types_data := T @ enc ws @ R\<rparr>"
    have b3: "built d3 ss' ats"
      unfolding d3_def by (rule built_data [OF d'(2)]) (use d'(2,3) v(4) in \<open>simp_all add: T' [symmetric] built_def\<close>)
    have run: "btf__add_type ca b src ?t = Some (if err \<noteq> 0 then (err, Btf None d3) else btf_commit_type (?al 0) (Btf None d3) (4 * length W))"
    proof -
      have "put_types b1 (length T) (enc W) = Some (Btf None d)" using R(1) base hl by (simp add: put_types_def d_def)
      moreover have "put_types (Btf None d') (length T) (enc ws) = Some (Btf None d3)"
        using put_types_mid [of "Btf None d'" T "enc W" R "enc ws"] d'(3) v(4) by (simp add: d3_def)
      ultimately show ?thesis using o(1) r0 v(1) hl d'(1) by (simp add: un)
    qed
    show ?thesis
    proof (cases "err = 0")
      case True
      then have w: "enc ws = type_bytes (conc (str_off ss') a)" "\<forall>n \<in> at_names a. offset_of ss' n \<noteq> None" using v(5) by (auto simp: type_bytes_def ENOMEM_def)
      have td: "types_data d3 = types_bytes (cts ss' ats) @ type_bytes (conc (str_off ss') a) @ R" using w(1) T' by (simp add: d3_def)
      have "4 * length W = length (type_bytes (conc (str_off ss') a))" using arg_cong [OF w(1), of length] v(4) by simp
      from commit_ok [OF b3 td shaped_ok [OF a] w(2) this, of "?al 0"] obtain r' b' where "btf_commit_type (?al 0) (Btf None d3) (4 * length W) = (r', b')"
          "r' = - ENOMEM \<and> bsim b' ats \<or> r' = int (length ats + 1) \<and> bsim b' (ats @ [a])" by blast
      then show ?thesis using run True by (auto simp: realizes_def)
    next
      case False
      then show ?thesis using run v(5) b3 by (auto simp: realizes_def bsim_def)
    qed
  qed
qed

section \<open>Type ids\<close>

text \<open>What \<^verbatim>\<open>btf__add_btf\<close> does to the ids of a type.\<close>

definition shift_id :: "u32 \<Rightarrow> u32 \<Rightarrow> u32" where
  "shift_id k w = (if w = 0 then 0 else w + k)"

definition shift_hd :: "u32 \<Rightarrow> u32 list \<Rightarrow> u32 list" where
  "shift_hd k ws = (case ws of [] \<Rightarrow> [] | w # ws' \<Rightarrow> shift_id k w # ws')"

definition ref_kinds :: "nat set" where
  "ref_kinds = {BTF_KIND_FWD, BTF_KIND_CONST, BTF_KIND_VOLATILE, BTF_KIND_RESTRICT, BTF_KIND_PTR, BTF_KIND_TYPEDEF, BTF_KIND_FUNC, BTF_KIND_VAR,
     BTF_KIND_DECL_TAG, BTF_KIND_TYPE_TAG, BTF_KIND_FUNC_PROTO}"

definition elem_id_kinds :: "nat set" where
  "elem_id_kinds = {BTF_KIND_STRUCT, BTF_KIND_UNION, BTF_KIND_FUNC_PROTO, BTF_KIND_DATASEC}"

definition shift :: "u32 \<Rightarrow> atype \<Rightarrow> atype" where
  "shift k a = a\<lparr>at_size := (if at_kind a \<in> ref_kinds then shift_id k (at_size a) else at_size a),
     at_fixed := (if at_kind a = BTF_KIND_ARRAY then shift_id k (at_fixed a ! 0) # shift_id k (at_fixed a ! 1) # drop 2 (at_fixed a) else at_fixed a),
     at_elems := (if at_kind a \<in> elem_id_kinds then map (apsnd (shift_hd k)) (at_elems a) else at_elems a)\<rparr>"

lemma shift_hd_length [simp]: "length (shift_hd k ws) = length ws"
  by (cases ws) (simp_all add: shift_hd_def)

lemma elem_layout_length [simp]: "length (elem_layout (apsnd (shift_hd k) e)) = length (elem_layout e)"
  by (simp add: elem_layout_def split: option.split)

lemma shift_simps [simp]: "at_kind (shift k a) = at_kind a" "at_vlen (shift k a) = at_vlen a" "at_name (shift k a) = at_name a" "at_kflag (shift k a) = at_kflag a"
  by (simp_all add: shift_def)

lemma shift_shaped: "shaped a \<Longrightarrow> shaped (shift k a)"
  by (auto simp: shaped_def shift_def fixed_words_def)

lemma shift_names: "at_names (shift k a) = at_names a"
  by (auto simp: at_names_def shift_def image_image)

text \<open>The words that are ids.\<close>

definition id_words :: "atype \<Rightarrow> nat set" where
  "id_words a = {i. i = 2 \<and> at_kind a \<in> ref_kinds \<or> i \<in> {3, 4} \<and> at_kind a = BTF_KIND_ARRAY \<or>
     at_kind a \<in> elem_id_kinds \<and> 3 \<le> i \<and> i < 3 + at_vlen a * elem_size (at_kind a) \<and> (i - 3) mod elem_size (at_kind a) = of_bool (named_kind (at_kind a))}"

lemma elem_shift_nth:
  assumes "j < length (elem_layout e)" "2 \<le> length (elem_layout e)"
  shows "elem_layout (apsnd (shift_hd k) e) ! j = (if j = of_bool (fst e \<noteq> None) then Inr (shift_id k (projr (elem_layout e ! j))) else elem_layout e ! j)"
proof -
  obtain o1 ws where e: "e = (o1, ws)" by fastforce
  obtain w ws' where ws: "ws = w # ws'" using assms(2) by (cases ws; cases o1) (auto simp: e elem_layout_def)
  show ?thesis by (cases o1) (auto simp: e ws elem_layout_def shift_hd_def nth_Cons' assms)
qed

lemma shift_nth:
  assumes s: "shaped a" and i: "i < length (layout a)"
  shows "layout (shift k a) ! i = (if i \<in> id_words a then Inr (shift_id k (projr (layout a ! i))) else layout a ! i)"
proof (cases "i < 3 + length (at_fixed a)")
  case True
  have fx: "length (at_fixed a) = fixed_words (at_kind a)" using s by (simp add: shaped_def)
  have e0: "at_kind a \<in> elem_id_kinds \<Longrightarrow> fixed_words (at_kind a) = 0" by (auto simp: elem_id_kinds_def fixed_words_def)
  show ?thesis
  proof (cases "at_kind a = BTF_KIND_ARRAY")
    case ar: True
    then have "length (at_fixed a) = 3" using fx by (simp add: fixed_words_def)
    then obtain x y z where "at_fixed a = [x, y, z]" by (auto simp: length_Suc_conv numeral_eq_Suc)
    moreover have "i = 0 \<or> i = 1 \<or> i = 2 \<or> i = 3 \<or> i = 4 \<or> i = 5" using True calculation by auto
    ultimately show ?thesis using ar by (auto simp: layout_def shift_def id_words_def ref_kinds_def elem_id_kinds_def numeral_eq_Suc)
  next
    case na: False
    have "layout b ! i = (if i = 0 then Inl (at_name b) else if i = 1 then Inr (btf_type_info (at_kind b) (at_vlen b) (at_kflag b)) else if i = 2 then Inr (at_size b) else Inr (at_fixed b ! (i - 3)))"
      if "length (at_fixed b) = length (at_fixed a)" for b
      using True that by (auto simp: layout_def nth_append nth_Cons' numeral_eq_Suc)
    then show ?thesis using na True e0 fx by (auto simp: shift_def id_words_def)
  qed
next
  case False
  then obtain j where j: "i = 3 + length (at_fixed a) + j" using le_Suc_ex linorder_not_less by blast
  let ?es = "elem_size (at_kind a)" and ?E = "at_elems a"
  have lf: "length (at_fixed (shift k a)) = length (at_fixed a)" using s by (auto simp: shift_def shaped_def fixed_words_def)
  have lay: "layout b ! i = concat (map elem_layout (at_elems b)) ! j" if "length (at_fixed b) = length (at_fixed a)" for b
    by (simp add: j layout_def nth_append numeral_eq_Suc that)
  have jl: "j < at_vlen a * ?es" using i shaped_length [OF s] by (simp add: j layout_def)
  then have k: "?es \<noteq> 0" by (cases ?es) auto
  then have l: "length ?E = at_vlen a" and e: "\<forall>e \<in> set ?E. length (elem_layout e) = ?es \<and> (fst e \<noteq> None \<longleftrightarrow> named_kind (at_kind a))" using s by (auto simp: shaped_def)
  have q: "j div ?es < length ?E" using jl k l by (simp add: less_mult_imp_div_less mult.commute)
  have fx: "length (at_fixed a) = 0" using k s by (auto simp: shaped_def fixed_words_def elem_size_def)
  have nth: "concat (map elem_layout (map g ?E)) ! j = elem_layout (g (?E ! (j div ?es))) ! (j mod ?es)" if "\<forall>e. length (elem_layout (g e)) = length (elem_layout e)" for g
    using concat_uniform(2) [of "map elem_layout (map g ?E)" ?es j] e jl l q that by (simp add: mult.commute)
  let ?e = "?E ! (j div ?es)"
  have e': "length (elem_layout ?e) = ?es" "fst ?e \<noteq> None \<longleftrightarrow> named_kind (at_kind a)" using e q by auto
  have old: "layout a ! i = elem_layout ?e ! (j mod ?es)" using nth [of id] lay [of a] by simp
  show ?thesis
  proof (cases "at_kind a \<in> elem_id_kinds")
    case True
    then have "2 \<le> ?es" "at_kind a \<noteq> BTF_KIND_ARRAY" by (auto simp: elem_id_kinds_def elem_size_def)
    moreover have "layout (shift k a) ! i = elem_layout (apsnd (shift_hd k) ?e) ! (j mod ?es)"
      using nth [of "apsnd (shift_hd k)"] lay [OF lf] True by (simp add: shift_def)
    ultimately show ?thesis
      using elem_shift_nth [of "j mod ?es" ?e k] e' old True jl j fx k by (simp add: id_words_def)
  next
    case False
    then have "layout (shift k a) ! i = layout a ! i" using lay [OF lf] lay [of a] by (simp add: shift_def)
    moreover have "i \<notin> id_words a" using False j fx k by (auto simp: id_words_def elem_size_def)
    ultimately show ?thesis by simp
  qed
qed

lemma id_slots_words:
  assumes s: "shaped a"
  obtains "is" where "id_slots (conc f a) = Some is" "distinct is" "set is = id_words a"
proof -
  let ?k = "at_kind a" and ?n = "at_vlen a" and ?es = "elem_size (at_kind a)" and ?j = "of_bool (named_kind (at_kind a)) :: nat"
  have kv: "btf_kind (conc f a) = ?k" "btf_vlen (conc f a) = ?n" using conc_kind_vlen [of a f] s by (simp_all add: shaped_def)
  have kr: "?k \<in> {1, 2, 3, 4, 5, 6, 7, 8, 9, 10, 11, 12, 13, 14, 15, 16, 17, 18, 19}" using s by (intro kind_range) (simp_all add: shaped_def)
  define is1 where "is1 = (if ?k \<in> ref_kinds then [2] else []) @ (if ?k = BTF_KIND_ARRAY then [3, 4] else []) @
    (if ?k \<in> elem_id_kinds then map (\<lambda>i. 3 + ?j + ?es * i) [0..<?n] else [])"
  have "id_slots (conc f a) = Some is1"
    using kr by (auto simp: id_slots_def kv Let_def is1_def ref_kinds_def elem_id_kinds_def elem_size_def named_kind_def numeral_eq_Suc)
  moreover have es: "?j < ?es" if "?k \<in> elem_id_kinds" using that by (auto simp: elem_id_kinds_def elem_size_def)
  moreover have "distinct is1"
    using es by (auto simp: is1_def distinct_map inj_on_def ref_kinds_def elem_id_kinds_def)
  moreover have "set is1 = id_words a"
    using elem_slots [OF es, of ?n] by (cases "?k \<in> elem_id_kinds") (auto simp: is1_def id_words_def)
  ultimately show ?thesis using that by blast
qed

lemma visit_pure:
  assumes "distinct is" "\<forall>i \<in> set is. i < length ws"
  shows "\<exists>ws'. visit_words (\<lambda>w s. Some (0, h w, s)) is ws s = Some (0, ws', s) \<and> length ws' = length ws \<and>
    (\<forall>i < length ws. ws' ! i = (if i \<in> set is then h (ws ! i) else ws ! i))"
  using assms
proof (induction "is" arbitrary: ws)
  case (Cons i "is")
  then obtain ws' where "visit_words (\<lambda>w s. Some (0, h w, s)) is (ws[i := h (ws ! i)]) s = Some (0, ws', s)" "length ws' = length ws"
      "\<forall>j < length ws. ws' ! j = (if j \<in> set is then h (ws[i := h (ws ! i)] ! j) else ws[i := h (ws ! i)] ! j)"
    using Cons.IH [of "ws[i := h (ws ! i)]"] by auto
  then show ?case using Cons.prems by (intro exI [of _ ws']) (auto simp: nth_list_update)
qed simp

lemma id_words_Inr:
  assumes s: "shaped a" and i: "i \<in> id_words a"
  shows "i < length (layout a) \<and> layout a ! i = Inr (projr (layout a ! i))"
proof -
  have len: "length (layout a) = 3 + fixed_words (at_kind a) + at_vlen a * elem_size (at_kind a)"
    using shaped_length [OF s] s by (simp add: layout_def shaped_def)
  have il: "i < length (layout a)" using i len by (auto simp: id_words_def fixed_words_def)
  have es: "named_kind (at_kind a) \<Longrightarrow> 0 < elem_size (at_kind a)" by (auto simp: named_kind_def elem_size_def)
  have "i \<noteq> 0" "named_kind (at_kind a) \<Longrightarrow> i = 2 \<or> (i - 3) mod elem_size (at_kind a) \<noteq> 0" using i by (auto simp: id_words_def named_kind_def)
  then have "i \<notin> set (str_slots (conc (\<lambda>_. 0) a))"
    using elem_slots [OF es, of "at_vlen a"] by (auto simp: str_slots_named [OF s])
  then have "\<nexists>n. layout a ! i = Inl n" using slots_layout(2) [OF s, of "\<lambda>_. 0"] il by simp
  then show ?thesis using il by (cases "layout a ! i") auto
qed

lemma shift_length: "shaped a \<Longrightarrow> length (layout (shift k a)) = length (layout a)"
  using shaped_length [of a] shaped_length [OF shift_shaped, of a k] by (auto simp: layout_def shift_def shaped_def fixed_words_def)

lemma visit_ids_ok:
  assumes s: "shaped a" and k: "k = word_of_nat (start_id (own b) + nr_types (own b) - 1)"
  shows "btf_type_visit_type_ids (btf_rewrite_type_ids b) (conc f a) (words_of (conc g a)) () = Some (0, words_of (conc g (shift k a)), ())"
proof -
  obtain "is" where i: "id_slots (conc f a) = Some is" "distinct is" "set is = id_words a" by (rule id_slots_words [OF s])
  have fn: "btf_rewrite_type_ids b = (\<lambda>w s. Some (0, shift_id k w, s))" by (auto simp: fun_eq_iff btf_rewrite_type_ids_def shift_id_def k)
  note ll = shift_length [OF s, of k]
  have inr: "i < length (layout a) \<and> layout a ! i = Inr (projr (layout a ! i))" if "i \<in> id_words a" for i
    using id_words_Inr [OF s that] .
  obtain ws' where w: "visit_words (\<lambda>w s. Some (0, shift_id k w, s)) is (words_of (conc g a)) () = Some (0, ws', ())" "length ws' = length (layout a)"
      "\<forall>i < length (layout a). ws' ! i = (if i \<in> id_words a then shift_id k (ev g (layout a ! i)) else ev g (layout a ! i))"
    using visit_pure [OF i(2), of "words_of (conc g a)" "shift_id k" "()"] i(3) inr by (auto simp: words_layout)
  have "ws' = words_of (conc g (shift k a))"
  proof (rule nth_equalityI)
    fix i assume "i < length ws'"
    then have il: "i < length (layout a)" using w(2) by simp
    show "ws' ! i = words_of (conc g (shift k a)) ! i"
    proof (cases "i \<in> id_words a")
      case True
      then show ?thesis using w(3) il shift_nth [OF s il, of k] inr [OF True] ll by (simp add: words_layout) (metis ev_simps(2))
    next
      case False
      then show ?thesis using w(3) il shift_nth [OF s il, of k] ll by (simp add: words_layout)
    qed
  qed (simp add: w(2) words_layout ll)
  then show ?thesis using w(1) by (simp add: btf_type_visit_type_ids_def i(1) fn)
qed

end
