(* ===== verification/Btf_Merge.thy ===== *)
theory Btf_Merge
  imports Btf_Copy
begin

text \<open>
  What copying means for the abstract types of \<open>Btf_Build_Spec\<close>: \<^verbatim>\<open>btf__add_type\<close> appends the same abstract type, and \<^verbatim>\<open>btf__add_btf\<close> appends all types of the other BTF with their ids moved behind the ids that
  are there.
\<close>

section \<open>The loop over the copied types\<close>

text \<open>Behind the types \<open>ats\<close> are the copies \<open>ds\<close> that are finished and the raw types \<open>rs\<close> of the source.\<close>

definition copying :: "btf_data \<Rightarrow> strset \<Rightarrow> (string \<Rightarrow> u32) \<Rightarrow> mem \<Rightarrow> atype list \<Rightarrow> atype list \<Rightarrow> atype list \<Rightarrow> bool" where
  "copying d ss f R ats ds rs \<longleftrightarrow> built d ss ats \<and> types_data d = types_bytes (cts ss ats) @ types_bytes (cts ss ds) @ types_bytes (map (conc f) rs) @ R \<and>
     list_all shaped ds \<and> (\<forall>a \<in> set ds. \<forall>n \<in> at_names a. offset_of ss n \<noteq> None) \<and>
     length ats + length ds + length rs \<le> length (type_offs d) \<and> indexes (take (length ats + length ds) (type_offs d)) 0 (cts ss (ats @ ds))"

lemma cts_simps: "cts ss [] = []" "cts ss (a # as) = conc (str_off ss) a # cts ss as" "cts ss (as @ bs) = cts ss as @ cts ss bs" "length (cts ss as) = length as"
  by (simp_all add: cts_def)

lemma built_offs:
  assumes b: "built d ss ats" and o: "take (length ats) offs = take (length ats) (type_offs d)" "length ats \<le> length offs"
  shows "built (d\<lparr>type_offs := offs\<rparr>) ss ats"
proof -
  have "types_in d (cts ss ats)" "nr_types d = length ats" using b built_len(4) [OF b] by (simp_all add: built_def)
  then have "types_in (d\<lparr>type_offs := offs\<rparr>) (cts ss ats)" using o by (simp add: types_in_def)
  then show ?thesis using b by (simp add: built_def)
qed

lemma more_strs_cts:
  assumes "more_strs ns ss d ss' d'" "\<forall>a \<in> set as. \<forall>n \<in> at_names a. offset_of ss n \<noteq> None"
  shows "cts ss' as = cts ss as" "\<forall>a \<in> set as. \<forall>n \<in> at_names a. offset_of ss' n \<noteq> None"
  using cts_grow [OF assms(2), of ss'] assms(1) by (auto simp: more_strs_def)

lemma more_strs_fields:
  assumes "more_strs ns ss d ss' d'"
  shows "types_data d' = types_data d" "type_offs d' = type_offs d" "h_type_len (hdr d') = h_type_len (hdr d)" "nr_types d' = nr_types d" "start_id d' = start_id d"
  using assms by (auto simp: more_strs_def)

lemma copy_index:
  assumes "indexes (take m offs) 0 ts" "m < length offs" "o1 = word_of_nat (length (types_bytes ts))"
  shows "indexes (take (Suc m) (offs[m := o1])) 0 (ts @ [t])"
  using indexes_snoc [OF assms(1), of o1 t] assms(2,3) by (simp add: take_Suc_conv_app_nth)

text \<open>One turn of the loop: the strings of the next type, then its ids.\<close>

lemma copy_turn:
  assumes ca: "ca_ok ca" and c: "copying d ss f R ats ds (a # rs)" and p: "pipe_ok src ss ats d pipe"
    and a: "shaped a" "\<forall>n \<in> at_names a. src_name src f n" and k: "k = word_of_nat (length ats)"
    and pos: "pos = length (types_bytes (cts ss ats)) + length (types_bytes (cts ss ds))" "i = length ats + length ds"
  obtains err pipe' ss' d' where "copy_types ca src (Suc n) pos i pipe =
      (if err \<noteq> 0 then Some (err, pipe') else copy_types ca src n (pos + length (type_bytes (conc f a))) (i + 1) pipe')"
    "pipe_ok src ss' ats d' pipe'" "\<forall>n k. offset_of ss n = Some k \<longrightarrow> offset_of ss' n = Some k"
    "(\<forall>n \<in> at_names a. offset_of ss n \<noteq> None) \<longrightarrow> h_str_len (hdr d') = h_str_len (hdr d)" "length (types_data d') = length (types_data d)"
    "err = - ENOMEM \<or> err = 0 \<and> copying d' ss' f R ats (ds @ [shift k a]) rs"
proof -
  define T D W X where "T = types_bytes (cts ss ats)" and "D = types_bytes (cts ss ds)" and "W = words_of (conc f a)" and "X = types_bytes (map (conc f) rs)"
  have b: "built d ss ats" and td: "types_data d = (T @ D) @ enc W @ (X @ R)" and lo: "length ats + length ds + length (a # rs) \<le> length (type_offs d)"
    and ix: "indexes (take (length ats + length ds) (type_offs d)) 0 (cts ss (ats @ ds))"
    and ds: "list_all shaped ds" "\<forall>a \<in> set ds. \<forall>n \<in> at_names a. offset_of ss n \<noteq> None"
    using c by (simp_all add: copying_def T_def D_def W_def X_def type_bytes_def)
  have dst: "dst pipe = Btf None d" using p by (simp add: pipe_ok_def)
  have ok: "type_ok (conc f a)" by (rule conc_ok [OF shaped_ok [OF a(1)]])
  have tb: "enc W = type_bytes (conc f a)" by (simp add: W_def type_bytes_def)
  have ld: "ld_type (types_data d) pos = Some (conc f a)" "ld_base (types_data d) pos = Some ((conc f a)\<lparr>tail := []\<rparr>)"
    using ld_type_mid [of pos "T @ D" "conc f a" "X @ R"] ld_base_mid [of pos "T @ D" "conc f a" "X @ R"] ok by (simp_all add: td tb pos T_def D_def)
  have sz: "btf_type_size (conc f a) = int (length (type_bytes (conc f a)))" using ok by (simp add: type_ok_def)
  define d1 where "d1 = d\<lparr>type_offs := (type_offs d)[i := word_of_nat pos]\<rparr>"
  have b1: "built d1 ss ats" unfolding d1_def by (rule built_offs [OF b]) (use lo pos in simp_all)
  have p1: "pipe_ok src ss ats d1 (pipe\<lparr>dst := Btf None d1\<rparr>)" using p b1 by (simp add: pipe_ok_def)
  obtain err ws p2 ss' d2 where v: "btf_type_visit_str_offs (btf_rewrite_str ca src) (conc f a) W (pipe\<lparr>dst := Btf None d1\<rparr>) = Some (err, ws, p2)"
      "pipe_ok src ss' ats d2 p2" "more_strs (at_names a) ss d1 ss' d2" "length ws = length W"
      "err = - ENOMEM \<or> err = 0 \<and> ws = words_of (conc (str_off ss') a) \<and> (\<forall>n \<in> at_names a. offset_of ss' n \<noteq> None)"
    unfolding W_def by (rule visit_type_ok [OF ca p1 a])
  note mf = more_strs_fields [OF v(3)]
  have b2: "dst p2 = Btf None d2" "built d2 ss' ats" "types_data d2 = (T @ D) @ enc W @ (X @ R)" using v(2) mf(1) td by (simp_all add: pipe_ok_def d1_def)
  define V where "V ws' = d2\<lparr>types_data := (T @ D) @ enc ws' @ (X @ R)\<rparr>" for ws' :: "u32 list"
  have put: "put_types (Btf None d2) pos (enc ws') = Some (Btf None (V ws'))" "put_types (Btf None (V ws0)) pos (enc ws') = Some (Btf None (V ws'))"
    if "length ws' = length W" "length ws0 = length W" for ws' ws0
    using that put_types_mid [of "Btf None d2" "T @ D" "enc W" "X @ R" "enc ws'"] put_types_mid [of "Btf None (V ws0)" "T @ D" "enc ws0" "X @ R" "enc ws'"] b2(3)
    by (simp_all add: pos T_def D_def V_def)
  have cs: "cts ss' ats = cts ss ats" "cts ss' ds = cts ss ds" "\<forall>a \<in> set ds. \<forall>n \<in> at_names a. offset_of ss' n \<noteq> None"
    using more_strs_cts [OF v(3)] b ds(2) by (auto simp: built_def)
  have bV: "built (V ws') ss' ats" if "length ws' = length W" for ws'
    unfolding V_def by (rule built_data [OF b2(2)]) (use b2 that in \<open>simp_all add: cs T_def built_def\<close>)
  have fin: "pipe_ok src ss' ats (V ws') (p2\<lparr>dst := Btf None (V ws')\<rparr>)" "length (types_data (V ws')) = length (types_data d)" "h_str_len (hdr (V ws')) = h_str_len (hdr d2)"
    if "length ws' = length W" for ws'
    using v(2) bV [OF that] that by (simp_all add: pipe_ok_def V_def td)
  have mono: "\<forall>n k. offset_of ss n = Some k \<longrightarrow> offset_of ss' n = Some k"
    and same: "(\<forall>n \<in> at_names a. offset_of ss n \<noteq> None) \<longrightarrow> h_str_len (hdr d2) = h_str_len (hdr d)"
    using v(3) by (auto simp: more_strs_def d1_def at_names_def)
  have nz: "\<not> btf_type_size (conc f a) < 0" "nat (btf_type_size (conc f a)) = length (type_bytes (conc f a))" by (simp_all add: sz del: length_type_bytes)
  have il: "i < length (type_offs d)" using lo pos(2) by simp
  have un: "copy_types ca src (Suc n) pos i pipe = (if err \<noteq> 0 then Some (err, p2\<lparr>dst := Btf None (V ws)\<rparr>) else do {
       (err, ws1, u) \<leftarrow> btf_type_visit_type_ids (btf_rewrite_type_ids (Btf None (V ws))) (conc f a) ws ();
       b3 \<leftarrow> put_types (Btf None (V ws)) pos (enc ws1);
       if err \<noteq> 0 then Some (err, p2\<lparr>dst := b3\<rparr>) else copy_types ca src n (pos + length (type_bytes (conc f a))) (i + 1) (p2\<lparr>dst := b3\<rparr>) })"
    using ld nz il v(1,4) put(1) [of ws W] dst b2(1) by (simp add: Let_def W_def [symmetric] d1_def [symmetric] del: length_type_bytes cong: if_cong)
  show ?thesis
  proof (cases "err = 0")
    case False
    then show ?thesis using un v(4,5) that [OF _ fin(1) [OF v(4)] mono, of err] fin(2,3) [OF v(4)] same by auto
  next
    case True
    then have ws: "ws = words_of (conc (str_off ss') a)" "\<forall>n \<in> at_names a. offset_of ss' n \<noteq> None" using v(5) by (auto simp: ENOMEM_def)
    define ws1 where "ws1 = words_of (conc (str_off ss') (shift k a))"
    have kk: "k = word_of_nat (start_id (own (Btf None (V ws))) + nr_types (own (Btf None (V ws))) - 1)"
      using bV [OF v(4)] built_len(4) [OF bV [OF v(4)]] by (simp add: k built_def)
    have l1: "length ws1 = length W"
      by (simp add: ws1_def W_def words_layout shift_length [OF a(1)])
    have run: "copy_types ca src (Suc n) pos i pipe = copy_types ca src n (pos + length (type_bytes (conc f a))) (i + 1) (p2\<lparr>dst := Btf None (V ws1)\<rparr>)"
      using un True visit_ids_ok [OF a(1) kk, of f "str_off ss'"] put(2) [OF l1 v(4)] by (simp add: ws(1) [symmetric] ws1_def [symmetric])
    have "indexes (take (Suc i) (type_offs (V ws1))) 0 (cts ss (ats @ ds) @ [conc (str_off ss') (shift k a)])"
      using copy_index [OF ix, of "word_of_nat pos"] lo pos mf(2) by (simp add: V_def d1_def cts_simps)
    then have ci: "indexes (take (length ats + length (ds @ [shift k a])) (type_offs (V ws1))) 0 (cts ss' (ats @ ds @ [shift k a]))"
      using cs(1,2) by (simp add: pos(2) cts_simps)
    have "copying (V ws1) ss' f R ats (ds @ [shift k a]) rs"
      unfolding copying_def using bV [OF l1] ds(1) a(1) cs ws(2) ci lo pos mf(2)
      by (auto simp: V_def ws1_def type_bytes_def T_def D_def X_def shift_shaped shift_names d1_def cts_simps)
    then show ?thesis using run that [OF _ fin(1) [OF l1] mono, of 0] fin(2,3) [OF l1] same by auto
  qed
qed

lemma length_conc: "length (type_bytes (conc f a)) = length (type_bytes (conc g a))"
  using conc_length [of f a g] by simp

lemma length_cts: "length (types_bytes (cts ss as)) = length (types_bytes (cts ss' as))"
proof (induction as)
  case (Cons a as)
  then show ?case using length_conc [of "str_off ss" a "str_off ss'"] by (simp add: cts_simps del: length_type_bytes)
qed (simp add: cts_simps)

lemma length_shift: "shaped a \<Longrightarrow> length (type_bytes (conc f (shift k a))) = length (type_bytes (conc g a))"
proof -
  assume "shaped a"
  then have "length (words_of (conc f (shift k a))) = length (words_of (conc g a))" by (simp add: words_layout shift_length)
  then show ?thesis by (simp add: type_bytes_def)
qed

lemma copy_loop:
  assumes ca: "ca_ok ca" and k: "k = word_of_nat (length ats)"
  shows "copying d ss f R ats ds rs \<Longrightarrow> pipe_ok src ss ats d pipe \<Longrightarrow> list_all shaped rs \<Longrightarrow> \<forall>a \<in> set rs. \<forall>n \<in> at_names a. src_name src f n \<Longrightarrow>
    pos = length (types_bytes (cts ss ats)) + length (types_bytes (cts ss ds)) \<Longrightarrow> i = length ats + length ds \<Longrightarrow>
    \<exists>err pipe' ss' d'. copy_types ca src (length rs) pos i pipe = Some (err, pipe') \<and> pipe_ok src ss' ats d' pipe' \<and>
      ((\<forall>a \<in> set rs. \<forall>n \<in> at_names a. offset_of ss n \<noteq> None) \<longrightarrow> h_str_len (hdr d') = h_str_len (hdr d)) \<and> length (types_data d') = length (types_data d) \<and>
      (err = - ENOMEM \<or> err = 0 \<and> copying d' ss' f R ats (ds @ map (shift k) rs) [])"
proof (induction rs arbitrary: d ss ds pipe pos i)
  case Nil
  then show ?case by (intro exI [of _ 0] exI [of _ pipe] exI [of _ ss] exI [of _ d]) simp
next
  case (Cons a rs)
  have a: "shaped a" "\<forall>n \<in> at_names a. src_name src f n" using Cons.prems(3,4) by simp_all
  obtain err p1 ss1 d1 where t: "copy_types ca src (Suc (length rs)) pos i pipe =
      (if err \<noteq> 0 then Some (err, p1) else copy_types ca src (length rs) (pos + length (type_bytes (conc f a))) (i + 1) p1)"
    "pipe_ok src ss1 ats d1 p1" "\<forall>n k. offset_of ss n = Some k \<longrightarrow> offset_of ss1 n = Some k"
    "(\<forall>n \<in> at_names a. offset_of ss n \<noteq> None) \<longrightarrow> h_str_len (hdr d1) = h_str_len (hdr d)" "length (types_data d1) = length (types_data d)"
    "err = - ENOMEM \<or> err = 0 \<and> copying d1 ss1 f R ats (ds @ [shift k a]) rs"
    by (rule copy_turn [OF ca Cons.prems(1,2) a k Cons.prems(5,6)])
  show ?case
  proof (cases "err = 0")
    case False
    then show ?thesis using t by (intro exI [of _ err] exI [of _ p1] exI [of _ ss1] exI [of _ d1]) auto
  next
    case True
    then have c1: "copying d1 ss1 f R ats (ds @ [shift k a]) rs" using t(6) by (auto simp: ENOMEM_def)
    have pos': "pos + length (type_bytes (conc f a)) = length (types_bytes (cts ss1 ats)) + length (types_bytes (cts ss1 (ds @ [shift k a])))"
      using Cons.prems(5) length_cts [of ss ats ss1] length_cts [of ss ds ss1] length_shift [OF a(1), of "str_off ss1" k f] by (simp add: cts_simps del: length_type_bytes)
    have p3: "list_all shaped rs" "\<forall>a \<in> set rs. \<forall>n \<in> at_names a. src_name src f n" using Cons.prems(3,4) by simp_all
    have i': "i + 1 = length ats + length (ds @ [shift k a])" using Cons.prems(6) by simp
    obtain err2 p2 ss2 d2 where r: "copy_types ca src (length rs) (pos + length (type_bytes (conc f a))) (i + 1) p1 = Some (err2, p2)"
        "pipe_ok src ss2 ats d2 p2" "(\<forall>a \<in> set rs. \<forall>n \<in> at_names a. offset_of ss1 n \<noteq> None) \<longrightarrow> h_str_len (hdr d2) = h_str_len (hdr d1)"
        "length (types_data d2) = length (types_data d1)" "err2 = - ENOMEM \<or> err2 = 0 \<and> copying d2 ss2 f R ats ((ds @ [shift k a]) @ map (shift k) rs) []"
      using Cons.IH [OF c1 t(2) p3 pos' i'] by (elim exE conjE) (rule that)
    have "h_str_len (hdr d2) = h_str_len (hdr d)" if "\<forall>b \<in> set (a # rs). \<forall>n \<in> at_names b. offset_of ss n \<noteq> None"
    proof -
      have "\<forall>b \<in> set rs. \<forall>n \<in> at_names b. offset_of ss1 n \<noteq> None" using that t(3) by (metis list.set_intros(2) not_None_eq)
      then show ?thesis using r(3) t(4) that by simp
    qed
    then show ?thesis using t(1,5) True r by (intro exI [of _ err2] exI [of _ p2] exI [of _ ss2] exI [of _ d2]) simp
  qed
qed

section \<open>Before and after the loop\<close>

lemma commit_copy:
  assumes c: "copying d ss f R ats ds []" and n: "n = length (types_bytes (cts ss ds))"
  shows "built (grow_hdr n (d\<lparr>nr_types := nr_types d + length ds\<rparr>)) ss (ats @ ds)" (is "built ?d ss _")
proof -
  define T D where "T = types_bytes (cts ss ats)" and "D = types_bytes (cts ss ds)"
  have b: "built d ss ats" and td: "types_data d = T @ D @ R" and sh: "list_all shaped ds" and nn: "\<forall>a \<in> set ds. \<forall>n \<in> at_names a. offset_of ss n \<noteq> None"
    and lo: "length ats + length ds \<le> length (type_offs d)" and ix: "indexes (take (length ats + length ds) (type_offs d)) 0 (cts ss (ats @ ds))"
    using c by (simp_all add: copying_def T_def D_def)
  note bu = b [unfolded built_def]
  have h: "hdr ?d = image_hdr 1 0 (length T + length D) (length (visible ss))"
    unfolding n D_def [symmetric] by (rule grow_hdr_image) (use bu in \<open>simp add: T_def\<close>)
  have mx: "length (T @ D @ R) \<le> UINT_MAX" using bu td by simp
  have u: "unat (h_type_len (hdr ?d)) = length T + length D" unfolding h using mx by (intro image_hdr_len) (simp add: UINT_MAX_def)
  have fs: "types_data ?d = T @ D @ R" "nr_types ?d = length ats + length ds" "type_offs ?d = type_offs d" using td built_len(4) [OF b] by (simp_all add: grow_hdr_def)
  have tb: "types_bytes (cts ss (ats @ ds)) = T @ D" by (simp add: cts_simps T_def D_def)
  have ok: "list_all at_ok ds" using sh by (auto simp: list_all_iff shaped_ok)
  then have "list_all type_ok (cts ss ds)" by (auto simp: list_all_iff cts_def conc_ok)
  moreover have "list_all type_ok (cts ss ats)" using bu by (simp add: types_in_def)
  ultimately have "types_in ?d (cts ss (ats @ ds))" unfolding types_in_def u fs tb using lo ix by (simp add: cts_simps)
  then show ?thesis unfolding built_def tb h fs(1) using bu nn ok mx by (simp add: grow_hdr_def ball_Un)
qed

lemma undo_ok:
  assumes b: "built d ss ats" and m: "length (types_bytes (cts ss ats)) + n \<le> length (types_data d)"
  shows "undo_copy (Btf None d) n old = None \<and> h_str_len (hdr d) \<noteq> old \<or> (\<exists>b'. undo_copy (Btf None d) n old = Some b' \<and> bsim b' ats)"
proof -
  define T where "T = types_bytes (cts ss ats)"
  note len = built_len [OF b]
  have t: "take (length T) (types_data d) = T" using built_prefix [OF b] len(3) by (simp add: T_def)
  define d1 where "d1 = d\<lparr>types_data := T @ replicate n 0 @ drop (length T + n) (types_data d)\<rparr>"
  have p: "put_types (Btf None d) (unat (h_type_len (hdr d))) (replicate n 0) = Some (Btf None d1)"
    using m len(3) t by (simp add: put_types_def stn_def patch_def d1_def T_def)
  have b1: "built d1 ss ats" unfolding d1_def by (rule built_data [OF b]) (use m b in \<open>simp_all add: T_def built_def\<close>)
  have sd: "btf_data.strs_data d1 = None" "hdr d1 = hdr d" using b by (simp_all add: d1_def built_def)
  show ?thesis
  proof (cases "h_str_len (hdr d) = old")
    case True
    then have "undo_copy (Btf None d) n old = Some (Btf None (d1\<lparr>strs_data := None, hdr := hdr d1\<lparr>h_str_len := old\<rparr>\<rparr>))"
      using p sd by (simp add: undo_copy_def)
    moreover have "d1\<lparr>strs_data := None, hdr := hdr d1\<lparr>h_str_len := old\<rparr>\<rparr> = d1" using True sd by simp
    ultimately show ?thesis using b1 by (auto simp: bsim_def)
  next
    case False
    then have "unat (h_str_len (hdr d) - old) \<noteq> 0" by (simp add: unat_eq_zero)
    then show ?thesis using False p sd by (simp add: undo_copy_def)
  qed
qed

lemma text_src_name:
  assumes p: "parts d vis (map (conc f) as)" and t: "text_ok vis f as" and a: "a \<in> set as" "n \<in> at_names a"
  shows "src_name (Btf None d) f n"
proof -
  obtain s where s: "btf_strs_data d = Some s" "take (length vis) s = vis" using p by (auto simp: parts_def)
  have x: "unat (f n) < length vis" "takeWhile (\<lambda>c. c \<noteq> NUL) (drop (unat (f n)) vis) = n" and v: "vis \<noteq> []" "hd vis = NUL" "last vis = NUL" "length vis < 2 ^ 31"
    using t a by (auto simp: text_ok_def)
  have "c_str s (unat (f n)) = Some n" using c_str_prefix [OF s(2) v(1,3) x(1)] x(2) by simp
  moreover have "unat (h_str_len (hdr d)) = length vis" "start_str_off d = 0"
    using p v(4) by (simp_all add: parts_def image_hdr_def unsigned_of_nat take_bit_nat_eq_self)
  moreover have "NUL \<notin> set n" using x(2) by (metis (mono_tags, lifting) set_takeWhileD)
  moreover have "f n \<noteq> 0"
  proof
    assume "f n = 0"
    then have "n = []" using x(2) v(1,2) by (cases vis) auto
    then show False using a(2) by (simp add: at_names_def)
  qed
  ultimately show ?thesis using s(1) x(1) by (simp add: src_name_def)
qed

lemma int_size_small: "int_size n \<le> UINT_MAX \<Longrightarrow> int_size n = unat n"
  by (simp add: int_size_def UINT_MAX_def split: if_splits)

definition all_names :: "atype list \<Rightarrow> string set" where
  "all_names as = (\<Union>a \<in> set as. at_names a)"

text \<open>After the loop.\<close>

definition finish_copy :: "nat \<Rightarrow> nat \<Rightarrow> u32 \<Rightarrow> int \<Rightarrow> btf \<Rightarrow> (int \<times> btf) option" where
  "finish_copy data_sz cnt old err b =
     (if err \<noteq> 0 then do { b4 \<leftarrow> undo_copy b data_sz old; Some (err, b4) }
      else Some (int (start_id (own b) + nr_types (own b)), Btf (base_btf b) (grow_hdr data_sz ((own b)\<lparr>nr_types := nr_types (own b) + cnt\<rparr>))))"

definition merged :: "(int \<times> btf) option \<Rightarrow> atype list \<Rightarrow> atype list \<Rightarrow> bool" where
  "merged x ats sats \<longleftrightarrow> (case x of None \<Rightarrow> \<not> all_names sats \<subseteq> all_names ats
     | Some (r, b') \<Rightarrow> r = - ENOMEM \<and> bsim b' ats \<or> r = int (length ats + 1) \<and> bsim b' (ats @ map (shift (word_of_nat (length ats))) sats))"

lemma copy_and_finish:
  assumes ca: "ca_ok ca" and c: "copying d ss f R ats [] sats" and p: "pipe_ok src ss ats d pipe" and s: "list_all shaped sats" "\<forall>a \<in> set sats. \<forall>n \<in> at_names a. src_name src f n"
    and n: "n = length (types_bytes (map (conc f) sats))" "old = h_str_len (hdr d)" "pos = length (types_bytes (cts ss ats))"
  shows "merged (copy_types ca src (length sats) pos (length ats) pipe \<bind> (\<lambda>(err, p'). finish_copy n (length sats) old err (dst p'))) ats sats"
proof -
  let ?k = "word_of_nat (length ats) :: u32"
  have pos': "pos = length (types_bytes (cts ss ats)) + length (types_bytes (cts ss []))" and i': "length ats = length ats + length ([] :: atype list)"
    using n(3) by (simp_all add: cts_simps)
  obtain err p' ss' d' where r: "copy_types ca src (length sats) pos (length ats) pipe = Some (err, p')" "pipe_ok src ss' ats d' p'"
      "(\<forall>a \<in> set sats. \<forall>n \<in> at_names a. offset_of ss n \<noteq> None) \<longrightarrow> h_str_len (hdr d') = h_str_len (hdr d)" "length (types_data d') = length (types_data d)"
      "err = - ENOMEM \<or> err = 0 \<and> copying d' ss' f R ats ([] @ map (shift ?k) sats) []"
    using copy_loop [OF ca refl c p s pos' i'] by (elim exE conjE) (rule that)
  have b: "dst p' = Btf None d'" "built d' ss' ats" using r(2) by (simp_all add: pipe_ok_def)
  show ?thesis
  proof (cases "err = 0")
    case True
    then have c': "copying d' ss' f R ats (map (shift ?k) sats) []" using r(5) by (auto simp: ENOMEM_def)
    have "length (types_bytes (cts ss' (map (shift ?k) xs))) = length (types_bytes (map (conc f) xs))" if "list_all shaped xs" for xs
      using that
    proof (induction xs)
      case (Cons x xs)
      then show ?case using length_shift [of x "str_off ss'" ?k f] by (simp add: cts_simps del: length_type_bytes)
    qed (simp add: cts_simps)
    then have "built (grow_hdr n (d'\<lparr>nr_types := nr_types d' + length sats\<rparr>)) ss' (ats @ map (shift ?k) sats)"
      using commit_copy [OF c', of n] s(1) n(1) by simp
    moreover have "start_id d' + nr_types d' = length ats + 1" using b(2) built_len(4) [OF b(2)] by (simp add: built_def)
    ultimately show ?thesis using r(1) b(1) True by (auto simp: merged_def finish_copy_def bsim_def)
  next
    case False
    have m: "length (types_bytes (cts ss' ats)) + n \<le> length (types_data d')"
      using c r(4) n(1) length_cts [of ss ats ss'] by (simp add: copying_def cts_simps)
    have known: "\<forall>a \<in> set sats. \<forall>n \<in> at_names a. offset_of ss n \<noteq> None" if "all_names sats \<subseteq> all_names ats"
      using c that unfolding copying_def built_def all_names_def by blast
    show ?thesis using undo_ok [OF b(2) m, of old] r(1,3,5) b(1) False known n(2) by (auto simp: merged_def finish_copy_def)
  qed
qed

lemma dedup_map_new:
  "hm_inv btf_dedup_equal_fn (hashmap_init btf_dedup_identity_hash_fn btf_dedup_equal_fn)"
  "hashmap_find (hashmap_init btf_dedup_identity_hash_fn btf_dedup_equal_fn) = (\<lambda>_. None)"
proof -
  have "btf_dedup_equal_fn = (=)" by (simp add: fun_eq_iff btf_dedup_equal_fn_def)
  then have e: "equivp btf_dedup_equal_fn" by (simp add: identity_equivp)
  show "hm_inv btf_dedup_equal_fn (hashmap_init btf_dedup_identity_hash_fn btf_dedup_equal_fn)"
    by (rule hm_inv_init(1) [OF e]) (simp add: btf_dedup_equal_fn_def)
  show "hashmap_find (hashmap_init btf_dedup_identity_hash_fn btf_dedup_equal_fn) = (\<lambda>_. None)"
    by (rule hm_inv_init(2) [OF e]) (simp add: btf_dedup_equal_fn_def)
qed

lemma add_btf_ok:
  assumes s: "bsim b ats" and ca: "ca_ok ca" and p: "parts sd vis (map (conc f) sats)" and t: "text_ok vis f sats" and sh: "list_all shaped sats"
  shows "merged (btf__add_btf ca b (Btf None sd)) ats sats"
proof -
  let ?src = "Btf None sd" and ?al = "ca_calls ca 0" and ?S = "types_bytes (map (conc f) sats)"
  define n where "n = int_size (h_type_len (hdr sd))"
  have ti: "types_in sd (map (conc f) sats)" "start_id sd = 1" using p by (simp_all add: parts_def)
  define L where "L = unat (h_type_len (hdr sd))"
  have tl: "L \<le> length (types_data sd)" "take L (types_data sd) = ?S" "nr_types sd = length sats" using ti(1) unfolding types_in_def L_def by auto
  then have Ll: "L = length ?S" by (metis length_take min.absorb2)
  have cnt: "btf__type_cnt ?src - 1 = length sats" using ti(2) tl(3) by (simp add: btf__type_cnt_def)
  have c: "calloc_bounded (al_calloc (?al 0))" using ca by (simp add: ca_ok_def)
  obtain r b1 where o: "open_append ?al b Null n = Some (r, b1)" "r = - ENOMEM \<and> bsim b1 ats \<or> (\<exists>ss. opened b1 [] n r ss ats)"
    by (rule open_append_ok [where al = ?al and name = Null, OF s c]) (simp_all add: nstr_def)
  show ?thesis
  proof (cases "r = - ENOMEM")
    case True
    then have "bsim b1 ats" using o(2) by (auto simp: opened_def ENOMEM_def)
    then show ?thesis using o(1) True by (simp add: merged_def btf__add_btf_def n_def [symmetric] ENOMEM_def)
  next
    case False
    then obtain ss where op: "opened b1 [] n r ss ats" using o(2) by blast
    have r0: "r = 0" using open_append_Null [OF o(1)] False by simp
    define d1 T where "d1 = own b1" and "T = types_bytes (cts ss ats)"
    have b1: "b1 = Btf None d1" "built d1 ss ats" using op by (cases b1; simp add: opened_def d1_def)+
    have room: "length T + n \<le> length (types_data d1)" using op by (simp add: opened_def T_def d1_def)
    have "length (types_data d1) \<le> UINT_MAX" using b1(2) by (simp add: built_def)
    then have n: "n = length ?S" using int_size_small [of "h_type_len (hdr sd)"] room Ll by (simp add: n_def L_def)
    have hl: "unat (h_type_len (hdr d1)) = length T" "nr_types d1 = length ats" using built_len [OF b1(2)] by (simp_all add: T_def)
    show ?thesis
    proof (cases "btf_add_type_offs_mem (al_offs (?al 0)) (type_offs d1) (nr_types d1) (length sats)")
      case None
      then show ?thesis using o(1) r0 b1 cnt by (auto simp: merged_def btf__add_btf_def n_def [symmetric] bsim_def Let_def)
    next
      case (Some offs)
      note f = add_mem_facts [OF Some [unfolded btf_add_type_offs_mem_def]]
      define d2 where "d2 = d1\<lparr>type_offs := offs\<rparr>"
      have nr: "length ats \<le> length (type_offs d1)" using b1(2) hl(2) by (simp add: built_def types_in_def)
      have ot: "take (length ats) offs = take (length ats) (type_offs d1)" using f(2) nr by (metis min.absorb1 take_take)
      have b2: "built d2 ss ats" unfolding d2_def by (rule built_offs [OF b1(2) ot]) (use f(1) hl(2) in simp)
      show ?thesis
      proof (cases "ca_map_new ca")
        case False
        then show ?thesis using o(1) r0 b1(1) b2 cnt Some by (auto simp: merged_def btf__add_btf_def n_def [symmetric] bsim_def Let_def hashmap_new_def d2_def)
      next
        case True
        define m where "m = hashmap_init btf_dedup_identity_hash_fn btf_dedup_equal_fn"
        have hm: "hm_inv btf_dedup_equal_fn m" "hashmap_find m = (\<lambda>_. None)"
          using dedup_map_new by (simp_all add: m_def)
        define R where "R = drop (length T + n) (types_data d1)"
        define d3 where "d3 = d2\<lparr>types_data := T @ ?S @ R\<rparr>"
        have tk: "take (length T) (types_data d1) = T" using built_prefix [OF b1(2)] hl(1) by (simp add: T_def)
        have ld: "ldn (types_data sd) 0 n = Some ?S" using tl Ll n by (simp add: ldn_def)
        have pt: "put_types (Btf None d2) (length T) ?S = Some (Btf None d3)"
          using room n tk by (simp add: put_types_def stn_def patch_def d2_def d3_def R_def)
        have b3: "built d3 ss ats" unfolding d3_def by (rule built_data [OF b2]) (use room n b2 in \<open>simp_all add: T_def R_def built_def d2_def\<close>)
        have pk: "pipe_ok ?src ss ats d3 \<lparr>dst = Btf None d3, str_off_map = Some m, calls = 1\<rparr>" using b3 hm by (simp add: pipe_ok_def map_ok_def)
        have ix: "indexes (take (length ats) offs) 0 (cts ss ats)" using b1(2) hl(2) ot by (simp add: built_def types_in_def)
        have cp: "copying d3 ss f R ats [] sats"
          unfolding copying_def using b3 f(1) hl(2) ix by (simp add: d3_def d2_def T_def cts_simps)
        have h3: "h_str_len (hdr d3) = h_str_len (hdr d1)" by (simp add: d3_def d2_def)
        have sn: "\<forall>a \<in> set sats. \<forall>n \<in> at_names a. src_name ?src f n" using text_src_name [OF p t] by blast
        have "btf__add_btf ca b ?src = copy_types ca ?src (length sats) (length T) (length ats) \<lparr>dst = Btf None d3, str_off_map = Some m, calls = 1\<rparr> \<bind>
            (\<lambda>(err, p'). finish_copy n (length sats) (h_str_len (hdr d3)) err (dst p'))"
          using o(1) r0 b1(1) cnt Some True ld pt hl h3
          by (simp add: btf__add_btf_def n_def [symmetric] Let_def hashmap_new_def m_def [symmetric] d2_def [symmetric] finish_copy_def cong: if_cong)
        then show ?thesis using copy_and_finish [OF ca cp pk sh sn n refl, of "length T"] by (simp add: T_def)
      qed
    qed
  qed
qed

section \<open>Types that were built\<close>

lemma valid_outcome:
  "valid ok x = Append a \<Longrightarrow> x = Append a" "valid ok x = Extend a \<Longrightarrow> x = Extend a"
  "on_last K ats r = Append a \<Longrightarrow> r (last ats) = Append a"
  "on_last K ats r = Extend a \<Longrightarrow> ats \<noteq> [] \<and> at_kind (last ats) \<in> K \<and> r (last ats) = Extend a"
  by (simp_all add: valid_def on_last_def split: if_splits)

lemma plain_shaped:
  assumes "1 \<le> k" "k \<le> 19" "length ws = fixed_words k"
  shows "shaped (plain s k bsz ws)" "shaped ((plain s k bsz ws)\<lparr>at_kflag := kf\<rparr>)" "elem_size k = 0 \<Longrightarrow> v < 65536 \<Longrightarrow> shaped ((plain s k bsz ws)\<lparr>at_vlen := v\<rparr>)"
  using assms by (simp_all add: shaped_def plain_def)

lemma one_more_shaped:
  assumes "shaped a" "at_vlen (one_more e kf a) < 65536" "length (elem_layout e) = elem_size (at_kind a)" "elem_size (at_kind a) \<noteq> 0" "fst e \<noteq> None \<longleftrightarrow> named_kind (at_kind a)"
  shows "shaped (one_more e kf a)"
  using assms by (auto simp: shaped_def one_more_def)

lemma bspec_append_shaped: "bspec op ats = Append a \<Longrightarrow> shaped a"
  by (cases op) (auto dest!: valid_outcome(1,3) simp: plain_shaped fixed_words_def elem_size_def valid_def Let_def split: if_splits)

lemma bspec_extend_shaped:
  assumes "bspec op ats = Extend a" "list_all shaped ats" "at_vlen a < 65536"
  shows "shaped a"
proof -
  have "ats \<noteq> [] \<Longrightarrow> shaped (last ats)" using assms(2) by (simp add: list_all_iff)
  then show ?thesis
    using assms(1,3) by (cases op) (auto dest!: valid_outcome(2,4) intro!: one_more_shaped simp: elem_layout_def elem_size_def named_kind_def Let_def split: if_splits)
qed

lemma bnext_shaped: "bguard c ats \<Longrightarrow> list_all shaped ats \<Longrightarrow> list_all shaped (bnext c r ats)"
  using bspec_append_shaped [of "snd c" ats] bspec_extend_shaped [of "snd c" ats] by (auto simp: bnext_def bguard_def list_all_iff dest: in_set_butlastD split: outcome.splits)

lemma run_shaped:
  "spec_run ballowed bnext cs rs ats = Some ats' \<Longrightarrow> guards_hold bguard bnext cs rs ats \<Longrightarrow> list_all shaped ats \<Longrightarrow> list_all shaped ats'"
proof (induction cs arbitrary: rs ats)
  case Nil
  then show ?case by (cases rs) auto
next
  case (Cons c cs)
  then obtain r rs1 where "rs = r # rs1" by (cases rs) auto
  then show ?case using Cons.IH [of rs1 "bnext c r ats"] Cons.prems bnext_shaped by (auto split: if_splits)
qed

text \<open>BTF that was built, with its abstract types.\<close>

lemma built_by:
  assumes "btf_new_empty True True None = Inr b0" "run_steps bstep cs b0 = (rs, b)" "guards_hold bguard bnext cs rs []"
  obtains ats where "spec_run ballowed bnext cs rs [] = Some ats" "bsim b ats" "list_all shaped ats"
proof -
  have "bsim b0 []" using assms(1) by (simp add: bsim_def)
  from builder.run_simulates [OF this assms(2,3)] obtain ats where "spec_run ballowed bnext cs rs [] = Some ats" "bsim b ats" by blast
  then show ?thesis using that run_shaped [of cs rs "[]" ats] assms(3) by simp
qed

lemma type_by_id_built:
  assumes "parts d vis (map (conc f) ats)" "i < length ats"
  shows "btf__type_by_id (Btf None d) (i + 1) = Some (Ref (conc f (ats ! i)))"
proof -
  have d: "types_in d (map (conc f) ats)" "start_id d = 1" using assms(1) by (simp_all add: parts_def)
  then have "nr_types d = length ats" by (simp add: types_in_def)
  then show ?thesis using type_at_in [OF d(1), of i] assms(2) d(2) by (simp add: btf__type_by_id_def btf__type_cnt_def)
qed

text \<open>
  Copying a type into another BTF adds the same type. Let both BTFs be built by any sequences of calls, and take the type with any id of the second one. \<^verbatim>\<open>btf__add_type\<close> stays in memory and either fails for lack of memory, with
  the types of the first BTF as they were, or returns the next id, and the first BTF has one more type that agrees with the copied one in kind, elements and names. Its names are in the strings of the first BTF.
\<close>

theorem btf_add_type_copies:
  assumes "btf_new_empty True True None = Inr b0" "run_steps bstep cs b0 = (rs, b)" "guards_hold bguard bnext cs rs []"
    and "run_steps bstep cs2 b0 = (rs2, src)" "guards_hold bguard bnext cs2 rs2 []" "0 < i" "i < btf__type_cnt src" "ca_ok ca"
  shows "\<exists>ats sats t r b'. spec_run ballowed bnext cs rs [] = Some ats \<and> spec_run ballowed bnext cs2 rs2 [] = Some sats \<and> btf__type_by_id src i = Some (Ref t) \<and>
    btf__add_type ca b src t = Some (r, b') \<and>
    (r = - ENOMEM \<and> holds b' ats \<or> r = int (length ats + 1) \<and> holds b' (ats @ [sats ! (i - 1)]))"
proof -
  obtain ats where a: "spec_run ballowed bnext cs rs [] = Some ats" "bsim b ats" by (rule built_by [OF assms(1-3)])
  obtain sats where s: "spec_run ballowed bnext cs2 rs2 [] = Some sats" "bsim src sats" "list_all shaped sats" by (rule built_by [OF assms(1,4,5)])
  obtain d vis f where d: "src = Btf None d" "parts d vis (map (conc f) sats)" "text_ok vis f sats" by (rule bsim_parts [OF s(2)])
  have i: "i - 1 < length sats" using assms(6,7) bsim_holds [OF s(2)] by (auto simp: holds_def)
  have t: "btf__type_by_id src i = Some (Ref (conc f (sats ! (i - 1))))" using type_by_id_built [OF d(2) i] assms(6) d(1) by simp
  have "realizes (btf__add_type ca b src (conc f (sats ! (i - 1)))) (Append (sats ! (i - 1))) ats"
    by (rule add_type_ok [OF a(2) assms(8)]) (use s(3) i text_src_name [OF d(2,3) nth_mem [OF i]] d(1) in \<open>auto simp: list_all_length\<close>)
  then show ?thesis using a(1) s(1) t bsim_holds by (fastforce simp: realizes_def)
qed

text \<open>
  Appending a whole BTF. Let both BTFs be built by any sequences of calls. When \<^verbatim>\<open>btf__add_btf\<close> returns, either memory was missing and the first BTF has the types that it had, or the result is the id of the first new type, and behind the
  old types are all types of the other BTF in their order, with the same names and with every type id moved by the number of old types, \<^verbatim>\<open>void\<close> excepted. If the first BTF has all the names of the other one, it does return; otherwise it may
  instead write through a null pointer when memory runs out after a string was added.
\<close>

theorem btf_add_btf_merges:
  assumes "btf_new_empty True True None = Inr b0" "run_steps bstep cs b0 = (rs, b)" "guards_hold bguard bnext cs rs []"
    and "run_steps bstep cs2 b0 = (rs2, src)" "guards_hold bguard bnext cs2 rs2 []" "ca_ok ca"
  shows "\<exists>ats sats. spec_run ballowed bnext cs rs [] = Some ats \<and> spec_run ballowed bnext cs2 rs2 [] = Some sats \<and>
    (all_names sats \<subseteq> all_names ats \<longrightarrow> btf__add_btf ca b src \<noteq> None) \<and>
    (\<forall>r b'. btf__add_btf ca b src = Some (r, b') \<longrightarrow>
      r = - ENOMEM \<and> holds b' ats \<or> r = int (length ats + 1) \<and> holds b' (ats @ map (shift (word_of_nat (length ats))) sats))"
proof -
  obtain ats where a: "spec_run ballowed bnext cs rs [] = Some ats" "bsim b ats" by (rule built_by [OF assms(1-3)])
  obtain sats where s: "spec_run ballowed bnext cs2 rs2 [] = Some sats" "bsim src sats" "list_all shaped sats" by (rule built_by [OF assms(1,4,5)])
  obtain d vis f where d: "src = Btf None d" "parts d vis (map (conc f) sats)" "text_ok vis f sats" by (rule bsim_parts [OF s(2)])
  have "merged (btf__add_btf ca b src) ats sats" unfolding d(1) by (rule add_btf_ok [OF a(2) assms(6) d(2,3) s(3)])
  then show ?thesis using a(1) s(1) bsim_holds by (auto simp: merged_def split: option.splits)
qed

text \<open>With enough memory, BTF with one integer is merged into empty BTF, and the integer gets the id 1.\<close>

definition copy_ok :: copy_allocs where
  "copy_ok = \<lparr>ca_calls = (\<lambda>_. all_ok), ca_map_new = True, ca_map_calloc = (\<lambda>_. calloc_of True), ca_map_entry = (\<lambda>_. True)\<rparr>"

definition one_int :: "bcmd list" where
  "one_int = [(all_ok, Add_int (Ref ''int'') 4 1)]"

lemma one_int_runs:
  assumes "btf_new_empty True True None = Inr b0"
  shows "map_option fst (btf__add_btf copy_ok b0 (snd (run_steps bstep one_int b0))) = Some 1"
proof -
  have b: "b0 = projr (btf_new_empty True True None)" using assms by simp
  show ?thesis unfolding one_int_def b
    by (simp add: btf_new_empty_def BTF_VERSION_def Let_def eval_build eval_hash btf__add_int_def BTF_INT_SIGNED_def BTF_INT_CHAR_def BTF_INT_BOOL_def btf_type_info_def
     btf__type_cnt_def ld_type_def ld_base_def ld32_def le32_def btf_kind_def BTF_INFO_KIND_def btf_type_size_def btf_vlen_def BTF_INFO_VLEN_def
     btf__add_btf_def copy_ok_def int_size_def btf_type_visit_str_offs_def btf_type_visit_type_ids_def str_slots_def id_slots_def btf_rewrite_str_def btf_rewrite_type_ids_def
     put_types_def btf_dedup_identity_hash_fn_def btf_dedup_equal_fn_def c_str_def btf_strs_data_def strset__data_def)
qed

end
