(* ===== verification/Core_Compat.thy ===== *)
theory Core_Compat
  imports Btf
begin

text \<open>
  The relations between types that CO-RE relocation uses (\<^verbatim>\<open>lib/libbpf/src/relo_core.c\<close>, with the name functions of \<^verbatim>\<open>libbpf.c\<close>): compatibility of types and of fields,
  and the stricter matching of types. Results are the numbers of the code: 1 yes, 0 no, negative an error. The loops that the code bounds by \<^verbatim>\<open>depth\<close> and \<^verbatim>\<open>level\<close>
  recurse on these bounds; following array elements in \<^verbatim>\<open>bpf_core_fields_are_compat\<close> is not bounded, so it is a partial function.
\<close>

section \<open>Names\<close>

definition str_is_empty :: "string nullable \<Rightarrow> bool" where
  "str_is_empty s = (case s of Null \<Rightarrow> True | Ref n \<Rightarrow> n = [])"

definition bpf_core_is_flavor_sep :: "string \<Rightarrow> nat \<Rightarrow> bool" where
  "bpf_core_is_flavor_sep s i \<longleftrightarrow>
     s ! i \<noteq> CHR ''_'' \<and> s ! (i + 1) = CHR ''_'' \<and> s ! (i + 2) = CHR ''_'' \<and> s ! (i + 3) = CHR ''_'' \<and> s ! (i + 4) \<noteq> CHR ''_''"

text \<open>The loop with \<open>i\<close> one above the position that is looked at next.\<close>

fun essential_loop :: "string \<Rightarrow> nat \<Rightarrow> nat" where
  "essential_loop name 0 = length name"
| "essential_loop name (Suc i) = (if bpf_core_is_flavor_sep name i then i + 1 else essential_loop name i)"

definition bpf_core_essential_name_len :: "string \<Rightarrow> nat" where
  "bpf_core_essential_name_len name = essential_loop name (length name - 4)"

text \<open>A null pointer is followed by \<^verbatim>\<open>strlen\<close>: the result is \<open>None\<close>.\<close>

definition deref :: "'a nullable \<Rightarrow> 'a option" where
  "deref p = (case p of Null \<Rightarrow> None | Ref x \<Rightarrow> Some x)"

definition bpf_core_names_match :: "btf \<Rightarrow> u32 \<Rightarrow> btf \<Rightarrow> u32 \<Rightarrow> bool option" where
  "bpf_core_names_match local_btf local_name_off targ_btf targ_name_off = do {
     local_n \<leftarrow> btf__name_by_offset local_btf local_name_off;
     targ_n \<leftarrow> btf__name_by_offset targ_btf targ_name_off;
     if str_is_empty targ_n then Some (str_is_empty local_n)
     else do {
       t \<leftarrow> deref targ_n; l \<leftarrow> deref local_n;
       let targ_len = bpf_core_essential_name_len t; local_len = bpf_core_essential_name_len l in
       Some (targ_len = local_len \<and> take local_len l = take local_len t) } }"

section \<open>Compatible types\<close>

text \<open>
  The loop over parameters and the passes of the code's \<^verbatim>\<open>recur\<close> label; \<open>rec\<close> is the recursive call for one pair of
  parameter types. \<open>depth\<close> is how many passes are left.
\<close>

fun compat_params :: "(nat \<Rightarrow> nat \<Rightarrow> int option) \<Rightarrow> btf_type \<Rightarrow> btf_type \<Rightarrow> nat \<Rightarrow> nat \<Rightarrow> int option" where
  "compat_params rec local_type targ_type i 0 = Some 1"
| "compat_params rec local_type targ_type i (Suc n) = do {
     local_p \<leftarrow> btf_params local_type i;
     targ_p \<leftarrow> btf_params targ_type i;
     err \<leftarrow> rec (unat (p_type local_p)) (unat (p_type targ_p));
     if err \<le> 0 then Some err else compat_params rec local_type targ_type (i + 1) n }"

fun compat_recur :: "(nat \<Rightarrow> nat \<Rightarrow> int option) \<Rightarrow> nat \<Rightarrow> btf \<Rightarrow> nat \<Rightarrow> btf \<Rightarrow> nat \<Rightarrow> int option" where
  "compat_recur rec 0 local_btf local_id targ_btf targ_id = Some (- EINVAL)"
| "compat_recur rec (Suc depth) local_btf local_id targ_btf targ_id = do {
     (local_type, local_id1) \<leftarrow> skip_mods_and_typedefs local_btf local_id;
     (targ_type, targ_id1) \<leftarrow> skip_mods_and_typedefs targ_btf targ_id;
     if \<not> btf_kind_core_compat local_type targ_type then Some 0
     else let kind = btf_kind local_type in
     if kind \<in> {BTF_KIND_UNKN, BTF_KIND_STRUCT, BTF_KIND_UNION, BTF_KIND_ENUM, BTF_KIND_FWD, BTF_KIND_ENUM64} then Some 1
     else if kind = BTF_KIND_INT then do {
       lo \<leftarrow> btf_int_offset local_type; to \<leftarrow> btf_int_offset targ_type; Some (of_bool (lo = 0 \<and> to = 0)) }
     else if kind = BTF_KIND_PTR then
       compat_recur rec depth local_btf (unat (size_type local_type)) targ_btf (unat (size_type targ_type))
     else if kind = BTF_KIND_ARRAY then do {
       la \<leftarrow> btf_array local_type; ta \<leftarrow> btf_array targ_type;
       compat_recur rec depth local_btf (unat (a_type la)) targ_btf (unat (a_type ta)) }
     else if kind = BTF_KIND_FUNC_PROTO then
       if btf_vlen local_type \<noteq> btf_vlen targ_type then Some 0
       else do {
         err \<leftarrow> compat_params rec local_type targ_type 0 (btf_vlen local_type);
         if err \<le> 0 then Some err
         else do {
           (_, local_id2) \<leftarrow> skip_mods_and_typedefs local_btf (unat (size_type local_type));
           (_, targ_id2) \<leftarrow> skip_mods_and_typedefs targ_btf (unat (size_type targ_type));
           compat_recur rec depth local_btf local_id2 targ_btf targ_id2 } }
     else Some 0 }"

fun types_are_compat_level :: "nat \<Rightarrow> btf \<Rightarrow> nat \<Rightarrow> btf \<Rightarrow> nat \<Rightarrow> int option" where
  "types_are_compat_level level local_btf local_id targ_btf targ_id = do {
     local_type \<leftarrow> btf_type_by_id local_btf local_id;
     targ_type \<leftarrow> btf_type_by_id targ_btf targ_id;
     if \<not> btf_kind_core_compat local_type targ_type then Some 0
     else compat_recur
       (\<lambda>l t. case level of 0 \<Rightarrow> Some (- EINVAL)
          | Suc level1 \<Rightarrow> do {
              (_, l1) \<leftarrow> skip_mods_and_typedefs local_btf l;
              (_, t1) \<leftarrow> skip_mods_and_typedefs targ_btf t;
              types_are_compat_level level1 local_btf l1 targ_btf t1 })
       32 local_btf local_id targ_btf targ_id }"

declare types_are_compat_level.simps [simp del]

definition bpf_core_types_are_compat :: "btf \<Rightarrow> nat \<Rightarrow> btf \<Rightarrow> nat \<Rightarrow> int option" where
  "bpf_core_types_are_compat local_btf local_id targ_btf targ_id = types_are_compat_level 32 local_btf local_id targ_btf targ_id"

section \<open>Compatible fields\<close>

partial_function (option) bpf_core_fields_are_compat :: "btf \<Rightarrow> nat \<Rightarrow> btf \<Rightarrow> nat \<Rightarrow> int option" where
  "bpf_core_fields_are_compat local_btf local_id targ_btf targ_id = do {
     (local_type, local_id1) \<leftarrow> skip_mods_and_typedefs local_btf local_id;
     (targ_type, targ_id1) \<leftarrow> skip_mods_and_typedefs targ_btf targ_id;
     if btf_is_composite local_type \<and> btf_is_composite targ_type then Some 1
     else if \<not> btf_kind_core_compat local_type targ_type then Some 0
     else let kind = btf_kind local_type in
     if kind \<in> {BTF_KIND_PTR, BTF_KIND_FLOAT} then Some 1
     else if kind \<in> {BTF_KIND_FWD, BTF_KIND_ENUM64, BTF_KIND_ENUM} then do {
       local_name \<leftarrow> btf__name_by_offset local_btf (name_off local_type) \<bind> deref;
       targ_name \<leftarrow> btf__name_by_offset targ_btf (name_off targ_type) \<bind> deref;
       let local_len = bpf_core_essential_name_len local_name; targ_len = bpf_core_essential_name_len targ_name in
       Some (of_bool (local_len = 0 \<or> targ_len = 0 \<or> (local_len = targ_len \<and> take local_len local_name = take local_len targ_name))) }
     else if kind = BTF_KIND_INT then do {
       lo \<leftarrow> btf_int_offset local_type; to \<leftarrow> btf_int_offset targ_type; Some (of_bool (lo = 0 \<and> to = 0)) }
     else if kind = BTF_KIND_ARRAY then do {
       la \<leftarrow> btf_array local_type; ta \<leftarrow> btf_array targ_type;
       bpf_core_fields_are_compat local_btf (unat (a_type la)) targ_btf (unat (a_type ta)) }
     else Some 0 }"

section \<open>Matching types\<close>

fun enum_match_one :: "btf \<Rightarrow> u32 \<Rightarrow> btf \<Rightarrow> btf_type \<Rightarrow> nat \<Rightarrow> nat \<Rightarrow> bool option" where
  "enum_match_one local_btf local_n_off targ_btf targ_t j 0 = Some False"
| "enum_match_one local_btf local_n_off targ_btf targ_t j (Suc n) = do {
     targ_n_off \<leftarrow> enum_name_off targ_t j;
     m \<leftarrow> bpf_core_names_match local_btf local_n_off targ_btf targ_n_off;
     if m then Some True else enum_match_one local_btf local_n_off targ_btf targ_t (j + 1) n }"

fun enum_match_all :: "btf \<Rightarrow> btf_type \<Rightarrow> btf \<Rightarrow> btf_type \<Rightarrow> nat \<Rightarrow> nat \<Rightarrow> int option" where
  "enum_match_all local_btf local_t targ_btf targ_t i 0 = Some 1"
| "enum_match_all local_btf local_t targ_btf targ_t i (Suc n) = do {
     local_n_off \<leftarrow> enum_name_off local_t i;
     matched \<leftarrow> enum_match_one local_btf local_n_off targ_btf targ_t 0 (btf_vlen targ_t);
     if \<not> matched then Some 0 else enum_match_all local_btf local_t targ_btf targ_t (i + 1) n }"

definition bpf_core_enums_match :: "btf \<Rightarrow> btf_type \<Rightarrow> btf \<Rightarrow> btf_type \<Rightarrow> int option" where
  "bpf_core_enums_match local_btf local_t targ_btf targ_t =
     (if size_type local_t \<noteq> size_type targ_t then Some 0
      else if btf_vlen local_t > btf_vlen targ_t then Some 0
      else enum_match_all local_btf local_t targ_btf targ_t 0 (btf_vlen local_t))"

text \<open>The inner loop over the members of the target: 1 when one matches, 0 when none does, or an error.\<close>

fun member_match_one :: "(nat \<Rightarrow> nat \<Rightarrow> int option) \<Rightarrow> btf \<Rightarrow> btf_member \<Rightarrow> btf \<Rightarrow> btf_type \<Rightarrow> nat \<Rightarrow> nat \<Rightarrow> int option" where
  "member_match_one rec local_btf local_m targ_btf targ_t j 0 = Some 0"
| "member_match_one rec local_btf local_m targ_btf targ_t j (Suc n) = do {
     targ_m \<leftarrow> btf_members targ_t j;
     same \<leftarrow> bpf_core_names_match local_btf (m_name_off local_m) targ_btf (m_name_off targ_m);
     if \<not> same then member_match_one rec local_btf local_m targ_btf targ_t (j + 1) n
     else do {
       err \<leftarrow> rec (unat (m_type local_m)) (unat (m_type targ_m));
       if err < 0 then Some err
       else if err > 0 then Some 1
       else member_match_one rec local_btf local_m targ_btf targ_t (j + 1) n } }"

fun member_match_all :: "(nat \<Rightarrow> nat \<Rightarrow> int option) \<Rightarrow> btf \<Rightarrow> btf_type \<Rightarrow> btf \<Rightarrow> btf_type \<Rightarrow> nat \<Rightarrow> nat \<Rightarrow> int option" where
  "member_match_all rec local_btf local_t targ_btf targ_t i 0 = Some 1"
| "member_match_all rec local_btf local_t targ_btf targ_t i (Suc n) = do {
     local_m \<leftarrow> btf_members local_t i;
     err \<leftarrow> member_match_one rec local_btf local_m targ_btf targ_t 0 (btf_vlen targ_t);
     if err < 0 then Some err
     else if err = 0 then Some 0
     else member_match_all rec local_btf local_t targ_btf targ_t (i + 1) n }"

definition bpf_core_composites_match :: "(nat \<Rightarrow> nat \<Rightarrow> int option) \<Rightarrow> btf \<Rightarrow> btf_type \<Rightarrow> btf \<Rightarrow> btf_type \<Rightarrow> int option" where
  "bpf_core_composites_match rec local_btf local_t targ_btf targ_t =
     (if btf_vlen local_t > btf_vlen targ_t then Some 0
      else member_match_all rec local_btf local_t targ_btf targ_t 0 (btf_vlen local_t))"

text \<open>The passes of \<^verbatim>\<open>__bpf_core_types_match\<close>; \<open>rec\<close> is the recursive call, with the value of \<^verbatim>\<open>behind_ptr\<close>.\<close>

fun match_recur :: "(bool \<Rightarrow> nat \<Rightarrow> nat \<Rightarrow> int option) \<Rightarrow> nat \<Rightarrow> btf \<Rightarrow> nat \<Rightarrow> btf \<Rightarrow> nat \<Rightarrow> bool \<Rightarrow> int option" where
  "match_recur rec 0 local_btf local_id targ_btf targ_id behind_ptr = Some (- EINVAL)"
| "match_recur rec (Suc depth) local_btf local_id targ_btf targ_id behind_ptr = do {
     (local_t, _) \<leftarrow> skip_mods_and_typedefs local_btf local_id;
     (targ_t, _) \<leftarrow> skip_mods_and_typedefs targ_btf targ_id;
     names \<leftarrow> bpf_core_names_match local_btf (name_off local_t) targ_btf (name_off targ_t);
     if \<not> names then Some 0
     else let local_k = btf_kind local_t; targ_k = btf_kind targ_t; local_f = btf_kflag local_t; targ_f = btf_kflag targ_t in
     if local_k = BTF_KIND_UNKN then Some (of_bool (local_k = targ_k))
     else if local_k = BTF_KIND_FWD then
       if behind_ptr then
         if local_k = targ_k then Some (of_bool (local_f = targ_f))
         else Some (of_bool ((targ_k = BTF_KIND_STRUCT \<and> \<not> local_f) \<or> (targ_k = BTF_KIND_UNION \<and> local_f)))
       else if local_k \<noteq> targ_k then Some 0
       else Some (of_bool (local_f = targ_f))
     else if local_k \<in> {BTF_KIND_ENUM, BTF_KIND_ENUM64} then
       if \<not> btf_is_any_enum targ_t then Some 0 else bpf_core_enums_match local_btf local_t targ_btf targ_t
     else if local_k \<in> {BTF_KIND_STRUCT, BTF_KIND_UNION} then
       if behind_ptr then
         if local_k = targ_k then Some 1
         else if targ_k \<noteq> BTF_KIND_FWD then Some 0
         else Some (of_bool ((local_k = BTF_KIND_UNION) = targ_f))
       else if local_k \<noteq> targ_k then Some 0
       else bpf_core_composites_match (rec behind_ptr) local_btf local_t targ_btf targ_t
     else if local_k = BTF_KIND_INT then
       if local_k \<noteq> targ_k then Some 0
       else do {
         le \<leftarrow> btf_int_encoding local_t; te \<leftarrow> btf_int_encoding targ_t;
         Some (of_bool (size_type local_t = size_type targ_t \<and> le AND BTF_INT_SIGNED = te AND BTF_INT_SIGNED)) }
     else if local_k = BTF_KIND_PTR then
       if local_k \<noteq> targ_k then Some 0
       else match_recur rec depth local_btf (unat (size_type local_t)) targ_btf (unat (size_type targ_t)) True
     else if local_k = BTF_KIND_ARRAY then
       if local_k \<noteq> targ_k then Some 0
       else do {
         la \<leftarrow> btf_array local_t; ta \<leftarrow> btf_array targ_t;
         if a_nelems la \<noteq> a_nelems ta then Some 0
         else match_recur rec depth local_btf (unat (a_type la)) targ_btf (unat (a_type ta)) behind_ptr }
     else if local_k = BTF_KIND_FUNC_PROTO then
       if local_k \<noteq> targ_k then Some 0
       else if btf_vlen local_t \<noteq> btf_vlen targ_t then Some 0
       else do {
         err \<leftarrow> compat_params (rec behind_ptr) local_t targ_t 0 (btf_vlen local_t);
         if err \<le> 0 then Some err
         else match_recur rec depth local_btf (unat (size_type local_t)) targ_btf (unat (size_type targ_t)) behind_ptr }
     else Some 0 }"

fun types_match_level :: "nat \<Rightarrow> btf \<Rightarrow> nat \<Rightarrow> btf \<Rightarrow> nat \<Rightarrow> bool \<Rightarrow> int option" where
  "types_match_level 0 local_btf local_id targ_btf targ_id behind_ptr = Some (- EINVAL)"
| "types_match_level (Suc level) local_btf local_id targ_btf targ_id behind_ptr =
     match_recur (\<lambda>behind l t. types_match_level level local_btf l targ_btf t behind) 32 local_btf local_id targ_btf targ_id behind_ptr"

definition bpf_core_types_match :: "btf \<Rightarrow> nat \<Rightarrow> btf \<Rightarrow> nat \<Rightarrow> int option" where
  "bpf_core_types_match local_btf local_id targ_btf targ_id = types_match_level 32 local_btf local_id targ_btf targ_id False"

section \<open>Compatibility is symmetric\<close>

lemma kind_core_compat_sym: "btf_kind_core_compat t u \<longleftrightarrow> btf_kind_core_compat u t"
  by (auto simp: btf_kind_core_compat_def)

lemma kind_core_compat_cases:
  assumes "btf_kind_core_compat t u"
  obtains "btf_kind t = btf_kind u" | "btf_kind t \<in> {BTF_KIND_ENUM, BTF_KIND_ENUM64}" "btf_kind u \<in> {BTF_KIND_ENUM, BTF_KIND_ENUM64}"
  using assms by (auto simp: btf_kind_core_compat_def btf_is_defs)

lemma bind2_sym:
  fixes x :: "'a option" and y :: "'b option"
  assumes "\<And>a b. f a b = g b a"
  shows "(do { a \<leftarrow> x; b \<leftarrow> y; f a b }) = (do { b \<leftarrow> y; a \<leftarrow> x; g b a })"
  using assms by (cases x; cases y) simp_all

lemma compat_params_sym:
  assumes "\<And>l t. rec l t = rec' t l"
  shows "compat_params rec lt tt i n = compat_params rec' tt lt i n"
proof (induction n arbitrary: i)
  case (Suc n)
  show ?case unfolding compat_params.simps by (rule bind2_sym) (simp only: assms Suc.IH)
qed simp

lemma compat_recur_sym:
  assumes r: "\<And>l t. rec l t = rec' t l"
  shows "compat_recur rec depth lb li tb ti = compat_recur rec' depth tb ti lb li"
proof (induction depth arbitrary: li ti)
  case (Suc depth)
  show ?case
    unfolding compat_recur.simps split_def
  proof (rule bind2_sym, goal_cases)
    case (1 lp tp)
    define l t where "l = fst lp" and "t = fst tp"
    have ps: "compat_params rec l t 0 n = compat_params rec' t l 0 n" for n by (rule compat_params_sym [OF r])
    have int: "(do { lo \<leftarrow> btf_int_offset l; to \<leftarrow> btf_int_offset t; Some (of_bool (lo = 0 \<and> to = 0) :: int) }) =
        (do { lo \<leftarrow> btf_int_offset t; to \<leftarrow> btf_int_offset l; Some (of_bool (lo = 0 \<and> to = 0)) })"
      by (rule bind2_sym) (simp add: conj_commute)
    have arr: "(do { la \<leftarrow> btf_array l; ta \<leftarrow> btf_array t; compat_recur rec depth lb (unat (a_type la)) tb (unat (a_type ta)) }) =
        (do { la \<leftarrow> btf_array t; ta \<leftarrow> btf_array l; compat_recur rec' depth tb (unat (a_type la)) lb (unat (a_type ta)) })"
      by (rule bind2_sym) (rule Suc.IH)
    have ret: "(do { lp \<leftarrow> skip_mods_and_typedefs lb x; tp \<leftarrow> skip_mods_and_typedefs tb y; compat_recur rec depth lb (snd lp) tb (snd tp) }) =
        (do { lp \<leftarrow> skip_mods_and_typedefs tb y; tp \<leftarrow> skip_mods_and_typedefs lb x; compat_recur rec' depth tb (snd lp) lb (snd tp) })" for x y
      by (rule bind2_sym) (rule Suc.IH)
    show ?case
    proof (cases "btf_kind_core_compat l t")
      case True
      note d = l_def [symmetric] t_def [symmetric] Let_def kind_core_compat_sym [of t l] True simp_thms if_False
      from True show ?thesis
      proof (cases rule: kind_core_compat_cases)
        case 1
        have v: "(btf_vlen t \<noteq> btf_vlen l) = (btf_vlen l \<noteq> btf_vlen t)" by auto
        show ?thesis
        proof (cases "btf_vlen l = btf_vlen t")
          case True
          show ?thesis unfolding d 1 v unfolding True ps int arr ret unfolding Suc.IH by (rule refl)
        next
          case False
          show ?thesis unfolding d 1 v int arr unfolding Suc.IH using False by (simp only: simp_thms if_True)
        qed
      next
        case 2
        then have k: "btf_kind l \<in> {0, 4, 5, 6, 7, 19}" "btf_kind t \<in> {0, 4, 5, 6, 7, 19}" by auto
        show ?thesis unfolding d by (simp only: k if_True if_False not_True_eq_False True)
      qed
    qed (simp add: l_def [symmetric] t_def [symmetric] kind_core_compat_sym [of t l])
  qed
qed simp

lemma types_are_compat_level_sym: "types_are_compat_level n lb li tb ti = types_are_compat_level n tb ti lb li"
proof (induction n arbitrary: li ti)
  case 0
  have c: "compat_recur (\<lambda>l t. Some (- EINVAL)) 32 lb li tb ti = compat_recur (\<lambda>l t. Some (- EINVAL)) 32 tb ti lb li" by (rule compat_recur_sym) simp
  show ?case
    unfolding types_are_compat_level.simps [of 0] nat.case c by (rule bind2_sym) (simp only: kind_core_compat_sym)
next
  case (Suc n)
  let ?rec = "\<lambda>lb tb l t. do { (_, l1) \<leftarrow> skip_mods_and_typedefs lb l; (_, t1) \<leftarrow> skip_mods_and_typedefs tb t; types_are_compat_level n lb l1 tb t1 }"
  have "?rec lb tb l t = ?rec tb lb t l" for l t
    unfolding split_def by (rule bind2_sym) (rule Suc.IH)
  then have c: "compat_recur (?rec lb tb) 32 lb li tb ti = compat_recur (?rec tb lb) 32 tb ti lb li" for li ti
    by (rule compat_recur_sym)
  show ?case
    unfolding types_are_compat_level.simps [of "Suc n"] nat.case c
    by (rule bind2_sym) (simp only: kind_core_compat_sym)
qed

text \<open>What remains to be decided once modifiers are gone; \<open>rec\<close> is the recursion for array elements.\<close>

definition fields_step :: "(nat \<Rightarrow> nat \<Rightarrow> int option) \<Rightarrow> btf \<Rightarrow> btf_type \<Rightarrow> btf \<Rightarrow> btf_type \<Rightarrow> int option" where
  "fields_step rec lb l tb t =
     (if btf_is_composite l \<and> btf_is_composite t then Some 1
      else if \<not> btf_kind_core_compat l t then Some 0
      else let kind = btf_kind l in
      if kind \<in> {BTF_KIND_PTR, BTF_KIND_FLOAT} then Some 1
      else if kind \<in> {BTF_KIND_FWD, BTF_KIND_ENUM64, BTF_KIND_ENUM} then do {
        local_name \<leftarrow> btf__name_by_offset lb (name_off l) \<bind> deref;
        targ_name \<leftarrow> btf__name_by_offset tb (name_off t) \<bind> deref;
        let local_len = bpf_core_essential_name_len local_name; targ_len = bpf_core_essential_name_len targ_name in
        Some (of_bool (local_len = 0 \<or> targ_len = 0 \<or> (local_len = targ_len \<and> take local_len local_name = take local_len targ_name))) }
      else if kind = BTF_KIND_INT then do {
        lo \<leftarrow> btf_int_offset l; to \<leftarrow> btf_int_offset t; Some (of_bool (lo = 0 \<and> to = 0)) }
      else if kind = BTF_KIND_ARRAY then do { la \<leftarrow> btf_array l; ta \<leftarrow> btf_array t; rec (unat (a_type la)) (unat (a_type ta)) }
      else Some 0)"

lemma fields_are_compat_step:
  "bpf_core_fields_are_compat lb li tb ti = do {
     lp \<leftarrow> skip_mods_and_typedefs lb li; tp \<leftarrow> skip_mods_and_typedefs tb ti;
     fields_step (\<lambda>x y. bpf_core_fields_are_compat lb x tb y) lb (fst lp) tb (fst tp) }"
  by (subst bpf_core_fields_are_compat.simps) (simp only: fields_step_def split_def)

lemma fields_step_sym:
  "fields_step rec lb l tb t = fields_step (\<lambda>x y. rec y x) tb t lb l"
proof -
  have int: "(do { lo \<leftarrow> btf_int_offset l; to \<leftarrow> btf_int_offset t; Some (of_bool (lo = 0 \<and> to = 0) :: int) }) =
      (do { lo \<leftarrow> btf_int_offset t; to \<leftarrow> btf_int_offset l; Some (of_bool (lo = 0 \<and> to = 0)) })"
    by (rule bind2_sym) (simp add: conj_commute)
  have arr: "(do { la \<leftarrow> btf_array l; ta \<leftarrow> btf_array t; rec (unat (a_type la)) (unat (a_type ta)) }) =
      (do { la \<leftarrow> btf_array t; ta \<leftarrow> btf_array l; rec (unat (a_type ta)) (unat (a_type la)) })"
    by (rule bind2_sym) (rule refl)
  have nm: "(do { ln \<leftarrow> X; tn \<leftarrow> Y; let a = bpf_core_essential_name_len ln; b = bpf_core_essential_name_len tn in
        Some (of_bool (a = 0 \<or> b = 0 \<or> (a = b \<and> take a ln = take a tn)) :: int) }) =
      (do { ln \<leftarrow> Y; tn \<leftarrow> X; let a = bpf_core_essential_name_len ln; b = bpf_core_essential_name_len tn in
        Some (of_bool (a = 0 \<or> b = 0 \<or> (a = b \<and> take a ln = take a tn))) })" for X Y
    by (rule bind2_sym) (auto simp: Let_def)
  have co: "btf_is_composite t \<and> btf_is_composite l \<longleftrightarrow> btf_is_composite l \<and> btf_is_composite t" by auto
  show ?thesis
  proof (cases "btf_kind_core_compat l t")
    case True
    then show ?thesis
    proof (cases rule: kind_core_compat_cases)
      case 1
      show ?thesis unfolding fields_step_def co kind_core_compat_sym [of t l] unfolding 1 int arr
        by (subst nm) (rule refl)
    next
      case 2
      then have k: "btf_kind l \<in> {7, 19, 6}" "btf_kind t \<in> {7, 19, 6}" "btf_kind l \<notin> {2, 16}" "btf_kind t \<notin> {2, 16}" by auto
      show ?thesis unfolding fields_step_def co kind_core_compat_sym [of t l] Let_def [of "btf_kind l"] Let_def [of "btf_kind t"] if_P [OF k(1)] if_P [OF k(2)] if_not_P [OF k(3)] if_not_P [OF k(4)]
        by (subst nm) (rule refl)
    qed
  qed (simp only: fields_step_def co kind_core_compat_sym [of t l], simp)
qed

lemma fields_step_mono:
  assumes v: "fields_step rec lb l tb t = Some v" and m: "\<And>x y v. rec x y = Some v \<Longrightarrow> rec' x y = Some v"
  shows "fields_step rec' lb l tb t = Some v"
proof (cases "btf_kind l = BTF_KIND_ARRAY")
  case True
  define arr where "arr r = (do { la \<leftarrow> btf_array l; ta \<leftarrow> btf_array t; r (unat (a_type la)) (unat (a_type ta)) })" for r :: "nat \<Rightarrow> nat \<Rightarrow> int option"
  have s: "fields_step r lb l tb t = (if btf_is_composite l \<and> btf_is_composite t then Some 1 else if \<not> btf_kind_core_compat l t then Some 0 else arr r)" for r
    using True by (simp add: fields_step_def arr_def)
  have "arr rec = Some w \<Longrightarrow> arr rec' = Some w" for w using m by (auto simp: arr_def bind_eq_Some_conv)
  then show ?thesis using v unfolding s by (auto split: if_splits)
next
  case False
  then have "fields_step rec' lb l tb t = fields_step rec lb l tb t" by (simp add: fields_step_def Let_def)
  then show ?thesis using v by simp
qed

lemma fields_are_compat_sym1:
  assumes "bpf_core_fields_are_compat lb li tb ti = Some v"
  shows "bpf_core_fields_are_compat tb ti lb li = Some v"
proof (rule bpf_core_fields_are_compat.raw_induct
    [where P = "\<lambda>lb li tb ti v. bpf_core_fields_are_compat tb ti lb li = Some v", OF _ assms], goal_cases)
  case (1 f lb li tb ti v)
  from 1(2) have "(do { lp \<leftarrow> skip_mods_and_typedefs lb li; tp \<leftarrow> skip_mods_and_typedefs tb ti;
      fields_step (\<lambda>x y. f lb x tb y) lb (fst lp) tb (fst tp) }) = Some v"
    by (simp only: fields_step_def split_def)
  then obtain lp tp where p: "skip_mods_and_typedefs lb li = Some lp" "skip_mods_and_typedefs tb ti = Some tp"
      "fields_step (\<lambda>x y. f lb x tb y) lb (fst lp) tb (fst tp) = Some v"
    by (auto simp: bind_eq_Some_conv)
  have "fields_step (\<lambda>x y. bpf_core_fields_are_compat tb y lb x) lb (fst lp) tb (fst tp) = Some v"
    by (rule fields_step_mono [OF p(3)]) (rule 1(1))
  then have "fields_step (\<lambda>x y. bpf_core_fields_are_compat tb x lb y) tb (fst tp) lb (fst lp) = Some v" by (subst (asm) fields_step_sym)
  then show ?case by (subst fields_are_compat_step) (simp add: p)
qed

lemma fields_are_compat_sym: "bpf_core_fields_are_compat lb li tb ti = bpf_core_fields_are_compat tb ti lb li"
  using fields_are_compat_sym1 [of lb li tb ti] fields_are_compat_sym1 [of tb ti lb li]
  by (cases "bpf_core_fields_are_compat lb li tb ti"; cases "bpf_core_fields_are_compat tb ti lb li") auto

text \<open>
  Compatibility of types and of fields does not depend on which of the two is called local and which target, for any two BTFs, numbers and nesting, errors included.
\<close>

theorem core_compat_symmetric:
  "bpf_core_types_are_compat lb li tb ti = bpf_core_types_are_compat tb ti lb li \<and>
   bpf_core_fields_are_compat lb li tb ti = bpf_core_fields_are_compat tb ti lb li"
  unfolding bpf_core_types_are_compat_def using types_are_compat_level_sym fields_are_compat_sym by blast

end
