(* ===== verification/Core_Relo.thy ===== *)
theory Core_Relo
  imports Core_Compat
begin

text \<open>
  CO-RE relocation records as access paths: \<^verbatim>\<open>bpf_core_parse_spec\<close>, \<^verbatim>\<open>bpf_core_match_member\<close> and \<^verbatim>\<open>bpf_core_spec_match\<close> of \<^verbatim>\<open>lib/libbpf/src/relo_core.c\<close>.

  The arrays \<^verbatim>\<open>spec\<close> and \<^verbatim>\<open>raw_spec\<close> of a \<^verbatim>\<open>struct bpf_core_spec\<close> with their lengths are lists; an entry beyond the 64 of the arrays is \<open>None\<close>.
  \<open>None\<close> is also an index of a member or enumerator outside its type. Indices are C integers, so they can be negative. The recursion of \<^verbatim>\<open>bpf_core_match_member\<close>
  takes fuel; it adds an entry to \<^verbatim>\<open>raw_spec\<close> on each level, so 65 levels are enough.
\<close>

section \<open>Relocation records\<close>

abbreviation (input) BPF_CORE_FIELD_BYTE_OFFSET :: nat where "BPF_CORE_FIELD_BYTE_OFFSET \<equiv> 0"
abbreviation (input) BPF_CORE_FIELD_BYTE_SIZE :: nat where "BPF_CORE_FIELD_BYTE_SIZE \<equiv> 1"
abbreviation (input) BPF_CORE_FIELD_EXISTS :: nat where "BPF_CORE_FIELD_EXISTS \<equiv> 2"
abbreviation (input) BPF_CORE_FIELD_SIGNED :: nat where "BPF_CORE_FIELD_SIGNED \<equiv> 3"
abbreviation (input) BPF_CORE_FIELD_LSHIFT_U64 :: nat where "BPF_CORE_FIELD_LSHIFT_U64 \<equiv> 4"
abbreviation (input) BPF_CORE_FIELD_RSHIFT_U64 :: nat where "BPF_CORE_FIELD_RSHIFT_U64 \<equiv> 5"
abbreviation (input) BPF_CORE_TYPE_ID_LOCAL :: nat where "BPF_CORE_TYPE_ID_LOCAL \<equiv> 6"
abbreviation (input) BPF_CORE_TYPE_ID_TARGET :: nat where "BPF_CORE_TYPE_ID_TARGET \<equiv> 7"
abbreviation (input) BPF_CORE_TYPE_EXISTS :: nat where "BPF_CORE_TYPE_EXISTS \<equiv> 8"
abbreviation (input) BPF_CORE_TYPE_SIZE :: nat where "BPF_CORE_TYPE_SIZE \<equiv> 9"
abbreviation (input) BPF_CORE_ENUMVAL_EXISTS :: nat where "BPF_CORE_ENUMVAL_EXISTS \<equiv> 10"
abbreviation (input) BPF_CORE_ENUMVAL_VALUE :: nat where "BPF_CORE_ENUMVAL_VALUE \<equiv> 11"
abbreviation (input) BPF_CORE_TYPE_MATCHES :: nat where "BPF_CORE_TYPE_MATCHES \<equiv> 12"

definition BPF_CORE_SPEC_MAX_LEN :: nat where "BPF_CORE_SPEC_MAX_LEN = 64"

record bpf_core_relo =
  r_insn_off :: u32
  r_type_id :: u32
  r_access_str_off :: u32
  r_kind :: nat

record bpf_core_accessor =
  acc_type_id :: nat
  acc_idx :: u32
  acc_name :: "string nullable"

record bpf_core_spec =
  spec_btf :: btf
  spec :: "bpf_core_accessor list"
  root_type_id :: nat
  relo_kind :: nat
  raw_spec :: "int list"
  bit_offset :: u32

definition core_relo_is_field_based :: "nat \<Rightarrow> bool" where
  "core_relo_is_field_based kind \<longleftrightarrow> kind \<in> {BPF_CORE_FIELD_BYTE_OFFSET, BPF_CORE_FIELD_BYTE_SIZE, BPF_CORE_FIELD_EXISTS,
     BPF_CORE_FIELD_SIGNED, BPF_CORE_FIELD_LSHIFT_U64, BPF_CORE_FIELD_RSHIFT_U64}"

definition core_relo_is_type_based :: "nat \<Rightarrow> bool" where
  "core_relo_is_type_based kind \<longleftrightarrow> kind \<in> {BPF_CORE_TYPE_ID_LOCAL, BPF_CORE_TYPE_ID_TARGET, BPF_CORE_TYPE_EXISTS,
     BPF_CORE_TYPE_MATCHES, BPF_CORE_TYPE_SIZE}"

definition core_relo_is_enumval_based :: "nat \<Rightarrow> bool" where
  "core_relo_is_enumval_based kind \<longleftrightarrow> kind \<in> {BPF_CORE_ENUMVAL_EXISTS, BPF_CORE_ENUMVAL_VALUE}"

definition is_flex_arr :: "btf \<Rightarrow> bpf_core_accessor \<Rightarrow> btf_array_info \<Rightarrow> bool option" where
  "is_flex_arr btf acc arr =
     (if acc_name acc = Null \<or> a_nelems arr > 0 then Some False
      else do { t \<leftarrow> btf_type_by_id btf (acc_type_id acc); Some (acc_idx acc = word_of_int (int (btf_vlen t) - 1)) })"

section \<open>Access strings\<close>

text \<open>
  \<^verbatim>\<open>sscanf(s, "%d%n", ...)\<close> of the C library: white space, a sign, digits; the value, reduced to an \<^verbatim>\<open>int\<close> as \<^verbatim>\<open>strtol\<close> and the assignment do,
  and how many characters were read.
\<close>

definition is_space :: "char \<Rightarrow> bool" where
  "is_space c \<longleftrightarrow> c \<in> {CHR '' '', CHR 0x09, CHR 0x0A, CHR 0x0B, CHR 0x0C, CHR 0x0D}"

definition is_digit :: "char \<Rightarrow> bool" where
  "is_digit c \<longleftrightarrow> of_char c \<ge> (48::nat) \<and> of_char c \<le> (57::nat)"

definition digits_val :: "string \<Rightarrow> int" where
  "digits_val ds = foldl (\<lambda>v c. 10 * v + (of_char c - 48)) 0 ds"

definition to_int :: "int \<Rightarrow> int" where
  "to_int v = sint (word_of_int (max (- (2 ^ 63)) (min (2 ^ 63 - 1) v)) :: u32)"

definition scan_int :: "string \<Rightarrow> (int \<times> nat) option" where
  "scan_int s =
     (let ws = takeWhile is_space s; r = dropWhile is_space s;
          (neg, sg, r1) = (case r of [] \<Rightarrow> (False, 0, r) | c # cs \<Rightarrow>
             if c = CHR ''-'' then (True, 1, cs) else if c = CHR ''+'' then (False, 1, cs) else (False, 0, r));
          ds = takeWhile is_digit r1
      in if ds = [] then None
         else Some (to_int (if neg then - digits_val ds else digits_val ds), length ws + sg + length ds))"

lemma scan_int_pos: "scan_int s = Some (v, n) \<Longrightarrow> 0 < n"
  by (auto simp: scan_int_def Let_def split: if_splits list.splits)

text \<open>The loop that divides \<^verbatim>\<open>"0:1:2"\<close> into numbers.\<close>

function parse_access :: "string \<Rightarrow> int list \<Rightarrow> int + int list" where
  "parse_access s raw =
     (if s = [] then Inr raw
      else let s1 = (if hd s = CHR '':'' then tl s else s) in
        case scan_int s1 of
          None \<Rightarrow> Inl (- EINVAL)
        | Some (v, n) \<Rightarrow>
            if length raw = BPF_CORE_SPEC_MAX_LEN then Inl (- E2BIG)
            else parse_access (drop n s1) (raw @ [v]))"
  by pat_completeness auto

termination parse_access
proof (relation "measure (\<lambda>(s, raw). length s)", goal_cases)
  case (2 s raw s1 x v n)
  have "0 < n" using 2 scan_int_pos by fastforce
  moreover have "length s1 \<le> length s" using 2 by (simp add: diff_le_self)
  moreover have "0 < length s" using 2(1) by simp
  moreover have "s1 \<noteq> []" using 2 by (auto simp: scan_int_def Let_def)
  ultimately show ?case using 2 by (simp add: diff_less_Suc length_greater_0_conv [symmetric] del: length_greater_0_conv)
qed simp

declare parse_access.simps [simp del]

section \<open>From access path to bit offset\<close>

definition push_acc :: "nat \<Rightarrow> u32 \<Rightarrow> string nullable \<Rightarrow> bpf_core_spec \<Rightarrow> bpf_core_spec option" where
  "push_acc type_id idx name s =
     (if length (spec s) < BPF_CORE_SPEC_MAX_LEN
      then Some (s\<lparr>spec := spec s @ [\<lparr>acc_type_id = type_id, acc_idx = idx, acc_name = name\<rparr>]\<rparr>) else None)"

text \<open>The body of the loop over \<^verbatim>\<open>raw_spec[1..]\<close>: an error, or the spec and the number of the type that is reached.\<close>

definition walk_step :: "btf \<Rightarrow> int \<Rightarrow> nat \<Rightarrow> bpf_core_spec \<Rightarrow> (int + bpf_core_spec \<times> nat) option" where
  "walk_step btf access_idx type_id s = do {
     (t, id1) \<leftarrow> skip_mods_and_typedefs btf type_id;
     if btf_is_composite t then
       if access_idx \<ge> int (btf_vlen t) then Some (Inl (- EINVAL))
       else if access_idx < 0 then None
       else do {
         bo \<leftarrow> btf_member_bit_offset t (nat access_idx);
         m \<leftarrow> btf_members t (nat access_idx);
         let s1 = s\<lparr>bit_offset := bit_offset s + bo\<rparr> in
         if m_name_off m \<noteq> 0 then do {
           name \<leftarrow> btf__name_by_offset btf (m_name_off m);
           if str_is_empty name then Some (Inl (- EINVAL))
           else do { s2 \<leftarrow> push_acc id1 (word_of_int access_idx) name s1; Some (Inr (s2, unat (m_type m))) } }
         else Some (Inr (s1, unat (m_type m))) }
     else if btf_is_array t then do {
       a \<leftarrow> btf_array t;
       (_, id2) \<leftarrow> skip_mods_and_typedefs btf (unat (a_type a));
       flex \<leftarrow> is_flex_arr btf (last (spec s)) a;
       if \<not> flex \<and> word_of_int access_idx \<ge> a_nelems a then Some (Inl (- EINVAL))
       else do {
         s1 \<leftarrow> push_acc id2 (word_of_int access_idx) Null s;
         sz0 \<leftarrow> btf__resolve_size btf id2;
         if sz0 < 0 then Some (Inl sz0)
         else Some (Inr (s1\<lparr>bit_offset := bit_offset s1 + word_of_int (access_idx * sz0 * 8)\<rparr>, id2)) } }
     else Some (Inl (- EINVAL)) }"

fun walk_spec :: "btf \<Rightarrow> int list \<Rightarrow> nat \<Rightarrow> bpf_core_spec \<Rightarrow> (int + bpf_core_spec \<times> nat) option" where
  "walk_spec btf [] type_id s = Some (Inr (s, type_id))"
| "walk_spec btf (i # is) type_id s = do {
     r \<leftarrow> walk_step btf i type_id s;
     case r of Inl e \<Rightarrow> Some (Inl e) | Inr (s1, id1) \<Rightarrow> walk_spec btf is id1 s1 }"

text \<open>The part of \<^verbatim>\<open>bpf_core_parse_spec\<close> for fields: from the path of numbers to the spec.\<close>

definition field_spec :: "btf \<Rightarrow> nat \<Rightarrow> nat \<Rightarrow> int list \<Rightarrow> (int + bpf_core_spec \<times> nat) option" where
  "field_spec btf type_id kind raw = do {
     (t, id1) \<leftarrow> skip_mods_and_typedefs btf type_id;
     sz0 \<leftarrow> btf__resolve_size btf id1;
     if sz0 < 0 then Some (Inl sz0)
     else walk_spec btf (tl raw) id1
       \<lparr>spec_btf = btf, spec = [\<lparr>acc_type_id = id1, acc_idx = word_of_int (hd raw), acc_name = Null\<rparr>], root_type_id = type_id,
        relo_kind = kind, raw_spec = raw, bit_offset = word_of_int (hd raw * sz0 * 8)\<rparr> }"

definition bpf_core_parse_spec :: "btf \<Rightarrow> bpf_core_relo \<Rightarrow> (int + bpf_core_spec) option" where
  "bpf_core_parse_spec btf relo = do {
     spec_str \<leftarrow> btf__name_by_offset btf (r_access_str_off relo);
     case spec_str of Null \<Rightarrow> Some (Inl (- EINVAL))
     | Ref str \<Rightarrow>
         if str = [] \<or> hd str = CHR '':'' then Some (Inl (- EINVAL))
         else let root = unat (r_type_id relo); kind = r_kind relo;
                  s0 = \<lparr>spec_btf = btf, spec = [], root_type_id = root, relo_kind = kind, raw_spec = [], bit_offset = 0\<rparr> in
         if core_relo_is_type_based kind then Some (if str \<noteq> ''0'' then Inl (- EINVAL) else Inr s0)
         else case parse_access str [] of
           Inl e \<Rightarrow> Some (Inl e)
         | Inr raw \<Rightarrow>
             if raw = [] then Some (Inl (- EINVAL))
             else if core_relo_is_enumval_based kind then do {
               (t, id1) \<leftarrow> skip_mods_and_typedefs btf root;
               if \<not> btf_is_any_enum t \<or> length raw > 1 \<or> hd raw \<ge> int (btf_vlen t) then Some (Inl (- EINVAL))
               else if hd raw < 0 then None
               else do {
                 off \<leftarrow> enum_name_off t (nat (hd raw));
                 name \<leftarrow> btf__name_by_offset btf off;
                 Some (Inr (s0\<lparr>raw_spec := raw, spec := [\<lparr>acc_type_id = id1, acc_idx = word_of_int (hd raw), acc_name = name\<rparr>]\<rparr>)) } }
             else if \<not> core_relo_is_field_based kind then do { _ \<leftarrow> skip_mods_and_typedefs btf root; Some (Inl (- EINVAL)) }
             else do {
               r \<leftarrow> field_spec btf root kind raw;
               case r of Inl e \<Rightarrow> Some (Inl e) | Inr (s, _) \<Rightarrow> Some (Inr s) } }"

section \<open>Matching a path in the target\<close>

definition push_raw :: "nat \<Rightarrow> u32 \<Rightarrow> bpf_core_spec \<Rightarrow> bpf_core_spec" where
  "push_raw i bo s = s\<lparr>bit_offset := bit_offset s + bo, raw_spec := raw_spec s @ [int i]\<rparr>"

definition pop_raw :: "u32 \<Rightarrow> bpf_core_spec \<Rightarrow> bpf_core_spec" where
  "pop_raw bo s = s\<lparr>bit_offset := bit_offset s - bo, raw_spec := butlast (raw_spec s)\<rparr>"

text \<open>
  The loop over the members of one target type, from member \<open>i\<close> on with \<open>n\<close> left; \<open>rec\<close> is the recursive call for a member without a name.
  The result has the number for the found field's type in its third part.
\<close>

fun member_loop ::
  "(nat \<Rightarrow> bpf_core_spec \<Rightarrow> nat \<Rightarrow> (int \<times> bpf_core_spec \<times> nat) option) \<Rightarrow> btf \<Rightarrow> btf_member \<Rightarrow> string nullable \<Rightarrow>
   btf \<Rightarrow> nat \<Rightarrow> btf_type \<Rightarrow> nat \<Rightarrow> nat \<Rightarrow> bpf_core_spec \<Rightarrow> nat \<Rightarrow> (int \<times> bpf_core_spec \<times> nat) option" where
  "member_loop rec local_btf local_member local_name targ_btf targ_id targ_type i 0 s nxt = Some (0, s, nxt)"
| "member_loop rec local_btf local_member local_name targ_btf targ_id targ_type i (Suc n) s nxt = do {
     bo \<leftarrow> btf_member_bit_offset targ_type i;
     if length (raw_spec s) = BPF_CORE_SPEC_MAX_LEN then Some (- E2BIG, s, nxt)
     else let s1 = push_raw i bo s in do {
       m \<leftarrow> btf_members targ_type i;
       targ_name \<leftarrow> btf__name_by_offset targ_btf (m_name_off m);
       if str_is_empty targ_name then do {
         (found, s2, nxt2) \<leftarrow> rec (unat (m_type m)) s1 nxt;
         if found \<noteq> 0 then Some (found, s2, nxt2)
         else member_loop rec local_btf local_member local_name targ_btf targ_id targ_type (i + 1) n (pop_raw bo s2) nxt2 }
       else do {
         ln \<leftarrow> deref local_name;
         if Ref ln = targ_name then do {
           s2 \<leftarrow> push_acc targ_id (word_of_nat i) targ_name s1;
           found \<leftarrow> bpf_core_fields_are_compat local_btf (unat (m_type local_member)) targ_btf (unat (m_type m));
           Some (found, if found = 0 then s2\<lparr>spec := butlast (spec s2)\<rparr> else s2, unat (m_type m)) }
         else member_loop rec local_btf local_member local_name targ_btf targ_id targ_type (i + 1) n (pop_raw bo s1) nxt } } }"

fun bpf_core_match_member ::
  "nat \<Rightarrow> btf \<Rightarrow> bpf_core_accessor \<Rightarrow> btf \<Rightarrow> nat \<Rightarrow> bpf_core_spec \<Rightarrow> nat \<Rightarrow> (int \<times> bpf_core_spec \<times> nat) option" where
  "bpf_core_match_member 0 local_btf local_acc targ_btf targ_id s nxt = None"
| "bpf_core_match_member (Suc fuel) local_btf local_acc targ_btf targ_id s nxt = do {
     (targ_type, targ_id1) \<leftarrow> skip_mods_and_typedefs targ_btf targ_id;
     if \<not> btf_is_composite targ_type then Some (0, s, nxt)
     else do {
       local_type \<leftarrow> btf_type_by_id local_btf (acc_type_id local_acc);
       local_member \<leftarrow> btf_members local_type (unat (acc_idx local_acc));
       local_name \<leftarrow> btf__name_by_offset local_btf (m_name_off local_member);
       member_loop (bpf_core_match_member fuel local_btf local_acc targ_btf) local_btf local_member local_name
         targ_btf targ_id1 targ_type 0 (btf_vlen targ_type) s nxt } }"

definition MATCH_FUEL :: nat where "MATCH_FUEL = 65"

text \<open>The body of the loop over the accessors of the local spec; \<open>i\<close> is its counter.\<close>

definition match_acc ::
  "btf \<Rightarrow> btf \<Rightarrow> nat \<Rightarrow> bpf_core_accessor \<Rightarrow> nat \<Rightarrow> bpf_core_spec \<Rightarrow> (int \<times> bpf_core_spec \<times> nat) option" where
  "match_acc local_btf targ_btf i local_acc targ_id s = do {
     (targ_type, id1) \<leftarrow> skip_mods_and_typedefs targ_btf targ_id;
     if acc_name local_acc \<noteq> Null then bpf_core_match_member MATCH_FUEL local_btf local_acc targ_btf id1 s id1
     else do {
       r \<leftarrow> (if i > 0 then
                if \<not> btf_is_array targ_type then Some (Inl 0)
                else do {
                  a \<leftarrow> btf_array targ_type;
                  flex \<leftarrow> is_flex_arr targ_btf (last (spec s)) a;
                  if \<not> flex \<and> acc_idx local_acc \<ge> a_nelems a then Some (Inl 0)
                  else do { (_, id2) \<leftarrow> skip_mods_and_typedefs targ_btf (unat (a_type a)); Some (Inr id2) } }
              else Some (Inr id1));
       case r of Inl e \<Rightarrow> Some (e, s, id1)
       | Inr id2 \<Rightarrow>
           if length (raw_spec s) = BPF_CORE_SPEC_MAX_LEN then Some (- E2BIG, s, id2)
           else do {
             s1 \<leftarrow> push_acc id2 (acc_idx local_acc) Null s;
             sz0 \<leftarrow> btf__resolve_size targ_btf id2;
             let s2 = s1\<lparr>raw_spec := raw_spec s1 @ [sint (acc_idx local_acc)]\<rparr>; sz1 = sint (word_of_int sz0 :: u32) in
             if sz1 < 0 then Some (sz1, s2, id2)
             else Some (1, s2\<lparr>bit_offset := bit_offset s2 + acc_idx local_acc * word_of_int sz1 * 8\<rparr>, id2) } } }"

fun match_accs :: "btf \<Rightarrow> btf \<Rightarrow> nat \<Rightarrow> bpf_core_accessor list \<Rightarrow> nat \<Rightarrow> bpf_core_spec \<Rightarrow> (int \<times> bpf_core_spec \<times> nat) option" where
  "match_accs local_btf targ_btf i [] targ_id s = Some (1, s, targ_id)"
| "match_accs local_btf targ_btf i (acc # accs) targ_id s = do {
     (matched, s1, id1) \<leftarrow> match_acc local_btf targ_btf i acc targ_id s;
     if matched \<le> 0 then Some (matched, s1, id1) else match_accs local_btf targ_btf (i + 1) accs id1 s1 }"

text \<open>The search for an enumerator with the same name.\<close>

fun match_enumval :: "btf \<Rightarrow> btf_type \<Rightarrow> nat \<Rightarrow> string \<Rightarrow> nat \<Rightarrow> nat \<Rightarrow> bpf_core_spec \<Rightarrow> (int \<times> bpf_core_spec) option" where
  "match_enumval targ_btf targ_type targ_id local_name i 0 s = Some (0, s)"
| "match_enumval targ_btf targ_type targ_id local_name i (Suc n) s = do {
     off \<leftarrow> enum_name_off targ_type i;
     name \<leftarrow> btf__name_by_offset targ_btf off;
     targ_name \<leftarrow> deref name;
     let local_len = bpf_core_essential_name_len local_name; targ_len = bpf_core_essential_name_len targ_name in
     if targ_len = local_len \<and> take local_len local_name = take local_len targ_name
     then Some (1, s\<lparr>spec := [\<lparr>acc_type_id = targ_id, acc_idx = word_of_nat i, acc_name = name\<rparr>], raw_spec := [int i]\<rparr>)
     else match_enumval targ_btf targ_type targ_id local_name (i + 1) n s }"

definition bpf_core_spec_match :: "bpf_core_spec \<Rightarrow> btf \<Rightarrow> nat \<Rightarrow> (int \<times> bpf_core_spec) option" where
  "bpf_core_spec_match local_spec targ_btf targ_id =
     (let kind = relo_kind local_spec;
          s0 = \<lparr>spec_btf = targ_btf, spec = [], root_type_id = targ_id, relo_kind = kind, raw_spec = [], bit_offset = 0\<rparr> in
      if core_relo_is_type_based kind then do {
        r \<leftarrow> (if kind = BPF_CORE_TYPE_MATCHES
               then bpf_core_types_match (spec_btf local_spec) (root_type_id local_spec) targ_btf targ_id
               else bpf_core_types_are_compat (spec_btf local_spec) (root_type_id local_spec) targ_btf targ_id);
        Some (r, s0) }
      else if core_relo_is_enumval_based kind then do {
        (targ_type, id1) \<leftarrow> skip_mods_and_typedefs targ_btf targ_id;
        if \<not> btf_is_any_enum targ_type then Some (0, s0)
        else do {
          local_name \<leftarrow> deref (acc_name (hd (spec local_spec)));
          match_enumval targ_btf targ_type id1 local_name 0 (btf_vlen targ_type) s0 } }
      else if \<not> core_relo_is_field_based kind then Some (- EINVAL, s0)
      else do {
        (matched, s, _) \<leftarrow> match_accs (spec_btf local_spec) targ_btf 0 (spec local_spec) targ_id s0;
        Some (matched, s) })"

end
