(* ===== verification/Core_Match.thy ===== *)
theory Core_Match
  imports Core_Relo
begin

text \<open>
  What matching a local access path in a target BTF means: when \<^verbatim>\<open>bpf_core_spec_match\<close> succeeds, the spec that it builds is the one that \<^verbatim>\<open>bpf_core_parse_spec\<close> would build
  for the found path in the target. \<open>field_path\<close> is the inductive relation between a type, a field name and a path through unnamed members to that field.
\<close>

section \<open>Skipping modifiers\<close>

lemma skip_mods_found1:
  assumes "skip_mods_and_typedefs b i = Some r"
  shows "btf__type_by_id b (snd r) = Some (Ref (fst r)) \<and> \<not> btf_is_mod (fst r) \<and> \<not> btf_is_typedef (fst r)"
proof (rule skip_mods_and_typedefs.raw_induct
    [where P = "\<lambda>b i r. btf__type_by_id b (snd r) = Some (Ref (fst r)) \<and> \<not> btf_is_mod (fst r) \<and> \<not> btf_is_typedef (fst r)", OF _ assms], goal_cases)
  case (1 f b i r)
  from 1(2) obtain q where q: "btf__type_by_id b i = Some q"
      "(case q of Null \<Rightarrow> None | Ref t \<Rightarrow> if btf_is_mod t \<or> btf_is_typedef t then f b (unat (size_type t)) else Some (t, i)) = Some r"
    by (auto simp: bind_eq_Some_conv)
  then obtain t where t: "btf__type_by_id b i = Some (Ref t)"
      "(if btf_is_mod t \<or> btf_is_typedef t then f b (unat (size_type t)) else Some (t, i)) = Some r"
    by (cases q) simp_all
  then show ?case using 1(1) by (cases "btf_is_mod t \<or> btf_is_typedef t") auto
qed

lemma skip_mods_found:
  "skip_mods_and_typedefs b i = Some (t, j) \<Longrightarrow> btf__type_by_id b j = Some (Ref t) \<and> \<not> btf_is_mod t \<and> \<not> btf_is_typedef t"
  using skip_mods_found1 [of b i "(t, j)"] by simp

lemma skip_mods_id:
  assumes "skip_mods_and_typedefs b i = Some (t, j)"
  shows "skip_mods_and_typedefs b j = Some (t, j)"
  using skip_mods_found [OF assms] by (subst skip_mods_and_typedefs.simps) simp

lemma type_by_id_plain: "btf__type_by_id b i = Some (Ref t) \<Longrightarrow> btf_type_by_id b i = Some t"
  by (auto simp: btf__type_by_id_def split: if_splits)

section \<open>Fields of a type by name\<close>

definition member_name :: "btf \<Rightarrow> btf_type \<Rightarrow> nat \<Rightarrow> string nullable option" where
  "member_name b t i = do { m \<leftarrow> btf_members t i; btf__name_by_offset b (m_name_off m) }"

inductive field_path :: "btf \<Rightarrow> string \<Rightarrow> nat \<Rightarrow> nat list \<Rightarrow> bool" for b nm where
  here: "skip_mods_and_typedefs b i = Some (t, j) \<Longrightarrow> btf_is_composite t \<Longrightarrow> k < btf_vlen t \<Longrightarrow> member_name b t k = Some (Ref nm) \<Longrightarrow> nm \<noteq> [] \<Longrightarrow>
     field_path b nm i [k]"
| inside: "skip_mods_and_typedefs b i = Some (t, j) \<Longrightarrow> btf_is_composite t \<Longrightarrow> k < btf_vlen t \<Longrightarrow> btf_members t k = Some m \<Longrightarrow>
     member_name b t k = Some n \<Longrightarrow> str_is_empty n \<Longrightarrow> field_path b nm (unat (m_type m)) p \<Longrightarrow> field_path b nm i (k # p)"

text \<open>What C demands of structures: a name means one field. And no member has a name that is stored but empty or outside the strings.\<close>

definition unique_fields :: "btf \<Rightarrow> bool" where
  "unique_fields b \<longleftrightarrow> (\<forall>nm i p q. field_path b nm i p \<longrightarrow> field_path b nm i q \<longrightarrow> p = q)"

definition plain_names :: "btf \<Rightarrow> bool" where
  "plain_names b \<longleftrightarrow> (\<forall>i t k m n. btf__type_by_id b i = Some (Ref t) \<longrightarrow> btf_is_composite t \<longrightarrow> btf_members t k = Some m \<longrightarrow>
     btf__name_by_offset b (m_name_off m) = Some n \<longrightarrow> (m_name_off m = 0 \<longleftrightarrow> str_is_empty n))"

lemma unique_fieldsD: "unique_fields b \<Longrightarrow> field_path b nm i p \<Longrightarrow> field_path b nm i q \<Longrightarrow> p = q"
  by (auto simp: unique_fields_def)

section \<open>One member\<close>

lemma pop_push [simp]: "pop_raw bo (push_raw i bo s) = s"
  by (simp add: pop_raw_def push_raw_def)

text \<open>The two ways in which a step of the path goes on at member \<open>k\<close> of a composite type.\<close>

lemma walk_step_named:
  assumes s: "skip_mods_and_typedefs b i = Some (t, j)" "btf_is_composite t" "k < btf_vlen t" and m: "btf_members t k = Some m"
    and n: "btf__name_by_offset b (m_name_off m) = Some (Ref nm)" "nm \<noteq> []" "m_name_off m \<noteq> 0"
    and bo: "btf_member_bit_offset t k = Some bo" and a: "push_acc j (word_of_nat k) (Ref nm) (push_raw k bo s0) = Some s1"
  shows "walk_step b (int k) i (s0\<lparr>raw_spec := R\<rparr>) = Some (Inr (s1\<lparr>raw_spec := R\<rparr>, unat (m_type m)))"
  using assms by (auto simp: walk_step_def str_is_empty_def push_acc_def push_raw_def split: if_splits)

lemma walk_step_unnamed:
  assumes "skip_mods_and_typedefs b i = Some (t, j)" "btf_is_composite t" "k < btf_vlen t" "btf_members t k = Some m" "m_name_off m = 0"
    "btf_member_bit_offset t k = Some bo"
  shows "walk_step b (int k) i (s0\<lparr>raw_spec := R\<rparr>) = Some (Inr ((push_raw k bo s0)\<lparr>raw_spec := R\<rparr>, unat (m_type m)))"
  using assms by (simp add: walk_step_def push_raw_def)

text \<open>
  What the search for the field \<open>nm\<close> from type \<open>i\<close> promises: success is a path to the field, along which the spec grows as walking the path makes it grow; failure leaves the spec alone,
  unless the field exists.
\<close>

definition found_ok :: "btf \<Rightarrow> string \<Rightarrow> nat \<Rightarrow> bpf_core_spec \<Rightarrow> int \<times> bpf_core_spec \<times> nat \<Rightarrow> bool" where
  "found_ok b nm i s r = (case r of (found, s', nxt) \<Rightarrow>
     (found > 0 \<longrightarrow> (\<exists>p. field_path b nm i p \<and> raw_spec s' = raw_spec s @ map int p \<and>
        (\<forall>R. walk_spec b (map int p) i (s\<lparr>raw_spec := R\<rparr>) = Some (Inr (s'\<lparr>raw_spec := R\<rparr>, nxt))) \<and>
        (\<exists>a. spec s' = spec s @ [a] \<and> acc_name a = Ref nm))) \<and>
     (found = 0 \<longrightarrow> s' = s \<or> (\<exists>p. field_path b nm i p)))"

lemma fields_step_range:
  assumes "fields_step rec lb l tb t = Some v" "\<And>x y v. rec x y = Some v \<Longrightarrow> v = 0 \<or> v = 1"
  shows "v = 0 \<or> v = 1"
  using assms unfolding fields_step_def by (auto simp: bind_eq_Some_conv Let_def of_bool_def split: if_split_asm)

lemma fields_compat_range:
  assumes "bpf_core_fields_are_compat lb x tb y = Some v"
  shows "v = 0 \<or> v = 1"
proof (rule bpf_core_fields_are_compat.raw_induct [where P = "\<lambda>_ _ _ _ v. v = 0 \<or> v = 1", OF _ assms], goal_cases)
  case (1 f lb li tb ti v)
  from 1(2) have "(do { lp \<leftarrow> skip_mods_and_typedefs lb li; tp \<leftarrow> skip_mods_and_typedefs tb ti;
      fields_step (\<lambda>x y. f lb x tb y) lb (fst lp) tb (fst tp) }) = Some v"
    by (simp only: fields_step_def split_def)
  then obtain lp tp where "fields_step (\<lambda>x y. f lb x tb y) lb (fst lp) tb (fst tp) = Some v" by (auto simp: bind_eq_Some_conv)
  then show ?case by (rule fields_step_range) (rule 1(1))
qed

lemma member_loop_ok:
  assumes sk: "skip_mods_and_typedefs tb i = Some (t, j)" "btf_is_composite t" and u: "unique_fields tb" and pl: "plain_names tb"
    and rec: "\<And>x s nxt r. rec x s nxt = Some r \<Longrightarrow> found_ok tb nm x s r"
    and n: "k + n \<le> btf_vlen t" and clean: "s = s0 \<or> (\<exists>k' p. k' < k \<and> field_path tb nm i (k' # p))"
    and l: "member_loop rec lb lm (Ref nm) tb j t k n s nxt = Some r"
  shows "found_ok tb nm i s0 r"
  using n clean l
proof (induction n arbitrary: k s nxt)
  case 0
  then show ?case by (auto simp: found_ok_def)
next
  case (Suc n)
  have k: "k < btf_vlen t" "k + 1 + n \<le> btf_vlen t" using Suc.prems(1) by simp_all
  have tj: "btf__type_by_id tb j = Some (Ref t)" using skip_mods_found [OF sk(1)] by simp
  obtain bo where bo: "btf_member_bit_offset t k = Some bo" using Suc.prems(3) by (auto simp: bind_eq_Some_conv)
  show ?case
  proof (cases "length (raw_spec s) = BPF_CORE_SPEC_MAX_LEN")
    case True
    then have "r = (- E2BIG, s, nxt)" using Suc.prems(3) bo by simp
    then show ?thesis by (simp add: found_ok_def E2BIG_def)
  next
    case False
    define s1 where "s1 = push_raw k bo s"
    obtain m n0 where m: "btf_members t k = Some m" "btf__name_by_offset tb (m_name_off m) = Some n0"
      using Suc.prems(3) bo False by (auto simp: bind_eq_Some_conv Let_def)
    have nm0: "member_name tb t k = Some n0" using m by (simp add: member_name_def)
    have z: "m_name_off m = 0 \<longleftrightarrow> str_is_empty n0" using pl tj sk(2) m by (auto simp: plain_names_def)
    note pr = Suc.prems(3) [unfolded member_loop.simps bo m bind.bind_lunit Let_def s1_def [symmetric], simplified False if_False]
    show ?thesis
    proof (cases "str_is_empty n0")
      case True
      then obtain found s2 nxt2 where c: "rec (unat (m_type m)) s1 nxt = Some (found, s2, nxt2)" and
        e: "(if found \<noteq> 0 then Some (found, s2, nxt2) else member_loop rec lb lm (Ref nm) tb j t (k + 1) n (pop_raw bo s2) nxt2) = Some r"
        using pr by (auto simp: bind_eq_Some_conv)
      note ok = rec [OF c]
      have ins: "field_path tb nm i (k # p)" if "field_path tb nm (unat (m_type m)) p" for p
        by (rule field_path.inside [OF sk k(1) m(1) nm0 True that])
      show ?thesis
      proof (cases "found = 0")
        case f0: True
        have "pop_raw bo s2 = s0 \<or> (\<exists>k' p. k' < k + 1 \<and> field_path tb nm i (k' # p))"
        proof (cases "s2 = s1")
          case True
          then show ?thesis using Suc.prems(2) by (auto simp: s1_def intro: less_SucI)
        next
          case False
          then show ?thesis using ok f0 ins by (auto simp: found_ok_def)
        qed
        then show ?thesis using Suc.IH [OF k(2)] e f0 by simp
      next
        case False
        then have r: "r = (found, s2, nxt2)" using e by simp
        show ?thesis
        proof (cases "found > 0")
          case True
          then obtain p where p: "field_path tb nm (unat (m_type m)) p" "raw_spec s2 = raw_spec s1 @ map int p"
            "\<And>R. walk_spec tb (map int p) (unat (m_type m)) (s1\<lparr>raw_spec := R\<rparr>) = Some (Inr (s2\<lparr>raw_spec := R\<rparr>, nxt2))"
            "\<exists>a. spec s2 = spec s1 @ [a] \<and> acc_name a = Ref nm"
            using ok by (auto simp: found_ok_def)
          have s: "s = s0" using Suc.prems(2) unique_fieldsD [OF u ins [OF p(1)]] by fastforce
          have w: "walk_spec tb (map int (k # p)) i (s0\<lparr>raw_spec := R\<rparr>) = Some (Inr (s2\<lparr>raw_spec := R\<rparr>, nxt2))" for R
            using walk_step_unnamed [OF sk k(1) m(1) _ bo, where ?s0.0 = s0 and R = R] z \<open>str_is_empty n0\<close> p(3) by (simp add: s1_def s)
          have "raw_spec s2 = raw_spec s0 @ map int (k # p)" "\<exists>a. spec s2 = spec s0 @ [a] \<and> acc_name a = Ref nm"
            using p(2,4) by (simp_all add: s1_def s push_raw_def)
          then show ?thesis unfolding r found_ok_def using w ins [OF p(1)] False by (simp only: prod.case) blast
        qed (simp add: r found_ok_def False)
      qed
    next
      case named: False
      show ?thesis
      proof (cases "n0 = Ref nm")
        case True
        then have nn: "nm \<noteq> []" using named by (simp add: str_is_empty_def)
        obtain s2 v where v: "push_acc j (word_of_nat k) n0 s1 = Some s2" "r = (v, if v = 0 then s2\<lparr>spec := butlast (spec s2)\<rparr> else s2, unat (m_type m))"
            "v = 0 \<or> v = 1"
          using pr named True fields_compat_range by (auto simp: bind_eq_Some_conv deref_def)
        have h: "field_path tb nm i [k]" by (rule field_path.here [OF sk k(1) nm0 [unfolded True] nn])
        show ?thesis
        proof (cases "v = 1")
          case v1: True
          have s: "s = s0" using Suc.prems(2) unique_fieldsD [OF u h] by fastforce
          have z0: "m_name_off m \<noteq> 0" using z named by simp
          have w: "walk_spec tb (map int [k]) i (s0\<lparr>raw_spec := R\<rparr>) = Some (Inr (s2\<lparr>raw_spec := R\<rparr>, unat (m_type m)))" for R
            using walk_step_named [OF sk k(1) m(1) m(2) [unfolded True] nn z0 bo, where ?s0.0 = s0 and ?s1.0 = s2 and R = R] v(1) by (simp add: s1_def s True)
          have "raw_spec s2 = raw_spec s0 @ map int [k]" "\<exists>a. spec s2 = spec s0 @ [a] \<and> acc_name a = Ref nm"
            using v(1) by (auto simp: s1_def s push_raw_def push_acc_def True split: if_splits)
          then show ?thesis unfolding v(2) found_ok_def using w h v1 by (simp only: prod.case) auto
        next
          case False
          then show ?thesis using v(2,3) h by (auto simp: found_ok_def)
        qed
      next
        case False
        then have "member_loop rec lb lm (Ref nm) tb j t (k + 1) n s nxt = Some r" using pr named by (simp add: deref_def s1_def)
        moreover have "s = s0 \<or> (\<exists>k' p. k' < k + 1 \<and> field_path tb nm i (k' # p))" using Suc.prems(2) by (auto intro: less_SucI)
        ultimately show ?thesis using Suc.IH [OF k(2)] by blast
      qed
    qed
  qed
qed


section \<open>Length of the path, and the fuel\<close>

text \<open>A search leaves the path at least as long as it was, and within the array; so 65 levels are enough.\<close>

definition lengthens :: "bpf_core_spec \<Rightarrow> (int \<times> bpf_core_spec \<times> nat) option \<Rightarrow> bool" where
  "lengthens s r \<longleftrightarrow> (\<forall>v s' n. r = Some (v, s', n) \<longrightarrow> length (raw_spec s) \<le> length (raw_spec s') \<and> length (raw_spec s') \<le> BPF_CORE_SPEC_MAX_LEN)"

lemma push_acc_raw: "push_acc i x n s = Some s' \<Longrightarrow> raw_spec s' = raw_spec s"
  by (auto simp: push_acc_def split: if_splits)

lemma length_push_pop [simp]:
  "length (raw_spec (push_raw i bo s)) = Suc (length (raw_spec s))" "length (raw_spec (pop_raw bo s)) = length (raw_spec s) - 1"
  by (simp_all add: push_raw_def pop_raw_def)

lemma member_loop_len:
  assumes rec: "\<And>x s nxt. length (raw_spec s) \<le> BPF_CORE_SPEC_MAX_LEN \<Longrightarrow> lengthens s (rec x s nxt)"
    and s: "length (raw_spec s) \<le> BPF_CORE_SPEC_MAX_LEN"
  shows "lengthens s (member_loop rec lb lm ln tb j t i n s nxt)"
  using s
proof (induction n arbitrary: i s nxt)
  case 0
  then show ?case by (simp add: lengthens_def)
next
  case (Suc n)
  have IH: "lengthens s (member_loop rec lb lm ln tb j t (i + 1) n s1 nxt)"
    if "length (raw_spec s) \<le> length (raw_spec s1)" "length (raw_spec s1) \<le> BPF_CORE_SPEC_MAX_LEN" for s1 nxt
    using Suc.IH [OF that(2), of "i + 1" nxt] that(1) by (fastforce simp: lengthens_def)
  show ?case
    unfolding lengthens_def
  proof (intro allI impI)
    fix v s' k
    assume r: "member_loop rec lb lm ln tb j t i (Suc n) s nxt = Some (v, s', k)"
    obtain bo where bo: "btf_member_bit_offset t i = Some bo" using r by (auto simp: bind_eq_Some_conv)
    show "length (raw_spec s) \<le> length (raw_spec s') \<and> length (raw_spec s') \<le> BPF_CORE_SPEC_MAX_LEN"
    proof (cases "length (raw_spec s) = BPF_CORE_SPEC_MAX_LEN")
      case False
      define s1 where "s1 = push_raw i bo s"
      have l1: "length (raw_spec s1) = Suc (length (raw_spec s))" "length (raw_spec s1) \<le> BPF_CORE_SPEC_MAX_LEN"
        using False Suc.prems by (simp_all add: s1_def)
      obtain m n0 where m: "btf_members t i = Some m" "btf__name_by_offset tb (m_name_off m) = Some n0"
        using r bo False by (auto simp: bind_eq_Some_conv Let_def)
      note pr = r [unfolded member_loop.simps bo m bind.bind_lunit Let_def s1_def [symmetric], simplified False if_False]
      show ?thesis
      proof (cases "str_is_empty n0")
        case True
        then obtain found s2 nxt2 where c: "rec (unat (m_type m)) s1 nxt = Some (found, s2, nxt2)" and
          e: "(if found \<noteq> 0 then Some (found, s2, nxt2) else member_loop rec lb lm ln tb j t (i + 1) n (pop_raw bo s2) nxt2) = Some (v, s', k)"
          using pr by (auto simp: bind_eq_Some_conv)
        have l2: "Suc (length (raw_spec s)) \<le> length (raw_spec s2)" "length (raw_spec s2) \<le> BPF_CORE_SPEC_MAX_LEN"
          using rec [OF l1(2), of "unat (m_type m)" nxt] c l1(1) by (auto simp: lengthens_def)
        show ?thesis using e l2 IH [of "pop_raw bo s2" nxt2] by (auto simp: lengthens_def split: if_split_asm)
      next
        case named: False
        obtain l where l: "deref ln = Some l" using pr named by (auto simp: bind_eq_Some_conv)
        show ?thesis
        proof (cases "Ref l = n0")
          case True
          then show ?thesis using pr named l l1 by (auto simp: bind_eq_Some_conv push_acc_raw)
        next
          case False
          then show ?thesis using pr named l IH [of s nxt] Suc.prems by (simp add: s1_def lengthens_def)
        qed
      qed
    qed (use r bo in auto)
  qed
qed

lemma match_member_len:
  "length (raw_spec s) \<le> BPF_CORE_SPEC_MAX_LEN \<Longrightarrow> lengthens s (bpf_core_match_member fuel lb acc tb i s nxt)"
proof (induction fuel arbitrary: i s nxt)
  case (Suc fuel)
  note ml = member_loop_len [where rec = "bpf_core_match_member fuel lb acc tb", OF Suc.IH Suc.prems]
  show ?case
    unfolding lengthens_def
  proof (intro allI impI)
    fix v s' n
    assume r: "bpf_core_match_member (Suc fuel) lb acc tb i s nxt = Some (v, s', n)"
    obtain t j where sk: "skip_mods_and_typedefs tb i = Some (t, j)" using r by (auto simp: bind_eq_Some_conv)
    show "length (raw_spec s) \<le> length (raw_spec s') \<and> length (raw_spec s') \<le> BPF_CORE_SPEC_MAX_LEN"
    proof (cases "btf_is_composite t")
      case True
      then obtain lm ln where "member_loop (bpf_core_match_member fuel lb acc tb) lb lm ln tb j t 0 (btf_vlen t) s nxt = Some (v, s', n)"
        using r sk by (auto simp: bind_eq_Some_conv)
      then show ?thesis using ml [of lb lm ln tb j t 0 "btf_vlen t" nxt] by (auto simp: lengthens_def)
    qed (use r sk Suc.prems in auto)
  qed
qed (simp add: lengthens_def)

lemma member_loop_cong:
  assumes rec: "\<And>x s nxt. k < length (raw_spec s) \<Longrightarrow> length (raw_spec s) \<le> BPF_CORE_SPEC_MAX_LEN \<Longrightarrow> rec x s nxt = rec' x s nxt"
    and len: "\<And>x s nxt. length (raw_spec s) \<le> BPF_CORE_SPEC_MAX_LEN \<Longrightarrow> lengthens s (rec' x s nxt)"
    and s: "k \<le> length (raw_spec s)" "length (raw_spec s) \<le> BPF_CORE_SPEC_MAX_LEN"
  shows "member_loop rec lb lm ln tb j t i n s nxt = member_loop rec' lb lm ln tb j t i n s nxt"
  using s
proof (induction n arbitrary: i s nxt)
  case (Suc n)
  show ?case
  proof (cases "length (raw_spec s) = BPF_CORE_SPEC_MAX_LEN")
    case False
    have c: "rec x (push_raw i bo s) nxt = rec' x (push_raw i bo s) nxt" for x bo
      using False Suc.prems by (intro rec) simp_all
    have l: "rec' x (push_raw i bo s) nxt = Some (v, s2, nx) \<Longrightarrow> k \<le> length (raw_spec (pop_raw bo s2)) \<and> length (raw_spec (pop_raw bo s2)) \<le> BPF_CORE_SPEC_MAX_LEN" for x bo v s2 nx
      using len [of "push_raw i bo s" x nxt] False Suc.prems by (auto simp: lengthens_def)
    have e: "member_loop rec lb lm ln tb j t (Suc i) n (pop_raw bo s2) nx = member_loop rec' lb lm ln tb j t (Suc i) n (pop_raw bo s2) nx"
      if "rec' x (push_raw i bo s) nxt = Some (v, s2, nx)" for x bo v s2 nx
      using Suc.IH l [OF that] by blast
    show ?thesis using False Suc.IH [OF Suc.prems]
      by (auto simp: c Let_def intro!: Option.bind_cong split: if_splits) (rule e)
  qed simp
qed simp

lemma match_member_fuel:
  "65 \<le> fuel + length (raw_spec s) \<Longrightarrow> length (raw_spec s) \<le> BPF_CORE_SPEC_MAX_LEN \<Longrightarrow>
     bpf_core_match_member (Suc fuel) lb acc tb i s nxt = bpf_core_match_member fuel lb acc tb i s nxt"
proof (induction fuel arbitrary: i s nxt)
  case 0
  then show ?case by (simp add: BPF_CORE_SPEC_MAX_LEN_def)
next
  case (Suc fuel)
  have "member_loop (bpf_core_match_member (Suc fuel) lb acc tb) lb lm ln tb j t 0 n s nxt =
      member_loop (bpf_core_match_member fuel lb acc tb) lb lm ln tb j t 0 n s nxt" for lm ln j t n
    by (rule member_loop_cong [where k = "length (raw_spec s)"]) (use Suc match_member_len in auto)
  then show ?case by (simp only: bpf_core_match_member.simps(2) [of "Suc fuel"] bpf_core_match_member.simps(2) [of fuel])
qed

lemma match_fuel_enough:
  assumes "length (raw_spec s) \<le> BPF_CORE_SPEC_MAX_LEN" "MATCH_FUEL \<le> fuel"
  shows "bpf_core_match_member fuel lb acc tb i s nxt = bpf_core_match_member MATCH_FUEL lb acc tb i s nxt"
  using assms(2)
proof (induction fuel rule: dec_induct)
  case (step n)
  then show ?case using match_member_fuel [of n s] assms(1) by (simp add: MATCH_FUEL_def)
qed simp

section \<open>All accessors\<close>

text \<open>An accessor of a local spec: an array index, or a member with its name.\<close>

definition acc_ok :: "btf \<Rightarrow> bpf_core_accessor \<Rightarrow> bool" where
  "acc_ok b acc \<longleftrightarrow> acc_name acc = Null \<or>
     (\<exists>t m nm. btf_type_by_id b (acc_type_id acc) = Some t \<and> btf_members t (unat (acc_idx acc)) = Some m \<and>
        btf__name_by_offset b (m_name_off m) = Some (Ref nm) \<and> acc_name acc = Ref nm)"

lemma match_member_ok:
  assumes u: "unique_fields tb" and pl: "plain_names tb" and a: "acc_ok lb acc" "acc_name acc = Ref nm"
  shows "bpf_core_match_member fuel lb acc tb i s nxt = Some r \<Longrightarrow> found_ok tb nm i s r"
proof (induction fuel arbitrary: i s nxt r)
  case (Suc fuel)
  obtain t j where sk: "skip_mods_and_typedefs tb i = Some (t, j)" using Suc.prems by (auto simp: bind_eq_Some_conv)
  obtain lt lm where l: "btf_type_by_id lb (acc_type_id acc) = Some lt" "btf_members lt (unat (acc_idx acc)) = Some lm"
      "btf__name_by_offset lb (m_name_off lm) = Some (Ref nm)"
    using a by (auto simp: acc_ok_def)
  show ?case
  proof (cases "btf_is_composite t")
    case True
    then have "member_loop (bpf_core_match_member fuel lb acc tb) lb lm (Ref nm) tb j t 0 (btf_vlen t) s nxt = Some r"
      using Suc.prems sk l by simp
    then show ?thesis by (intro member_loop_ok [OF sk True u pl Suc.IH]) simp_all
  next
    case False
    then show ?thesis using Suc.prems sk by (auto simp: found_ok_def)
  qed
qed simp

lemma field_path_nonempty: "field_path b nm i p \<Longrightarrow> p \<noteq> []"
  by (induction rule: field_path.induct) simp_all

lemma walk_spec_skip:
  assumes "skip_mods_and_typedefs b i = Some (t, j)" "p \<noteq> []"
  shows "walk_spec b p i s = walk_spec b p j s"
  using assms skip_mods_id [OF assms(1)] by (cases p) (simp_all add: walk_step_def)

lemma resolve_size_range:
  assumes "btf__resolve_size b i = Some v"
  shows "v = - EINVAL \<or> v = - E2BIG \<or> 0 \<le> v \<and> v < 2 ^ 32"
proof (cases "0 \<le> v")
  case True
  obtain s k where "v = int s" "s < 2 ^ 32" by (rule resolve_size_nonneg [OF assms True])
  then show ?thesis by simp
next
  case False
  have "resolve_size_loop n b r ne = Some v \<Longrightarrow> v < 0 \<Longrightarrow> v = - EINVAL \<or> v = - E2BIG" for n r ne
  proof (induction n arbitrary: r ne)
    case (Suc n)
    have sd: "size_done ne x < 0 \<Longrightarrow> size_done ne x = - EINVAL \<or> size_done ne x = - E2BIG" for ne x
      by (auto simp: size_done_def mult_less_0_iff not_less split: if_splits)
    show ?case
    proof (cases "\<exists>t. r = Ref t \<and> btf_kind t \<in> kinds_with_size \<union> kinds_with_ref \<union> {BTF_KIND_PTR, BTF_KIND_ARRAY}")
      case True
      then obtain t where t: "r = Ref t" "btf_kind t \<in> kinds_with_size \<union> kinds_with_ref \<union> {BTF_KIND_PTR, BTF_KIND_ARRAY}" by blast
      show ?thesis
        using Suc.prems(1) [unfolded t(1) resolve_loop_step [OF t(2)]] Suc.IH Suc.prems(2) sd
        by (auto simp: bind_eq_Some_conv split: if_split_asm)
    next
      case False
      show ?thesis
      proof (cases r)
        case Null
        then show ?thesis using Suc.prems(1) by (simp add: size_done_def)
      next
        case (Ref t)
        then show ?thesis using Suc.prems(1) False resolve_loop_other [of t n b ne] by simp
      qed
    qed
  qed (simp add: size_done_def)
  then show ?thesis using assms False by (auto simp: btf__resolve_size_def bind_eq_Some_conv)
qed

text \<open>The size of an array element as an \<^verbatim>\<open>int\<close> gives the same bit offset as the 64-bit size.\<close>

lemma elem_offset:
  assumes "btf__resolve_size b i = Some v" "0 \<le> sint (word_of_int v :: u32)"
  shows "0 \<le> v" "(w :: u32) * word_of_int (sint (word_of_int v :: u32)) * 8 = word_of_int (sint w * v * 8)"
proof -
  show "0 \<le> v" using resolve_size_range [OF assms(1)] assms(2) by (auto simp: EINVAL_def E2BIG_def)
  show "w * word_of_int (sint (word_of_int v :: u32)) * 8 = word_of_int (sint w * v * 8)" by simp
qed

text \<open>
  What an accessor stands for, a field name or an array index, and what one accessor does: the path grows by the steps that lead to the same field or element in the target.
\<close>

definition acc_key :: "bpf_core_accessor \<Rightarrow> string nullable \<times> u32" where
  "acc_key a = (acc_name a, if acc_name a = Null then acc_idx a else 0)"

definition grown :: "btf \<Rightarrow> bpf_core_accessor list \<Rightarrow> nat \<Rightarrow> bpf_core_spec \<Rightarrow> bpf_core_spec \<Rightarrow> nat \<Rightarrow> bool" where
  "grown b accs i s s' j \<longleftrightarrow> (\<exists>p. raw_spec s' = raw_spec s @ p \<and>
     (\<forall>R. walk_spec b p i (s\<lparr>raw_spec := R\<rparr>) = Some (Inr (s'\<lparr>raw_spec := R\<rparr>, j))) \<and>
     map acc_key (spec s') = map acc_key (spec s) @ map acc_key accs)"

lemma match_index_ok:
  assumes n: "acc_name acc = Null" and i: "0 < i" and m: "match_acc lb tb i acc tid s = Some (v, s', nid)" "0 < v"
  shows "grown tb [acc] tid s s' nid"
proof -
  define idx where "idx = acc_idx acc"
  obtain t id1 where sk: "skip_mods_and_typedefs tb tid = Some (t, id1)" using m(1) by (auto simp: match_acc_def bind_eq_Some_conv)
  have arr: "btf_is_array t" using m i n sk by (auto simp: match_acc_def split: if_split_asm)
  obtain a where a: "btf_array t = Some a" using m i n sk arr by (auto simp: match_acc_def bind_eq_Some_conv)
  obtain flex where fl: "is_flex_arr tb (last (spec s)) a = Some flex" using m i n sk arr a by (auto simp: match_acc_def bind_eq_Some_conv)
  have g: "flex \<or> idx < a_nelems a" using m i n sk arr a fl by (auto simp: match_acc_def idx_def not_le split: if_split_asm)
  obtain t2 id2 where sk2: "skip_mods_and_typedefs tb (unat (a_type a)) = Some (t2, id2)"
    using m i n sk arr a fl g by (auto simp: match_acc_def idx_def not_le bind_eq_Some_conv split: if_split_asm)
  have len: "length (raw_spec s) \<noteq> BPF_CORE_SPEC_MAX_LEN"
    using m i n sk arr a fl g sk2 by (auto simp: match_acc_def idx_def not_le E2BIG_def split: if_split_asm)
  obtain s1 sz where s1: "push_acc id2 idx Null s = Some s1" and sz: "btf__resolve_size tb id2 = Some sz"
    using m(1) i n sk arr a fl g sk2 len by (auto simp: match_acc_def idx_def not_le bind_eq_Some_conv split: if_split_asm)
  have r: "0 \<le> sint (word_of_int sz :: u32)" "nid = id2"
    "s' = s1\<lparr>raw_spec := raw_spec s1 @ [sint idx], bit_offset := bit_offset s1 + idx * word_of_int (sint (word_of_int sz :: u32)) * 8\<rparr>"
    using m i n sk arr a fl g sk2 len s1 sz by (auto simp: match_acc_def idx_def not_le Let_def split: if_split_asm)
  note eo = elem_offset [OF sz r(1)]
  have "\<not> btf_is_composite t" using arr by (auto simp: btf_is_composite_def btf_is_array_def)
  then have "walk_spec tb [sint idx] tid (s\<lparr>raw_spec := R\<rparr>) = Some (Inr (s'\<lparr>raw_spec := R\<rparr>, nid))" for R
    using sk arr a sk2 fl g s1 sz eo(1) eo(2) [of idx] r
    by (auto simp: walk_step_def push_acc_def not_le split: if_splits)
  moreover have "raw_spec s' = raw_spec s @ [sint idx]" "map acc_key (spec s') = map acc_key (spec s) @ map acc_key [acc]"
    using s1 r(3) n by (auto simp: push_acc_def acc_key_def idx_def split: if_splits)
  ultimately show ?thesis unfolding grown_def by blast
qed

lemma match_acc_ok:
  assumes u: "unique_fields tb" and pl: "plain_names tb" and a: "acc_ok lb acc" and i: "0 < i"
    and m: "match_acc lb tb i acc tid s = Some (v, s', nid)" "0 < v"
  shows "grown tb [acc] tid s s' nid"
proof (cases "acc_name acc")
  case Null
  then show ?thesis by (rule match_index_ok [OF _ i m])
next
  case (Ref nm)
  obtain t id1 where sk: "skip_mods_and_typedefs tb tid = Some (t, id1)" using m(1) by (auto simp: match_acc_def bind_eq_Some_conv)
  have "bpf_core_match_member MATCH_FUEL lb acc tb id1 s id1 = Some (v, s', nid)" using m(1) Ref sk by (simp add: match_acc_def)
  from match_member_ok [OF u pl a Ref this] obtain p ac where p: "field_path tb nm id1 p" "raw_spec s' = raw_spec s @ map int p"
      "\<And>R. walk_spec tb (map int p) id1 (s\<lparr>raw_spec := R\<rparr>) = Some (Inr (s'\<lparr>raw_spec := R\<rparr>, nid))" "spec s' = spec s @ [ac]" "acc_name ac = Ref nm"
    using m(2) by (auto simp: found_ok_def)
  have "map int p \<noteq> []" using field_path_nonempty [OF p(1)] by simp
  then have "walk_spec tb (map int p) tid (s\<lparr>raw_spec := R\<rparr>) = Some (Inr (s'\<lparr>raw_spec := R\<rparr>, nid))" for R
    using walk_spec_skip [OF sk] p(3) by simp
  then show ?thesis unfolding grown_def using p(2,4,5) Ref by (intro exI [of _ "map int p"]) (simp add: acc_key_def)
qed

lemma walk_spec_append:
  "walk_spec b (p @ q) i s = do { r \<leftarrow> walk_spec b p i s; case r of Inl e \<Rightarrow> Some (Inl e) | Inr (s1, i1) \<Rightarrow> walk_spec b q i1 s1 }"
  by (induction p arbitrary: i s) (auto simp: bind_eq_Some_conv split: option.splits sum.splits prod.splits Option.bind_splits)

lemma grown_trans:
  assumes "grown b as i s s1 j" "grown b bs j s1 s2 k"
  shows "grown b (as @ bs) i s s2 k"
proof -
  obtain p q where p: "raw_spec s1 = raw_spec s @ p" "\<And>R. walk_spec b p i (s\<lparr>raw_spec := R\<rparr>) = Some (Inr (s1\<lparr>raw_spec := R\<rparr>, j))"
      "map acc_key (spec s1) = map acc_key (spec s) @ map acc_key as"
    and q: "raw_spec s2 = raw_spec s1 @ q" "\<And>R. walk_spec b q j (s1\<lparr>raw_spec := R\<rparr>) = Some (Inr (s2\<lparr>raw_spec := R\<rparr>, k))"
      "map acc_key (spec s2) = map acc_key (spec s1) @ map acc_key bs"
    using assms unfolding grown_def by blast
  show ?thesis unfolding grown_def using p q by (intro exI [of _ "p @ q"]) (simp add: walk_spec_append)
qed

lemma match_accs_ok:
  assumes u: "unique_fields tb" and pl: "plain_names tb" and a: "\<forall>acc \<in> set accs. acc_ok lb acc" and i: "0 < i"
    and m: "match_accs lb tb i accs tid s = Some (v, s', nid)" "0 < v"
  shows "grown tb accs tid s s' nid"
  using a i m
proof (induction accs arbitrary: i tid s)
  case Nil
  then show ?case by (simp add: grown_def)
next
  case (Cons acc accs)
  obtain v1 s1 id1 where c: "match_acc lb tb i acc tid s = Some (v1, s1, id1)"
      "(if v1 \<le> 0 then Some (v1, s1, id1) else match_accs lb tb (i + 1) accs id1 s1) = Some (v, s', nid)"
    using Cons.prems(3) by (auto simp: bind_eq_Some_conv)
  have pos: "0 < v1" "match_accs lb tb (i + 1) accs id1 s1 = Some (v, s', nid)" using c(2) Cons.prems(4) by (auto split: if_split_asm)
  have g: "grown tb [acc] tid s s1 id1" using match_acc_ok [OF u pl _ Cons.prems(2) c(1) pos(1)] Cons.prems(1) by simp
  have "grown tb accs id1 s1 s' nid" using Cons.IH [OF _ _ pos(2) Cons.prems(4)] Cons.prems(1) by simp
  then show ?case using grown_trans [OF g] by simp
qed

text \<open>The accessors of a local spec are as the search needs them.\<close>

lemma btf_vlen_less: "btf_vlen t < 65536"
proof -
  have "BTF_INFO_VLEN (info t) \<le> 0xffff" by (simp add: BTF_INFO_VLEN_def word_and_le1)
  then show ?thesis by (simp add: btf_vlen_def word_le_nat_alt)
qed

lemma walk_step_accs:
  assumes "walk_step b x i s = Some (Inr (s', j))"
  shows "\<exists>as. spec s' = spec s @ as \<and> (\<forall>a \<in> set as. acc_ok b a) \<and> spec_btf s' = spec_btf s \<and> relo_kind s' = relo_kind s"
proof -
  obtain t id1 where sk: "skip_mods_and_typedefs b i = Some (t, id1)" using assms by (auto simp: walk_step_def bind_eq_Some_conv)
  have ti: "btf_type_by_id b id1 = Some t" using skip_mods_found [OF sk] type_by_id_plain by simp
  show ?thesis
  proof (cases "btf_is_composite t")
    case True
    have x: "0 \<le> x" "x < int (btf_vlen t)" using assms sk True by (auto simp: walk_step_def split: if_split_asm)
    have ux: "unat (word_of_int x :: u32) = nat x" using x btf_vlen_less [of t] by (simp add: unat_eq_nat_uint take_bit_int_eq_self uint_word_of_int_eq)
    obtain bo m where m: "btf_member_bit_offset t (nat x) = Some bo" "btf_members t (nat x) = Some m"
      using assms sk True x by (auto simp: walk_step_def bind_eq_Some_conv Let_def split: if_split_asm)
    show ?thesis
    proof (cases "m_name_off m = 0")
      case z: True
      then show ?thesis using assms sk True x m by (auto simp: walk_step_def)
    next
      case False
      obtain n where n: "btf__name_by_offset b (m_name_off m) = Some n" using assms sk True x m False by (auto simp: walk_step_def bind_eq_Some_conv)
      have e: "\<not> str_is_empty n" using assms sk True x m False n by (auto simp: walk_step_def split: if_split_asm)
      then obtain nm where nm: "n = Ref nm" by (cases n) (simp_all add: str_is_empty_def)
      have "acc_ok b \<lparr>acc_type_id = id1, acc_idx = word_of_int x, acc_name = n\<rparr>" using ti ux m(2) n nm by (simp add: acc_ok_def)
      then show ?thesis using assms sk True x m False n e by (auto simp: walk_step_def push_acc_def Let_def split: if_split_asm)
    qed
  next
    case False
    then show ?thesis using assms sk by (auto simp: walk_step_def bind_eq_Some_conv push_acc_def acc_ok_def split: if_split_asm)
  qed
qed

lemma walk_spec_accs:
  "walk_spec b p i s = Some (Inr (s', j)) \<Longrightarrow>
     \<exists>as. spec s' = spec s @ as \<and> (\<forall>a \<in> set as. acc_ok b a) \<and> spec_btf s' = spec_btf s \<and> relo_kind s' = relo_kind s"
proof (induction p arbitrary: i s)
  case (Cons x p)
  obtain r where r: "walk_step b x i s = Some r" "(case r of Inl e \<Rightarrow> Some (Inl e) | Inr (s1, id1) \<Rightarrow> walk_spec b p id1 s1) = Some (Inr (s', j))"
    using Cons.prems by (auto simp: bind_eq_Some_conv)
  obtain s1 j1 where w: "walk_step b x i s = Some (Inr (s1, j1))" "walk_spec b p j1 s1 = Some (Inr (s', j))"
    using r by (cases r) auto
  then show ?case using walk_step_accs [OF w(1)] Cons.IH [OF w(2)] by fastforce
qed simp

lemma parse_spec_accs:
  assumes p: "bpf_core_parse_spec b relo = Some (Inr ls)" and k: "core_relo_is_field_based (r_kind relo)"
  obtains a as where "spec ls = a # as" "acc_name a = Null" "\<forall>a \<in> set as. acc_ok b a" "spec_btf ls = b" "relo_kind ls = r_kind relo"
proof -
  have nk: "\<not> core_relo_is_type_based (r_kind relo)" "\<not> core_relo_is_enumval_based (r_kind relo)"
    using k by (auto simp: core_relo_is_type_based_def core_relo_is_enumval_based_def core_relo_is_field_based_def)
  obtain n where n: "btf__name_by_offset b (r_access_str_off relo) = Some n" using p by (auto simp: bpf_core_parse_spec_def bind_eq_Some_conv)
  then obtain str where str: "n = Ref str" "str \<noteq> []" "hd str \<noteq> CHR '':''"
    using p by (cases n) (auto simp: bpf_core_parse_spec_def split: if_split_asm)
  obtain raw where raw: "parse_access str [] = Inr raw" "raw \<noteq> []"
    using p n str nk by (cases "parse_access str []") (auto simp: bpf_core_parse_spec_def Let_def split: if_split_asm)
  obtain r where r: "field_spec b (unat (r_type_id relo)) (r_kind relo) raw = Some r" "(case r of Inl e \<Rightarrow> Some (Inl e) | Inr (s, _) \<Rightarrow> Some (Inr s)) = Some (Inr ls)"
    using p k nk n str raw by (auto simp: bpf_core_parse_spec_def bind_eq_Some_conv Let_def)
  obtain nid where f: "field_spec b (unat (r_type_id relo)) (r_kind relo) raw = Some (Inr (ls, nid))"
    using r by (auto split: sum.split_asm)
  obtain p id1 s0 where w: "walk_spec b p id1 s0 = Some (Inr (ls, nid))" "spec_btf s0 = b" "relo_kind s0 = r_kind relo"
      "\<exists>i h. spec s0 = [\<lparr>acc_type_id = i, acc_idx = h, acc_name = Null\<rparr>]"
    using f by (auto simp: field_spec_def bind_eq_Some_conv split: if_split_asm)
  show ?thesis using walk_spec_accs [OF w(1)] w(2-4) that by auto
qed

lemma match_first_ok:
  assumes n: "acc_name acc = Null" and m: "match_acc lb tb 0 acc tid s = Some (v, s', nid)" "0 < v"
    and s: "s = \<lparr>spec_btf = tb, spec = [], root_type_id = tid, relo_kind = kind, raw_spec = [], bit_offset = 0\<rparr>"
  shows "raw_spec s' = [sint (acc_idx acc)]" "map acc_key (spec s') = [acc_key acc]"
    "field_spec tb tid kind (sint (acc_idx acc) # p) = walk_spec tb p nid (s'\<lparr>raw_spec := sint (acc_idx acc) # p\<rparr>)"
proof -
  define idx where "idx = acc_idx acc"
  obtain t id1 where sk: "skip_mods_and_typedefs tb tid = Some (t, id1)" using m(1) by (auto simp: match_acc_def bind_eq_Some_conv)
  obtain sz where sz: "btf__resolve_size tb id1 = Some sz"
    using m(1) n sk s by (auto simp: match_acc_def bind_eq_Some_conv BPF_CORE_SPEC_MAX_LEN_def)
  have r: "0 \<le> sint (word_of_int sz :: u32)" "nid = id1"
    "s' = s\<lparr>spec := [\<lparr>acc_type_id = id1, acc_idx = idx, acc_name = Null\<rparr>], raw_spec := [sint idx], bit_offset := idx * word_of_int (sint (word_of_int sz :: u32)) * 8\<rparr>"
    using m n sk sz s by (auto simp: match_acc_def push_acc_def BPF_CORE_SPEC_MAX_LEN_def Let_def idx_def split: if_split_asm)
  note eo = elem_offset [OF sz r(1)]
  show "raw_spec s' = [sint (acc_idx acc)]" "map acc_key (spec s') = [acc_key acc]" using r(3) n by (simp_all add: idx_def acc_key_def)
  show "field_spec tb tid kind (sint (acc_idx acc) # p) = walk_spec tb p nid (s'\<lparr>raw_spec := sint (acc_idx acc) # p\<rparr>)"
    using sk sz eo(1) eo(2) [of idx] r s by (simp add: field_spec_def idx_def)
qed

section \<open>The match is the parse\<close>

text \<open>
  C18: Let a local field relocation parse to an access spec, and let the spec match the type \<open>tid\<close> of a target in which every name means one field.
  Then the spec that the matching builds for the target, with its bit offset, its accessors and its raw indices, is exactly the spec that parsing the found raw path in the target gives;
  and it names the same fields and the same array elements, in the same order, as the local one.
\<close>

theorem core_match_sound:
  assumes "core_relo_is_field_based (r_kind relo)" "bpf_core_parse_spec lb relo = Some (Inr ls)"
    and "unique_fields tb" "plain_names tb" "bpf_core_spec_match ls tb tid = Some (v, ts)" "0 < v"
  shows "\<exists>nid. field_spec tb tid (r_kind relo) (raw_spec ts) = Some (Inr (ts, nid)) \<and> map acc_key (spec ts) = map acc_key (spec ls)"
proof -
  let ?s0 = "\<lparr>spec_btf = tb, spec = [], root_type_id = tid, relo_kind = r_kind relo, raw_spec = [], bit_offset = 0\<rparr>"
  obtain a as where ls: "spec ls = a # as" "acc_name a = Null" "\<forall>a \<in> set as. acc_ok lb a" "spec_btf ls = lb" "relo_kind ls = r_kind relo"
    by (rule parse_spec_accs [OF assms(2,1)])
  have nk: "\<not> core_relo_is_type_based (r_kind relo)" "\<not> core_relo_is_enumval_based (r_kind relo)"
    using assms(1) by (auto simp: core_relo_is_type_based_def core_relo_is_enumval_based_def core_relo_is_field_based_def)
  obtain nid where m: "match_accs lb tb 0 (a # as) tid ?s0 = Some (v, ts, nid)"
    using assms(1,5) nk ls by (auto simp: bpf_core_spec_match_def bind_eq_Some_conv)
  then obtain v1 s1 id1 where c: "match_acc lb tb 0 a tid ?s0 = Some (v1, s1, id1)"
      "(if v1 \<le> 0 then Some (v1, s1, id1) else match_accs lb tb (0 + 1) as id1 s1) = Some (v, ts, nid)"
    by (auto simp: bind_eq_Some_conv)
  have pos: "0 < v1" "match_accs lb tb (0 + 1) as id1 s1 = Some (v, ts, nid)" using c(2) assms(6) by (auto split: if_split_asm)
  note f = match_first_ok [OF ls(2) c(1) pos(1) refl]
  obtain p where p: "raw_spec ts = raw_spec s1 @ p" "\<And>R. walk_spec tb p id1 (s1\<lparr>raw_spec := R\<rparr>) = Some (Inr (ts\<lparr>raw_spec := R\<rparr>, nid))"
      "map acc_key (spec ts) = map acc_key (spec s1) @ map acc_key as"
    using match_accs_ok [OF assms(3,4) ls(3) _ pos(2) assms(6)] unfolding grown_def by fastforce
  have rt: "raw_spec ts = sint (acc_idx a) # p" using p(1) f(1) by simp
  have "ts\<lparr>raw_spec := sint (acc_idx a) # p\<rparr> = ts" using rt by (metis bpf_core_spec.surjective bpf_core_spec.update_convs(5))
  then have "field_spec tb tid (r_kind relo) (raw_spec ts) = Some (Inr (ts, nid))" using rt f(3) [of p] p(2) by simp
  then show ?thesis using p(3) f(2) ls(1) by auto
qed

section \<open>An example\<close>

text \<open>
  Locally \<^verbatim>\<open>struct i { int b; }\<close> with the access string \<^verbatim>\<open>"0:0"\<close>, in the target \<^verbatim>\<open>struct { int a; int b; }\<close>.
\<close>

definition local_example :: btf where
  "local_example = flat_btf [int_example, \<lparr>name_off = 1, info = 0x04000001, size_type = 4, tail = [3, 1, 0]\<rparr>] [0, 105, 0, 98, 0, 48, 58, 48, 0]"

definition targ_struct :: btf_type where
  "targ_struct = \<lparr>name_off = 0, info = 0x04000002, size_type = 8, tail = [3, 1, 0, 5, 1, 32]\<rparr>"

definition targ_example :: btf where
  "targ_example = flat_btf [int_example, targ_struct] [0, 105, 0, 97, 0, 98, 0]"

definition relo_example :: bpf_core_relo where
  "relo_example = \<lparr>r_insn_off = 0, r_type_id = 2, r_access_str_off = 5, r_kind = BPF_CORE_FIELD_BYTE_OFFSET\<rparr>"

definition local_spec_example :: bpf_core_spec where
  "local_spec_example = \<lparr>spec_btf = local_example, spec = [\<lparr>acc_type_id = 2, acc_idx = 0, acc_name = Null\<rparr>, \<lparr>acc_type_id = 2, acc_idx = 0, acc_name = Ref ''b''\<rparr>],
     root_type_id = 2, relo_kind = 0, raw_spec = [0, 0], bit_offset = 0\<rparr>"

definition targ_spec_example :: bpf_core_spec where
  "targ_spec_example = \<lparr>spec_btf = targ_example, spec = [\<lparr>acc_type_id = 2, acc_idx = 0, acc_name = Null\<rparr>, \<lparr>acc_type_id = 2, acc_idx = 1, acc_name = Ref ''b''\<rparr>],
     root_type_id = 2, relo_kind = 0, raw_spec = [0, 1], bit_offset = 32\<rparr>"

lemma local_facts:
  "btf__type_by_id local_example 1 = Some (Ref int_example)"
  "btf__type_by_id local_example 2 = Some (Ref \<lparr>name_off = 1, info = 0x04000001, size_type = 4, tail = [3, 1, 0]\<rparr>)"
  "btf__name_by_offset local_example 3 = Some (Ref ''b'')" "btf__name_by_offset local_example 5 = Some (Ref ''0:0'')"
  "btf__name_by_offset local_example 1 = Some (Ref ''i'')"
proof -
  let ?ts = "[int_example, \<lparr>name_off = 1, info = 0x04000001, size_type = 4, tail = [3, 1, 0]\<rparr>]"
  have "type_ok \<lparr>name_off = 1, info = 0x04000001, size_type = 4, tail = [3, 1, 0]\<rparr>" by code_simp
  then have f: "list_all type_ok ?ts" "24 + length (types_bytes ?ts) + length [0, 105, 0, 98, 0, 48, 58, 48, 0::u8] < 2 ^ 32"
    "strs_valid False [0, 105, 0, 98, 0, 48, 58, 48, 0]" by (simp_all add: int_example_ok strs_valid_def) (simp add: int_example_def)
  note g = flat_facts [OF f, folded local_example_def]
  show "btf__type_by_id local_example 1 = Some (Ref int_example)"
    "btf__type_by_id local_example 2 = Some (Ref \<lparr>name_off = 1, info = 0x04000001, size_type = 4, tail = [3, 1, 0]\<rparr>)"
    using g(3) [of 0] g(3) [of 1] by (simp_all add: numeral_2_eq_2)
  have "c_str (map byte_char [0, 105, 0, 98, 0, 48, 58, 48, 0]) 3 = Some ''b''" "c_str (map byte_char [0, 105, 0, 98, 0, 48, 58, 48, 0]) 5 = Some ''0:0''"
    "c_str (map byte_char [0, 105, 0, 98, 0, 48, 58, 48, 0]) 1 = Some ''i''"
    by code_simp+
  then show "btf__name_by_offset local_example 3 = Some (Ref ''b'')" "btf__name_by_offset local_example 5 = Some (Ref ''0:0'')"
    "btf__name_by_offset local_example 1 = Some (Ref ''i'')"
    using g(5) [of 3] g(5) [of 5] g(5) [of 1] by (simp_all add: btf__name_by_offset_def)
qed

lemma targ_facts:
  "btf__type_by_id targ_example 1 = Some (Ref int_example)" "btf__type_by_id targ_example 2 = Some (Ref targ_struct)"
  "btf__type_by_id targ_example i = Some (Ref t) \<Longrightarrow> t \<in> {btf_void, int_example, targ_struct}"
  "btf__name_by_offset targ_example 3 = Some (Ref ''a'')" "btf__name_by_offset targ_example 5 = Some (Ref ''b'')"
proof -
  let ?ts = "[int_example, targ_struct]"
  have "type_ok targ_struct" by code_simp
  then have f: "list_all type_ok ?ts" "24 + length (types_bytes ?ts) + length [0, 105, 0, 97, 0, 98, 0::u8] < 2 ^ 32"
    "strs_valid False [0, 105, 0, 97, 0, 98, 0]" by (simp_all add: int_example_ok strs_valid_def) (simp add: int_example_def targ_struct_def)
  note g = flat_facts [OF f, folded targ_example_def]
  show t: "btf__type_by_id targ_example 1 = Some (Ref int_example)" "btf__type_by_id targ_example 2 = Some (Ref targ_struct)"
    using g(3) [of 0] g(3) [of 1] by (simp_all add: numeral_2_eq_2)
  show "t \<in> {btf_void, int_example, targ_struct}" if h: "btf__type_by_id targ_example i = Some (Ref t)"
  proof -
    have "i < 3" using type_by_id_Ref(1) [OF g(1) h] g(2) by simp
    then have "i = 0 \<or> i = 1 \<or> i = 2" by linarith
    then show ?thesis using h g(4) t by auto
  qed
  have "c_str (map byte_char [0, 105, 0, 97, 0, 98, 0]) 3 = Some ''a''" "c_str (map byte_char [0, 105, 0, 97, 0, 98, 0]) 5 = Some ''b''"
    by code_simp+
  then show "btf__name_by_offset targ_example 3 = Some (Ref ''a'')" "btf__name_by_offset targ_example 5 = Some (Ref ''b'')"
    using g(5) [of 3] g(5) [of 5] by (simp_all add: btf__name_by_offset_def)
qed

lemma targ_struct_facts [simp]:
  "btf_is_composite targ_struct" "\<not> btf_is_mod targ_struct" "\<not> btf_is_typedef targ_struct" "btf_vlen targ_struct = 2" "\<not> btf_is_composite int_example" "\<not> btf_is_composite btf_void"
  "\<not> btf_is_mod int_example" "\<not> btf_is_typedef int_example"
  by code_simp+

lemma targ_members:
  "btf_members targ_struct k = Some m \<Longrightarrow> k = 0 \<and> m = \<lparr>m_name_off = 3, m_type = 1, m_offset = 0\<rparr> \<or> k = 1 \<and> m = \<lparr>m_name_off = 5, m_type = 1, m_offset = 32\<rparr>"
  by (cases "k = 0"; cases "k = 1") (auto simp: btf_members_def word_at_def targ_struct_def bind_eq_Some_conv split: if_split_asm)

lemma targ_plain: "plain_names targ_example"
  unfolding plain_names_def using targ_facts(3-5) targ_members by (fastforce simp: str_is_empty_def)

lemma targ_unique: "unique_fields targ_example"
proof -
  have u: "field_path targ_example nm i p \<Longrightarrow> p = [0] \<and> nm = ''a'' \<or> p = [1] \<and> nm = ''b''" for nm i p
  proof (induction rule: field_path.induct)
    case (here i t j k)
    then have "t = targ_struct" using targ_facts(3) skip_mods_found by fastforce
    then show ?case using here targ_members targ_facts(4,5) by (fastforce simp: member_name_def bind_eq_Some_conv)
  next
    case (inside i t j k m n p)
    then have "t = targ_struct" using targ_facts(3) skip_mods_found by fastforce
    then show ?case using inside targ_members targ_facts(4,5) by (fastforce simp: member_name_def str_is_empty_def)
  qed
  show ?thesis unfolding unique_fields_def by (intro allI impI) (use u in \<open>fastforce dest: u\<close>)
qed

lemma skip_plain:
  "btf__type_by_id b i = Some (Ref t) \<Longrightarrow> \<not> btf_is_mod t \<Longrightarrow> \<not> btf_is_typedef t \<Longrightarrow> skip_mods_and_typedefs b i = Some (t, i)"
  by (subst skip_mods_and_typedefs.simps) simp

lemma size_plain:
  "btf__type_by_id b i = Some (Ref t) \<Longrightarrow> btf_kind t \<in> kinds_with_size \<Longrightarrow> btf__resolve_size b i = Some (int (unat (size_type t)))"
proof -
  assume a: "btf__type_by_id b i = Some (Ref t)" "btf_kind t \<in> kinds_with_size"
  have "MAX_RESOLVE_DEPTH = Suc (MAX_RESOLVE_DEPTH - 1)" by (simp add: MAX_RESOLVE_DEPTH_def)
  moreover have "resolve_size_loop (Suc n) b (Ref t) 1 = Some (int (unat (size_type t)))" for n
    by (subst resolve_loop_step) (use a(2) uint_lt2p [of "size_type t"] in \<open>simp_all add: size_done_def unsigned_minus_1_eq_mask mask_eq_exp_minus_1\<close>)
  ultimately show "btf__resolve_size b i = Some (int (unat (size_type t)))" using a(1) by (metis Option.bind.bind_lunit btf__resolve_size_def)
qed

lemma local_parse: "bpf_core_parse_spec local_example relo_example = Some (Inr local_spec_example)"
proof -
  let ?t = "\<lparr>name_off = 1, info = 0x04000001, size_type = 4, tail = [3, 1, 0]\<rparr>"
  have k: "\<not> btf_is_mod ?t" "\<not> btf_is_typedef ?t" "btf_is_composite ?t" "btf_vlen ?t = 1" "btf_kind ?t \<in> kinds_with_size"
    "btf_members ?t 0 = Some \<lparr>m_name_off = 3, m_type = 1, m_offset = 0\<rparr>" "btf_member_bit_offset ?t 0 = Some 0"
    "\<not> core_relo_is_type_based 0" "\<not> core_relo_is_enumval_based 0" "core_relo_is_field_based 0"
    by code_simp+
  have a: "parse_access ''0:0'' [] = Inr [0, 0]" by code_simp
  have z: "btf__resolve_size local_example 2 = Some 4" using size_plain [OF local_facts(2) k(5)] by simp
  have "field_spec local_example 2 0 [0, 0] = Some (Inr (local_spec_example, 1))"
    using skip_plain [OF local_facts(2) k(1,2)] z k local_facts(3)
    by (simp add: field_spec_def walk_step_def push_acc_def BPF_CORE_SPEC_MAX_LEN_def str_is_empty_def local_spec_example_def)
  then show ?thesis using local_facts(4) a k(8-10) by (simp add: bpf_core_parse_spec_def relo_example_def)
qed

lemma targ_match: "bpf_core_spec_match local_spec_example targ_example 2 = Some (1, targ_spec_example)"
proof -
  let ?t = "\<lparr>name_off = 1, info = 0x04000001, size_type = 4, tail = [3, 1, 0]\<rparr>"
  let ?s0 = "\<lparr>spec_btf = targ_example, spec = [], root_type_id = 2, relo_kind = 0, raw_spec = [], bit_offset = 0\<rparr>"
  let ?s1 = "?s0\<lparr>spec := [\<lparr>acc_type_id = 2, acc_idx = 0, acc_name = Null\<rparr>], raw_spec := [0]\<rparr>"
  have k: "btf_kind targ_struct \<in> kinds_with_size" "size_type targ_struct = 8" "btf_int_offset int_example = Some 0"
    "btf_members targ_struct 0 = Some \<lparr>m_name_off = 3, m_type = 1, m_offset = 0\<rparr>" "btf_members targ_struct 1 = Some \<lparr>m_name_off = 5, m_type = 1, m_offset = 32\<rparr>"
    "btf_member_bit_offset targ_struct 0 = Some 0" "btf_member_bit_offset targ_struct 1 = Some 32"
    "btf_members ?t 0 = Some \<lparr>m_name_off = 3, m_type = 1, m_offset = 0\<rparr>"
    "\<not> core_relo_is_type_based 0" "\<not> core_relo_is_enumval_based 0" "core_relo_is_field_based 0"
    "btf_kind int_example = BTF_KIND_INT" "btf_kind_core_compat int_example int_example"
    by code_simp+
  have sk: "skip_mods_and_typedefs targ_example 2 = Some (targ_struct, 2)" using skip_plain [OF targ_facts(2)] by simp
  have z: "btf__resolve_size targ_example 2 = Some 8" using size_plain [OF targ_facts(2) k(1)] k(2) by simp
  have c: "bpf_core_fields_are_compat local_example 1 targ_example 1 = Some 1"
    by (subst fields_are_compat_step) (simp add: skip_plain [OF local_facts(1), simplified] skip_plain [OF targ_facts(1), simplified] fields_step_def k)
  have 1: "match_acc local_example targ_example 0 \<lparr>acc_type_id = 2, acc_idx = 0, acc_name = Null\<rparr> 2 ?s0 = Some (1, ?s1, 2)"
    by (simp add: match_acc_def sk z push_acc_def BPF_CORE_SPEC_MAX_LEN_def)
  have 2: "match_acc local_example targ_example 1 \<lparr>acc_type_id = 2, acc_idx = 0, acc_name = Ref ''b''\<rparr> 2 ?s1 = Some (1, targ_spec_example, 1)"
  proof -
    obtain n where f: "MATCH_FUEL = Suc n" by (rule that [of 64]) (simp add: MATCH_FUEL_def)
    have v: "btf_vlen targ_struct = Suc (Suc 0)" by simp
    show ?thesis
      using local_facts(3) targ_facts(4,5) c type_by_id_plain [OF local_facts(2)] k
      by (simp add: match_acc_def sk f v push_raw_def pop_raw_def BPF_CORE_SPEC_MAX_LEN_def str_is_empty_def deref_def push_acc_def targ_spec_example_def
          del: targ_struct_facts(4))
  qed
  show ?thesis using 1 2 k by (simp add: bpf_core_spec_match_def local_spec_example_def)
qed

theorem core_match_sound_witness:
  "\<exists>nid. field_spec targ_example 2 (r_kind relo_example) (raw_spec targ_spec_example) = Some (Inr (targ_spec_example, nid)) \<and>
     map acc_key (spec targ_spec_example) = map acc_key (spec local_spec_example)"
proof -
  have "core_relo_is_field_based (r_kind relo_example)" by code_simp
  then show ?thesis using core_match_sound [OF _ local_parse targ_unique targ_plain targ_match] by simp
qed

end
