(* ===== verification/Core_Insn.thy ===== *)
theory Core_Insn
  imports Core_Match
begin

text \<open>
  The end of a CO-RE relocation (\<^verbatim>\<open>lib/libbpf/src/relo_core.c\<close>): the values of a relocation for a local and a target spec, the choice over all candidates, and the patch of the
  BPF instruction; with the search for candidates of \<^verbatim>\<open>libbpf.c\<close>.

  Output parameters are results: \<open>Inl\<close> of the error code, or \<open>Inr\<close> of the values. A null target spec is the option \<open>None\<close>. The outer option is \<open>None\<close> for a division by zero and for reads
  outside a type or the program. The host is little endian, as in the other theories.
\<close>

section \<open>Values of a relocation\<close>

definition EUCLEAN :: int where "EUCLEAN = 117"
definition EOPNOTSUPP :: int where "EOPNOTSUPP = 95"
definition ERANGE :: int where "ERANGE = 34"

record bpf_core_relo_res =
  orig_val :: u64
  new_val :: u64
  poison :: bool
  validate :: bool
  fail_memsz_adjust :: bool
  orig_sz :: u32
  orig_type_id :: u32
  new_sz :: u32
  new_type_id :: u32

text \<open>What \<^verbatim>\<open>bpf_core_calc_field_relo\<close> stores through \<^verbatim>\<open>val\<close>, \<^verbatim>\<open>field_sz\<close>, \<^verbatim>\<open>type_id\<close> and \<^verbatim>\<open>validate\<close>, which the caller has set to 0, 0, 0 and true.\<close>

record field_vals =
  f_val :: u64
  f_sz :: u32
  f_type :: u32
  f_validate :: bool

definition no_vals :: field_vals where
  "no_vals = \<lparr>f_val = 0, f_sz = 0, f_type = 0, f_validate = True\<rparr>"

text \<open>The smallest power-of-two multiple of the declared size that loads the whole bit field: its size and offset in bytes.\<close>

function bitfield_load :: "u32 \<Rightarrow> u32 \<Rightarrow> u32 \<Rightarrow> (int + u32 \<times> u32) option" where
  "bitfield_load bit_off bit_sz byte_sz =
     (if byte_sz = 0 then None
      else let byte_off = bit_off div 8 div byte_sz * byte_sz in
        if bit_off + bit_sz - byte_off * 8 > byte_sz * 8 then
          if byte_sz \<ge> 8 then Some (Inl (- E2BIG)) else bitfield_load bit_off bit_sz (byte_sz * 2)
        else Some (Inr (byte_sz, byte_off)))"
  by pat_completeness auto

termination bitfield_load
proof (relation "measure (\<lambda>(_, _, s). 8 - unat s)", goal_cases)
  case (2 bit_off bit_sz byte_sz x)
  then have "byte_sz < 8" "0 < byte_sz" by (simp_all add: word_neq_0_conv)
  then have "unat byte_sz < 8" "0 < unat byte_sz" by (simp_all add: word_less_nat_alt)
  moreover from this have "unat (byte_sz * 2) = unat byte_sz * 2" by (simp add: unat_word_ariths)
  ultimately show ?case by simp
qed simp

declare bitfield_load.simps [simp del]

definition bpf_core_calc_field_relo :: "bpf_core_relo \<Rightarrow> bpf_core_spec option \<Rightarrow> (int + field_vals) option" where
  "bpf_core_calc_field_relo relo sp =
     (if r_kind relo = BPF_CORE_FIELD_EXISTS then Some (Inr (no_vals\<lparr>f_val := of_bool (sp \<noteq> None)\<rparr>))
      else case sp of None \<Rightarrow> Some (Inl (- EUCLEAN))
      | Some s \<Rightarrow> let acc = last (spec s); kind = r_kind relo in do {
          t \<leftarrow> btf_type_by_id (spec_btf s) (acc_type_id acc);
          if acc_name acc = Null then
            if kind = BPF_CORE_FIELD_BYTE_OFFSET then do {
              sz0 \<leftarrow> btf__resolve_size (spec_btf s) (acc_type_id acc);
              if sz0 < 0 then Some (Inl (- EINVAL))
              else Some (Inr \<lparr>f_val = ucast (bit_offset s div 8), f_sz = word_of_int sz0, f_type = word_of_nat (acc_type_id acc), f_validate = True\<rparr>) }
            else if kind = BPF_CORE_FIELD_BYTE_SIZE then do {
              sz0 \<leftarrow> btf__resolve_size (spec_btf s) (acc_type_id acc);
              if sz0 < 0 then Some (Inl (- EINVAL)) else Some (Inr (no_vals\<lparr>f_val := word_of_int sz0\<rparr>)) }
            else Some (Inl (- EINVAL))
          else do {
            m \<leftarrow> btf_members t (unat (acc_idx acc));
            (mt, field_type_id) \<leftarrow> skip_mods_and_typedefs (spec_btf s) (unat (m_type m));
            bsz \<leftarrow> btf_member_bitfield_size t (unat (acc_idx acc));
            let bit_off = bit_offset s; bitfield = (bsz > 0) in do {
            ld \<leftarrow> (if bitfield then map_option (map_sum id (\<lambda>(byte_sz, byte_off). (byte_sz, byte_off, bsz))) (bitfield_load bit_off bsz (size_type mt))
                    else do {
                      sz0 \<leftarrow> btf__resolve_size (spec_btf s) field_type_id;
                      if sz0 < 0 then Some (Inl (- EINVAL))
                      else Some (Inr (word_of_int sz0, bit_off div 8, word_of_int sz0 * 8)) });
            case ld of Inl e \<Rightarrow> Some (Inl e)
            | Inr (byte_sz, byte_off, bit_sz) \<Rightarrow>
                let r = no_vals\<lparr>f_validate := \<not> bitfield\<rparr> in
                if kind = BPF_CORE_FIELD_BYTE_OFFSET then
                  Some (Inr (if bitfield then r\<lparr>f_val := ucast byte_off\<rparr>
                             else r\<lparr>f_val := ucast byte_off, f_sz := byte_sz, f_type := word_of_nat field_type_id\<rparr>))
                else if kind = BPF_CORE_FIELD_BYTE_SIZE then Some (Inr (r\<lparr>f_val := ucast byte_sz\<rparr>))
                else if kind = BPF_CORE_FIELD_SIGNED then do {
                  sgn \<leftarrow> (if btf_is_any_enum mt \<and> btf_kflag mt then Some True
                           else map_option (\<lambda>enc. enc AND BTF_INT_SIGNED \<noteq> 0) (btf_int_encoding mt));
                  Some (Inr (r\<lparr>f_val := of_bool sgn, f_validate := True\<rparr>)) }
                else if kind = BPF_CORE_FIELD_LSHIFT_U64 then Some (Inr (r\<lparr>f_val := ucast (64 - (bit_off + bit_sz - byte_off * 8))\<rparr>))
                else if kind = BPF_CORE_FIELD_RSHIFT_U64 then Some (Inr (r\<lparr>f_val := ucast (64 - bit_sz), f_validate := True\<rparr>))
                else Some (Inl (- EOPNOTSUPP)) } } })"

definition bpf_core_calc_type_relo :: "bpf_core_relo \<Rightarrow> bpf_core_spec option \<Rightarrow> (int + u64 \<times> bool) option" where
  "bpf_core_calc_type_relo relo sp = (case sp of
     None \<Rightarrow> Some (Inr (0, True))
   | Some s \<Rightarrow>
       if r_kind relo = BPF_CORE_TYPE_ID_TARGET then Some (Inr (word_of_nat (root_type_id s), False))
       else if r_kind relo \<in> {BPF_CORE_TYPE_EXISTS, BPF_CORE_TYPE_MATCHES} then Some (Inr (1, True))
       else if r_kind relo = BPF_CORE_TYPE_SIZE then do {
         sz0 \<leftarrow> btf__resolve_size (spec_btf s) (root_type_id s);
         if sz0 < 0 then Some (Inl (- EINVAL)) else Some (Inr (word_of_int sz0, True)) }
       else Some (Inl (- EOPNOTSUPP)))"

definition bpf_core_calc_enumval_relo :: "bpf_core_relo \<Rightarrow> bpf_core_spec option \<Rightarrow> (int + u64) option" where
  "bpf_core_calc_enumval_relo relo sp =
     (if r_kind relo = BPF_CORE_ENUMVAL_EXISTS then Some (Inr (of_bool (sp \<noteq> None)))
      else if r_kind relo = BPF_CORE_ENUMVAL_VALUE then
        case sp of None \<Rightarrow> Some (Inl (- EUCLEAN))
        | Some s \<Rightarrow> let acc = hd (spec s) in do {
            t \<leftarrow> btf_type_by_id (spec_btf s) (acc_type_id acc);
            if btf_is_enum t then map_option (\<lambda>v. Inr (scast v)) (btf_enum_val t (unat (acc_idx acc)))
            else map_option Inr (btf_enum64_value t (unat (acc_idx acc))) }
      else Some (Inl (- EOPNOTSUPP)))"

definition res0 :: bpf_core_relo_res where
  "res0 = \<lparr>orig_val = 0, new_val = 0, poison = False, validate = True, fail_memsz_adjust = False, orig_sz = 0, orig_type_id = 0, new_sz = 0, new_type_id = 0\<rparr>"

text \<open>Whether a load or store may change its size from the original to the new field type.\<close>

definition memsz_fail :: "bpf_core_spec \<Rightarrow> bpf_core_spec option \<Rightarrow> bpf_core_relo_res \<Rightarrow> bool option" where
  "memsz_fail local_spec targ_spec res =
     (if orig_sz res = new_sz res then Some False
      else do {
        orig_t \<leftarrow> btf_type_by_id (spec_btf local_spec) (unat (orig_type_id res));
        ts \<leftarrow> targ_spec;
        new_t \<leftarrow> btf_type_by_id (spec_btf ts) (unat (new_type_id res));
        if btf_is_ptr orig_t \<and> btf_is_ptr new_t then Some False
        else if btf_is_int orig_t \<and> btf_is_int new_t then do {
          oe \<leftarrow> btf_int_encoding orig_t;
          if oe = BTF_INT_SIGNED then Some True
          else do { ne \<leftarrow> btf_int_encoding new_t; Some (ne = BTF_INT_SIGNED) } }
        else Some True })"

text \<open>
  The values before the label \<^verbatim>\<open>done\<close>: an error together with what \<^verbatim>\<open>res\<close> holds then, or the full result. After a request to poison, the
  original values are kept.
\<close>

definition calc_values :: "bpf_core_relo \<Rightarrow> bpf_core_spec \<Rightarrow> bpf_core_spec option \<Rightarrow> (int \<times> bpf_core_relo_res) option" where
  "calc_values relo local_spec targ_spec =
     (if core_relo_is_field_based (r_kind relo) then do {
        lr \<leftarrow> bpf_core_calc_field_relo relo (Some local_spec);
        case lr of Inl e \<Rightarrow> Some (e, res0)
        | Inr l \<Rightarrow>
            let res1 = res0\<lparr>orig_val := f_val l, orig_sz := f_sz l, orig_type_id := f_type l, validate := f_validate l\<rparr> in do {
            tr \<leftarrow> bpf_core_calc_field_relo relo targ_spec;
            case tr of Inl e \<Rightarrow> Some (e, res1)
            | Inr t \<Rightarrow>
                let res2 = res1\<lparr>new_val := f_val t, new_sz := f_sz t, new_type_id := f_type t\<rparr> in do {
                fl \<leftarrow> memsz_fail local_spec targ_spec res2;
                Some (0, res2\<lparr>fail_memsz_adjust := fl\<rparr>) } } }
      else if core_relo_is_type_based (r_kind relo) then do {
        lr \<leftarrow> bpf_core_calc_type_relo relo (Some local_spec);
        case lr of Inl e \<Rightarrow> Some (e, res0)
        | Inr (v, va) \<Rightarrow> do {
            tr \<leftarrow> bpf_core_calc_type_relo relo targ_spec;
            case tr of Inl e \<Rightarrow> Some (e, res0\<lparr>orig_val := v, validate := va\<rparr>)
            | Inr (w, _) \<Rightarrow> Some (0, res0\<lparr>orig_val := v, validate := va, new_val := w\<rparr>) } }
      else if core_relo_is_enumval_based (r_kind relo) then do {
        lr \<leftarrow> bpf_core_calc_enumval_relo relo (Some local_spec);
        case lr of Inl e \<Rightarrow> Some (e, res0)
        | Inr v \<Rightarrow> do {
            tr \<leftarrow> bpf_core_calc_enumval_relo relo targ_spec;
            case tr of Inl e \<Rightarrow> Some (e, res0\<lparr>orig_val := v\<rparr>)
            | Inr w \<Rightarrow> Some (0, res0\<lparr>orig_val := v, new_val := w\<rparr>) } }
      else Some (- EOPNOTSUPP, res0))"

definition bpf_core_calc_relo :: "bpf_core_relo \<Rightarrow> bpf_core_spec \<Rightarrow> bpf_core_spec option \<Rightarrow> (int \<times> bpf_core_relo_res) option" where
  "bpf_core_calc_relo relo local_spec targ_spec = do {
     (err, res) \<leftarrow> calc_values relo local_spec targ_spec;
     Some (if err = - EUCLEAN then (0, res\<lparr>poison := True\<rparr>) else (err, res)) }"

section \<open>All candidates\<close>

type_synonym cand = "btf \<times> nat"

text \<open>
  The loop over the candidates; \<open>kept\<close> are the candidates that have matched, \<open>best\<close> the values and the spec of the first of them. The
  list that the loop works on in place is only shortened when it ends without an error.
\<close>

fun cand_loop ::
  "bpf_core_relo \<Rightarrow> bpf_core_spec \<Rightarrow> cand list \<Rightarrow> cand list \<Rightarrow> (bpf_core_relo_res \<times> bpf_core_spec) option \<Rightarrow>
   (int + cand list \<times> (bpf_core_relo_res \<times> bpf_core_spec) option) option" where
  "cand_loop relo local_spec [] kept best = Some (Inr (kept, best))"
| "cand_loop relo local_spec (c # cs) kept best = do {
     (m, cand_spec) \<leftarrow> bpf_core_spec_match local_spec (fst c) (snd c);
     if m < 0 then Some (Inl m)
     else if m = 0 then cand_loop relo local_spec cs kept best
     else do {
       (err, cand_res) \<leftarrow> bpf_core_calc_relo relo local_spec (Some cand_spec);
       if err \<noteq> 0 then Some (Inl err)
       else case best of
         None \<Rightarrow> cand_loop relo local_spec cs (kept @ [c]) (Some (cand_res, cand_spec))
       | Some (targ_res, targ_spec) \<Rightarrow>
           if bit_offset cand_spec \<noteq> bit_offset targ_spec then Some (Inl (- EINVAL))
           else if poison cand_res \<noteq> poison targ_res \<or> new_val cand_res \<noteq> new_val targ_res then Some (Inl (- EINVAL))
           else cand_loop relo local_spec cs (kept @ [c]) best } }"

text \<open>
  The result: the values and the list of candidates that the cache keeps. On an error the C code leaves the
  cached list partly overwritten; that list is not part of the result here.
\<close>

definition bpf_core_calc_relo_insn :: "bpf_core_relo \<Rightarrow> btf \<Rightarrow> cand list \<Rightarrow> (int + bpf_core_relo_res \<times> cand list) option" where
  "bpf_core_calc_relo_insn relo local_btf cands = do {
     local_type \<leftarrow> btf_type_by_id local_btf (unat (r_type_id relo));
     local_name \<leftarrow> btf__name_by_offset local_btf (name_off local_type);
     if local_name = Null then Some (Inl (- EINVAL))
     else do {
       pr \<leftarrow> bpf_core_parse_spec local_btf relo;
       case pr of Inl e \<Rightarrow> Some (Inl (- EINVAL))
       | Inr local_spec \<Rightarrow>
           if r_kind relo = BPF_CORE_TYPE_ID_LOCAL then
             Some (Inr (res0\<lparr>validate := False, orig_val := word_of_nat (root_type_id local_spec), new_val := word_of_nat (root_type_id local_spec)\<rparr>, cands))
           else if str_is_empty local_name then Some (Inl (- EOPNOTSUPP))
           else do {
             lr \<leftarrow> cand_loop relo local_spec cands [] None;
             case lr of Inl e \<Rightarrow> Some (Inl e)
             | Inr (kept, Some (targ_res, _)) \<Rightarrow> Some (Inr (targ_res, kept))
             | Inr (kept, None) \<Rightarrow> do {
                 (err, targ_res) \<leftarrow> bpf_core_calc_relo relo local_spec None;
                 Some (if err \<noteq> 0 then Inl err else Inr (targ_res, cands)) } } } }"

text \<open>The search of candidates in a target BTF from type \<open>i\<close> on with \<open>n\<close> left; \<open>room\<close> tells whether the list can grow to a length.\<close>

fun bpf_core_add_cands ::
  "(nat \<Rightarrow> bool) \<Rightarrow> btf_type \<Rightarrow> string \<Rightarrow> nat \<Rightarrow> btf \<Rightarrow> nat \<Rightarrow> nat \<Rightarrow> cand list \<Rightarrow> (int \<times> cand list) option" where
  "bpf_core_add_cands room local_t local_name local_essent_len targ_btf i 0 cands = Some (0, cands)"
| "bpf_core_add_cands room local_t local_name local_essent_len targ_btf i (Suc n) cands = do {
     t \<leftarrow> btf__type_by_id targ_btf i \<bind> deref;
     if \<not> btf_kind_core_compat t local_t then bpf_core_add_cands room local_t local_name local_essent_len targ_btf (i + 1) n cands
     else do {
       tn \<leftarrow> btf__name_by_offset targ_btf (name_off t);
       case tn of Null \<Rightarrow> bpf_core_add_cands room local_t local_name local_essent_len targ_btf (i + 1) n cands
       | Ref targ_name \<Rightarrow>
           if targ_name = [] \<or> bpf_core_essential_name_len targ_name \<noteq> local_essent_len \<or>
              take local_essent_len local_name \<noteq> take local_essent_len targ_name
           then bpf_core_add_cands room local_t local_name local_essent_len targ_btf (i + 1) n cands
           else if \<not> room (length cands + 1) then Some (- ENOMEM, cands)
           else bpf_core_add_cands room local_t local_name local_essent_len targ_btf (i + 1) n (cands @ [(targ_btf, i)]) } }"

section \<open>Patching\<close>

record bpf_insn =
  code :: u8
  dst_reg :: "4 word"
  src_reg :: "4 word"
  off :: u16
  imm :: u32

definition BPF_CLASS :: "u8 \<Rightarrow> u8" where "BPF_CLASS c = c AND 0x07"
definition BPF_SIZE :: "u8 \<Rightarrow> u8" where "BPF_SIZE c = c AND 0x18"
definition BPF_MODE :: "u8 \<Rightarrow> u8" where "BPF_MODE c = c AND 0xe0"
definition BPF_SRC :: "u8 \<Rightarrow> u8" where "BPF_SRC c = c AND 0x08"

abbreviation (input) BPF_LD :: u8 where "BPF_LD \<equiv> 0x00"
abbreviation (input) BPF_LDX :: u8 where "BPF_LDX \<equiv> 0x01"
abbreviation (input) BPF_ST :: u8 where "BPF_ST \<equiv> 0x02"
abbreviation (input) BPF_STX :: u8 where "BPF_STX \<equiv> 0x03"
abbreviation (input) BPF_ALU :: u8 where "BPF_ALU \<equiv> 0x04"
abbreviation (input) BPF_JMP :: u8 where "BPF_JMP \<equiv> 0x05"
abbreviation (input) BPF_ALU64 :: u8 where "BPF_ALU64 \<equiv> 0x07"
abbreviation (input) BPF_W :: u8 where "BPF_W \<equiv> 0x00"
abbreviation (input) BPF_H :: u8 where "BPF_H \<equiv> 0x08"
abbreviation (input) BPF_B :: u8 where "BPF_B \<equiv> 0x10"
abbreviation (input) BPF_DW :: u8 where "BPF_DW \<equiv> 0x18"
abbreviation (input) BPF_IMM :: u8 where "BPF_IMM \<equiv> 0x00"
abbreviation (input) BPF_K :: u8 where "BPF_K \<equiv> 0x00"
abbreviation (input) BPF_CALL :: u8 where "BPF_CALL \<equiv> 0x80"

definition is_ldimm64_insn :: "bpf_insn \<Rightarrow> bool" where
  "is_ldimm64_insn insn \<longleftrightarrow> code insn = BPF_LD OR BPF_IMM OR BPF_DW"

definition bpf_core_poison_insn :: bpf_insn where
  "bpf_core_poison_insn = \<lparr>code = BPF_JMP OR BPF_CALL, dst_reg = 0, src_reg = 0, off = 0, imm = 195896080\<rparr>"

definition insn_bpf_size_to_bytes :: "bpf_insn \<Rightarrow> int" where
  "insn_bpf_size_to_bytes insn =
     (let c = BPF_SIZE (code insn) in if c = BPF_DW then 8 else if c = BPF_W then 4 else if c = BPF_H then 2 else if c = BPF_B then 1 else - 1)"

definition insn_bytes_to_bpf_size :: "u32 \<Rightarrow> u8 option" where
  "insn_bytes_to_bpf_size n =
     (if n = 8 then Some BPF_DW else if n = 4 then Some BPF_W else if n = 2 then Some BPF_H else if n = 1 then Some BPF_B else None)"

definition SHRT_MAX :: u64 where "SHRT_MAX = 32767"

text \<open>The instruction \<open>i\<close> of the program is patched; the second instruction of a 64-bit load must be there.\<close>

definition poison_at :: "nat \<Rightarrow> bpf_insn list \<Rightarrow> bpf_insn list option" where
  "poison_at i prog =
     (if is_ldimm64_insn (prog ! i) then
        (if i + 1 < length prog then Some (prog[i + 1 := bpf_core_poison_insn, i := bpf_core_poison_insn]) else None)
      else Some (prog[i := bpf_core_poison_insn]))"

definition patch_mem :: "bpf_core_relo_res \<Rightarrow> nat \<Rightarrow> bpf_insn list \<Rightarrow> (int \<times> bpf_insn list) option" where
  "patch_mem res i prog = (let insn = prog ! i in
     if validate res \<and> scast (off insn) \<noteq> orig_val res then Some (- EINVAL, prog)
     else if new_val res > SHRT_MAX then Some (- ERANGE, prog)
     else if fail_memsz_adjust res then map_option (\<lambda>p. (0, p)) (poison_at i prog)
     else let insn1 = insn\<lparr>off := ucast (new_val res)\<rparr> in
       if new_sz res = orig_sz res then Some (0, prog[i := insn1])
       else if word_of_int (insn_bpf_size_to_bytes insn1) \<noteq> orig_sz res then Some (- EINVAL, prog[i := insn1])
       else case insn_bytes_to_bpf_size (new_sz res) of
         None \<Rightarrow> Some (- EINVAL, prog[i := insn1])
       | Some b \<Rightarrow> Some (0, prog[i := insn1\<lparr>code := BPF_MODE (code insn1) OR b OR BPF_CLASS (code insn1)\<rparr>]))"

definition patch_imm64 :: "bpf_core_relo_res \<Rightarrow> nat \<Rightarrow> bpf_insn list \<Rightarrow> (int \<times> bpf_insn list) option" where
  "patch_imm64 res i prog = (let insn = prog ! i in
     if \<not> is_ldimm64_insn insn \<or> src_reg insn \<noteq> 0 \<or> off insn \<noteq> 0 then Some (- EINVAL, prog)
     else if i + 1 \<ge> length prog then None
     else let insn2 = prog ! (i + 1) in
       if code insn2 \<noteq> 0 \<or> dst_reg insn2 \<noteq> 0 \<or> src_reg insn2 \<noteq> 0 \<or> off insn2 \<noteq> 0 then Some (- EINVAL, prog)
       else if validate res \<and> ucast (imm insn) OR push_bit 32 (scast (imm insn2)) \<noteq> orig_val res then Some (- EINVAL, prog)
       else Some (0, prog[i := insn\<lparr>imm := ucast (new_val res)\<rparr>, i + 1 := insn2\<lparr>imm := ucast (drop_bit 32 (new_val res))\<rparr>]))"

definition bpf_core_patch_insn :: "bpf_core_relo_res \<Rightarrow> nat \<Rightarrow> bpf_insn list \<Rightarrow> (int \<times> bpf_insn list) option" where
  "bpf_core_patch_insn res i prog =
     (if i \<ge> length prog then None
      else let insn = prog ! i; cl = BPF_CLASS (code insn) in
        if poison res then map_option (\<lambda>p. (0, p)) (poison_at i prog)
        else if cl \<in> {BPF_ALU, BPF_ALU64} then
          if BPF_SRC (code insn) \<noteq> BPF_K then Some (- EINVAL, prog)
          else if validate res \<and> scast (imm insn) \<noteq> orig_val res then Some (- EINVAL, prog)
          else Some (0, prog[i := insn\<lparr>imm := ucast (new_val res)\<rparr>])
        else if cl \<in> {BPF_LDX, BPF_ST, BPF_STX} then patch_mem res i prog
        else if cl = BPF_LD then patch_imm64 res i prog
        else Some (- EINVAL, prog))"

section \<open>Reading a field with the relocated values\<close>

text \<open>
  What a BPF program does with the four values: it loads \<^verbatim>\<open>BYTE_SIZE\<close> bytes at \<^verbatim>\<open>BYTE_OFFSET\<close> into a 64-bit register, then shifts it left and right.
\<close>

definition mem_load :: "mem \<Rightarrow> nat \<Rightarrow> nat \<Rightarrow> u64" where
  "mem_load m o1 n = foldr (\<lambda>b v. ucast b OR push_bit 8 v) (take n (drop o1 m)) 0"

lemma bit_bytes:
  "length (bs :: mem) \<le> 8 \<Longrightarrow> bit (foldr (\<lambda>b v. ucast b OR push_bit 8 v) bs (0 :: u64)) i \<longleftrightarrow> i < 8 * length bs \<and> bit (bs ! (i div 8)) (i mod 8)"
proof (induction bs arbitrary: i)
  case (Cons b bs)
  show ?case
  proof (cases "i < 8")
    case True
    then show ?thesis by (simp add: bit_or_iff bit_push_bit_iff bit_unsigned_iff)
  next
    case False
    then have i: "i div 8 = Suc ((i - 8) div 8)" "(i - 8) mod 8 = i mod 8" by (simp_all add: le_div_geq le_mod_geq)
    have nb: "\<not> bit b i" using False bit_imp_le_length [of b i] by auto
    let ?r = "foldr (\<lambda>b v. ucast b OR push_bit 8 v) bs (0 :: u64)"
    have "bit (foldr (\<lambda>b v. ucast b OR push_bit 8 v) (b # bs) (0 :: u64)) i \<longleftrightarrow> i < 64 \<and> bit ?r (i - 8)"
      using False nb by (simp add: bit_or_iff bit_push_bit_iff bit_unsigned_iff)
    also have "\<dots> \<longleftrightarrow> i < 64 \<and> i - 8 < 8 * length bs \<and> bit (bs ! ((i - 8) div 8)) (i mod 8)"
      using Cons.IH [of "i - 8"] Cons.prems i(2) by simp
    also have "\<dots> \<longleftrightarrow> i < 8 * length (b # bs) \<and> bit ((b # bs) ! (i div 8)) (i mod 8)"
    proof -
      have "i < 64 \<and> i - 8 < 8 * length bs \<longleftrightarrow> i < 8 * length (b # bs)" using False Cons.prems by auto
      moreover have "(b # bs) ! (i div 8) = bs ! ((i - 8) div 8)" by (simp add: i(1))
      ultimately show ?thesis by metis
    qed
    finally show ?thesis .
  qed
qed simp

lemma bit_mem_load:
  assumes "o1 + n \<le> length m" "n \<le> 8"
  shows "bit (mem_load m o1 n) i \<longleftrightarrow> i < 8 * n \<and> bit (m ! (o1 + i div 8)) (i mod 8)"
proof -
  have "i div 8 < n" if "i < 8 * n" using that by (simp add: less_mult_imp_div_less mult.commute)
  then show ?thesis using assms by (auto simp: mem_load_def bit_bytes)
qed

lemma bitfield_load_ok:
  "bitfield_load bit_off bit_sz byte_sz = Some (Inr (bs, bo)) \<Longrightarrow>
     bs \<noteq> 0 \<and> bo = bit_off div 8 div bs * bs \<and> bit_off + bit_sz - bo * 8 \<le> bs * 8"
proof (induction bit_off bit_sz byte_sz rule: bitfield_load.induct)
  case (1 bit_off bit_sz byte_sz)
  note e = 1(2)
  have z: "byte_sz \<noteq> 0" using e by (auto simp: bitfield_load.simps [of bit_off bit_sz byte_sz])
  let ?o = "bit_off div 8 div byte_sz * byte_sz"
  show ?case
  proof (cases "bit_off + bit_sz - ?o * 8 > byte_sz * 8")
    case True
    then have "\<not> byte_sz \<ge> 8" "bitfield_load bit_off bit_sz (byte_sz * 2) = Some (Inr (bs, bo))"
      using e z by (auto simp: bitfield_load.simps [of bit_off bit_sz byte_sz] Let_def split: if_split_asm)
    then show ?thesis using 1(1) [OF z refl True] by blast
  next
    case False
    then show ?thesis using e z by (auto simp: bitfield_load.simps [of bit_off bit_sz byte_sz] Let_def)
  qed
qed

text \<open>Shifting the loaded bytes takes out the bits of the field, \<open>d\<close> bits behind the first loaded bit.\<close>

lemma shift_field:
  assumes "d + w \<le> 8 * n" "n \<le> 8" "o1 + n \<le> length m"
  shows "bit (drop_bit (64 - w) (push_bit (64 - (d + w)) (mem_load m o1 n))) i \<longleftrightarrow>
     i < w \<and> bit (m ! ((8 * o1 + d + i) div 8)) ((8 * o1 + d + i) mod 8)"
proof -
  have x: "i + (64 - w) - (64 - (d + w)) = i + d" "64 - (d + w) \<le> i + (64 - w)" "i + (64 - w) < 64 \<longleftrightarrow> i < w" using assms by auto
  have a: "(8 * o1 + d + i) div 8 = o1 + (i + d) div 8" "(8 * o1 + d + i) mod 8 = (i + d) mod 8"
    by (simp_all add: add.assoc add.commute [of d])
  have "bit (drop_bit (64 - w) (push_bit (64 - (d + w)) (mem_load m o1 n))) i \<longleftrightarrow> i + (64 - w) < 64 \<and> bit (mem_load m o1 n) (i + d)"
    using x(1,2) by (auto simp: bit_drop_bit_eq bit_push_bit_iff add.commute [of "64 - w"])
  also have "\<dots> \<longleftrightarrow> i < w \<and> bit (m ! (o1 + (i + d) div 8)) ((i + d) mod 8)"
    unfolding x(3) bit_mem_load [OF assms(3,2)] using assms(1) by fastforce
  finally show ?thesis by (simp add: a)
qed

lemma word_field_geometry:
  fixes bit_off bit_sz bs bo :: u32
  assumes x: "bit_off + bit_sz - bo * 8 \<le> bs * 8" and b: "bs \<noteq> 0" "bs \<le> 8" and w: "unat bit_sz \<le> 255"
    and bo: "bo = bit_off div 8 div bs * bs \<or> bo = bit_off div 8"
  obtains d where "unat bit_off = 8 * unat bo + d" "d + unat bit_sz \<le> 8 * unat bs" "unat bs \<le> 8"
    "unat (64 - (bit_off + bit_sz - bo * 8)) = 64 - (d + unat bit_sz)" "unat (64 - bit_sz) = 64 - unat bit_sz"
proof -
  have b8: "unat bs \<le> 8" "0 < unat bs" using b by (simp_all add: word_le_nat_alt unat_gt_0)
  have q: "unat (bit_off div 8 div bs * bs) = unat bit_off div 8 div unat bs * unat bs"
  proof -
    have "unat bit_off div 8 div unat bs * unat bs \<le> unat bit_off div 8" by simp
    also have "\<dots> < 2 ^ 32" using unsigned_less [of bit_off, where ?'a = nat] by simp
    finally show ?thesis by (simp add: unat_word_ariths(2) unat_div_distrib)
  qed
  have bo8: "8 * unat bo \<le> unat bit_off" "unat bit_off - 8 * unat bo < 64"
  proof -
    have r: "unat bit_off div 8 = unat bit_off div 8 div unat bs * unat bs + unat bit_off div 8 mod unat bs"
      "unat bit_off div 8 mod unat bs < 8" "unat bit_off = 8 * (unat bit_off div 8) + unat bit_off mod 8"
      using b8 by (simp_all add: less_le_trans [OF mod_less_divisor])
    have c: "unat bo = unat bit_off div 8 div unat bs * unat bs \<or> unat bo = unat bit_off div 8" using bo q by (auto simp: unat_div)
    show "8 * unat bo \<le> unat bit_off" using c r by linarith
    have "unat bit_off mod 8 < 8" "unat bit_off div 8 mod unat bs \<le> 7" using r by simp_all
    then show "unat bit_off - 8 * unat bo < 64" using c r by linarith
  qed
  define d where "d = unat bit_off - 8 * unat bo"
  have d: "unat bit_off = 8 * unat bo + d" "d < 64" using bo8 by (simp_all add: d_def)
  have "bit_off = word_of_nat (8 * unat bo + d)" by (simp flip: d(1))
  then have X: "bit_off + bit_sz - bo * 8 = word_of_nat (d + unat bit_sz)" by simp
  have uX: "unat (bit_off + bit_sz - bo * 8) = d + unat bit_sz" using d(2) w by (simp add: X unat_of_nat del: of_nat_add)
  have "unat (bs * 8) = 8 * unat bs" using b8 by (simp add: unat_word_ariths)
  then have le: "d + unat bit_sz \<le> 8 * unat bs" using x uX by (simp add: word_le_nat_alt)
  have "unat (64 - (bit_off + bit_sz - bo * 8)) = 64 - (d + unat bit_sz)" "unat (64 - bit_sz) = 64 - unat bit_sz"
    using le b8 uX by (simp_all add: unat_sub word_le_nat_alt)
  then show ?thesis using that d(1) le b8 by blast
qed

text \<open>What the four relocations of a named field compute: the size and offset of the load and the width of the field.\<close>

lemma field_relo_values:
  assumes n: "acc_name (last (spec s)) \<noteq> Null" and t: "btf_type_by_id (spec_btf s) (acc_type_id (last (spec s))) = Some t"
    and w: "btf_member_bitfield_size t (unat (acc_idx (last (spec s)))) = Some w"
    and a: "bpf_core_calc_field_relo (relo\<lparr>r_kind := BPF_CORE_FIELD_BYTE_OFFSET\<rparr>) (Some s) = Some (Inr a)"
    and b: "bpf_core_calc_field_relo (relo\<lparr>r_kind := BPF_CORE_FIELD_BYTE_SIZE\<rparr>) (Some s) = Some (Inr b)"
    and l: "bpf_core_calc_field_relo (relo\<lparr>r_kind := BPF_CORE_FIELD_LSHIFT_U64\<rparr>) (Some s) = Some (Inr l)"
    and r: "bpf_core_calc_field_relo (relo\<lparr>r_kind := BPF_CORE_FIELD_RSHIFT_U64\<rparr>) (Some s) = Some (Inr r)"
  obtains bs bo bsz where "f_val a = ucast bo" "f_val b = ucast bs" "f_val l = ucast (64 - (bit_offset s + bsz - bo * 8))" "f_val r = ucast (64 - bsz)"
    "if w > 0 then bsz = w \<and> (\<exists>z. bitfield_load (bit_offset s) w z = Some (Inr (bs, bo))) else bo = bit_offset s div 8 \<and> bsz = bs * 8"
proof -
  let ?acc = "last (spec s)"
  obtain m where m: "btf_members t (unat (acc_idx ?acc)) = Some m" using w by (auto simp: btf_member_bitfield_size_def bind_eq_Some_conv)
  obtain mt fid where f: "skip_mods_and_typedefs (spec_btf s) (unat (m_type m)) = Some (mt, fid)"
    using a n t m by (auto simp: bpf_core_calc_field_relo_def bind_eq_Some_conv)
  note d = n t m f w bpf_core_calc_field_relo_def no_vals_def Let_def
  show ?thesis
  proof (cases "w > 0")
    case True
    obtain q where q: "bitfield_load (bit_offset s) w (size_type mt) = Some q" using a True by (auto simp: d bind_eq_Some_conv)
    obtain bs bo where o: "bitfield_load (bit_offset s) w (size_type mt) = Some (Inr (bs, bo))" using a True q by (cases q) (auto simp: d)
    show ?thesis by (rule that [of bo bs w]) (use a b l r True o in \<open>auto simp: d\<close>)
  next
    case False
    obtain z where z: "btf__resolve_size (spec_btf s) fid = Some z" using a False by (auto simp: d bind_eq_Some_conv)
    have "\<not> z < 0" using a False z by (auto simp: d)
    then show ?thesis by (intro that [of "bit_offset s div 8" "word_of_int z" "word_of_int z * 8"]) (use a b l r False z in \<open>auto simp: d\<close>)
  qed
qed

text \<open>
  C19: A BPF program that loads \<^verbatim>\<open>BYTE_SIZE\<close> bytes at \<^verbatim>\<open>BYTE_OFFSET\<close> of an object as a little endian number, shifts it left by \<^verbatim>\<open>LSHIFT_U64\<close> and right by \<^verbatim>\<open>RSHIFT_U64\<close>,
  with the values that CO-RE computes for a field, gets exactly the bits of the field: the \<open>n\<close> bits of the object from the field's bit offset on, and zeros above.
  \<open>n\<close> is the width of a bit field, or the size of a plain field that starts at a byte. The shifts stay below 64.
\<close>

theorem core_field_read_exact:
  assumes "acc_name (last (spec s)) \<noteq> Null" "btf_type_by_id (spec_btf s) (acc_type_id (last (spec s))) = Some t"
    and "btf_member_bitfield_size t (unat (acc_idx (last (spec s)))) = Some w" "w > 0 \<or> bit_offset s mod 8 = 0"
    and "bpf_core_calc_field_relo (relo\<lparr>r_kind := BPF_CORE_FIELD_BYTE_OFFSET\<rparr>) (Some s) = Some (Inr a)"
    and "bpf_core_calc_field_relo (relo\<lparr>r_kind := BPF_CORE_FIELD_BYTE_SIZE\<rparr>) (Some s) = Some (Inr b)"
    and "bpf_core_calc_field_relo (relo\<lparr>r_kind := BPF_CORE_FIELD_LSHIFT_U64\<rparr>) (Some s) = Some (Inr l)"
    and "bpf_core_calc_field_relo (relo\<lparr>r_kind := BPF_CORE_FIELD_RSHIFT_U64\<rparr>) (Some s) = Some (Inr r)"
    and "0 < f_val b" "f_val b \<le> 8" "unat (f_val a) + unat (f_val b) \<le> length m"
    and "n = (if w > 0 then unat w else 8 * unat (f_val b))"
  shows "unat (f_val l) < 64 \<and> unat (f_val r) < 64 \<and>
    (\<forall>i. bit (drop_bit (unat (f_val r)) (push_bit (unat (f_val l)) (mem_load m (unat (f_val a)) (unat (f_val b))))) i \<longleftrightarrow>
       i < n \<and> bit (m ! ((unat (bit_offset s) + i) div 8)) ((unat (bit_offset s) + i) mod 8))"
proof -
  obtain bs bo bsz where v: "f_val a = ucast bo" "f_val b = ucast bs" "f_val l = ucast (64 - (bit_offset s + bsz - bo * 8))" "f_val r = ucast (64 - bsz)"
    "if w > 0 then bsz = w \<and> (\<exists>z. bitfield_load (bit_offset s) w z = Some (Inr (bs, bo))) else bo = bit_offset s div 8 \<and> bsz = bs * 8"
    by (rule field_relo_values [OF assms(1-3,5-8)])
  have u: "unat (ucast x :: u64) = unat x" for x :: u32 
    using unsigned_less [of x, where ?'a = nat] by (simp add: unsigned_ucast_eq take_bit_nat_eq_self)
  have bs: "bs \<noteq> 0" "bs \<le> 8" using assms(9,10) u [of bs] unfolding v(2) by (auto simp: word_le_nat_alt word_less_nat_alt unat_gt_0)
  have b8: "unat (bs * 8) = 8 * unat bs" using bs by (simp add: unat_word_ariths word_le_nat_alt)
  have g: "bit_offset s + bsz - bo * 8 \<le> bs * 8" "unat bsz \<le> 255" "bo = bit_offset s div 8 div bs * bs \<or> bo = bit_offset s div 8" "0 < unat bsz"
  proof -
    have "w \<le> 255"
    proof -
      obtain k where "w = drop_bit 24 k \<or> w = 0" using assms(3) by (auto simp: btf_member_bitfield_size_def bind_eq_Some_conv split: if_splits)
      moreover have "drop_bit 24 k \<le> (255 :: u32)" for k :: u32
        using unsigned_less [of k, where ?'a = nat] by (simp add: word_le_nat_alt drop_bit_eq_div unat_div_distrib)
      ultimately show ?thesis by auto
    qed
    then have w: "unat w \<le> 255" by (simp add: word_le_nat_alt)
    have al: "w = 0 \<Longrightarrow> bit_offset s div 8 * 8 = bit_offset s" using assms(4) by (metis mult.commute mult_div_mod_eq add.right_neutral word_gt_0)
    show "bit_offset s + bsz - bo * 8 \<le> bs * 8" "bo = bit_offset s div 8 div bs * bs \<or> bo = bit_offset s div 8"
      using v(5) bitfield_load_ok [of "bit_offset s" w _ bs bo] al by (auto simp: word_gt_0 split: if_split_asm)
    show "unat bsz \<le> 255" "0 < unat bsz" using v(5) w b8 bs by (auto simp: word_le_nat_alt word_gt_0 unat_gt_0 unat_eq_zero split: if_split_asm)
  qed
  obtain d where d: "unat (bit_offset s) = 8 * unat bo + d" "d + unat bsz \<le> 8 * unat bs" "unat bs \<le> 8"
    "unat (64 - (bit_offset s + bsz - bo * 8)) = 64 - (d + unat bsz)" "unat (64 - bsz) = 64 - unat bsz"
    by (rule word_field_geometry [OF g(1) bs g(2,3)])
  have n: "n = unat bsz" using assms(12) v(5) b8 v(2) u by (auto split: if_split_asm)
  have m: "unat bo + unat bs \<le> length m" using assms(11) by (simp add: v(1,2) u)
  show ?thesis using shift_field [OF d(2,3) m] g(4) d by (simp add: v(1-4) u n)
qed

text \<open>The example \<^verbatim>\<open>struct { int : 5; int a : 3; }\<close>.\<close>

definition bits_struct :: btf_type where
  "bits_struct = \<lparr>name_off = 0, info = 0x84000001, size_type = 4, tail = [3, 1, 0x03000005]\<rparr>"

definition bits_btf :: btf where
  "bits_btf = flat_btf [int_example, bits_struct] [0, 105, 0, 97, 0]"

definition bits_spec :: bpf_core_spec where
  "bits_spec = \<lparr>spec_btf = bits_btf, spec = [\<lparr>acc_type_id = 2, acc_idx = 0, acc_name = Null\<rparr>, \<lparr>acc_type_id = 2, acc_idx = 0, acc_name = Ref ''a''\<rparr>],
     root_type_id = 2, relo_kind = 0, raw_spec = [0, 0], bit_offset = 5\<rparr>"

lemma bits_facts: "btf__type_by_id bits_btf 1 = Some (Ref int_example)" "btf__type_by_id bits_btf 2 = Some (Ref bits_struct)"
proof -
  let ?ts = "[int_example, bits_struct]"
  have "type_ok bits_struct" by code_simp
  then have f: "list_all type_ok ?ts" "24 + length (types_bytes ?ts) + length [0, 105, 0, 97, 0::u8] < 2 ^ 32"
    "strs_valid False [0, 105, 0, 97, 0]" by (simp_all add: int_example_ok strs_valid_def) (simp add: int_example_def bits_struct_def)
  note g = flat_facts [OF f, folded bits_btf_def]
  show "btf__type_by_id bits_btf 1 = Some (Ref int_example)" "btf__type_by_id bits_btf 2 = Some (Ref bits_struct)"
    using g(3) [of 0] g(3) [of 1] by (simp_all add: numeral_2_eq_2)
qed

lemma bits_values:
  "bpf_core_calc_field_relo (relo_example\<lparr>r_kind := BPF_CORE_FIELD_BYTE_OFFSET\<rparr>) (Some bits_spec) = Some (Inr (no_vals\<lparr>f_val := 0, f_validate := False\<rparr>))"
  "bpf_core_calc_field_relo (relo_example\<lparr>r_kind := BPF_CORE_FIELD_BYTE_SIZE\<rparr>) (Some bits_spec) = Some (Inr (no_vals\<lparr>f_val := 4, f_validate := False\<rparr>))"
  "bpf_core_calc_field_relo (relo_example\<lparr>r_kind := BPF_CORE_FIELD_LSHIFT_U64\<rparr>) (Some bits_spec) = Some (Inr (no_vals\<lparr>f_val := 56, f_validate := False\<rparr>))"
  "bpf_core_calc_field_relo (relo_example\<lparr>r_kind := BPF_CORE_FIELD_RSHIFT_U64\<rparr>) (Some bits_spec) = Some (Inr (no_vals\<lparr>f_val := 61\<rparr>))"
proof -
  have m: "btf_members bits_struct 0 = Some \<lparr>m_name_off = 3, m_type = 1, m_offset = 0x03000005\<rparr>" "btf_member_bitfield_size bits_struct 0 = Some 3"
    "bitfield_load 5 3 4 = Some (Inr (4, 0))" "size_type int_example = 4"
    by code_simp+
  note f = type_by_id_plain [OF bits_facts(2)] skip_plain [OF bits_facts(1), simplified] m
  show "bpf_core_calc_field_relo (relo_example\<lparr>r_kind := BPF_CORE_FIELD_BYTE_OFFSET\<rparr>) (Some bits_spec) = Some (Inr (no_vals\<lparr>f_val := 0, f_validate := False\<rparr>))"
    "bpf_core_calc_field_relo (relo_example\<lparr>r_kind := BPF_CORE_FIELD_BYTE_SIZE\<rparr>) (Some bits_spec) = Some (Inr (no_vals\<lparr>f_val := 4, f_validate := False\<rparr>))"
    "bpf_core_calc_field_relo (relo_example\<lparr>r_kind := BPF_CORE_FIELD_LSHIFT_U64\<rparr>) (Some bits_spec) = Some (Inr (no_vals\<lparr>f_val := 56, f_validate := False\<rparr>))"
    "bpf_core_calc_field_relo (relo_example\<lparr>r_kind := BPF_CORE_FIELD_RSHIFT_U64\<rparr>) (Some bits_spec) = Some (Inr (no_vals\<lparr>f_val := 61\<rparr>))"
    using f by (simp_all add: bpf_core_calc_field_relo_def bits_spec_def relo_example_def no_vals_def)
qed

theorem core_field_read_exact_witness:
  "\<forall>i. bit (drop_bit 61 (push_bit 56 (mem_load [0xA0, 1, 2, 3] 0 4))) i \<longleftrightarrow>
     i < 3 \<and> bit ([0xA0, 1, 2, 3 :: u8] ! ((5 + i) div 8)) ((5 + i) mod 8)"
proof -
  have m: "acc_name (last (spec bits_spec)) \<noteq> Null" "btf_member_bitfield_size bits_struct (unat (acc_idx (last (spec bits_spec)))) = Some 3"
    "btf_type_by_id (spec_btf bits_spec) (acc_type_id (last (spec bits_spec))) = Some bits_struct" "unat (bit_offset bits_spec) = 5"
    using type_by_id_plain [OF bits_facts(2)] by (simp_all add: bits_spec_def) code_simp
  have e: "unat (f_val (no_vals\<lparr>f_val := 0, f_validate := False\<rparr>)) = 0" "unat (f_val (no_vals\<lparr>f_val := 4, f_validate := False\<rparr>)) = 4"
    "unat (f_val (no_vals\<lparr>f_val := 56, f_validate := False\<rparr>)) = 56" "unat (f_val (no_vals\<lparr>f_val := 61\<rparr>)) = 61"
    by simp_all
  have h: "(3::u32) > 0 \<or> bit_offset bits_spec mod 8 = 0" "0 < f_val (no_vals\<lparr>f_val := 4, f_validate := False\<rparr>)" "f_val (no_vals\<lparr>f_val := 4, f_validate := False\<rparr>) \<le> 8"
    "0 + 4 \<le> length [0xA0, 1, 2, 3 :: u8]" "3 = (if (3::u32) > 0 then unat (3::u32) else 8 * 4)"
    by simp_all
  show ?thesis
    using core_field_read_exact [OF m(1,3,2) h(1) bits_values h(2,3), unfolded e, OF h(4,5)] unfolding m(4) by (rule conjunct2 [OF conjunct2])
qed

end
