(* ===== verification/Core_Patch.thy ===== *)
theory Core_Patch
  imports Core_Insn
begin

text \<open>
  What a CO-RE relocation does to a program: the effect of \<^verbatim>\<open>bpf_core_patch_insn\<close> on the patched instruction and on the others, and that
  \<^verbatim>\<open>bpf_core_calc_relo_insn\<close> only succeeds when all candidates that match agree.
\<close>

section \<open>The patched instruction\<close>

text \<open>The number that the relocation is about, as the program has it: an immediate, an offset or a 64-bit immediate in two instructions.\<close>

definition is_alu_insn :: "bpf_insn \<Rightarrow> bool" where
  "is_alu_insn insn \<longleftrightarrow> BPF_CLASS (code insn) \<in> {BPF_ALU, BPF_ALU64}"

definition is_mem_insn :: "bpf_insn \<Rightarrow> bool" where
  "is_mem_insn insn \<longleftrightarrow> BPF_CLASS (code insn) \<in> {BPF_LDX, BPF_ST, BPF_STX}"

definition insn_operand :: "bpf_insn list \<Rightarrow> nat \<Rightarrow> u64" where
  "insn_operand prog i =
     (if is_alu_insn (prog ! i) then scast (imm (prog ! i))
      else if is_mem_insn (prog ! i) then scast (off (prog ! i))
      else ucast (imm (prog ! i)) OR push_bit 32 (scast (imm (prog ! (i + 1)))))"

lemma code_parts:
  assumes "b \<in> {BPF_W, BPF_H, BPF_B, BPF_DW}"
  shows "BPF_CLASS (BPF_MODE c OR b OR BPF_CLASS c) = BPF_CLASS c" "BPF_SIZE (BPF_MODE c OR b OR BPF_CLASS c) = b"
    "BPF_MODE (BPF_MODE c OR b OR BPF_CLASS c) = BPF_MODE c"
  using assms by (auto simp: BPF_CLASS_def BPF_SIZE_def BPF_MODE_def bit.conj_disj_distrib2 and.assoc)

lemma bytes_size: "insn_bytes_to_bpf_size n = Some b \<Longrightarrow> b \<in> {BPF_W, BPF_H, BPF_B, BPF_DW}"
  by (auto simp: insn_bytes_to_bpf_size_def split: if_splits)

lemma size_bytes_of:
  "insn_bytes_to_bpf_size n = Some b \<Longrightarrow> BPF_SIZE (code insn) = b \<Longrightarrow> word_of_int (insn_bpf_size_to_bytes insn) = n"
  by (auto simp: insn_bytes_to_bpf_size_def insn_bpf_size_to_bytes_def Let_def split: if_splits)

lemma small_off: "v \<le> SHRT_MAX \<Longrightarrow> scast (ucast (v :: u64) :: u16) = v"
proof -
  assume "v \<le> SHRT_MAX"
  then have "uint v \<le> 32767" by (simp add: SHRT_MAX_def word_le_def)
  then have "signed_take_bit 15 (uint v) = uint v" by (intro signed_take_bit_int_eq_self) (simp_all add: order_trans [OF _ uint_ge_0])
  then have "sint (ucast v :: u16) = uint v" using \<open>uint v \<le> 32767\<close> by (simp add: sint_uint unsigned_ucast_eq take_bit_int_eq_self)
  then show "scast (ucast v :: u16) = v" by (metis scast_eq word_of_int_uint)
qed

lemma ucast_scast: "ucast (scast (x :: u32) :: u64) = x"
proof (rule bit_word_eqI)
  fix n assume "n < LENGTH(32)"
  then have "min 31 n = n" by simp
  then show "bit (ucast (scast x :: u64) :: u32) n = bit x n" using \<open>n < LENGTH(32)\<close> by (simp add: bit_unsigned_iff bit_signed_iff)
qed

lemma imm64_back: "ucast (ucast (v :: u64) :: u32) OR push_bit 32 (scast (ucast (drop_bit 32 v) :: u32)) = v"
proof (rule bit_word_eqI)
  fix n assume n: "n < LENGTH(64)"
  show "bit (ucast (ucast v :: u32) OR push_bit 32 (scast (ucast (drop_bit 32 v) :: u32)) :: u64) n = bit v n"
  proof (cases "n < 32")
    case True
    then show ?thesis by (simp add: bit_or_iff bit_push_bit_iff bit_unsigned_iff)
  next
    case False
    then have "n - 32 < 32" "min 31 (n - 32) = n - 32" "32 + (n - 32) = n" using n by simp_all
    then show ?thesis using False n by (auto simp: bit_or_iff bit_push_bit_iff bit_unsigned_iff bit_signed_iff bit_drop_bit_eq)
  qed
qed

lemma ldimm64_class: "is_ldimm64_insn insn \<Longrightarrow> BPF_CLASS (code insn) = BPF_LD"
  by (simp add: is_ldimm64_insn_def BPF_CLASS_def)

text \<open>
  C25: When \<^verbatim>\<open>bpf_core_patch_insn\<close> reports success and has not made the instruction invalid, the whole
  program is known. The operand had the expected value if that is to be validated, and now is the
  new value (its low 32 bits for arithmetic instructions). Nothing else has changed: an arithmetic
  instruction and the two halves of a 64-bit load differ in \<^verbatim>\<open>imm\<close> only, a load or store differs in
  \<^verbatim>\<open>off\<close> and in the size bits of \<^verbatim>\<open>code\<close> only, whose class and mode bits are kept; the size was
  the original field size and is the new field size when these differ, and stays otherwise; all other
  instructions are as before.
\<close>

theorem core_patch_exact:
  assumes "bpf_core_patch_insn res i prog = Some (0, prog')" "\<not> poison res" "is_mem_insn (prog ! i) \<longrightarrow> \<not> fail_memsz_adjust res"
  shows "i < length prog \<and> length prog' = length prog \<and>
    (\<forall>j. j \<noteq> i \<and> (j = i + 1 \<longrightarrow> \<not> is_ldimm64_insn (prog ! i)) \<longrightarrow> prog' ! j = prog ! j) \<and>
    (if is_mem_insn (prog ! i)
     then prog' ! i = (prog ! i)\<lparr>off := off (prog' ! i), code := code (prog' ! i)\<rparr> \<and>
       BPF_CLASS (code (prog' ! i)) = BPF_CLASS (code (prog ! i)) \<and> BPF_MODE (code (prog' ! i)) = BPF_MODE (code (prog ! i))
     else prog' ! i = (prog ! i)\<lparr>imm := imm (prog' ! i)\<rparr>) \<and>
    (is_ldimm64_insn (prog ! i) \<longrightarrow> prog' ! (i + 1) = (prog ! (i + 1))\<lparr>imm := imm (prog' ! (i + 1))\<rparr>) \<and>
    (validate res \<longrightarrow> insn_operand prog i = orig_val res) \<and>
    (if is_alu_insn (prog ! i) then ucast (insn_operand prog' i) = (ucast (new_val res) :: u32) else insn_operand prog' i = new_val res) \<and>
    (if is_mem_insn (prog ! i) \<and> new_sz res \<noteq> orig_sz res
     then word_of_int (insn_bpf_size_to_bytes (prog ! i)) = orig_sz res \<and> word_of_int (insn_bpf_size_to_bytes (prog' ! i)) = new_sz res
     else code (prog' ! i) = code (prog ! i))"
proof -
  let ?c = "BPF_CLASS (code (prog ! i))"
  have i: "i < length prog" using assms(1) by (auto simp: bpf_core_patch_insn_def split: if_split_asm)
  have e: "0 \<noteq> - EINVAL" "0 \<noteq> - ERANGE" by (simp_all add: EINVAL_def ERANGE_def)
  consider (alu) "?c \<in> {BPF_ALU, BPF_ALU64}" | (mem) "?c \<in> {BPF_LDX, BPF_ST, BPF_STX}" | (ld) "?c = BPF_LD"
    using assms(1,2) i e by (auto simp: bpf_core_patch_insn_def Let_def split: if_split_asm)
  then show ?thesis
  proof cases
    case alu
    then have p: "prog' = prog[i := (prog ! i)\<lparr>imm := ucast (new_val res)\<rparr>]" "validate res \<longrightarrow> scast (imm (prog ! i)) = orig_val res"
      using assms(1,2) i e by (auto simp: bpf_core_patch_insn_def Let_def split: if_split_asm)
    have "\<not> is_mem_insn (prog ! i)" "\<not> is_ldimm64_insn (prog ! i)"
      using alu ldimm64_class [of "prog ! i"] by (auto simp: is_mem_insn_def)
    then show ?thesis using alu i p by (simp add: insn_operand_def is_alu_insn_def ucast_scast)
  next
    case mem
    then have na: "\<not> is_alu_insn (prog ! i)" "is_mem_insn (prog ! i)" "\<not> is_ldimm64_insn (prog ! i)"
      using ldimm64_class [of "prog ! i"] by (auto simp: is_alu_insn_def is_mem_insn_def)
    have pm: "patch_mem res i prog = Some (0, prog')" using assms(1,2) i mem by (auto simp: bpf_core_patch_insn_def Let_def split: if_split_asm)
    have v: "validate res \<longrightarrow> scast (off (prog ! i)) = orig_val res" "new_val res \<le> SHRT_MAX"
      using pm e by (auto simp: patch_mem_def Let_def not_less split: if_split_asm)
    note so = small_off [OF v(2)]
    let ?n = "(prog ! i)\<lparr>off := ucast (new_val res)\<rparr>"
    have sb: "insn_bpf_size_to_bytes ?n = insn_bpf_size_to_bytes (prog ! i)" by (simp add: insn_bpf_size_to_bytes_def)
    show ?thesis
    proof (cases "new_sz res = orig_sz res")
      case True
      then have p: "prog' = prog[i := ?n]" using pm e assms(3) na by (auto simp: patch_mem_def Let_def split: if_split_asm)
      show ?thesis using p i v na so True by (simp add: insn_operand_def is_alu_insn_def is_mem_insn_def)
    next
      case False
      then obtain b where b: "insn_bytes_to_bpf_size (new_sz res) = Some b" "word_of_int (insn_bpf_size_to_bytes (prog ! i)) = orig_sz res"
          "prog' = prog[i := ?n\<lparr>code := BPF_MODE (code (prog ! i)) OR b OR BPF_CLASS (code (prog ! i))\<rparr>]"
        using pm e assms(3) na sb by (auto simp: patch_mem_def Let_def split: if_split_asm option.split_asm)
      note cp = code_parts [OF bytes_size [OF b(1)], of "code (prog ! i)"]
      have "word_of_int (insn_bpf_size_to_bytes (prog' ! i)) = new_sz res" by (rule size_bytes_of [OF b(1)]) (simp add: b(3) i cp)
      then show ?thesis using b(2,3) i v na so False cp by (simp add: insn_operand_def is_alu_insn_def is_mem_insn_def)
    qed
  next
    case ld
    have na: "\<not> is_alu_insn (prog ! i)" "\<not> is_mem_insn (prog ! i)" using ld by (auto simp: is_alu_insn_def is_mem_insn_def)
    have pm: "patch_imm64 res i prog = Some (0, prog')" using assms(1,2) i ld by (auto simp: bpf_core_patch_insn_def Let_def split: if_split_asm)
    have p: "is_ldimm64_insn (prog ! i)" "i + 1 < length prog" "validate res \<longrightarrow> insn_operand prog i = orig_val res"
      "prog' = prog[i := (prog ! i)\<lparr>imm := ucast (new_val res)\<rparr>, i + 1 := (prog ! (i + 1))\<lparr>imm := ucast (drop_bit 32 (new_val res))\<rparr>]"
      using pm e na by (auto simp: patch_imm64_def Let_def insn_operand_def split: if_split_asm)
    show ?thesis using p(1-3) na imm64_back [of "new_val res"] unfolding p(4) by (simp add: insn_operand_def is_alu_insn_def is_mem_insn_def)
  qed
qed

theorem core_patch_exact_witness:
  "\<exists>prog'. bpf_core_patch_insn (res0\<lparr>orig_val := 8, new_val := 16\<rparr>) 0 [\<lparr>code = 0x61, dst_reg = 1, src_reg = 2, off = 8, imm = 0\<rparr>] = Some (0, prog') \<and>
     insn_operand prog' 0 = 16 \<and> dst_reg (prog' ! 0) = 1 \<and> BPF_MODE (code (prog' ! 0)) = 0x60"
proof -
  let ?p = "[\<lparr>code = 0x61, dst_reg = 1, src_reg = 2, off = 8, imm = 0\<rparr>]"
  let ?q = "[\<lparr>code = 0x61, dst_reg = 1, src_reg = 2, off = 16, imm = 0\<rparr>]"
  have p: "bpf_core_patch_insn (res0\<lparr>orig_val := 8, new_val := 16\<rparr>) 0 ?p = Some (0, ?q)" by code_simp
  have k: "\<not> is_alu_insn (?p ! 0)" "is_mem_insn (?p ! 0)" "BPF_MODE (code (?p ! 0)) = 0x60" by code_simp+
  have "insn_operand ?q 0 = 16 \<and> ?q ! 0 = (?p ! 0)\<lparr>off := off (?q ! 0), code := code (?q ! 0)\<rparr> \<and>
      BPF_MODE (code (?q ! 0)) = BPF_MODE (code (?p ! 0))"
    using core_patch_exact [OF p] k(1,2) by (simp add: res0_def)
  then show ?thesis using p k(3) by (intro exI [of _ ?q]) simp
qed

text \<open>
  \<^verbatim>\<open>bpf_core_patch_insn\<close> never touches an instruction other than the one it patches, and the second half of a 64-bit load, also when it fails; and a request to poison, or a load or store whose size must not be
  adjusted, leaves the invalid call that the verifier rejects in their place and reports success.
\<close>

theorem core_patch_local:
  assumes "bpf_core_patch_insn res i prog = Some (v, prog')"
  shows "length prog' = length prog \<and> (\<forall>j. j \<noteq> i \<and> (j = i + 1 \<longrightarrow> \<not> is_ldimm64_insn (prog ! i)) \<longrightarrow> prog' ! j = prog ! j) \<and>
    (poison res \<longrightarrow> v = 0 \<and> prog' ! i = bpf_core_poison_insn \<and> (is_ldimm64_insn (prog ! i) \<longrightarrow> prog' ! (i + 1) = bpf_core_poison_insn)) \<and>
    (v \<noteq> 0 \<longrightarrow> v = - EINVAL \<or> v = - ERANGE) \<and> (v \<noteq> 0 \<and> prog' \<noteq> prog \<longrightarrow> is_mem_insn (prog ! i) \<and> new_sz res \<noteq> orig_sz res)"
proof -
  have i: "i < length prog" using assms by (auto simp: bpf_core_patch_insn_def split: if_split_asm)
  have pa: "poison_at i prog = Some q \<Longrightarrow> length q = length prog \<and> (\<forall>j. j \<noteq> i \<and> (j = i + 1 \<longrightarrow> \<not> is_ldimm64_insn (prog ! i)) \<longrightarrow> q ! j = prog ! j) \<and>
      q ! i = bpf_core_poison_insn \<and> (is_ldimm64_insn (prog ! i) \<longrightarrow> q ! (i + 1) = bpf_core_poison_insn)" for q
    using i by (auto simp: poison_at_def split: if_split_asm)
  show ?thesis
  proof (cases "poison res")
    case True
    then show ?thesis using assms i pa by (auto simp: bpf_core_patch_insn_def Let_def)
  next
    case False
    have dec: "bpf_core_patch_insn res i prog =
        (if is_alu_insn (prog ! i) then
           (if BPF_SRC (code (prog ! i)) \<noteq> BPF_K \<or> validate res \<and> scast (imm (prog ! i)) \<noteq> orig_val res then Some (- EINVAL, prog)
            else Some (0, prog[i := (prog ! i)\<lparr>imm := ucast (new_val res)\<rparr>]))
         else if is_mem_insn (prog ! i) then patch_mem res i prog
         else if BPF_CLASS (code (prog ! i)) = BPF_LD then patch_imm64 res i prog else Some (- EINVAL, prog))"
      using i False by (simp add: bpf_core_patch_insn_def is_alu_insn_def is_mem_insn_def Let_def) blast
    show ?thesis
    proof (cases "is_alu_insn (prog ! i)")
      case True
      then have "v = - EINVAL \<and> prog' = prog \<or> v = 0 \<and> prog' = prog[i := (prog ! i)\<lparr>imm := ucast (new_val res)\<rparr>]"
        using assms unfolding dec by (simp split: if_split_asm)
      then show ?thesis using False by (auto simp: EINVAL_def)
    next
      case na: False
      show ?thesis
      proof (cases "is_mem_insn (prog ! i)")
        case True
        then have "patch_mem res i prog = Some (v, prog')" using assms na unfolding dec by simp
        then show ?thesis using False pa i True by (auto simp: patch_mem_def Let_def EINVAL_def ERANGE_def split: if_split_asm option.split_asm)
      next
        case nm: False
        show ?thesis
        proof (cases "BPF_CLASS (code (prog ! i)) = BPF_LD")
          case True
          then have "patch_imm64 res i prog = Some (v, prog')" using assms na nm unfolding dec by simp
          then show ?thesis using False i by (auto simp: patch_imm64_def Let_def EINVAL_def split: if_split_asm)
        next
          case nl: False
          then show ?thesis using assms na nm False unfolding dec by auto
        qed
      qed
    qed
  qed
qed

theorem core_patch_local_witness:
  "\<exists>prog'. bpf_core_patch_insn (res0\<lparr>poison := True\<rparr>) 0 [\<lparr>code = 0x18, dst_reg = 1, src_reg = 0, off = 0, imm = 7\<rparr>, \<lparr>code = 0, dst_reg = 0, src_reg = 0, off = 0, imm = 0\<rparr>] =
     Some (0, prog') \<and> prog' ! 0 = bpf_core_poison_insn \<and> prog' ! 1 = bpf_core_poison_insn"
proof -
  let ?p = "[\<lparr>code = 0x18, dst_reg = 1, src_reg = 0, off = 0, imm = 7\<rparr>, \<lparr>code = 0, dst_reg = 0, src_reg = 0, off = 0, imm = 0\<rparr>]"
  have p: "bpf_core_patch_insn (res0\<lparr>poison := True\<rparr>) 0 ?p = Some (0, [bpf_core_poison_insn, bpf_core_poison_insn])" by code_simp
  have k: "is_ldimm64_insn (?p ! 0)" by code_simp
  show ?thesis using core_patch_local [OF p] p k by simp
qed

section \<open>The choice among candidates\<close>

definition cand_matches :: "bpf_core_spec \<Rightarrow> cand \<Rightarrow> bool" where
  "cand_matches ls c = (case bpf_core_spec_match ls (fst c) (snd c) of Some (m, _) \<Rightarrow> m > 0 | None \<Rightarrow> False)"

text \<open>A candidate that gives the decision \<open>res\<close> at bit \<open>o1\<close>.\<close>

definition cand_agrees :: "bpf_core_relo \<Rightarrow> bpf_core_spec \<Rightarrow> bpf_core_relo_res \<Rightarrow> u32 \<Rightarrow> cand \<Rightarrow> bool" where
  "cand_agrees relo ls res o1 c \<longleftrightarrow> (\<exists>m s r. bpf_core_spec_match ls (fst c) (snd c) = Some (m, s) \<and>
     bpf_core_calc_relo relo ls (Some s) = Some (0, r) \<and> bit_offset s = o1 \<and> poison r = poison res \<and> new_val r = new_val res)"

text \<open>One step of the loop for a candidate.\<close>

lemma cand_loop_step:
  assumes "cand_loop relo ls (c # cs) kept best = Some (Inr x)"
  shows "if cand_matches ls c
    then \<exists>res s. cand_agrees relo ls res (bit_offset s) c \<and> (best = None \<or> best = Some (res, s)) \<and> cand_loop relo ls cs (kept @ [c]) (Some (res, s)) = Some (Inr x) \<and>
      (\<forall>ds. cand_loop relo ls (c # ds) kept best = cand_loop relo ls ds (kept @ [c]) (Some (res, s)))
    else cand_loop relo ls cs kept best = Some (Inr x)"
proof -
  obtain m s where m: "bpf_core_spec_match ls (fst c) (snd c) = Some (m, s)" "\<not> m < 0" using assms by (auto simp: bind_eq_Some_conv split: if_split_asm)
  show ?thesis
  proof (cases "m = 0")
    case True
    then show ?thesis using assms m by (simp add: cand_matches_def)
  next
    case False
    obtain r where r: "bpf_core_calc_relo relo ls (Some s) = Some (0, r)"
      using assms m False by (auto simp: bind_eq_Some_conv split: if_split_asm)
    have cm: "cand_matches ls c" using m False by (simp add: cand_matches_def)
    show ?thesis
    proof (cases best)
      case None
      then show ?thesis using assms m False r cm by (auto simp: cand_agrees_def)
    next
      case (Some b)
      obtain res t where b: "best = Some (res, t)" using Some by (cases b) simp
      have e: "bit_offset s = bit_offset t" "poison r = poison res" "new_val r = new_val res" using assms m False r b by (auto split: if_split_asm)
      then show ?thesis using assms m False r cm b by (auto simp: cand_agrees_def)
    qed
  qed
qed

lemma cand_loop_ok:
  "cand_loop relo ls cs kept best = Some (Inr (kept', best')) \<Longrightarrow>
     kept' = kept @ filter (cand_matches ls) cs \<and>
     (if filter (cand_matches ls) cs = [] then best' = best
      else \<exists>res s. best' = Some (res, s) \<and> (best = None \<or> best = Some (res, s)) \<and> (\<forall>c \<in> set cs. cand_matches ls c \<longrightarrow> cand_agrees relo ls res (bit_offset s) c)) \<and>
     cand_loop relo ls (filter (cand_matches ls) cs) kept best = Some (Inr (kept', best'))"
proof (induction cs arbitrary: kept best)
  case (Cons c cs)
  note st = cand_loop_step [OF Cons.prems]
  show ?case
  proof (cases "cand_matches ls c")
    case True
    then obtain res s where s: "cand_agrees relo ls res (bit_offset s) c" "best = None \<or> best = Some (res, s)"
        "cand_loop relo ls cs (kept @ [c]) (Some (res, s)) = Some (Inr (kept', best'))"
        "\<And>ds. cand_loop relo ls (c # ds) kept best = cand_loop relo ls ds (kept @ [c]) (Some (res, s))"
      using st by (auto simp del: cand_loop.simps)
    note ih = Cons.IH [OF s(3)]
    have "(\<forall>c \<in> set cs. cand_matches ls c \<longrightarrow> cand_agrees relo ls res (bit_offset s) c) \<and> best' = Some (res, s)"
    proof (cases "filter (cand_matches ls) cs = []")
      case True
      then have "\<forall>c \<in> set cs. \<not> cand_matches ls c" by (simp add: filter_empty_conv)
      moreover have "best' = Some (res, s)" using conjunct1 [OF conjunct2 [OF ih]] unfolding if_P [OF True] .
      ultimately show ?thesis by blast
    next
      case False
      obtain res' s' where "best' = Some (res', s')" "Some (res, s) = Some (res', s')" "\<forall>c \<in> set cs. cand_matches ls c \<longrightarrow> cand_agrees relo ls res' (bit_offset s') c"
        using conjunct1 [OF conjunct2 [OF ih]] unfolding if_not_P [OF False] by blast
      then show ?thesis by simp
    qed
    then have ag: "\<forall>c \<in> set cs. cand_matches ls c \<longrightarrow> cand_agrees relo ls res (bit_offset s) c" and b: "best' = Some (res, s)" by blast+
    have k: "kept' = kept @ filter (cand_matches ls) (c # cs)" using ih True by simp
    have lp: "cand_loop relo ls (filter (cand_matches ls) (c # cs)) kept best = Some (Inr (kept', best'))"
      using ih True s(4) by (simp del: cand_loop.simps)
    have "\<forall>c \<in> set (c # cs). cand_matches ls c \<longrightarrow> cand_agrees relo ls res (bit_offset s) c" using ag s(1) by simp
    then show ?thesis using k lp b s(2) True by (intro conjI) (simp_all del: cand_loop.simps)
  next
    case False
    then show ?thesis using Cons.IH st by simp
  qed
qed simp

text \<open>
  C24: A relocation only gets a decision when all the candidates that the local spec matches give the same decision: the same bit offset, the same new value and the same choice whether to poison.
  The list of candidates is then reduced to these, and the same relocation on the reduced list gives the same result again. When no
  candidate matches, the list stays and the decision is the one for a missing target.
\<close>

theorem core_choice_agrees:
  assumes "bpf_core_calc_relo_insn relo lb cands = Some (Inr (res, cands'))" "r_kind relo \<noteq> BPF_CORE_TYPE_ID_LOCAL" "bpf_core_parse_spec lb relo = Some (Inr ls)"
  shows "(if filter (cand_matches ls) cands = [] then cands' = cands \<and> bpf_core_calc_relo relo ls None = Some (0, res)
      else cands' = filter (cand_matches ls) cands \<and> (\<exists>o1. \<forall>c \<in> set cands'. cand_agrees relo ls res o1 c)) \<and>
    bpf_core_calc_relo_insn relo lb cands' = Some (Inr (res, cands'))"
proof -
  obtain lt n where l: "btf_type_by_id lb (unat (r_type_id relo)) = Some lt" "btf__name_by_offset lb (name_off lt) = Some n" "\<not> str_is_empty n" "n \<noteq> Null"
    using assms by (auto simp: bpf_core_calc_relo_insn_def bind_eq_Some_conv split: if_split_asm)
  have red: "bpf_core_calc_relo_insn relo lb cs = do {
       lr \<leftarrow> cand_loop relo ls cs [] None;
       case lr of Inl e \<Rightarrow> Some (Inl e) | Inr (kept, Some (targ_res, _)) \<Rightarrow> Some (Inr (targ_res, kept))
       | Inr (kept, None) \<Rightarrow> do { (err, targ_res) \<leftarrow> bpf_core_calc_relo relo ls None; Some (if err \<noteq> 0 then Inl err else Inr (targ_res, cs)) } }" for cs
    using l assms(2,3) by (simp add: bpf_core_calc_relo_insn_def)
  obtain lr where lr: "cand_loop relo ls cands [] None = Some lr" using assms(1) unfolding red by (auto simp: bind_eq_Some_conv)
  obtain kept best where kb: "cand_loop relo ls cands [] None = Some (Inr (kept, best))"
    using assms(1) unfolding red lr by (cases lr) auto
  note ok = cand_loop_ok [OF kb]
  show ?thesis
  proof (cases "filter (cand_matches ls) cands = []")
    case True
    then have "best = None" using ok by simp
    then obtain err r where r: "bpf_core_calc_relo relo ls None = Some (err, r)" "(if err \<noteq> 0 then Inl err else Inr (r, cands)) = Inr (res, cands')"
      using assms(1) unfolding red kb by (auto simp: bind_eq_Some_conv)
    then show ?thesis using True assms(1) by (auto split: if_split_asm)
  next
    case False
    then obtain s where s: "best = Some (res, s)" "cands' = kept" "kept = filter (cand_matches ls) cands"
        "\<forall>c \<in> set cands. cand_matches ls c \<longrightarrow> cand_agrees relo ls res (bit_offset s) c"
      using ok assms(1) unfolding red kb by auto
    have "cand_loop relo ls kept [] None = Some (Inr (kept, best))" using ok s(3) by simp
    then have "bpf_core_calc_relo_insn relo lb cands' = Some (Inr (res, cands'))" unfolding red s(2) by (simp add: s(1))
    then show ?thesis using False s by auto
  qed
qed

lemma example_values:
  "bpf_core_calc_relo relo_example local_spec_example (Some targ_spec_example) =
     Some (0, res0\<lparr>new_val := 4, orig_sz := 4, orig_type_id := 1, new_sz := 4, new_type_id := 1\<rparr>)"
proof -
  let ?t = "\<lparr>name_off = 1, info = 0x04000001, size_type = 4, tail = [3, 1, 0]\<rparr>"
  have m: "btf_members ?t 0 = Some \<lparr>m_name_off = 3, m_type = 1, m_offset = 0\<rparr>" "btf_member_bitfield_size ?t 0 = Some 0"
    "btf_members targ_struct 1 = Some \<lparr>m_name_off = 5, m_type = 1, m_offset = 32\<rparr>" "btf_member_bitfield_size targ_struct 1 = Some 0"
    "btf_kind int_example \<in> kinds_with_size" "size_type int_example = 4" "core_relo_is_field_based 0"
    by code_simp+
  note lf = type_by_id_plain [OF local_facts(2)] skip_plain [OF local_facts(1), simplified] size_plain [OF local_facts(1) m(5), simplified]
  note tf = type_by_id_plain [OF targ_facts(2)] skip_plain [OF targ_facts(1), simplified] size_plain [OF targ_facts(1) m(5), simplified]
  have "bpf_core_calc_field_relo relo_example (Some local_spec_example) = Some (Inr \<lparr>f_val = 0, f_sz = 4, f_type = 1, f_validate = True\<rparr>)"
    using lf m by (simp add: bpf_core_calc_field_relo_def relo_example_def local_spec_example_def no_vals_def)
  moreover have "bpf_core_calc_field_relo relo_example (Some targ_spec_example) = Some (Inr \<lparr>f_val = 4, f_sz = 4, f_type = 1, f_validate = True\<rparr>)"
    using tf m by (simp add: bpf_core_calc_field_relo_def relo_example_def targ_spec_example_def no_vals_def)
  ultimately show ?thesis
    using m(7) by (simp add: bpf_core_calc_relo_def calc_values_def memsz_fail_def res0_def EUCLEAN_def relo_example_def)
qed

theorem core_choice_agrees_witness:
  "\<exists>res. bpf_core_calc_relo_insn relo_example local_example [(targ_example, 2)] = Some (Inr (res, [(targ_example, 2)])) \<and> new_val res = 4 \<and>
     (\<exists>o1. \<forall>c \<in> set [(targ_example, 2)]. cand_agrees relo_example local_spec_example res o1 c)"
proof -
  let ?r = "res0\<lparr>new_val := 4, orig_sz := 4, orig_type_id := 1, new_sz := 4, new_type_id := 1\<rparr>"
  have k: "unat (r_type_id relo_example) = 2" "r_kind relo_example = 0" by (simp_all add: relo_example_def)
  have l: "cand_loop relo_example local_spec_example [(targ_example, 2)] [] None = Some (Inr ([(targ_example, 2)], Some (?r, targ_spec_example)))"
    by (simp add: targ_match example_values)
  have c: "bpf_core_calc_relo_insn relo_example local_example [(targ_example, 2)] = Some (Inr (?r, [(targ_example, 2)]))"
    unfolding bpf_core_calc_relo_insn_def local_parse l k bind.bind_lunit type_by_id_plain [OF local_facts(2)]
    using local_facts(5) l by (simp add: str_is_empty_def del: cand_loop.simps)
  have "filter (cand_matches local_spec_example) [(targ_example, 2)] \<noteq> []" by (simp add: cand_matches_def targ_match)
  then have "\<exists>o1. \<forall>c \<in> set [(targ_example, 2)]. cand_agrees relo_example local_spec_example ?r o1 c"
    using conjunct1 [OF core_choice_agrees [OF c _ local_parse]] k(2) by (simp del: filter.simps split: if_split_asm)
  then show ?thesis using c by (intro exI [of _ ?r]) simp
qed

end
