(* ===== verification/Spec2Isabelle.thy ===== *)
theory Spec2Isabelle
  imports Sha256_Constants End_To_End Patch_Ports Kern_Debug Stats_Props Libbpf_Maps Loader
    Hashmap Xsk_Ring Filter_User Zip Nlattr Prog_Linfo Ringbuf Strset Btf_Merge Core_Patch
begin

text \<open>
  Verification of the C code under \<^verbatim>\<open>src/Network Authentication\<close>: XDP programs that authenticate IP headers with a keyed
  SHA-256, the user space programs that check, load and measure them, and core parts of the libraries they are built on.

  \<^bold>\<open>The programs and how they interact.\<close> \<^verbatim>\<open>packet-solutions/xdp_prog_kern_02.c\<close> is compiled in two ways. In the first, \<^verbatim>\<open>xdp_ip_hash_func\<close>
  parses a packet, computes a keyed SHA-256 of its IP header, makes the packet longer and writes the hash into a new IP option; in the second,
  \<^verbatim>\<open>xdp_patch_ports_func\<close> rewrites TCP and UDP ports. Both count their verdicts in a per-CPU map. \<^verbatim>\<open>packet-solutions/hash_verifier.c\<close> captures
  packets, takes the option out of the header again and compares the hashes. \<^verbatim>\<open>basic-solutions/xdp_loader.c\<close> loads and attaches the programs and pins their maps,
  \<^verbatim>\<open>basic-solutions/xdp_stats.c\<close> reads the pinned counters; both use \<^verbatim>\<open>common/\<close>. Under \<^verbatim>\<open>lib/\<close> are libbpf and xdp-tools, with a second
  packet filter, \<^verbatim>\<open>xdp-filter\<close>, whose user space commands write the maps that its XDP program reads.

  \<^bold>\<open>Memory, errors and loops.\<close> Memory is a list of bytes; an access outside it makes a definition \<open>None\<close>, so that safety is a theorem that the result is
  \<open>Some\<close>. Machine integers are words of their width. Negative error numbers and null pointers are values of the result.
  Results of system calls, of the verifier's SHA-256 from OpenSSL, of \<^verbatim>\<open>bpf_xdp_adjust_head\<close>, and the content of uninitialised memory are arguments. Where a
  property relies on documented behaviour of such a function, it is a hypothesis, and the witness has a concrete function for it. Loops
  over data are structural or have a termination proof. The endless loops of \<^verbatim>\<open>xdp_stats\<close> take fuel, with a theorem that enough fuel
  ends them once the map is gone; the loop of a ring buffer consumer is a partial function, with a theorem that it returns.

  \<^bold>\<open>Theories of the programs.\<close>
  \<^item> \<open>Prelude\<close>: byte memory, loads and stores, byte order (\<^verbatim>\<open>bpf_endian.h\<close>), error numbers, loops whose body can fault (\<open>ofold\<close>), and the locales \<open>simulation\<close> and \<open>trace_refinement\<close> that carry one step
    of a component to all sequences of calls.
  \<^item> \<open>Sha256\<close>, \<open>Sha256_Correct\<close>, \<open>Sha256_Constants\<close>: the streaming SHA-256 over the two per-CPU maps, the standard as a function of the message,
    and that the first computes the second for any division of a message into updates. Every access to an array of the context, the scratch memory and the tables is checked, so that
    staying inside them is part of the theorems (\<open>maps_sized\<close> says that the map values have their declared sizes).
  \<^item> \<open>Parsing\<close>, \<open>Rewrite\<close>, \<open>Checksum\<close>: \<^verbatim>\<open>common/parsing_helpers.h\<close> with the contract of a header parser as the locale \<open>header_parser\<close>, interpreted on all eight parsers, and chains of parsers as
    \<open>parser_chain\<close>; \<^verbatim>\<open>common/rewrite_helpers.h\<close> over the contract \<open>head_adjust\<close>, with the round trip of VLAN tags; the IP checksum against the one's complement sum of RFC 1071
    (\<open>inet_checksum_ok\<close>).
  \<^item> \<open>Stats_Kern\<close>, \<open>Hash_Kern\<close>, \<open>Hash_Kern_Props\<close>, \<open>Patch_Ports\<close>, \<open>Kern_Debug\<close>: \<^verbatim>\<open>xdp_stats_kern.h\<close> and the kernel programs. Shown: memory safety for every packet and
    every behaviour of the helper, the exact packet that leaves, untouched packets on every refused input, and the two defects of the option writer.
  \<^item> \<open>Hash_Verifier\<close>, \<open>Hash_Verifier_Props\<close>, \<open>End_To_End\<close>: the verifier, when it reports a match, and what it reports for the packets that the kernel program writes: the two
    sides agree on the header but not on the key, so a match needs a collision.
  \<^item> \<open>User_Bpf\<close>, \<open>Params\<close>, \<open>Libbpf_Maps\<close>, \<open>Loader\<close>, \<open>Stats_User\<close>, \<open>Stats_Props\<close>: \<^verbatim>\<open>common/*.c\<close>, \<^verbatim>\<open>xdp_loader.c\<close> and \<^verbatim>\<open>xdp_stats.c\<close>. Shown: the configuration invariant of the
    command line parser, sharing of pinned maps, with \<^verbatim>\<open>bpf_map__reuse_fd\<close> of libbpf, which replaces a map by a pinned one and
    frees a name that its caller still reads, and that the sums the user reads are exactly the packets counted on all CPUs, in every interleaving (\<open>counted\<close> is the inductive
    set of reachable counter states).

  \<^bold>\<open>Theories of the libraries.\<close>
  \<^item> \<open>Hashmap\<close>: \<^verbatim>\<open>libbpf/src/hashmap.c\<close> and \<^verbatim>\<open>hashmap.h\<close>. Every sequence of calls refines a map, also when allocations fail (interpretation \<open>hm\<close>).
  \<^item> \<open>Strset\<close>: \<^verbatim>\<open>libbpf/src/strset.c\<close>, the client of the hash table. Keys are offsets into a buffer that changes between the calls; every sequence of calls refines a map from strings to
    offsets (interpretation \<open>strs\<close>) that starts with the first offsets of the strings of the initial text.
  \<^item> \<open>Xsk_Ring\<close>: the AF_XDP rings of \<^verbatim>\<open>xsk.h\<close>. Any interleaving of producer and consumer refines a bounded queue, across the wrap-around of the 32-bit counters (interpretation \<open>xr\<close>).
  \<^item> \<open>Lib_Parsing\<close>, \<open>Xdp_Filter\<close>, \<open>Filter_User\<close>: the parsers and the packet filter of xdp-tools (\<^verbatim>\<open>xdp/parsing_helpers.h\<close>, \<^verbatim>\<open>xdpfilt_prog.h\<close>) and the commands of \<^verbatim>\<open>xdp-filter.c\<close> that write
    its rules. The parsers satisfy the weaker contract \<open>lax_parser\<close>; the IPv6 parser accepts exactly the chains of the inductive relation \<open>ip6_chain\<close>. The filter decides by rules that are stated without the program (\<open>packet_hit\<close>, \<open>packet_bad\<close>), counts each hit once, and its counters never
    influence a verdict. What a rule command changes is stated by what the kernel's \<open>CHECK_MAP\<close> hits afterwards on each CPU.
  \<^item> \<open>Zip\<close>: \<^verbatim>\<open>libbpf/src/zip.c\<close>, safe on every file content. \<open>Nlattr\<close>: \<^verbatim>\<open>nlattr.c\<close> and \<^verbatim>\<open>nlattr.h\<close>, safe parsing and the round trip of attributes.
  \<^item> \<open>Prog_Linfo\<close>: \<^verbatim>\<open>libbpf/src/bpf_prog_linfo.c\<close>, how line records are divided among compiled functions, and what the searches find.
  \<^item> \<open>Ringbuf\<close>: \<^verbatim>\<open>libbpf/src/ringbuf.c\<close>, the consumer of ring buffers and the producer of user ring buffers.
  \<^item> \<open>Btf_Type\<close>, \<open>Btf_Parse\<close>, \<open>Btf\<close>: the type information of \<^verbatim>\<open>libbpf/src/btf.c\<close> and \<^verbatim>\<open>btf.h\<close>. The words of a type and their byte order; loading and writing BTF, safe on every
    input and a round trip of images in both byte orders; the questions that can be asked of loaded BTF, with the inductive relation \<open>sized\<close> as the specification of sizes.
  \<^item> \<open>Btf_Build\<close>, \<open>Btf_Build_Props\<close>, \<open>Btf_Build_Spec\<close>: building BTF with the \<^verbatim>\<open>btf__add_*\<close> functions of \<^verbatim>\<open>btf.c\<close>, over the string set. Every sequence of calls refines a list of types with their names (interpretation
    \<open>builder\<close>), whichever allocations fail, and what was built is read back from its raw data.
  \<^item> \<open>Btf_Copy\<close>, \<open>Btf_Merge\<close>: copying one type and all types of another BTF into BTF that is being built. The copied types are the types of the source with their names and with type ids moved behind the types that
    were there (\<open>shift\<close>); when an allocation fails nothing that can be seen changes, except where the code's way out writes through a null pointer.
  \<^item> \<open>Core_Compat\<close>, \<open>Core_Relo\<close>, \<open>Core_Match\<close>, \<open>Core_Insn\<close>, \<open>Core_Patch\<close>: \<^verbatim>\<open>libbpf/src/relo_core.c\<close>, the relocation of field accesses between two BTFs. Compatibility of types; access specs and their
    match in a target, which is the spec that parsing the found path gives; the values of a relocation, with what shifting a loaded bit field yields; the choice
    among candidates and the patch of an instruction.

  \<^bold>\<open>Bounds.\<close> Hash table sizes are natural numbers, below \<open>2 ^ 61\<close> because \<^verbatim>\<open>calloc\<close> refuses more. Ring sizes are powers of two up to \<open>2 ^ 31\<close>, as the kernel
  requires. Searching line records assumes tables below 4 GiB, since the code multiplies in 32 bits. The consumer of a ring buffer is shown to end while
  the kernel is quiet; a kernel that always adds samples keeps it busy for ever. The search for a member through unnamed members takes 65 units of fuel, one more than the 64 entries of the path
  that each level fills (\<open>match_fuel_enough\<close>). Building BTF is for lists below 65536 elements, since
  the code does not mask the count. Following modifiers and array elements of untrusted BTF need not end and is a partial function.

  \<^bold>\<open>Not modelled.\<close> ELF loading and linking (most of \<^verbatim>\<open>libbpf.c\<close>, \<^verbatim>\<open>linker.c\<close> and others), whose calls the programs make only through a few
  functions that are arguments here; deduplicating and printing types (the rest of \<^verbatim>\<open>btf.c\<close>, \<^verbatim>\<open>btf_dump.c\<close>); libxdp and the socket setup in \<^verbatim>\<open>xsk.c\<close>, and waiting in \<^verbatim>\<open>ringbuf.c\<close>, which are sequences of system calls;
  the load, unload, status and poll commands of \<^verbatim>\<open>xdp-filter\<close>; \<^verbatim>\<open>xdp-dump\<close>, \<^verbatim>\<open>xdp-loader\<close> and the utility library of xdp-tools; the second copy of libbpf; kernel headers;
  test scripts; the C++ programs under \<^verbatim>\<open>Compression\<close> and the Python exercises.

  \<^bold>\<open>Next.\<close> The remaining commands of \<^verbatim>\<open>xdp-filter\<close>, and the option parser of xdp-tools.
\<close>

end
